(* ===== verification/Prelude.thy ===== *)
theory Prelude
  imports Main "HOL-Library.Word"
begin

text \<open>
  Shared vocabulary of the development.  Python \<open>bytes\<close> are lists of 8-bit words, so that
  every list is a legal byte string; Python integers that the code keeps non-negative are
  \<open>nat\<close>, the others \<open>int\<close>.  A Python exception is a value of \<open>exn\<close> on the left of a sum, and
  \<open>ebind\<close> is the sequencing of statements that may raise.  The theory also holds the integer
  and byte conversions of the Python standard library that the sources use
  (\<open>int.from_bytes\<close>, \<open>int.to_bytes\<close>, \<open>struct.pack\<close>, \<open>struct.unpack_from\<close>, slicing,
  \<open>bit_length\<close>) with their laws, and the two interface locales for encoders and decoders.
\<close>

unbundle bit_operations_syntax

section \<open>Exceptions and sequencing\<close>

datatype exn =
    Err string            \<comment> \<open>the \<open>Err\<close> class of \<open>tools/gen_rlp_vectors.py\<close>\<close>
  | TxErr string          \<comment> \<open>the \<open>TxErr\<close> class of \<open>guest/test/exp_tx.py\<close>\<close>
  | ValueError
  | IndexError
  | KeyError
  | TypeError
  | OverflowError
  | StructError
  | AssertionError
  | AttributeError
  | RuntimeError string
  | Invalid string        \<comment> \<open>the \<open>Invalid\<close> class of \<open>tools/gen_bn254_vectors.py\<close>\<close>
  | DecodingError         \<comment> \<open>of the \<open>ethereum_rlp\<close> package\<close>

type_synonym byte = "8 word"
type_synonym bytes = "byte list"
type_synonym 'a res = "exn + 'a"

definition ebind :: "'a res \<Rightarrow> ('a \<Rightarrow> 'b res) \<Rightarrow> 'b res" where
  "ebind m f = (case m of Inl e \<Rightarrow> Inl e | Inr x \<Rightarrow> f x)"

definition require :: "bool \<Rightarrow> exn \<Rightarrow> unit res" where
  "require c e = (if c then Inr () else Inl e)"

lemma ebind_simps [simp]: "ebind (Inl e) f = Inl e" "ebind (Inr x) f = f x"
  by (simp_all add: ebind_def)

lemma ebind_cong [fundef_cong]:
  "m = m' \<Longrightarrow> (\<And>x. m' = Inr x \<Longrightarrow> f x = f' x) \<Longrightarrow> ebind m f = ebind m' f'"
  by (auto simp: ebind_def split: sum.splits)

lemma ebind_Inr_iff: "ebind m f = Inr y \<longleftrightarrow> (\<exists>x. m = Inr x \<and> f x = Inr y)"
  by (auto simp: ebind_def split: sum.splits)

lemma ebind_InrE [elim!]:
  assumes "ebind m f = Inr y" obtains x where "m = Inr x" and "f x = Inr y"
  using assms by (auto simp: ebind_Inr_iff)

lemma ebind_assoc: "ebind (ebind m f) g = ebind m (\<lambda>x. ebind (f x) g)"
  by (auto simp: ebind_def split: sum.splits)

lemma ebind_Inr [simp]: "ebind m Inr = m"
  by (simp add: ebind_def split: sum.splits)

lemma require_simps [simp]:
  "require c e = Inr u \<longleftrightarrow> c" "require True e = Inr ()" "require False e = Inl e"
  by (auto simp: require_def)

text \<open>A list comprehension whose body may raise: the first exception stops it.\<close>

primrec emap :: "('a \<Rightarrow> 'b res) \<Rightarrow> 'a list \<Rightarrow> 'b list res" where
  "emap f [] = Inr []"
| "emap f (x # xs) = ebind (f x) (\<lambda>y. ebind (emap f xs) (\<lambda>ys. Inr (y # ys)))"

lemma emap_cong [fundef_cong]:
  "xs = ys \<Longrightarrow> (\<And>x. x \<in> set ys \<Longrightarrow> f x = g x) \<Longrightarrow> emap f xs = emap g ys"
  by (induction xs arbitrary: ys) auto

lemma emap_Inr_iff: "emap f xs = Inr ys \<longleftrightarrow> list_all2 (\<lambda>x y. f x = Inr y) xs ys"
proof (induction xs arbitrary: ys)
  case Nil
  then show ?case by auto
next
  case (Cons x xs)
  show ?case by (cases ys) (auto simp: ebind_Inr_iff Cons.IH)
qed

lemma emap_append:
  "emap f (xs @ ys) = ebind (emap f xs) (\<lambda>as. ebind (emap f ys) (\<lambda>bs. Inr (as @ bs)))"
  by (induction xs) (auto simp: ebind_def split: sum.splits)

lemma emap_Inr: "(\<And>x. x \<in> set xs \<Longrightarrow> f x = Inr (g x)) \<Longrightarrow> emap f xs = Inr (map g xs)"
  by (induction xs) auto

text \<open>A list display: its elements are evaluated in order, the first exception stops it.\<close>

definition seqs :: "'a res list \<Rightarrow> 'a list res" where
  "seqs = emap (\<lambda>m. m)"

lemma seqs_simps [simp]: "seqs [] = Inr []" "seqs (m # ms) = ebind m (\<lambda>x. ebind (seqs ms) (\<lambda>xs. Inr (x # xs)))"
  by (simp_all add: seqs_def)

lemma seqs_map: "seqs (map f xs) = emap f xs"
  by (induction xs) auto

lemma seqs_append: "seqs (xs @ ys) = ebind (seqs xs) (\<lambda>as. ebind (seqs ys) (\<lambda>bs. Inr (as @ bs)))"
  by (simp add: seqs_def emap_append)

text \<open>Reading a dictionary key that may be absent.\<close>

definition key :: "'a option \<Rightarrow> 'a res" where
  "key x = (case x of None \<Rightarrow> Inl KeyError | Some v \<Rightarrow> Inr v)"

lemma key_simps [simp]: "key None = Inl KeyError" "key (Some v) = Inr v"
  by (simp_all add: key_def)

lemma key_Inr_iff: "key x = Inr v \<longleftrightarrow> x = Some v"
  by (cases x) auto

lemma emap_length: "emap f xs = Inr ys \<Longrightarrow> length ys = length xs"
  by (simp add: emap_Inr_iff list_all2_lengthD)

section \<open>Slices, indices and truth values\<close>

text \<open>Python's \<open>b[i:j]\<close> and \<open>b[i]\<close> for non-negative \<open>i\<close> and \<open>j\<close>.\<close>

definition bslice :: "'a list \<Rightarrow> nat \<Rightarrow> nat \<Rightarrow> 'a list" where
  "bslice b i j = take (j - i) (drop i b)"

definition index_at :: "'a list \<Rightarrow> nat \<Rightarrow> 'a res" where
  "index_at b i = (if i < length b then Inr (b ! i) else Inl IndexError)"

lemma index_at_iff [simp]: "index_at b i = Inr x \<longleftrightarrow> i < length b \<and> x = b ! i"
  by (auto simp: index_at_def)

lemma length_bslice [simp]: "length (bslice b i j) = min (j - i) (length b - i)"
  by (simp add: bslice_def)

lemma bslice_append_right [simp]:
  "bslice (xs @ ys) (length xs) (length xs + n) = take n ys"
  by (simp add: bslice_def)

lemma bslice_middle: "i = length xs \<Longrightarrow> j = length xs + length ys \<Longrightarrow> bslice (xs @ ys @ zs) i j = ys"
  by (simp add: bslice_def)

lemma bslice_all [simp]: "bslice b 0 (length b) = b" "bslice b i i = []"
  by (simp_all add: bslice_def)

lemma bslice_append:
  "i \<le> j \<Longrightarrow> j \<le> k \<Longrightarrow> bslice b i j @ bslice b j k = bslice b i k"
proof -
  assume "i \<le> j" "j \<le> k"
  then obtain m n where j: "j = i + m" and k: "k = i + m + n"
    by (metis le_Suc_ex)
  show ?thesis
    using take_add [of m n "drop i b"] by (simp add: bslice_def j k add.commute)
qed

lemma length_concat_const: "\<forall>x \<in> set xs. length x = m \<Longrightarrow> length (concat xs) = m * length xs"
  by (induction xs) simp_all

lemma bslice_concat:
  assumes "\<forall>x \<in> set xs. length x = m" "k < length xs"
  shows "bslice (concat xs) (m * k) (m * k + m) = xs ! k"
proof -
  have "concat xs = concat (take k xs) @ xs ! k @ concat (drop (Suc k) xs)"
    using id_take_nth_drop [OF assms(2)] by (metis concat.simps(2) concat_append)
  moreover have "length (concat (take k xs)) = m * k"
    using length_concat_const [of "take k xs" m] assms set_take_subset [of k xs] by auto
  ultimately show ?thesis using assms by (metis bslice_middle nth_mem)
qed

definition zeros :: "nat \<Rightarrow> bytes" where
  \<comment> \<open>\<open>bytes(n)\<close>\<close>
  "zeros n = replicate n 0"

lemma length_zeros [simp]: "length (zeros n) = n"
  by (simp add: zeros_def)

section \<open>Integer and byte conversions\<close>

text \<open>\<open>int.from_bytes(b, "big")\<close> and \<open>int.from_bytes(b, "little")\<close>.\<close>

definition from_be :: "bytes \<Rightarrow> nat" where
  "from_be bs = foldl (\<lambda>a b. a * 256 + unat b) 0 bs"

definition from_le :: "bytes \<Rightarrow> nat" where
  "from_le bs = from_be (rev bs)"

text \<open>
  \<open>n.to_bytes(k, "big")\<close> and \<open>n.to_bytes(k, "little")\<close>: an \<open>OverflowError\<close> where \<open>n\<close> does not
  fit \<open>k\<close> bytes.
\<close>

primrec be_fix :: "nat \<Rightarrow> nat \<Rightarrow> bytes" where
  "be_fix 0 n = []"
| "be_fix (Suc k) n = be_fix k (n div 256) @ [word_of_nat n]"

definition le_fix :: "nat \<Rightarrow> nat \<Rightarrow> bytes" where
  "le_fix k n = rev (be_fix k n)"

definition to_be :: "nat \<Rightarrow> nat \<Rightarrow> bytes res" where
  "to_be k n = (if n < 256 ^ k then Inr (be_fix k n) else Inl OverflowError)"

definition to_le :: "nat \<Rightarrow> nat \<Rightarrow> bytes res" where
  "to_le k n = (if n < 256 ^ k then Inr (le_fix k n) else Inl OverflowError)"

text \<open>\<open>bytes([n])\<close>: a \<open>ValueError\<close> where \<open>n\<close> is not in \<open>range(256)\<close>.\<close>

definition byte1 :: "nat \<Rightarrow> bytes res" where
  "byte1 n = (if n < 256 then Inr [word_of_nat n] else Inl ValueError)"

text \<open>\<open>n.bit_length()\<close> of a non-negative integer.\<close>

fun bit_length :: "nat \<Rightarrow> nat" where
  "bit_length n = (if n = 0 then 0 else Suc (bit_length (n div 2)))"

declare bit_length.simps [simp del]

lemma from_be_Nil [simp]: "from_be [] = 0"
  by (simp add: from_be_def)

lemma from_be_snoc [simp]: "from_be (bs @ [b]) = from_be bs * 256 + unat b"
  by (simp add: from_be_def)

lemma from_be_append: "from_be (xs @ ys) = from_be xs * 256 ^ length ys + from_be ys"
  by (induction ys rule: rev_induct) (simp_all add: algebra_simps flip: append_assoc)

lemma from_be_Cons: "from_be (b # bs) = unat b * 256 ^ length bs + from_be bs"
  using from_be_append [of "[b]" bs] from_be_snoc [of "[]" b] by simp

lemma from_be_zeros [simp]: "from_be (zeros n) = 0"
  by (induction n) (simp_all add: zeros_def from_be_Cons)

lemma byte_less: "unat (b :: byte) < 256"
  using unsigned_less [of b, where 'a = nat] by simp

lemma from_be_less: "from_be bs < 256 ^ length bs"
proof (induction bs rule: rev_induct)
  case Nil
  then show ?case by simp
next
  case (snoc b bs)
  have "from_be bs * 256 + unat b < from_be bs * 256 + 256"
    using byte_less [of b] by simp
  also have "\<dots> \<le> 256 ^ length bs * 256"
    using snoc.IH by (metis Suc_leI add.commute mult_Suc mult_le_mono1)
  finally show ?case by (simp add: mult.commute)
qed

lemma length_be_fix [simp]: "length (be_fix k n) = k" and length_le_fix [simp]: "length (le_fix k n) = k"
  by (induction k arbitrary: n) (simp_all add: le_fix_def)

lemma unat_byte [simp]: "unat (word_of_nat n :: byte) = n mod 256"
  by (simp add: unat_of_nat)

lemma from_be_be_fix: "from_be (be_fix k n) = n mod 256 ^ k"
proof (induction k arbitrary: n)
  case 0
  then show ?case by simp
next
  case (Suc k)
  then show ?case
    by (simp add: mod_mult2_eq [of n 256] mult.commute)
qed

lemma be_fix_from_be: "be_fix (length bs) (from_be bs) = bs"
proof (induction bs rule: rev_induct)
  case Nil
  then show ?case by simp
next
  case (snoc b bs)
  have "(from_be bs * 256 + unat b) div 256 = from_be bs"
    using byte_less [of b] by simp
  moreover have "(word_of_nat (from_be bs * 256 + unat b) :: byte) = b"
  proof (rule word_unat_eq_iff [THEN iffD2])
    show "unat (word_of_nat (from_be bs * 256 + unat b) :: byte) = unat b"
      using byte_less [of b] by (simp only: unat_byte) simp
  qed
  ultimately show ?case using snoc.IH by simp
qed

lemma from_be_inj: "from_be xs = from_be ys \<Longrightarrow> length xs = length ys \<Longrightarrow> xs = ys"
  by (metis be_fix_from_be)

lemma to_be_iff: "to_be k n = Inr bs \<longleftrightarrow> length bs = k \<and> from_be bs = n"
  using from_be_less [of bs] be_fix_from_be [of bs] from_be_be_fix [of k n]
  by (auto simp: to_be_def)

lemma to_le_iff: "to_le k n = Inr bs \<longleftrightarrow> length bs = k \<and> from_le bs = n"
  using to_be_iff [of k n "rev bs"]
  by (auto simp: to_le_def to_be_def le_fix_def from_le_def split: if_splits)

lemma from_le_less: "from_le bs < 256 ^ length bs"
  using from_be_less [of "rev bs"] by (simp add: from_le_def)

lemma from_le_le_fix: "n < 256 ^ k \<Longrightarrow> from_le (le_fix k n) = n"
  by (simp add: from_le_def le_fix_def from_be_be_fix)

lemma byte1_iff: "byte1 n = Inr bs \<longleftrightarrow> (\<exists>b. bs = [b] \<and> unat b = n)"
proof
  assume "byte1 n = Inr bs"
  then show "\<exists>b. bs = [b] \<and> unat b = n" by (auto simp: byte1_def split: if_splits)
next
  assume "\<exists>b. bs = [b] \<and> unat b = n"
  then obtain b where "bs = [b]" and n: "unat b = n" by blast
  moreover have "n < 256" using n byte_less [of b] by simp
  ultimately show "byte1 n = Inr bs" by (auto simp: byte1_def)
qed

section \<open>Packed little-endian words (\<open>struct\<close>)\<close>

text \<open>
  \<open>struct.pack("<I", n)\<close>, \<open>struct.pack("<Q", n)\<close> and their readers at an offset; a value out of
  range and a read past the end are \<open>struct.error\<close>.
\<close>

definition pack_u32 :: "nat \<Rightarrow> bytes res" where
  "pack_u32 n = (if n < 2 ^ 32 then Inr (le_fix 4 n) else Inl StructError)"

definition pack_u64 :: "nat \<Rightarrow> bytes res" where
  "pack_u64 n = (if n < 2 ^ 64 then Inr (le_fix 8 n) else Inl StructError)"

definition le32_at :: "bytes \<Rightarrow> nat \<Rightarrow> nat res" where
  "le32_at b i = (if i + 4 \<le> length b then Inr (from_le (bslice b i (i + 4))) else Inl StructError)"

definition le64_at :: "bytes \<Rightarrow> nat \<Rightarrow> nat res" where
  "le64_at b i = (if i + 8 \<le> length b then Inr (from_le (bslice b i (i + 8))) else Inl StructError)"

lemma pack_u32_iff: "pack_u32 n = Inr bs \<longleftrightarrow> n < 2 ^ 32 \<and> bs = le_fix 4 n"
  and pack_u64_iff: "pack_u64 n = Inr bs \<longleftrightarrow> n < 2 ^ 64 \<and> bs = le_fix 8 n"
  by (auto simp: pack_u32_def pack_u64_def)

lemma length_pack_u32: "pack_u32 n = Inr bs \<Longrightarrow> length bs = 4"
  and length_pack_u64: "pack_u64 n = Inr bs \<Longrightarrow> length bs = 8"
  by (auto simp: pack_u32_iff pack_u64_iff)

lemma from_le_u32 [simp]: "n < 2 ^ 32 \<Longrightarrow> from_le (le_fix 4 n) = n"
  and from_le_u64 [simp]: "n < 2 ^ 64 \<Longrightarrow> from_le (le_fix 8 n) = n"
  by (simp_all add: from_le_le_fix)

lemma le32_at_middle: "i = length xs \<Longrightarrow> n < 2 ^ 32 \<Longrightarrow> le32_at (xs @ le_fix 4 n @ ys) i = Inr n"
  and le64_at_middle: "i = length xs \<Longrightarrow> n < 2 ^ 64 \<Longrightarrow> le64_at (xs @ le_fix 8 n @ ys) i = Inr n"
  by (simp_all add: le32_at_def le64_at_def bslice_middle)

section \<open>Interfaces of encoders and decoders\<close>

text \<open>
  A \<open>retract\<close> is an encoder with a decoder that recovers every value in the encoder's domain
  \<open>ok\<close> from its encoding.  A \<open>codec\<close> adds that the decoder accepts nothing but encodings, so
  that each value has one representation; the clients below use the consequences only.
\<close>

locale retract =
  fixes ok :: "'a \<Rightarrow> bool"
    and encode :: "'a \<Rightarrow> 'b res"
    and decode :: "'b \<Rightarrow> 'a res"
  assumes decode_encode: "ok x \<Longrightarrow> encode x = Inr b \<Longrightarrow> decode b = Inr x"
begin

lemma encode_inj: "ok x \<Longrightarrow> ok y \<Longrightarrow> encode x = Inr b \<Longrightarrow> encode y = Inr b \<Longrightarrow> x = y"
  by (metis decode_encode sum.inject(2))

end

locale codec = retract +
  assumes encode_decode: "decode b = Inr x \<Longrightarrow> encode x = Inr b"
    and decode_ok: "decode b = Inr x \<Longrightarrow> ok x"
begin

lemma decode_iff: "decode b = Inr x \<longleftrightarrow> ok x \<and> encode x = Inr b"
  using decode_encode encode_decode decode_ok by blast

lemma decode_inj: "decode b = Inr x \<Longrightarrow> decode c = Inr x \<Longrightarrow> b = c"
  by (metis encode_decode sum.inject(2))

lemma decode_fails_iff: "(\<exists>e. decode b = Inl e) \<longleftrightarrow> (\<nexists>x. ok x \<and> encode x = Inr b)"
  using decode_iff by (metis sum.exhaust sum.distinct(1))

end

text \<open>A hash function of the sources: it never raises and its digests have a fixed length.\<close>

locale digest =
  fixes hash :: "bytes \<Rightarrow> bytes res"
    and size :: nat
  assumes hash_total: "\<exists>d. hash b = Inr d \<and> length d = size"
begin

lemma hash_no_error [simp]: "hash b \<noteq> Inl e"
  using hash_total [of b] by auto

lemma hash_length: "hash b = Inr d \<Longrightarrow> length d = size"
  using hash_total [of b] by auto

end

definition unpack_be :: "nat \<Rightarrow> bytes \<Rightarrow> nat res" where
  "unpack_be k b = (if length b = k then Inr (from_be b) else Inl StructError)"

interpretation be_codec: codec "\<lambda>_. True" "to_be k" "unpack_be k" for k
  by unfold_locales (auto simp: unpack_be_def to_be_iff split: if_splits)

lemmas to_be_inj = be_codec.encode_inj [OF TrueI TrueI]

end
