(* ===== verification/RlpEnc.thy ===== *)
theory RlpEnc
  imports Prelude
begin

text \<open>
  The RLP reference encoder of \<open>tools/gen_rlp_vectors.py\<close> (\<open>be\<close>, \<open>header\<close>, \<open>enc_bytes\<close>, \<open>enc\<close>)
  and the encoder of \<open>guest/test/exp_tx.py\<close> (\<open>enc_len\<close>, \<open>enc_bytes\<close>, \<open>enc_list\<close>, \<open>scalar\<close>),
  which the transaction oracle uses.  The lemmas show that \<open>be\<close> is the minimal big-endian form,
  that the two encoders agree, and what the first byte of a header tells.
\<close>

section \<open>Items\<close>

text \<open>A Python item is a byte string or a list of items.\<close>

datatype rlp = RBytes bytes | RList "rlp list"

section \<open>The encoder of the vector generator\<close>

function be_loop :: "nat \<Rightarrow> bytes \<Rightarrow> bytes" where
  "be_loop n out = (if n \<noteq> 0 then be_loop (drop_bit 8 n) (word_of_nat (n AND 255) # out) else out)"
  by pat_completeness auto
termination
  by (relation "measure fst") (auto simp: drop_bit_eq_div)

declare be_loop.simps [simp del]

definition be :: "nat \<Rightarrow> bytes" where
  "be n = be_loop n []"

definition header :: "nat \<Rightarrow> nat \<Rightarrow> bytes res" where
  "header base n =
     (if n \<le> 55 then byte1 (base + n)
      else let lb = be n in ebind (byte1 (base + 55 + length lb)) (\<lambda>h. Inr (h @ lb)))"

definition enc_bytes :: "bytes \<Rightarrow> bytes res" where
  "enc_bytes b =
     (if length b = 1 \<and> unat (b ! 0) < 0x80 then Inr b
      else ebind (header 0x80 (length b)) (\<lambda>h. Inr (h @ b)))"

fun enc :: "rlp \<Rightarrow> bytes res" and enc_all :: "rlp list \<Rightarrow> bytes res" where
  "enc (RBytes b) = enc_bytes b"
| "enc (RList xs) =
     ebind (enc_all xs) (\<lambda>payload. ebind (header 0xC0 (length payload)) (\<lambda>h. Inr (h @ payload)))"
| "enc_all [] = Inr []"
| "enc_all (x # xs) = ebind (enc x) (\<lambda>e. ebind (enc_all xs) (\<lambda>es. Inr (e @ es)))"

section \<open>The encoder of the transaction oracle\<close>

definition enc_len :: "nat \<Rightarrow> nat \<Rightarrow> bytes res" where
  "enc_len n base =
     (if n \<le> 55 then byte1 (base + n)
      else ebind (to_be ((bit_length n + 7) div 8) n) (\<lambda>lb.
           ebind (byte1 (base + 55 + length lb)) (\<lambda>h. Inr (h @ lb))))"

definition tx_enc_bytes :: "bytes \<Rightarrow> bytes res" where
  "tx_enc_bytes b =
     (if length b = 1 \<and> unat (b ! 0) < 0x80 then Inr b
      else ebind (enc_len (length b) 0x80) (\<lambda>h. Inr (h @ b)))"

definition enc_list :: "bytes list \<Rightarrow> bytes res" where
  "enc_list items = (let p = concat items in ebind (enc_len (length p) 0xC0) (\<lambda>h. Inr (h @ p)))"

definition scalar :: "nat \<Rightarrow> bytes res" where
  "scalar n =
     (if n \<noteq> 0 then ebind (to_be ((bit_length n + 7) div 8) n) tx_enc_bytes else tx_enc_bytes [])"

section \<open>Minimal big-endian integers\<close>

definition no_lead :: "bytes \<Rightarrow> bool" where
  "no_lead bs \<longleftrightarrow> bs = [] \<or> hd bs \<noteq> 0"

lemma and_255: "(n::nat) AND 255 = n mod 256"
  using take_bit_eq_mask [of 8 n] by (simp add: take_bit_eq_mod mask_eq_exp_minus_1)

lemma from_be_be_loop: "from_be (be_loop n out) = n * 256 ^ length out + from_be out"
proof (induction n out rule: be_loop.induct)
  case (1 n out)
  show ?case
  proof (cases "n = 0")
    case False
    have "n * k = (n div 256 * 256 + n mod 256) * k" for k by simp
    then have "n div 256 * (256 * k) + n mod 256 * k = n * k" for k
      by (simp only: distrib_right mult.assoc)
    with False 1 show ?thesis
      by (simp add: be_loop.simps [of n] from_be_Cons and_255 drop_bit_eq_div flip: add.assoc)
  qed (simp add: be_loop.simps)
qed

lemma from_be_be [simp]: "from_be (be n) = n"
  by (simp add: be_def from_be_be_loop)

lemma no_lead_be_loop: "n \<noteq> 0 \<Longrightarrow> be_loop n out \<noteq> [] \<and> hd (be_loop n out) \<noteq> 0"
proof (induction n out rule: be_loop.induct)
  case (1 n out)
  show ?case
  proof (cases "n div 256 = 0")
    case True
    then have "n mod 256 = n" by (simp add: div_eq_0_iff)
    with "1.prems" have "unat (word_of_nat (n AND 255) :: byte) \<noteq> 0"
      by (simp only: and_255 unat_byte) simp
    then have "(word_of_nat (n AND 255) :: byte) \<noteq> 0" by (metis unsigned_0)
    with True "1.prems" show ?thesis
      by (simp add: be_loop.simps [of n] be_loop.simps [of 0] drop_bit_eq_div)
  next
    case False
    with 1 show ?thesis by (simp add: be_loop.simps [of n] drop_bit_eq_div)
  qed
qed

lemma no_lead_be: "no_lead (be n)"
  using no_lead_be_loop [of n "[]"] by (cases "n = 0") (auto simp: no_lead_def be_def be_loop.simps)

lemma from_be_pos: "bs \<noteq> [] \<Longrightarrow> hd bs \<noteq> 0 \<Longrightarrow> 0 < from_be bs"
  by (cases bs) (auto simp: from_be_Cons unat_gt_0)

lemma be_loop_from_be: "no_lead bs \<Longrightarrow> be_loop (from_be bs) out = bs @ out"
proof (induction bs arbitrary: out rule: rev_induct)
  case Nil
  then show ?case by (simp add: be_loop.simps)
next
  case (snoc b bs)
  have pos: "from_be (bs @ [b]) \<noteq> 0"
    using snoc.prems from_be_pos [of "bs @ [b]"] by (auto simp: no_lead_def)
  have "no_lead bs" using snoc.prems by (cases bs) (auto simp: no_lead_def)
  moreover have "from_be (bs @ [b]) div 256 = from_be bs" "from_be (bs @ [b]) mod 256 = unat b"
    using byte_less [of b] by simp_all
  ultimately show ?case
    using pos snoc.IH by (subst be_loop.simps) (simp add: drop_bit_eq_div and_255 del: from_be_snoc)
qed

lemma be_from_be: "no_lead bs \<Longrightarrow> be (from_be bs) = bs"
  by (simp add: be_def be_loop_from_be)

lemma be_0 [simp]: "be 0 = []"
  by (simp add: be_def be_loop.simps)

lemma be_less: "n < 256 ^ length (be n)"
  using from_be_less [of "be n"] by simp

lemma be_ge: "0 < n \<Longrightarrow> 256 ^ (length (be n) - 1) \<le> n"
proof -
  assume "0 < n"
  then have "be n \<noteq> []" using from_be_be [of n] by force
  moreover from this have "hd (be n) \<noteq> 0" using no_lead_be [of n] by (simp add: no_lead_def)
  ultimately obtain b bs where b: "be n = b # bs" and "b \<noteq> 0" by (cases "be n") auto
  then have "1 * 256 ^ length bs \<le> unat b * 256 ^ length bs"
    by (intro mult_le_mono1) (simp add: unat_gt_0 Suc_le_eq)
  also have "\<dots> \<le> n" using b from_be_be [of n] by (simp add: from_be_Cons)
  finally show ?thesis using b by simp
qed

lemma length_be_le_iff: "length (be n) \<le> k \<longleftrightarrow> n < 256 ^ k"
proof
  assume "length (be n) \<le> k"
  then have "(256::nat) ^ length (be n) \<le> 256 ^ k" by (rule power_increasing) simp
  with be_less [of n] show "n < 256 ^ k" by (rule less_le_trans)
next
  assume n: "n < 256 ^ k"
  show "length (be n) \<le> k"
  proof (cases "n = 0")
    case False
    then have "(256::nat) ^ (length (be n) - 1) < 256 ^ k"
      by (intro le_less_trans [OF be_ge n]) simp
    then show ?thesis by (simp add: power_strict_increasing_iff)
  qed simp
qed

lemma be_Nil_iff [simp]: "be n = [] \<longleftrightarrow> n = 0"
  using from_be_be [of n] by (metis be_0 from_be_Nil)

section \<open>The two encoders agree\<close>

lemma bit_length_le_iff: "bit_length n \<le> k \<longleftrightarrow> n < 2 ^ k"
proof (induction n arbitrary: k rule: bit_length.induct)
  case (1 n)
  show ?case
  proof (cases "n = 0")
    case False
    with 1 have "bit_length (n div 2) \<le> j \<longleftrightarrow> n div 2 < 2 ^ j" for j by simp
    with False show ?thesis
      by (cases k) (auto simp: bit_length.simps [of n] div_less_iff_less_mult mult.commute)
  qed (simp add: bit_length.simps)
qed

lemma byte_length_be: "(bit_length n + 7) div 8 = length (be n)"
proof (rule antisym)
  have "n < 2 ^ (8 * length (be n))"
    using be_less [of n] by (simp add: power_mult)
  then have "bit_length n \<le> 8 * length (be n)" by (simp add: bit_length_le_iff)
  then show "(bit_length n + 7) div 8 \<le> length (be n)" by simp
  have "n < 2 ^ bit_length n" using bit_length_le_iff [of n "bit_length n"] by simp
  also have "\<dots> \<le> (2::nat) ^ (8 * ((bit_length n + 7) div 8))" by (rule power_increasing) auto
  finally show "length (be n) \<le> (bit_length n + 7) div 8"
    by (simp add: length_be_le_iff power_mult)
qed

lemma to_be_byte_length: "to_be ((bit_length n + 7) div 8) n = Inr (be n)"
  by (simp add: to_be_iff byte_length_be)

lemma enc_len_header: "enc_len n base = header base n"
  by (simp add: enc_len_def header_def to_be_byte_length Let_def)

lemma tx_enc_bytes_eq: "tx_enc_bytes b = enc_bytes b"
  by (simp add: tx_enc_bytes_def enc_bytes_def enc_len_header)

lemma scalar_eq: "scalar n = enc_bytes (be n)"
  by (simp add: scalar_def tx_enc_bytes_eq to_be_byte_length)

lemma enc_all_emap: "enc_all xs = ebind (emap enc xs) (\<lambda>es. Inr (concat es))"
  by (induction xs) (auto simp: ebind_assoc)

lemma enc_RList: "enc (RList xs) = ebind (emap enc xs) enc_list"
  by (simp add: enc_all_emap ebind_assoc enc_list_def [abs_def] enc_len_header Let_def)

section \<open>What a header says\<close>

fun rlp_ok :: "rlp \<Rightarrow> bool" where
  \<comment> \<open>lengths that fit the eight length bytes of the format\<close>
  "rlp_ok (RBytes b) \<longleftrightarrow> length b < 2 ^ 64"
| "rlp_ok (RList xs) \<longleftrightarrow> list_all rlp_ok xs"

lemma be_length_bounds:
  assumes "55 < n" "n < 2 ^ 64"
  shows "1 \<le> length (be n)" "length (be n) \<le> 8"
proof -
  show "length (be n) \<le> 8" using assms by (simp add: length_be_le_iff)
  show "1 \<le> length (be n)" using assms by (simp add: Suc_le_eq)
qed

lemma header_short:
  assumes "n \<le> 55" "base \<le> 200"
  shows "\<exists>h. header base n = Inr [h] \<and> unat h = base + n"
  using assms by (auto simp: header_def byte1_iff [symmetric] byte1_def simp del: of_nat_add)

lemma header_long:
  assumes "55 < n" "n < 2 ^ 64" "base \<le> 0xC0"
  shows "\<exists>h. header base n = Inr (h # be n) \<and> unat h = base + 55 + length (be n)"
proof -
  have "base + 55 + length (be n) < 256" using be_length_bounds [of n] assms by simp
  then obtain h where "byte1 (base + 55 + length (be n)) = Inr [h]" "unat h = base + 55 + length (be n)"
    using byte1_iff byte1_def by metis
  with assms show ?thesis by (auto simp: header_def Let_def)
qed

lemma header_list_bound: "header 0xC0 n = Inr h \<Longrightarrow> n < 2 ^ 64"
proof (cases "n \<le> 55")
  case False
  assume "header 0xC0 n = Inr h"
  with False have "length (be n) \<le> 8" by (auto simp: header_def byte1_def Let_def split: if_splits)
  then show ?thesis by (simp add: length_be_le_iff)
qed simp

end
