(* ===== verification/RlpDec.thy ===== *)
theory RlpDec
  imports RlpEnc
begin

text \<open>
  The strict RLP decoder of \<open>tools/gen_rlp_vectors.py\<close> (\<open>read_length\<close>, \<open>item\<close>, \<open>list_count\<close>):
  it walks an encoding without building the tree and reports kind, payload offset, payload
  length and total length.  It is characterised by the encoder: \<open>item\<close> accepts exactly the byte
  strings that start with an encoding.
\<close>

definition read_length :: "bytes \<Rightarrow> nat \<Rightarrow> nat res" where
  "read_length bs n =
     (if length bs < n then Inl (Err ''truncated'')
      else if n > 1 \<and> bs ! 0 = 0 then Inl (Err ''leading zero'')
      else Inr (from_be (bslice bs 0 n)))"

text \<open>A decoded prefix: kind (0 bytes, 1 list), payload offset, payload length, total length.\<close>

type_synonym item = "nat \<times> nat \<times> nat \<times> nat"

definition it_total :: "item \<Rightarrow> nat" where
  "it_total it = snd (snd (snd it))"

function item :: "bytes \<Rightarrow> item res"
  and count_loop :: "bytes \<Rightarrow> nat \<Rightarrow> nat \<Rightarrow> nat res" where
  "item bs =
     (if length bs = 0 then Inl (Err ''empty'') else
      let b = unat (bs ! 0) in
      if b < 0x80 then Inr (0, 0, 1, 1)
      else if b \<le> 0xB7 then
        (let n = b - 0x80 in
         if length bs - 1 < n then Inl (Err ''truncated'')
         else if n = 1 \<and> unat (bs ! 1) < 0x80 then Inl (Err ''single byte'')
         else Inr (0, 1, n, 1 + n))
      else if b \<le> 0xBF then
        (let ll = b - 0xB7 in
         ebind (read_length (drop 1 bs) ll) (\<lambda>n.
         if n \<le> 55 then Inl (Err ''short form'')
         else if length bs - 1 - ll < n then Inl (Err ''truncated'')
         else Inr (0, 1 + ll, n, 1 + ll + n)))
      else if b \<le> 0xF7 then
        (let n = b - 0xC0 in
         if length bs - 1 < n then Inl (Err ''truncated'')
         else ebind (count_loop (bslice bs 1 (1 + n)) 0 0) (\<lambda>_. Inr (1, 1, n, 1 + n)))
      else
        (let ll = b - 0xF7 in
         ebind (read_length (drop 1 bs) ll) (\<lambda>n.
         if n \<le> 55 then Inl (Err ''short form'')
         else if length bs - 1 - ll < n then Inl (Err ''truncated'')
         else ebind (count_loop (bslice bs (1 + ll) (1 + ll + n)) 0 0)
                (\<lambda>_. Inr (1, 1 + ll, n, 1 + ll + n)))))"
| "count_loop payload off count =
     (if off < length payload
      then ebind (item (drop off payload)) (\<lambda>it. count_loop payload (off + it_total it) (count + 1))
      else Inr count)"
  by pat_completeness auto

lemma total_pos_dom: "item_count_loop_dom (Inl bs) \<Longrightarrow> item bs = Inr it \<Longrightarrow> 0 < it_total it"
  by (auto simp: item.psimps it_total_def Let_def ebind_Inr_iff split: if_splits)

termination item
proof (relation "measures [\<lambda>x. case x of Inl bs \<Rightarrow> length bs | Inr (p, off, c) \<Rightarrow> length p,
                           \<lambda>x. case x of Inl bs \<Rightarrow> 0 | Inr (p, off, c) \<Rightarrow> 1 + (length p - off)]",
       goal_cases)
  case (5 payload off count it)
  then have "0 < it_total it" using total_pos_dom by blast
  with 5 show ?case by simp
qed (auto simp: read_length_def simp flip: length_greater_0_conv split: if_splits)

declare item.simps [simp del] count_loop.simps [simp del]

definition list_count :: "bytes \<Rightarrow> nat res" where
  "list_count payload = count_loop payload 0 0"

section \<open>The branches of \<open>item\<close> by the first byte\<close>

lemma item_Nil: "item [] = Inl (Err ''empty'')"
  by (simp add: item.simps)

lemma item_single: "unat b < 0x80 \<Longrightarrow> item (b # r) = Inr (0, 0, 1, 1)"
  by (simp add: item.simps)

lemma item_short_bytes:
  "0x80 \<le> unat b \<Longrightarrow> unat b \<le> 0xB7 \<Longrightarrow> n = unat b - 0x80 \<Longrightarrow> item (b # r) =
     (if length r < n then Inl (Err ''truncated'')
      else if n = 1 \<and> unat (r ! 0) < 0x80 then Inl (Err ''single byte'')
      else Inr (0, 1, n, 1 + n))"
  by (simp add: item.simps [of "b # r"] Let_def)

lemma item_long_bytes:
  "0xB7 < unat b \<Longrightarrow> unat b \<le> 0xBF \<Longrightarrow> ll = unat b - 0xB7 \<Longrightarrow> item (b # r) =
     ebind (read_length r ll) (\<lambda>n.
       if n \<le> 55 then Inl (Err ''short form'')
       else if length r - ll < n then Inl (Err ''truncated'')
       else Inr (0, 1 + ll, n, 1 + ll + n))"
  by (auto simp: item.simps [of "b # r"] Let_def bslice_def intro!: ebind_cong)

lemma item_short_list:
  "0xBF < unat b \<Longrightarrow> unat b \<le> 0xF7 \<Longrightarrow> n = unat b - 0xC0 \<Longrightarrow> item (b # r) =
     (if length r < n then Inl (Err ''truncated'')
      else ebind (count_loop (take n r) 0 0) (\<lambda>_. Inr (1, 1, n, 1 + n)))"
  by (simp add: item.simps [of "b # r"] Let_def bslice_def)

lemma item_long_list:
  "0xF7 < unat b \<Longrightarrow> ll = unat b - 0xF7 \<Longrightarrow> item (b # r) =
     ebind (read_length r ll) (\<lambda>n.
       if n \<le> 55 then Inl (Err ''short form'')
       else if length r - ll < n then Inl (Err ''truncated'')
       else ebind (count_loop (take n (drop ll r)) 0 0) (\<lambda>_. Inr (1, 1 + ll, n, 1 + ll + n)))"
  by (auto simp: item.simps [of "b # r"] Let_def bslice_def intro!: ebind_cong)

lemma count_loop_done: "length p \<le> off \<Longrightarrow> count_loop p off c = Inr c"
  by (simp add: count_loop.simps)

lemma count_loop_step:
  "off < length p \<Longrightarrow> count_loop p off c =
     ebind (item (drop off p)) (\<lambda>it. count_loop p (off + it_total it) (c + 1))"
  by (simp add: count_loop.simps)

lemma byte_cases:
  obtains (single) "unat (b::byte) < 0x80"
  | (short_bytes) "0x80 \<le> unat b" "unat b \<le> 0xB7"
  | (long_bytes) "0xB7 < unat b" "unat b \<le> 0xBF"
  | (short_list) "0xBF < unat b" "unat b \<le> 0xF7"
  | (long_list) "0xF7 < unat b"
  by linarith

section \<open>Lengths\<close>

lemma read_length_be:
  assumes "55 < n"
  shows "read_length (be n @ r) (length (be n)) = Inr n"
proof -
  have "be n \<noteq> []" using assms by simp
  then have "(be n @ r) ! 0 \<noteq> 0"
    using no_lead_be [of n] by (simp add: no_lead_def nth_append hd_conv_nth)
  then show ?thesis by (simp add: read_length_def bslice_def)
qed

lemma read_length_Inr:
  assumes "read_length bs ll = Inr n" "55 < n"
  shows "ll \<le> length bs \<and> take ll bs = be n"
proof -
  from assms(1) have ll: "ll \<le> length bs" and z: "\<not> (1 < ll \<and> bs ! 0 = 0)"
    and n: "n = from_be (take ll bs)"
    by (auto simp: read_length_def bslice_def split: if_splits)
  have "no_lead (take ll bs)"
  proof (cases "take ll bs")
    case (Cons b t)
    have t: "length t = ll - 1" "1 \<le> ll" using arg_cong [OF Cons, of length] ll by simp_all
    have b: "bs ! 0 = b" using arg_cong [OF Cons, of "\<lambda>x. x ! 0"] t by simp
    have "b \<noteq> 0"
    proof
      assume "b = 0"
      with z b t have "ll = 1" by simp
      with t Cons n \<open>b = 0\<close> show False using assms(2) by (simp add: from_be_Cons)
    qed
    with Cons show ?thesis by (simp add: no_lead_def)
  qed (simp add: no_lead_def)
  with n ll show ?thesis by (simp add: be_from_be)
qed

lemma be_byte_lt: "length (be n) \<le> 8 \<Longrightarrow> n < 2 ^ 64"
  by (simp add: length_be_le_iff)

section \<open>Soundness: what \<open>item\<close> accepts is an encoding\<close>

primrec kind :: "rlp \<Rightarrow> nat" where
  "kind (RBytes b) = 0"
| "kind (RList xs) = 1"

text \<open>The payload of an item: the bytes that follow its header.\<close>

primrec payload :: "rlp \<Rightarrow> bytes res" where
  "payload (RBytes b) = Inr b"
| "payload (RList xs) = enc_all xs"

definition describes :: "bytes \<Rightarrow> item \<Rightarrow> rlp \<Rightarrow> bool" where
  "describes bs it x \<longleftrightarrow>
     (case it of (k, po, pl, t) \<Rightarrow>
        rlp_ok x \<and> enc x = Inr (take t bs) \<and> t \<le> length bs \<and> 0 < t \<and> po + pl = t \<and> k = kind x \<and>
        payload x = Inr (bslice bs po t))"

lemma enc_bytes_long:
  assumes "length p = n" "55 < n" "length (be n) \<le> 8" "unat h = 0xB7 + length (be n)"
  shows "enc_bytes p = Inr (h # be n @ p)"
proof -
  obtain h' where h': "header 0x80 n = Inr (h' # be n)" "unat h' = 0x80 + 55 + length (be n)"
    using header_long [of n "0x80"] assms be_byte_lt by auto
  then have "h' = h" using assms by (intro word_unat_eq_iff [THEN iffD2]) simp
  with h' assms show ?thesis by (simp add: enc_bytes_def)
qed

lemma enc_bytes_short:
  assumes "length p = n" "n \<le> 55" "\<not> (n = 1 \<and> unat (p ! 0) < 0x80)" "unat h = 0x80 + n"
  shows "enc_bytes p = Inr (h # p)"
proof -
  obtain h' where h': "header 0x80 n = Inr [h']" "unat h' = 0x80 + n"
    using header_short [of n "0x80"] assms by auto
  then have "h' = h" using assms by (intro word_unat_eq_iff [THEN iffD2]) simp
  with h' assms show ?thesis by (simp add: enc_bytes_def)
qed

lemma header_list_short:
  assumes "n \<le> 55" "unat h = 0xC0 + n"
  shows "header 0xC0 n = Inr [h]"
proof -
  obtain h' where h': "header 0xC0 n = Inr [h']" "unat h' = 0xC0 + n"
    using header_short [of n "0xC0"] assms by auto
  then have "h' = h" using assms by (intro word_unat_eq_iff [THEN iffD2]) simp
  with h' show ?thesis by simp
qed

lemma header_list_long:
  assumes "55 < n" "length (be n) \<le> 8" "unat h = 0xF7 + length (be n)"
  shows "header 0xC0 n = Inr (h # be n)"
proof -
  obtain h' where h': "header 0xC0 n = Inr (h' # be n)" "unat h' = 0xC0 + 55 + length (be n)"
    using header_long [of n "0xC0"] assms be_byte_lt by auto
  then have "h' = h" using assms by (intro word_unat_eq_iff [THEN iffD2]) simp
  with h' show ?thesis by simp
qed

lemma count_loop_sound_if:
  assumes "\<And>bs it. length bs \<le> length p \<Longrightarrow> item bs = Inr it \<Longrightarrow> \<exists>x. describes bs it x"
    and "count_loop p off c = Inr c'"
  shows "\<exists>xs. list_all rlp_ok xs \<and> enc_all xs = Inr (drop off p) \<and> c' = c + length xs"
  using assms(2)
proof (induction "length p - off" arbitrary: off c rule: less_induct)
  case less
  show ?case
  proof (cases "off < length p")
    case False
    with less.prems show ?thesis by (intro exI [of _ "[]"]) (simp add: count_loop_done)
  next
    case True
    with less.prems obtain it where it: "item (drop off p) = Inr it"
      and rest: "count_loop p (off + it_total it) (c + 1) = Inr c'"
      by (auto simp: count_loop_step)
    from assms(1) [OF _ it] obtain x where "describes (drop off p) it x" by auto
    then have ok: "rlp_ok x" and x: "enc x = Inr (take (it_total it) (drop off p))" and "0 < it_total it"
      by (auto simp: describes_def it_total_def split: prod.splits)
    with True have "length p - (off + it_total it) < length p - off" by simp
    from less.hyps [OF this rest] obtain xs where "list_all rlp_ok xs"
      "enc_all xs = Inr (drop (off + it_total it) p)" "c' = c + 1 + length xs" by blast
    moreover have "take (it_total it) (drop off p) @ drop (off + it_total it) p = drop off p"
      using append_take_drop_id [of "it_total it" "drop off p"] by (simp add: add.commute)
    with x calculation(2) have "enc_all (x # xs) = Inr (drop off p)" by simp
    ultimately show ?thesis using ok by (intro exI [of _ "x # xs"]) simp
  qed
qed

lemma item_sound: "item bs = Inr it \<Longrightarrow> \<exists>x. describes bs it x"
proof (induction bs arbitrary: it rule: length_induct)
  case (1 bs)
  from "1.prems" obtain b r where bs: "bs = b # r" by (cases bs) (auto simp: item_Nil)
  have loop: "\<exists>xs. list_all rlp_ok xs \<and> enc_all xs = Inr q"
    if "length q \<le> length r" "count_loop q 0 0 = Inr c" for q c
    using count_loop_sound_if [OF _ that(2)] "1.IH" that(1) bs by fastforce
  show ?case
  proof (cases b rule: byte_cases)
    case single
    with "1.prems" bs have "describes bs it (RBytes [b])"
      by (auto simp: item_single describes_def enc_bytes_def bslice_def)
    then show ?thesis ..
  next
    case short_bytes
    define n where "n = unat b - 0x80"
    from "1.prems" have n: "n \<le> length r" "\<not> (n = 1 \<and> unat (r ! 0) < 0x80)" "it = (0, 1, n, 1 + n)"
      by (auto simp: bs item_short_bytes [OF short_bytes n_def] split: if_splits)
    moreover have "enc_bytes (take n r) = Inr (b # take n r)"
      using n short_bytes by (intro enc_bytes_short [of _ n]) (auto simp: n_def)
    ultimately have "describes bs it (RBytes (take n r))"
      using short_bytes by (auto simp: bs describes_def bslice_def n_def)
    then show ?thesis ..
  next
    case long_bytes
    define ll where "ll = unat b - 0xB7"
    from "1.prems" obtain n where rl: "read_length r ll = Inr n" and n: "55 < n" "n \<le> length r - ll"
      "it = (0, 1 + ll, n, 1 + ll + n)"
      by (auto simp: bs item_long_bytes [OF long_bytes ll_def] not_le split: if_splits)
    from read_length_Inr [OF rl n(1)] have ll: "ll \<le> length r" "take ll r = be n" by auto
    then have len: "length (be n) = ll" by (metis length_take min.absorb2)
    have "enc_bytes (take n (drop ll r)) = Inr (b # be n @ take n (drop ll r))"
      using n long_bytes len by (intro enc_bytes_long) (auto simp: ll_def)
    moreover have "n < 2 ^ 64" using long_bytes len by (intro be_byte_lt) (simp add: ll_def)
    ultimately have "describes bs it (RBytes (take n (drop ll r)))"
      using n ll by (auto simp: bs describes_def bslice_def take_add)
    then show ?thesis ..
  next
    case short_list
    define n where "n = unat b - 0xC0"
    from "1.prems" obtain c where n: "n \<le> length r" "it = (1, 1, n, 1 + n)"
      and "count_loop (take n r) 0 0 = Inr c"
      by (auto simp: bs item_short_list [OF short_list n_def] split: if_splits)
    with loop [of "take n r" c] obtain xs where xs: "list_all rlp_ok xs" "enc_all xs = Inr (take n r)"
      by auto
    have "header 0xC0 n = Inr [b]" using short_list by (intro header_list_short) (auto simp: n_def)
    with xs n have "describes bs it (RList xs)"
      by (auto simp: bs describes_def bslice_def min_def)
    then show ?thesis ..
  next
    case long_list
    define ll where "ll = unat b - 0xF7"
    from "1.prems" obtain n c where rl: "read_length r ll = Inr n" and n: "55 < n" "n \<le> length r - ll"
      "it = (1, 1 + ll, n, 1 + ll + n)" and "count_loop (take n (drop ll r)) 0 0 = Inr c"
      by (auto simp: bs item_long_list [OF long_list ll_def] ebind_Inr_iff not_le split: if_splits)
    moreover from n have "n \<le> length r" by simp
    ultimately obtain xs where
      xs: "list_all rlp_ok xs" "enc_all xs = Inr (take n (drop ll r))" using loop [of "take n (drop ll r)" c] by auto
    from read_length_Inr [OF rl n(1)] have ll: "ll \<le> length r" "take ll r = be n" by auto
    then have len: "length (be n) = ll" by (metis length_take min.absorb2)
    have "header 0xC0 n = Inr (b # be n)"
      using n long_list len byte_less [of b] by (intro header_list_long) (auto simp: ll_def)
    with xs n ll have "describes bs it (RList xs)"
      by (auto simp: bs describes_def bslice_def take_add min_def)
    then show ?thesis ..
  qed
qed

lemma count_loop_sound:
  "count_loop p off c = Inr c'
   \<Longrightarrow> \<exists>xs. list_all rlp_ok xs \<and> enc_all xs = Inr (drop off p) \<and> c' = c + length xs"
  by (rule count_loop_sound_if) (auto dest: item_sound)

section \<open>Completeness: every encoding is accepted\<close>

lemma enc_bytes_cases:
  assumes "enc_bytes b = Inr e" "length b < 2 ^ 64"
  obtains (single) c where "b = [c]" "e = [c]" "unat c < 0x80"
  | (short_form) h where "length b \<le> 55" "\<not> (length b = 1 \<and> unat (b ! 0) < 0x80)" "e = h # b"
      "unat h = 0x80 + length b"
  | (long_form) h where "55 < length b" "e = h # be (length b) @ b"
      "unat h = 0xB7 + length (be (length b))"
proof (cases "length b = 1 \<and> unat (b ! 0) < 0x80")
  case True
  then obtain c where "b = [c]" by (cases b) auto
  with True assms that(1) show ?thesis by (auto simp: enc_bytes_def)
next
  case False
  show ?thesis
  proof (cases "length b \<le> 55")
    case True
    then show ?thesis
      using header_short [of "length b" "0x80"] False assms that(2) by (auto simp: enc_bytes_def)
  next
    case long: False
    then show ?thesis
      using header_long [of "length b" "0x80"] False assms that(3) by (auto simp: enc_bytes_def)
  qed
qed

lemma enc_list_cases:
  assumes "header 0xC0 n = Inr h"
  obtains (short_form) c where "n \<le> 55" "h = [c]" "unat c = 0xC0 + n"
  | (long_form) c where "55 < n" "h = c # be n" "unat c = 0xF7 + length (be n)"
proof (cases "n \<le> 55")
  case True
  then show ?thesis using header_short [of n "0xC0"] assms that(1) by auto
next
  case False
  then show ?thesis
    using header_long [of n "0xC0"] header_list_bound [OF assms] assms that(2) by auto
qed

lemma item_bytes_complete:
  assumes "enc_bytes b = Inr e" "length b < 2 ^ 64"
  shows "item (e @ r) = Inr (0, length e - length b, length b, length e)"
  using assms
proof (cases rule: enc_bytes_cases)
  case (single c)
  then show ?thesis by (simp add: item_single)
next
  case (short_form h)
  then show ?thesis by (simp add: item_short_bytes nth_append)
next
  case (long_form h)
  then have "length (be (length b)) \<le> 8" using assms be_length_bounds by blast
  then have h: "0xB7 < unat h" "unat h \<le> 0xBF" "length (be (length b)) = unat h - 0xB7"
    using long_form be_length_bounds [of "length b"] assms(2) by auto
  show ?thesis
    unfolding long_form(2) append_Cons item_long_bytes [OF h]
    using long_form(1) by (simp add: read_length_be)
qed

lemma item_list_complete:
  assumes "header 0xC0 (length p) = Inr h" "count_loop p 0 0 = Inr c"
  shows "item (h @ p @ r) = Inr (1, length h, length p, length h + length p)"
  using assms(1)
proof (cases rule: enc_list_cases)
  case (short_form b)
  then show ?thesis using assms(2) by (simp add: item_short_list)
next
  case (long_form b)
  then have h: "0xF7 < unat b" "length (be (length p)) = unat b - 0xF7"
    using be_length_bounds [of "length p"] header_list_bound [OF assms(1)] by auto
  show ?thesis
    unfolding long_form(2) append_Cons item_long_list [OF h]
    using long_form(1) assms(2) by (simp add: read_length_be)
qed

lemma enc_nonempty: "rlp_ok x \<Longrightarrow> enc x = Inr e \<Longrightarrow> e \<noteq> []"
  by (cases x) (auto elim: enc_bytes_cases enc_list_cases)

lemma item_complete:
  "rlp_ok x \<Longrightarrow> enc x = Inr e \<Longrightarrow> \<exists>po pl. item (e @ r) = Inr (kind x, po, pl, length e)"
  and count_loop_complete:
  "list_all rlp_ok xs \<Longrightarrow> enc_all xs = Inr p \<Longrightarrow> count_loop (q @ p) (length q) c = Inr (c + length xs)"
proof (induction x and xs arbitrary: e r and p q c rule: enc_enc_all.induct)
  case (1 b)
  then show ?case using item_bytes_complete [of b e r] by auto
next
  case (2 xs)
  then obtain p h where p: "enc_all xs = Inr p" and h: "header 0xC0 (length p) = Inr h" "e = h @ p"
    by auto
  with "2.IH" [of p "[]" 0] "2.prems" have "count_loop p 0 0 = Inr (length xs)"
    by (simp add: list.pred_set)
  from item_list_complete [OF h(1) this] h(2) show ?case by simp
next
  case 3
  then show ?case by (simp add: count_loop_done)
next
  case (4 x xs)
  then obtain e es where e: "enc x = Inr e" "enc_all xs = Inr es" "p = e @ es" by auto
  with "4.prems" have ne: "e \<noteq> []" using enc_nonempty by auto
  from "4.IH"(1) [of e es] e "4.prems" obtain po pl where
    "item (e @ es) = Inr (kind x, po, pl, length e)" by auto
  then have "count_loop (q @ p) (length q) c = count_loop ((q @ e) @ es) (length (q @ e)) (c + 1)"
    using ne e by (subst count_loop_step) (auto simp: it_total_def)
  also have "\<dots> = Inr (c + 1 + length xs)"
    using "4.prems" e(2) by (intro "4.IH"(2) [OF e(1)]) simp_all
  finally show ?case by simp
qed

text \<open>
  \<open>item\<close> accepts exactly the byte strings that start with the encoding of a well-formed item,
  and then reports that encoding's length.
\<close>

lemma item_accepts_iff:
  "(\<exists>k po pl. item bs = Inr (k, po, pl, t)) \<longleftrightarrow> (\<exists>x. rlp_ok x \<and> enc x = Inr (take t bs) \<and> t \<le> length bs)"
    (is "?L \<longleftrightarrow> ?R")
proof
  assume ?L
  then show ?R using item_sound by (fastforce simp: describes_def)
next
  assume ?R
  then obtain x where x: "rlp_ok x" "enc x = Inr (take t bs)" "t \<le> length bs" by blast
  from item_complete(1) [OF x(1,2), of "drop t bs"] x(3) show ?L by (auto simp: min_def)
qed

lemma list_count_iff:
  "list_count p = Inr n \<longleftrightarrow> (\<exists>xs. list_all rlp_ok xs \<and> enc_all xs = Inr p \<and> length xs = n)"
proof
  assume "list_count p = Inr n"
  then show "\<exists>xs. list_all rlp_ok xs \<and> enc_all xs = Inr p \<and> length xs = n"
    using count_loop_sound [of p 0 0 n] by (auto simp: list_count_def)
next
  assume "\<exists>xs. list_all rlp_ok xs \<and> enc_all xs = Inr p \<and> length xs = n"
  then show "list_count p = Inr n"
    using count_loop_complete [of _ p "[]" 0] by (auto simp: list_count_def)
qed

lemma item_raises_Err: "item bs = Inl e \<Longrightarrow> \<exists>m. e = Err m"
  and count_loop_raises_Err: "count_loop p off c = Inl e \<Longrightarrow> \<exists>m. e = Err m"
proof (induction bs and p off c arbitrary: e and e rule: item_count_loop.induct)
  case (1 bs)
  show ?case
  proof (cases bs)
    case Nil
    with "1.prems" show ?thesis by (auto simp: item_Nil)
  next
    case (Cons b r)
    with 1 show ?thesis
      by (auto simp: item.simps [of "b # r"] Let_def ebind_def read_length_def
          split: if_splits sum.splits)
  qed
next
  case (2 p off c)
  then show ?case
    by (auto simp: count_loop.simps [of p off c] ebind_def split: if_splits sum.splits)
qed

section \<open>Encodings determine items\<close>

lemma enc_bytes_drop: "enc_bytes b = Inr e \<Longrightarrow> drop (length e - length b) e = b"
  by (auto simp: enc_bytes_def split: if_splits)

lemma enc_inj: "rlp_ok x \<Longrightarrow> rlp_ok y \<Longrightarrow> enc x = Inr e \<Longrightarrow> enc y = Inr e \<Longrightarrow> x = y"
  and enc_all_inj: "list_all rlp_ok xs \<Longrightarrow> list_all rlp_ok ys \<Longrightarrow> enc_all xs = Inr p \<Longrightarrow> enc_all ys = Inr p
    \<Longrightarrow> xs = ys"
proof (induction x and xs arbitrary: y e and ys p rule: enc_enc_all.induct)
  case (1 b)
  from item_complete(1) [of "RBytes b" e "[]"] item_complete(1) [of y e "[]"] "1.prems"
  obtain c where y: "y = RBytes c" by (cases y) auto
  have len: "length b = length c"
    using item_bytes_complete [of b e "[]"] item_bytes_complete [of c e "[]"] "1.prems" y by simp
  have "b = drop (length e - length b) e" using "1.prems" by (intro enc_bytes_drop [symmetric]) simp
  also have "\<dots> = c" using "1.prems" y len by (simp add: enc_bytes_drop)
  finally show ?case using y by simp
next
  case (2 xs)
  from item_complete(1) [of "RList xs" e "[]"] item_complete(1) [of y e "[]"] "2.prems"
  obtain ys where y: "y = RList ys" by (cases y) auto
  have list: "item e = Inr (1, length h, length p, length e)"
    if "list_all rlp_ok zs" "enc_all zs = Inr p" "header 0xC0 (length p) = Inr h" "e = h @ p" for zs p h
    using item_list_complete [OF that(3), of "length zs" "[]"] count_loop_complete [of zs p "[]" 0] that
    by simp
  from "2.prems"(3) obtain p h where p: "enc_all xs = Inr p" "header 0xC0 (length p) = Inr h" "e = h @ p"
    by auto
  from "2.prems"(4) y obtain p' h' where p': "enc_all ys = Inr p'" "header 0xC0 (length p') = Inr h'" "e = h' @ p'"
    by auto
  have ok: "list_all rlp_ok xs" "list_all rlp_ok ys" using "2.prems"(1,2) y by simp_all
  have "length p = length p'" using list [OF ok(1) p] list [OF ok(2) p'] by simp
  moreover have "h @ p = h' @ p'" using p(3) p'(3) by (rule subst)
  ultimately have "p = p'" by simp
  with "2.IH" [OF ok p(1)] p'(1) y show ?case by simp
next
  case 3
  then show ?case using enc_nonempty by (cases ys) auto
next
  case (4 x xs)
  then obtain e es where e: "enc x = Inr e" "enc_all xs = Inr es" "p = e @ es" by auto
  with "4.prems" have ne: "e \<noteq> []" using enc_nonempty by auto
  then obtain y ys' where ys: "ys = y # ys'" using "4.prems" e by (cases ys) auto
  then obtain f fs where f: "enc y = Inr f" "enc_all ys' = Inr fs" "p = f @ fs"
    using "4.prems" by auto
  have "length e = length f"
    using item_complete(1) [of x e es] item_complete(1) [of y f fs] "4.prems" e f ys by auto
  with e f have "e = f" "es = fs" by (metis append_eq_append_conv)+
  with "4.IH"(1) [of y e] "4.IH"(2) [OF e(1), of ys' es] "4.prems" e f ys show ?case by simp
qed

end
