(* ===== verification/RlpTree.thy ===== *)
theory RlpTree
  imports RlpDec
begin

text \<open>
  The strict RLP decoder of \<open>guest/test/exp_tx.py\<close> (\<open>rlp_item\<close>, \<open>rlp_list\<close>,
  \<open>rlp_decode_fully\<close>), which builds the item tree over a window of the input.  A simulation
  shows that it accepts a window exactly when the decoder of the vector generator does; from it
  follows that \<open>rlp_decode_fully\<close> inverts \<open>enc\<close>, which makes RLP a \<open>codec\<close>.
\<close>

section \<open>The decoder\<close>

text \<open>
  The length of a long form, the lines the two long branches of \<open>rlp_item\<close> share: the \<open>ll\<close>
  length bytes, canonical, and the payload they announce inside the window.
\<close>

definition long_len :: "bytes \<Rightarrow> nat \<Rightarrow> nat \<Rightarrow> nat \<Rightarrow> nat res" where
  "long_len b off stop ll =
     (if stop - off - 1 < ll then Inl (TxErr ''short'')
      else let lb = bslice b (off + 1) (off + 1 + ll) in
        ebind (index_at lb 0) (\<lambda>l0.
        if l0 = 0 then Inl (TxErr ''noncanon len'')
        else let n = from_be lb in
          if n \<le> 55 then Inl (TxErr ''noncanon len'')
          else if stop - off - 1 - ll < n then Inl (TxErr ''short'')
          else Inr n))"

function rlp_item :: "bytes \<Rightarrow> nat \<Rightarrow> nat \<Rightarrow> (rlp \<times> nat) res"
  and rlp_list :: "bytes \<Rightarrow> nat \<Rightarrow> nat \<Rightarrow> rlp list res" where
  "rlp_item b off stop =
     (if off \<ge> stop then Inl (TxErr ''empty'') else
      ebind (index_at b off) (\<lambda>x.
      if unat x < 0x80 then Inr (RBytes [x], off + 1)
      else if unat x \<le> 0xB7 then
        (let n = unat x - 0x80 in
         if stop - off - 1 < n then Inl (TxErr ''short'')
         else ebind (if n = 1 then ebind (index_at b (off + 1)) (\<lambda>c. Inr (unat c < 0x80)) else Inr False)
           (\<lambda>noncanon. if noncanon then Inl (TxErr ''noncanon single'')
            else Inr (RBytes (bslice b (off + 1) (off + 1 + n)), off + 1 + n)))
      else if unat x \<le> 0xBF then
        (let ll = unat x - 0xB7 in
         ebind (long_len b off stop ll) (\<lambda>n.
           let s = off + 1 + ll in Inr (RBytes (bslice b s (s + n)), s + n)))
      else if unat x \<le> 0xF7 then
        (let n = unat x - 0xC0 in
         if stop - off - 1 < n then Inl (TxErr ''short'')
         else ebind (rlp_list b (off + 1) (off + 1 + n)) (\<lambda>xs. Inr (RList xs, off + 1 + n)))
      else
        (let ll = unat x - 0xF7 in
         ebind (long_len b off stop ll) (\<lambda>n.
           let s = off + 1 + ll in ebind (rlp_list b s (s + n)) (\<lambda>xs. Inr (RList xs, s + n))))))"
| "rlp_list b off stop =
     (if off < stop
      then ebind (rlp_item b off stop) (\<lambda>(it, off').
           ebind (rlp_list b off' stop) (\<lambda>rest. Inr (it # rest)))
      else Inr [])"
  by pat_completeness auto

lemma rlp_item_progress_dom:
  "rlp_item_rlp_list_dom (Inl (b, off, stop)) \<Longrightarrow> rlp_item b off stop = Inr (it, off') \<Longrightarrow> off < off'"
  by (auto simp: rlp_item.psimps Let_def ebind_Inr_iff split: if_splits)

termination rlp_item
proof (relation "measures [\<lambda>x. case x of Inl (b, off, stop) \<Rightarrow> stop - off | Inr (b, off, stop) \<Rightarrow> stop - off,
                           \<lambda>x. case x of Inl _ \<Rightarrow> 0 | Inr _ \<Rightarrow> (1::nat)]", goal_cases)
  case (5 b off stop x it off')
  then have "off < off'" using rlp_item_progress_dom by blast
  with 5 show ?case by auto
qed (auto simp: long_len_def Let_def split: if_splits)

declare rlp_item.simps [simp del] rlp_list.simps [simp del]

definition rlp_decode_fully :: "bytes \<Rightarrow> rlp res" where
  "rlp_decode_fully b =
     ebind (rlp_item b 0 (length b)) (\<lambda>(it, stop).
     if stop \<noteq> length b then Inl (TxErr ''trailing'') else Inr it)"

section \<open>Windows of a byte string\<close>

lemma bslice_Cons: "off < j \<Longrightarrow> off < length b \<Longrightarrow> bslice b off j = b ! off # bslice b (off + 1) j"
  by (simp add: bslice_def take_Cons' Cons_nth_drop_Suc [symmetric])

lemma bslice_prefix:
  assumes "bslice b i (i + (m + n)) = xs @ ys" "length xs = m" "length ys = n"
  shows "bslice b i (i + m) = xs" "bslice b (i + m) (i + m + n) = ys"
proof -
  have "bslice b i (i + m) @ bslice b (i + m) (i + m + n) = xs @ ys"
    using bslice_append [of i "i + m" "i + m + n" b] assms(1) by (simp add: add.assoc)
  moreover have "length (bslice b i (i + (m + n))) = m + n" using assms by simp
  then have "length (bslice b i (i + m)) = length xs" using assms(2) by (auto simp: min_def split: if_splits)
  ultimately show "bslice b i (i + m) = xs" "bslice b (i + m) (i + m + n) = ys" by simp_all
qed

section \<open>Soundness\<close>

lemma long_len_Inr:
  assumes "long_len b off stop ll = Inr n" "stop \<le> length b" "off < stop" "0 < ll"
  shows "55 < n" "off + 1 + ll + n \<le> stop" "be n = bslice b (off + 1) (off + 1 + ll)"
    "length (be n) = ll"
proof -
  let ?lb = "bslice b (off + 1) (off + 1 + ll)"
  from assms(1) have n: "n = from_be ?lb" and nz: "?lb ! 0 \<noteq> 0" and len: "ll \<le> stop - off - 1"
    and bd: "55 < n" "n \<le> stop - off - 1 - ll"
    by (auto simp: long_len_def Let_def not_less not_le split: if_splits)
  show "55 < n" "off + 1 + ll + n \<le> stop" using bd len assms(3) by auto
  have l: "length ?lb = ll" using len assms(2,3) by simp
  then have "?lb \<noteq> []" using assms(4) by (metis less_numeral_extra(3) list.size(3))
  then have "no_lead ?lb" using nz by (simp add: no_lead_def hd_conv_nth)
  then show "be n = ?lb" using n by (simp add: be_from_be)
  then show "length (be n) = ll" using l by simp
qed

lemma rlp_item_sound:
  "stop \<le> length b \<Longrightarrow> rlp_item b off stop = Inr (x, off') \<Longrightarrow>
     off < off' \<and> off' \<le> stop \<and> rlp_ok x \<and> enc x = Inr (bslice b off off')"
  and rlp_list_sound:
  "stop \<le> length b \<Longrightarrow> off \<le> stop \<Longrightarrow> rlp_list b off stop = Inr xs \<Longrightarrow>
     list_all rlp_ok xs \<and> enc_all xs = Inr (bslice b off stop)"
proof (induction b off stop and b off stop arbitrary: x off' and xs rule: rlp_item_rlp_list.induct)
  case (1 b off stop)
  then have lt: "off < stop" by (auto simp: rlp_item.simps split: if_splits)
  then have off: "off < length b" using "1.prems"(1) by simp
  note step = "1.prems"(2) [unfolded rlp_item.simps [of b off stop]]
  have win: "bslice b off j = b ! off # bslice b (off + 1) j" if "off < j" for j
    using off that by (rule bslice_Cons [rotated])
  show ?case
  proof (cases "b ! off" rule: byte_cases)
    case single
    with step off lt win [of "off + 1"] show ?thesis
      by (auto simp: index_at_def enc_bytes_def)
  next
    case short_bytes
    define n where "n = unat (b ! off) - 0x80"
    let ?p = "bslice b (off + 1) (off + 1 + n)"
    from step off lt short_bytes
    have n: "n \<le> stop - off - 1" "\<not> (n = 1 \<and> unat (b ! (off + 1)) < 0x80)"
      and x: "x = RBytes ?p" "off' = off + 1 + n"
      by (auto simp: index_at_def Let_def n_def [symmetric] not_less split: if_splits)
    have h: "unat (b ! off) = 0x80 + n" "n < 2 ^ 64" using short_bytes by (auto simp: n_def)
    have "length ?p = n" using n(1) lt "1.prems"(1) by simp
    moreover have "?p ! 0 = b ! (off + 1)" if "n = 1"
      using that n(1) lt "1.prems"(1) by (simp add: bslice_def)
    ultimately have "enc_bytes ?p = Inr (b ! off # ?p)"
      using n h short_bytes by (intro enc_bytes_short [of _ n]) auto
    with x n lt win [of off'] h(2) \<open>length ?p = n\<close> show ?thesis by auto
  next
    case long_bytes
    define ll where "ll = unat (b ! off) - 0xB7"
    from step off lt long_bytes obtain n where n: "long_len b off stop ll = Inr n"
      and x: "x = RBytes (bslice b (off + 1 + ll) (off + 1 + ll + n))" "off' = off + 1 + ll + n"
      by (auto simp: index_at_def Let_def ll_def [symmetric] ebind_Inr_iff)
    note ll = long_len_Inr [OF n "1.prems"(1) lt]
    have ll0: "0 < ll" "ll \<le> 8" using long_bytes by (auto simp: ll_def)
    let ?p = "bslice b (off + 1 + ll) (off + 1 + ll + n)"
    have "length ?p = n" using ll(2) [OF ll0(1)] "1.prems"(1) by simp
    moreover have "enc_bytes ?p = Inr (b ! off # be n @ ?p)"
      using ll(1,4) ll0 long_bytes calculation by (intro enc_bytes_long) (auto simp: ll_def)
    moreover have "be n @ ?p = bslice b (off + 1) (off + 1 + ll + n)"
      using ll(3) ll0 by (simp add: bslice_append)
    moreover have "n < 2 ^ 64" using ll(4) ll0 by (intro be_byte_lt) simp
    ultimately show ?thesis using x ll(2) ll0 win [of off'] by auto
  next
    case short_list
    define n where "n = unat (b ! off) - 0xC0"
    from step off lt short_list obtain xs where n: "n \<le> stop - off - 1"
      and xs: "rlp_list b (off + 1) (off + 1 + n) = Inr xs" and x: "x = RList xs" "off' = off + 1 + n"
      by (auto simp: index_at_def Let_def n_def [symmetric] not_less ebind_Inr_iff split: if_splits)
    have "list_all rlp_ok xs \<and> enc_all xs = Inr (bslice b (off + 1) (off + 1 + n))"
      using "1.IH"(1) [of "b ! off" n xs] xs n lt off short_list "1.prems"(1) by (auto simp: n_def)
    moreover have "header 0xC0 n = Inr [b ! off]"
      using short_list by (intro header_list_short) (auto simp: n_def)
    moreover have "length (bslice b (off + 1) (off + 1 + n)) = n" using n lt "1.prems"(1) by simp
    ultimately show ?thesis using x n lt win [of off'] by auto
  next
    case long_list
    define ll where "ll = unat (b ! off) - 0xF7"
    from step off lt long_list obtain n xs where n: "long_len b off stop ll = Inr n"
      and xs: "rlp_list b (off + 1 + ll) (off + 1 + ll + n) = Inr xs"
      and x: "x = RList xs" "off' = off + 1 + ll + n"
      by (auto simp: index_at_def Let_def ll_def [symmetric] ebind_Inr_iff)
    have ll0: "0 < ll" "ll \<le> 8" using long_list byte_less [of "b ! off"] by (auto simp: ll_def)
    note ll = long_len_Inr [OF n "1.prems"(1) lt ll0(1)]
    let ?p = "bslice b (off + 1 + ll) (off + 1 + ll + n)"
    have "list_all rlp_ok xs \<and> enc_all xs = Inr ?p"
      using "1.IH"(2) [of "b ! off" ll n "off + 1 + ll" xs] xs n ll lt off long_list "1.prems"(1)
      by (auto simp: ll_def)
    moreover have "header 0xC0 n = Inr (b ! off # be n)"
      using ll ll0 long_list by (intro header_list_long) (auto simp: ll_def)
    moreover have "length ?p = n" using ll(2) "1.prems"(1) by simp
    moreover have "be n @ ?p = bslice b (off + 1) (off + 1 + ll + n)"
      using ll(3) by (simp add: bslice_append)
    ultimately show ?thesis using x ll(2) win [of off'] by auto
  qed
next
  case (2 b off stop)
  show ?case
  proof (cases "off < stop")
    case False
    with "2.prems" show ?thesis by (auto simp: rlp_list.simps)
  next
    case True
    with "2.prems" obtain x off' rest where it: "rlp_item b off stop = Inr (x, off')"
      and rest: "rlp_list b off' stop = Inr rest" and xs: "xs = x # rest"
      by (auto simp: rlp_list.simps [of b off])
    from "2.IH"(1) [OF True "2.prems"(1) it] have x: "off < off'" "off' \<le> stop" "rlp_ok x"
      "enc x = Inr (bslice b off off')" by auto
    from "2.IH"(2) [OF True it _ "2.prems"(1) x(2) rest] x xs show ?thesis by (simp add: bslice_append)
  qed
qed

section \<open>Completeness\<close>

lemma long_len_be:
  assumes "55 < n" "length (be n) = ll" "stop \<le> length b" "off + 1 + ll + n \<le> stop"
    "bslice b (off + 1) (off + 1 + ll) = be n"
  shows "long_len b off stop ll = Inr n"
proof -
  have "be n \<noteq> []" using assms(1) by simp
  then have "be n ! 0 \<noteq> 0" "0 < length (be n)"
    using no_lead_be [of n] by (auto simp: no_lead_def hd_conv_nth)
  with assms show ?thesis by (auto simp: long_len_def Let_def index_at_def)
qed

lemma rlp_bytes_complete:
  assumes e: "enc_bytes c = Inr e" "length c < 2 ^ 64"
    and at: "bslice b off (off + length e) = e" "off + length e \<le> stop" "stop \<le> length b"
  shows "rlp_item b off stop = Inr (RBytes c, off + length e)"
  using e
proof (cases rule: enc_bytes_cases)
  case (single d)
  then have "b ! off = d" using at bslice_Cons [of off "off + 1" b] by simp
  with single at show ?thesis by (simp add: rlp_item.simps index_at_def)
next
  case (short_form h)
  then have x: "b ! off = h" "bslice b (off + 1) (off + 1 + length c) = c"
    using at bslice_Cons [of off "off + length e" b] by (simp_all add: add.assoc)
  from x(2) have "b ! (off + 1) = c ! 0" if "length c = 1"
    using that at short_form bslice_Cons [of "off + 1" "off + 1 + length c" b] by auto
  with x short_form at show ?thesis by (auto simp: rlp_item.simps [of b off] index_at_def Let_def)
next
  case (long_form h)
  define n where "n = length c"
  have ll: "1 \<le> length (be n)" "length (be n) \<le> 8"
    using long_form e(2) be_length_bounds [of n] by (auto simp: n_def)
  have len: "length e = 1 + length (be n) + n" using long_form by (simp add: n_def)
  have "bslice b off (off + length e) = b ! off # bslice b (off + 1) (off + length e)"
    using at len by (intro bslice_Cons) auto
  then have x: "b ! off = h" "bslice b (off + 1) (off + 1 + (length (be n) + n)) = be n @ c"
    using at long_form len by (simp_all add: n_def add.assoc)
  note parts = bslice_prefix [OF x(2) refl n_def [symmetric]]
  have "long_len b off stop (length (be n)) = Inr n"
    using long_form len at parts(1) by (intro long_len_be) (auto simp: n_def)
  with x long_form len at ll parts(2) show ?thesis
    by (simp add: rlp_item.simps [of b off] index_at_def Let_def add.assoc flip: n_def)
qed

lemma rlp_list_item_complete:
  assumes h: "header 0xC0 (length p) = Inr h"
    and sub: "rlp_list b (off + length h) (off + length h + length p) = Inr xs"
    and at: "bslice b off (off + (length h + length p)) = h @ p" "off + (length h + length p) \<le> stop"
      "stop \<le> length b"
  shows "rlp_item b off stop = Inr (RList xs, off + (length h + length p))"
  using h
proof (cases rule: enc_list_cases)
  case (short_form c)
  have "bslice b off (off + 1) = [c]" using bslice_prefix(1) [OF at(1)] short_form by simp
  then have "b ! off = c" using bslice_Cons [of off "off + 1" b] at short_form by simp
  with short_form at sub show ?thesis by (simp add: rlp_item.simps [of b off] index_at_def Let_def)
next
  case (long_form c)
  define n where "n = length p"
  have ll: "1 \<le> length (be n)" "length (be n) \<le> 8"
    using long_form header_list_bound [OF h] be_length_bounds [of n] by (auto simp: n_def)
  have "bslice b off (off + length h) = h" using bslice_prefix(1) [OF at(1)] by simp
  then have x: "b ! off = c" "bslice b (off + 1) (off + 1 + length (be n)) = be n"
    using bslice_Cons [of off "off + length h" b] at long_form by (auto simp: n_def)
  have "long_len b off stop (length (be n)) = Inr n"
    using long_form at x(2) by (intro long_len_be) (auto simp: n_def)
  with x(1) long_form at ll sub show ?thesis
    by (simp add: rlp_item.simps [of b off] index_at_def Let_def add.assoc flip: n_def)
qed

lemma rlp_item_complete:
  "rlp_ok x \<Longrightarrow> enc x = Inr e \<Longrightarrow> bslice b off (off + length e) = e \<Longrightarrow> off + length e \<le> stop \<Longrightarrow>
     stop \<le> length b \<Longrightarrow> rlp_item b off stop = Inr (x, off + length e)"
  and rlp_list_complete:
  "list_all rlp_ok xs \<Longrightarrow> enc_all xs = Inr p \<Longrightarrow> bslice b off (off + length p) = p \<Longrightarrow>
     off + length p \<le> length b \<Longrightarrow> rlp_list b off (off + length p) = Inr xs"
proof (induction x and xs arbitrary: e off stop and p off rule: enc_enc_all.induct)
  case (1 c)
  then show ?case by (intro rlp_bytes_complete) auto
next
  case (2 xs)
  then obtain p h where p: "enc_all xs = Inr p" and h: "header 0xC0 (length p) = Inr h" and e: "e = h @ p"
    by auto
  have at: "bslice b off (off + (length h + length p)) = h @ p" "off + (length h + length p) \<le> stop"
    using "2.prems" e by simp_all
  have "rlp_list b (off + length h) (off + length h + length p) = Inr xs"
    using bslice_prefix(2) [OF at(1) refl refl] at(2) "2.prems"(1,5) by (intro "2.IH" p) simp_all
  from rlp_list_item_complete [OF h this at "2.prems"(5)] e show ?case by simp
next
  case 3
  then show ?case by (simp add: rlp_list.simps)
next
  case (4 x xs)
  then obtain e es where e: "enc x = Inr e" "enc_all xs = Inr es" and p: "p = e @ es" by auto
  have ok: "rlp_ok x" "list_all rlp_ok xs" using "4.prems"(1) by simp_all
  have ne: "0 < length e" using enc_nonempty [OF ok(1) e(1)] by simp
  have at: "bslice b off (off + (length e + length es)) = e @ es" using "4.prems" p by simp
  note parts = bslice_prefix [OF at refl refl]
  have "rlp_item b off (off + length p) = Inr (x, off + length e)"
    using "4.prems" p by (intro "4.IH"(1) ok e parts) simp_all
  moreover have "rlp_list b (off + length e) (off + length e + length es) = Inr xs"
    using "4.prems" p by (intro "4.IH"(2) [OF e(1)] ok e parts) simp_all
  ultimately show ?case using ne p by (simp add: rlp_list.simps [of b off] add.assoc)
qed

section \<open>The codec\<close>

lemma rlp_decode_fully_iff: "rlp_decode_fully b = Inr x \<longleftrightarrow> rlp_ok x \<and> enc x = Inr b"
proof
  assume "rlp_decode_fully b = Inr x"
  then have "rlp_item b 0 (length b) = Inr (x, length b)"
    by (auto simp: rlp_decode_fully_def split: if_splits)
  from rlp_item_sound [OF _ this] show "rlp_ok x \<and> enc x = Inr b" by simp
next
  assume "rlp_ok x \<and> enc x = Inr b"
  then show "rlp_decode_fully b = Inr x"
    using rlp_item_complete [of x b b 0 "length b"] by (simp add: rlp_decode_fully_def)
qed

interpretation rlp: codec rlp_ok enc rlp_decode_fully
  by unfold_locales (simp_all add: rlp_decode_fully_iff)

text \<open>The tree decoder accepts exactly the strings that are one item for \<open>RlpDec.item\<close>.\<close>

lemma rlp_decode_fully_item:
  "(\<exists>x. rlp_decode_fully b = Inr x) \<longleftrightarrow> (\<exists>k po pl. item b = Inr (k, po, pl, length b))"
  by (simp add: rlp_decode_fully_iff item_accepts_iff)

text \<open>
  Every rejection is a \<open>TxErr\<close>: the index \<open>lb[0]\<close> and the single-byte check never run off the end.
\<close>

lemma index_at_ok [simp]: "i < length b \<Longrightarrow> index_at b i = Inr (b ! i)"
  by (simp add: index_at_def)

lemma long_len_raises:
  "long_len b off stop ll = Inl e \<Longrightarrow> stop \<le> length b \<Longrightarrow> 0 < ll \<Longrightarrow> \<exists>m. e = TxErr m"
  by (auto simp: long_len_def Let_def index_at_def bslice_def split: if_splits)

lemma rlp_item_raises: "rlp_item b off stop = Inl e \<Longrightarrow> stop \<le> length b \<Longrightarrow> \<exists>m. e = TxErr m"
  and rlp_list_raises: "rlp_list b off stop = Inl e \<Longrightarrow> stop \<le> length b \<Longrightarrow> \<exists>m. e = TxErr m"
proof (induction b off stop and b off stop arbitrary: e and e rule: rlp_item_rlp_list.induct)
  case (1 b off stop)
  show ?case
  proof (cases "off < stop")
    case False
    with "1.prems" show ?thesis by (auto simp: rlp_item.simps)
  next
    case True
    then have off: "off < length b" using "1.prems"(2) by simp
    note step = "1.prems"(1) [unfolded rlp_item.simps [of b off stop]]
    show ?thesis
    proof (cases "b ! off" rule: byte_cases)
      case long_bytes
      then have "0 < unat (b ! off) - 0xB7" by simp
      from long_len_raises [OF _ "1.prems"(2) this] step off True long_bytes show ?thesis
        by (auto simp: Let_def ebind_def split: sum.splits)
    next
      case short_list
      with "1.IH"(1) step off True "1.prems"(2) show ?thesis
        by (auto simp: Let_def ebind_def split: if_splits sum.splits)
    next
      case long_list
      then have ll: "0 < unat (b ! off) - 0xF7" by simp
      from long_len_raises [OF _ "1.prems"(2) this] long_len_Inr [OF _ "1.prems"(2) True ll]
        "1.IH"(2) step off True long_list "1.prems"(2) show ?thesis
        by (fastforce simp: Let_def ebind_def split: sum.splits)
    qed (use step off True "1.prems"(2) in \<open>auto simp: Let_def ebind_def split: if_splits sum.splits\<close>)
  qed
next
  case (2 b off stop)
  show ?case
  proof (cases "rlp_item b off stop")
    case (Inl e')
    with 2 show ?thesis by (auto simp: rlp_list.simps [of b off] split: if_splits)
  next
    case (Inr r)
    with 2 show ?thesis
      by (cases r) (auto simp: rlp_list.simps [of b off] ebind_def split: if_splits sum.splits)
  qed
qed

lemma rlp_decode_fully_raises: "rlp_decode_fully b = Inl e \<Longrightarrow> \<exists>m. e = TxErr m"
  using rlp_item_raises [of b 0 "length b"]
  by (auto simp: rlp_decode_fully_def ebind_def split: if_splits sum.splits)

section \<open>Properties\<close>

text \<open>C3: The tree decoder accepts exactly the RLP encodings: it returns an item if and only if the encoder maps that
  item to the input.  So encodings round-trip, and no other byte string (a longer length form, a wrapped single byte,
  trailing bytes) is accepted for an item.\<close>

theorem rlp_codec: "rlp_decode_fully b = Inr x \<longleftrightarrow> rlp_ok x \<and> enc x = Inr b"
  by (rule rlp.decode_iff)

text \<open>The decoder of the vector generator accepts a string, and reports a total length \<open>t\<close>, exactly when the first
  \<open>t\<close> bytes are the encoding of an item; what follows is not looked at.\<close>

theorem item_accepts_prefix:
  "(\<exists>k po pl. item bs = Inr (k, po, pl, t)) \<longleftrightarrow> (\<exists>x. rlp_ok x \<and> enc x = Inr (take t bs) \<and> t \<le> length bs)"
  by (rule item_accepts_iff)

text \<open>The two decoders, written independently, accept the same strings: the transaction oracle decodes \<open>b\<close> exactly
  when the generator's decoder finds one item that spans all of \<open>b\<close>.\<close>

theorem decoders_agree:
  "(\<exists>x. rlp_decode_fully b = Inr x) \<longleftrightarrow> (\<exists>k po pl. item b = Inr (k, po, pl, length b))"
  by (rule rlp_decode_fully_item)

text \<open>\<open>list_count\<close> accepts exactly the concatenations of encodings and returns how many there are.\<close>

theorem list_count_counts:
  "list_count p = Inr n \<longleftrightarrow> (\<exists>xs. list_all rlp_ok xs \<and> enc_all xs = Inr p \<and> length xs = n)"
  by (rule list_count_iff)

text \<open>The two encoders agree: the transaction oracle's list and string encoders and its scalars are the reference
  encoder's, and a scalar is the encoding of the minimal big-endian bytes.\<close>

theorem encoders_agree:
  "enc (RList xs) = ebind (emap enc xs) enc_list \<and> tx_enc_bytes b = enc (RBytes b) \<and> scalar n = enc (RBytes (be n)) \<and>
   no_lead (be n) \<and> from_be (be n) = n"
  by (simp add: enc_RList tx_enc_bytes_eq scalar_eq no_lead_be del: enc.simps(2))

text \<open>A rejected string raises \<open>TxErr\<close> and nothing else, which is what the callers catch: no index runs off the
  input and no conversion overflows.\<close>

theorem rlp_decode_rejects_with_TxErr:
  assumes "rlp_decode_fully b = Inl e"
  shows "\<exists>m. e = TxErr m"
  by (rule rlp_decode_fully_raises [OF assms])

theorem rlp_decode_rejects_with_TxErr_witness:
  "\<exists>e. rlp_decode_fully [0xB8] = Inl e \<and> (\<exists>m. e = TxErr m)"
proof -
  have "rlp_decode_fully [0xB8] = Inl (TxErr ''short'')"
    by (simp add: rlp_decode_fully_def rlp_item.simps long_len_def)
  with rlp_decode_rejects_with_TxErr [OF this] show ?thesis by blast
qed

end
