(* ===== verification/RlpRecord.thy ===== *)
theory RlpRecord
  imports RlpTree
begin

text \<open>
  The 32-byte record of \<open>tools/gen_rlp_vectors.py\<close> (\<open>record\<close>): what the generator expects the
  guest's RLP routines to report on one input.  The theorems tie every field to the encoder.
\<close>

section \<open>The record\<close>

definition set_bytes :: "bytes \<Rightarrow> nat \<Rightarrow> bytes \<Rightarrow> bytes" where
  \<comment> \<open>\<open>rec[i:i + len(b)] = b\<close> on a bytearray\<close>
  "set_bytes r i b = take i r @ b @ drop (i + length b) r"

definition flag :: "bool \<Rightarrow> byte" where
  "flag c = (if c then 1 else 0)"

definition encode_word :: "nat \<Rightarrow> bytes res" where
  "encode_word w =
     (if w = 0 then Inr [0x80]
      else if w < 128 then byte1 w
      else ebind (byte1 (0x80 + length (be w))) (\<lambda>h. Inr (h @ be w)))"

definition record_string :: "bytes \<Rightarrow> nat \<Rightarrow> nat \<Rightarrow> bytes \<Rightarrow> bytes \<Rightarrow> bytes res" where
  \<comment> \<open>the branch \<open>kind == 0\<close>\<close>
  "record_string bs pl tot pay r =
     ebind
       (if pl > 8 \<or> (pl > 0 \<and> pay ! 0 = 0) then Inr (set_bytes r 14 (replicate 8 0xFF))
        else let w = from_be pay in
          ebind (pack_u64 w) (\<lambda>q. ebind (encode_word w) (\<lambda>ew.
            Inr ((set_bytes r 14 q)[25 := flag (ew = bs)])))) (\<lambda>r.
     ebind (enc_bytes pay) (\<lambda>e.
       Inr (r[22 := flag (e = bs), 24 := flag (length e = tot),
              26 := flag (pl > 0 \<and> pay ! 0 = 0), 27 := flag ((pl > 0 \<and> pay ! 0 = 0) \<or> pl > 4)])))"

definition record_list :: "bytes \<Rightarrow> nat \<Rightarrow> nat \<Rightarrow> nat \<Rightarrow> bytes \<Rightarrow> bytes \<Rightarrow> bytes res" where
  \<comment> \<open>the branch of a list\<close>
  "record_list bs po pl tot pay r =
     ebind (list_count pay) (\<lambda>n. ebind (pack_u32 n) (\<lambda>q.
     ebind (header 0xC0 pl) (\<lambda>h.
       Inr ((set_bytes r 10 q)[23 := flag (h = bslice bs 0 po), 24 := flag (length h + pl = tot), 28 := 1]))))"

definition record_of :: "bytes \<Rightarrow> bytes res" where
  "record_of bs =
     (let r = (case item bs of Inl (Err _) \<Rightarrow> (zeros 32)[29 := 1] | _ \<Rightarrow> zeros 32) in
      case ebind (item bs) (\<lambda>(kd, po, pl, tot).
             if tot \<noteq> length bs then Inl (Err ''trailing'') else Inr (kd, po, pl, tot)) of
        Inl (Err _) \<Rightarrow> Inr (r[0 := 1])
      | Inl e \<Rightarrow> Inl e
      | Inr (kd, po, pl, tot) \<Rightarrow>
          ebind (pack_u32 pl) (\<lambda>a. ebind (pack_u32 tot) (\<lambda>b.
            let r = set_bytes (set_bytes (r[1 := word_of_nat kd]) 2 a) 6 b;
                pay = bslice bs po (po + pl) in
            if kd = 0 then record_string bs pl tot pay r else record_list bs po pl tot pay r)))"

section \<open>Fields\<close>

lemma length_set_bytes [simp]: "i + length b \<le> length r \<Longrightarrow> length (set_bytes r i b) = length r"
  by (simp add: set_bytes_def)

lemma nth_set_bytes: "i + length b \<le> length r \<Longrightarrow> k < length r \<Longrightarrow>
    set_bytes r i b ! k = (if i \<le> k \<and> k < i + length b then b ! (k - i) else r ! k)"
  by (auto simp: set_bytes_def nth_append)

lemma bslice_set_bytes: "i + length b \<le> length r \<Longrightarrow> bslice (set_bytes r i b) i (i + length b) = b"
  by (simp add: set_bytes_def bslice_middle)

lemma bslice_cong:
  assumes "length r = length s" "\<And>k. i \<le> k \<Longrightarrow> k < j \<Longrightarrow> k < length r \<Longrightarrow> r ! k = s ! k"
  shows "bslice r i j = bslice s i j"
  using assms by (auto simp: bslice_def intro!: nth_equalityI)

text \<open>The item that spans the input, with the offsets the generator's decoder reports for it.\<close>

lemma item_spans:
  assumes "item bs = Inr (k, po, pl, length bs)"
  obtains (string) b where "enc_bytes b = Inr bs" "length b < 2 ^ 64" "k = 0" "b = bslice bs po (po + pl)" "length b = pl"
  | (list) xs p h where "list_all rlp_ok xs" "enc_all xs = Inr p" "header 0xC0 pl = Inr h" "bs = h @ p" "k = 1"
      "po = length h" "pl = length p" "p = bslice bs po (po + pl)"
proof -
  from item_sound [OF assms] obtain x where "describes bs (k, po, pl, length bs) x" by blast
  then have x: "rlp_ok x" "enc x = Inr bs" "po + pl = length bs" "k = kind x" "payload x = Inr (bslice bs po (length bs))"
    by (auto simp: describes_def)
  show ?thesis
  proof (cases x)
    case (RBytes b)
    then have "b = bslice bs po (po + pl)" using x by simp
    moreover from this have "length b = pl" using x(3) by simp
    ultimately show ?thesis using string [of b] x RBytes by simp
  next
    case (RList xs)
    then have "enc (RList xs) = Inr bs" using x(2) by simp
    then obtain p h where p: "enc_all xs = Inr p" "header 0xC0 (length p) = Inr h" "bs = h @ p" by auto
    have pp: "p = bslice bs po (po + pl)" using x(3,5) RList p(1) by simp
    have lp: "length p = pl" using arg_cong [OF pp, of length] x(3) by simp
    have po: "po = length h" using arg_cong [OF p(3), of length] lp x(3) by simp
    show ?thesis using x(1,4) RList p(1,2) lp by (intro list [OF _ _ _ p(3) _ po _ pp]) simp_all
  qed
qed

lemma encode_word_enc: "w < 2 ^ 64 \<Longrightarrow> encode_word w = enc_bytes (be w)"
proof -
  assume w: "w < 2 ^ 64"
  then have len: "length (be w) \<le> 8" by (simp add: length_be_le_iff)
  consider "w = 0" | "0 < w" "w < 128" | "128 \<le> w" by linarith
  then show ?thesis
  proof cases
    case 1
    then show ?thesis by (simp add: encode_word_def enc_bytes_def header_def byte1_def)
  next
    case 2
    then have "be w = [word_of_nat w]"
      by (simp add: be_def be_loop.simps [of w] be_loop.simps [of 0] and_255 drop_bit_eq_div)
    with 2 show ?thesis by (simp add: encode_word_def enc_bytes_def byte1_def)
  next
    case 3
    have "\<not> (length (be w) = 1 \<and> unat (be w ! 0) < 0x80)"
    proof
      assume "length (be w) = 1 \<and> unat (be w ! 0) < 0x80"
      then obtain c where "be w = [c]" "unat c < 0x80" by (cases "be w") auto
      with from_be_be [of w] 3 show False by (simp add: from_be_def)
    qed
    with 3 len show ?thesis by (auto simp: encode_word_def enc_bytes_def header_def)
  qed
qed

text \<open>The word of a string: its value, when it is the minimal form of a 64-bit integer.\<close>

definition is_word :: "bytes \<Rightarrow> bool" where
  "is_word b \<longleftrightarrow> no_lead b \<and> length b \<le> 8"

lemma record_string_spec:
  assumes e: "enc_bytes b = Inr bs" and len: "length r = 32"
  shows "\<exists>r'. record_string bs (length b) (length bs) b r = Inr r' \<and> length r' = 32 \<and>
    (\<forall>i<14. r' ! i = r ! i) \<and> r' ! 29 = r ! 29 \<and> r' ! 22 = 1 \<and> r' ! 24 = 1 \<and> (r' ! 26 = 1 \<longleftrightarrow> \<not> no_lead b) \<and>
    (if is_word b then bslice r' 14 22 = le_fix 8 (from_be b) \<and> r' ! 25 = 1
     else bslice r' 14 22 = replicate 8 0xFF)"
proof -
  define lead where "lead \<longleftrightarrow> b \<noteq> [] \<and> b ! 0 = 0"
  have lead: "lead \<longleftrightarrow> \<not> no_lead b" by (cases b) (auto simp: lead_def no_lead_def)
  define r1 where "r1 = (if is_word b then (set_bytes r 14 (le_fix 8 (from_be b)))[25 := 1]
    else set_bytes r 14 (replicate 8 0xFF))"
  have "(if length b > 8 \<or> (length b > 0 \<and> b ! 0 = 0) then Inr (set_bytes r 14 (replicate 8 0xFF))
        else let w = from_be b in
          ebind (pack_u64 w) (\<lambda>q. ebind (encode_word w) (\<lambda>ew.
            Inr ((set_bytes r 14 q)[25 := flag (ew = bs)])))) = Inr r1"
  proof (cases "is_word b")
    case True
    then have b: "no_lead b" "length b \<le> 8" "be (from_be b) = b" by (auto simp: is_word_def be_from_be)
    then have w: "from_be b < 2 ^ 64" using length_be_le_iff [of "from_be b" 8] by simp
    have "encode_word (from_be b) = Inr bs" using encode_word_enc [OF w] b(3) e by simp
    moreover have "\<not> (length b > 8 \<or> lead)" using b(1,2) lead by auto
    ultimately show ?thesis using w by (simp add: pack_u64_def Let_def r1_def flag_def True flip: lead_def)
  next
    case False
    then show ?thesis using lead by (auto simp: is_word_def r1_def lead_def)
  qed
  then have rec: "record_string bs (length b) (length bs) b r = Inr (r1[22 := flag (bs = bs), 24 := flag (length bs = length bs),
      26 := flag lead, 27 := flag (lead \<or> length b > 4)])"
    by (simp add: record_string_def e lead_def)
  have "length r1 = 32" using len by (simp add: r1_def)
  moreover have "\<forall>i<14. r1 ! i = r ! i" "r1 ! 29 = r ! 29"
    using len by (auto simp: r1_def nth_set_bytes nth_list_update)
  moreover have "bslice (r1[22 := a, 24 := c, 26 := d, 27 := f]) 14 22 = bslice r1 14 22" for a c d f
    by (rule bslice_cong) auto
  moreover have "if is_word b then bslice r1 14 22 = le_fix 8 (from_be b) \<and> r1 ! 25 = 1
      else bslice r1 14 22 = replicate 8 0xFF"
  proof (cases "is_word b")
    case True
    have "bslice r1 14 22 = bslice (set_bytes r 14 (le_fix 8 (from_be b))) 14 22"
      by (rule bslice_cong) (auto simp: r1_def True)
    with True len bslice_set_bytes [of 14 "le_fix 8 (from_be b)" r] show ?thesis by (simp add: r1_def)
  next
    case False
    with len bslice_set_bytes [of 14 "replicate 8 0xFF" r] show ?thesis by (simp add: r1_def)
  qed
  ultimately show ?thesis
    by (auto simp: rec flag_def lead)
qed

lemma record_list_spec:
  assumes xs: "list_all rlp_ok xs" "enc_all xs = Inr p" and h: "header 0xC0 (length p) = Inr h" and bs: "bs = h @ p"
    and len: "length r = 32" and n: "length xs < 2 ^ 32"
  shows "\<exists>r'. record_list bs (length h) (length p) (length bs) p r = Inr r' \<and> length r' = 32 \<and>
    (\<forall>i<10. r' ! i = r ! i) \<and> r' ! 29 = r ! 29 \<and> r' ! 23 = 1 \<and> r' ! 24 = 1 \<and> r' ! 28 = 1 \<and>
    bslice r' 10 14 = le_fix 4 (length xs)"
proof -
  have "list_count p = Inr (length xs)" using xs by (auto simp: list_count_iff)
  then have rec: "record_list bs (length h) (length p) (length bs) p r =
      Inr ((set_bytes r 10 (le_fix 4 (length xs)))[23 := 1, 24 := 1, 28 := 1])"
    using n by (simp add: record_list_def h bs pack_u32_def flag_def bslice_def)
  have "bslice ((set_bytes r 10 (le_fix 4 (length xs)))[23 := 1, 24 := 1, 28 := 1]) 10 14 =
      bslice (set_bytes r 10 (le_fix 4 (length xs))) 10 14"
    by (rule bslice_cong) auto
  then show ?thesis using rec len bslice_set_bytes [of 10 "le_fix 4 (length xs)" r]
    by (simp add: nth_set_bytes)
qed

section \<open>The whole record\<close>

text \<open>What the record of the encoding \<open>bs\<close> of an item says about it.\<close>

definition reports :: "bytes \<Rightarrow> bytes \<Rightarrow> rlp \<Rightarrow> bool" where
  "reports bs r x \<longleftrightarrow>
     r ! 0 = 0 \<and> r ! 24 = 1 \<and> from_le (bslice r 6 10) = length bs \<and>
     (case x of
        RBytes b \<Rightarrow> r ! 1 = 0 \<and> from_le (bslice r 2 6) = length b \<and> r ! 22 = 1 \<and> (r ! 26 = 1 \<longleftrightarrow> \<not> no_lead b) \<and>
          (if is_word b then from_le (bslice r 14 22) = from_be b \<and> r ! 25 = 1
           else bslice r 14 22 = replicate 8 0xFF)
      | RList xs \<Rightarrow> r ! 1 = 1 \<and> (\<exists>p. enc_all xs = Inr p \<and> from_le (bslice r 2 6) = length p) \<and>
          from_le (bslice r 10 14) = length xs \<and> r ! 23 = 1 \<and> r ! 28 = 1)"

definition head_record :: "byte \<Rightarrow> nat \<Rightarrow> nat \<Rightarrow> bytes" where
  "head_record kd pl tot = set_bytes (set_bytes ((zeros 32)[1 := kd]) 2 (le_fix 4 pl)) 6 (le_fix 4 tot)"

lemma head_record_fields:
  assumes "length r' = 32" "\<forall>i<10. r' ! i = head_record kd pl tot ! i" "r' ! 29 = head_record kd pl tot ! 29"
    "pl < 2 ^ 32" "tot < 2 ^ 32"
  shows "r' ! 0 = 0 \<and> r' ! 1 = kd \<and> r' ! 29 = 0 \<and> from_le (bslice r' 2 6) = pl \<and> from_le (bslice r' 6 10) = tot"
proof -
  have len: "length (head_record kd pl tot) = 32" by (simp add: head_record_def)
  have "bslice r' 2 6 = bslice (head_record kd pl tot) 2 6" "bslice r' 6 10 = bslice (head_record kd pl tot) 6 10"
    using assms(1,2) len by (auto intro!: bslice_cong)
  moreover have "bslice (head_record kd pl tot) 2 6 = bslice (set_bytes ((zeros 32)[1 := kd]) 2 (le_fix 4 pl)) 2 6"
    by (rule bslice_cong) (simp_all add: head_record_def nth_set_bytes)
  moreover have "bslice (set_bytes ((zeros 32)[1 := kd]) 2 (le_fix 4 pl)) 2 6 = le_fix 4 pl"
    using bslice_set_bytes [of 2 "le_fix 4 pl" "(zeros 32)[1 := kd]"] by simp
  moreover have "bslice (head_record kd pl tot) 6 10 = le_fix 4 tot"
    using bslice_set_bytes [of 6 "le_fix 4 tot" "set_bytes ((zeros 32)[1 := kd]) 2 (le_fix 4 pl)"]
    by (simp add: head_record_def)
  ultimately show ?thesis using assms by (simp add: head_record_def nth_set_bytes zeros_def)
qed

lemma enc_all_length: "list_all rlp_ok xs \<Longrightarrow> enc_all xs = Inr p \<Longrightarrow> length xs \<le> length p"
proof (induction xs arbitrary: p)
  case (Cons x xs)
  then obtain e es where e: "enc x = Inr e" "enc_all xs = Inr es" "p = e @ es" by auto
  with Cons.prems have "e \<noteq> []" using enc_nonempty by auto
  with Cons e show ?case by (cases e) auto
qed simp

lemma record_of_accepted:
  assumes x: "rlp_ok x" "enc x = Inr bs" and len: "length bs < 2 ^ 32"
  shows "\<exists>r. record_of bs = Inr r \<and> length r = 32 \<and> r ! 29 = 0 \<and> reports bs r x"
proof -
  obtain po pl where it: "item bs = Inr (kind x, po, pl, length bs)"
    using item_complete(1) [OF x, of "[]"] by auto
  have pl: "pl \<le> length bs" using item_sound [OF it] by (auto simp: describes_def)
  let ?r = "head_record (word_of_nat (kind x)) pl (length bs)"
  have run: "record_of bs = (if kind x = 0 then record_string bs pl (length bs) (bslice bs po (po + pl)) ?r
      else record_list bs po pl (length bs) (bslice bs po (po + pl)) ?r)"
    using pl len by (simp add: record_of_def it pack_u32_def head_record_def Let_def)
  have r: "length ?r = 32" by (simp add: head_record_def)
  from it show ?thesis
  proof (cases rule: item_spans)
    case (string b)
    then have xb: "x = RBytes b" using rlp.encode_inj [OF x(1) _ x(2), of "RBytes b"] by simp
    from record_string_spec [OF string(1) r] obtain r' where
      r': "record_of bs = Inr r'" "length r' = 32" "\<forall>i<14. r' ! i = ?r ! i" "r' ! 29 = ?r ! 29" "r' ! 22 = 1" "r' ! 24 = 1"
        "r' ! 26 = 1 \<longleftrightarrow> \<not> no_lead b" "if is_word b then bslice r' 14 22 = le_fix 8 (from_be b) \<and> r' ! 25 = 1
         else bslice r' 14 22 = replicate 8 0xFF"
      using run string by auto
    have "from_be b < 256 ^ 8" if "is_word b"
      using that from_be_less [of b] power_increasing [of "length b" 8 "256::nat"] by (simp add: is_word_def)
    then have W: "if is_word b then from_le (bslice r' 14 22) = from_be b \<and> r' ! 25 = 1
         else bslice r' 14 22 = replicate 8 0xFF"
      using r'(8) from_le_le_fix [of "from_be b" 8] by (simp split: if_splits)
    have "r' ! 0 = 0 \<and> r' ! 1 = word_of_nat (kind x) \<and> r' ! 29 = 0 \<and> from_le (bslice r' 2 6) = pl \<and>
        from_le (bslice r' 6 10) = length bs"
      using r' pl len by (intro head_record_fields) auto
    with r'(1,2,5,6,7) W string(5) show ?thesis by (simp add: reports_def xb)
  next
    case (list xs p h)
    have h: "header 0xC0 (length p) = Inr h" using list(3,7) by simp
    have xl: "x = RList xs"
      using rlp.encode_inj [OF x(1) _ x(2), of "RList xs"] list(1,2,4) h by (simp add: list.pred_set)
    have "length xs < 2 ^ 32" using enc_all_length [OF list(1,2)] arg_cong [OF list(4), of length] len by simp
    moreover note h
    moreover have "record_of bs = record_list bs (length h) (length p) (length bs) p ?r"
      using run list(5-7) list(8) [symmetric] by simp
    ultimately obtain r' where
      r': "record_of bs = Inr r'" "length r' = 32" "\<forall>i<10. r' ! i = ?r ! i" "r' ! 29 = ?r ! 29" "r' ! 23 = 1" "r' ! 24 = 1"
        "r' ! 28 = 1" "bslice r' 10 14 = le_fix 4 (length xs)"
      using record_list_spec [OF list(1,2) _ list(4) r] by metis
    have "r' ! 0 = 0 \<and> r' ! 1 = word_of_nat (kind x) \<and> r' ! 29 = 0 \<and> from_le (bslice r' 2 6) = pl \<and>
        from_le (bslice r' 6 10) = length bs"
      using r' pl len by (intro head_record_fields) auto
    with r'(1,2,5-8) list(2,7) \<open>length xs < 2 ^ 32\<close> show ?thesis by (simp add: reports_def xl)
  qed
qed

lemma record_of_rejected:
  assumes "rlp_decode_fully bs = Inl e"
  shows "\<exists>r. record_of bs = Inr r \<and> length r = 32 \<and> r ! 0 = 1 \<and> (r ! 29 = 1 \<longleftrightarrow> (\<exists>e. item bs = Inl e))"
proof (cases "item bs")
  case (Inl e)
  with item_raises_Err [OF Inl] show ?thesis by (auto simp: record_of_def Let_def zeros_def)
next
  case (Inr it)
  obtain k po pl t where it: "it = (k, po, pl, t)" by (cases it)
  have "t \<noteq> length bs" using assms rlp_decode_fully_item [of bs] Inr it by auto
  with Inr it show ?thesis by (auto simp: record_of_def Let_def zeros_def)
qed

section \<open>Properties\<close>

text \<open>C7: The generator returns a 32-byte record for every input of less than \<open>2 ^ 32\<close> bytes.  Its error flag is set
  exactly when the input is not one encoding; otherwise the record reports the encoded item: kind, payload length,
  total length, element count, whether a string is a 64-bit word and its value, and all re-encoding flags are set.\<close>

theorem record_reports:
  assumes "length bs < 2 ^ 32"
  shows "\<exists>r. record_of bs = Inr r \<and> length r = 32 \<and>
    (case rlp_decode_fully bs of Inl e \<Rightarrow> r ! 0 = 1 \<and> (r ! 29 = 1 \<longleftrightarrow> (\<exists>e. item bs = Inl e))
     | Inr x \<Rightarrow> r ! 29 = 0 \<and> reports bs r x)"
proof (cases "rlp_decode_fully bs")
  case (Inl e)
  with record_of_rejected [OF Inl] show ?thesis by simp
next
  case (Inr x)
  then have "rlp_ok x" "enc x = Inr bs" by (simp_all add: rlp_decode_fully_iff)
  from record_of_accepted [OF this assms] show ?thesis unfolding Inr by simp
qed

theorem record_reports_witness:
  "\<exists>r. record_of [0x82, 1, 2] = Inr r \<and> r ! 0 = 0 \<and> r ! 1 = 0 \<and> from_le (bslice r 14 22) = 258 \<and> r ! 25 = 1"
proof -
  have "rlp_decode_fully [0x82, 1, 2] = Inr (RBytes [1, 2])"
    by (simp add: rlp_decode_fully_def rlp_item.simps bslice_def)
  with record_reports [of "[0x82, 1, 2]"] show ?thesis
    by (auto simp: reports_def is_word_def no_lead_def from_be_def)
qed

end
