(* ===== verification/Ssz.thy ===== *)
theory Ssz
  imports Prelude
begin

text \<open>
  The SSZ encoders of \<open>tools/ssz-inputs.py\<close> and the readers of \<open>guest/test/exp_tx.py\<close> and
  \<open>tools/compare-clients.py\<close>.  A container is a fixed part with 4-byte offsets in place of its
  variable fields, followed by these fields; a list of variable-size elements is the container of
  its offsets.  The readers recover what the encoders wrote.
\<close>

section \<open>Encoders\<close>

definition u32 :: "nat \<Rightarrow> bytes res" where "u32 = pack_u32"
definition u64 :: "nat \<Rightarrow> bytes res" where "u64 = pack_u64"

text \<open>The loop of \<open>container\<close>: the state is \<open>out\<close>, \<open>offset\<close>, \<open>tail\<close>, \<open>index\<close>.\<close>

fun container_loop :: "bytes option list \<Rightarrow> bytes list \<Rightarrow> bytes \<times> nat \<times> bytes \<times> nat \<Rightarrow> (bytes \<times> nat \<times> bytes \<times> nat) res" where
  "container_loop [] vs st = Inr st"
| "container_loop (None # ps) vs (out, off, tail, i) =
     ebind (u32 off) (\<lambda>b. ebind (index_at vs i) (\<lambda>v.
       container_loop ps vs (out @ b, off + length v, tail @ v, i + 1)))"
| "container_loop (Some p # ps) vs (out, off, tail, i) = container_loop ps vs (out @ p, off, tail, i)"

definition fixed_len :: "bytes option list \<Rightarrow> nat" where
  "fixed_len ps = (\<Sum>p\<leftarrow>ps. case p of None \<Rightarrow> 4 | Some b \<Rightarrow> length b)"

definition container :: "bytes option list \<Rightarrow> bytes list \<Rightarrow> bytes res" where
  "container ps vs =
     ebind (container_loop ps vs ([], fixed_len ps, [], 0)) (\<lambda>(out, off, tail, i).
       if i = length vs then Inr (out @ tail) else Inl AssertionError)"

text \<open>The loop of \<open>var_list\<close> over the elements: the offsets written, and the running offset.\<close>

fun offsets_loop :: "bytes list \<Rightarrow> nat \<Rightarrow> bytes \<Rightarrow> bytes res" where
  "offsets_loop [] off out = Inr out"
| "offsets_loop (e # es) off out = ebind (u32 off) (\<lambda>b. offsets_loop es (off + length e) (out @ b))"

definition var_list :: "bytes list \<Rightarrow> bytes res" where
  "var_list es =
     (if es = [] then Inr []
      else ebind (offsets_loop es (4 * length es) []) (\<lambda>out. Inr (out @ concat es)))"

text \<open>The keyword arguments of \<open>payload\<close>, with their defaults.\<close>

record pl_args =
  gas_limit :: nat
  gas_used :: nat
  number :: nat
  timestamp :: nat
  extra :: bytes
  txs :: "bytes list"
  withdrawals :: bytes
  bal :: bytes
  slot :: nat
  blob_gas_used :: nat
  excess_blob_gas :: nat

definition pl_default :: pl_args where
  "pl_default = \<lparr>gas_limit = 200000000, gas_used = 0, number = 0, timestamp = 0, extra = [], txs = [],
     withdrawals = [], bal = [], slot = 0, blob_gas_used = 0, excess_blob_gas = 0\<rparr>"

definition payload_fixed :: "bytes list \<Rightarrow> bytes option list" where
  \<comment> \<open>the list \<open>fixed\<close>, given the seven integers already packed\<close>
  "payload_fixed q =
     [Some (zeros 32), Some (zeros 20), Some (zeros 32), Some (zeros 32), Some (zeros 256), Some (zeros 32),
      Some (q ! 0), Some (q ! 1), Some (q ! 2), Some (q ! 3), None, Some (zeros 32), Some (zeros 32), None, None,
      Some (q ! 4), Some (q ! 5), None, Some (q ! 6)]"

definition payload :: "pl_args \<Rightarrow> bytes res" where
  "payload a =
     ebind (seqs (map u64 [number a, gas_limit a, gas_used a, timestamp a, blob_gas_used a, excess_blob_gas a, slot a])) (\<lambda>q.
     ebind (var_list (txs a)) (\<lambda>t.
       container (payload_fixed q) [extra a, t, withdrawals a, bal a]))"

definition requests :: "bytes res" where
  "requests = container (replicate 5 None) (replicate 5 [])"

definition new_payload_request :: "bytes \<Rightarrow> bytes \<Rightarrow> bytes option \<Rightarrow> bytes res" where
  "new_payload_request pl versioned_hashes reqs =
     ebind (case reqs of None \<Rightarrow> requests | Some r \<Rightarrow> Inr r) (\<lambda>r.
       container [None, None, Some (zeros 32), None] [pl, versioned_hashes, r])"

definition witness :: "bytes list \<Rightarrow> bytes list \<Rightarrow> bytes list \<Rightarrow> bytes res" where
  "witness state codes headers =
     ebind (var_list state) (\<lambda>s. ebind (var_list codes) (\<lambda>c. ebind (var_list headers) (\<lambda>h.
       container [None, None, None] [s, c, h])))"

definition stateless_input :: "bytes option \<Rightarrow> bytes option \<Rightarrow> nat \<Rightarrow> bytes res" where
  "stateless_input pl wit chain =
     ebind (u64 chain) (\<lambda>c.
     ebind (case pl of None \<Rightarrow> payload pl_default | Some p \<Rightarrow> Inr p) (\<lambda>p.
     ebind (new_payload_request p [] None) (\<lambda>n.
     ebind (case wit of None \<Rightarrow> witness [] [] [] | Some w \<Rightarrow> Inr w) (\<lambda>w.
     ebind (container [None, None, Some c] [n, w]) (\<lambda>body. Inr ([21, 1] @ body))))))"

definition pad8 :: "nat \<Rightarrow> nat" where
  \<comment> \<open>\<open>(-n) % 8\<close>\<close>
  "pad8 n = nat (- int n mod 8)"

definition pack :: "bytes \<Rightarrow> bytes res" where
  "pack blob = ebind (u64 (length blob)) (\<lambda>n. Inr (n @ blob @ zeros (pad8 (length blob))))"

section \<open>Readers\<close>

definition frame :: "bytes \<Rightarrow> bytes res" where
  "frame blob = ebind (pack_u64 (length blob)) (\<lambda>n. Inr (n @ blob @ zeros (pad8 (length blob))))"

definition unframe :: "bytes \<Rightarrow> bytes res" where
  "unframe packed = ebind (le64_at packed 0) (\<lambda>n. Inr (bslice packed 8 (8 + n)))"

definition slices :: "bytes \<Rightarrow> nat list \<Rightarrow> bytes list" where
  \<comment> \<open>\<open>[b[offs[i]:offs[i + 1]] for i in range(n)]\<close> for \<open>n + 1\<close> offsets\<close>
  "slices b offs = map (\<lambda>i. bslice b (offs ! i) (offs ! (i + 1))) [0..<length offs - 1]"

definition read_var_list :: "bytes \<Rightarrow> bytes list res" where
  \<comment> \<open>\<open>var_list\<close> of \<open>exp_tx.py\<close>\<close>
  "read_var_list b =
     (if b = [] then Inr []
      else ebind (le32_at b 0) (\<lambda>first. let n = first div 4 in
           ebind (emap (\<lambda>i. le32_at b (4 * i)) [0..<n]) (\<lambda>offs. Inr (slices b (offs @ [length b])))))"

definition fixture_txs :: "bytes \<Rightarrow> bytes list res" where
  "fixture_txs blob =
     (let body = drop 2 blob in
      ebind (emap (\<lambda>i. le32_at body (4 * i)) [0..<4]) (\<lambda>o4.
      let npr = bslice body (o4 ! 0) (o4 ! 1) in
      ebind (le32_at npr 0) (\<lambda>pl_off. ebind (le32_at npr 4) (\<lambda>vh_off.
      let pay = bslice npr pl_off vh_off in
      ebind (le32_at pay 504) (\<lambda>txs_off. ebind (le32_at pay 508) (\<lambda>wd_off.
        read_var_list (bslice pay txs_off wd_off)))))))"

section \<open>The shape of a container\<close>

fun nones :: "bytes option list \<Rightarrow> nat" where
  "nones [] = 0"
| "nones (None # ps) = Suc (nones ps)"
| "nones (Some b # ps) = nones ps"

text \<open>The fixed part, given the lengths of the variable parts and the first offset.\<close>

fun heading :: "bytes option list \<Rightarrow> nat list \<Rightarrow> nat \<Rightarrow> bytes" where
  "heading [] ns off = []"
| "heading (None # ps) ns off = le_fix 4 off @ heading ps (drop 1 ns) (off + hd ns)"
| "heading (Some b # ps) ns off = b @ heading ps ns off"

lemma nones_append [simp]: "nones (ps @ qs) = nones ps + nones qs"
  by (induction ps rule: nones.induct) simp_all

lemma fixed_len_simps [simp]:
  "fixed_len [] = 0" "fixed_len (None # ps) = 4 + fixed_len ps" "fixed_len (Some b # ps) = length b + fixed_len ps"
  by (simp_all add: fixed_len_def)

lemma length_heading [simp]: "length (heading ps ns off) = fixed_len ps"
  by (induction ps ns off rule: heading.induct) simp_all

lemma heading_append:
  "nones ps \<le> length ns \<Longrightarrow>
   heading (ps @ qs) ns off = heading ps ns off @ heading qs (drop (nones ps) ns) (off + sum_list (take (nones ps) ns))"
proof (induction ps ns off rule: heading.induct)
  case (2 ps ns off)
  then obtain n ns' where "ns = n # ns'" by (cases ns) auto
  with 2 show ?case by (simp add: add.assoc)
qed simp_all

lemma container_loop_Inr:
  "container_loop ps vs (out, off, tail, i) = Inr (out', off', tail', i') \<Longrightarrow>
     i' = i + nones ps \<and> i' \<le> max i (length vs) \<and> tail' = tail @ concat (take (nones ps) (drop i vs)) \<and>
     out' = out @ heading ps (map length (drop i vs)) off \<and>
     (\<forall>qs rs. ps = qs @ None # rs \<longrightarrow> off + sum_list (map length (take (nones qs) (drop i vs))) < 2 ^ 32)"
proof (induction ps arbitrary: out off tail i)
  case Nil
  then show ?case by simp
next
  case (Cons p ps)
  show ?case
  proof (cases p)
    case None
    with Cons.prems obtain b where b: "off < 2 ^ 32" "b = le_fix 4 off" and i: "i < length vs"
      and rest: "container_loop ps vs (out @ b, off + length (vs ! i), tail @ vs ! i, i + 1) = Inr (out', off', tail', i')"
      by (auto simp: u32_def pack_u32_iff)
    from i have d: "drop i vs = vs ! i # drop (i + 1) vs" by (simp add: Cons_nth_drop_Suc)
    note IH = Cons.IH [OF rest]
    have "off + sum_list (map length (take (nones qs) (drop i vs))) < 2 ^ 32" if "p # ps = qs @ None # rs" for qs rs
    proof (cases qs)
      case Nil
      then show ?thesis using b by simp
    next
      case (Cons q qs')
      with that None have "q = None" "ps = qs' @ None # rs" by auto
      with IH d Cons show ?thesis by (simp add: add.assoc)
    qed
    with IH i d b None show ?thesis by auto
  next
    case (Some c)
    with Cons.prems have rest: "container_loop ps vs (out @ c, off, tail, i) = Inr (out', off', tail', i')" by simp
    note IH = Cons.IH [OF rest]
    have "off + sum_list (map length (take (nones qs) (drop i vs))) < 2 ^ 32" if "p # ps = qs @ None # rs" for qs rs
      using that Some IH by (cases qs) auto
    with IH Some show ?thesis by auto
  qed
qed

lemma container_Inr:
  assumes "container ps vs = Inr b"
  shows "b = heading ps (map length vs) (fixed_len ps) @ concat vs" "nones ps = length vs"
    "ps = qs @ None # rs \<Longrightarrow> fixed_len ps + sum_list (map length (take (nones qs) vs)) < 2 ^ 32"
proof -
  from assms obtain out off tail where
    l: "container_loop ps vs ([], fixed_len ps, [], 0) = Inr (out, off, tail, length vs)" and b: "b = out @ tail"
    by (auto simp: container_def split: if_splits)
  note L = container_loop_Inr [OF l]
  from L b show "b = heading ps (map length vs) (fixed_len ps) @ concat vs" "nones ps = length vs"
    by simp_all
  from L show "ps = qs @ None # rs \<Longrightarrow> fixed_len ps + sum_list (map length (take (nones qs) vs)) < 2 ^ 32" by simp
qed

lemma container_loop_ok:
  "i + nones ps \<le> length vs \<Longrightarrow> off + sum_list (map length (drop i vs)) < 2 ^ 32 \<Longrightarrow>
     \<exists>st. container_loop ps vs (out, off, tail, i) = Inr st"
proof (induction ps arbitrary: out off tail i)
  case (Cons p ps)
  show ?case
  proof (cases p)
    case None
    with Cons.prems have i: "i < length vs" by simp
    then have d: "drop i vs = vs ! i # drop (i + 1) vs" by (simp add: Cons_nth_drop_Suc)
    with Cons.prems None i Cons.IH [of "i + 1" "off + length (vs ! i)"] show ?thesis
      by (simp add: u32_def pack_u32_def add.assoc index_at_def)
  next
    case (Some c)
    with Cons show ?thesis by simp
  qed
qed simp

lemma container_ok:
  assumes "nones ps = length vs" "fixed_len ps + sum_list (map length vs) < 2 ^ 32"
  shows "container ps vs = Inr (heading ps (map length vs) (fixed_len ps) @ concat vs)"
proof -
  obtain out off tail i where l: "container_loop ps vs ([], fixed_len ps, [], 0) = Inr (out, off, tail, i)"
    using container_loop_ok [of 0 ps vs "fixed_len ps" "[]" "[]"] assms by (metis add_0 drop0 order_refl prod_cases4)
  with container_loop_Inr [OF l] assms(1) show ?thesis by (simp add: container_def)
qed

text \<open>The offset of the \<open>k\<close>-th variable part.\<close>

definition part_off :: "bytes option list \<Rightarrow> bytes list \<Rightarrow> nat \<Rightarrow> nat" where
  "part_off ps vs k = fixed_len ps + sum_list (map length (take k vs))"

lemma part_off_Suc: "k < length vs \<Longrightarrow> part_off ps vs (Suc k) = part_off ps vs k + length (vs ! k)"
  by (simp add: part_off_def take_Suc_conv_app_nth)

lemma length_container:
  "container ps vs = Inr b \<Longrightarrow> length b = fixed_len ps + sum_list (map length vs)"
  by (drule container_Inr(1)) (simp add: length_concat)

lemma container_offset:
  assumes "container (qs @ None # rs) vs = Inr b"
  shows "le32_at b (fixed_len qs) = Inr (part_off (qs @ None # rs) vs (nones qs))"
proof -
  note C = container_Inr [OF assms]
  have "nones qs < length vs" using C(2) by simp
  then have "take (nones qs) (map length vs) = map length (take (nones qs) vs)" by (simp add: take_map)
  then have "b = heading qs (map length vs) (fixed_len (qs @ None # rs)) @
      le_fix 4 (part_off (qs @ None # rs) vs (nones qs)) @
      heading rs (drop 1 (drop (nones qs) (map length vs)))
        (part_off (qs @ None # rs) vs (nones qs) + hd (drop (nones qs) (map length vs))) @ concat vs"
    using C(1,2) by (simp add: heading_append part_off_def)
  moreover have "part_off (qs @ None # rs) vs (nones qs) < 2 ^ 32" using C(3) by (simp add: part_off_def)
  ultimately show ?thesis using le32_at_middle [OF length_heading [symmetric]] by simp
qed

lemma container_fixed:
  assumes "container (qs @ Some p # rs) vs = Inr b"
  shows "bslice b (fixed_len qs) (fixed_len qs + length p) = p"
proof -
  note C = container_Inr [OF assms]
  have "b = heading qs (map length vs) (fixed_len (qs @ Some p # rs)) @ p @
      heading rs (drop (nones qs) (map length vs)) (fixed_len (qs @ Some p # rs) + sum_list (take (nones qs) (map length vs))) @
      concat vs"
    using C(1,2) by (simp add: heading_append)
  then show ?thesis by (simp add: bslice_middle)
qed

lemma container_part:
  assumes "container ps vs = Inr b" "k < length vs"
  shows "bslice b (part_off ps vs k) (part_off ps vs (Suc k)) = vs ! k"
proof -
  have "concat vs = concat (take k vs) @ vs ! k @ concat (drop (Suc k) vs)"
    using id_take_nth_drop [OF assms(2)] by (metis concat.simps(2) concat_append)
  then have "b = (heading ps (map length vs) (fixed_len ps) @ concat (take k vs)) @ vs ! k @ concat (drop (Suc k) vs)"
    using container_Inr(1) [OF assms(1)] by simp
  moreover have "length (heading ps (map length vs) (fixed_len ps) @ concat (take k vs)) = part_off ps vs k"
    by (simp add: part_off_def length_concat)
  ultimately show ?thesis using part_off_Suc [OF assms(2)] bslice_middle by metis
qed

lemma container_rest:
  assumes "container ps vs = Inr b"
  shows "drop (part_off ps vs k) b = concat (drop k vs)"
proof -
  have "concat vs = concat (take k vs) @ concat (drop k vs)" by (metis append_take_drop_id concat_append)
  then have "b = (heading ps (map length vs) (fixed_len ps) @ concat (take k vs)) @ concat (drop k vs)"
    using container_Inr(1) [OF assms] by simp
  moreover have "length (heading ps (map length vs) (fixed_len ps) @ concat (take k vs)) = part_off ps vs k"
    by (simp add: part_off_def length_concat)
  ultimately show ?thesis by (metis append_eq_conv_conj)
qed

section \<open>Lists of variable-size elements\<close>

lemma offsets_loop_container:
  "n = length (drop i es) \<Longrightarrow> container_loop (replicate n None) es (out, off, tail, i) =
     ebind (offsets_loop (drop i es) off out) (\<lambda>o'. Inr (o', off + sum_list (map length (drop i es)),
       tail @ concat (drop i es), max i (length es)))"
proof (induction n arbitrary: i out off tail)
  case 0
  then show ?case by (simp add: max_def)
next
  case (Suc n)
  then have i: "i < length es" by simp
  then have d: "drop i es = es ! i # drop (i + 1) es" by (simp add: Cons_nth_drop_Suc)
  have m: "max (Suc i) (length es) = max i (length es)" using i by simp
  from Suc.prems have "n = length (drop (i + 1) es)" by simp
  from Suc.IH [OF this] d i m show ?case
    by (simp add: index_at_def add.assoc ebind_assoc)
qed

lemma var_list_container:
  assumes "es \<noteq> []" shows "var_list es = container (replicate (length es) None) es"
proof -
  have "fixed_len (replicate n None) = 4 * n" for n by (induction n) simp_all
  then show ?thesis
    using assms offsets_loop_container [of "length es" 0 es "[]" "4 * length es" "[]"]
    by (simp add: container_def var_list_def ebind_assoc)
qed

lemma nones_replicate [simp]: "nones (replicate n None) = n" "fixed_len (replicate n None) = 4 * n"
  by (induction n) simp_all

lemma var_list_offset:
  assumes "var_list es = Inr b" "k < length es"
  shows "le32_at b (4 * k) = Inr (part_off (replicate (length es) None) es k)"
proof -
  have "es \<noteq> []" using assms(2) by auto
  have "replicate (length es) None = replicate k None @ None # replicate (length es - k - 1) (None :: bytes option)"
    using assms(2) by (metis Suc_diff_Suc add_diff_inverse_nat diff_diff_left less_imp_le_nat linorder_not_less plus_1_eq_Suc replicate_Suc replicate_add add.commute)
  moreover have "container (replicate (length es) None) es = Inr b"
    using var_list_container [OF \<open>es \<noteq> []\<close>] assms(1) by simp
  ultimately show ?thesis using container_offset [of "replicate k None" "replicate (length es - k - 1) None" es b] by simp
qed

lemma read_var_list:
  assumes "var_list es = Inr b"
  shows "read_var_list b = Inr es"
proof (cases "es = []")
  case True
  with assms show ?thesis by (simp add: var_list_def read_var_list_def)
next
  case False
  let ?ps = "replicate (length es) (None :: bytes option)"
  from False have c: "container ?ps es = Inr b" using var_list_container assms by simp
  have len: "length b = part_off ?ps es (length es)" using length_container [OF c] by (simp add: part_off_def)
  have "b \<noteq> []" using length_container [OF c] False by auto
  have first: "le32_at b 0 = Inr (4 * length es)"
    using var_list_offset [OF assms, of 0] False by (simp add: part_off_def)
  define offs where "offs = map (part_off ?ps es) [0..<length es]"
  have "emap (\<lambda>i. le32_at b (4 * i)) [0..<length es] = Inr offs"
    unfolding offs_def by (rule emap_Inr) (simp add: var_list_offset [OF assms])
  moreover have "slices b (offs @ [length b]) = es"
  proof (rule nth_equalityI)
    show "length (slices b (offs @ [length b])) = length es" by (simp add: slices_def offs_def)
    fix i assume "i < length (slices b (offs @ [length b]))"
    then have i: "i < length es" by (simp add: slices_def offs_def)
    have n: "length offs = length es" by (simp add: offs_def)
    have o0: "(offs @ [length b]) ! i = part_off ?ps es i" using i by (simp add: offs_def nth_append)
    have o1: "(offs @ [length b]) ! Suc i = part_off ?ps es (Suc i)"
      using i len by (cases "Suc i = length es") (simp_all add: offs_def nth_append)
    show "slices b (offs @ [length b]) ! i = es ! i"
      using container_part [OF c i] i by (simp add: slices_def n o0 o1)
  qed
  ultimately show ?thesis using \<open>b \<noteq> []\<close> first by (simp add: read_var_list_def)
qed

interpretation var_list: retract "\<lambda>_. True" var_list read_var_list
  by unfold_locales (rule read_var_list)

section \<open>Framing\<close>

lemma pad8: "(8 + n + pad8 n) mod 8 = 0 \<and> pad8 n < 8"
proof -
  have "int (8 + n + pad8 n) mod 8 = (8 + int n + - int n mod 8) mod 8" by (simp add: pad8_def)
  also have "\<dots> = 0" by presburger
  finally have "int ((8 + n + pad8 n) mod 8) = 0" by (simp add: zmod_int)
  then show ?thesis by (simp add: pad8_def nat_less_iff)
qed

lemma frame_pad: "nat ((- (8 + int n)) mod 8) = pad8 n"
proof -
  have "(- (8 + int n)) mod 8 = (- int n) mod 8" by presburger
  then show ?thesis by (simp add: pad8_def)
qed

lemma frame_Inr:
  assumes "frame b = Inr f"
  shows "unframe f = Inr b \<and> length f mod 8 = 0 \<and> length b < 2 ^ 64"
proof -
  from assms have n: "length b < 2 ^ 64" and f: "f = le_fix 8 (length b) @ b @ zeros (pad8 (length b))"
    by (auto simp: frame_def pack_u64_iff)
  have "le64_at f 0 = Inr (length b)" using le64_at_middle [of 0 "[]"] n by (simp add: f)
  moreover have "bslice f 8 (8 + length b) = b" unfolding f by (rule bslice_middle) simp_all
  moreover have "length f = 8 + length b + pad8 (length b)" by (simp add: f)
  ultimately show ?thesis using n pad8 [of "length b"] by (simp add: unframe_def)
qed

lemma pack_frame: "pack b = frame b"
  by (simp add: pack_def frame_def u64_def)

interpretation framing: retract "\<lambda>_. True" frame unframe
  by unfold_locales (simp add: frame_Inr)

section \<open>The stateless input\<close>

lemma payload_Inr:
  assumes "payload a = Inr p"
  obtains q t where "length q = 7" "list_all (\<lambda>x. length x = 8) q" "var_list (txs a) = Inr t"
    "container (payload_fixed q) [extra a, t, withdrawals a, bal a] = Inr p"
proof -
  from assms obtain q t where q: "seqs (map u64 [number a, gas_limit a, gas_used a, timestamp a, blob_gas_used a, excess_blob_gas a, slot a]) = Inr q"
    and "var_list (txs a) = Inr t" "container (payload_fixed q) [extra a, t, withdrawals a, bal a] = Inr p"
    by (auto simp: payload_def simp del: seqs_simps)
  moreover from q have "length q = 7" "list_all (\<lambda>x. length x = 8) q"
    by (auto simp: u64_def dest!: length_pack_u64)
  ultimately show ?thesis using that by blast
qed

lemma payload_layout:
  assumes "length q = 7" "list_all (\<lambda>x. length x = 8) q" "container (payload_fixed q) [e, t, w, l] = Inr p"
  shows "le32_at p 504 = Inr (540 + length e)" "le32_at p 508 = Inr (540 + length e + length t)"
    "bslice p (540 + length e) (540 + length e + length t) = t"
proof -
  obtain a b c d f g h where q: "q = [a, b, c, d, f, g, h]"
    using assms(1) by (auto simp: length_Suc_conv numeral_eq_Suc)
  have l: "length a = 8" "length b = 8" "length c = 8" "length d = 8" "length f = 8" "length g = 8" "length h = 8"
    using assms(2) by (simp_all add: q)
  let ?pre = "[Some (zeros 32), Some (zeros 20), Some (zeros 32), Some (zeros 32), Some (zeros 256), Some (zeros 32),
      Some a, Some b, Some c, Some d, None, Some (zeros 32), Some (zeros 32)]"
  let ?post = "[None, Some f, Some g, None, Some h]"
  have ps: "payload_fixed q = ?pre @ None # ?post" by (simp add: payload_fixed_def q)
  have ps': "payload_fixed q = (?pre @ [None]) @ None # tl ?post" by (simp add: payload_fixed_def q)
  have len: "fixed_len (payload_fixed q) = 540" by (simp add: payload_fixed_def q l)
  show "le32_at p 504 = Inr (540 + length e)"
    using container_offset [OF assms(3) [unfolded ps]] len by (simp add: part_off_def ps l)
  show "le32_at p 508 = Inr (540 + length e + length t)"
    using container_offset [OF assms(3) [unfolded ps']] len by (simp add: part_off_def ps' l numeral_2_eq_2)
  show "bslice p (540 + length e) (540 + length e + length t) = t"
    using container_part [OF assms(3), of 1] len by (simp add: part_off_def numeral_2_eq_2 add.assoc)
qed

lemma npr_layout:
  assumes "container [None, None, Some (zeros 32), None] [p, v, r] = Inr n"
  shows "le32_at n 0 = Inr 44" "le32_at n 4 = Inr (44 + length p)" "bslice n 44 (44 + length p) = p"
proof -
  let ?ps = "[None, None, Some (zeros 32), None]"
  show "le32_at n 0 = Inr 44"
    using container_offset [of "[]" "[None, Some (zeros 32), None]", simplified, OF assms] by (simp add: part_off_def)
  show "le32_at n 4 = Inr (44 + length p)"
    using container_offset [of "[None]" "[Some (zeros 32), None]", simplified, OF assms] by (simp add: part_off_def)
  show "bslice n 44 (44 + length p) = p"
    using container_part [OF assms, of 0] by (simp add: part_off_def)
qed

lemma input_layout:
  assumes "container [None, None, Some c] [n, w] = Inr body" "length c = 8"
  shows "le32_at body 0 = Inr 16" "le32_at body 4 = Inr (16 + length n)" "bslice body 16 (16 + length n) = n"
    "drop (16 + length n) body = w" "bslice body 8 16 = c" "16 \<le> length body"
proof -
  show "le32_at body 0 = Inr 16"
    using container_offset [of "[]" "[None, Some c]", simplified, OF assms(1)] assms(2) by (simp add: part_off_def)
  show "le32_at body 4 = Inr (16 + length n)"
    using container_offset [of "[None]" "[Some c]", simplified, OF assms(1)] assms(2) by (simp add: part_off_def)
  show "bslice body 16 (16 + length n) = n"
    using container_part [OF assms(1), of 0] assms(2) by (simp add: part_off_def)
  show "drop (16 + length n) body = w"
    using container_rest [OF assms(1), of 1] assms(2) by (simp add: part_off_def)
  show "bslice body 8 16 = c"
    using container_fixed [of "[None, None]" c "[]", simplified, OF assms(1)] assms(2) by (simp add: numeral_eq_Suc)
  show "16 \<le> length body" using length_container [OF assms(1)] assms(2) by simp
qed

lemma fixture_txs_input:
  assumes "payload a = Inr p" "stateless_input (Some p) wit chain = Inr blob"
  shows "fixture_txs blob = Inr (txs a)"
proof -
  from assms(2) obtain c n w body where c: "u64 chain = Inr c" and n: "new_payload_request p [] None = Inr n"
    and body: "container [None, None, Some c] [n, w] = Inr body" and blob: "blob = [21, 1] @ body"
    by (auto simp: stateless_input_def)
  have "length c = 8" using c by (simp add: u64_def length_pack_u64)
  note I = input_layout [OF body this]
  from n obtain r where r: "container [None, None, Some (zeros 32), None] [p, [], r] = Inr n"
    by (auto simp: new_payload_request_def)
  note N = npr_layout [OF r]
  from payload_Inr [OF assms(1)] obtain q t where q: "length q = 7" "list_all (\<lambda>x. length x = 8) q"
    and t: "var_list (txs a) = Inr t" and pl: "container (payload_fixed q) [extra a, t, withdrawals a, bal a] = Inr p" .
  note P = payload_layout [OF q pl]
  have "\<exists>x. le32_at body 8 = Inr x" "\<exists>x. le32_at body 12 = Inr x" using I(6) by (simp_all add: le32_at_def)
  then obtain x y where xy: "le32_at body 8 = Inr x" "le32_at body 12 = Inr y" by blast
  have four: "[0..<4] = [0, 1, 2, 3]" by (simp add: upt_rec)
  have o4: "emap (\<lambda>i. le32_at body (4 * i)) [0..<4] = Inr [16, 16 + length n, x, y]"
    using I(1,2) xy by (simp add: four)
  show ?thesis
    by (simp add: fixture_txs_def blob o4 I(3) N P read_var_list [OF t] Let_def)
qed

end
