(* ===== verification/RlpVectors.thy ===== *)
theory RlpVectors
  imports RlpRecord Ssz
begin

text \<open>
  The list of inputs of \<open>tools/gen_rlp_vectors.py\<close> (\<open>vectors\<close>) and its \<open>main\<close>: the two files.  What the
  random generator draws is an argument: the items of \<open>rand_item\<close> and the choices of the
  mutations.  The package \<open>ethereum_rlp\<close>, when it is installed, is a record of parameters.
\<close>

section \<open>The fixed inputs\<close>

definition seq_bytes :: "nat \<Rightarrow> nat \<Rightarrow> nat \<Rightarrow> bytes" where
  \<comment> \<open>\<open>bytes((i * a + b) & 255 for i in range(n))\<close>\<close>
  "seq_bytes a b n = map (\<lambda>i. word_of_nat ((i * a + b) AND 255)) [0..<n]"

definition range_bytes :: "nat \<Rightarrow> nat \<Rightarrow> bytes" where
  \<comment> \<open>\<open>bytes(range(i, j))\<close>\<close>
  "range_bytes i j = map word_of_nat [i..<j]"

definition text_bytes :: "string \<Rightarrow> bytes" where
  "text_bytes = map of_char"

definition basic_valid :: "bytes list" where
  "basic_valid = [[0x80], [0xc0], [0x00], [0x7f], [0x81, 0x80], [0x81, 0xff]]"

definition valid_strings :: "bytes list" where
  \<comment> \<open>of the arguments of \<open>enc_bytes\<close>\<close>
  "valid_strings =
     [text_bytes ''dog'', [0x00, 0x01], [0x01, 0x00], range_bytes 1 56, range_bytes 1 57,
      map (\<lambda>i. word_of_nat (255 - (i AND 255))) [0..<256], seq_bytes 7 0 300, seq_bytes 13 1 65536, seq_bytes 3 5 70000]
     @ map be [1, 127, 128, 255, 256, 65535, 2 ^ 32, 2 ^ 56 - 1, 2 ^ 63, 2 ^ 64 - 1]
     @ [be (2 ^ 64), zeros 8, [0x00, 0x01], [0x01, 0x02, 0x03, 0x04], [0x01, 0x02, 0x03, 0x04, 0x05]]"

definition invalid_strings :: "bytes list" where
  "invalid_strings =
     [[0x81, 0x05], [0x81, 0x7f], [0x81, 0x00], [0x81],
      [0xb8, 0x37] @ zeros 55, [0xb8, 0x00], [0xb9, 0x00, 0x38] @ zeros 56,
      [0xb9, 0x00, 0x00] @ zeros 56,
      [0x83, 0x01, 0x02], [0xb8, 0x38] @ zeros 10, [0xb8], [0xb9, 0x01],
      [], [0xbf] @ replicate 8 0xff, [0xbf] @ [0x80] @ zeros 7,
      [0xbf, 0x01] @ zeros 7 @ zeros 64,
      [0xbe, 0x01] @ zeros 6 @ zeros 64]"

fun deep_list :: "nat \<Rightarrow> rlp" where
  "deep_list 0 = RList []"
| "deep_list (Suc n) = RList [deep_list n]"

fun deep_pair :: "nat \<Rightarrow> rlp" where
  "deep_pair 0 = RBytes [0x01]"
| "deep_pair (Suc n) = RList [deep_pair n, RBytes [0x02]]"

definition valid_lists :: "rlp list" where
  "valid_lists =
     [RList [RBytes [0x01], RBytes [0x02], RBytes [0x03]], RList [RList []], RList [RList [RList []]],
      RList [RBytes (text_bytes ''abc''), RList [RBytes (text_bytes ''de''), RList []]], RList [RBytes [], RBytes [], RBytes []],
      RList [RBytes (range_bytes 1 30), RBytes (range_bytes 1 30)],
      RList [RBytes (replicate 200 (of_char CHR ''x'')), RBytes (replicate 100 (of_char CHR ''y''))],
      RList (replicate 1200 (RBytes (zeros 60))),
      RList (replicate 3 (RList (replicate 20 (RBytes [0x01])))),
      deep_list 100, deep_pair 60]"

definition invalid_lists :: "bytes \<Rightarrow> bytes list" where
  \<comment> \<open>of the encoding of a list with a string of sixty bytes\<close>
  "invalid_lists x60 =
     [[0xc2, 0x81, 0x05], [0xc2, 0x82, 0x01], [0xc3, 0x01, 0x02], [0xf8, 0x03, 0x01, 0x02, 0x03],
      [0xf9, 0x00, 0x38] @ zeros 56, [0xf8, 0x38] @ zeros 10, [0xf8],
      [0xc1, 0xc1], [0xc4, 0xc2, 0x01, 0x02, 0xc1],
      [0xf8, 0x38] @ zeros 55 @ [0x81, 0x05] @ [0x00],
      butlast x60, x60 @ [0x00],
      [0xff] @ replicate 8 0xff, [0xff] @ [0x00] @ replicate 7 0x01 @ zeros 100]"

section \<open>The drawn inputs\<close>

fun rand_item :: "nat \<Rightarrow> rlp \<Rightarrow> bool" where
  \<comment> \<open>can \<open>rand_item(depth)\<close> return this item?\<close>
  "rand_item d (RBytes b) = (length b \<in> {0, 1, 2, 5, 30, 56, 100})"
| "rand_item 0 (RList xs) = False"
| "rand_item (Suc d) (RList xs) = (length xs < 6 \<and> list_all (rand_item d) xs)"

record mutation =
  m_choice :: nat    \<comment> \<open>the index of \<open>rnd.choice(v[:60])\<close>\<close>
  m_pos :: nat
  m_byte :: byte
  m_len :: nat

definition mutation_ok :: "bytes list \<Rightarrow> mutation \<Rightarrow> bool" where
  \<comment> \<open>what the generator can draw; the last three are not drawn for the empty string\<close>
  "mutation_ok v m = (m_choice m < 60 \<and> (let e = v ! m_choice m in
     if e = [] then True else m_pos m < length e \<and> 1 \<le> m_len m \<and> m_len m \<le> length e))"

definition mutate :: "bytes list \<Rightarrow> mutation \<Rightarrow> bytes list" where
  \<comment> \<open>the body of the last loop: what is appended\<close>
  "mutate v m = (let e = v ! m_choice m in if e = [] then [] else [take (m_len m) (e[m_pos m := m_byte m])])"

record eth_rlp =
  er_decode :: "bytes \<Rightarrow> bool option"   \<comment> \<open>accepted, rejected, or \<open>None\<close> for a \<open>RecursionError\<close>\<close>
  er_encode :: "rlp \<Rightarrow> bytes"

definition rand_vector :: "eth_rlp option \<Rightarrow> rlp \<Rightarrow> bytes res" where
  "rand_vector er it = ebind (enc it) (\<lambda>e.
     ebind (case er of None \<Rightarrow> Inr () | Some x \<Rightarrow> require (er_encode x it = e) AssertionError) (\<lambda>_. Inr e))"

definition rlp_vectors :: "eth_rlp option \<Rightarrow> rlp list \<Rightarrow> mutation list \<Rightarrow> bytes list res" where
  "rlp_vectors er its ms =
     ebind (emap enc_bytes valid_strings) (\<lambda>a.
     ebind (enc_bytes (text_bytes ''dog'')) (\<lambda>dog. ebind (enc (RList [RBytes (text_bytes ''a'')])) (\<lambda>la.
     ebind (emap enc valid_lists) (\<lambda>b.
     ebind (enc (RList [RBytes (replicate 60 (of_char CHR ''x''))])) (\<lambda>x60.
     ebind (emap (rand_vector er) its) (\<lambda>r.
     let v = basic_valid @ a @ invalid_strings @ [[0x80, 0x00], [0xc0, 0x00], [0x01, 0x02], dog @ [0x00], la @ [0xc0]]
           @ b @ invalid_lists x60 @ r
     in Inr (v @ concat (map (mutate v) ms))))))))"

section \<open>The two files\<close>

definition cross_check :: "eth_rlp option \<Rightarrow> bytes \<Rightarrow> bytes \<Rightarrow> unit res" where
  "cross_check er bs r = (case er of None \<Rightarrow> Inr ()
     | Some x \<Rightarrow> (case er_decode x bs of None \<Rightarrow> Inr () | Some ok \<Rightarrow> require (ok = (r ! 0 = 0)) AssertionError))"

definition rlp_case :: "eth_rlp option \<Rightarrow> bytes \<Rightarrow> (bytes \<times> bytes) res" where
  \<comment> \<open>one iteration of \<open>main\<close>: what it appends to the two strings\<close>
  "rlp_case er bs = ebind (record_of bs) (\<lambda>r. ebind (cross_check er bs r) (\<lambda>_.
     ebind (pack_u32 (length bs)) (\<lambda>n. Inr (n @ bs, r))))"

definition rlp_main :: "eth_rlp option \<Rightarrow> rlp list \<Rightarrow> mutation list \<Rightarrow> (bytes \<times> bytes \<times> nat \<times> nat) res" where
  \<comment> \<open>the two files, and the numbers of valid and invalid inputs\<close>
  "rlp_main er its ms =
     ebind (rlp_vectors er its ms) (\<lambda>vs. ebind (emap (rlp_case er) vs) (\<lambda>cs.
     let blob = concat (map fst cs); ok = length (filter (\<lambda>(b, r). r ! 0 = 0) cs)
     in ebind (pack_u64 (length blob)) (\<lambda>n.
          Inr (n @ blob @ zeros (nat ((- (8 + int (length blob))) mod 8)), concat (map snd cs), ok, length cs - ok))))"

section \<open>Sizes\<close>

fun size_bound :: "rlp \<Rightarrow> nat" where
  \<comment> \<open>payload and nine bytes of header, at every level\<close>
  "size_bound (RBytes b) = length b + 9"
| "size_bound (RList xs) = sum_list (map size_bound xs) + 9"

lemma header_bounded: "n < 2 ^ 64 \<Longrightarrow> base \<in> {0x80, 0xC0} \<Longrightarrow> \<exists>h. header base n = Inr h \<and> length h \<le> 9"
proof -
  assume n: "n < 2 ^ 64" and b: "base \<in> {0x80, 0xC0}"
  show ?thesis
  proof (cases "n \<le> 55")
    case True
    then show ?thesis using header_short [of n base] b by auto
  next
    case False
    then show ?thesis using header_long [of n base] be_length_bounds [of n] n b by auto
  qed
qed

lemma enc_bytes_bounded: "length b < 2 ^ 64 \<Longrightarrow> \<exists>e. enc_bytes b = Inr e \<and> length e \<le> length b + 9"
  using header_bounded [of "length b" "0x80"] by (auto simp: enc_bytes_def)

lemma enc_bounded:
  "size_bound x < 2 ^ 64 \<Longrightarrow> \<exists>e. enc x = Inr e \<and> length e \<le> size_bound x"
  "sum_list (map size_bound xs) < 2 ^ 64 \<Longrightarrow> \<exists>p. enc_all xs = Inr p \<and> length p \<le> sum_list (map size_bound xs)"
proof (induction x and xs rule: enc_enc_all.induct)
  case (2 xs)
  then obtain p where p: "enc_all xs = Inr p" "length p \<le> sum_list (map size_bound xs)" by auto
  moreover from this 2 obtain h where "header 0xC0 (length p) = Inr h" "length h \<le> 9"
    using header_bounded [of "length p" "0xC0"] by auto
  ultimately show ?case by auto
next
  case (4 x xs)
  then obtain e where "enc x = Inr e" "length e \<le> size_bound x" by auto
  moreover from 4 obtain p where "enc_all xs = Inr p" "length p \<le> sum_list (map size_bound xs)" by auto
  ultimately show ?case by auto
qed (use enc_bytes_bounded in auto)

lemma size_deep: "size_bound (deep_list n) = 9 * n + 9" "size_bound (deep_pair n) = 19 * n + 10"
  by (induction n) simp_all

lemma size_valid_lists: "list_all (\<lambda>x. size_bound x < 2 ^ 31) valid_lists"
  by (simp add: valid_lists_def size_deep range_bytes_def text_bytes_def zeros_def sum_list_replicate map_replicate)

lemma size_valid_strings: "list_all (\<lambda>b. length b < 2 ^ 31) valid_strings"
proof -
  have "length (be n) \<le> 9" if "n \<le> 2 ^ 64" for n using that by (simp add: length_be_le_iff)
  then have "length (be n) < 2 ^ 31" if "n \<le> 2 ^ 64" for n using that by fastforce
  then show ?thesis by (simp add: valid_strings_def range_bytes_def seq_bytes_def text_bytes_def zeros_def)
qed

fun rand_size :: "nat \<Rightarrow> nat" where
  "rand_size 0 = 109"
| "rand_size (Suc d) = 5 * rand_size d + 9"

lemma rand_size_ge: "109 \<le> rand_size d"
  by (induction d) simp_all

lemma rand_item_bound: "rand_item d x \<Longrightarrow> size_bound x \<le> rand_size d"
proof (induction d x rule: rand_item.induct)
  case (1 d b)
  then have "length b \<le> 100" by auto
  then show ?case using rand_size_ge [of d] by simp
next
  case (3 d xs)
  then have "sum_list (map size_bound xs) \<le> length xs * rand_size d"
    using sum_list_mono [of xs size_bound "\<lambda>_. rand_size d"] by (simp add: list_all_iff sum_list_triv)
  also have "\<dots> \<le> 5 * rand_size d" using 3 by (intro mult_right_mono) simp_all
  finally show ?case by simp
qed simp

section \<open>The package in use\<close>

text \<open>
  What the generator relies on when \<open>ethereum_rlp\<close> is installed: it is the strict codec, up to giving up on deep
  nesting.
\<close>

locale rlp_package =
  fixes dec :: "bytes \<Rightarrow> bool option" and encode :: "rlp \<Rightarrow> bytes"
  assumes decode_strict: "dec b \<in> {None, Some (isl (rlp_decode_fully b) = False)}"
    and encode_same: "enc x = Inr e \<Longrightarrow> encode x = e"
begin

lemma no_disagreement: "dec b = Some ok \<Longrightarrow> ok \<longleftrightarrow> (\<exists>x. rlp_decode_fully b = Inr x)"
  using decode_strict [of b] by (cases "rlp_decode_fully b") auto

end

text \<open>The codec of the transaction oracle, with encodings as in the generator, is such a package.\<close>

definition oracle_package :: eth_rlp where
  "oracle_package = \<lparr>er_decode = \<lambda>b. Some (isl (rlp_decode_fully b) = False), er_encode = \<lambda>x. projr (enc x)\<rparr>"

interpretation own_codec: rlp_package "er_decode oracle_package" "er_encode oracle_package"
  by unfold_locales (simp_all add: oracle_package_def)

definition package_ok :: "eth_rlp option \<Rightarrow> bool" where
  "package_ok er = (case er of None \<Rightarrow> True | Some x \<Rightarrow> rlp_package (er_decode x) (er_encode x))"

section \<open>The generator returns\<close>

lemma record_flag:
  assumes "length bs < 2 ^ 32"
  obtains r where "record_of bs = Inr r" "length r = 32" "r ! 0 = 0 \<longleftrightarrow> isl (rlp_decode_fully bs) = False"
proof (cases "rlp_decode_fully bs")
  case (Inl e)
  with record_of_rejected [OF Inl] that show ?thesis by auto
next
  case (Inr x)
  then have x: "rlp_ok x" "enc x = Inr bs" by (simp_all add: rlp_decode_fully_iff)
  obtain r where "record_of bs = Inr r" "length r = 32" "reports bs r x" using record_of_accepted [OF x assms] by blast
  then show ?thesis using that Inr by (simp add: reports_def)
qed

lemma rlp_case_Inr:
  assumes "length bs < 2 ^ 32" "package_ok er"
  shows "\<exists>r. rlp_case er bs = Inr (le_fix 4 (length bs) @ bs, r) \<and> record_of bs = Inr r \<and> length r = 32 \<and>
    (r ! 0 = 0 \<longleftrightarrow> isl (rlp_decode_fully bs) = False)"
proof -
  obtain r where r: "record_of bs = Inr r" "length r = 32" "r ! 0 = 0 \<longleftrightarrow> isl (rlp_decode_fully bs) = False"
    by (rule record_flag [OF assms(1)])
  have "cross_check er bs r = Inr ()"
  proof (cases er)
    case (Some x)
    then have pkg: "rlp_package (er_decode x) (er_encode x)" using assms(2) by (simp add: package_ok_def)
    have "isl (rlp_decode_fully bs) = False \<longleftrightarrow> (\<exists>y. rlp_decode_fully bs = Inr y)" by (cases "rlp_decode_fully bs") simp_all
    then show ?thesis
      using rlp_package.no_disagreement [OF pkg, of bs] r(3) Some by (auto simp: cross_check_def split: option.split)
  qed (simp add: cross_check_def)
  moreover have "pack_u32 (length bs) = Inr (le_fix 4 (length bs))" using assms(1) by (simp add: pack_u32_def)
  ultimately show ?thesis using r by (simp add: rlp_case_def)
qed

lemma emap_enc_sizes:
  assumes "list_all (\<lambda>x. size_bound x < n) xs" "n \<le> 2 ^ 64"
  shows "\<exists>es. emap enc xs = Inr es \<and> list_all (\<lambda>e. length e < n) es \<and> length es = length xs"
proof -
  have "\<exists>e. enc x = Inr e \<and> length e < n" if "x \<in> set xs" for x
    using assms that enc_bounded(1) [of x] by (fastforce simp: list_all_iff)
  then show ?thesis
  proof (induction xs)
    case (Cons x xs)
    then obtain es where "emap enc xs = Inr es \<and> list_all (\<lambda>e. length e < n) es \<and> length es = length xs" by auto
    moreover from Cons obtain e where "enc x = Inr e" "length e < n" by auto
    ultimately show ?case by simp
  qed simp
qed

lemma emap_enc_bytes:
  assumes "list_all (\<lambda>b. length b < 2 ^ 31) xs"
  shows "\<exists>es. emap enc_bytes xs = Inr es \<and> list_all (\<lambda>e. length e < 2 ^ 32) es \<and> length es = length xs"
proof -
  have "list_all (\<lambda>x. size_bound x < 2 ^ 32) (map RBytes xs)" using assms by (auto simp: list_all_iff)
  from emap_enc_sizes [OF this] obtain es where es: "emap enc (map RBytes xs) = Inr es" "list_all (\<lambda>e. length e < 2 ^ 32) es" "length es = length xs"
    by auto
  have "emap enc (map RBytes xs) = emap enc_bytes xs" by (induction xs) simp_all
  then have "emap enc_bytes xs = Inr es" using es(1) by (rule trans [OF sym])
  then show ?thesis using es(2,3) by blast
qed

lemma rand_size_4: "rand_size 4 < 2 ^ 32"
proof -
  have e: "(4 :: nat) = Suc (Suc (Suc (Suc 0)))" by simp
  show ?thesis unfolding e by simp
qed

lemma rand_vectors:
  assumes "list_all (rand_item 4) its" "package_ok er"
  shows "emap (rand_vector er) its = emap enc its"
    "\<exists>es. emap enc its = Inr es \<and> list_all (\<lambda>e. length e < 2 ^ 32) es \<and> length es = length its"
proof -
  have "rand_vector er it = enc it" for it
  proof (cases "enc it")
    case (Inr e)
    have "er_encode x it = e" if "er = Some x" for x
      using assms(2) that rlp_package.encode_same Inr by (fastforce simp: package_ok_def)
    then show ?thesis by (cases er) (simp_all add: rand_vector_def Inr)
  qed (simp add: rand_vector_def)
  then have "rand_vector er = enc" by (rule ext)
  then show "emap (rand_vector er) its = emap enc its" by simp
  have "list_all (\<lambda>x. size_bound x < 2 ^ 32) its"
    using assms(1) rand_item_bound [of 4] rand_size_4 by (auto simp: list_all_iff intro: le_less_trans)
  then show "\<exists>es. emap enc its = Inr es \<and> list_all (\<lambda>e. length e < 2 ^ 32) es \<and> length es = length its"
    by (rule emap_enc_sizes) simp
qed

lemma small_raw:
  "list_all (\<lambda>e. length e < 2 ^ 32) basic_valid" "list_all (\<lambda>e. length e < 2 ^ 32) invalid_strings"
  "length x < 2 ^ 31 \<Longrightarrow> list_all (\<lambda>e. length e < 2 ^ 32) (invalid_lists x)"
  by (simp_all add: basic_valid_def invalid_strings_def invalid_lists_def zeros_def)

lemma length_mutate: "list_all (\<lambda>e. length e < n) v \<Longrightarrow> m_choice m < length v \<Longrightarrow> list_all (\<lambda>e. length e < n) (mutate v m)"
  by (auto simp: mutate_def Let_def list_all_length)

text \<open>The inputs before the mutations.\<close>

definition base_vectors :: "rlp list \<Rightarrow> bytes list res" where
  "base_vectors its = rlp_vectors None its []"

lemma rlp_vectors_base:
  assumes "list_all (rand_item 4) its" "package_ok er"
  shows "\<exists>v. base_vectors its = Inr v \<and> rlp_vectors er its ms = Inr (v @ concat (map (mutate v) ms)) \<and>
    list_all (\<lambda>e. length e < 2 ^ 32) v \<and> length v = 77 + length its"
proof -
  obtain a where a: "emap enc_bytes valid_strings = Inr a" "list_all (\<lambda>e. length e < 2 ^ 32) a" "length a = length valid_strings"
    using emap_enc_bytes [OF size_valid_strings] by blast
  obtain b where b: "emap enc valid_lists = Inr b" "list_all (\<lambda>e. length e < 2 ^ 31) b" "length b = length valid_lists"
    using emap_enc_sizes [OF size_valid_lists] by auto
  obtain r where r: "emap enc its = Inr r" "list_all (\<lambda>e. length e < 2 ^ 32) r" "length r = length its" using rand_vectors(2) [OF assms] by blast
  have n: "emap (rand_vector None) its = Inr r" "emap (rand_vector er) its = Inr r"
    using rand_vectors(1) [OF assms(1), of None] rand_vectors(1) [OF assms] r(1) by (simp_all add: package_ok_def)
  obtain dog where dog: "enc_bytes (text_bytes ''dog'') = Inr dog" "length dog \<le> 12"
    using enc_bytes_bounded [of "text_bytes ''dog''"] by (auto simp: text_bytes_def)
  obtain la where la: "enc (RList [RBytes (text_bytes ''a'')]) = Inr la" "length la \<le> 19"
    using enc_bounded(1) [of "RList [RBytes (text_bytes ''a'')]"] by (auto simp: text_bytes_def simp del: enc.simps)
  obtain x60 where x60: "enc (RList [RBytes (replicate 60 (of_char CHR ''x''))]) = Inr x60" "length x60 \<le> 78"
    using enc_bounded(1) [of "RList [RBytes (replicate 60 (of_char CHR ''x''))]"] by (auto simp del: enc.simps)
  let ?v = "basic_valid @ a @ invalid_strings @ [[0x80, 0x00], [0xc0, 0x00], [0x01, 0x02], dog @ [0x00], la @ [0xc0]]
     @ b @ invalid_lists x60 @ r"
  have v: "rlp_vectors e its m = Inr (?v @ concat (map (mutate ?v) m))" if "emap (rand_vector e) its = Inr r" for e m
    unfolding rlp_vectors_def a(1) dog(1) la(1) b(1) x60(1) that ebind_simps Let_def by simp
  have "list_all (\<lambda>e. length e < 2 ^ 32) b" using b(2) by (auto simp: list_all_iff)
  then have "list_all (\<lambda>e. length e < 2 ^ 32) ?v"
    using a(2) r(2) small_raw(1,2) small_raw(3) [of x60] dog(2) la(2) x60(2) by simp
  moreover have "length valid_strings = 24" "length valid_lists = 11" "length basic_valid = 6" "length invalid_strings = 17"
    "length (invalid_lists x60) = 14"
    by (simp_all add: valid_strings_def valid_lists_def basic_valid_def invalid_strings_def invalid_lists_def)
  then have "length ?v = 77 + length its" using a(3) b(3) r(3) by simp
  moreover have "base_vectors its = Inr ?v" using v [OF n(1), of "[]"] by (simp add: base_vectors_def)
  ultimately show ?thesis using v [OF n(2)] by blast
qed

lemma mutated_small:
  assumes "list_all (\<lambda>e. length e < n) v" "77 \<le> length v" "list_all (mutation_ok v) ms"
  shows "list_all (\<lambda>e. length e < n) (concat (map (mutate v) ms))" "length (concat (map (mutate v) ms)) \<le> length ms"
proof -
  have "m_choice m < length v" if "m \<in> set ms" for m
    using assms(2,3) that by (auto simp: list_all_iff mutation_ok_def)
  then have "list_all (\<lambda>e. length e < n) (mutate v m)" if "m \<in> set ms" for m
    using length_mutate [OF assms(1)] that by blast
  then show "list_all (\<lambda>e. length e < n) (concat (map (mutate v) ms))" by (auto simp: list_all_iff)
  have "length (mutate v m) \<le> 1" for m by (simp add: mutate_def Let_def)
  then show "length (concat (map (mutate v) ms)) \<le> length ms"
    using sum_list_mono [of ms "\<lambda>m. length (mutate v m)" "\<lambda>_. 1"] by (simp add: length_concat comp_def sum_list_triv)
qed

definition entry_bytes :: "bytes \<Rightarrow> bytes" where
  \<comment> \<open>an input with its length, as the guest reads it\<close>
  "entry_bytes b = le_fix 4 (length b) @ b"

lemma rlp_cases_Inr:
  assumes "list_all (\<lambda>e. length e < 2 ^ 32) vs" "package_ok er"
  shows "\<exists>cs. emap (rlp_case er) vs = Inr cs \<and> map fst cs = map entry_bytes vs \<and> length cs = length vs \<and>
    list_all2 (\<lambda>b (_, r). record_of b = Inr r \<and> length r = 32 \<and> (r ! 0 = 0 \<longleftrightarrow> isl (rlp_decode_fully b) = False)) vs cs"
  using assms(1)
proof (induction vs)
  case (Cons b vs)
  then obtain cs where cs: "emap (rlp_case er) vs = Inr cs" "map fst cs = map entry_bytes vs" "length cs = length vs"
    "list_all2 (\<lambda>b (_, r). record_of b = Inr r \<and> length r = 32 \<and> (r ! 0 = 0 \<longleftrightarrow> isl (rlp_decode_fully b) = False)) vs cs" by auto
  obtain r where "rlp_case er b = Inr (entry_bytes b, r)" "record_of b = Inr r" "length r = 32" "r ! 0 = 0 \<longleftrightarrow> isl (rlp_decode_fully b) = False"
    using rlp_case_Inr [of b er] Cons.prems assms(2) by (auto simp: entry_bytes_def)
  then show ?case using cs by simp
qed simp

lemma count_valid:
  "list_all2 (\<lambda>b (_, r). record_of b = Inr r \<and> length r = 32 \<and> (r ! 0 = 0 \<longleftrightarrow> isl (rlp_decode_fully b) = False)) vs cs \<Longrightarrow>
     length (filter (\<lambda>(b, r). r ! 0 = 0) cs) = length (filter (\<lambda>b. isl (rlp_decode_fully b) = False) vs)"
  by (induction rule: list_all2_induct) auto

lemma records_concat:
  assumes "list_all2 (\<lambda>b (_, r). record_of b = Inr r \<and> length r = 32 \<and> Q b r) vs cs"
  shows "length (concat (map snd cs)) = 32 * length vs"
    "list_all (\<lambda>i. record_of (vs ! i) = Inr (bslice (concat (map snd cs)) (32 * i) (32 * i + 32))) [0..<length vs]"
proof -
  have len: "\<forall>r \<in> set (map snd cs). length r = 32"
    using assms by (fastforce simp: list_all2_conv_all_nth in_set_conv_nth)
  then show "length (concat (map snd cs)) = 32 * length vs"
    using length_concat_const [OF len] list_all2_lengthD [OF assms] by simp
  have "bslice (concat (map snd cs)) (32 * i) (32 * i + 32) = snd (cs ! i)" if "i < length cs" for i
    using bslice_concat [OF len, of i] that by simp
  then show "list_all (\<lambda>i. record_of (vs ! i) = Inr (bslice (concat (map snd cs)) (32 * i) (32 * i + 32))) [0..<length vs]"
    using assms by (auto simp: list_all_iff list_all2_conv_all_nth case_prod_unfold)
qed

text \<open>C8: The RLP generator returns for everything that it can draw, and its files agree.  For items that \<open>rand_item\<close> can
  draw and mutations that the last loop can draw (at most \<open>2^16\<close> of each), without \<open>ethereum_rlp\<close> or with a strict codec in its
  place, \<open>main\<close> raises no exception and no assertion fails; the input file is the framed concatenation of the inputs,
  each behind its length, the expected file has at \<open>32 i\<close> the record of input \<open>i\<close> and ends after the last, and the
  counts it prints are the numbers of inputs that are and are not one encoding.\<close>

theorem rlp_files:
  assumes "list_all (rand_item 4) its" "package_ok er" "base_vectors its = Inr v" "list_all (mutation_ok v) ms"
    and "length its \<le> 2 ^ 16" "length ms \<le> 2 ^ 16"
  shows "\<exists>vs inp out. rlp_vectors er its ms = Inr vs \<and>
    rlp_main er its ms = Inr (inp, out, length (filter (\<lambda>b. isl (rlp_decode_fully b) = False) vs),
      length (filter (\<lambda>b. isl (rlp_decode_fully b)) vs)) \<and>
    unframe inp = Inr (concat (map entry_bytes vs)) \<and> length out = 32 * length vs \<and>
    list_all (\<lambda>i. record_of (vs ! i) = Inr (bslice out (32 * i) (32 * i + 32))) [0..<length vs]"
proof -
  let ?small = "\<lambda>e. length e < 2 ^ 32"
  obtain v' where v': "base_vectors its = Inr v'" "rlp_vectors er its ms = Inr (v' @ concat (map (mutate v') ms))"
    "list_all ?small v'" "length v' = 77 + length its"
    using rlp_vectors_base [OF assms(1,2)] by blast
  then have v: "v' = v" using assms(3) by simp
  define vs where "vs = v @ concat (map (mutate v) ms)"
  have vec: "rlp_vectors er its ms = Inr vs" using v'(2) by (simp add: v vs_def)
  have len: "length vs \<le> 2 ^ 18" and small: "list_all ?small vs"
    using mutated_small [of "2 ^ 32" v ms] v'(3,4) assms(4,5,6) by (simp_all add: v vs_def)
  obtain cs where cs: "emap (rlp_case er) vs = Inr cs" "map fst cs = map entry_bytes vs" "length cs = length vs"
    and rel: "list_all2 (\<lambda>b (_, r). record_of b = Inr r \<and> length r = 32 \<and> (r ! 0 = 0 \<longleftrightarrow> isl (rlp_decode_fully b) = False)) vs cs"
    using rlp_cases_Inr [OF small assms(2)] by blast
  let ?blob = "concat (map entry_bytes vs)"
  have "length ?blob \<le> length vs * (2 ^ 32 + 4)"
  proof -
    have "sum_list (map (length \<circ> entry_bytes) vs) \<le> sum_list (map (\<lambda>_. 2 ^ 32 + 4) vs)"
      by (rule sum_list_mono) (use small in \<open>auto simp: entry_bytes_def list_all_iff\<close>)
    then show ?thesis by (simp add: length_concat comp_def sum_list_triv)
  qed
  also have "\<dots> \<le> 2 ^ 18 * (2 ^ 32 + 4)" using len by (rule mult_right_mono) simp
  finally have bl: "length ?blob < 2 ^ 64" by simp
  define inp where "inp = le_fix 8 (length ?blob) @ ?blob @ zeros (pad8 (length ?blob))"
  have "frame ?blob = Inr inp" using bl by (simp add: frame_def pack_u64_def inp_def)
  then have un: "unframe inp = Inr ?blob" using frame_Inr by blast
  have flt: "length vs - length (filter (\<lambda>b. isl (rlp_decode_fully b) = False) vs) = length (filter (\<lambda>b. isl (rlp_decode_fully b)) vs)"
    using sum_length_filter_compl [of "\<lambda>b. isl (rlp_decode_fully b) = False" vs] by simp
  have "rlp_main er its ms = Inr (inp, concat (map snd cs), length (filter (\<lambda>b. isl (rlp_decode_fully b) = False) vs),
      length (filter (\<lambda>b. isl (rlp_decode_fully b)) vs))"
    using bl frame_pad [of "length ?blob"] flt by (simp add: rlp_main_def vec cs Let_def pack_u64_def inp_def count_valid [OF rel])
  moreover note records_concat [OF rel]
  ultimately show ?thesis using vec un by blast
qed

theorem rlp_files_witness:
  "\<exists>v vs inp out. base_vectors [RBytes [7], RList []] = Inr v \<and>
    rlp_vectors (Some oracle_package) [RBytes [7], RList []] [\<lparr>m_choice = 4, m_pos = 1, m_byte = 5, m_len = 2\<rparr>] = Inr vs \<and>
    rlp_main (Some oracle_package) [RBytes [7], RList []] [\<lparr>m_choice = 4, m_pos = 1, m_byte = 5, m_len = 2\<rparr>] =
      Inr (inp, out, length (filter (\<lambda>b. isl (rlp_decode_fully b) = False) vs), length (filter (\<lambda>b. isl (rlp_decode_fully b)) vs)) \<and>
    length out = 32 * length vs"
proof -
  have r: "list_all (rand_item 4) [RBytes [7], RList []]" by code_simp
  have p: "package_ok (Some oracle_package)" by (simp add: package_ok_def own_codec.rlp_package_axioms)
  obtain v where v: "base_vectors [RBytes [7], RList []] = Inr v" using rlp_vectors_base [OF r p] by blast
  have "v ! 4 = [0x81, 0x80]"
    using v by (auto simp: base_vectors_def rlp_vectors_def ebind_Inr_iff Let_def basic_valid_def)
  then have "list_all (mutation_ok v) [\<lparr>m_choice = 4, m_pos = 1, m_byte = 5, m_len = 2\<rparr>]"
    by (simp add: mutation_ok_def)
  from rlp_files [OF r p v this] show ?thesis using v by (auto simp del: enc.simps)
qed

end
