(* ===== verification/U256.thy ===== *)
theory U256
  imports RlpEnc "HOL-Library.Signed_Division"
begin

text \<open>
  The 256-bit arithmetic oracle of \<open>tools/gen_u256_vectors.py\<close>.  The code computes on unbounded
  Python integers and masks the results, so the model uses \<open>int\<close>; the specification is the
  arithmetic of \<open>256 word\<close>, with the signed operations of the EVM on \<open>sint\<close>.
\<close>

section \<open>The code\<close>

definition M256 :: int where "M256 = push_bit 256 1 - 1"
definition SIGN :: int where "SIGN = push_bit 255 1"

definition to_signed :: "int \<Rightarrow> int" where
  "to_signed x = (if x AND SIGN \<noteq> 0 then x - push_bit 256 1 else x)"

definition sdiv_py :: "int \<Rightarrow> int \<Rightarrow> int" where
  "sdiv_py a b =
     (if b = 0 then 0
      else let sa = to_signed a; sb = to_signed b; q = \<bar>sa\<bar> div \<bar>sb\<bar>;
               q = (if (sa < 0) \<noteq> (sb < 0) then - q else q) in q AND M256)"

definition smod_py :: "int \<Rightarrow> int \<Rightarrow> int" where
  "smod_py a b =
     (if b = 0 then 0
      else let sa = to_signed a; sb = to_signed b; r = \<bar>sa\<bar> mod \<bar>sb\<bar>;
               r = (if sa < 0 then - r else r) in r AND M256)"

definition sar :: "int \<Rightarrow> nat \<Rightarrow> int" where
  "sar a n =
     (if n \<ge> 256 then (if a AND SIGN \<noteq> 0 then M256 else 0)
      else drop_bit n (to_signed a) AND M256)"

definition signextend :: "nat \<Rightarrow> int \<Rightarrow> int" where
  "signextend b x =
     (if b \<ge> 31 then x
      else let t = 8 * b + 7 in
        if drop_bit t x AND 1 \<noteq> 0 then x OR (M256 XOR (push_bit (t + 1) 1 - 1))
        else x AND (push_bit (t + 1) 1 - 1))"

definition byte_py :: "nat \<Rightarrow> int \<Rightarrow> int" where
  "byte_py i x = (if i \<ge> 32 then 0 else drop_bit (8 * (31 - i)) x AND 255)"

definition byte_length :: "int \<Rightarrow> nat" where
  "byte_length a = (bit_length (nat a) + 7) div 8"

definition flags :: "int \<Rightarrow> int \<Rightarrow> int" where
  "flags a b =
     (let sa = to_signed a; sb = to_signed b;
          cmp = (if a < b then 0 else if a = b then 1 else 2) in
      of_bool (a < b) OR push_bit 1 (of_bool (a > b)) OR push_bit 2 (of_bool (sa < sb))
      OR push_bit 3 (of_bool (sa > sb)) OR push_bit 4 (of_bool (a = b))
      OR push_bit 5 cmp OR push_bit 7 (of_bool (a = 0)) OR push_bit 8 (of_bool (a < push_bit 64 1))
      OR push_bit 9 (of_bool (a + b > M256)) OR push_bit 10 1 OR push_bit 11 (of_bool (a < push_bit 64 1))
      OR push_bit 12 1 OR push_bit 13 1)"

definition results :: "int \<Rightarrow> int \<Rightarrow> int \<Rightarrow> bytes \<Rightarrow> int list" where
  "results a b m a_bytes =
     (let sh = nat (b AND 511); fn = min (nat (m AND 63)) 32 in
      [(a + b) AND M256,
       (a - b) AND M256,
       (a * b) AND M256,
       if b \<noteq> 0 then a div b else 0,
       if b \<noteq> 0 then a mod b else 0,
       sdiv_py a b,
       smod_py a b,
       if m \<noteq> 0 then (a + b) mod m else 0,
       if m \<noteq> 0 then (a * b) mod m else 0,
       a ^ sh mod push_bit 256 1,
       if sh < 256 then push_bit sh a AND M256 else 0,
       if sh < 256 then drop_bit sh a else 0,
       sar a sh,
       signextend (nat (b AND 63)) a,
       byte_py (nat (b AND 63)) a,
       flags a b,
       int (bit_length (nat a)) OR push_bit 16 (int (byte_length a)) OR push_bit 32 (int (byte_length a)),
       a AND b,
       a OR (b XOR M256),
       (- a AND M256) XOR b,
       drop_bit 256 (a * b),
       if fn \<noteq> 0 then int (from_be (take fn a_bytes)) else 0])"

section \<open>The specification\<close>

type_synonym u256 = "256 word"

definition evm_sdiv :: "u256 \<Rightarrow> u256 \<Rightarrow> u256" where
  "evm_sdiv a b = word_of_int (sint a sdiv sint b)"

definition evm_smod :: "u256 \<Rightarrow> u256 \<Rightarrow> u256" where
  "evm_smod a b = (if b = 0 then 0 else word_of_int (sint a smod sint b))"

definition evm_signextend :: "nat \<Rightarrow> u256 \<Rightarrow> u256" where
  "evm_signextend b x = (if b \<ge> 31 then x else signed_take_bit (8 * b + 7) x)"

lemma M256_mask: "M256 = mask 256"
  by (simp add: M256_def mask_eq_exp_minus_1 push_bit_eq_mult)

lemma and_M256: "x AND M256 = uint (word_of_int x :: u256)"
  by (simp add: M256_mask uint_word_of_int take_bit_eq_mod flip: take_bit_eq_mask)

lemma and_SIGN: "x AND SIGN \<noteq> 0 \<longleftrightarrow> bit x 255"
  using and_exp_eq_0_iff_not_bit [of x 255] by (simp add: SIGN_def push_bit_eq_mult)

lemma bit_255: "bit (uint (a::u256)) 255 \<longleftrightarrow> bit a 255"
  by (simp add: bit_uint_iff)

lemma to_signed_sint: "to_signed (uint (a::u256)) = sint a"
proof -
  have "sint a = take_bit (Suc 255) (uint a) - 2 ^ Suc 255 * of_bool (bit (uint a) 255)"
    by (simp only: sint_uint signed_take_bit_eq_take_bit_minus) simp
  moreover have "take_bit 256 (uint a) = uint a"
    using unsigned_less [of a, where 'a = int] by (intro take_bit_int_eq_self) simp_all
  ultimately show ?thesis
    by (simp add: to_signed_def and_SIGN push_bit_eq_mult)
qed

lemma uint_zero_iff: "uint (a::u256) = 0 \<longleftrightarrow> a = 0"
  by (simp add: uint_0_iff)

lemma sdiv_refines: "sdiv_py (uint a) (uint b) = uint (evm_sdiv a b)"
proof (cases "b = 0")
  case False
  have "(let q = \<bar>sint a\<bar> div \<bar>sint b\<bar> in if (sint a < 0) \<noteq> (sint b < 0) then - q else q) = sint a sdiv sint b"
    using False by (auto simp: signed_divide_int_def Let_def sgn_if)
  with False show ?thesis
    by (simp add: sdiv_py_def evm_sdiv_def to_signed_sint uint_zero_iff and_M256 Let_def)
qed (simp add: sdiv_py_def evm_sdiv_def signed_divide_int_def)

lemma smod_refines: "smod_py (uint a) (uint b) = uint (evm_smod a b)"
proof (cases "b = 0")
  case False
  have "(let r = \<bar>sint a\<bar> mod \<bar>sint b\<bar> in if sint a < 0 then - r else r) = sint a smod sint b"
    using False by (auto simp: signed_modulo_int_def Let_def sgn_if)
  with False show ?thesis
    by (simp add: smod_py_def evm_smod_def to_signed_sint uint_zero_iff and_M256 Let_def)
qed (simp add: smod_py_def evm_smod_def)

lemma sar_refines: "sar (uint a) n = uint (signed_drop_bit n (a::u256))"
proof (cases "n \<ge> 256")
  case True
  then have "signed_drop_bit n a = (if bit a 255 then -1 else 0)" using signed_drop_bit_beyond [of n a] by simp
  with True show ?thesis by (simp add: sar_def and_SIGN bit_255 M256_mask unsigned_minus_1_eq_mask)
next
  case False
  then show ?thesis
    by (simp add: sar_def to_signed_sint and_M256 flip: sint_signed_drop_bit_eq)
qed

lemma exp_minus_mask: "push_bit n 1 - 1 = (mask n :: int)"
  by (simp add: mask_eq_exp_minus_1 push_bit_eq_mult)

lemma drop_bit_and_1: "drop_bit t x AND 1 \<noteq> 0 \<longleftrightarrow> bit (x::int) t"
  by (simp add: and_one_eq bit_iff_odd_drop_bit odd_iff_mod_2_eq_one)

lemma signextend_refines: "signextend b (uint x) = uint (evm_signextend b x)"
proof (cases "b \<ge> 31")
  case False
  define t where "t = 8 * b + 7"
  have t: "t < 255" using False by (simp add: t_def)
  have "signextend b (uint x) = (if bit (uint x) t then uint x OR (mask 256 XOR mask (t + 1)) else uint x AND mask (t + 1))"
    using False unfolding signextend_def Let_def exp_minus_mask drop_bit_and_1 M256_mask t_def by simp
  also have "\<dots> = uint (signed_take_bit t x)"
  proof (rule bit_eqI)
    fix n
    show "bit (if bit (uint x) t then uint x OR (mask 256 XOR mask (t + 1)) else uint x AND mask (t + 1)) n
        = bit (uint (signed_take_bit t x)) n"
      using t by (cases n t rule: linorder_cases) (auto simp: bit_simps min_def dest: bit_imp_le_length)
  qed
  finally show ?thesis using False by (simp add: evm_signextend_def t_def)
qed (simp add: signextend_def evm_signextend_def)

lemma be_fix_nth: "i < k \<Longrightarrow> be_fix k n ! i = word_of_nat (n div 256 ^ (k - 1 - i))"
proof (induction k arbitrary: n)
  case (Suc k)
  show ?case
  proof (cases "i < k")
    case True
    then have "Suc k - 1 - i = Suc (k - 1 - i)" by simp
    with Suc.IH [OF True, of "n div 256"] True show ?thesis
      by (simp add: nth_append div_mult2_eq)
  next
    case False
    with Suc.prems show ?thesis by (simp add: nth_append)
  qed
qed simp

lemma byte_refines: "byte_py i (uint x) = (if i < 32 then int (unat (be_fix 32 (unat x) ! i)) else 0)"
proof (cases "i < 32")
  case True
  have "drop_bit (8 * (31 - i)) (uint x) AND 255 = uint x div 2 ^ (8 * (31 - i)) mod 256"
    using take_bit_eq_mask [of 8 "drop_bit (8 * (31 - i)) (uint x)"]
    by (simp add: take_bit_eq_mod drop_bit_eq_div mask_eq_exp_minus_1)
  also have "\<dots> = int (unat x div 256 ^ (31 - i) mod 256)"
    by (simp add: zdiv_int zmod_int power_mult)
  finally show ?thesis using True by (simp add: byte_py_def be_fix_nth)
qed (simp add: byte_py_def)

section \<open>All results\<close>

definition cmp3 :: "u256 \<Rightarrow> u256 \<Rightarrow> nat" where
  "cmp3 a b = (if a < b then 0 else if a = b then 1 else 2)"

text \<open>The results the guest's 256-bit routines must give, on words.\<close>

definition evm_results :: "u256 \<Rightarrow> u256 \<Rightarrow> u256 \<Rightarrow> u256 list" where
  "evm_results a b m =
     (let sh = unat b mod 512 in
      [a + b, a - b, a * b, a div b, if b = 0 then 0 else a mod b, evm_sdiv a b, evm_smod a b,
       if m = 0 then 0 else word_of_int ((uint a + uint b) mod uint m),
       if m = 0 then 0 else word_of_int (uint a * uint b mod uint m),
       a ^ sh, push_bit sh a, drop_bit sh a, signed_drop_bit sh a,
       evm_signextend (unat b mod 64) a,
       if unat b mod 64 < 32 then word_of_nat (unat (be_fix 32 (unat a) ! (unat b mod 64))) else 0,
       word_of_int (flags (uint a) (uint b)),
       word_of_nat (bit_length (unat a) + 2 ^ 16 * length (be (unat a)) + 2 ^ 32 * length (be (unat a))),
       a AND b, a OR NOT b, - a XOR b,
       word_of_int (uint a * uint b div 2 ^ 256),
       word_of_nat (unat a div 256 ^ (32 - min (unat m mod 64) 32))])"

lemma uint_of_small: "0 \<le> k \<Longrightarrow> k < 2 ^ 256 \<Longrightarrow> uint (word_of_int k :: u256) = k"
  by (simp add: uint_word_of_int)

lemma uint_bounds: "0 \<le> uint (a::u256)" "uint (a::u256) < 2 ^ 256"
  using unsigned_less [of a, where 'a = int] by simp_all

lemma nat_and_mask: "nat (uint (b::u256) AND 511) = unat b mod 512" "nat (uint (b::u256) AND 63) = unat b mod 64"
proof -
  have "uint b AND mask n = uint b mod 2 ^ n" for n by (simp add: take_bit_eq_mod flip: take_bit_eq_mask)
  from this [of 9] this [of 6] show "nat (uint b AND 511) = unat b mod 512" "nat (uint b AND 63) = unat b mod 64"
    by (simp_all add: mask_eq_exp_minus_1 nat_mod_distrib)
qed

lemma modular_refines:
  "(uint a + uint b) mod uint m = uint (word_of_int ((uint a + uint b) mod uint m) :: u256)"
  "uint a * uint b mod uint m = uint (word_of_int (uint a * uint b mod uint m) :: u256)"
  if "m \<noteq> 0" for m :: u256
proof -
  have "0 < uint m" using that uint_bounds(1) [of m] by (metis uint_zero_iff order_le_less)
  then have "0 \<le> k mod uint m \<and> k mod uint m < 2 ^ 256" for k
    using uint_bounds(2) [of m] pos_mod_bound [of "uint m" k] pos_mod_sign [of "uint m" k] by linarith
  then show "(uint a + uint b) mod uint m = uint (word_of_int ((uint a + uint b) mod uint m) :: u256)"
    "uint a * uint b mod uint m = uint (word_of_int (uint a * uint b mod uint m) :: u256)"
    by (simp_all only: uint_of_small)
qed

lemma shift_refines:
  "(if n < 256 then push_bit n (uint a) AND M256 else 0) = uint (push_bit n a)"
  "(if n < 256 then drop_bit n (uint a) else 0) = uint (drop_bit n a)" for a :: u256
  by (auto simp: bit_eq_iff bit_simps M256_mask dest: bit_imp_le_length)

lemma power_refines: "uint a ^ n mod push_bit 256 1 = uint (a ^ n)" for a :: u256
proof -
  have "uint a ^ n mod push_bit 256 1 = uint (word_of_int (uint a ^ n) :: u256)"
    by (subst uint_word_of_int) (simp add: take_bit_eq_mod)
  then show ?thesis by simp
qed

lemma xor_M256: "uint b XOR M256 = uint (NOT b)" for b :: u256
  by (simp add: bit_eq_iff bit_simps M256_mask) (auto dest: bit_imp_le_length)

lemma high_refines: "drop_bit 256 (uint a * uint b) = uint (word_of_int (uint a * uint b div 2 ^ 256) :: u256)"
  for a b :: u256
proof -
  have "uint a * uint b < 2 ^ 256 * 2 ^ 256"
    using uint_bounds by (intro mult_strict_mono') auto
  then have "uint a * uint b div 2 ^ 256 < 2 ^ 256" by (simp add: div_less_iff_less_mult)
  then show ?thesis using uint_bounds by (simp add: drop_bit_eq_div uint_of_small pos_imp_zdiv_nonneg_iff)
qed

lemma or_shift: "0 \<le> x \<Longrightarrow> x < 2 ^ n \<Longrightarrow> x OR push_bit n y = x + 2 ^ n * y" for x y :: int
proof -
  assume "0 \<le> x" "x < 2 ^ n"
  then have "x AND push_bit n y = 0"
    by (simp add: bit_eq_iff bit_simps) (metis bit_take_bit_iff not_le take_bit_int_eq_self)
  with plus_and_or [of x "push_bit n y"] show ?thesis by (simp add: push_bit_eq_mult mult.commute)
qed

lemma or_in: "x \<in> {0..<2 ^ n} \<Longrightarrow> y \<in> {0..<2 ^ n} \<Longrightarrow> x OR y \<in> {0..<2 ^ n}" for x y :: int
  by (simp add: OR_upper)

lemma flag_in: "n \<le> 13 \<Longrightarrow> push_bit n (of_bool c) \<in> {0..<2 ^ 14 :: int}"
  using power_strict_increasing [of n 14 "2::int"] by (simp add: push_bit_eq_mult)

lemma flags_bounds: "flags a b \<in> {0..<2 ^ 14}"
proof -
  have cmp: "push_bit 5 (if a < b then 0 else if a = b then 1 else 2 :: int) \<in> {0..<2 ^ 14}"
    by (simp add: push_bit_eq_mult)
  have bool: "of_bool c \<in> {0..<2 ^ 14 :: int}" for c by simp
  have one: "push_bit n 1 \<in> {0..<2 ^ 14 :: int}" if "n \<le> 13" for n using flag_in [OF that, of True] by simp
  show ?thesis
    unfolding flags_def Let_def by (intro or_in cmp bool flag_in one) simp_all
qed

lemma bit_length_less: "n < 2 ^ 256 \<Longrightarrow> bit_length n \<le> 256"
  by (simp add: bit_length_le_iff)

lemma lengths_refine:
  "int (bit_length (nat (uint a))) OR push_bit 16 (int (byte_length (uint a))) OR push_bit 32 (int (byte_length (uint a)))
   = uint (word_of_nat (bit_length (unat a) + 2 ^ 16 * length (be (unat a)) + 2 ^ 32 * length (be (unat a))) :: u256)"
  for a :: u256
proof -
  have n: "nat (uint a) = unat a" by simp
  have a: "unat a < 2 ^ 256" using unsigned_less [of a, where 'a = nat] by simp
  have bl: "bit_length (unat a) \<le> 256" using a by (rule bit_length_less)
  have blen: "byte_length (uint a) = length (be (unat a))" by (simp add: byte_length_def n byte_length_be)
  have len: "length (be (unat a)) \<le> 32" using a by (simp add: length_be_le_iff)
  have "int (bit_length (unat a)) OR push_bit 16 (int (length (be (unat a)))) =
      int (bit_length (unat a)) + 2 ^ 16 * int (length (be (unat a)))"
    using bl by (intro or_shift) simp_all
  moreover have "(int (bit_length (unat a)) + 2 ^ 16 * int (length (be (unat a)))) OR push_bit 32 (int (length (be (unat a)))) =
      int (bit_length (unat a)) + 2 ^ 16 * int (length (be (unat a))) + 2 ^ 32 * int (length (be (unat a)))"
    using bl len by (intro or_shift) simp_all
  ultimately have "int (bit_length (nat (uint a))) OR push_bit 16 (int (byte_length (uint a))) OR push_bit 32 (int (byte_length (uint a)))
      = int (bit_length (unat a) + 2 ^ 16 * length (be (unat a)) + 2 ^ 32 * length (be (unat a)))"
    by (simp add: blen n flip: or.assoc)
  also have "\<dots> = uint (word_of_int (int (bit_length (unat a) + 2 ^ 16 * length (be (unat a)) + 2 ^ 32 * length (be (unat a)))) :: u256)"
    using bl len by (intro uint_of_small [symmetric]) simp_all
  finally show ?thesis by simp
qed

lemma take_bytes: "m \<le> 32 \<Longrightarrow> n < 256 ^ 32 \<Longrightarrow> from_be (take m (be_fix 32 n)) = n div 256 ^ (32 - m)"
proof -
  assume m: "m \<le> 32" and n: "n < 256 ^ 32"
  let ?b = "be_fix 32 n"
  have "n = from_be (take m ?b @ drop m ?b)" using n by (simp add: from_be_be_fix)
  then have "n = from_be (take m ?b) * 256 ^ (32 - m) + from_be (drop m ?b)"
    by (simp only: from_be_append) simp
  moreover have "from_be (drop m ?b) < 256 ^ (32 - m)" using from_be_less [of "drop m ?b"] by simp
  ultimately show ?thesis by (metis add.right_neutral div_less div_mult_self3 gr_implies_not0)
qed

lemma results_refine:
  "results (uint a) (uint b) (uint m) (be_fix 32 (unat a)) = map uint (evm_results a b m)"
proof -
  define sh where "sh = unat b mod 512"
  define i where "i = unat b mod 64"
  define fn where "fn = min (unat m mod 64) 32"
  have defs: "nat (uint b AND 511) = sh" "nat (uint b AND 63) = i" "min (nat (uint m AND 63)) 32 = fn"
    by (simp_all add: nat_and_mask sh_def i_def fn_def)
  have "fn \<le> 32" by (simp add: fn_def)
  have a32: "unat a < 256 ^ 32" using unsigned_less [of a, where 'a = nat] by simp
  have "(if fn \<noteq> 0 then int (from_be (take fn (be_fix 32 (unat a)))) else 0) = int (unat a div 256 ^ (32 - fn))"
    using take_bytes [OF \<open>fn \<le> 32\<close> a32] a32 by simp
  also have "\<dots> = uint (word_of_int (int (unat a div 256 ^ (32 - fn))) :: u256)"
    using a32 by (intro uint_of_small [symmetric]) (auto intro: le_less_trans [OF div_le_dividend])
  finally have last: "(if fn \<noteq> 0 then int (from_be (take fn (be_fix 32 (unat a)))) else 0) =
      uint (word_of_nat (unat a div 256 ^ (32 - fn)) :: u256)" by simp
  have flags: "flags (uint a) (uint b) = uint (word_of_int (flags (uint a) (uint b)) :: u256)"
    using flags_bounds [of "uint a" "uint b"] by (intro uint_of_small [symmetric]) simp_all
  have byte: "byte_py i (uint a) = uint (if i < 32 then word_of_nat (unat (be_fix 32 (unat a) ! i)) else 0 :: u256)"
    using unsigned_less [of "be_fix 32 (unat a) ! i", where 'a = int]
      uint_of_small [of "int (unat (be_fix 32 (unat a) ! i))"]
    by (simp add: byte_refines)
  show ?thesis
    unfolding results_def Let_def defs evm_results_def lengths_refine shift_refines sar_refines signextend_refines
      power_refines sdiv_refines smod_refines high_refines xor_M256 last byte
      sh_def [symmetric] i_def [symmetric] fn_def [symmetric] list.map
    by (intro arg_cong2 [where f = Cons] refl)
      (simp_all add: and_M256 uint_zero_iff uint_div uint_mod unsigned_and_eq unsigned_or_eq unsigned_xor_eq
        flags [symmetric] modular_refines [symmetric])
qed

lemma signed_division: "evm_sdiv a b * b + (if b = 0 then a else evm_smod a b) = a"
proof (cases "b = 0")
  case False
  have "word_of_int (sint a sdiv sint b * sint b + sint a smod sint b) = (word_of_int (sint a) :: u256)"
    by (simp only: sdiv_mult_smod_eq)
  with False show ?thesis by (simp add: evm_sdiv_def evm_smod_def)
qed (simp add: evm_sdiv_def signed_divide_int_def)

section \<open>Properties\<close>


lemma bit_flag: "bit (of_bool c :: int) n \<longleftrightarrow> n = 0 \<and> c"
  by (cases c) (simp_all add: bit_1_iff)

lemma bit_push_flag: "bit (push_bit k (of_bool c) :: int) n \<longleftrightarrow> n = k \<and> c"
  by (simp only: bit_push_bit_iff bit_flag) auto

lemma bit_push_1: "bit (push_bit k 1 :: int) n \<longleftrightarrow> n = k"
  using bit_push_flag [of k True n] by simp

lemma flags_bits:
  "bit (flags a b) n =
     (n = 0 \<and> a < b \<or> n = 1 \<and> b < a \<or> n = 2 \<and> to_signed a < to_signed b \<or> n = 3 \<and> to_signed b < to_signed a \<or>
      n = 4 \<and> a = b \<or> n = 5 \<and> a = b \<or> n = 6 \<and> b < a \<or> n = 7 \<and> a = 0 \<or> n = 8 \<and> a < push_bit 64 1 \<or> n = 9 \<and> a + b > M256 \<or>
      n = 10 \<or> n = 11 \<and> a < push_bit 64 1 \<or> n = 12 \<or> n = 13)"
proof -
  have two: "push_bit 5 (2::int) = push_bit 6 1" by simp
  consider "a < b" | "a = b" | "b < a" by linarith
  then have cmp: "bit (push_bit 5 (if a < b then 0 else if a = b then 1 else 2 :: int)) n
      \<longleftrightarrow> n = 5 \<and> a = b \<or> n = 6 \<and> b < a"
  proof cases
    case 3
    then show ?thesis using bit_push_1 [of 6 n] two by simp
  qed (use bit_push_1 [of 5 n] in simp_all)
  show ?thesis
    unfolding flags_def Let_def bit_or_iff
    unfolding bit_flag bit_push_flag bit_push_1
    unfolding cmp
    by (simp only: disj_assoc)
qed

text \<open>The flag word: unsigned and signed comparisons, equality, the three-way comparison in bits 5 and 6, the zero
  test, whether the value fits 64 bits and whether the sum carries; nothing is set above bit 13.\<close>

theorem u256_flags:
  "bit (flags (uint a) (uint b)) 0 = (a < b) \<and> bit (flags (uint a) (uint b)) 1 = (b < a) \<and>
   bit (flags (uint a) (uint b)) 2 = (sint a < sint b) \<and> bit (flags (uint a) (uint b)) 3 = (sint b < sint a) \<and>
   bit (flags (uint a) (uint b)) 4 = (a = b) \<and>
   of_bool (bit (flags (uint a) (uint b)) 5) + 2 * of_bool (bit (flags (uint a) (uint b)) 6) = cmp3 a b \<and>
   bit (flags (uint a) (uint b)) 7 = (a = 0) \<and> bit (flags (uint a) (uint b)) 8 = (uint a < 2 ^ 64) \<and>
   bit (flags (uint a) (uint b)) 9 = (2 ^ 256 \<le> uint a + uint b) \<and> flags (uint a) (uint b) < 2 ^ 14" for a b :: u256
proof -
  have "flags (uint a) (uint b) < 2 ^ 14" using flags_bounds [of "uint a" "uint b"] by simp
  moreover have "M256 < uint a + uint b \<longleftrightarrow> 2 ^ 256 \<le> uint a + uint b"
    by (simp add: M256_def push_bit_eq_mult) linarith
  ultimately show ?thesis
    unfolding flags_bits by (simp add: to_signed_sint cmp3_def word_less_def uint_zero_iff push_bit_eq_mult)
      (simp add: word_uint_eq_iff)
qed

text \<open>Signed division and remainder fit together for every divisor, the overflowing quotient of the least value by
  minus one included: quotient times divisor plus remainder is the dividend modulo \<open>2 ^ 256\<close>.\<close>

theorem signed_division_identity:
  fixes a b :: u256
  assumes "b \<noteq> 0"
  shows "(sdiv_py (uint a) (uint b) * uint b + smod_py (uint a) (uint b)) mod 2 ^ 256 = uint a"
proof -
  have "(sdiv_py (uint a) (uint b) * uint b + smod_py (uint a) (uint b)) mod 2 ^ 256 =
      uint (word_of_int (uint (evm_sdiv a b) * uint b + uint (evm_smod a b)) :: u256)"
    by (subst uint_word_of_int) (simp add: sdiv_refines smod_refines)
  then show ?thesis using signed_division [of a b] assms by simp
qed

theorem signed_division_identity_witness:
  "(sdiv_py (uint (2 ^ 255 :: u256)) (uint (-1 :: u256)) * uint (-1 :: u256) +
    smod_py (uint (2 ^ 255 :: u256)) (uint (-1 :: u256))) mod 2 ^ 256 = uint (2 ^ 255 :: u256)"
  by (rule signed_division_identity) simp

end
