(* ===== verification/Modular.thy ===== *)
theory Modular
  imports Prelude
begin

text \<open>
  Arithmetic modulo a number as the Python sources write it: \<open>pow(x, e, m)\<close> and \<open>pow(x, -1, m)\<close> of
  the standard library, and the facts about a prime modulus that the curve and field components
  share.  Primality is the executable test by trial division, so that small instances evaluate.
\<close>

section \<open>Powers and inverses\<close>

definition powmod :: "int \<Rightarrow> nat \<Rightarrow> int \<Rightarrow> int" where
  \<comment> \<open>\<open>pow(x, e, m)\<close>\<close>
  "powmod x e m = x ^ e mod m"

definition invmod :: "int \<Rightarrow> int \<Rightarrow> int res" where
  \<comment> \<open>\<open>pow(x, -1, m)\<close>: a \<open>ValueError\<close> where \<open>x\<close> is not invertible modulo \<open>m\<close>\<close>
  "invmod x m = (if gcd x m = 1 then Inr (fst (bezw (nat (x mod m)) (nat m)) mod m) else Inl ValueError)"

definition prime_mod :: "int \<Rightarrow> bool" where
  "prime_mod p \<longleftrightarrow> 1 < p \<and> (\<forall>d \<in> {2..<p}. \<not> d dvd p)"

lemma prime_mod_gt: "prime_mod p \<Longrightarrow> 1 < p"
  by (simp add: prime_mod_def)

lemma prime_mod_coprime:
  assumes "prime_mod p" "\<not> p dvd x" shows "gcd x p = 1"
proof (rule ccontr)
  assume g: "gcd x p \<noteq> 1"
  from assms have p: "1 < p" by (simp add: prime_mod_def)
  have "gcd x p \<noteq> 0" "0 \<le> gcd x p" using p by simp_all
  with g have "2 \<le> gcd x p" by linarith
  moreover have "gcd x p \<noteq> p" using assms(2) by (metis gcd_dvd1)
  moreover have "gcd x p \<le> p" using p by (simp add: zdvd_imp_le)
  ultimately have "gcd x p \<in> {2..<p}" by simp
  with assms(1) show False using gcd_dvd2 by (auto simp: prime_mod_def)
qed

lemma prime_mod_dvd_mult:
  assumes "prime_mod p" "p dvd x * y" shows "p dvd x \<or> p dvd y"
proof (cases "p dvd x")
  case False
  then have "coprime p x" using prime_mod_coprime [OF assms(1) False] by (metis coprime_iff_gcd_eq_1 gcd.commute)
  with assms(2) show ?thesis by (simp add: coprime_dvd_mult_right_iff)
qed simp

lemma prime_mod_dvd_prod:
  "finite A \<Longrightarrow> prime_mod p \<Longrightarrow> p dvd prod f A \<Longrightarrow> \<exists>x\<in>A. p dvd f x"
proof (induction A rule: finite_induct)
  case empty
  then show ?case using prime_mod_gt [of p] by (simp add: zdvd1_eq)
next
  case (insert x A)
  then show ?case using prime_mod_dvd_mult by (metis insertCI prod.insert)
qed

lemma mod_eq_iff_dvd: "x mod m = y mod m \<longleftrightarrow> m dvd x - y" for m :: int
  by (rule mod_eq_dvd_iff)

text \<open>Fermat's little theorem, by multiplying the nonzero residues by \<open>a\<close>.\<close>

lemma fermat:
  assumes p: "prime_mod p" and a: "\<not> p dvd a"
  shows "a ^ nat (p - 1) mod p = 1"
proof -
  have p1: "1 < p" using p by (rule prime_mod_gt)
  let ?S = "{1..<p}"
  let ?f = "\<lambda>x. a * x mod p"
  have nd: "\<not> p dvd x" if "x \<in> ?S" for x using that by (auto dest: zdvd_imp_le)
  have inj: "inj_on ?f ?S"
  proof (rule inj_onI)
    fix x y assume xy: "x \<in> ?S" "y \<in> ?S" "?f x = ?f y"
    then have "p dvd a * (x - y)" by (simp add: mod_eq_iff_dvd right_diff_distrib)
    then have "p dvd x - y" using prime_mod_dvd_mult [OF p] a by blast
    then have "x mod p = y mod p" by (simp add: mod_eq_iff_dvd)
    with xy show "x = y" by simp
  qed
  have "?f ` ?S \<subseteq> ?S"
  proof
    fix y assume "y \<in> ?f ` ?S"
    then obtain x where x: "x \<in> ?S" "y = a * x mod p" by blast
    have "\<not> p dvd a * x" using prime_mod_dvd_mult [OF p] a nd [OF x(1)] by blast
    then have "y \<noteq> 0" using x by (simp add: dvd_eq_mod_eq_0)
    moreover have "0 \<le> y" "y < p" using x p1 by simp_all
    ultimately show "y \<in> ?S" by simp
  qed
  then have img: "?f ` ?S = ?S" using inj by (simp add: endo_inj_surj)
  have "prod id ?S = prod ?f ?S"
    using prod.reindex [OF inj, of id] img by (simp add: o_def id_def)
  then have "prod id ?S mod p = prod (\<lambda>x. a * x) ?S mod p"
    by (simp add: mod_prod_eq)
  also have "prod (\<lambda>x. a * x) ?S = a ^ card ?S * prod id ?S"
    by (simp add: prod.distrib id_def)
  also have "card ?S = nat (p - 1)" by simp
  finally have "p dvd (a ^ nat (p - 1) - 1) * prod id ?S"
    by (simp add: mod_eq_iff_dvd left_diff_distrib dvd_diff_commute)
  moreover have "\<not> p dvd prod id ?S" using prime_mod_dvd_prod [OF _ p, of ?S id] nd by auto
  ultimately have "p dvd a ^ nat (p - 1) - 1" using prime_mod_dvd_mult [OF p] by blast
  then have "a ^ nat (p - 1) mod p = 1 mod p" by (simp add: mod_eq_iff_dvd)
  with p1 show ?thesis by simp
qed

lemma fermat_inverse:
  assumes p: "prime_mod p" and a: "\<not> p dvd a"
  shows "a * powmod a (nat (p - 2)) p mod p = 1"
proof -
  have p1: "1 < p" using p by (rule prime_mod_gt)
  then have "Suc (nat (p - 2)) = nat (p - 1)" by simp
  then have "a * a ^ nat (p - 2) mod p = 1" using fermat [OF assms] by (metis power_Suc)
  then show ?thesis by (simp add: powmod_def mod_mult_right_eq)
qed

lemma invmod_Inr:
  assumes "1 < m" "invmod x m = Inr y" shows "x * y mod m = 1" "0 \<le> y" "y < m"
proof -
  from assms have g: "gcd x m = 1" and y: "y = fst (bezw (nat (x mod m)) (nat m)) mod m"
    by (auto simp: invmod_def split: if_splits)
  have "gcd (x mod m) m = 1" using g by (simp add: gcd.commute flip: gcd_red_int)
  then have "gcd (nat (x mod m)) (nat m) = 1" using assms(1) by (simp add: gcd_int_def nat_mod_distrib)
  then have "1 = fst (bezw (nat (x mod m)) (nat m)) * (x mod m) + snd (bezw (nat (x mod m)) (nat m)) * m"
    using bezw_aux [of "nat (x mod m)" "nat m"] assms(1) by simp
  then have "fst (bezw (nat (x mod m)) (nat m)) * (x mod m) mod m = 1 mod m"
    by (metis mod_mult_self3 add.commute mult.commute)
  then show "x * y mod m = 1" using assms(1) by (simp add: y mod_simps mult.commute)
  show "0 \<le> y" "y < m" using assms(1) by (simp_all add: y)
qed

lemma invmod_prime:
  assumes "prime_mod p"
  shows "(\<exists>y. invmod x p = Inr y) \<longleftrightarrow> \<not> p dvd x"
proof
  assume "\<exists>y. invmod x p = Inr y"
  then have "gcd x p = 1" by (auto simp: invmod_def split: if_splits)
  then show "\<not> p dvd x" using prime_mod_gt [OF assms] by (auto simp: gcd_proj2_if_dvd)
next
  assume "\<not> p dvd x"
  then show "\<exists>y. invmod x p = Inr y" using prime_mod_coprime [OF assms] by (simp add: invmod_def)
qed

text \<open>Two inverses of the same residue are equal, so the two ways of computing one agree.\<close>

lemma inverse_unique:
  fixes x y z m :: int
  assumes "x * y mod m = 1" "x * z mod m = 1" shows "y mod m = z mod m"
proof -
  have "y mod m = y * (x * z mod m) mod m" by (simp add: assms(2))
  also have "\<dots> = (x * y mod m) * z mod m" by (simp add: mod_simps ac_simps)
  also have "\<dots> = z mod m" by (simp add: assms(1))
  finally show ?thesis .
qed

lemma invmod_powmod:
  assumes "prime_mod p" "\<not> p dvd x"
  shows "invmod x p = Inr (powmod x (nat (p - 2)) p)"
proof -
  have p: "1 < p" using assms(1) by (rule prime_mod_gt)
  obtain y where y: "invmod x p = Inr y" using invmod_prime [OF assms(1)] assms(2) by blast
  have "y mod p = powmod x (nat (p - 2)) p mod p"
    using inverse_unique [OF invmod_Inr(1) [OF p y] fermat_inverse [OF assms]] .
  then have "y = powmod x (nat (p - 2)) p" using invmod_Inr(2,3) [OF p y] p by (simp add: powmod_def)
  with y show ?thesis by simp
qed

lemma invmod_mod: "0 < m \<Longrightarrow> invmod (x mod m) m = invmod x m"
  by (simp add: invmod_def gcd.commute flip: gcd_red_int)

lemma powmod_mod: "powmod (x mod m) e m = powmod x e m"
  by (simp add: powmod_def power_mod)

section \<open>Square roots modulo a prime that is 3 modulo 4\<close>

lemma sqrt_powmod:
  assumes p: "prime_mod p" "p mod 4 = 3" and a: "a mod p = y * y mod p"
  shows "powmod a (nat ((p + 1) div 4)) p * powmod a (nat ((p + 1) div 4)) p mod p = a mod p"
proof -
  have p1: "1 < p" using p(1) by (rule prime_mod_gt)
  define k where "k = nat ((p + 1) div 4)"
  have k: "4 * int k = p + 1" 
  proof -
    have "4 * ((p + 1) div 4) = p + 1" using p(2) by presburger
    moreover have "0 \<le> (p + 1) div 4" using p1 by simp
    ultimately show ?thesis by (simp add: k_def)
  qed
  then have e: "2 * (2 * k) = Suc (Suc (nat (p - 1)))" using p1 by linarith
  have "powmod a k p * powmod a k p mod p = a ^ (2 * k) mod p"
    by (simp add: powmod_def mod_mult_left_eq mod_mult_right_eq mult_2 power_add)
  also have "\<dots> = (y * y) ^ (2 * k) mod p" using a by (metis power_mod)
  also have "(y * y) ^ (2 * k) = y ^ (2 * (2 * k))" by (simp only: power_mult power2_eq_square [symmetric])
  also have "y ^ (2 * (2 * k)) mod p = y * y * (y ^ nat (p - 1) mod p) mod p"
    unfolding e power_Suc mod_mult_right_eq by (simp only: mult.assoc)
  also have "\<dots> = y * y mod p"
  proof (cases "p dvd y")
    case True
    then show ?thesis by simp
  next
    case False
    then show ?thesis using fermat [OF p(1) False] by simp
  qed
  finally show ?thesis using a by (simp add: k_def)
qed

section \<open>Fixed-width conversion of integers\<close>

definition int_to_be :: "nat \<Rightarrow> int \<Rightarrow> bytes res" where
  \<comment> \<open>\<open>z.to_bytes(k, "big")\<close>\<close>
  "int_to_be k z = (if z < 0 then Inl OverflowError else to_be k (nat z))"

lemma int_to_be_ok: "0 \<le> x \<Longrightarrow> x < 256 ^ k \<Longrightarrow> int_to_be k x = Inr (be_fix k (nat x))"
  by (simp add: int_to_be_def to_be_def nat_less_iff)

lemma int_to_be_length: "int_to_be k z = Inr b \<Longrightarrow> length b = k"
  by (auto simp: int_to_be_def to_be_iff split: if_splits)

end
