(* ===== verification/Records.thy ===== *)
theory Records
  imports Prelude
begin

text \<open>
  The record streams of the curve test programs: \<open>[8 type LE][8 len LE][payload padded to 8]\<close> in both
  directions, and the loop \<open>expected\<close> that answers a stream record by record.
  \<open>tools/gen_bn254_vectors.py\<close> and \<open>tools/gen_bls12381_vectors.py\<close> have the same loop around
  their own evaluator, which is an argument here.
\<close>

definition pad8_bytes :: "bytes \<Rightarrow> bytes" where
  "pad8_bytes b = b @ zeros (nat (- int (length b) mod 8))"

definition frame_record :: "nat \<Rightarrow> bytes \<Rightarrow> bytes res" where
  "frame_record ty payload =
     ebind (pack_u64 ty) (\<lambda>t. ebind (pack_u64 (length payload)) (\<lambda>n. Inr (t @ n @ pad8_bytes payload)))"

definition unpack_qq :: "bytes \<Rightarrow> (nat \<times> nat) res" where
  \<comment> \<open>\<open>struct.unpack("<QQ", b)\<close>\<close>
  "unpack_qq b = (if length b = 16 then Inr (from_le (take 8 b), from_le (drop 8 b)) else Inl StructError)"

definition align8 :: "nat \<Rightarrow> nat" where
  \<comment> \<open>\<open>(n + 7) & ~7\<close>\<close>
  "align8 n = nat ((int n + 7) AND NOT 7)"

function run_records :: "(nat \<Rightarrow> bytes \<Rightarrow> bytes res) \<Rightarrow> bytes \<Rightarrow> nat \<Rightarrow> bytes \<Rightarrow> bytes res" where
  "run_records ev blob pos out =
     (if pos < length blob then
        ebind (unpack_qq (bslice blob pos (pos + 16))) (\<lambda>(ty, n).
          let payload = bslice blob (pos + 16) (pos + 16 + n) in
          ebind (ev ty payload) (\<lambda>r.
          ebind (frame_record ty r) (\<lambda>f. run_records ev blob (pos + 16 + align8 n) (out @ f))))
      else Inr out)"
  by pat_completeness auto
termination run_records
  by (relation "measure (\<lambda>(ev, blob, pos, out). length blob - pos)") auto

declare run_records.simps [simp del]

section \<open>Framing\<close>

lemma and_not_mask: "k AND NOT (mask n) = k div 2 ^ n * 2 ^ n" for k :: int
proof -
  have "k AND NOT (mask n) = push_bit n (drop_bit n k)" by (rule bit_eqI) (auto simp: bit_simps)
  then show ?thesis by (simp add: push_bit_eq_mult drop_bit_eq_div)
qed

lemma align8_eq: "align8 n = (n + 7) div 8 * 8"
proof -
  have "(int n + 7) AND NOT 7 = (int n + 7) div 8 * 8" using and_not_mask [of "int n + 7" 3] by (simp add: mask_eq_exp_minus_1)
  also have "\<dots> = int ((n + 7) div 8 * 8)" by simp
  finally show ?thesis by (simp only: align8_def nat_int)
qed

lemma pad_length: "nat (- int n mod 8) = (n + 7) div 8 * 8 - n"
proof -
  have e: "(- k) mod 8 = (k + 7) div 8 * 8 - k" for k :: int 
  proof (rule int_mod_pos_eq)
    show "- k = 8 * (- ((k + 7) div 8)) + ((k + 7) div 8 * 8 - k)" by simp
    show "0 \<le> (k + 7) div 8 * 8 - k" "(k + 7) div 8 * 8 - k < 8"
      using div_mult_mod_eq [of "k + 7" 8] pos_mod_bound [of 8 "k + 7"] pos_mod_sign [of 8 "k + 7"] by linarith+
  qed
  have "(- int n) mod 8 = int ((n + 7) div 8 * 8) - int n" unfolding e of_nat_mult zdiv_int by simp
  then show ?thesis by simp
qed

lemma length_pad8: "length (pad8_bytes b) = align8 (length b)"
proof -
  have "length b \<le> (length b + 7) div 8 * 8"
    using div_mult_mod_eq [of "length b + 7" 8] mod_less_divisor [of 8 "length b + 7"] by linarith
  then show ?thesis unfolding pad8_bytes_def align8_eq length_append length_zeros pad_length by linarith
qed

lemma frame_record_Inr:
  "frame_record ty p = Inr f \<longleftrightarrow> ty < 2 ^ 64 \<and> length p < 2 ^ 64 \<and> f = le_fix 8 ty @ le_fix 8 (length p) @ pad8_bytes p"
  by (auto simp: frame_record_def ebind_Inr_iff pack_u64_iff)

lemma length_frame: "frame_record ty p = Inr f \<Longrightarrow> length f = 16 + align8 (length p)"
  by (auto simp: frame_record_Inr length_pad8)

text \<open>One turn of the loop on a stream whose next bytes are a frame.\<close>

lemma run_records_frame:
  assumes "frame_record ty p = Inr f"
  shows "run_records ev (pre @ f @ post) (length pre) out =
    ebind (ev ty p) (\<lambda>r. ebind (frame_record ty r) (\<lambda>g. run_records ev (pre @ f @ post) (length (pre @ f)) (out @ g)))"
proof -
  from assms have n: "ty < 2 ^ 64" "length p < 2 ^ 64" and f: "f = le_fix 8 ty @ le_fix 8 (length p) @ pad8_bytes p"
    by (auto simp: frame_record_Inr)
  have h: "bslice (pre @ f @ post) (length pre) (length pre + 16) = le_fix 8 ty @ le_fix 8 (length p)"
    by (simp add: bslice_def f)
  have p: "bslice (pre @ f @ post) (length pre + 16) (length pre + 16 + length p) = p"
    by (simp add: bslice_def f pad8_bytes_def)
  have q: "length pre + 16 + align8 (length p) = length (pre @ f)" using length_frame [OF assms] by simp
  have c: "length pre < length (pre @ f @ post)" using length_frame [OF assms] by simp
  have u: "unpack_qq (le_fix 8 ty @ le_fix 8 (length p)) = Inr (ty, length p)" using n by (simp add: unpack_qq_def)
  show ?thesis
    by (subst run_records.simps) (simp only: c if_True h u ebind_simps prod.case Let_def p q)
qed

text \<open>The loop on a stream of frames answers every record in order, and the first error stops it.\<close>

definition answer :: "(nat \<Rightarrow> bytes \<Rightarrow> bytes res) \<Rightarrow> nat \<times> bytes \<Rightarrow> bytes res" where
  "answer ev rec = ebind (ev (fst rec) (snd rec)) (frame_record (fst rec))"

lemma run_records_frames_from:
  "emap (\<lambda>rec. frame_record (fst rec) (snd rec)) recs = Inr fs \<Longrightarrow>
   run_records ev (pre @ concat fs) (length pre) out = ebind (emap (answer ev) recs) (\<lambda>gs. Inr (out @ concat gs))"
proof (induction recs arbitrary: fs pre out)
  case Nil
  then show ?case by (subst run_records.simps) simp
next
  case (Cons rec recs)
  then obtain f fs' where f: "frame_record (fst rec) (snd rec) = Inr f" and fs: "fs = f # fs'"
    and fs': "emap (\<lambda>rec. frame_record (fst rec) (snd rec)) recs = Inr fs'"
    by (auto simp: ebind_Inr_iff)
  have IH: "run_records ev (pre @ f @ concat fs') (length (pre @ f)) out' = ebind (emap (answer ev) recs) (\<lambda>gs. Inr (out' @ concat gs))" for out'
    using Cons.IH [OF fs', of "pre @ f" out'] by simp
  show ?case
    unfolding fs concat.simps run_records_frame [OF f] IH by (simp add: answer_def [of ev rec] ebind_assoc)
qed

lemma run_records_frames:
  "emap (\<lambda>rec. frame_record (fst rec) (snd rec)) recs = Inr fs \<Longrightarrow>
   run_records ev (concat fs) 0 [] = ebind (emap (answer ev) recs) (\<lambda>gs. Inr (concat gs))"
  using run_records_frames_from [of recs fs ev "[]" "[]"] by simp

end
