(* ===== verification/U256Files.thy ===== *)
theory U256Files
  imports U256 Modular Records
begin

text \<open>
  The rest of \<open>tools/gen_u256_vectors.py\<close>: the edge values and fixed cases, the drawing of operands, and the
  two files that the main function writes.  Random draws are arguments: a drawn operand is either
  an index into the edge values, or a value of at most 256 bits that may be negated.  The expected
  file is the EVM's results, case by case.
\<close>

section \<open>The functions of the file\<close>

definition EDGES :: "int list" where
  "EDGES = [0, 1, 2, 3, 7, 255, 256, push_bit 32 1 - 1, push_bit 32 1, push_bit 64 1 - 1, push_bit 64 1,
    push_bit 64 1 + 1, push_bit 128 1 - 1, push_bit 128 1, push_bit 128 1 + 1, push_bit 192 1 - 1,
    push_bit 192 1, push_bit 255 1 - 1, push_bit 255 1, push_bit 255 1 + 1, M256, M256 - 1,
    M256 - 2, push_bit 256 1 - push_bit 64 1, push_bit 256 1 - push_bit 128 1, push_bit 191 1,
    push_bit 65 1 - 1, push_bit 127 1 - 1, push_bit 129 1 - 1]"

record val_draw =
  v_edge :: "nat option"     \<comment> \<open>\<open>rng.random() < 0.35\<close>, and the index that \<open>choice\<close> picks\<close>
  v_bits :: int              \<comment> \<open>\<open>getrandbits\<close>\<close>
  v_negate :: bool           \<comment> \<open>\<open>rng.random() < 0.15\<close>\<close>

definition rand_val :: "val_draw \<Rightarrow> int res" where
  "rand_val d =
     (case v_edge d of
        Some i \<Rightarrow> index_at EDGES i
      | None \<Rightarrow> Inr (if v_negate d then (- v_bits d) AND M256 else v_bits d))"

definition U256_FIXED :: "(int \<times> int \<times> int) list" where
  "U256_FIXED = [
    (push_bit 255 1, M256, 0),
    (push_bit 255 1, push_bit 255 1, M256),
    (M256, M256, M256),
    (M256, 1, 2),
    (0, 0, 0),
    (0, 5, 7),
    (5, 0, 7),
    (M256, M256, push_bit 128 1 + 3),
    (push_bit 64 1 - 1, push_bit 64 1 - 1, push_bit 64 1 - 1),
    (push_bit 64 1 - 1, push_bit 64 1 + 1, push_bit 64 1),
    (M256, M256, 1),
    (12345, 67890, push_bit 255 1),
    (push_bit 255 1, 3, push_bit 200 1),
    (M256 - 5, push_bit 128 1, M256),
    (push_bit 256 1 - push_bit 128 1, push_bit 128 1 - 1, push_bit 128 1 - 1),
    (2, 255 + 256, 17),
    (3, 200, 1000003),
    (push_bit 64 1 + 1, push_bit 64 1 + 1, push_bit 64 1 + 1)]"

record case_draw =
  c_a :: val_draw
  c_b :: val_draw
  c_m :: val_draw
  c_odd :: "int option"      \<comment> \<open>\<open>rng.random() < 0.3\<close>, and the \<open>getrandbits\<close> that is then drawn\<close>

definition drawn_case :: "case_draw \<Rightarrow> (int \<times> int \<times> int) res" where
  "drawn_case d =
     ebind (rand_val (c_a d)) (\<lambda>a. ebind (rand_val (c_b d)) (\<lambda>b. ebind (rand_val (c_m d)) (\<lambda>m.
       Inr (a, b, case c_odd d of Some r \<Rightarrow> (if m \<noteq> 0 then r OR 1 else m) | None \<Rightarrow> m))))"

definition u256_cases :: "nat \<Rightarrow> (nat \<Rightarrow> case_draw) \<Rightarrow> (int \<times> int \<times> int) list res" where
  "u256_cases count draws =
     ebind (emap (\<lambda>i. drawn_case (draws i)) [0..<count - length U256_FIXED]) (\<lambda>cs. Inr (take count (U256_FIXED @ cs)))"

definition u256_input :: "int \<times> int \<times> int \<Rightarrow> bytes res" where
  "u256_input c = (case c of (a, b, m) \<Rightarrow> ebind (emap (int_to_be 32) [a, b, m]) (\<lambda>xs. Inr (concat xs)))"

definition u256_output :: "int \<times> int \<times> int \<Rightarrow> bytes res" where
  "u256_output c = (case c of (a, b, m) \<Rightarrow>
     ebind (int_to_be 32 a) (\<lambda>ab. ebind (emap (\<lambda>r. int_to_be 32 (r AND M256)) (results a b m ab)) (\<lambda>xs. Inr (concat xs))))"

definition u256_files :: "nat \<Rightarrow> (nat \<Rightarrow> case_draw) \<Rightarrow> (bytes \<times> bytes) res" where
  "u256_files count draws =
     ebind (u256_cases count draws) (\<lambda>cases.
     ebind (emap u256_input cases) (\<lambda>ins. ebind (emap u256_output cases) (\<lambda>outs.
       let blob = concat ins; pad = nat (- int (8 + length blob) mod 8)
       in ebind (pack_u64 (length blob)) (\<lambda>n. Inr (n @ blob @ zeros pad, concat outs)))))"

section \<open>The files\<close>

definition word_case :: "int \<times> int \<times> int \<Rightarrow> bool" where
  "word_case c \<longleftrightarrow> (case c of (a, b, m) \<Rightarrow> a \<in> {0..M256} \<and> b \<in> {0..M256} \<and> m \<in> {0..M256})"

definition spec_output :: "int \<times> int \<times> int \<Rightarrow> bytes" where
  \<comment> \<open>the 22 results of the specification, as 32-byte words\<close>
  "spec_output c = (case c of (a, b, m) \<Rightarrow> concat (map (\<lambda>w. be_fix 32 (unat w)) (evm_results (word_of_int a) (word_of_int b) (word_of_int m))))"

definition draw_ok :: "case_draw \<Rightarrow> bool" where
  "draw_ok d \<longleftrightarrow>
     list_all (\<lambda>v. (case v_edge v of Some i \<Rightarrow> i < 29 | None \<Rightarrow> v_bits v \<in> {0..M256})) [c_a d, c_b d, c_m d] \<and>
     (case c_odd d of Some r \<Rightarrow> r \<in> {0..M256} | None \<Rightarrow> True)"

lemma M256_value: "M256 = 2 ^ 256 - 1"
  by (simp add: M256_def)

lemma edges_in: "list_all (\<lambda>x. x \<in> {0..M256}) EDGES" and length_EDGES: "length EDGES = 29"
  by (simp_all add: EDGES_def M256_value)

lemma fixed_in: "list_all word_case U256_FIXED" and length_fixed: "length U256_FIXED = 18"
  by (simp_all add: U256_FIXED_def word_case_def M256_value)

lemma and_M256_in: "x AND M256 \<in> {0..M256}"
  by (simp add: M256_mask)

lemma or_1_in: "r \<in> {0..M256} \<Longrightarrow> r OR 1 \<in> {0..M256}"
  using or_in [of r 256 1] by (auto simp: M256_value)

lemma rand_val_in:
  assumes "case v_edge v of Some i \<Rightarrow> i < 29 | None \<Rightarrow> v_bits v \<in> {0..M256}"
  shows "\<exists>x. rand_val v = Inr x \<and> x \<in> {0..M256}"
proof (cases "v_edge v")
  case (Some i)
  then have "EDGES ! i \<in> {0..M256}" "i < length EDGES"
    using assms edges_in nth_mem [of i EDGES] unfolding list_all_iff length_EDGES by auto
  then show ?thesis using Some by (simp add: rand_val_def)
qed (use assms and_M256_in in \<open>auto simp: rand_val_def\<close>)

lemma drawn_case_ok:
  assumes "draw_ok d" shows "\<exists>c. drawn_case d = Inr c \<and> word_case c"
proof -
  obtain a where a: "rand_val (c_a d) = Inr a" "a \<in> {0..M256}" using assms rand_val_in by (auto simp: draw_ok_def)
  obtain b where b: "rand_val (c_b d) = Inr b" "b \<in> {0..M256}" using assms rand_val_in by (auto simp: draw_ok_def)
  obtain m where m: "rand_val (c_m d) = Inr m" "m \<in> {0..M256}" using assms rand_val_in by (auto simp: draw_ok_def)
  have "(case c_odd d of Some r \<Rightarrow> (if m \<noteq> 0 then r OR 1 else m) | None \<Rightarrow> m) \<in> {0..M256}"
    using assms m(2) or_1_in by (cases "c_odd d") (simp_all add: draw_ok_def)
  then show ?thesis using a b m by (simp add: drawn_case_def word_case_def)
qed

lemma u256_cases_ok:
  assumes "\<And>i. draw_ok (draws i)"
  shows "\<exists>cs. u256_cases count draws = Inr cs \<and> length cs = count \<and> list_all word_case cs"
proof -
  define f where "f i = projr (drawn_case (draws i))" for i
  have f: "drawn_case (draws i) = Inr (f i)" "word_case (f i)" for i
    using drawn_case_ok [OF assms, of i] by (auto simp: f_def)
  let ?cs = "U256_FIXED @ map f [0..<count - length U256_FIXED]"
  have "u256_cases count draws = Inr (take count ?cs)"
    by (simp add: u256_cases_def f emap_Inr)
  moreover have "list_all word_case (take count ?cs)"
    using fixed_in f by (auto simp: list_all_iff dest!: in_set_takeD)
  moreover have "length (take count ?cs) = count" by (simp add: length_fixed)
  ultimately show ?thesis by blast
qed

lemma be_uint: "int_to_be 32 (uint (w :: u256)) = Inr (be_fix 32 (unat w))"
  using uint_bounds [of w] by (subst int_to_be_ok) simp_all

lemma be_of_word: "x \<in> {0..M256} \<Longrightarrow> int_to_be 32 x = Inr (be_fix 32 (unat (word_of_int x :: u256)))"
  using be_uint [of "word_of_int x"] by (simp add: M256_value unsigned_of_int take_bit_int_eq_self)

lemma u256_output_spec: "word_case c \<Longrightarrow> u256_output c = Inr (spec_output c)"
proof -
  assume c: "word_case c"
  obtain a b m where e: "c = (a, b, m)" by (cases c)
  let ?w = "word_of_int :: int \<Rightarrow> u256"
  have u: "uint (?w x) = x" if "x \<in> {0..M256}" for x
    using that by (simp add: M256_value unsigned_of_int take_bit_int_eq_self_iff)
  have r: "results a b m (be_fix 32 (unat (?w a))) = map uint (evm_results (?w a) (?w b) (?w m))"
    using results_refine [of "?w a" "?w b" "?w m"] c u by (simp add: e word_case_def)
  have "emap (\<lambda>r. int_to_be 32 (r AND M256)) (map uint ws) = Inr (map (\<lambda>w. be_fix 32 (unat w)) ws)" for ws :: "u256 list"
    by (induction ws) (simp_all add: and_M256 be_uint)
  then show ?thesis
    using c by (simp add: u256_output_def e word_case_def be_of_word r spec_output_def)
qed

text \<open>
  The two files, for every count and all draws in range: the input holds three words per case, the
  expected file the results of the specification.
\<close>

theorem u256_files_refine:
  assumes "\<And>i. draw_ok (draws i)" "count < 2 ^ 50"
  shows "\<exists>cs ins. u256_cases count draws = Inr cs \<and> length cs = count \<and> list_all word_case cs \<and>
    emap u256_input cs = Inr ins \<and> list_all (\<lambda>b. length b = 96) ins \<and>
    u256_files count draws = Inr (le_fix 8 (96 * count) @ pad8_bytes (concat ins), concat (map spec_output cs))"
proof -
  obtain cs where cs: "u256_cases count draws = Inr cs" "length cs = count" "list_all word_case cs"
    using u256_cases_ok [of draws count] assms(1) by blast
  define f where "f c = projr (u256_input c)" for c
  have f: "u256_input c = Inr (f c) \<and> length (f c) = 96" if "word_case c" for c
    using that by (auto simp: u256_input_def f_def word_case_def be_of_word)
  have ins: "emap u256_input cs = Inr (map f cs)" "list_all (\<lambda>b. length b = 96) (map f cs)"
    using cs(3) f by (auto simp: list_all_iff intro!: emap_Inr)
  have outs: "emap u256_output cs = Inr (map spec_output cs)"
    using cs(3) u256_output_spec by (auto simp: list_all_iff intro!: emap_Inr)
  have n: "length (concat (map f cs)) = 96 * count"
    using ins(2) length_concat_const [of "map f cs" 96] by (simp add: list_all_iff cs(2))
  have "nat (- int (8 + 96 * count) mod 8) = nat (- int (96 * count) mod 8)"
    by (simp add: minus_mod_int_eq mod_simps)
  then have "u256_files count draws = Inr (le_fix 8 (96 * count) @ pad8_bytes (concat (map f cs)), concat (map spec_output cs))"
    unfolding u256_files_def cs(1) ebind_simps ins(1) outs Let_def n using assms(2) by (simp add: pack_u64_def pad8_bytes_def n)
  then show ?thesis using cs ins by blast
qed

end
