(* ===== verification/Curve.thy ===== *)
theory Curve
  imports Modular
begin

text \<open>
  Short Weierstrass curves \<open>y\<^sup>2 = x\<^sup>3 + a x + b\<close> modulo \<open>p\<close>, the common ground of
  \<open>tools/gen_secp_vectors.py\<close>, \<open>tools/gen_p256_vectors.py\<close>, \<open>tools/compare-clients.py\<close> and
  \<open>guest/test/exp_recover.py\<close>.  The module constants \<open>P\<close>, \<open>N\<close>, \<open>A\<close>, \<open>B\<close>, \<open>G\<close> of these files are
  the fields of a record; every function of the files takes the record, so that one theorem speaks
  of secp256k1, of P-256 and of curves small enough to evaluate.  The relation \<open>curve_sum\<close> is the
  chord-and-tangent rule with the slope characterised by an equation instead of computed; the
  locale \<open>adder\<close> is what an implementation of the point addition promises.
\<close>

record curve =
  modP :: int
  ordN :: int
  coefA :: int
  coefB :: int
  gen :: "int \<times> int"

type_synonym point = "(int \<times> int) option"

definition on_curve :: "curve \<Rightarrow> int \<Rightarrow> int \<Rightarrow> bool" where
  "on_curve c x y \<longleftrightarrow> y * y mod modP c = (x * x * x + coefA c * x + coefB c) mod modP c"

definition reduced :: "curve \<Rightarrow> int \<Rightarrow> bool" where
  "reduced c x \<longleftrightarrow> 0 \<le> x \<and> x < modP c"

definition valid :: "curve \<Rightarrow> point \<Rightarrow> bool" where
  "valid c P = (case P of None \<Rightarrow> True | Some (x, y) \<Rightarrow> reduced c x \<and> reduced c y \<and> on_curve c x y)"

lemma valid_simps [simp]:
  "valid c None" "valid c (Some (x, y)) \<longleftrightarrow> reduced c x \<and> reduced c y \<and> on_curve c x y"
  by (simp_all add: valid_def)

section \<open>The chord-and-tangent rule\<close>

definition third :: "curve \<Rightarrow> int \<Rightarrow> int \<Rightarrow> int \<Rightarrow> int \<Rightarrow> int \<times> int" where
  \<comment> \<open>the reflected third point of the line of slope \<open>l\<close> through \<open>(x1, y1)\<close> and a point at \<open>x2\<close>\<close>
  "third c l x1 y1 x2 = (let x3 = (l * l - x1 - x2) mod modP c in (x3, (l * (x1 - x3) - y1) mod modP c))"

inductive curve_sum :: "curve \<Rightarrow> point \<Rightarrow> point \<Rightarrow> point \<Rightarrow> bool" where
  zero_left: "curve_sum c None Q Q"
| zero_right: "curve_sum c P None P"
| opposite: "(y1 + y2) mod modP c = 0 \<Longrightarrow> curve_sum c (Some (x, y1)) (Some (x, y2)) None"
| tangent: "(y + y) mod modP c \<noteq> 0 \<Longrightarrow> l * (2 * y) mod modP c = (3 * x * x + coefA c) mod modP c \<Longrightarrow> reduced c l \<Longrightarrow>
    curve_sum c (Some (x, y)) (Some (x, y)) (Some (third c l x y x))"
| chord: "x1 \<noteq> x2 \<Longrightarrow> l * (x2 - x1) mod modP c = (y2 - y1) mod modP c \<Longrightarrow> reduced c l \<Longrightarrow>
    curve_sum c (Some (x1, y1)) (Some (x2, y2)) (Some (third c l x1 y1 x2))"

inductive_cases sum_SomeE: "curve_sum c (Some (x1, y1)) (Some (x2, y2)) R"

inductive_simps sum_None [simp]: "curve_sum c None Q R" "curve_sum c P None R"

text \<open>The polynomial identities behind closure.  \<open>u\<close> and \<open>v\<close> are the equations of the slope.\<close>

lemma chord_identity:
  fixes a b :: int
  shows "(x2 - x1) * ((l * (x1 - (l * l - x1 - x2)) - y1) ^ 2 - (l * l - x1 - x2) ^ 3 - a * (l * l - x1 - x2) - b) =
    (x2 - x1) * (y1 ^ 2 - x1 ^ 3 - a * x1 - b) +
    ((l * l - x1 - x2) - x1) * ((y2 ^ 2 - x2 ^ 3 - a * x2 - b) + (l * (x2 - x1) - (y2 - y1)) * (y2 + y1 + l * (x2 - x1)) -
      (y1 ^ 2 - x1 ^ 3 - a * x1 - b))"
  by (simp add: power2_eq_square power3_eq_cube algebra_simps)

lemma tangent_identity:
  fixes a b :: int
  shows "(l * (x - (l * l - x - x)) - y) ^ 2 - (l * l - x - x) ^ 3 - a * (l * l - x - x) - b =
    (y ^ 2 - x ^ 3 - a * x - b) + (l * (2 * y) - (3 * x * x + a)) * ((l * l - x - x) - x)"
  by (simp add: power2_eq_square power3_eq_cube algebra_simps)

lemma on_curve_dvd: "on_curve c x y \<longleftrightarrow> modP c dvd y ^ 2 - x ^ 3 - coefA c * x - coefB c"
  by (simp add: on_curve_def mod_eq_iff_dvd power2_eq_square power3_eq_cube algebra_simps)

lemma on_curve_mod: "on_curve c (x mod modP c) (y mod modP c) \<longleftrightarrow> on_curve c x y"
proof -
  let ?p = "modP c"
  have "(x mod ?p * (x mod ?p) * (x mod ?p) + coefA c * (x mod ?p) + coefB c) mod ?p = (x * x * x + coefA c * x + coefB c) mod ?p"
    by (intro mod_add_cong mod_mult_cong) simp_all
  moreover have "y mod ?p * (y mod ?p) mod ?p = y * y mod ?p" by (intro mod_mult_cong) simp_all
  ultimately show ?thesis by (simp only: on_curve_def)
qed

lemma reduced_mod: "0 < modP c \<Longrightarrow> reduced c (x mod modP c)"
  by (simp add: reduced_def)

lemma mod_inner: "(l * (x1 - u mod p) - y1) mod p = (l * (x1 - u) - y1) mod p" for p :: int
  by (intro mod_diff_cong mod_mult_cong) simp_all

lemma third_mod:
  "third c l x1 y1 x2 = ((l * l - x1 - x2) mod modP c, (l * (x1 - (l * l - x1 - x2)) - y1) mod modP c)"
  unfolding third_def Let_def mod_inner ..

lemma reduced_eq: "reduced c x \<Longrightarrow> reduced c y \<Longrightarrow> modP c dvd x - y \<Longrightarrow> x = y"
  by (simp add: reduced_def flip: mod_eq_iff_dvd)

lemma valid_third:
  assumes "0 < modP c" "modP c dvd (l * (x1 - (l * l - x1 - x2)) - y1) ^ 2 - (l * l - x1 - x2) ^ 3 - coefA c * (l * l - x1 - x2) - coefB c"
  shows "valid c (Some (third c l x1 y1 x2))"
  unfolding third_mod valid_simps on_curve_mod unfolding on_curve_dvd
  using assms by (intro conjI reduced_mod)

lemma sum_valid:
  assumes p: "prime_mod (modP c)" and sum: "curve_sum c P Q R" and v: "valid c P" "valid c Q"
  shows "valid c R"
  using sum v
proof (cases rule: curve_sum.cases)
  case (tangent y l x)
  have "modP c dvd (l * (2 * y) - (3 * x * x + coefA c))" using tangent by (simp add: mod_eq_iff_dvd)
  moreover have "modP c dvd y ^ 2 - x ^ 3 - coefA c * x - coefB c" using v tangent by (simp add: on_curve_dvd)
  ultimately have "modP c dvd (l * (x - (l * l - x - x)) - y) ^ 2 - (l * l - x - x) ^ 3 - coefA c * (l * l - x - x) - coefB c"
    unfolding tangent_identity by (intro dvd_add dvd_mult2)
  then show ?thesis using tangent prime_mod_gt [OF p] valid_third by simp
next
  case (chord x1 x2 l y2 y1)
  have "\<not> modP c dvd x2 - x1" using chord v reduced_eq by fastforce
  moreover have e1: "modP c dvd y1 ^ 2 - x1 ^ 3 - coefA c * x1 - coefB c" and e2: "modP c dvd y2 ^ 2 - x2 ^ 3 - coefA c * x2 - coefB c"
    using v chord by (simp_all add: on_curve_dvd)
  have u: "modP c dvd l * (x2 - x1) - (y2 - y1)" using chord by (simp add: mod_eq_iff_dvd)
  have "modP c dvd (x2 - x1) * ((l * (x1 - (l * l - x1 - x2)) - y1) ^ 2 - (l * l - x1 - x2) ^ 3 - coefA c * (l * l - x1 - x2) - coefB c)"
    unfolding chord_identity [of x2 x1 l y1 "coefA c" "coefB c" y2]
    by (rule dvd_add [OF dvd_mult [OF e1] dvd_mult [OF dvd_diff [OF dvd_add [OF e2 dvd_mult2 [OF u]] e1]]])
  ultimately have "modP c dvd (l * (x1 - (l * l - x1 - x2)) - y1) ^ 2 - (l * l - x1 - x2) ^ 3 - coefA c * (l * l - x1 - x2) - coefB c"
    using prime_mod_dvd_mult [OF p] by blast
  then show ?thesis using chord prime_mod_gt [OF p] valid_third by simp
qed auto

text \<open>Two points with the same abscissa have equal or opposite ordinates.\<close>

lemma same_abscissa:
  assumes p: "prime_mod (modP c)" and v: "valid c (Some (x, y1))" "valid c (Some (x, y2))"
  shows "y1 = y2 \<or> (y1 + y2) mod modP c = 0"
proof -
  have "y1 * y1 mod modP c = y2 * y2 mod modP c" using v by (simp add: on_curve_def)
  then have "modP c dvd y1 * y1 - y2 * y2" by (simp only: mod_eq_iff_dvd)
  moreover have "y1 * y1 - y2 * y2 = (y1 - y2) * (y1 + y2)" by (simp add: algebra_simps)
  ultimately have "modP c dvd y1 - y2 \<or> modP c dvd y1 + y2" using prime_mod_dvd_mult [OF p] by simp
  moreover have "y1 = y2" if "modP c dvd y1 - y2" by (rule reduced_eq [of c]) (use that v in simp_all)
  ultimately show ?thesis by (auto simp: dvd_eq_mod_eq_0)
qed

lemma cancel_mod:
  assumes "prime_mod p" "\<not> p dvd d" "l * d mod p = k * d mod p" shows "p dvd l - k"
proof -
  have "p dvd (l - k) * d" using assms(3) unfolding mod_eq_iff_dvd left_diff_distrib .
  then show ?thesis using prime_mod_dvd_mult [OF assms(1)] assms(2) by blast
qed

lemma abscissa_neq: "valid c (Some (x1, y1)) \<Longrightarrow> valid c (Some (x2, y2)) \<Longrightarrow> x1 \<noteq> x2 \<Longrightarrow> \<not> modP c dvd x2 - x1"
  using reduced_eq [of c x2 x1] by auto

lemma doubled_neq: "prime_mod p \<Longrightarrow> (y + y) mod p \<noteq> 0 \<Longrightarrow> \<not> p dvd 2 * y"
  by (simp only: dvd_eq_mod_eq_0 mult_2) simp

text \<open>The sum of two points is unique and does not depend on their order.\<close>

lemma sum_unique:
  assumes p: "prime_mod (modP c)" and v: "valid c P" "valid c Q" and "curve_sum c P Q R" "curve_sum c P Q S"
  shows "R = S"
  using assms(4)
proof (cases rule: curve_sum.cases)
  case (opposite y1 y2 x)
  then show ?thesis using assms(5) by (auto elim: sum_SomeE)
next
  case (tangent y l x)
  from assms(5) tangent obtain k where k: "S = Some (third c k x y x)" "k * (2 * y) mod modP c = (3 * x * x + coefA c) mod modP c" "reduced c k"
    by (auto elim: sum_SomeE)
  have "modP c dvd l - k"
    by (rule cancel_mod [OF p doubled_neq [OF p, of y]]) (use tangent k in simp_all)
  then have "l = k" using tangent k reduced_eq by blast
  then show ?thesis using tangent k by simp
next
  case (chord x1 x2 l y2 y1)
  from assms(5) chord obtain k where k: "S = Some (third c k x1 y1 x2)" "k * (x2 - x1) mod modP c = (y2 - y1) mod modP c" "reduced c k"
    by (auto elim: sum_SomeE)
  have "modP c dvd l - k"
    by (rule cancel_mod [OF p abscissa_neq [of c x1 y1 x2 y2]]) (use v chord k in simp_all)
  then have "l = k" using chord k reduced_eq by blast
  then show ?thesis using chord k by simp
qed (use assms(5) in auto)

lemma third_commute:
  assumes "l * (x2 - x1) mod modP c = (y2 - y1) mod modP c"
  shows "third c l x2 y2 x1 = third c l x1 y1 x2"
proof -
  have "modP c dvd l * (x2 - x1) - (y2 - y1)" using assms by (simp add: mod_eq_iff_dvd)
  then have "modP c dvd (l * (x2 - (l * l - x1 - x2)) - y2) - (l * (x1 - (l * l - x1 - x2)) - y1)"
    by (simp add: algebra_simps)
  then have "(l * (x2 - (l * l - x1 - x2)) - y2) mod modP c = (l * (x1 - (l * l - x1 - x2)) - y1) mod modP c"
    by (simp only: mod_eq_iff_dvd)
  moreover have "l * l - x2 - x1 = l * l - x1 - x2" by simp
  ultimately show ?thesis by (simp only: third_mod)
qed

lemma sum_commute:
  assumes "curve_sum c P Q R" shows "curve_sum c Q P R"
  using assms
proof (cases rule: curve_sum.cases)
  case (opposite y1 y2 x)
  then show ?thesis using curve_sum.opposite [of y2 y1 c x] by (simp add: add.commute)
next
  case (tangent y l x)
  then show ?thesis using curve_sum.tangent [of y c l x] by simp
next
  case (chord x1 x2 l y2 y1)
  have "modP c dvd l * (x2 - x1) - (y2 - y1)" using chord by (simp add: mod_eq_iff_dvd)
  then have "modP c dvd l * (x1 - x2) - (y1 - y2)" by (metis dvd_minus_iff minus_diff_eq mult_minus_right minus_diff_commute)
  then have "l * (x1 - x2) mod modP c = (y1 - y2) mod modP c" by (simp add: mod_eq_iff_dvd)
  then show ?thesis using chord curve_sum.chord [of x2 x1 l c y1 y2] third_commute [of l x2 x1 c y2 y1] by simp
qed simp_all

text \<open>A slope computed as a quotient satisfies the equation of the slope.\<close>

lemma quotient_slope:
  fixes d n i p :: int
  assumes "d * i mod p = 1" "0 < p"
  shows "(n * i mod p) * d mod p = n mod p" "0 \<le> n * i mod p" "n * i mod p < p"
proof -
  have "(n * i mod p) * d mod p = n * (d * i mod p) mod p" by (simp add: mod_mult_left_eq mod_mult_right_eq ac_simps)
  then show "(n * i mod p) * d mod p = n mod p" by (simp add: assms(1))
  show "0 \<le> n * i mod p" "n * i mod p < p" using assms(2) by simp_all
qed

text \<open>The case split of the sources, with slopes divided by Fermat's inverse, computes the sum.\<close>

lemma fermat_sum:
  assumes p: "prime_mod (modP c)" and v: "valid c P" "valid c Q"
    and zero: "\<And>R. add None R = R" "\<And>R. add R None = R"
    and same: "\<And>x y1 y2. add (Some (x, y1)) (Some (x, y2)) = (if (y1 + y2) mod modP c = 0 then None
      else Some (third c ((3 * x * x + coefA c) * powmod (2 * y1) (nat (modP c - 2)) (modP c) mod modP c) x y1 x))"
    and other: "\<And>x1 y1 x2 y2. x1 \<noteq> x2 \<Longrightarrow> add (Some (x1, y1)) (Some (x2, y2)) =
      Some (third c ((y2 - y1) * powmod (x2 - x1) (nat (modP c - 2)) (modP c) mod modP c) x1 y1 x2)"
  shows "curve_sum c P Q (add P Q)"
proof (cases "P = None \<or> Q = None")
  case True
  then show ?thesis using zero by auto
next
  case False
  then obtain x1 y1 x2 y2 where P: "P = Some (x1, y1)" and Q: "Q = Some (x2, y2)" by auto
  have p0: "0 < modP c" using prime_mod_gt [OF p] by simp
  show ?thesis
  proof (cases "x1 = x2")
    case x: True
    show ?thesis
    proof (cases "(y1 + y2) mod modP c = 0")
      case True
      then show ?thesis using x same [of x1 y1 y2] by (simp add: P Q curve_sum.opposite)
    next
      case False
      then have y: "y1 = y2" using same_abscissa [OF p, of x1 y1 y2] v x by (auto simp: P Q)
      have nd: "\<not> modP c dvd 2 * y1" using doubled_neq [OF p, of y1] False y by simp
      define l where "l = (3 * x1 * x1 + coefA c) * powmod (2 * y1) (nat (modP c - 2)) (modP c) mod modP c"
      note q = quotient_slope [OF fermat_inverse [OF p nd] p0, of "3 * x1 * x1 + coefA c", folded l_def]
      have "curve_sum c (Some (x1, y1)) (Some (x1, y1)) (Some (third c l x1 y1 x1))"
        using curve_sum.tangent [of y1 c l x1] False q y by (simp add: reduced_def)
      then show ?thesis using False x y same [of x1 y1 y1] by (simp add: P Q l_def)
    qed
  next
    case x: False
    have nd: "\<not> modP c dvd x2 - x1" by (rule abscissa_neq [of c x1 y1 x2 y2]) (use v x in \<open>simp_all add: P Q\<close>)
    define l where "l = (y2 - y1) * powmod (x2 - x1) (nat (modP c - 2)) (modP c) mod modP c"
    note q = quotient_slope [OF fermat_inverse [OF p nd] p0, of "y2 - y1", folded l_def]
    have "curve_sum c (Some (x1, y1)) (Some (x2, y2)) (Some (third c l x1 y1 x2))"
      using curve_sum.chord [of x1 x2 l c y2 y1] x q by (simp add: reduced_def)
    then show ?thesis using other [OF x, of y1 y2] by (simp add: P Q l_def)
  qed
qed

section \<open>Implementations of the addition\<close>

text \<open>Double and add from the least significant bit, the loop of all four files.\<close>

function (sequential) mul_loop :: "(point \<Rightarrow> point \<Rightarrow> point res) \<Rightarrow> nat \<Rightarrow> point \<Rightarrow> point \<Rightarrow> point res" where
  "mul_loop add 0 acc pt = Inr acc"
| "mul_loop add k acc pt =
     ebind (if odd k then add acc pt else Inr acc) (\<lambda>acc'.
     ebind (add pt pt) (\<lambda>pt'. mul_loop add (k div 2) acc' pt'))"
  by pat_completeness auto
termination mul_loop by (relation "measure (\<lambda>(add, k, acc, pt). k)") simp_all

inductive mul_sum :: "curve \<Rightarrow> nat \<Rightarrow> point \<Rightarrow> point \<Rightarrow> point \<Rightarrow> bool" for c where
  stop: "mul_sum c 0 acc pt acc"
| even_bit: "0 < k \<Longrightarrow> even k \<Longrightarrow> curve_sum c pt pt pt' \<Longrightarrow> mul_sum c (k div 2) acc pt' R \<Longrightarrow> mul_sum c k acc pt R"
| odd_bit: "odd k \<Longrightarrow> curve_sum c acc pt acc' \<Longrightarrow> curve_sum c pt pt pt' \<Longrightarrow> mul_sum c (k div 2) acc' pt' R \<Longrightarrow> mul_sum c k acc pt R"

locale adder =
  fixes add :: "curve \<Rightarrow> point \<Rightarrow> point \<Rightarrow> point res"
    and ok :: "curve \<Rightarrow> bool"
  assumes add_sum: "ok c \<Longrightarrow> valid c P \<Longrightarrow> valid c Q \<Longrightarrow> \<exists>R. add c P Q = Inr R \<and> curve_sum c P Q R"
    and ok_prime: "ok c \<Longrightarrow> prime_mod (modP c)"
begin

lemma add_valid: "ok c \<Longrightarrow> valid c P \<Longrightarrow> valid c Q \<Longrightarrow> \<exists>R. add c P Q = Inr R \<and> valid c R"
  using add_sum sum_valid [OF ok_prime] by metis

lemma add_eq: "ok c \<Longrightarrow> valid c P \<Longrightarrow> valid c Q \<Longrightarrow> curve_sum c P Q R \<Longrightarrow> add c P Q = Inr R"
  using add_sum sum_unique [OF ok_prime] by metis

lemma add_commute: "ok c \<Longrightarrow> valid c P \<Longrightarrow> valid c Q \<Longrightarrow> add c P Q = add c Q P"
  using add_sum add_eq sum_commute by metis

lemma mul_loop_sum:
  assumes "ok c" "valid c acc" "valid c pt"
  shows "\<exists>R. mul_loop (add c) k acc pt = Inr R \<and> mul_sum c k acc pt R \<and> valid c R"
  using assms(2,3)
proof (induction k arbitrary: acc pt rule: less_induct)
  case (less k)
  show ?case
  proof (cases "k = 0")
    case True
    with less show ?thesis by (auto intro: mul_sum.intros)
  next
    case False
    then obtain j where j: "k = Suc j" by (cases k) auto
    obtain pt' where pt': "add c pt pt = Inr pt'" "curve_sum c pt pt pt'" "valid c pt'"
      using add_sum [OF assms(1) less.prems(2,2)] sum_valid [OF ok_prime [OF assms(1)]] less.prems by blast
    show ?thesis
    proof (cases "odd k")
      case True
      obtain acc' where acc': "add c acc pt = Inr acc'" "curve_sum c acc pt acc'" "valid c acc'"
        using add_sum [OF assms(1) less.prems(1,2)] sum_valid [OF ok_prime [OF assms(1)]] less.prems by blast
      obtain R where "mul_loop (add c) (k div 2) acc' pt' = Inr R" "mul_sum c (k div 2) acc' pt' R" "valid c R"
        using less.IH [of "k div 2" acc' pt'] False acc'(3) pt'(3) by auto
      then show ?thesis using True j acc' pt' mul_sum.odd_bit by (auto simp del: even_Suc odd_Suc_div_two)
    next
      case ev: False
      obtain R where "mul_loop (add c) (k div 2) acc pt' = Inr R" "mul_sum c (k div 2) acc pt' R" "valid c R"
        using less.IH [of "k div 2" acc pt'] False less.prems(1) pt'(3) by auto
      then show ?thesis using ev j pt' mul_sum.even_bit [of k c pt pt' acc R] by (auto simp del: even_Suc)
    qed
  qed
qed

end

lemma mul_sum_unique:
  assumes "prime_mod (modP c)" "mul_sum c k acc pt R" "mul_sum c k acc pt S" "valid c acc" "valid c pt"
  shows "R = S"
  using assms(2-5)
proof (induction arbitrary: S rule: mul_sum.induct)
  case (stop acc pt)
  then show ?case by (auto elim: mul_sum.cases)
next
  case (even_bit k pt pt' acc R)
  from even_bit.prems(1) obtain q where q: "curve_sum c pt pt q" "mul_sum c (k div 2) acc q S"
    by (cases rule: mul_sum.cases) (use even_bit.hyps in auto)
  then have "q = pt'" using sum_unique [OF assms(1) even_bit.prems(3,3)] even_bit.hyps(3) by blast
  then show ?case using even_bit q sum_valid [OF assms(1)] by blast
next
  case (odd_bit k acc pt acc' pt' R)
  from odd_bit.prems(1) obtain q r where q: "curve_sum c acc pt r" "curve_sum c pt pt q" "mul_sum c (k div 2) r q S"
    by (cases rule: mul_sum.cases) (use odd_bit.hyps in auto)
  then have "q = pt'" "r = acc'"
    using sum_unique [OF assms(1) odd_bit.prems(3,3)] sum_unique [OF assms(1) odd_bit.prems(2,3)] odd_bit.hyps(2,3) by blast+
  then show ?case using odd_bit q sum_valid [OF assms(1)] by blast
qed

section \<open>Scalars modulo the group order\<close>

definition scalar_for :: "curve \<Rightarrow> int \<Rightarrow> int \<Rightarrow> int \<Rightarrow> bool" where
  \<comment> \<open>\<open>u = t / r\<close> modulo the group order\<close>
  "scalar_for c r t u \<longleftrightarrow> 0 \<le> u \<and> u < ordN c \<and> u * r mod ordN c = t mod ordN c"

lemma scalar_for_unique:
  assumes "prime_mod (ordN c)" "\<not> ordN c dvd r" shows "scalar_for c r t u \<Longrightarrow> scalar_for c r t v \<Longrightarrow> u = v"
proof -
  assume u: "scalar_for c r t u" and v: "scalar_for c r t v"
  then have "ordN c dvd u - v" using cancel_mod [OF assms, of u v] by (simp add: scalar_for_def)
  then have "u mod ordN c = v mod ordN c" by (simp only: mod_eq_iff_dvd)
  then show "u = v" using u v by (simp add: scalar_for_def)
qed

lemma scalar_for_quotient:
  assumes n: "prime_mod (ordN c)" and r: "\<not> ordN c dvd r"
  shows "scalar_for c r t (t * powmod r (nat (ordN c - 2)) (ordN c) mod ordN c)"
  using quotient_slope [OF fermat_inverse [OF n r], of t] prime_mod_gt [OF n] by (simp add: scalar_for_def)

end
