(* ===== verification/Keccak.thy ===== *)
theory Keccak
  imports Prelude
begin

text \<open>
  Keccak-256 of \<open>tools/pyref.py\<close>.  The code keeps the 25 lanes as Python integers and masks by
  hand, so the model keeps them as \<open>int\<close>; \<open>~\<close> of a lane is negative, as in Python.  The
  specification is the permutation of FIPS 202 on 64-bit words indexed by column and row
  (theta, rho, pi, chi, iota), with the round constants given by their shift register and the
  rotation offsets by their recurrence.  The refinement says that the code's integers are the
  unsigned values of the specification's words at every step.
\<close>

section \<open>The code\<close>

definition mask64 :: int where "mask64 = push_bit 64 1 - 1"

definition RATE :: nat where "RATE = 136"

definition RC :: "int list" where
  "RC = [
    0x0000000000000001, 0x0000000000008082, 0x800000000000808A, 0x8000000080008000,
    0x000000000000808B, 0x0000000080000001, 0x8000000080008081, 0x8000000000008009,
    0x000000000000008A, 0x0000000000000088, 0x0000000080008009, 0x000000008000000A,
    0x000000008000808B, 0x800000000000008B, 0x8000000000008089, 0x8000000000008003,
    0x8000000000008002, 0x8000000000000080, 0x000000000000800A, 0x800000008000000A,
    0x8000000080008081, 0x8000000000008080, 0x0000000080000001, 0x8000000080008008]"

definition ROT :: "nat list" where
  "ROT = [0, 1, 62, 28, 27,
          36, 44, 6, 55, 20,
          3, 10, 43, 25, 39,
          41, 45, 15, 21, 8,
          18, 2, 61, 56, 14]"

definition rotl64 :: "int \<Rightarrow> nat \<Rightarrow> int" where
  "rotl64 v r = (if r \<noteq> 0 then (push_bit r v OR drop_bit (64 - r) v) AND mask64 else v)"

text \<open>One round, in the code's statements: the column parities \<open>c\<close> and \<open>d\<close>, the two assignments
  to \<open>a\<close>, and the loop that fills \<open>b\<close>.  \<open>(x - 1) % 5\<close> is written \<open>(x + 4) mod 5\<close>.\<close>

definition parity_c :: "int list \<Rightarrow> int list" where
  "parity_c a = map (\<lambda>x. a ! x XOR a ! (x + 5) XOR a ! (x + 10) XOR a ! (x + 15) XOR a ! (x + 20)) [0..<5]"

definition parity_d :: "int list \<Rightarrow> int list" where
  "parity_d c = map (\<lambda>x. c ! ((x + 4) mod 5) XOR rotl64 (c ! ((x + 1) mod 5)) 1) [0..<5]"

definition theta_a :: "int list \<Rightarrow> int list" where
  "theta_a a = (let d = parity_d (parity_c a) in map (\<lambda>i. a ! i XOR d ! (i mod 5)) [0..<25])"

definition xy_loop :: "(nat \<times> nat) list" where
  "xy_loop = concat (map (\<lambda>x. map (\<lambda>y. (x, y)) [0..<5]) [0..<5])"

definition rho_pi_b :: "int list \<Rightarrow> int list" where
  "rho_pi_b a = foldl (\<lambda>b (x, y). b[y + 5 * ((2 * x + 3 * y) mod 5) := rotl64 (a ! (x + 5 * y)) (ROT ! (x + 5 * y))])
     (replicate 25 0) xy_loop"

definition chi_a :: "int list \<Rightarrow> int list" where
  "chi_a b = map (\<lambda>i. b ! i XOR ((NOT (b ! ((i + 1) mod 5 + 5 * (i div 5)))
                                  AND b ! ((i + 2) mod 5 + 5 * (i div 5))) AND mask64)) [0..<25]"

definition keccak_round :: "int list \<Rightarrow> int \<Rightarrow> int list" where
  "keccak_round a rc = (let a = chi_a (rho_pi_b (theta_a a)) in a[0 := a ! 0 XOR rc])"

definition keccak_f1600 :: "int list \<Rightarrow> int list" where
  "keccak_f1600 a = foldl keccak_round a RC"

definition keccak_pad :: "bytes \<Rightarrow> bytes" where
  "keccak_pad data =
     (let pad_len = RATE - length data mod RATE in
      if pad_len = 1 then data @ [0x81]
      else data @ [0x01] @ replicate (pad_len - 2) 0 @ [0x80])"

definition absorb :: "int list \<Rightarrow> bytes \<Rightarrow> int list" where
  "absorb st block = keccak_f1600
     (foldl (\<lambda>st i. st[i := st ! i XOR int (from_le (bslice block (8 * i) (8 * i + 8)))]) st [0..<17])"

definition blocks :: "bytes \<Rightarrow> bytes list" where
  \<comment> \<open>\<open>msg[off:off + RATE]\<close> for \<open>off in range(0, len(msg), RATE)\<close>\<close>
  "blocks msg = map (\<lambda>k. bslice msg (RATE * k) (RATE * k + RATE)) [0..<(length msg + RATE - 1) div RATE]"

definition int_to_le :: "nat \<Rightarrow> int \<Rightarrow> bytes res" where
  "int_to_le k z = (if z < 0 then Inl OverflowError else to_le k (nat z))"

definition keccak256 :: "bytes \<Rightarrow> bytes res" where
  "keccak256 data =
     (let st = foldl absorb (replicate 25 0) (blocks (keccak_pad data)) in
      ebind (emap (int_to_le 8) (take 4 st)) (\<lambda>ls. Inr (concat ls)))"

section \<open>The specification\<close>

type_synonym lane = "64 word"
type_synonym kstate = "nat \<Rightarrow> nat \<Rightarrow> lane"

definition column :: "kstate \<Rightarrow> nat \<Rightarrow> lane" where
  "column A x = A x 0 XOR A x 1 XOR A x 2 XOR A x 3 XOR A x 4"

definition theta :: "kstate \<Rightarrow> kstate" where
  "theta A x y = A x y XOR (column A ((x + 4) mod 5) XOR word_rotl 1 (column A ((x + 1) mod 5)))"

text \<open>The offset of lane \<open>(x, y)\<close> is the triangular number of its place on the orbit of \<open>(1, 0)\<close>.\<close>

primrec orbit :: "nat \<Rightarrow> nat \<times> nat" where
  "orbit 0 = (1, 0)"
| "orbit (Suc t) = (let (x, y) = orbit t in (y, (2 * x + 3 * y) mod 5))"

definition offset :: "nat \<Rightarrow> nat \<Rightarrow> nat" where
  "offset x y = (case filter (\<lambda>t. orbit t = (x, y)) [0..<24] of [] \<Rightarrow> 0 | t # _ \<Rightarrow> (t + 1) * (t + 2) div 2 mod 64)"

definition rho :: "kstate \<Rightarrow> kstate" where
  "rho A x y = word_rotl (offset x y) (A x y)"

definition pi_step :: "kstate \<Rightarrow> kstate" where
  "pi_step A x y = A ((x + 3 * y) mod 5) x"

definition chi :: "kstate \<Rightarrow> kstate" where
  "chi A x y = A x y XOR (NOT (A ((x + 1) mod 5) y) AND A ((x + 2) mod 5) y)"

definition iota :: "lane \<Rightarrow> kstate \<Rightarrow> kstate" where
  "iota rc A x y = (if x = 0 \<and> y = 0 then A x y XOR rc else A x y)"

text \<open>The round constants: bit \<open>2 ^ j - 1\<close> of constant \<open>i\<close> is output \<open>7 i + j\<close> of the shift register.\<close>

definition lfsr_step :: "bool list \<Rightarrow> bool list" where
  "lfsr_step s =
     (let R = False # s; e = R ! 8 in
      take 8 (R[0 := R ! 0 \<noteq> e, 4 := R ! 4 \<noteq> e, 5 := R ! 5 \<noteq> e, 6 := R ! 6 \<noteq> e]))"

primrec lfsr :: "nat \<Rightarrow> bool list \<Rightarrow> bool list" where
  \<comment> \<open>the first \<open>n\<close> outputs\<close>
  "lfsr 0 s = []"
| "lfsr (Suc n) s = s ! 0 # lfsr n (lfsr_step s)"

definition lfsr_bits :: "bool list" where
  "lfsr_bits = lfsr 168 [True, False, False, False, False, False, False, False]"

definition round_constant :: "nat \<Rightarrow> int" where
  "round_constant i = (\<Sum>j\<leftarrow>[0..<7]. if lfsr_bits ! (7 * i + j) then 2 ^ (2 ^ j - 1) else 0)"

definition spec_round :: "nat \<Rightarrow> kstate \<Rightarrow> kstate" where
  "spec_round i A = iota (word_of_int (round_constant i)) (chi (pi_step (rho (theta A))))"

definition spec_f :: "kstate \<Rightarrow> kstate" where
  "spec_f A = fold spec_round [0..<24] A"

definition spec_xor_block :: "kstate \<Rightarrow> bytes \<Rightarrow> kstate" where
  "spec_xor_block A block x y =
     (if x + 5 * y < 17 then A x y XOR word_of_nat (from_le (bslice block (8 * (x + 5 * y)) (8 * (x + 5 * y) + 8)))
      else A x y)"

definition spec_state :: "bytes \<Rightarrow> kstate" where
  "spec_state data = foldl (\<lambda>A block. spec_f (spec_xor_block A block)) (\<lambda>x y. 0) (blocks (keccak_pad data))"

definition keccak256_spec :: "bytes \<Rightarrow> bytes" where
  "keccak256_spec data = concat (map (\<lambda>x. le_fix 8 (unat (spec_state data x 0))) [0..<4])"

section \<open>Lanes and words\<close>

lemma mask64_mask: "mask64 = mask 64"
  by (simp add: mask64_def mask_eq_exp_minus_1 push_bit_eq_mult)

lemma rotl64_uint:
  assumes "r < 64"
  shows "rotl64 (uint (w::lane)) r = uint (word_rotl r w)"
proof (cases "r = 0")
  case False
  have "bit (rotl64 (uint w) r) n = bit (uint (word_rotl r w)) n" for n
  proof (cases "n < 64")
    case True
    have "(n + (64 - r)) mod 64 = (if n < r then 64 - r + n else n - r)"
      using assms True by (auto simp: mod_if)
    with True False assms show ?thesis
      by (auto simp: rotl64_def mask64_mask bit_simps dest: bit_imp_le_length)
  qed (simp add: rotl64_def False mask64_mask bit_simps)
  then show ?thesis by (simp add: bit_eq_iff)
next
  case True
  then show ?thesis by (simp add: rotl64_def) (transfer, simp)
qed

lemma uint_not_and: "(NOT (uint v) AND uint w) AND mask64 = uint (NOT v AND w :: lane)"
  by (simp add: bit_eq_iff bit_simps mask64_mask) (auto dest: bit_imp_le_length)

lemma uint_xor_lane: "uint (v XOR w :: lane) = uint v XOR uint w"
  by (rule unsigned_xor_eq)

section \<open>The tables\<close>

lemma upt5: "[0..<5] = [0, 1, 2, 3, 4]"
  and upt25: "[0..<25] = [0, 1, 2, 3, 4, 5, 6, 7, 8, 9, 10, 11, 12, 13, 14, 15, 16, 17, 18, 19, 20, 21, 22, 23, 24]"
  by code_simp+

lemma lfsr_bits_code [code]: "lfsr_bits =
[True, False, False, False, False, False, False, False, True, False, True, True, False, False,
False, True, True, True, True, False, True, False, False, False, False, True, True, True, True,
True, True, True, True, False, False, True, False, False, False, False, True, False, True, False,
False, True, True, True, True, True, False, True, False, True, False, True, False, True, True, True,
False, False, False, False, False, True, True, False, False, False, True, False, True, False, True,
True, False, False, True, True, False, False, True, False, True, True, True, True, True, True,
False, True, True, True, True, False, False, True, True, False, True, True, True, False, True, True,
True, False, False, True, False, True, False, True, False, False, True, False, True, False, False,
False, True, False, False, True, False, True, True, False, True, False, False, False, True, True,
False, False, True, True, True, False, False, True, True, True, True, False, False, False, True,
True, False, True, True, False, False, False, False, True, False, False, False, True, False, True,
True, True]"
  by code_simp

lemma RC_round_constant: "RC = map round_constant [0..<24]"
  by code_simp

lemma ROT_offset: "x < 5 \<Longrightarrow> y < 5 \<Longrightarrow> ROT ! (x + 5 * y) = offset x y"
proof -
  have "\<forall>x\<in>set [0..<5]. \<forall>y\<in>set [0..<5]. ROT ! (x + 5 * y) = offset x y" by code_simp
  then show "x < 5 \<Longrightarrow> y < 5 \<Longrightarrow> ROT ! (x + 5 * y) = offset x y" by simp
qed

section \<open>Refinement of the round\<close>

definition lanes_of :: "kstate \<Rightarrow> int list" where
  "lanes_of A = map (\<lambda>i. uint (A (i mod 5) (i div 5))) [0..<25]"

lemma length_lanes_of [simp]: "length (lanes_of A) = 25"
  by (simp add: lanes_of_def)

lemma lanes_of_nth [simp]: "i < 25 \<Longrightarrow> lanes_of A ! i = uint (A (i mod 5) (i div 5))"
  by (simp add: lanes_of_def)

lemma lanes_of_cong: "(\<And>x y. x < 5 \<Longrightarrow> y < 5 \<Longrightarrow> A x y = B x y) \<Longrightarrow> lanes_of A = lanes_of B"
  by (auto simp: lanes_of_def)

lemma lanes_eqI: "length xs = 25 \<Longrightarrow> (\<And>x y. x < 5 \<Longrightarrow> y < 5 \<Longrightarrow> xs ! (x + 5 * y) = uint (A x y)) \<Longrightarrow> xs = lanes_of A"
proof (rule nth_equalityI)
  fix i assume "length xs = 25" "i < length xs"
    and "\<And>x y. x < 5 \<Longrightarrow> y < 5 \<Longrightarrow> xs ! (x + 5 * y) = uint (A x y)"
  from this(3) [of "i mod 5" "i div 5"] this(1,2) show "xs ! i = lanes_of A ! i" by simp
qed simp

lemma parity_c_lanes: "parity_c (lanes_of A) = map (\<lambda>x. uint (column A x)) [0..<5]"
  by (simp add: parity_c_def column_def uint_xor_lane upt5)

lemma theta_lanes: "theta_a (lanes_of A) = lanes_of (theta A)"
proof (rule lanes_eqI)
  fix x y :: nat assume "x < 5" "y < 5"
  then show "theta_a (lanes_of A) ! (x + 5 * y) = uint (theta A x y)"
    by (simp add: theta_a_def parity_c_lanes parity_d_def theta_def uint_xor_lane rotl64_uint)
qed (simp add: theta_a_def)

lemma xy_loop_eq: "xy_loop = [(0, 0), (0, 1), (0, 2), (0, 3), (0, 4), (1, 0), (1, 1), (1, 2), (1, 3), (1, 4), (2, 0), (2, 1), (2, 2), (2, 3), (2, 4), (3, 0), (3, 1), (3, 2), (3, 3), (3, 4), (4, 0), (4, 1), (4, 2), (4, 3), (4, 4)]"
  and zero25: "replicate 25 (0::int) = [0, 0, 0, 0, 0, 0, 0, 0, 0, 0, 0, 0, 0, 0, 0, 0, 0, 0, 0, 0, 0, 0, 0, 0, 0]"
  by code_simp+

lemma rho_pi_b_eq:
  "rho_pi_b a = map (\<lambda>i. let s = (i mod 5 + 3 * (i div 5)) mod 5 + 5 * (i mod 5) in rotl64 (a ! s) (ROT ! s)) [0..<25]"
  by (simp add: rho_pi_b_def xy_loop_eq zero25 upt25 Let_def)

lemma ROT_less: "s < 25 \<Longrightarrow> ROT ! s < 64"
proof -
  have "\<forall>s\<in>set [0..<25]. ROT ! s < 64" by code_simp
  then show "s < 25 \<Longrightarrow> ROT ! s < 64" by simp
qed

lemma rho_pi_lanes: "rho_pi_b (lanes_of A) = lanes_of (pi_step (rho A))"
proof (rule lanes_eqI)
  fix X Y :: nat assume "X < 5" "Y < 5"
  define x where "x = (X + 3 * Y) mod 5"
  have x: "x < 5" "x + 5 * X < 25" using \<open>X < 5\<close> by (auto simp: x_def)
  have "rho_pi_b (lanes_of A) ! (X + 5 * Y) = rotl64 (uint (A x X)) (ROT ! (x + 5 * X))"
    using x \<open>X < 5\<close> \<open>Y < 5\<close> by (simp add: rho_pi_b_eq x_def)
  then show "rho_pi_b (lanes_of A) ! (X + 5 * Y) = uint (pi_step (rho A) X Y)"
    using x \<open>X < 5\<close> ROT_less [OF x(2)] by (simp add: rotl64_uint ROT_offset pi_step_def rho_def flip: x_def)
qed (simp add: rho_pi_b_eq)

lemma chi_lanes: "chi_a (lanes_of A) = lanes_of (chi A)"
proof (rule lanes_eqI)
  fix x y :: nat assume "x < 5" "y < 5"
  moreover have "Suc (Suc (x + 5 * y)) mod 5 = Suc (Suc x) mod 5" by presburger
  ultimately show "chi_a (lanes_of A) ! (x + 5 * y) = uint (chi A x y)"
    by (simp add: chi_a_def chi_def uint_xor_lane uint_not_and)
qed (simp add: chi_a_def)

lemma round_constant_bounds: "i < 24 \<Longrightarrow> uint (word_of_int (round_constant i) :: lane) = round_constant i"
proof -
  have "\<forall>i\<in>set [0..<24]. round_constant i mod 2 ^ 64 = round_constant i" by code_simp
  then show "i < 24 \<Longrightarrow> uint (word_of_int (round_constant i) :: lane) = round_constant i"
    by (simp add: uint_word_of_int)
qed

lemma keccak_round_lanes:
  "i < 24 \<Longrightarrow> keccak_round (lanes_of A) (round_constant i) = lanes_of (spec_round i A)"
  by (rule lanes_eqI)
    (auto simp: keccak_round_def Let_def theta_lanes rho_pi_lanes chi_lanes nth_list_update spec_round_def
      iota_def uint_xor_lane round_constant_bounds)

lemma keccak_f1600_lanes: "keccak_f1600 (lanes_of A) = lanes_of (spec_f A)"
proof -
  have "foldl keccak_round (lanes_of A) (map round_constant is) = lanes_of (fold spec_round is A)"
    if "set is \<subseteq> {..<24}" for "is"
    using that by (induction "is" arbitrary: A) (simp_all add: keccak_round_lanes)
  from this [of "[0..<24]"] show ?thesis
    by (simp add: keccak_f1600_def spec_f_def RC_round_constant atLeast0LessThan)
qed

section \<open>Refinement of the sponge\<close>

lemma xor_loop:
  assumes "n \<le> length st"
  shows "length (foldl (\<lambda>st i. st[i := st ! i XOR f i]) st [0..<n]) = length st \<and>
    (\<forall>j<length st. foldl (\<lambda>st i. st[i := st ! i XOR f i]) st [0..<n] ! j
       = (if j < n then st ! j XOR f j else st ! j))"
  using assms by (induction n) (auto simp: nth_list_update)

lemma uint_word_of_nat_lane: "n < 2 ^ 64 \<Longrightarrow> uint (word_of_nat n :: lane) = int n"
  by (simp add: unsigned_of_nat take_bit_eq_mod)

lemma from_le_lane:
  "uint (word_of_nat (from_le (bslice b i (i + 8))) :: lane) = int (from_le (bslice b i (i + 8)))"
proof (rule uint_word_of_nat_lane)
  have "from_le (bslice b i (i + 8)) < 256 ^ length (bslice b i (i + 8))" by (rule from_le_less)
  also have "\<dots> \<le> 256 ^ 8" by (rule power_increasing) auto
  finally show "from_le (bslice b i (i + 8)) < 2 ^ 64" by simp
qed

lemma absorb_lanes: "absorb (lanes_of A) block = lanes_of (spec_f (spec_xor_block A block))"
proof -
  let ?f = "\<lambda>i. int (from_le (bslice block (8 * i) (8 * i + 8)))"
  let ?st = "foldl (\<lambda>st i. st[i := st ! i XOR ?f i]) (lanes_of A) [0..<17]"
  have "?st = lanes_of (spec_xor_block A block)"
    using xor_loop [of 17 "lanes_of A" ?f]
    by (intro lanes_eqI)
      (auto simp: spec_xor_block_def uint_xor_lane from_le_lane)
  then show ?thesis by (simp add: absorb_def keccak_f1600_lanes)
qed

lemma zero_lanes: "replicate 25 0 = lanes_of (\<lambda>x y. 0)"
  by (rule lanes_eqI) auto

lemma absorb_all_lanes:
  "foldl absorb (lanes_of A) bs = lanes_of (foldl (\<lambda>A block. spec_f (spec_xor_block A block)) A bs)"
  by (induction bs arbitrary: A) (simp_all add: absorb_lanes)

lemma lane_bytes: "int_to_le 8 (uint (w::lane)) = Inr (le_fix 8 (unat w))"
  using unsigned_less [of w, where 'a = nat] by (simp add: int_to_le_def to_le_def)

theorem keccak256_spec: "keccak256 data = Inr (keccak256_spec data)"
proof -
  have "take 4 (lanes_of A) = map (\<lambda>x. uint (A x 0)) [0..<4]" for A
    by (rule nth_equalityI) simp_all
  then have "emap (int_to_le 8) (take 4 (lanes_of A)) = Inr (map (\<lambda>x. le_fix 8 (unat (A x 0))) [0..<4])" for A
    by (simp add: upt_rec lane_bytes)
  then show ?thesis
    by (simp add: keccak256_def keccak256_spec_def spec_state_def zero_lanes absorb_all_lanes)
qed

lemma length_keccak256_spec: "length (keccak256_spec data) = 32"
  by (simp add: keccak256_spec_def upt_rec)

interpretation keccak: digest keccak256 32
  by unfold_locales (simp add: keccak256_spec length_keccak256_spec)

section \<open>Padding\<close>

lemma RATE_pos [simp]: "0 < RATE" by (simp add: RATE_def)

lemma length_keccak_pad: "length (keccak_pad data) = length data div RATE * RATE + RATE"
proof -
  have "length data mod RATE < RATE" by simp
  moreover have "length (keccak_pad data) = length data + (RATE - length data mod RATE)"
    by (auto simp: keccak_pad_def Let_def) (simp add: RATE_def; presburger)
  ultimately show ?thesis using div_mult_mod_eq [of "length data" RATE] by linarith
qed

lemma keccak_pad_suffix:
  "keccak_pad data = data @ [0x81] \<or> (\<exists>k. keccak_pad data = data @ [0x01] @ replicate k 0 @ [0x80])"
  by (auto simp: keccak_pad_def Let_def)

lemma zeros_one: "replicate j 0 @ 1 # us = replicate k 0 @ (1::byte) # vs \<Longrightarrow> us = vs"
proof (induction j arbitrary: k)
  case 0
  then show ?case by (cases k) auto
next
  case (Suc j)
  then show ?case by (cases k) auto
qed

lemma pad_inj:
  assumes "xs @ (1::byte) # replicate j 0 = ys @ 1 # replicate k 0"
  shows "xs = ys"
  using zeros_one [of j "rev xs" k "rev ys"] arg_cong [OF assms, of rev] by simp

lemma keccak_pad_inj: "keccak_pad x = keccak_pad y \<Longrightarrow> x = y"
  using keccak_pad_suffix [of x] keccak_pad_suffix [of y]
  by (auto dest: pad_inj)

section \<open>Properties\<close>

text \<open>C5: The permutation computes Keccak-f[1600] of FIPS 202: on integers that are the unsigned values of 64-bit
  lanes, its masked integer arithmetic, its round constant table and its rotation table give the lanes after theta,
  rho, pi, chi and iota, with the constants of the shift register and the triangular offsets.\<close>

theorem keccak_f1600_refines: "keccak_f1600 (lanes_of A) = lanes_of (spec_f A)"
  by (rule keccak_f1600_lanes)


text \<open>The padding fills a whole number of blocks, at most one more than the data needs, and two messages have the
  same padded form only if they are equal.\<close>

theorem keccak_pad_injective:
  "(keccak_pad x = keccak_pad y \<longleftrightarrow> x = y) \<and> length (keccak_pad x) = length x div RATE * RATE + RATE"
  using keccak_pad_inj length_keccak_pad by blast

end
