(* ===== verification/Secp.thy ===== *)
theory Secp
  imports Curve Keccak
begin

text \<open>
  The secp256k1 oracle of \<open>tools/gen_secp_vectors.py\<close>: point arithmetic with Fermat inverses,
  public-key recovery, the address of a key, textbook signing, and the record that \<open>main\<close> writes
  per case.  The curve has no linear term, which the code uses in \<open>curve_dbl\<close>.  Points are
  \<open>Some (x, y)\<close>, the identity is \<open>None\<close>; the error strings of \<open>recover\<close> are the left summand.
\<close>

definition secp256k1 :: curve where
  "secp256k1 = \<lparr>modP = 2 ^ 256 - 2 ^ 32 - 977,
     ordN = 0xFFFFFFFFFFFFFFFFFFFFFFFFFFFFFFFEBAAEDCE6AF48A03BBFD25E8CD0364141, coefA = 0, coefB = 7,
     gen = (0x79BE667EF9DCBBAC55A06295CE870B07029BFCDB2DCE28D959F2815B16F81798,
            0x483ADA7726A3C4655DA4FBFC0E1108A8FD17B448A68554199C47D08FFB10D4B8)\<rparr>"

section \<open>Points\<close>

definition curve_add :: "curve \<Rightarrow> int \<Rightarrow> int \<Rightarrow> int \<Rightarrow> int \<Rightarrow> int \<times> int" where
  "curve_add c x1 y1 x2 y2 =
     (let lam = (y2 - y1) * powmod (x2 - x1) (nat (modP c - 2)) (modP c) mod modP c;
          x3 = (lam * lam - x1 - x2) mod modP c;
          y3 = (lam * (x1 - x3) - y1) mod modP c in (x3, y3))"

definition curve_dbl :: "curve \<Rightarrow> int \<Rightarrow> int \<Rightarrow> int \<times> int" where
  "curve_dbl c x1 y1 =
     (let lam = 3 * x1 * x1 * powmod (2 * y1) (nat (modP c - 2)) (modP c) mod modP c;
          x3 = (lam * lam - 2 * x1) mod modP c;
          y3 = (lam * (x1 - x3) - y1) mod modP c in (x3, y3))"

fun point_add :: "curve \<Rightarrow> point \<Rightarrow> point \<Rightarrow> point" where
  "point_add c None p2 = p2"
| "point_add c p1 None = p1"
| "point_add c (Some (x1, y1)) (Some (x2, y2)) =
     (if x1 = x2 then
        if (y1 + y2) mod modP c = 0 then None else Some (curve_dbl c x1 y1)
      else Some (curve_add c x1 y1 x2 y2))"

text \<open>The \<open>for\<close> loop of \<open>scalar_mul\<close> with the iterations that are left.\<close>

fun scalar_loop :: "curve \<Rightarrow> nat \<Rightarrow> nat \<Rightarrow> point \<Rightarrow> point \<Rightarrow> point" where
  "scalar_loop c 0 k acc pt = acc"
| "scalar_loop c (Suc i) k acc pt =
     (if k = 0 then acc
      else scalar_loop c i (k div 2) (if k mod 2 = 1 then point_add c acc pt else acc) (point_add c pt pt))"

definition scalar_mul :: "curve \<Rightarrow> nat \<Rightarrow> point \<Rightarrow> point" where
  "scalar_mul c k pt = scalar_loop c 256 k None pt"

section \<open>Recovery\<close>

definition sqrt_cand :: "curve \<Rightarrow> int \<Rightarrow> int" where
  "sqrt_cand c a = powmod a (nat ((modP c + 1) div 4)) (modP c)"

definition decompress_r :: "curve \<Rightarrow> int \<Rightarrow> nat \<Rightarrow> string + (int \<times> int)" where
  "decompress_r c r recid =
     (let x = r + (if (recid div 2) mod 2 = 1 then ordN c else 0) in
      if modP c \<le> x then Inl ''xOutOfRange''
      else let rhs = (x * x mod modP c * x + coefB c) mod modP c; y0 = sqrt_cand c rhs in
      if y0 * y0 mod modP c \<noteq> rhs then Inl ''xNotSquare''
      else Inr (x, if y0 mod 2 = int (recid mod 2) then y0 else (modP c - y0) mod modP c))"

definition recover :: "curve \<Rightarrow> int \<Rightarrow> int \<Rightarrow> int \<Rightarrow> nat \<Rightarrow> string + (int \<times> int)" where
  "recover c e r s recid =
     (if r = 0 \<or> ordN c \<le> r then Inl ''rOutOfRange''
      else if s = 0 \<or> ordN c \<le> s then Inl ''sOutOfRange''
      else case decompress_r c r recid of Inl msg \<Rightarrow> Inl msg | Inr rpt \<Rightarrow>
        let rinv = powmod r (nat (ordN c - 2)) (ordN c);
            u1 = (ordN c - e mod ordN c) mod ordN c * rinv mod ordN c;
            u2 = s mod ordN c * rinv mod ordN c in
        case point_add c (scalar_mul c (nat u1) (Some (gen c))) (scalar_mul c (nat u2) (Some rpt)) of
          None \<Rightarrow> Inl ''atInfinity'' | Some q \<Rightarrow> Inr q)"

definition address_of_point :: "int \<times> int \<Rightarrow> bytes res" where
  "address_of_point q =
     ebind (int_to_be 32 (fst q)) (\<lambda>x. ebind (int_to_be 32 (snd q)) (\<lambda>y.
     ebind (keccak256 (x @ y)) (\<lambda>h. Inr (drop 12 h))))"

definition ecrecover_address :: "curve \<Rightarrow> int \<Rightarrow> nat \<Rightarrow> int \<Rightarrow> int \<Rightarrow> bytes option res" where
  "ecrecover_address c h v r s =
     (if v = 27 \<or> v = 28 then
        case recover c h r s (v - 27) of Inl _ \<Rightarrow> Inr None
        | Inr q \<Rightarrow> ebind (address_of_point q) (\<lambda>a. Inr (Some a))
      else Inr None)"

section \<open>Signing\<close>

definition sign :: "curve \<Rightarrow> int \<Rightarrow> int \<Rightarrow> nat \<Rightarrow> (int \<times> int \<times> nat) option" where
  "sign c d e k =
     (case scalar_mul c k (Some (gen c)) of None \<Rightarrow> None | Some R \<Rightarrow>
        let r = fst R mod ordN c;
            s = powmod (int k) (nat (ordN c - 2)) (ordN c) * (e + r * d) mod ordN c in
        if r = 0 \<or> s = 0 then None
        else Some (r, s, (if odd (snd R) then 1 else 0) + (if ordN c \<le> fst R then 2 else 0)))"

definition pubkey :: "curve \<Rightarrow> nat \<Rightarrow> point" where
  "pubkey c d = scalar_mul c d (Some (gen c))"

section \<open>Records\<close>

text \<open>One iteration of \<open>main\<close>: what it appends to \<open>blob\<close> and to \<open>exp\<close>.\<close>

definition case_input :: "bytes \<times> int \<times> int \<times> nat \<Rightarrow> bytes res" where
  "case_input cs = (case cs of (hash32, r, s, recid) \<Rightarrow>
     ebind (int_to_be 32 r) (\<lambda>rb. ebind (int_to_be 32 s) (\<lambda>sb. ebind (pack_u64 recid) (\<lambda>id.
       Inr (hash32 @ rb @ sb @ id)))))"

definition point_record :: "string + (int \<times> int) \<Rightarrow> bytes res" where
  "point_record res = (case res of
       Inl _ \<Rightarrow> ebind (pack_u64 0) (\<lambda>z. Inr (z @ zeros 64))
     | Inr q \<Rightarrow> ebind (pack_u64 1) (\<lambda>o1. ebind (int_to_be 32 (fst q)) (\<lambda>x. ebind (int_to_be 32 (snd q)) (\<lambda>y.
         Inr (o1 @ x @ y)))))"

definition address_record :: "bytes option \<Rightarrow> bytes res" where
  "address_record addr = (case addr of
       None \<Rightarrow> ebind (pack_u64 0) (\<lambda>z. Inr (z @ zeros 32))
     | Some a \<Rightarrow> ebind (pack_u64 1) (\<lambda>o1. Inr (o1 @ a @ zeros 12)))"

definition case_expected :: "curve \<Rightarrow> bytes \<times> int \<times> int \<times> nat \<Rightarrow> bytes res" where
  "case_expected c cs = (case cs of (hash32, r, s, recid) \<Rightarrow>
     let e = int (from_be hash32); res = recover c e r s recid in
     ebind (ecrecover_address c e (recid + 27) r s) (\<lambda>addr.
     ebind (point_record res) (\<lambda>a. ebind (address_record addr) (\<lambda>b. Inr (a @ b)))))"

definition vectors :: "curve \<Rightarrow> (bytes \<times> int \<times> int \<times> nat) list \<Rightarrow> (bytes \<times> bytes) res" where
  \<comment> \<open>the two files that \<open>main\<close> writes for a list of cases\<close>
  "vectors c cases =
     ebind (emap (\<lambda>cs. ebind (case_input cs) (\<lambda>i. ebind (case_expected c cs) (\<lambda>e. Inr (i, e)))) cases) (\<lambda>rs.
     let blob = concat (map fst rs) in
     ebind (pack_u64 (length blob)) (\<lambda>n.
       Inr (n @ blob @ zeros (nat ((- (8 + int (length blob))) mod 8)), concat (map snd rs))))"

section \<open>The addition is the chord-and-tangent rule\<close>

lemma Some_third_dbl: "Some (curve_dbl c x y) = Some (third c (3 * x * x * powmod (2 * y) (nat (modP c - 2)) (modP c) mod modP c) x y x)"
  by (simp add: curve_dbl_def third_def Let_def)

lemma Some_third_add: "Some (curve_add c x1 y1 x2 y2) =
    Some (third c ((y2 - y1) * powmod (x2 - x1) (nat (modP c - 2)) (modP c) mod modP c) x1 y1 x2)"
  by (simp add: curve_add_def third_def Let_def)

lemma point_add_sum:
  assumes p: "prime_mod (modP c)" and a: "coefA c = 0" and v: "valid c P" "valid c Q"
  shows "curve_sum c P Q (point_add c P Q)"
proof (rule fermat_sum [OF p v])
  show "point_add c R None = R" for R by (cases R) simp_all
qed (simp_all add: a Some_third_dbl [unfolded option.inject] Some_third_add [unfolded option.inject])

interpretation secp: adder "\<lambda>c P Q. Inr (point_add c P Q)" "\<lambda>c. prime_mod (modP c) \<and> coefA c = 0"
  by unfold_locales (auto intro: point_add_sum)

text \<open>The fuel of the loop is the number of bits that it can process.\<close>

lemma scalar_loop_mul_loop:
  "k < 2 ^ i \<Longrightarrow> mul_loop (\<lambda>P Q. Inr (point_add c P Q)) k acc pt = Inr (scalar_loop c i k acc pt)"
proof (induction i arbitrary: k acc pt)
  case (Suc i)
  show ?case
  proof (cases k)
    case (Suc j)
    have "k div 2 < 2 ^ i" using Suc.prems by auto
    from Suc.IH [OF this] Suc show ?thesis by (auto simp: odd_iff_mod_2_eq_one simp del: odd_Suc_div_two even_Suc_div_two)
  qed simp
qed simp

lemma scalar_mul_mul_loop:
  "k < 2 ^ 256 \<Longrightarrow> mul_loop (\<lambda>P Q. Inr (point_add c P Q)) k None pt = Inr (scalar_mul c k pt)"
  by (simp add: scalar_mul_def scalar_loop_mul_loop)

lemma scalar_mul_sum:
  assumes "prime_mod (modP c)" "coefA c = 0" "valid c pt" "k < 2 ^ 256"
  shows "mul_sum c k None pt (scalar_mul c k pt)" "valid c (scalar_mul c k pt)"
  using secp.mul_loop_sum [of c None pt k] scalar_mul_mul_loop [OF assms(4), of c pt] assms by auto

section \<open>Decompression\<close>

lemma odd_prime: "p mod 4 = 3 \<Longrightarrow> odd p" for p :: int
  by presburger

lemma parity_neg: "odd p \<Longrightarrow> z mod 2 = int (k mod 2) \<or> (p - z) mod 2 = int (k mod 2)" for p z :: int
  by presburger

lemma opposite_root:
  assumes "prime_mod p" "y * y mod p = z * z mod p" "0 \<le> y" "y < p" "0 \<le> z" "z < p"
  shows "y = z \<or> y = (p - z) mod p"
proof -
  have "p dvd y * y - z * z" using assms(2) by (simp only: mod_eq_iff_dvd)
  moreover have "y * y - z * z = (y - z) * (y + z)" by (simp add: algebra_simps)
  ultimately have "p dvd y - z \<or> p dvd y + z" using prime_mod_dvd_mult [OF assms(1)] by simp
  moreover have "y = z" if "p dvd y - z"
  proof -
    have "y mod p = z mod p" using that by (simp only: mod_eq_iff_dvd)
    then show ?thesis using assms by simp
  qed
  moreover have "y = (p - z) mod p" if "p dvd y + z"
  proof -
    have "p dvd y - (p - z)" using that dvd_diff [OF that dvd_refl] by (simp add: algebra_simps)
    then have "y mod p = (p - z) mod p" by (simp only: mod_eq_iff_dvd)
    then show ?thesis using assms by simp
  qed
  ultimately show ?thesis by blast
qed

definition recid_x :: "curve \<Rightarrow> int \<Rightarrow> nat \<Rightarrow> int" where
  "recid_x c r recid = r + (if (recid div 2) mod 2 = 1 then ordN c else 0)"

lemma decompress_r_Inr:
  assumes p: "prime_mod (modP c)" "modP c mod 4 = 3" and a: "coefA c = 0" and r: "0 \<le> r" "0 \<le> ordN c"
  shows "decompress_r c r recid = Inr (x, y) \<longleftrightarrow>
    x = recid_x c r recid \<and> valid c (Some (x, y)) \<and> (y = 0 \<or> y mod 2 = int (recid mod 2))"
proof -
  define X where "X = recid_x c r recid"
  define rhs where "rhs = (X * X mod modP c * X + coefB c) mod modP c"
  define y0 where "y0 = sqrt_cand c rhs"
  have p1: "1 < modP c" using p(1) by (rule prime_mod_gt)
  have X0: "0 \<le> X" using r by (simp add: X_def recid_x_def)
  have y0: "0 \<le> y0" "y0 < modP c" using p1 by (simp_all add: y0_def sqrt_cand_def powmod_def)
  have oc: "on_curve c X z \<longleftrightarrow> z * z mod modP c = rhs" for z

  proof -
    have "rhs = (X * X * X + coefB c) mod modP c" unfolding rhs_def by (intro mod_add_cong mod_mult_cong) simp_all
    then show ?thesis by (simp add: on_curve_def a)
  qed
  have root: "y0 * y0 mod modP c = rhs" if "z * z mod modP c = rhs" for z
  proof -
    have "rhs mod modP c = z * z mod modP c" by (simp add: that [symmetric])
    from sqrt_powmod [OF p this] that show ?thesis by (auto simp: y0_def sqrt_cand_def)
  qed
  have code: "decompress_r c r recid =
      (if modP c \<le> X then Inl ''xOutOfRange'' else if y0 * y0 mod modP c \<noteq> rhs then Inl ''xNotSquare''
       else Inr (X, if y0 mod 2 = int (recid mod 2) then y0 else (modP c - y0) mod modP c))"
    by (simp only: decompress_r_def Let_def X_def recid_x_def rhs_def y0_def)
  define neg where "neg = (modP c - y0) mod modP c"
  have neg: "neg = 0 \<and> y0 = 0 \<or> y0 \<noteq> 0 \<and> neg = modP c - y0"

  proof (cases "y0 = 0")
    case False
    then have "neg = modP c - y0" unfolding neg_def using y0 by (intro mod_pos_pos_trivial) simp_all
    with False show ?thesis by simp
  qed (simp add: neg_def)
  have odd: "odd (modP c)" using p(2) by (rule odd_prime)
  have neg2: "neg * neg mod modP c = y0 * y0 mod modP c"
  proof -
    have "neg * neg mod modP c = (modP c - y0) * (modP c - y0) mod modP c" unfolding neg_def by (rule mod_mult_eq)
    also have "(modP c - y0) * (modP c - y0) = y0 * y0 + modP c * (modP c - 2 * y0)" by (simp add: algebra_simps)
    finally show ?thesis by (simp only: mod_mult_self2)
  qed
  show ?thesis
  proof
    assume "decompress_r c r recid = Inr (x, y)"
    then have x: "X < modP c" "x = X" "y0 * y0 mod modP c = rhs" and y: "y = (if y0 mod 2 = int (recid mod 2) then y0 else neg)"
      by (auto simp: code neg_def split: if_splits)
    have "y * y mod modP c = rhs" using y x(3) neg2 by simp
    moreover have "0 \<le> y" "y < modP c" using y y0 p1 by (auto simp: neg_def)
    moreover have "y = 0 \<or> y mod 2 = int (recid mod 2)"
    proof (cases "y0 mod 2 = int (recid mod 2) \<or> neg = 0")
      case False
      then have "y = modP c - y0" using y neg by simp
      then show ?thesis using False odd by (simp add: zmod_int) presburger
    qed (use y in auto)
    ultimately show "x = recid_x c r recid \<and> valid c (Some (x, y)) \<and> (y = 0 \<or> y mod 2 = int (recid mod 2))"
      using x X0 oc by (simp add: X_def [symmetric] reduced_def)
  next
    assume h: "x = recid_x c r recid \<and> valid c (Some (x, y)) \<and> (y = 0 \<or> y mod 2 = int (recid mod 2))"
    then have x: "x = X" "X < modP c" and y: "0 \<le> y" "y < modP c" "y * y mod modP c = rhs"
      using oc by (auto simp: X_def reduced_def)
    have r0: "y0 * y0 mod modP c = rhs" by (rule root [OF y(3)])
    have "y = y0 \<or> y = neg" using opposite_root [OF p(1) _ y(1,2) y0] y(3) r0 by (simp add: neg_def)
    then have "y = (if y0 mod 2 = int (recid mod 2) then y0 else neg)"
    proof
      assume "y = y0"
      then show ?thesis using h neg by auto
    next
      assume n: "y = neg"
      show ?thesis
      proof (cases "y0 = 0")
        case False
        then have "y = modP c - y0" "y \<noteq> 0" using n neg y0 by auto
        then have "(modP c - y0) mod 2 = int (recid mod 2)" using h by simp
        then have "y0 mod 2 \<noteq> int (recid mod 2)" using odd by presburger
        then show ?thesis using n by simp
      qed (use n neg in simp)
    qed
    then show "decompress_r c r recid = Inr (x, y)" using x r0 by (simp add: code neg_def)
  qed
qed

section \<open>Recovery solves the verification equation\<close>

text \<open>What the curve parameters have to satisfy.\<close>

definition curve_ok :: "curve \<Rightarrow> bool" where
  "curve_ok c \<longleftrightarrow> prime_mod (modP c) \<and> modP c mod 4 = 3 \<and> coefA c = 0 \<and> prime_mod (ordN c) \<and> ordN c \<le> 2 ^ 256 \<and>
     valid c (Some (gen c))"

lemma scalar_for_code:
  assumes n: "prime_mod (ordN c)" and r: "\<not> ordN c dvd r"
  shows "scalar_for c r s (s mod ordN c * powmod r (nat (ordN c - 2)) (ordN c) mod ordN c)"
    "scalar_for c r (- e) ((ordN c - e mod ordN c) mod ordN c * powmod r (nat (ordN c - 2)) (ordN c) mod ordN c)"
proof -
  have n0: "0 < ordN c" using prime_mod_gt [OF n] by simp
  note q = quotient_slope [OF fermat_inverse [OF n r] n0]
  show "scalar_for c r s (s mod ordN c * powmod r (nat (ordN c - 2)) (ordN c) mod ordN c)"
    using q [of "s mod ordN c"] by (simp add: scalar_for_def)
  have "(ordN c - e mod ordN c) mod ordN c mod ordN c = (ordN c - e mod ordN c) mod ordN c" by simp
  also have "\<dots> = (- e) mod ordN c" unfolding mod_eq_iff_dvd
    using dvd_add [OF dvd_refl dvd_minus_mod [of "ordN c" e]] by (simp add: add.commute add_diff_eq)
  finally have "(ordN c - e mod ordN c) mod ordN c mod ordN c = (- e) mod ordN c" .
  then show "scalar_for c r (- e) ((ordN c - e mod ordN c) mod ordN c * powmod r (nat (ordN c - 2)) (ordN c) mod ordN c)"
    using q [of "(ordN c - e mod ordN c) mod ordN c"] by (simp only: scalar_for_def)
qed

lemma recover_Inr:
  assumes c: "curve_ok c" and nn: "0 \<le> r" "0 \<le> s"
  shows "recover c e r s recid = Inr q \<longleftrightarrow> (0 < r \<and> r < ordN c \<and> 0 < s \<and> s < ordN c) \<and>
    (\<exists>y u1 u2 A B. valid c (Some (recid_x c r recid, y)) \<and> (y = 0 \<or> y mod 2 = int (recid mod 2)) \<and>
       scalar_for c r (- e) u1 \<and> scalar_for c r s u2 \<and>
       mul_sum c (nat u1) None (Some (gen c)) A \<and> mul_sum c (nat u2) None (Some (recid_x c r recid, y)) B \<and>
       curve_sum c A B (Some q))" (is "?L \<longleftrightarrow> ?range \<and> (\<exists>y u1 u2 A B. ?D y u1 u2 A B)")
proof (cases ?range)
  case False
  then show ?thesis using nn by (auto simp: recover_def)
next
  case True
  have c': "prime_mod (modP c)" "modP c mod 4 = 3" "coefA c = 0" "prime_mod (ordN c)" "ordN c \<le> 2 ^ 256" "valid c (Some (gen c))"
    using c by (simp_all add: curve_ok_def)
  have nr: "\<not> ordN c dvd r" using True by (simp add: zdvd_not_zless)
  have n0: "0 \<le> ordN c" using True by simp
  note dec = decompress_r_Inr [OF c'(1-3) nn(1) n0]
  define v1 where "v1 = (ordN c - e mod ordN c) mod ordN c * powmod r (nat (ordN c - 2)) (ordN c) mod ordN c"
  define v2 where "v2 = s mod ordN c * powmod r (nat (ordN c - 2)) (ordN c) mod ordN c"
  have v: "scalar_for c r (- e) v1" "scalar_for c r s v2"
    using scalar_for_code [OF c'(4) nr] by (simp_all only: v1_def v2_def)
  have small: "nat v1 < 2 ^ 256" "nat v2 < 2 ^ 256" 
    using v c'(5) by (auto simp: scalar_for_def nat_less_iff)
  have code: "?L \<longleftrightarrow> (\<exists>rpt. decompress_r c r recid = Inr rpt \<and>
      point_add c (scalar_mul c (nat v1) (Some (gen c))) (scalar_mul c (nat v2) (Some rpt)) = Some q)"
    using True by (simp add: recover_def Let_def v1_def v2_def split: sum.splits option.splits)
  show ?thesis
  proof
    assume ?L
    then obtain rpt where rpt: "decompress_r c r recid = Inr rpt"
      "point_add c (scalar_mul c (nat v1) (Some (gen c))) (scalar_mul c (nat v2) (Some rpt)) = Some q" using code by blast
    obtain x y where xy: "rpt = (x, y)" by fastforce
    have d: "x = recid_x c r recid" "valid c (Some (x, y))" "y = 0 \<or> y mod 2 = int (recid mod 2)"
      using rpt(1) dec [of recid x y] xy by auto
    note A = scalar_mul_sum [OF c'(1,3,6) small(1)] and B = scalar_mul_sum [OF c'(1,3) d(2) small(2)]
    have "curve_sum c (scalar_mul c (nat v1) (Some (gen c))) (scalar_mul c (nat v2) (Some (x, y))) (Some q)"
      using point_add_sum [OF c'(1,3) A(2) B(2)] rpt(2) xy by simp
    then show "?range \<and> (\<exists>y u1 u2 A B. ?D y u1 u2 A B)" using True d v A(1) B(1) by blast
  next
    assume "?range \<and> (\<exists>y u1 u2 A B. ?D y u1 u2 A B)"
    then obtain y u1 u2 A B where D: "?D y u1 u2 A B" by blast
    let ?R = "(recid_x c r recid, y)"
    have u: "u1 = v1" "u2 = v2" using D v scalar_for_unique [OF c'(4) nr] by blast+
    have "decompress_r c r recid = Inr ?R" using dec [of recid "recid_x c r recid" y] D by blast
    moreover have vR: "valid c (Some ?R)" using D by blast
    note SA = scalar_mul_sum [OF c'(1,3,6) small(1)] and SB = scalar_mul_sum [OF c'(1,3) vR small(2)]
    have "scalar_mul c (nat v1) (Some (gen c)) = A" "scalar_mul c (nat v2) (Some ?R) = B"
      using mul_sum_unique [OF c'(1)] SA(1) SB(1) D u c'(6) vR by (metis valid_simps(1))+
    moreover have "point_add c A B = Some q"
      using sum_unique [OF c'(1)] point_add_sum [OF c'(1,3)] SA(2) SB(2) D calculation by metis
    ultimately show ?L using code by blast
  qed
qed

lemma decompress_r_Inl:
  assumes p: "prime_mod (modP c)" "modP c mod 4 = 3" and a: "coefA c = 0" and r: "0 \<le> r" "0 \<le> ordN c"
  shows "decompress_r c r recid = Inl msg \<longleftrightarrow>
    msg = ''xOutOfRange'' \<and> modP c \<le> recid_x c r recid \<or>
    msg = ''xNotSquare'' \<and> recid_x c r recid < modP c \<and> \<not> (\<exists>y. on_curve c (recid_x c r recid) y)" (is "_ \<longleftrightarrow> ?R")
proof (cases "decompress_r c r recid")
  case (Inl m)
  have x0: "0 \<le> recid_x c r recid" using r by (simp add: recid_x_def)
  have p1: "0 < modP c" using prime_mod_gt [OF p(1)] by simp
  consider "modP c \<le> recid_x c r recid" "m = ''xOutOfRange''" | "recid_x c r recid < modP c" "m = ''xNotSquare''"
    using Inl unfolding decompress_r_def Let_def recid_x_def by (metis Inl_inject Inr_not_Inl linorder_not_le)
  then show ?thesis
  proof cases
    case 1
    then show ?thesis using Inl by auto
  next
    case 2
    have "\<not> (\<exists>y. on_curve c (recid_x c r recid) y)"
    proof
      assume "\<exists>y. on_curve c (recid_x c r recid) y"
      then obtain y where y: "on_curve c (recid_x c r recid) (y mod modP c)"
        using on_curve_mod [of c "recid_x c r recid"] 2(1) x0 by (metis mod_pos_pos_trivial)
      let ?z = "y mod modP c" and ?w = "(modP c - y mod modP c) mod modP c"
      have w: "on_curve c (recid_x c r recid) ?w"
      proof -
        have "?w * ?w mod modP c = (modP c - ?z) * (modP c - ?z) mod modP c" by (rule mod_mult_eq)
        also have "(modP c - ?z) * (modP c - ?z) = ?z * ?z + modP c * (modP c - 2 * ?z)" by (simp add: algebra_simps)
        finally have "?w * ?w mod modP c = ?z * ?z mod modP c" by (simp only: mod_mult_self2)
        then show ?thesis using y by (simp only: on_curve_def)
      qed
      have "?z = 0 \<or> ?z mod 2 = int (recid mod 2) \<or> ?w mod 2 = int (recid mod 2)"
      proof (cases "?z = 0")
        case False
        moreover have "?z < modP c" "0 \<le> ?z" using p1 by simp_all
        ultimately have "?w = modP c - ?z" by (intro mod_pos_pos_trivial) simp_all
        then show ?thesis using parity_neg [OF odd_prime [OF p(2)], of ?z recid] by (simp only: simp_thms)
      qed simp
      then obtain z where "on_curve c (recid_x c r recid) z" "0 \<le> z" "z < modP c" "z = 0 \<or> z mod 2 = int (recid mod 2)"
        using y w pos_mod_bound [OF p1] pos_mod_sign [OF p1] by metis
      then have "decompress_r c r recid = Inr (recid_x c r recid, z)"
        unfolding decompress_r_Inr [OF p a r] using x0 2(1) by (simp add: reduced_def)
      with Inl show False by simp
    qed
    with 2 Inl show ?thesis by auto
  qed
next
  case (Inr q)
  obtain x y where q: "q = (x, y)" by fastforce
  then show ?thesis using Inr decompress_r_Inr [OF p a r, of recid x y] by (auto simp: reduced_def)
qed

lemma recover_Inl:
  assumes c: "curve_ok c" and nn: "0 \<le> r" "0 \<le> s"
  shows "recover c e r s recid = Inl msg \<longleftrightarrow>
    msg = ''rOutOfRange'' \<and> (r = 0 \<or> ordN c \<le> r) \<or>
    (0 < r \<and> r < ordN c) \<and>
     (msg = ''sOutOfRange'' \<and> (s = 0 \<or> ordN c \<le> s) \<or>
      (0 < s \<and> s < ordN c) \<and>
       (msg = ''xOutOfRange'' \<and> modP c \<le> recid_x c r recid \<or>
        msg = ''xNotSquare'' \<and> recid_x c r recid < modP c \<and> \<not> (\<exists>y. on_curve c (recid_x c r recid) y) \<or>
        msg = ''atInfinity'' \<and> recid_x c r recid < modP c \<and> (\<exists>y. on_curve c (recid_x c r recid) y) \<and>
          \<not> (\<exists>q. recover c e r s recid = Inr q)))"
proof (cases "0 < r \<and> r < ordN c \<and> 0 < s \<and> s < ordN c")
  case False
  then show ?thesis using nn by (auto simp: recover_def)
next
  case True
  have c': "prime_mod (modP c)" "modP c mod 4 = 3" "coefA c = 0" "0 \<le> ordN c"
    using c True by (simp_all add: curve_ok_def)
  note D = decompress_r_Inl [OF c'(1-3) nn(1) c'(4), of recid]
  show ?thesis
  proof (cases "decompress_r c r recid")
    case (Inl m)
    then show ?thesis using True D [of m] by (auto simp: recover_def)
  next
    case (Inr rpt)
    then have "recid_x c r recid < modP c" "\<exists>y. on_curve c (recid_x c r recid) y"
      using D [of "''xOutOfRange''"] D [of "''xNotSquare''"] by auto
    then show ?thesis using True Inr by (auto simp: recover_def Let_def split: option.splits)
  qed
qed

section \<open>Sizes of the records\<close>

text \<open>Reduced coordinates need no primality: every branch ends in a remainder.\<close>

definition reduced_pt :: "curve \<Rightarrow> point \<Rightarrow> bool" where
  "reduced_pt c P = (case P of None \<Rightarrow> True | Some (x, y) \<Rightarrow> reduced c x \<and> reduced c y)"

lemma point_add_reduced: "0 < modP c \<Longrightarrow> reduced_pt c P \<Longrightarrow> reduced_pt c Q \<Longrightarrow> reduced_pt c (point_add c P Q)"
  by (cases "(c, P, Q)" rule: point_add.cases) (auto simp: reduced_pt_def reduced_def curve_add_def curve_dbl_def Let_def)

lemma scalar_loop_reduced:
  "0 < modP c \<Longrightarrow> reduced_pt c acc \<Longrightarrow> reduced_pt c pt \<Longrightarrow> reduced_pt c (scalar_loop c i k acc pt)"
  by (induction c i k acc pt rule: scalar_loop.induct) (simp_all add: point_add_reduced)

lemma scalar_mul_reduced: "0 < modP c \<Longrightarrow> reduced_pt c pt \<Longrightarrow> reduced_pt c (scalar_mul c k pt)"
  unfolding scalar_mul_def by (rule scalar_loop_reduced) (simp_all add: reduced_pt_def)

lemma decompress_reduced:
  assumes "0 < modP c" "0 \<le> r" "0 \<le> ordN c" "decompress_r c r recid = Inr q"
  shows "reduced_pt c (Some q)"
proof -
  obtain y0 rhs where y0: "0 \<le> y0" "y0 < modP c" and code: "decompress_r c r recid =
      (if modP c \<le> recid_x c r recid then Inl ''xOutOfRange'' else if y0 * y0 mod modP c \<noteq> rhs then Inl ''xNotSquare''
       else Inr (recid_x c r recid, if y0 mod 2 = int (recid mod 2) then y0 else (modP c - y0) mod modP c))"
  proof
    let ?rhs = "(recid_x c r recid * recid_x c r recid mod modP c * recid_x c r recid + coefB c) mod modP c"
    show "decompress_r c r recid =
      (if modP c \<le> recid_x c r recid then Inl ''xOutOfRange'' else if sqrt_cand c ?rhs * sqrt_cand c ?rhs mod modP c \<noteq> ?rhs then Inl ''xNotSquare''
       else Inr (recid_x c r recid, if sqrt_cand c ?rhs mod 2 = int (recid mod 2) then sqrt_cand c ?rhs else (modP c - sqrt_cand c ?rhs) mod modP c))"
      by (simp only: decompress_r_def Let_def recid_x_def)
    show "0 \<le> sqrt_cand c ?rhs" "sqrt_cand c ?rhs < modP c" using assms(1) by (simp_all only: sqrt_cand_def powmod_def pos_mod_sign pos_mod_bound)
  qed
  have "0 \<le> recid_x c r recid" using assms(2,3) by (simp add: recid_x_def)
  moreover have "0 \<le> (modP c - y0) mod modP c" "(modP c - y0) mod modP c < modP c" using assms(1) by simp_all
  moreover have "fst q = recid_x c r recid" "recid_x c r recid < modP c" "snd q = y0 \<or> snd q = (modP c - y0) mod modP c"
    using assms(4) unfolding code by (auto split: if_splits)
  ultimately show ?thesis using y0 by (auto simp: reduced_pt_def reduced_def case_prod_beta)
qed

lemma recover_reduced:
  assumes "0 < modP c" "0 \<le> r" "reduced_pt c (Some (gen c))" "recover c e r s recid = Inr q"
  shows "reduced_pt c (Some q)"
proof -
  from assms(2,4) have n: "0 \<le> ordN c" by (auto simp: recover_def split: if_splits)
  from assms(4) obtain rpt u1 u2 where r: "decompress_r c r recid = Inr rpt"
    and q: "point_add c (scalar_mul c u1 (Some (gen c))) (scalar_mul c u2 (Some rpt)) = Some q"
    by (auto simp: recover_def Let_def split: if_splits sum.splits option.splits)
  have "reduced_pt c (point_add c (scalar_mul c u1 (Some (gen c))) (scalar_mul c u2 (Some rpt)))"
    by (intro point_add_reduced scalar_mul_reduced assms(1,3) decompress_reduced [OF assms(1,2) n r])
  then show ?thesis by (simp add: q)
qed

definition params_ok :: "curve \<Rightarrow> bool" where
  "params_ok c \<longleftrightarrow> 0 < modP c \<and> modP c \<le> 2 ^ 256 \<and> reduced_pt c (Some (gen c))"

lemma secp256k1_params: "params_ok secp256k1"
  by (simp add: params_ok_def secp256k1_def reduced_pt_def reduced_def)

lemma coordinate_bytes:
  assumes "params_ok c" "reduced c x" shows "int_to_be 32 x = Inr (be_fix 32 (nat x))"
  by (rule int_to_be_ok) (use assms in \<open>auto simp: params_ok_def reduced_def\<close>)

lemma point_reduced: "reduced_pt c (Some q) \<Longrightarrow> reduced c (fst q) \<and> reduced c (snd q)"
  by (cases q) (simp add: reduced_pt_def)

lemma address_of_point_total:
  assumes "params_ok c" "reduced_pt c (Some q)"
  shows "\<exists>a. address_of_point q = Inr a \<and> length a = 20"
proof -
  obtain h where "keccak256 (be_fix 32 (nat (fst q)) @ be_fix 32 (nat (snd q))) = Inr h" "length h = 32"
    using keccak.hash_total by blast
  then show ?thesis
    using coordinate_bytes [OF assms(1)] point_reduced [OF assms(2)] by (simp add: address_of_point_def)
qed

lemma ecrecover_total:
  assumes "params_ok c" "0 \<le> r"
  shows "\<exists>a. ecrecover_address c e v r s = Inr a \<and> (\<forall>b. a = Some b \<longrightarrow> length b = 20)"
proof (cases "v = 27 \<or> v = 28")
  case True
  show ?thesis
  proof (cases "recover c e r s (v - 27)")
    case (Inr q)
    have "reduced_pt c (Some q)" using recover_reduced [OF _ assms(2) _ Inr] assms(1) by (simp add: params_ok_def)
    from address_of_point_total [OF assms(1) this] obtain a where "address_of_point q = Inr a" "length a = 20" by blast
    with True Inr show ?thesis by (simp add: ecrecover_address_def)
  qed (use True in \<open>simp add: ecrecover_address_def\<close>)
qed (simp add: ecrecover_address_def)

lemma case_expected_total:
  assumes "params_ok c" "0 \<le> r"
  shows "\<exists>b. case_expected c (h, r, s, recid) = Inr b \<and> length b = 112"
proof -
  obtain a where a: "ecrecover_address c (int (from_be h)) (recid + 27) r s = Inr a" "\<forall>b. a = Some b \<longrightarrow> length b = 20"
    using ecrecover_total [OF assms] by blast
  have p: "\<exists>b. point_record (recover c (int (from_be h)) r s recid) = Inr b \<and> length b = 72"
  proof (cases "recover c (int (from_be h)) r s recid")
    case (Inr q)
    have "reduced_pt c (Some q)" using recover_reduced [OF _ assms(2) _ Inr] assms(1) by (simp add: params_ok_def)
    then show ?thesis
      using Inr coordinate_bytes [OF assms(1)] point_reduced [of c q] by (simp add: point_record_def pack_u64_def)
  qed (simp add: point_record_def pack_u64_def)
  have "\<exists>b. address_record a = Inr b \<and> length b = 40"
    using a(2) by (cases a) (simp_all add: address_record_def pack_u64_def)
  with p a(1) show ?thesis by (auto simp: case_expected_def)
qed

lemma case_input_total:
  assumes "length h = 32" "0 \<le> r" "r < 2 ^ 256" "0 \<le> s" "s < 2 ^ 256" "recid < 2 ^ 64"
  shows "case_input (h, r, s, recid) = Inr (h @ be_fix 32 (nat r) @ be_fix 32 (nat s) @ le_fix 8 recid)"
proof -
  have "int_to_be 32 r = Inr (be_fix 32 (nat r))" "int_to_be 32 s = Inr (be_fix 32 (nat s))"
    by (rule int_to_be_ok; use assms in simp)+
  then show ?thesis using assms(6) by (simp add: case_input_def pack_u64_def)
qed

section \<open>Properties\<close>

text \<open>A curve of prime order small enough to evaluate: \<open>y\<^sup>2 = x\<^sup>3 + 7\<close> over 43 elements, of order 31.\<close>

definition demo43 :: curve where
  "demo43 = \<lparr>modP = 43, ordN = 31, coefA = 0, coefB = 7, gen = (2, 12)\<rparr>"

lemma prime_43: "prime_mod 43" and prime_31: "prime_mod 31"
  by code_simp+

lemma demo43_ok: "curve_ok demo43"
  using prime_43 prime_31 by (simp add: curve_ok_def demo43_def reduced_def on_curve_def)

text \<open>The point addition is the chord-and-tangent group operation: over a prime modulus, for two
  points of the curve (or the identity), the Fermat inverses give the slope that the rule asks for,
  the result is again a reduced point of the curve, and the order of the summands does not matter.\<close>

theorem point_add_refines:
  assumes "prime_mod (modP c)" "coefA c = 0" "valid c P" "valid c Q"
  shows "curve_sum c P Q (point_add c P Q) \<and> valid c (point_add c P Q) \<and> point_add c P Q = point_add c Q P"
  using point_add_sum [OF assms] secp.add_commute [of c P Q] secp.add_valid [of c P Q] assms by simp

theorem point_add_refines_witness:
  "curve_sum demo43 (Some (2, 12)) (Some (2, 12)) (point_add demo43 (Some (2, 12)) (Some (2, 12))) \<and>
   valid demo43 (point_add demo43 (Some (2, 12)) (Some (2, 12))) \<and>
   point_add demo43 (Some (2, 12)) (Some (2, 12)) = point_add demo43 (Some (2, 12)) (Some (2, 12))"
  by (rule point_add_refines) (use prime_43 in \<open>simp_all add: demo43_def reduced_def on_curve_def\<close>)

text \<open>C14: Recovery succeeds with \<open>q\<close> exactly when \<open>r\<close> and \<open>s\<close> are in range, the abscissa \<open>r\<close> (plus the
  order for recovery ids 2 and 3) has a point \<open>R\<close> of the curve with the parity of the recovery id, and \<open>q\<close>
  is the finite sum of \<open>u1 G\<close> and \<open>u2 R\<close> for the unique reduced solutions of \<open>u1 r = - e\<close> and
  \<open>u2 r = s\<close> modulo the order.\<close>

theorem recover_iff:
  assumes "curve_ok c" "0 \<le> r" "0 \<le> s"
  shows "recover c e r s recid = Inr q \<longleftrightarrow> (0 < r \<and> r < ordN c \<and> 0 < s \<and> s < ordN c) \<and>
    (\<exists>y u1 u2 A B. valid c (Some (recid_x c r recid, y)) \<and> (y = 0 \<or> y mod 2 = int (recid mod 2)) \<and>
       scalar_for c r (- e) u1 \<and> scalar_for c r s u2 \<and>
       mul_sum c (nat u1) None (Some (gen c)) A \<and> mul_sum c (nat u2) None (Some (recid_x c r recid, y)) B \<and>
       curve_sum c A B (Some q))"
  using assms by (rule recover_Inr)

theorem recover_iff_witness:
  "\<exists>y u1 u2 A B. valid demo43 (Some (recid_x demo43 2 0, y)) \<and> (y = 0 \<or> y mod 2 = int (0 mod 2)) \<and>
     scalar_for demo43 2 (- 5) u1 \<and> scalar_for demo43 2 7 u2 \<and>
     mul_sum demo43 (nat u1) None (Some (gen demo43)) A \<and> mul_sum demo43 (nat u2) None (Some (recid_x demo43 2 0, y)) B \<and>
     curve_sum demo43 A B (Some (2, 12))"
proof -
  have "recover demo43 5 2 7 0 = Inr (2, 12)" by code_simp
  then show ?thesis using recover_iff [OF demo43_ok, of 2 7 5 0 "(2, 12)"] by auto
qed

text \<open>Every failure of recovery, with the string that the code returns: the range checks of \<open>r\<close> and then
  \<open>s\<close>, then an abscissa that is not reduced, then one that no point of the curve has, and last a result at infinity.\<close>

theorem recover_error_iff:
  assumes "curve_ok c" "0 \<le> r" "0 \<le> s"
  shows "recover c e r s recid = Inl msg \<longleftrightarrow>
    msg = ''rOutOfRange'' \<and> (r = 0 \<or> ordN c \<le> r) \<or>
    (0 < r \<and> r < ordN c) \<and>
     (msg = ''sOutOfRange'' \<and> (s = 0 \<or> ordN c \<le> s) \<or>
      (0 < s \<and> s < ordN c) \<and>
       (msg = ''xOutOfRange'' \<and> modP c \<le> recid_x c r recid \<or>
        msg = ''xNotSquare'' \<and> recid_x c r recid < modP c \<and> \<not> (\<exists>y. on_curve c (recid_x c r recid) y) \<or>
        msg = ''atInfinity'' \<and> recid_x c r recid < modP c \<and> (\<exists>y. on_curve c (recid_x c r recid) y) \<and>
          \<not> (\<exists>q. recover c e r s recid = Inr q)))"
  using assms by (rule recover_Inl)

theorem recover_error_iff_witness:
  "recover demo43 5 0 7 0 = Inl ''rOutOfRange'' \<and> recover demo43 5 30 7 2 = Inl ''xOutOfRange''"
  using recover_error_iff [OF demo43_ok, of 0 7 5 0 "''rOutOfRange''"] recover_error_iff [OF demo43_ok, of 30 7 5 2 "''xOutOfRange''"]
  by (simp add: demo43_def recid_x_def)

lemma vectors_total:
  assumes params: "params_ok c"
    and "\<forall>(h, r, s, recid) \<in> set cases. length h = 32 \<and> 0 \<le> r \<and> r < 2 ^ 256 \<and> 0 \<le> s \<and> s < 2 ^ 256 \<and> recid < 2 ^ 64"
    and "104 * length cases < 2 ^ 64"
  shows "\<exists>i e. vectors c cases = Inr (i, e) \<and> le64_at i 0 = Inr (104 * length cases) \<and>
    length i = 8 + 104 * length cases \<and> length e = 112 * length cases \<and>
    (\<forall>k<length cases. case_input (cases ! k) = Inr (bslice (drop 8 i) (104 * k) (104 * k + 104)) \<and>
       case_expected c (cases ! k) = Inr (bslice e (112 * k) (112 * k + 112)))"
proof -
  define f where "f cs = ebind (case_input cs) (\<lambda>i. ebind (case_expected c cs) (\<lambda>e. Inr (i, e)))" for cs
  have one: "\<exists>i e. case_input cs = Inr i \<and> case_expected c cs = Inr e \<and> length i = 104 \<and> length e = 112"
    if "cs \<in> set cases" for cs
  proof -
    obtain h r s recid where cs: "cs = (h, r, s, recid)" using prod_cases4 by blast
    then have b: "length h = 32" "0 \<le> r" "r < 2 ^ 256" "0 \<le> s" "s < 2 ^ 256" "recid < 2 ^ 64"
      using assms(2) that by auto
    obtain e where e: "case_expected c (h, r, s, recid) = Inr e" "length e = 112"
      using case_expected_total [OF params b(2)] by blast
    show ?thesis using case_input_total [OF b] e cs b(1) by simp
  qed
  define g where "g cs = (projr (case_input cs), projr (case_expected c cs))" for cs
  have g: "f cs = Inr (g cs)" "case_input cs = Inr (fst (g cs))" "case_expected c cs = Inr (snd (g cs))"
    "length (fst (g cs)) = 104" "length (snd (g cs)) = 112" if "cs \<in> set cases" for cs
    using one [OF that] by (auto simp: f_def g_def)
  have em: "emap f cases = Inr (map g cases)" by (rule emap_Inr) (rule g(1))
  define blob where "blob = concat (map fst (map g cases))"
  define e where "e = concat (map snd (map g cases))"
  have lb: "length blob = 104 * length cases" and le: "length e = 112 * length cases"
    unfolding blob_def e_def using g(4,5) by (subst length_concat_const, auto)+
  have pad: "nat ((- (8 + int (length blob))) mod 8) = 0" 
  proof -
    have "(- (8 + 104 * m)) mod 8 = 0" for m :: int by presburger
    then show ?thesis using lb by simp
  qed
  define i where "i = le_fix 8 (length blob) @ blob"
  have "vectors c cases = Inr (i, e)"
    using assms(3) lb pad unfolding vectors_def f_def [symmetric] em ebind_simps Let_def blob_def [symmetric] e_def [symmetric]
    by (simp add: pack_u64_def i_def zeros_def)
  moreover have "le64_at i 0 = Inr (104 * length cases)"
    using le64_at_middle [of 0 "[]" "length blob" blob] assms(3) lb by (simp add: i_def)
  moreover have "case_input (cases ! k) = Inr (bslice (drop 8 i) (104 * k) (104 * k + 104))"
    "case_expected c (cases ! k) = Inr (bslice e (112 * k) (112 * k + 112))" if "k < length cases" for k
    using that g(2-5) bslice_concat [of "map fst (map g cases)" 104 k] bslice_concat [of "map snd (map g cases)" 112 k]
    by (auto simp: i_def blob_def e_def)
  ultimately show ?thesis using lb le by (intro exI [of _ i] exI [of _ e]) (simp add: i_def)
qed

text \<open>The files of secp256k1 vectors: for cases whose hash has 32 bytes and whose integers fit their
  fields, writing them does not raise; the input is its eight-byte length and 104 bytes per case, which
  are the hash, \<open>r\<close>, \<open>s\<close> and the recovery id, with no padding; the expected file has 112 bytes per case,
  which are the record of that case.\<close>

theorem vectors_layout:
  assumes "\<forall>(h, r, s, recid) \<in> set cases. length h = 32 \<and> 0 \<le> r \<and> r < 2 ^ 256 \<and> 0 \<le> s \<and> s < 2 ^ 256 \<and> recid < 2 ^ 64"
    and "104 * length cases < 2 ^ 64"
  shows "\<exists>i e. vectors secp256k1 cases = Inr (i, e) \<and> le64_at i 0 = Inr (104 * length cases) \<and>
    length i = 8 + 104 * length cases \<and> length e = 112 * length cases \<and>
    (\<forall>k<length cases. case_input (cases ! k) = Inr (bslice (drop 8 i) (104 * k) (104 * k + 104)) \<and>
       case_expected secp256k1 (cases ! k) = Inr (bslice e (112 * k) (112 * k + 112)))"
  using assms by (rule vectors_total [OF secp256k1_params])

theorem vectors_layout_witness:
  "\<exists>i e. vectors secp256k1 [(zeros 32, 0, 1, 0)] = Inr (i, e) \<and> le64_at i 0 = Inr (104 * length [(zeros 32, 0 :: int, 1 :: int, 0 :: nat)]) \<and>
    length i = 8 + 104 * length [(zeros 32, 0 :: int, 1 :: int, 0 :: nat)] \<and> length e = 112 * length [(zeros 32, 0 :: int, 1 :: int, 0 :: nat)] \<and>
    (\<forall>k<length [(zeros 32, 0 :: int, 1 :: int, 0 :: nat)]. case_input ([(zeros 32, 0, 1, 0)] ! k) = Inr (bslice (drop 8 i) (104 * k) (104 * k + 104)) \<and>
       case_expected secp256k1 ([(zeros 32, 0, 1, 0)] ! k) = Inr (bslice e (112 * k) (112 * k + 112)))"
  by (rule vectors_layout) simp_all

end
