(* ===== verification/SszCases.thy ===== *)
theory SszCases
  imports Ssz "HOL-Library.List_Lexorder"
begin

text \<open>
  The inputs that \<open>tools/ssz-inputs.py\<close> generates from its encoders: \<open>offset_positions\<close> walks an
  encoded input, \<open>base_cases\<close> builds the well-formed inputs with their mutations and truncations,
  \<open>fuzz_cases\<close> overwrites every offset field.  A dictionary is its list of entries in insertion
  order (no two entries of these dictionaries have the same name).  The draws of
  \<open>random.Random\<close> are an argument.  The properties of the encoders and readers of theory
  \<open>Ssz\<close> stand at the end.
\<close>

section \<open>Names of cases\<close>

definition digit :: "nat \<Rightarrow> char" where "digit d = char_of (48 + d)"

fun dec :: "nat \<Rightarrow> string" where
  \<comment> \<open>\<open>f'{n}'\<close>\<close>
  "dec n = (if n < 10 then [digit n] else dec (n div 10) @ [digit (n mod 10)])"

declare dec.simps [simp del]

definition dec2 :: "nat \<Rightarrow> string" where
  \<comment> \<open>\<open>f'{n:02d}'\<close>\<close>
  "dec2 n = (if n < 10 then ''0'' @ dec n else dec n)"

section \<open>Walking the layout\<close>

definition offset_positions :: "bytes \<Rightarrow> (string \<times> nat) list res" where
  "offset_positions blob =
     (let body = 2 in
      ebind (le32_at blob body) (\<lambda>o_npr. ebind (le32_at blob (body + 4)) (\<lambda>o_wit.
      let npr = body + o_npr in
      ebind (le32_at blob npr) (\<lambda>d. let pl = npr + d in
      ebind (le32_at blob (npr + 40)) (\<lambda>e. let rq = npr + e; wit = body + o_wit in
        Inr (map (\<lambda>i. (''si'' @ dec i, body + i * 4)) [0..<2] @
             map (\<lambda>(n, d). (n, npr + d)) [(''npr_pl'', 0), (''npr_vh'', 4), (''npr_rq'', 40)] @
             map (\<lambda>(n, d). (n, pl + d)) [(''pl_extra'', 436), (''pl_txs'', 504), (''pl_wd'', 508), (''pl_bal'', 528),
               (''pl_gas_limit'', 412)] @
             map (\<lambda>i. (''rq'' @ dec i, rq + i * 4)) [0..<5] @
             map (\<lambda>i. (''wit'' @ dec i, wit + i * 4)) [0..<3]))))))"

section \<open>Base cases\<close>

definition range256 :: bytes where "range256 = map word_of_nat [0..<256]"

definition well_formed_cases :: "(string \<times> bytes res) list" where
  "well_formed_cases =
     [(''minimal'', stateless_input None None 1),
      (''gas200m'', ebind (payload (pl_default\<lparr>gas_limit := 200000000\<rparr>)) (\<lambda>p. stateless_input (Some p) None 1)),
      (''gas1'', ebind (payload (pl_default\<lparr>gas_limit := 1\<rparr>)) (\<lambda>p. stateless_input (Some p) None 1)),
      (''gasmax'', ebind (payload (pl_default\<lparr>gas_limit := 2 ^ 64 - 1\<rparr>)) (\<lambda>p. stateless_input (Some p) None 1)),
      (''bal1k'', ebind (payload (pl_default\<lparr>bal := concat (replicate 4 range256)\<rparr>)) (\<lambda>p. stateless_input (Some p) None 1)),
      (''extra32'', ebind (payload (pl_default\<lparr>extra := zeros 32\<rparr>)) (\<lambda>p. stateless_input (Some p) None 1)),
      (''tx2'', ebind (payload (pl_default\<lparr>txs := [zeros 10, zeros 20]\<rparr>)) (\<lambda>p. stateless_input (Some p) None 1)),
      (''wd1'', ebind (payload (pl_default\<lparr>withdrawals := zeros 44\<rparr>)) (\<lambda>p. stateless_input (Some p) None 1)),
      (''wit3'', ebind (witness [zeros 5, zeros 1024] [zeros 3] [zeros 7]) (\<lambda>w. stateless_input None (Some w) 1)),
      (''chain7'', stateless_input None None 7)]"

definition mutate1 :: "bytes \<Rightarrow> nat \<times> nat \<Rightarrow> bytes res" where
  "mutate1 base d = (case d of (at, delta) \<Rightarrow>
     if at < length base then Inr (base[at := base ! at + word_of_nat delta]) else Inl IndexError)"

definition evaluated :: "(string \<times> bytes res) list \<Rightarrow> (string \<times> bytes) list res" where
  \<comment> \<open>the entries of a dictionary display, evaluated in order\<close>
  "evaluated = emap (\<lambda>(n, m). ebind m (\<lambda>b. Inr (n, b)))"

definition base_cases :: "(nat \<times> nat) list \<Rightarrow> (string \<times> bytes) list res" where
  \<comment> \<open>the pairs are the 24 draws of \<open>rng.randrange(len(base))\<close> and \<open>rng.randrange(1, 256)\<close>\<close>
  "base_cases draws =
     ebind (evaluated well_formed_cases) (\<lambda>cs.
     ebind (stateless_input None None 1) (\<lambda>base.
     ebind (evaluated (map (\<lambda>(k, d). (''mut'' @ dec2 k @ ''_at'' @ dec (fst d), mutate1 base d))
                           (enumerate 0 draws))) (\<lambda>ms.
       Inr (cs @ ms @
         map (\<lambda>(k, n). (''trunc'' @ dec2 k @ ''_'' @ dec n, bslice base 0 n))
             (enumerate 0 [0, 1, 2, 3, 15, 16, 17, 60, length base div 2, length base - 1])))))"

section \<open>Offset fuzzing\<close>

definition overwrite32 :: "bytes \<Rightarrow> nat \<Rightarrow> nat \<Rightarrow> bytes res" where
  \<comment> \<open>\<open>struct.pack_into('<I', mutated, at, value & 0xffffffff)\<close>\<close>
  "overwrite32 blob at v =
     (if at + 4 \<le> length blob then Inr (take at blob @ le_fix 4 (v AND 0xffffffff) @ drop (at + 4) blob)
      else Inl StructError)"

definition boundary_values :: "nat \<Rightarrow> nat \<Rightarrow> (string \<times> nat) list" where
  "boundary_values current n =
     [(''0'', 0), (''m1'', current - 1), (''p1'', current + 1), (''p4'', current + 4),
      (''len'', n), (''lenp1'', n + 1), (''big'', 0xffffffff), (''half'', n div 2)]"

definition field_cases :: "string \<Rightarrow> bytes \<Rightarrow> string \<times> nat \<Rightarrow> (string \<times> bytes) list res" where
  "field_cases base_name blob f = (case f of (field, at) \<Rightarrow>
     ebind (le32_at blob at) (\<lambda>current.
       emap (\<lambda>(label, v). ebind (overwrite32 blob at v) (\<lambda>b. Inr (base_name @ ''_'' @ field @ ''_'' @ label, b)))
         (boundary_values current (length blob))))"


definition blob_cases :: "string \<times> bytes \<Rightarrow> (string \<times> bytes) list res" where
  \<comment> \<open>the entries that one base adds; \<open>sorted\<close> orders by name since no two names are equal\<close>
  "blob_cases nb = (case nb of (base_name, blob) \<Rightarrow>
     ebind (offset_positions blob) (\<lambda>ps.
     ebind (emap (field_cases base_name blob) (sort_key (\<lambda>f. map (of_char :: char \<Rightarrow> nat) (fst f)) ps)) (\<lambda>cs.
       Inr ((base_name @ ''_base'', blob) # concat cs))))"

definition lite_input :: "bytes res" where
  "lite_input =
     ebind (payload (pl_default\<lparr>gas_limit := 123456789, gas_used := 7, number := 9, timestamp := 11, extra := zeros 12,
       txs := [zeros 3, zeros 70, zeros 1], withdrawals := zeros 88, bal := zeros 96, slot := 5\<rparr>)) (\<lambda>p.
     ebind (witness [zeros 2, zeros 33] [zeros 1, zeros 40] [zeros 64]) (\<lambda>w.
       stateless_input (Some p) (Some w) 11155111))"

definition fuzz_cases :: "(string \<times> bytes) list res" where
  "fuzz_cases =
     ebind (evaluated [(''min'', stateless_input None None 1), (''lite'', lite_input)]) (\<lambda>bases.
     ebind (emap blob_cases bases) (\<lambda>cs. Inr (concat cs)))"

section \<open>The encoders return\<close>

lemma container_total:
  assumes "nones ps = length vs" "fixed_len ps + sum_list (map length vs) = m" "m < 2 ^ 32"
  obtains b where "container ps vs = Inr b" "length b = m"
  using that container_ok [of ps vs] assms by (simp add: length_concat)

lemma var_list_ok:
  assumes "4 * length es + sum_list (map length es) < 2 ^ 32"
  obtains b where "var_list es = Inr b" "length b = 4 * length es + sum_list (map length es)"
proof (cases "es = []")
  case True
  then show ?thesis using that [of "[]"] by (simp add: var_list_def)
next
  case False
  have "container (replicate (length es) None) es = Inr (heading (replicate (length es) None) (map length es) (4 * length es) @ concat es)"
    using container_ok [of "replicate (length es) None" es] assms by simp
  with var_list_container [OF False] that show ?thesis by (simp add: length_concat)
qed

definition pl_in_range :: "pl_args \<Rightarrow> bool" where
  "pl_in_range a \<longleftrightarrow> (\<forall>n \<in> {number a, gas_limit a, gas_used a, timestamp a, blob_gas_used a, excess_blob_gas a, slot a}. n < 2 ^ 64)"

definition pl_size :: "pl_args \<Rightarrow> nat" where
  "pl_size a = 540 + length (extra a) + (4 * length (txs a) + sum_list (map length (txs a))) +
     length (withdrawals a) + length (bal a)"

lemma fixed_len_payload: "length q = 7 \<Longrightarrow> list_all (\<lambda>x. length x = 8) q \<Longrightarrow> fixed_len (payload_fixed q) = 540"
  by (auto simp: payload_fixed_def length_Suc_conv numeral_eq_Suc)

lemma nones_payload [simp]: "nones (payload_fixed q) = 4"
  by (simp add: payload_fixed_def)

lemma payload_ok:
  assumes "pl_in_range a" "pl_size a < 2 ^ 32"
  obtains p where "payload a = Inr p" "length p = pl_size a"
proof -
  obtain t where t: "var_list (txs a) = Inr t" "length t = 4 * length (txs a) + sum_list (map length (txs a))"
    using var_list_ok [of "txs a"] assms(2) by (auto simp: pl_size_def)
  define q where "q = map (le_fix 8) [number a, gas_limit a, gas_used a, timestamp a, blob_gas_used a, excess_blob_gas a, slot a]"
  have q: "seqs (map u64 [number a, gas_limit a, gas_used a, timestamp a, blob_gas_used a, excess_blob_gas a, slot a]) = Inr q"
    using assms(1) by (simp add: pl_in_range_def q_def u64_def pack_u64_def)
  have "length q = 7" "list_all (\<lambda>x. length x = 8) q" by (simp_all add: q_def)
  note f = fixed_len_payload [OF this]
  obtain p where p: "container (payload_fixed q) [extra a, t, withdrawals a, bal a] = Inr p" "length p = pl_size a"
    by (rule container_total [of "payload_fixed q" "[extra a, t, withdrawals a, bal a]" "pl_size a"])
      (use f t(2) assms(2) in \<open>simp_all add: pl_size_def\<close>)
  have "payload a = Inr p" unfolding payload_def q t(1) ebind_simps by (rule p(1))
  then show ?thesis using p(2) that by blast
qed

lemma replicate5: "replicate 5 x = [x, x, x, x, x]"
  by (simp add: numeral_eq_Suc)

lemma requests_ok: "requests = Inr (concat (replicate 5 (le_fix 4 20)))"
  using container_ok [of "[None, None, None, None, None]" "[[], [], [], [], []]"]
  by (simp add: requests_def replicate5)

lemma new_payload_request_ok:
  assumes "64 + length p < 2 ^ 32"
  obtains n where "new_payload_request p [] None = Inr n" "length n = 64 + length p"
    "container [None, None, Some (zeros 32), None] [p, [], concat (replicate 5 (le_fix 4 20))] = Inr n"
proof -
  let ?r = "concat (replicate 5 (le_fix 4 20)) :: bytes"
  obtain n where n: "container [None, None, Some (zeros 32), None] [p, [], ?r] = Inr n" "length n = 64 + length p"
    by (rule container_total [of "[None, None, Some (zeros 32), None]" "[p, [], ?r]" "64 + length p"])
      (use assms in \<open>simp_all add: length_concat sum_list_replicate\<close>)
  moreover have "new_payload_request p [] None = Inr n" by (simp only: new_payload_request_def requests_ok n(1) ebind_simps option.case)
  ultimately show ?thesis using that by blast
qed

lemma witness_ok:
  assumes "12 + (\<Sum>es\<leftarrow>[st, co, he]. 4 * length es + sum_list (map length es)) < 2 ^ 32"
  obtains w s c h where "witness st co he = Inr w" "length w = 12 + (\<Sum>es\<leftarrow>[st, co, he]. 4 * length es + sum_list (map length es))"
    "var_list st = Inr s" "var_list co = Inr c" "var_list he = Inr h" "container [None, None, None] [s, c, h] = Inr w"
proof -
  obtain s where s: "var_list st = Inr s" "length s = 4 * length st + sum_list (map length st)"
    using var_list_ok [of st] assms by auto
  obtain c where c: "var_list co = Inr c" "length c = 4 * length co + sum_list (map length co)"
    using var_list_ok [of co] assms by auto
  obtain h where h: "var_list he = Inr h" "length h = 4 * length he + sum_list (map length he)"
    using var_list_ok [of he] assms by auto
  define m where "m = 12 + (\<Sum>es\<leftarrow>[st, co, he]. 4 * length es + sum_list (map length es))"
  obtain w where w: "container [None, None, None] [s, c, h] = Inr w" "length w = m"
    by (rule container_total [of "[None, None, None]" "[s, c, h]" m]) (use assms s(2) c(2) h(2) in \<open>simp_all add: m_def\<close>)
  have "witness st co he = Inr w" by (simp add: witness_def s(1) c(1) h(1) w(1))
  then show ?thesis using that s(1) c(1) h(1) w unfolding m_def by blast
qed

lemma stateless_input_ok:
  assumes "chain < 2 ^ 64" "80 + length p + length w < 2 ^ 32"
  obtains n body where "stateless_input (Some p) (Some w) chain = Inr ([21, 1] @ body)" "length body = 80 + length p + length w"
    "new_payload_request p [] None = Inr n" "container [None, None, Some (le_fix 8 chain)] [n, w] = Inr body"
    "container [None, None, Some (zeros 32), None] [p, [], concat (replicate 5 (le_fix 4 20))] = Inr n" "length n = 64 + length p"
proof -
  obtain n where n: "new_payload_request p [] None = Inr n" "length n = 64 + length p"
    "container [None, None, Some (zeros 32), None] [p, [], concat (replicate 5 (le_fix 4 20))] = Inr n"
    using new_payload_request_ok [of p] assms(2) by auto
  obtain body where b: "container [None, None, Some (le_fix 8 chain)] [n, w] = Inr body" "length body = 80 + length p + length w"
    by (rule container_total [of "[None, None, Some (le_fix 8 chain)]" "[n, w]" "80 + length p + length w"])
      (use assms n(2) in simp_all)
  have "stateless_input (Some p) (Some w) chain = Inr ([21, 1] @ body)"
    using assms(1) n(1) b(1) by (simp add: stateless_input_def u64_def pack_u64_def)
  from that [OF this b(2) n(1) b(1) n(3,2)] show ?thesis .
qed

section \<open>Reads inside a well-formed input\<close>

lemma le32_at_inside:
  assumes "drop i b = c @ d" "le32_at c k = Inr v"
  shows "le32_at b (i + k) = Inr v"
proof -
  from assms(2) have k: "k + 4 \<le> length c" and v: "v = from_le (bslice c k (k + 4))"
    by (auto simp: le32_at_def split: if_splits)
  have "bslice b (i + k) (i + k + 4) = take 4 (drop k (drop i b))" by (simp add: bslice_def add.commute)
  also have "\<dots> = bslice c k (k + 4)" using k by (simp add: assms(1) bslice_def)
  finally have "bslice b (i + k) (i + k + 4) = bslice c k (k + 4)" .
  moreover have "i + (k + 4) \<le> length b" using arg_cong [OF assms(1), of length] k by simp
  ultimately show ?thesis using v by (simp add: le32_at_def)
qed

lemma requests_offsets:
  fixes r :: bytes
  defines "r \<equiv> concat (replicate 5 (le_fix 4 20))"
  shows "le32_at r 0 = Inr 20" "le32_at r 4 = Inr 20" "le32_at r 8 = Inr 20" "le32_at r 12 = Inr 20" "le32_at r 16 = Inr 20"
proof -
  let ?a = "le_fix 4 20"
  have m: "le32_at (xs @ ?a @ ys) (length xs) = Inr 20" for xs ys by (rule le32_at_middle) simp_all
  show "le32_at r 0 = Inr 20" "le32_at r 4 = Inr 20" "le32_at r 8 = Inr 20" "le32_at r 12 = Inr 20" "le32_at r 16 = Inr 20"
    using m [of "[]" "?a @ ?a @ ?a @ ?a"] m [of ?a "?a @ ?a @ ?a"] m [of "?a @ ?a" "?a @ ?a"] m [of "?a @ ?a @ ?a" ?a]
      m [of "?a @ ?a @ ?a @ ?a" "[]"]
    by (simp_all add: r_def replicate5)
qed

lemma witness_offsets:
  assumes "container [None, None, None] [s, c, h] = Inr w"
  shows "le32_at w 0 = Inr 12" "le32_at w 4 = Inr (12 + length s)" "le32_at w 8 = Inr (12 + length s + length c)"
  using container_offset [of "[]" "[None, None]", simplified, OF assms]
    container_offset [of "[None]" "[None]", simplified, OF assms]
    container_offset [of "[None, None]" "[]", simplified, OF assms]
  by (simp_all add: part_off_def numeral_2_eq_2)

lemma request_parts:
  assumes "container [None, None, Some (zeros 32), None] [p, [], r] = Inr n"
  shows "le32_at n 40 = Inr (44 + length p)" "drop 44 n = p @ r" "length n = 44 + length p + length r"
  using container_offset [of "[None, None, Some (zeros 32)]" "[]", simplified, OF assms]
    container_rest [OF assms, of 0] length_container [OF assms]
  by (simp_all add: part_off_def numeral_2_eq_2)

lemma input_parts:
  assumes "container [None, None, Some c] [n, w] = Inr body" "length c = 8"
  shows "drop 16 body = n @ w"
  using container_rest [OF assms(1), of 0] assms(2) by (simp add: part_off_def)

text \<open>The positions, and what an input holds there.\<close>

definition input_fields :: "pl_args \<Rightarrow> nat \<Rightarrow> bytes list \<Rightarrow> bytes list \<Rightarrow> bytes list \<Rightarrow> (string \<times> nat \<times> nat) list" where
  "input_fields a lp st co he =
     (let tx = 4 * length (txs a) + sum_list (map length (txs a));
          ls = 4 * length st + sum_list (map length st); lc = 4 * length co + sum_list (map length co) in
     [(''si0'', 2, 16), (''si1'', 6, 80 + lp),
      (''npr_pl'', 18, 44), (''npr_vh'', 22, 44 + lp), (''npr_rq'', 58, 44 + lp),
      (''pl_extra'', 498, 540), (''pl_txs'', 566, 540 + length (extra a)), (''pl_wd'', 570, 540 + length (extra a) + tx),
      (''pl_bal'', 590, 540 + length (extra a) + tx + length (withdrawals a)),
      (''pl_gas_limit'', 474, gas_limit a mod 2 ^ 32),
      (''rq0'', 62 + lp, 20), (''rq1'', 66 + lp, 20), (''rq2'', 70 + lp, 20), (''rq3'', 74 + lp, 20), (''rq4'', 78 + lp, 20),
      (''wit0'', 82 + lp, 12), (''wit1'', 86 + lp, 12 + ls), (''wit2'', 90 + lp, 12 + ls + lc)])"

lemma dec_digit: "n < 10 \<Longrightarrow> dec n = [digit n]"
  by (simp add: dec.simps)

lemma offset_positions_eval:
  assumes "le32_at blob 2 = Inr 16" "le32_at blob 6 = Inr (80 + lp)" "le32_at blob 18 = Inr 44" "le32_at blob 58 = Inr (44 + lp)"
  shows "offset_positions blob = Inr (map (\<lambda>(n, at, v). (n, at)) (input_fields a lp st co he))"
proof -
  have u: "[0..<2] = [0, 1]" "[0..<3] = [0, 1, 2]" "[0..<5] = [0, 1, 2, 3, 4]" by (simp_all add: upt_rec)
  have d: "dec 0 = ''0''" "dec 1 = ''1''" "dec 2 = ''2''" "dec 3 = ''3''" "dec 4 = ''4''"
    by code_simp+
  show ?thesis
    using assms d by (simp add: offset_positions_def u input_fields_def Let_def)
qed

lemma le_fix_Suc: "le_fix (Suc k) n = word_of_nat n # le_fix k (n div 256)"
  by (simp add: le_fix_def)

lemma take_le_fix: "m \<le> k \<Longrightarrow> take m (le_fix k n) = le_fix m n"
proof (induction k arbitrary: m n)
  case (Suc k)
  then show ?case by (cases m) (simp_all add: le_fix_Suc, simp add: le_fix_def)
qed (simp add: le_fix_def)

lemma payload_fields:
  assumes "payload a = Inr p"
  shows "le32_at p 436 = Inr 540" "le32_at p 504 = Inr (540 + length (extra a))"
    "le32_at p 508 = Inr (540 + length (extra a) + (4 * length (txs a) + sum_list (map length (txs a))))"
    "le32_at p 528 = Inr (540 + length (extra a) + (4 * length (txs a) + sum_list (map length (txs a))) + length (withdrawals a))"
    "le32_at p 412 = Inr (gas_limit a mod 2 ^ 32)"
proof -
  from assms obtain q t where q: "seqs (map u64 [number a, gas_limit a, gas_used a, timestamp a, blob_gas_used a, excess_blob_gas a, slot a]) = Inr q"
    and t: "var_list (txs a) = Inr t" and pl: "container (payload_fixed q) [extra a, t, withdrawals a, bal a] = Inr p"
    by (auto simp: payload_def simp del: seqs_simps)
  from q have q': "q = map (le_fix 8) [number a, gas_limit a, gas_used a, timestamp a, blob_gas_used a, excess_blob_gas a, slot a]"
    by (auto simp: u64_def pack_u64_iff)
  have lt: "length t = 4 * length (txs a) + sum_list (map length (txs a))"
  proof (cases "txs a = []")
    case False
    with t show ?thesis using var_list_container [OF False] length_container by fastforce
  qed (use t in \<open>simp add: var_list_def\<close>)
  have l: "length q = 7" "list_all (\<lambda>x. length x = 8) q" by (simp_all add: q')
  note P = payload_layout [OF l pl]
  show "le32_at p 504 = Inr (540 + length (extra a))"
    "le32_at p 508 = Inr (540 + length (extra a) + (4 * length (txs a) + sum_list (map length (txs a))))"
    using P lt by simp_all
  have len: "fixed_len (payload_fixed q) = 540" by (rule fixed_len_payload [OF l])
  have s1: "payload_fixed q = take 10 (payload_fixed q) @ None # drop 11 (payload_fixed q)"
    and s2: "payload_fixed q = take 17 (payload_fixed q) @ None # drop 18 (payload_fixed q)"
    and s3: "payload_fixed q = take 7 (payload_fixed q) @ Some (le_fix 8 (gas_limit a)) # drop 8 (payload_fixed q)"
    by (simp_all add: payload_fixed_def q')
  have f: "fixed_len (take 10 (payload_fixed q)) = 436" "fixed_len (take 17 (payload_fixed q)) = 528"
    "fixed_len (take 7 (payload_fixed q)) = 412" "nones (take 10 (payload_fixed q)) = 0" "nones (take 17 (payload_fixed q)) = 3"
    by (simp_all add: payload_fixed_def q')
  have c1: "container (take 10 (payload_fixed q) @ None # drop 11 (payload_fixed q)) [extra a, t, withdrawals a, bal a] = Inr p"
    and c2: "container (take 17 (payload_fixed q) @ None # drop 18 (payload_fixed q)) [extra a, t, withdrawals a, bal a] = Inr p"
    and c3: "container (take 7 (payload_fixed q) @ Some (le_fix 8 (gas_limit a)) # drop 8 (payload_fixed q)) [extra a, t, withdrawals a, bal a] = Inr p"
    using pl by (simp_all only: s1 [symmetric] s2 [symmetric] s3 [symmetric])
  show "le32_at p 436 = Inr 540"
    using container_offset [OF c1] f len by (simp only: part_off_def s1 [symmetric]) simp
  show "le32_at p 528 = Inr (540 + length (extra a) + (4 * length (txs a) + sum_list (map length (txs a))) + length (withdrawals a))"
    using container_offset [OF c2] f len lt by (simp only: part_off_def s2 [symmetric]) (simp add: numeral_3_eq_3)
  have g: "bslice p 412 420 = le_fix 8 (gas_limit a)"
    using container_fixed [OF c3] f by simp
  have "bslice p 412 416 = take 4 (bslice p 412 420)" by (simp add: bslice_def)
  then have "bslice p 412 416 = le_fix 4 (gas_limit a)" using g by (simp add: take_le_fix)
  moreover have "416 \<le> length p" using length_container [OF pl] len by simp
  ultimately show "le32_at p 412 = Inr (gas_limit a mod 2 ^ 32)"
    by (simp add: le32_at_def from_le_def le_fix_def from_be_be_fix)
qed

lemma input_reads:
  assumes p: "payload a = Inr p" and w: "container [None, None, None] [s, c, h] = Inr w"
    and n: "container [None, None, Some (zeros 32), None] [p, [], concat (replicate 5 (le_fix 4 20))] = Inr n"
    and body: "container [None, None, Some (le_fix 8 chain)] [n, w] = Inr body"
    and l: "length s = 4 * length st + sum_list (map length st)" "length c = 4 * length co + sum_list (map length co)"
  shows "\<forall>(f, at, v) \<in> set (input_fields a (length p) st co he). le32_at (21 # 1 # body) at = Inr v"
proof -
  let ?b = "21 # 1 # body" and ?r = "concat (replicate 5 (le_fix 4 20)) :: bytes"
  have r: "length ?r = 20" by (simp add: replicate5)
  note I = input_layout [OF body] and R = request_parts [OF n, unfolded r] and N = npr_layout [OF n]
  note P = payload_fields [OF p] and W = witness_offsets [OF w] and Q = requests_offsets
  have d2: "drop 2 ?b = body @ []" by simp
  have d18: "drop 18 ?b = n @ w" using input_parts [OF body] by simp
  have d62: "drop 62 ?b = p @ ?r @ w"
  proof -
    have "drop 62 ?b = drop 44 (drop 18 ?b)" by simp
    also have "\<dots> = p @ ?r @ w" using R(2,3) by (simp only: d18) simp
    finally show ?thesis .
  qed
  have dr: "drop (62 + length p) ?b = ?r @ w"
    by (simp only: add.commute [of 62] drop_drop [symmetric] d62) simp
  have dw: "drop (82 + length p) ?b = w @ []"
  proof -
    have "drop (82 + length p) ?b = drop 20 (drop (62 + length p) ?b)"
      unfolding drop_drop by (rule arg_cong2 [where f = drop]) simp_all
    then show ?thesis using r by (simp only: dr) simp
  qed
  note reads = le32_at_inside [OF d2 I(1)] le32_at_inside [OF d2 I(2)] le32_at_inside [OF d18 N(1)] le32_at_inside [OF d18 N(2)]
    le32_at_inside [OF d18 R(1)] le32_at_inside [OF d62 P(1)] le32_at_inside [OF d62 P(2)] le32_at_inside [OF d62 P(3)]
    le32_at_inside [OF d62 P(4)] le32_at_inside [OF d62 P(5)]
    le32_at_inside [OF dr Q(1)] le32_at_inside [OF dr Q(2)] le32_at_inside [OF dr Q(3)] le32_at_inside [OF dr Q(4)]
    le32_at_inside [OF dr Q(5)] le32_at_inside [OF dw W(1)] le32_at_inside [OF dw W(2)] le32_at_inside [OF dw W(3)]
  show ?thesis
    using reads R(3) l by (simp add: input_fields_def Let_def add.commute add.left_commute numeral_2_eq_2)
qed

section \<open>The generated cases\<close>

lemma mask32: "v AND 0xffffffff = v mod 2 ^ 32" for v :: nat
proof -
  have "v AND 0xffffffff = take_bit 32 v" by (simp add: take_bit_eq_mask mask_eq_exp_minus_1)
  then show ?thesis by (simp add: take_bit_eq_mod)
qed

lemma overwrite32_Inr:
  assumes "at + 4 \<le> length blob"
  obtains b where "overwrite32 blob at v = Inr b" "length b = length blob" "take at b = take at blob"
    "drop (at + 4) b = drop (at + 4) blob" "le32_at b at = Inr (v mod 2 ^ 32)"
proof -
  let ?b = "take at blob @ le_fix 4 (v mod 2 ^ 32) @ drop (at + 4) blob"
  have "overwrite32 blob at v = Inr ?b" using assms by (simp add: overwrite32_def mask32)
  moreover have "le32_at ?b at = Inr (v mod 2 ^ 32)" by (rule le32_at_middle) (use assms in simp_all)
  ultimately show ?thesis using that assms by simp
qed

text \<open>What one field contributes: eight inputs that differ from the base in the field only.\<close>

definition overwrites :: "bytes \<Rightarrow> nat \<Rightarrow> string \<times> nat \<Rightarrow> string \<times> bytes \<Rightarrow> bool" where
  "overwrites blob at lv c \<longleftrightarrow> length (snd c) = length blob \<and> take at (snd c) = take at blob \<and>
     drop (at + 4) (snd c) = drop (at + 4) blob \<and> le32_at (snd c) at = Inr (snd lv mod 2 ^ 32)"

lemma overwrites_length: "list_all2 (overwrites blob at) lvs cs \<Longrightarrow> \<forall>c \<in> set cs. length (snd c) = length blob"
  by (induction rule: list_all2_induct) (simp_all add: overwrites_def)

lemma field_cases_Inr:
  assumes "le32_at blob at = Inr cur"
  obtains cs where "field_cases nm blob (f, at) = Inr cs"
    "list_all2 (overwrites blob at) (boundary_values cur (length blob)) cs"
proof -
  have at: "at + 4 \<le> length blob" using assms by (auto simp: le32_at_def split: if_splits)
  have "\<exists>cs. emap (\<lambda>(label, v). ebind (overwrite32 blob at v) (\<lambda>b. Inr (nm @ ''_'' @ f @ ''_'' @ label, b))) lvs = Inr cs \<and>
      list_all2 (overwrites blob at) lvs cs" for lvs
  proof (induction lvs)
    case (Cons lv lvs)
    then obtain cs where cs: "emap (\<lambda>(label, v). ebind (overwrite32 blob at v) (\<lambda>b. Inr (nm @ ''_'' @ f @ ''_'' @ label, b))) lvs = Inr cs"
      "list_all2 (overwrites blob at) lvs cs" by blast
    obtain l v where lv: "lv = (l, v)" by fastforce
    obtain b where "overwrite32 blob at v = Inr b" "length b = length blob" "take at b = take at blob"
      "drop (at + 4) b = drop (at + 4) blob" "le32_at b at = Inr (v mod 2 ^ 32)"
      by (rule overwrite32_Inr [OF at])
    with cs lv show ?case by (simp add: overwrites_def [of blob at "(l, v)"])
  qed simp
  from this [of "boundary_values cur (length blob)"] obtain cs where
    "field_cases nm blob (f, at) = Inr cs" "list_all2 (overwrites blob at) (boundary_values cur (length blob)) cs"
    using assms by (auto simp only: field_cases_def ebind_simps prod.case)
  then show ?thesis by (rule that)
qed

lemma blob_cases_Inr:
  assumes ps: "offset_positions blob = Inr ps" and reads: "\<forall>(f, at) \<in> set ps. \<exists>v. le32_at blob at = Inr v"
  obtains cs where "blob_cases (nm, blob) = Inr cs" "length cs = 1 + 8 * length ps" "\<forall>c \<in> set cs. length (snd c) = length blob"
proof -
  have "\<exists>cs. emap (field_cases nm blob) qs = Inr cs \<and> length (concat cs) = 8 * length qs \<and> (\<forall>c \<in> set (concat cs). length (snd c) = length blob)"
    if "set qs \<subseteq> set ps" for qs
    using that
  proof (induction qs)
    case (Cons q qs)
    obtain f at where q: "q = (f, at)" by fastforce
    with Cons.prems reads obtain v where "le32_at blob at = Inr v" by auto
    then obtain c where c: "field_cases nm blob q = Inr c" "list_all2 (overwrites blob at) (boundary_values v (length blob)) c"
      using field_cases_Inr q by metis
    have "length c = 8" using list_all2_lengthD [OF c(2)] by (simp add: boundary_values_def)
    moreover have "\<forall>x \<in> set c. length (snd x) = length blob"
      by (rule overwrites_length [OF c(2)])
    ultimately show ?case using c Cons by auto
  qed simp
  from this [of "sort_key (\<lambda>f. map (of_char :: char \<Rightarrow> nat) (fst f)) ps"] obtain cs where
    "emap (field_cases nm blob) (sort_key (\<lambda>f. map (of_char :: char \<Rightarrow> nat) (fst f)) ps) = Inr cs"
    "length (concat cs) = 8 * length ps" "\<forall>c \<in> set (concat cs). length (snd c) = length blob" by auto
  with that ps show ?thesis by (simp add: blob_cases_def)
qed

lemma mutate1_Inr:
  assumes "at < length b" "0 < d" "d < 256"
  obtains m where "mutate1 b (at, d) = Inr m" "length m = length b" "\<forall>i<length b. m ! i \<noteq> b ! i \<longleftrightarrow> i = at"
proof -
  have "(word_of_nat d :: byte) \<noteq> 0" using assms(2,3) by (simp add: word_of_nat_eq_0_iff nat_dvd_not_less)
  then have "b ! at + word_of_nat d \<noteq> b ! at" by simp
  then show ?thesis using that [of "b[at := b ! at + word_of_nat d]"] assms(1) by (auto simp: mutate1_def nth_list_update)
qed

lemma default_payload: obtains p where "payload pl_default = Inr p" "length p = 540"
  by (rule payload_ok [of pl_default]) (simp_all add: pl_in_range_def pl_default_def pl_size_def)

lemma default_witness: obtains w where "witness [] [] [] = Inr w" "length w = 12"
  by (rule witness_ok [of "[]" "[]" "[]"]) simp_all

lemma minimal_ok:
  assumes "chain < 2 ^ 64"
  obtains b where "stateless_input None None chain = Inr b" "length b = 634"
proof -
  obtain p where p: "payload pl_default = Inr p" "length p = 540" by (rule default_payload)
  obtain w where w: "witness [] [] [] = Inr w" "length w = 12" by (rule default_witness)
  obtain body where "stateless_input (Some p) (Some w) chain = Inr ([21, 1] @ body)" "length body = 632"
    by (rule stateless_input_ok [of chain p w]) (use assms p w in simp_all)
  then show ?thesis using that p w by (simp add: stateless_input_def)
qed

lemma stateless_input_default:
  assumes "pl_in_range a" "pl_size a + 100 < 2 ^ 32"
  shows "\<exists>b. ebind (payload a) (\<lambda>p. stateless_input (Some p) None 1) = Inr b"
proof -
  obtain p where p: "payload a = Inr p" "length p = pl_size a" using payload_ok [OF assms(1)] assms(2) by auto
  obtain w where w: "witness [] [] [] = Inr w" "length w = 12" by (rule default_witness)
  obtain body where "stateless_input (Some p) (Some w) 1 = Inr ([21, 1] @ body)"
    by (rule stateless_input_ok [of 1 p w]) (use p w assms in simp_all)
  then show ?thesis using p w by (simp add: stateless_input_def)
qed

lemma wit3_ok: "\<exists>b. ebind (witness [zeros 5, zeros 1024] [zeros 3] [zeros 7]) (\<lambda>w. stateless_input None (Some w) 1) = Inr b"
proof -
  obtain p where p: "payload pl_default = Inr p" "length p = 540" by (rule default_payload)
  obtain w where w: "witness [zeros 5, zeros 1024] [zeros 3] [zeros 7] = Inr w" "length w = 1067"
    by (rule witness_ok [of "[zeros 5, zeros 1024]" "[zeros 3]" "[zeros 7]"]) simp_all
  obtain body where "stateless_input (Some p) (Some w) 1 = Inr ([21, 1] @ body)"
    by (rule stateless_input_ok [of 1 p w]) (use p w in simp_all)
  then show ?thesis using p w by (simp add: stateless_input_def)
qed

lemma evaluated_ok: "(\<forall>(n, m) \<in> set cs. \<exists>b. m = Inr b) \<Longrightarrow> \<exists>bs. evaluated cs = Inr bs \<and> length bs = length cs"
  by (induction cs) (auto simp: evaluated_def)

lemma length_range256 [simp]: "length range256 = 256"
  by (simp add: range256_def)

lemma well_formed_cases_length: "length well_formed_cases = 10"
  by (simp add: well_formed_cases_def)

lemma well_formed_ok: "\<exists>bs. evaluated well_formed_cases = Inr bs \<and> length bs = 10"
proof -
  note ok = stateless_input_default
  have pls: "\<exists>b. ebind (payload (pl_default\<lparr>gas_limit := n\<rparr>)) (\<lambda>p. stateless_input (Some p) None 1) = Inr b"
    if "n < 2 ^ 64" for n
    by (rule ok) (use that in \<open>simp_all add: pl_in_range_def pl_size_def pl_default_def\<close>)
  have bal: "\<exists>b. ebind (payload (pl_default\<lparr>bal := concat (replicate 4 range256)\<rparr>)) (\<lambda>p. stateless_input (Some p) None 1) = Inr b"
    by (rule ok) (simp_all add: pl_in_range_def pl_size_def pl_default_def length_concat sum_list_replicate)
  have extra: "\<exists>b. ebind (payload (pl_default\<lparr>extra := zeros 32\<rparr>)) (\<lambda>p. stateless_input (Some p) None 1) = Inr b"
    by (rule ok) (simp_all add: pl_in_range_def pl_size_def pl_default_def)
  have tx: "\<exists>b. ebind (payload (pl_default\<lparr>txs := [zeros 10, zeros 20]\<rparr>)) (\<lambda>p. stateless_input (Some p) None 1) = Inr b"
    by (rule ok) (simp_all add: pl_in_range_def pl_size_def pl_default_def)
  have wd: "\<exists>b. ebind (payload (pl_default\<lparr>withdrawals := zeros 44\<rparr>)) (\<lambda>p. stateless_input (Some p) None 1) = Inr b"
    by (rule ok) (simp_all add: pl_in_range_def pl_size_def pl_default_def)
  have min: "\<exists>b. stateless_input None None n = Inr b" if "n < 2 ^ 64" for n using minimal_ok [OF that] by metis
  have "\<forall>(n, m) \<in> set well_formed_cases. \<exists>b. m = Inr b"
    unfolding well_formed_cases_def list.set ball_simps prod.case insert_iff
    using pls [of 200000000] pls [of 1] pls [of "2 ^ 64 - 1"] bal extra tx wd min [of 1] min [of 7] wit3_ok by simp
  from evaluated_ok [OF this] show ?thesis by (simp only: well_formed_cases_length)
qed

section \<open>Properties\<close>

text \<open>The size of what \<open>witness\<close> builds.\<close>

definition wit_size :: "bytes list \<Rightarrow> bytes list \<Rightarrow> bytes list \<Rightarrow> nat" where
  "wit_size st co he = 12 + (\<Sum>es\<leftarrow>[st, co, he]. 4 * length es + sum_list (map length es))"

lemma input_built:
  assumes "pl_in_range a" "chain < 2 ^ 64" "80 + pl_size a + wit_size st co he < 2 ^ 32"
  obtains p w body where "payload a = Inr p" "witness st co he = Inr w" "stateless_input (Some p) (Some w) chain = Inr (21 # 1 # body)"
    "length p = pl_size a" "\<forall>(f, at, v) \<in> set (input_fields a (pl_size a) st co he). le32_at (21 # 1 # body) at = Inr v"
    "bslice body 8 16 = le_fix 8 chain" "length body = 80 + pl_size a + wit_size st co he"
proof -
  obtain p where p: "payload a = Inr p" "length p = pl_size a"
    by (rule payload_ok [OF assms(1)]) (use assms(3) in simp_all)
  obtain w s c h where w: "witness st co he = Inr w" "length w = wit_size st co he" "var_list st = Inr s" "var_list co = Inr c"
    "container [None, None, None] [s, c, h] = Inr w"
    by (rule witness_ok [of st co he]) (use assms(3) in \<open>simp_all add: wit_size_def\<close>)
  obtain n body where b: "stateless_input (Some p) (Some w) chain = Inr ([21, 1] @ body)" "length body = 80 + length p + length w"
    "container [None, None, Some (le_fix 8 chain)] [n, w] = Inr body"
    "container [None, None, Some (zeros 32), None] [p, [], concat (replicate 5 (le_fix 4 20))] = Inr n"
    by (rule stateless_input_ok [of chain p w]) (use assms(2,3) p(2) w(2) in simp_all)
  have vl: "length b = 4 * length es + sum_list (map length es)" if "var_list es = Inr b" for es b
  proof (cases "es = []")
    case False
    with that show ?thesis using var_list_container [OF False] length_container by fastforce
  qed (use that in \<open>simp add: var_list_def\<close>)
  have "\<forall>(f, at, v) \<in> set (input_fields a (pl_size a) st co he). le32_at (21 # 1 # body) at = Inr v"
    using input_reads [OF p(1) w(5) b(4,3) vl [OF w(3)] vl [OF w(4)]] by (simp only: p(2))
  moreover have "bslice body 8 16 = le_fix 8 chain" by (rule input_layout(5) [OF b(3)]) simp
  moreover have "stateless_input (Some p) (Some w) chain = Inr (21 # 1 # body)" using b(1) by simp
  moreover have "length body = 80 + pl_size a + wit_size st co he" using b(2) p(2) w(2) by simp
  ultimately show ?thesis using that [OF p(1) w(1) _ p(2)] by blast
qed

lemma input_positions:
  assumes "\<forall>(f, at, v) \<in> set (input_fields a lp st co he). le32_at blob at = Inr v"
  shows "offset_positions blob = Inr (map (\<lambda>(n, at, v). (n, at)) (input_fields a lp st co he))"
proof (rule offset_positions_eval)
  show "le32_at blob 2 = Inr 16" using bspec [OF assms, of "(''si0'', 2, 16)"] by (simp add: input_fields_def Let_def)
  show "le32_at blob 6 = Inr (80 + lp)" using bspec [OF assms, of "(''si1'', 6, 80 + lp)"] by (simp add: input_fields_def Let_def)
  show "le32_at blob 18 = Inr 44" using bspec [OF assms, of "(''npr_pl'', 18, 44)"] by (simp add: input_fields_def Let_def)
  show "le32_at blob 58 = Inr (44 + lp)" using bspec [OF assms, of "(''npr_rq'', 58, 44 + lp)"] by (simp add: input_fields_def Let_def)
qed

lemma packed_input:
  assumes "pl_in_range a" "chain < 2 ^ 64" "80 + pl_size a + wit_size st co he < 2 ^ 32"
  obtains p w blob f where "payload a = Inr p" "witness st co he = Inr w" "stateless_input (Some p) (Some w) chain = Inr blob"
    "take 2 blob = [0x15, 0x01]" "le64_at (drop 2 blob) 8 = Inr chain"
    "pack blob = Inr f" "frame blob = Inr f" "unframe f = Inr blob" "length f mod 8 = 0"
proof -
  obtain p w body where b: "payload a = Inr p" "witness st co he = Inr w" "stateless_input (Some p) (Some w) chain = Inr (21 # 1 # body)"
    "bslice body 8 16 = le_fix 8 chain" "length body = 80 + pl_size a + wit_size st co he"
    by (rule input_built [OF assms])
  let ?blob = "21 # 1 # body"
  have "length ?blob < 2 ^ 64" using b(5) assms(3) by simp
  then obtain f where f: "frame ?blob = Inr f" by (simp add: frame_def pack_u64_def del: length_Cons)
  have "le64_at (drop 2 ?blob) 8 = Inr chain" using b(4,5) assms(2) by (simp add: le64_at_def)
  then show ?thesis using that [of p w ?blob f] b(1-3) f frame_Inr [OF f] by (simp add: pack_frame)
qed

text \<open>C12: Encoding and reading back: for in-range integers and a total size below \<open>2 ^ 32\<close> no encoder
  raises, the input starts with the schema id \<open>15 01\<close> (hexadecimal), the chain id is the third
  field of the body, and \<open>fixture_txs\<close> of \<open>exp_tx.py\<close> reads back exactly the transactions that
  were encoded; the framed input is a multiple of eight bytes long and \<open>unframe\<close> recovers it.\<close>

theorem stateless_input_roundtrip:
  assumes "pl_in_range a" "chain < 2 ^ 64" "80 + pl_size a + wit_size st co he < 2 ^ 32"
  shows "\<exists>p w blob f. payload a = Inr p \<and> witness st co he = Inr w \<and> stateless_input (Some p) (Some w) chain = Inr blob \<and>
    take 2 blob = [0x15, 0x01] \<and> le64_at (drop 2 blob) 8 = Inr chain \<and> fixture_txs blob = Inr (txs a) \<and>
    pack blob = Inr f \<and> frame blob = Inr f \<and> unframe f = Inr blob \<and> length f mod 8 = 0"
proof -
  obtain p w blob f where b: "payload a = Inr p" "witness st co he = Inr w" "stateless_input (Some p) (Some w) chain = Inr blob"
    "take 2 blob = [0x15, 0x01]" "le64_at (drop 2 blob) 8 = Inr chain"
    "pack blob = Inr f" "frame blob = Inr f" "unframe f = Inr blob" "length f mod 8 = 0"
    by (rule packed_input [OF assms])
  then show ?thesis using fixture_txs_input [OF b(1,3)] by (intro exI [of _ p] exI [of _ w] exI [of _ blob] exI [of _ f] conjI)
qed

theorem stateless_input_roundtrip_witness:
  "\<exists>p w blob f. payload pl_default = Inr p \<and> witness [] [[7]] [] = Inr w \<and> stateless_input (Some p) (Some w) 1 = Inr blob \<and>
    take 2 blob = [0x15, 0x01] \<and> le64_at (drop 2 blob) 8 = Inr 1 \<and> fixture_txs blob = Inr (txs pl_default) \<and>
    pack blob = Inr f \<and> frame blob = Inr f \<and> unframe f = Inr blob \<and> length f mod 8 = 0"
  by (rule stateless_input_roundtrip) (simp_all add: pl_in_range_def pl_default_def pl_size_def wit_size_def)

text \<open>C13: \<open>offset_positions\<close> finds every field of an encoded input: it returns the eighteen names with
  their byte positions, and the 32-bit word that the encoder wrote there is the offset of the part
  that the field names, from the start of its container (for \<open>pl_gas_limit\<close>, which is not an
  offset, the low half of the gas limit).\<close>

theorem offset_positions_correct:
  assumes "pl_in_range a" "chain < 2 ^ 64" "80 + pl_size a + wit_size st co he < 2 ^ 32"
  shows "\<exists>p w blob. payload a = Inr p \<and> witness st co he = Inr w \<and> stateless_input (Some p) (Some w) chain = Inr blob \<and>
    offset_positions blob = Inr (map (\<lambda>(n, at, v). (n, at)) (input_fields a (pl_size a) st co he)) \<and>
    (\<forall>(n, at, v) \<in> set (input_fields a (pl_size a) st co he). le32_at blob at = Inr v)"
proof -
  obtain p w body where b: "payload a = Inr p" "witness st co he = Inr w" "stateless_input (Some p) (Some w) chain = Inr (21 # 1 # body)"
    "\<forall>(f, at, v) \<in> set (input_fields a (pl_size a) st co he). le32_at (21 # 1 # body) at = Inr v"
    by (rule input_built [OF assms])
  show ?thesis using b input_positions [OF b(4)] by blast
qed

theorem offset_positions_correct_witness:
  "\<exists>p w blob. payload pl_default = Inr p \<and> witness [] [[7]] [] = Inr w \<and> stateless_input (Some p) (Some w) 1 = Inr blob \<and>
    offset_positions blob = Inr (map (\<lambda>(n, at, v). (n, at)) (input_fields pl_default (pl_size pl_default) [] [[7]] [])) \<and>
    (\<forall>(n, at, v) \<in> set (input_fields pl_default (pl_size pl_default) [] [[7]] []). le32_at blob at = Inr v)"
  by (rule offset_positions_correct) (simp_all add: pl_in_range_def pl_default_def pl_size_def wit_size_def)

text \<open>The generated base cases: for draws in the ranges that \<open>randrange\<close> is called with, generation
  does not raise; it gives ten well-formed inputs, one input per draw that differs from the minimal
  input in exactly the drawn byte, and ten prefixes of the minimal input.\<close>

theorem base_cases_shape:
  assumes "\<forall>(at, d) \<in> set draws. at < 634 \<and> 0 < d \<and> d < 256"
  shows "\<exists>base cs. stateless_input None None 1 = Inr base \<and> length base = 634 \<and> base_cases draws = Inr cs \<and>
    length cs = 20 + length draws \<and>
    (\<forall>k<length draws. length (snd (cs ! (10 + k))) = 634 \<and>
       (\<forall>i<634. snd (cs ! (10 + k)) ! i \<noteq> base ! i \<longleftrightarrow> i = fst (draws ! k))) \<and>
    (\<forall>k<10. \<exists>n. snd (cs ! (10 + length draws + k)) = take n base)"
proof -
  obtain base where base: "stateless_input None None 1 = Inr base" "length base = 634" by (rule minimal_ok [of 1]) (simp_all del: One_nat_def)
  obtain wf where wf: "evaluated well_formed_cases = Inr wf" "length wf = 10" using well_formed_ok by blast
  define mut where "mut d = base[fst d := base ! fst d + word_of_nat (snd d)]" for d :: "nat \<times> nat"
  have m: "mutate1 base d = Inr (mut d) \<and> length (mut d) = 634 \<and> (\<forall>i<634. mut d ! i \<noteq> base ! i \<longleftrightarrow> i = fst d)" if "d \<in> set draws" for d
  proof -
    obtain at e where d: "d = (at, e)" by fastforce
    then have r: "at < length base" "0 < e" "e < 256" using assms that base(2) by auto
    obtain x where x: "mutate1 base (at, e) = Inr x" "length x = length base" "\<forall>i<length base. x ! i \<noteq> base ! i \<longleftrightarrow> i = at"
      by (rule mutate1_Inr [OF r])
    moreover have "x = mut d" using x(1) r(1) by (simp add: mutate1_def mut_def d)
    ultimately show ?thesis using base(2) d by simp
  qed
  define ms where "ms = map (\<lambda>(k, d). (''mut'' @ dec2 k @ ''_at'' @ dec (fst d), mut d)) (enumerate 0 draws)"
  define ns where "ns = [0, 1, 2, 3, 15, 16, 17, 60, length base div 2, length base - 1]"
  have ns: "length ns = 10" by (simp add: ns_def)
  define ts where "ts = map (\<lambda>(k, n). (''trunc'' @ dec2 k @ ''_'' @ dec n, bslice base 0 n))
    (enumerate 0 ns)"
  have ev: "evaluated (map (\<lambda>(k, d). (''mut'' @ dec2 k @ ''_at'' @ dec (fst d), mutate1 base d)) (enumerate 0 draws)) = Inr ms"
    using m unfolding evaluated_def ms_def
    by (auto simp: emap_Inr_iff list_all2_conv_all_nth nth_enumerate_eq)
  have cs: "base_cases draws = Inr (wf @ ms @ ts)"
    by (simp only: base_cases_def wf(1) base(1) ev ebind_simps ts_def ns_def)
  have len: "length ms = length draws" "length ts = 10" by (simp_all add: ms_def ts_def ns)
  have mk: "snd ((wf @ ms @ ts) ! (10 + k)) = mut (draws ! k)" if "k < length draws" for k
    using that wf(2) len(1) by (simp add: nth_append ms_def nth_enumerate_eq)
  have tk: "\<exists>n. snd ((wf @ ms @ ts) ! (10 + length draws + k)) = take n base" if "k < 10" for k
  proof -
    have "(wf @ ms @ ts) ! (10 + length draws + k) = ts ! k" using wf(2) len by (simp add: nth_append)
    moreover have "snd (ts ! k) = take (ns ! k) base" using that by (simp add: ts_def bslice_def nth_enumerate_eq ns)
    ultimately show ?thesis by metis
  qed
  have "length (mut (draws ! k)) = 634 \<and> (\<forall>i<634. mut (draws ! k) ! i \<noteq> base ! i \<longleftrightarrow> i = fst (draws ! k))" if "k < length draws" for k
    using m [of "draws ! k"] that by simp
  then show ?thesis using base cs mk tk wf(2) len by (intro exI [of _ base] exI [of _ "wf @ ms @ ts"]) simp
qed

theorem base_cases_shape_witness:
  "\<exists>base cs. stateless_input None None 1 = Inr base \<and> length base = 634 \<and> base_cases [(3, 255)] = Inr cs \<and>
    length cs = 20 + length [(3 :: nat, 255 :: nat)] \<and>
    (\<forall>k<length [(3 :: nat, 255 :: nat)]. length (snd (cs ! (10 + k))) = 634 \<and>
       (\<forall>i<634. snd (cs ! (10 + k)) ! i \<noteq> base ! i \<longleftrightarrow> i = fst ([(3, 255 :: nat)] ! k))) \<and>
    (\<forall>k<10. \<exists>n. snd (cs ! (10 + length [(3 :: nat, 255 :: nat)] + k)) = take n base)"
  by (rule base_cases_shape) simp

text \<open>Fuzzing one field: where the field is inside the input, exactly eight cases are made, one per
  boundary value in order; each has the length of the input, agrees with it outside the four bytes of
  the field, and holds the boundary value modulo \<open>2 ^ 32\<close> there.\<close>

theorem field_cases_local:
  assumes "le32_at blob at = Inr cur"
  shows "\<exists>cs. field_cases nm blob (f, at) = Inr cs \<and> length cs = 8 \<and>
    map (\<lambda>c. le32_at (snd c) at) cs = map (\<lambda>v. Inr (v mod 2 ^ 32))
      [0, cur - 1, cur + 1, cur + 4, length blob, length blob + 1, 0xffffffff, length blob div 2] \<and>
    (\<forall>c \<in> set cs. length (snd c) = length blob \<and> take at (snd c) = take at blob \<and> drop (at + 4) (snd c) = drop (at + 4) blob)"
proof -
  obtain cs where cs: "field_cases nm blob (f, at) = Inr cs"
    and ov: "list_all2 (overwrites blob at) (boundary_values cur (length blob)) cs"
    by (rule field_cases_Inr [OF assms])
  from ov have "map (\<lambda>c. le32_at (snd c) at) cs = map (\<lambda>v. Inr (v mod 2 ^ 32)) (map snd (boundary_values cur (length blob)))"
    by (induction rule: list_all2_induct) (simp_all add: overwrites_def)
  moreover from ov have "\<forall>c \<in> set cs. length (snd c) = length blob \<and> take at (snd c) = take at blob \<and> drop (at + 4) (snd c) = drop (at + 4) blob"
    by (induction rule: list_all2_induct) (simp_all add: overwrites_def)
  moreover have "length cs = 8" using list_all2_lengthD [OF ov] by (simp add: boundary_values_def)
  ultimately show ?thesis using cs by (simp add: boundary_values_def)
qed

theorem field_cases_local_witness:
  "\<exists>cs. field_cases ''b'' [1, 0, 0, 0] (''x'', 0) = Inr cs \<and> length cs = 8 \<and>
    map (\<lambda>c. le32_at (snd c) 0) cs = map (\<lambda>v. Inr (v mod 2 ^ 32))
      [0, 1 - 1, 1 + 1, 1 + 4, length [1 :: byte, 0, 0, 0], length [1 :: byte, 0, 0, 0] + 1, 0xffffffff,
       length [1 :: byte, 0, 0, 0] div 2] \<and>
    (\<forall>c \<in> set cs. length (snd c) = length [1 :: byte, 0, 0, 0] \<and> take 0 (snd c) = take 0 [1, 0, 0, 0] \<and>
       drop (0 + 4) (snd c) = drop (0 + 4) [1, 0, 0, 0])"
  by (rule field_cases_local) code_simp

definition lite_args :: pl_args where
  "lite_args = pl_default\<lparr>gas_limit := 123456789, gas_used := 7, number := 9, timestamp := 11, extra := zeros 12,
     txs := [zeros 3, zeros 70, zeros 1], withdrawals := zeros 88, bal := zeros 96, slot := 5\<rparr>"

lemma fuzz_base:
  assumes "pl_in_range a" "chain < 2 ^ 64" "80 + pl_size a + wit_size st co he < 2 ^ 32"
  obtains p w b cs where "payload a = Inr p" "witness st co he = Inr w" "stateless_input (Some p) (Some w) chain = Inr b"
    "length b = 82 + pl_size a + wit_size st co he"
    "blob_cases (nm, b) = Inr cs" "length cs = 145" "\<forall>c \<in> set cs. length (snd c) = length b"
proof -
  obtain p w body where b: "payload a = Inr p" "witness st co he = Inr w" "stateless_input (Some p) (Some w) chain = Inr (21 # 1 # body)"
    "\<forall>(f, at, v) \<in> set (input_fields a (pl_size a) st co he). le32_at (21 # 1 # body) at = Inr v"
    "length body = 80 + pl_size a + wit_size st co he"
    by (rule input_built [OF assms])
  let ?ps = "map (\<lambda>(n, at, v). (n, at)) (input_fields a (pl_size a) st co he)"
  have r: "\<forall>(f, at) \<in> set ?ps. \<exists>v. le32_at (21 # 1 # body) at = Inr v" using b(4) by fastforce
  obtain cs where cs: "blob_cases (nm, 21 # 1 # body) = Inr cs" "length cs = 1 + 8 * length ?ps"
    "\<forall>c \<in> set cs. length (snd c) = length (21 # 1 # body)"
    by (rule blob_cases_Inr [OF input_positions [OF b(4)] r])
  have "length (input_fields a (pl_size a) st co he) = 18" by (simp add: input_fields_def Let_def)
  then have "length cs = 145" using cs(2) by (simp only: length_map)
  moreover have "length (21 # 1 # body) = 82 + pl_size a + wit_size st co he" using b(5) by simp
  ultimately show ?thesis using that [OF b(1-3) _ cs(1) _ cs(3)] by blast
qed

text \<open>\<open>fuzz_cases\<close> never raises: it makes 145 inputs from each of its two bases (the base itself and
  eight per position), all of the length of their base, 634 and 1076 bytes.\<close>

theorem fuzz_cases_total:
  "\<exists>cs. fuzz_cases = Inr cs \<and>
     map (\<lambda>c. length (snd c)) cs = replicate 145 634 @ replicate 145 1076"
proof -
  obtain p w b cs where min: "payload pl_default = Inr p" "witness [] [] [] = Inr w" "stateless_input (Some p) (Some w) 1 = Inr b"
    "length b = 82 + pl_size pl_default + wit_size [] [] []"
    "blob_cases (''min'', b) = Inr cs" "length cs = 145" "\<forall>c \<in> set cs. length (snd c) = length b"
    by (rule fuzz_base [of pl_default 1 "[]" "[]" "[]" "''min''"])
      (simp add: pl_in_range_def pl_default_def, simp, simp add: pl_default_def pl_size_def wit_size_def, blast)
  obtain p' w' b' cs' where lite: "payload lite_args = Inr p'" "witness [zeros 2, zeros 33] [zeros 1, zeros 40] [zeros 64] = Inr w'"
    "stateless_input (Some p') (Some w') 11155111 = Inr b'"
    "length b' = 82 + pl_size lite_args + wit_size [zeros 2, zeros 33] [zeros 1, zeros 40] [zeros 64]"
    "blob_cases (''lite'', b') = Inr cs'" "length cs' = 145" "\<forall>c \<in> set cs'. length (snd c) = length b'"
    by (rule fuzz_base [of lite_args 11155111 "[zeros 2, zeros 33]" "[zeros 1, zeros 40]" "[zeros 64]" "''lite''"])
      (simp add: pl_in_range_def lite_args_def pl_default_def, simp, simp add: lite_args_def pl_default_def pl_size_def wit_size_def, blast)
  have m: "stateless_input None None 1 = Inr b" using min(1-3) by (simp add: stateless_input_def)
  have l: "lite_input = Inr b'" using lite(1-3) by (simp add: lite_input_def lite_args_def)
  have "fuzz_cases = Inr (cs @ cs')"
    by (simp add: fuzz_cases_def evaluated_def m [simplified] l min(5) lite(5))
  moreover have "length b = 634" using min(4) by (simp add: pl_size_def pl_default_def wit_size_def)
  moreover have "length b' = 1076" using lite(4) by (simp add: pl_size_def lite_args_def pl_default_def wit_size_def)
  ultimately have "map (\<lambda>c. length (snd c)) cs = replicate 145 634" "map (\<lambda>c. length (snd c)) cs' = replicate 145 1076"
    using min(6,7) lite(6,7) by (auto intro!: nth_equalityI)
  then show ?thesis
    by (intro exI [of _ "cs @ cs'"] conjI \<open>fuzz_cases = Inr (cs @ cs')\<close>) (simp only: map_append)
qed

end
