(* ===== verification/Tx.thy ===== *)
theory Tx
  imports RlpTree Keccak
begin

text \<open>
  Transactions of \<open>guest/test/exp_tx.py\<close>: the strict decoder of the five transaction types, the
  encoder, the signing hash, the chain id and the signature recovery parameters.  A transaction
  is a Python dictionary; its optional keys are \<open>option\<close> fields and reading an absent one is a
  \<open>KeyError\<close>.
\<close>

section \<open>Data\<close>

record auth =
  auth_chain_id :: nat
  auth_address :: bytes
  auth_nonce :: nat
  auth_y_parity :: nat
  auth_r :: nat
  auth_s :: nat

type_synonym access = "bytes \<times> bytes list"

record tx =
  raw :: bytes
  ttype :: nat
  chain_id :: "nat option"
  nonce :: nat
  gas_price :: "nat option"
  max_priority_fee_per_gas :: "nat option"
  max_fee_per_gas :: "nat option"
  gas :: nat
  tx_to :: "bytes option"
  tx_value :: nat
  tx_data :: bytes
  access_list :: "access list option"
  max_fee_per_blob_gas :: "nat option"
  blob_versioned_hashes :: "bytes list option"
  authorizations :: "auth list option"
  y_parity :: "nat option"
  tx_v :: "nat option"
  tx_r :: nat
  tx_s :: nat

section \<open>Item decoders\<close>

definition d_scalar :: "rlp \<Rightarrow> nat option \<Rightarrow> nat res" where
  "d_scalar it maxb =
     (case it of
        RList _ \<Rightarrow> Inl (TxErr ''invalid uint'')
      | RBytes b \<Rightarrow>
          if b \<noteq> [] \<and> b ! 0 = 0 then Inl (TxErr ''non-canonical integer'')
          else if (case maxb of None \<Rightarrow> False | Some m \<Rightarrow> length b > m) then Inl (TxErr ''integer out of range'')
          else Inr (from_be b))"

definition d_bytes :: "rlp \<Rightarrow> bytes res" where
  "d_bytes it = (case it of RList _ \<Rightarrow> Inl (TxErr ''invalid bytes'') | RBytes b \<Rightarrow> Inr b)"

definition d_fixed :: "rlp \<Rightarrow> nat \<Rightarrow> bytes res" where
  "d_fixed it w =
     (case it of RList _ \<Rightarrow> Inl (TxErr ''invalid fixed bytes'')
      | RBytes b \<Rightarrow> if length b \<noteq> w then Inl (TxErr ''invalid fixed bytes'') else Inr b)"

definition d_to :: "rlp \<Rightarrow> bytes option res" where
  "d_to it =
     (case it of RList _ \<Rightarrow> Inl (TxErr ''invalid to'')
      | RBytes b \<Rightarrow> if length b = 0 then Inr None
          else if length b \<noteq> 20 then Inl (TxErr ''invalid to'') else Inr (Some b))"

definition d_access :: "rlp \<Rightarrow> access res" where
  "d_access it =
     (case it of RList [a, RList ks] \<Rightarrow>
          ebind (d_fixed a 20) (\<lambda>addr. ebind (emap (\<lambda>s. d_fixed s 32) ks) (\<lambda>slots. Inr (addr, slots)))
      | _ \<Rightarrow> Inl (TxErr ''invalid access-list entry''))"

definition d_auth :: "rlp \<Rightarrow> auth res" where
  "d_auth it =
     (case it of RList [cid, addr, n, yp, r, s] \<Rightarrow>
          ebind (d_scalar cid (Some 32)) (\<lambda>cid.
          ebind (d_fixed addr 20) (\<lambda>addr.
          ebind (d_scalar n (Some 8)) (\<lambda>n.
          ebind (d_scalar yp (Some 1)) (\<lambda>yp.
          ebind (d_scalar r (Some 32)) (\<lambda>r.
          ebind (d_scalar s (Some 32)) (\<lambda>s.
            Inr \<lparr>auth_chain_id = cid, auth_address = addr, auth_nonce = n, auth_y_parity = yp,
                 auth_r = r, auth_s = s\<rparr>))))))
      | _ \<Rightarrow> Inl (TxErr ''invalid authorization''))"

definition d_list :: "rlp \<Rightarrow> rlp list res" where
  "d_list it = (case it of RBytes _ \<Rightarrow> Inl (TxErr ''expected list'') | RList xs \<Rightarrow> Inr xs)"

section \<open>Decoding a transaction\<close>

text \<open>
  The dictionary while it is filled: \<open>empty_tx\<close> has the raw bytes and no other key; each step
  below is one \<open>tx.update\<close> (or assignment) of the code, in its order.  The mandatory keys get a
  value on every path that returns.
\<close>

definition empty_tx :: "bytes \<Rightarrow> tx" where
  "empty_tx b = \<lparr>raw = b, ttype = 0, chain_id = None, nonce = 0, gas_price = None,
     max_priority_fee_per_gas = None, max_fee_per_gas = None, gas = 0, tx_to = None, tx_value = 0,
     tx_data = [], access_list = None, max_fee_per_blob_gas = None, blob_versioned_hashes = None,
     authorizations = None, y_parity = None, tx_v = None, tx_r = 0, tx_s = 0\<rparr>"

text \<open>
  The first update of each typed transaction; what it leaves is the fields of the common tail:
  value, data, access list, the fields of the type's own, and the signature.
\<close>

type_synonym tail = "rlp \<times> rlp \<times> rlp \<times> rlp list \<times> rlp \<times> rlp \<times> rlp"

definition head1 :: "tx \<Rightarrow> rlp list \<Rightarrow> (tx \<times> tail) res" where
  "head1 tx f =
     (case f of [cid, n, gp, g, to, vl, data, al, yp, r, s] \<Rightarrow>
        ebind (d_scalar cid (Some 8)) (\<lambda>cid. ebind (d_scalar n (Some 32)) (\<lambda>n.
        ebind (d_scalar gp None) (\<lambda>gp. ebind (d_scalar g None) (\<lambda>g. ebind (d_to to) (\<lambda>to.
          Inr (tx\<lparr>chain_id := Some cid, nonce := n, gas_price := Some gp, gas := g, tx_to := to\<rparr>,
               (vl, data, al, [], yp, r, s)))))))
      | _ \<Rightarrow> Inl (TxErr ''AccessListTransaction needs 11 fields''))"

definition head_fees :: "tx \<Rightarrow> nat \<Rightarrow> rlp \<Rightarrow> rlp \<Rightarrow> rlp \<Rightarrow> rlp \<Rightarrow> rlp \<Rightarrow> bytes option res \<Rightarrow> tx res" where
  \<comment> \<open>the update that types 2, 3 and 4 share up to the nonce's bound and the decoding of \<open>to\<close>\<close>
  "head_fees tx nb cid n prio mf g to =
     ebind (d_scalar cid (Some 8)) (\<lambda>cid. ebind (d_scalar n (Some nb)) (\<lambda>n.
     ebind (d_scalar prio None) (\<lambda>prio. ebind (d_scalar mf None) (\<lambda>mf.
     ebind (d_scalar g None) (\<lambda>g. ebind to (\<lambda>to.
       Inr (tx\<lparr>chain_id := Some cid, nonce := n, max_priority_fee_per_gas := Some prio,
               max_fee_per_gas := Some mf, gas := g, tx_to := to\<rparr>)))))))"

definition head2 :: "tx \<Rightarrow> rlp list \<Rightarrow> (tx \<times> tail) res" where
  "head2 tx f =
     (case f of [cid, n, prio, mf, g, to, vl, data, al, yp, r, s] \<Rightarrow>
        ebind (head_fees tx 32 cid n prio mf g (d_to to)) (\<lambda>tx. Inr (tx, (vl, data, al, [], yp, r, s)))
      | _ \<Rightarrow> Inl (TxErr ''FeeMarketTransaction needs 12 fields''))"

definition head3 :: "tx \<Rightarrow> rlp list \<Rightarrow> (tx \<times> tail) res" where
  "head3 tx f =
     (case f of [cid, n, prio, mf, g, to, vl, data, al, bf, bvh, yp, r, s] \<Rightarrow>
        ebind (head_fees tx 32 cid n prio mf g (ebind (d_fixed to 20) (\<lambda>t. Inr (Some t))))
          (\<lambda>tx. Inr (tx, (vl, data, al, [bf, bvh], yp, r, s)))
      | _ \<Rightarrow> Inl (TxErr ''BlobTransaction needs 14 fields''))"

definition head4 :: "tx \<Rightarrow> rlp list \<Rightarrow> (tx \<times> tail) res" where
  "head4 tx f =
     (case f of [cid, n, prio, mf, g, to, vl, data, al, auths, yp, r, s] \<Rightarrow>
        ebind (head_fees tx 8 cid n prio mf g (ebind (d_fixed to 20) (\<lambda>t. Inr (Some t))))
          (\<lambda>tx. Inr (tx, (vl, data, al, [auths], yp, r, s)))
      | _ \<Rightarrow> Inl (TxErr ''SetCodeTransaction needs 13 fields''))"

text \<open>The tail's updates of types 3 and 4; the heads hand over exactly the items they unpack.\<close>

definition tail_blob :: "tx \<Rightarrow> rlp list \<Rightarrow> tx res" where
  "tail_blob tx ext =
     (if ttype tx = 3 then
        (case ext of [bf, bvh] \<Rightarrow>
           ebind (d_scalar bf (Some 32)) (\<lambda>bf. ebind (d_list bvh) (\<lambda>hs. ebind (emap (\<lambda>h. d_fixed h 32) hs) (\<lambda>hs.
             Inr (tx\<lparr>max_fee_per_blob_gas := Some bf, blob_versioned_hashes := Some hs\<rparr>))))
         | _ \<Rightarrow> Inl ValueError)
      else Inr tx)"

definition tail_auths :: "tx \<Rightarrow> rlp list \<Rightarrow> tx res" where
  "tail_auths tx ext =
     (if ttype tx = 4 then
        (case ext of [auths] \<Rightarrow>
           ebind (d_list auths) (\<lambda>as. ebind (emap d_auth as) (\<lambda>as. Inr (tx\<lparr>authorizations := Some as\<rparr>)))
         | _ \<Rightarrow> Inl ValueError)
      else Inr tx)"

definition tail_tx :: "tx \<times> tail \<Rightarrow> tx res" where
  "tail_tx = (\<lambda>(tx, vl, data, al, ext, yp, r, s).
     ebind (d_scalar vl (Some 32)) (\<lambda>vl. ebind (d_bytes data) (\<lambda>data.
     ebind (d_list al) (\<lambda>al. ebind (emap d_access al) (\<lambda>al.
     ebind (tail_blob (tx\<lparr>tx_value := vl, tx_data := data, access_list := Some al\<rparr>) ext) (\<lambda>tx.
     ebind (tail_auths tx ext) (\<lambda>tx.
     ebind (d_scalar yp (Some 32)) (\<lambda>yp. ebind (d_scalar r (Some 32)) (\<lambda>r. ebind (d_scalar s (Some 32)) (\<lambda>s.
       Inr (tx\<lparr>y_parity := Some yp, tx_r := r, tx_s := s\<rparr>)))))))))))"

definition decode_legacy :: "tx \<Rightarrow> rlp list \<Rightarrow> tx res" where
  "decode_legacy tx f =
     (case f of [n, gp, g, to, vl, data, v, r, s] \<Rightarrow>
        ebind (d_scalar n (Some 32)) (\<lambda>n. ebind (d_scalar gp None) (\<lambda>gp. ebind (d_scalar g None) (\<lambda>g.
        ebind (d_to to) (\<lambda>to. ebind (d_scalar vl (Some 32)) (\<lambda>vl. ebind (d_bytes data) (\<lambda>data.
        ebind (d_scalar v (Some 32)) (\<lambda>v. ebind (d_scalar r (Some 32)) (\<lambda>r. ebind (d_scalar s (Some 32)) (\<lambda>s.
          Inr (tx\<lparr>ttype := 0, nonce := n, gas_price := Some gp, gas := g, tx_to := to, tx_value := vl,
                  tx_data := data, tx_v := Some v, tx_r := r, tx_s := s\<rparr>))))))))))
      | _ \<Rightarrow> Inl (TxErr ''LegacyTransaction needs 9 fields''))"

text \<open>The bounds of the guest's envelope, checked at the end.\<close>

definition envelope :: "tx \<Rightarrow> tx res" where
  "envelope tx =
     (let big = (\<lambda>k. case k of None \<Rightarrow> False | Some n \<Rightarrow> n \<ge> 2 ^ 256) in
      if big (gas_price tx) \<or> big (max_priority_fee_per_gas tx) \<or> big (max_fee_per_gas tx)
      then Inl (TxErr ''envelope: fee > 32 bytes'')
      else if gas tx \<ge> 2 ^ 64 then Inl (TxErr ''envelope: gas > 8 bytes'')
      else Inr tx)"

definition decode_transaction :: "bytes \<Rightarrow> tx res" where
  "decode_transaction rw =
     (if length rw = 0 then Inl (TxErr ''empty transaction'') else
      let b0 = unat (rw ! 0); tx = empty_tx rw in
      ebind
        (if 1 \<le> b0 \<and> b0 \<le> 4 then
           ebind (rlp_decode_fully (drop 1 rw)) (\<lambda>it.
             case it of RBytes _ \<Rightarrow> Inl (TxErr ''not a list'')
             | RList f \<Rightarrow>
                 let tx = tx\<lparr>ttype := b0\<rparr> in
                 ebind (if b0 = 1 then head1 tx f else if b0 = 2 then head2 tx f
                        else if b0 = 3 then head3 tx f else head4 tx f) tail_tx)
         else if 0xC0 \<le> b0 \<and> b0 \<le> 0xFE then
           ebind (rlp_decode_fully rw) (\<lambda>it.
             case it of RBytes _ \<Rightarrow> Inl (TxErr ''LegacyTransaction needs 9 fields'')
             | RList f \<Rightarrow> decode_legacy tx f)
         else Inl (TxErr ''unknown transaction type''))
        envelope)"

section \<open>Encoding\<close>

text \<open>A field list is given by its elements, each of which may raise; \<open>seqs\<close> evaluates it.\<close>

definition access_item :: "access \<Rightarrow> bytes res" where
  "access_item a =
     ebind (seqs [tx_enc_bytes (fst a), ebind (seqs (map tx_enc_bytes (snd a))) enc_list]) enc_list"

definition auth_item :: "auth \<Rightarrow> bytes res" where
  "auth_item a =
     ebind (seqs [scalar (auth_chain_id a), tx_enc_bytes (auth_address a), scalar (auth_nonce a),
                  scalar (auth_y_parity a), scalar (auth_r a), scalar (auth_s a)]) enc_list"

definition to_item :: "bytes option \<Rightarrow> bytes res" where
  "to_item to = tx_enc_bytes (case to of None \<Rightarrow> [] | Some a \<Rightarrow> a)"

definition unsigned_items :: "tx \<Rightarrow> bytes res list" where
  "unsigned_items tx =
     (let t = ttype tx in
      if t = 0 then
        [scalar (nonce tx), ebind (key (gas_price tx)) scalar, scalar (gas tx),
         to_item (tx_to tx), scalar (tx_value tx), tx_enc_bytes (tx_data tx)]
      else
        [ebind (key (chain_id tx)) scalar, scalar (nonce tx)] @
        (if t = 1 then [ebind (key (gas_price tx)) scalar]
         else [ebind (key (max_priority_fee_per_gas tx)) scalar, ebind (key (max_fee_per_gas tx)) scalar]) @
        [scalar (gas tx), to_item (tx_to tx), scalar (tx_value tx), tx_enc_bytes (tx_data tx),
         ebind (key (access_list tx)) (\<lambda>al. ebind (seqs (map access_item al)) enc_list)] @
        (if t = 3
         then [ebind (key (max_fee_per_blob_gas tx)) scalar,
               ebind (key (blob_versioned_hashes tx)) (\<lambda>hs. ebind (seqs (map tx_enc_bytes hs)) enc_list)]
         else []) @
        (if t = 4
         then [ebind (key (authorizations tx)) (\<lambda>as. ebind (seqs (map auth_item as)) enc_list)]
         else []))"

definition unsigned_fields :: "tx \<Rightarrow> bytes list res" where
  "unsigned_fields tx = seqs (unsigned_items tx)"

definition signature_items :: "tx \<Rightarrow> bytes res list" where
  "signature_items tx =
     [ebind (key (if ttype tx = 0 then tx_v tx else y_parity tx)) scalar, scalar (tx_r tx), scalar (tx_s tx)]"

definition encode_transaction :: "tx \<Rightarrow> bytes res" where
  "encode_transaction tx =
     ebind (unsigned_fields tx) (\<lambda>f.
     ebind (seqs (signature_items tx)) (\<lambda>g.
     ebind (enc_list (f @ g)) (\<lambda>body.
       if ttype tx = 0 then Inr body else ebind (byte1 (ttype tx)) (\<lambda>t. Inr (t @ body)))))"

text \<open>What \<open>signing_hash\<close> hashes.\<close>

definition signing_preimage :: "tx \<Rightarrow> nat \<Rightarrow> bytes res" where
  "signing_preimage tx cid =
     ebind (unsigned_fields tx) (\<lambda>f.
     if ttype tx = 0 then
       ebind (key (tx_v tx)) (\<lambda>v.
       ebind (if v \<noteq> 27 \<and> v \<noteq> 28 then seqs [scalar cid, scalar 0, scalar 0] else Inr []) (\<lambda>g.
         enc_list (f @ g)))
     else ebind (byte1 (ttype tx)) (\<lambda>t. ebind (enc_list f) (\<lambda>b. Inr (t @ b))))"

definition signing_hash :: "tx \<Rightarrow> nat \<Rightarrow> bytes res" where
  "signing_hash tx cid = ebind (signing_preimage tx cid) keccak256"

section \<open>Chain id and signature\<close>

definition SECP256K1N :: nat where
  "SECP256K1N = 0xFFFFFFFFFFFFFFFFFFFFFFFFFFFFFFFEBAAEDCE6AF48A03BBFD25E8CD0364141"

definition chain_id_of :: "tx \<Rightarrow> (nat \<times> nat) res" where
  "chain_id_of tx =
     (if ttype tx \<noteq> 0 then ebind (key (chain_id tx)) (\<lambda>c. Inr (1, c))
      else ebind (key (tx_v tx)) (\<lambda>v.
        if v = 27 \<or> v = 28 then Inr (0, 0)
        else if v < 35 then Inl (TxErr ''bad v'')
        else let cid = drop_bit 1 (v - 35) in
          if cid \<ge> 2 ^ 64 then Inl (TxErr ''envelope: chain id > 64 bits'') else Inr (1, cid)))"

definition signature_recovery_parameters :: "tx \<Rightarrow> nat \<Rightarrow> (nat \<times> bytes) res" where
  "signature_recovery_parameters tx cid =
     (let r = tx_r tx; s = tx_s tx in
      if r = 0 \<or> r \<ge> SECP256K1N then Inl (TxErr ''bad r'')
      else if s = 0 \<or> s > SECP256K1N div 2 then Inl (TxErr ''bad s'')
      else if ttype tx = 0 then
        ebind (key (tx_v tx)) (\<lambda>v.
        if v = 27 \<or> v = 28 then ebind (signing_hash tx cid) (\<lambda>h. Inr (v - 27, h))
        else if v \<noteq> 35 + 2 * cid \<and> v \<noteq> 36 + 2 * cid then Inl (TxErr ''bad v'')
        else ebind (signing_hash tx cid) (\<lambda>h. Inr (v - 35 - 2 * cid, h)))
      else
        ebind (key (y_parity tx)) (\<lambda>yp.
        if yp \<noteq> 0 \<and> yp \<noteq> 1 then Inl (TxErr ''bad y_parity'')
        else ebind (signing_hash tx cid) (\<lambda>h. Inr (yp, h))))"

section \<open>Decoders recover what the encoders write\<close>

text \<open>Each item a decoder accepts has the encoding the encoder gives to the decoded value.\<close>

lemma no_lead_nth: "no_lead b \<longleftrightarrow> b = [] \<or> b ! 0 \<noteq> 0"
  by (cases b) (auto simp: no_lead_def)

lemma d_scalar_iff:
  "d_scalar it m = Inr n \<longleftrightarrow>
     (\<exists>b. it = RBytes b \<and> no_lead b \<and> (\<forall>k. m = Some k \<longrightarrow> length b \<le> k) \<and> n = from_be b)"
  by (auto simp: d_scalar_def no_lead_nth split: rlp.splits option.splits)

lemma d_scalar_enc: "d_scalar it m = Inr n \<Longrightarrow> enc it = scalar n"
  by (auto simp: d_scalar_iff scalar_eq be_from_be)

lemma d_bytes_enc: "d_bytes it = Inr b \<Longrightarrow> enc it = tx_enc_bytes b"
  by (auto simp: d_bytes_def tx_enc_bytes_eq split: rlp.splits)

lemma d_fixed_enc: "d_fixed it w = Inr b \<Longrightarrow> enc it = tx_enc_bytes b"
  by (auto simp: d_fixed_def tx_enc_bytes_eq split: rlp.splits if_splits)

lemma d_to_enc: "d_to it = Inr a \<Longrightarrow> enc it = to_item a"
  by (auto simp: d_to_def to_item_def tx_enc_bytes_eq split: rlp.splits if_splits)

lemma emap_enc:
  assumes "emap d xs = Inr ys" "\<And>x y. d x = Inr y \<Longrightarrow> enc x = e y"
  shows "map enc xs = map e ys"
  using assms by (auto simp: emap_Inr_iff list_all2_conv_all_nth intro!: nth_equalityI)

lemma enc_list_items: "enc (RList xs) = ebind (seqs (map enc xs)) enc_list"
  by (simp add: enc_RList seqs_map del: enc.simps)

lemma d_access_enc: "d_access it = Inr a \<Longrightarrow> enc it = access_item a"
  by (auto simp: d_access_def access_item_def enc_list_items d_fixed_enc emap_enc [OF _ d_fixed_enc]
      simp del: enc.simps split: rlp.splits list.splits dest!: d_fixed_enc)

lemma d_auth_enc: "d_auth it = Inr a \<Longrightarrow> enc it = auth_item a"
  by (auto simp: d_auth_def auth_item_def enc_list_items
      simp del: enc.simps split: rlp.splits list.splits dest!: d_fixed_enc d_scalar_enc)

lemma d_list_iff: "d_list it = Inr xs \<longleftrightarrow> it = RList xs"
  by (auto simp: d_list_def split: rlp.splits)

lemmas item_enc = d_scalar_enc d_bytes_enc d_to_enc d_fixed_enc

section \<open>Decoding inverts encoding\<close>

text \<open>The unsigned fields of a typed transaction: those of its head, of the common tail and its own.\<close>

definition head_items :: "tx \<Rightarrow> bytes res list" where
  "head_items tx =
     [ebind (key (chain_id tx)) scalar, scalar (nonce tx)] @
     (if ttype tx = 1 then [ebind (key (gas_price tx)) scalar]
      else [ebind (key (max_priority_fee_per_gas tx)) scalar, ebind (key (max_fee_per_gas tx)) scalar]) @
     [scalar (gas tx), to_item (tx_to tx)]"

definition common_items :: "tx \<Rightarrow> bytes res list" where
  "common_items tx =
     [scalar (tx_value tx), tx_enc_bytes (tx_data tx),
      ebind (key (access_list tx)) (\<lambda>al. ebind (seqs (map access_item al)) enc_list)]"

definition own_items :: "tx \<Rightarrow> bytes res list" where
  "own_items tx =
     (if ttype tx = 3
      then [ebind (key (max_fee_per_blob_gas tx)) scalar,
            ebind (key (blob_versioned_hashes tx)) (\<lambda>hs. ebind (seqs (map tx_enc_bytes hs)) enc_list)]
      else []) @
     (if ttype tx = 4
      then [ebind (key (authorizations tx)) (\<lambda>as. ebind (seqs (map auth_item as)) enc_list)]
      else [])"

lemma unsigned_items_typed:
  "ttype tx \<noteq> 0 \<Longrightarrow> unsigned_items tx = head_items tx @ common_items tx @ own_items tx"
  by (auto simp: unsigned_items_def head_items_def common_items_def own_items_def Let_def)

text \<open>What a head hands to the tail: the typed fields decoded so far, and the rest of the items.\<close>

definition head_ok :: "tx \<Rightarrow> rlp list \<Rightarrow> tx \<times> tail \<Rightarrow> bool" where
  "head_ok tx0 f = (\<lambda>(tx, vl, data, al, ext, yp, r, s).
     raw tx = raw tx0 \<and> ttype tx = ttype tx0 \<and>
     (\<exists>pre. f = pre @ [vl, data, al] @ ext @ [yp, r, s] \<and> map enc pre = head_items tx))"

lemma head1_ok: "head1 tx f = Inr h \<Longrightarrow> ttype tx = 1 \<Longrightarrow> head_ok tx f h"
  by (auto simp: head1_def head_ok_def head_items_def split: list.splits
      intro!: exI [of _ "take 5 f"] dest!: item_enc)

lemma head_fees_ok:
  assumes "head_fees tx0 nb cid n prio mf g to = Inr tx" "ttype tx0 \<noteq> 1"
    "\<And>t. to = Inr t \<Longrightarrow> enc it = to_item t"
  shows "raw tx = raw tx0 \<and> ttype tx = ttype tx0 \<and> map enc [cid, n, prio, mf, g, it] = head_items tx"
  using assms by (auto simp: head_fees_def head_items_def dest!: item_enc)

lemma fixed_to_item: "ebind (d_fixed to 20) (\<lambda>t. Inr (Some t)) = Inr t \<Longrightarrow> enc to = to_item t"
  by (auto simp: to_item_def dest!: d_fixed_enc)

lemma head2_ok:
  assumes "head2 tx f = Inr h" "ttype tx = 2" shows "head_ok tx f h"
proof -
  from assms obtain cid n prio mf g to vl data al yp r s tx' where
    f: "f = [cid, n, prio, mf, g, to, vl, data, al, yp, r, s]" "h = (tx', vl, data, al, [], yp, r, s)"
    and "head_fees tx 32 cid n prio mf g (d_to to) = Inr tx'"
    by (auto simp: head2_def split: list.splits)
  from head_fees_ok [OF this(3) _ d_to_enc] assms(2) f show ?thesis
    by (auto simp: head_ok_def intro!: exI [of _ "take 6 f"])
qed

lemma head3_ok:
  assumes "head3 tx f = Inr h" "ttype tx = 3" shows "head_ok tx f h"
proof -
  from assms obtain cid n prio mf g to vl data al bf bvh yp r s tx' where
    f: "f = [cid, n, prio, mf, g, to, vl, data, al, bf, bvh, yp, r, s]"
      "h = (tx', vl, data, al, [bf, bvh], yp, r, s)"
    and "head_fees tx 32 cid n prio mf g (ebind (d_fixed to 20) (\<lambda>t. Inr (Some t))) = Inr tx'"
    by (auto simp: head3_def split: list.splits)
  from head_fees_ok [OF this(3) _ fixed_to_item] assms(2) f show ?thesis
    by (auto simp: head_ok_def intro!: exI [of _ "take 6 f"])
qed

lemma head4_ok:
  assumes "head4 tx f = Inr h" "ttype tx = 4" shows "head_ok tx f h"
proof -
  from assms obtain cid n prio mf g to vl data al auths yp r s tx' where
    f: "f = [cid, n, prio, mf, g, to, vl, data, al, auths, yp, r, s]"
      "h = (tx', vl, data, al, [auths], yp, r, s)"
    and "head_fees tx 8 cid n prio mf g (ebind (d_fixed to 20) (\<lambda>t. Inr (Some t))) = Inr tx'"
    by (auto simp: head4_def split: list.splits)
  from head_fees_ok [OF this(3) _ fixed_to_item] assms(2) f show ?thesis
    by (auto simp: head_ok_def intro!: exI [of _ "take 6 f"])
qed

text \<open>The tail keeps the head's fields and recovers the rest.\<close>

lemma tail_blob_ok:
  assumes "tail_blob tx0 ext = Inr tx" "ttype tx0 = 3"
  shows "map enc ext = own_items tx" "head_items tx = head_items tx0" "common_items tx = common_items tx0"
    "raw tx = raw tx0" "ttype tx = ttype tx0"
  using assms
  by (auto simp: tail_blob_def own_items_def head_items_def common_items_def enc_list_items d_list_iff
      simp del: enc.simps split: list.splits dest!: d_scalar_enc emap_enc [OF _ d_fixed_enc])

lemma tail_auths_ok:
  assumes "tail_auths tx0 ext = Inr tx" "ttype tx0 = 4"
  shows "map enc ext = own_items tx" "head_items tx = head_items tx0" "common_items tx = common_items tx0"
    "raw tx = raw tx0" "ttype tx = ttype tx0"
  using assms
  by (auto simp: tail_auths_def own_items_def head_items_def common_items_def enc_list_items d_list_iff
      simp del: enc.simps split: list.splits dest!: emap_enc [OF _ d_auth_enc])

lemma tail_ext_ok:
  assumes "tail_blob tx0 ext = Inr tx1" "tail_auths tx1 ext = Inr tx"
    and "ttype tx0 \<noteq> 3 \<Longrightarrow> ttype tx0 \<noteq> 4 \<Longrightarrow> ext = []"
  shows "map enc ext = own_items tx \<and> head_items tx = head_items tx0 \<and> common_items tx = common_items tx0 \<and>
    raw tx = raw tx0 \<and> ttype tx = ttype tx0"
proof (cases "ttype tx0 = 3")
  case True
  then have "tx1 = tx" using tail_blob_ok(5) [OF assms(1)] assms(2) by (simp add: tail_auths_def)
  with tail_blob_ok [OF assms(1) True] show ?thesis by simp
next
  case not3: False
  then have [simp]: "tx1 = tx0" using assms(1) by (simp add: tail_blob_def)
  show ?thesis
  proof (cases "ttype tx0 = 4")
    case True
    with tail_auths_ok [OF assms(2)] show ?thesis by simp
  next
    case False
    with assms not3 show ?thesis by (simp add: tail_auths_def own_items_def)
  qed
qed

lemma tail_tx_ok:
  assumes tail: "tail_tx (tx0, vl, data, al, ext, yp, r, s) = Inr tx"
    and ty: "ttype tx0 \<noteq> 0" and ext: "ttype tx0 \<noteq> 3 \<Longrightarrow> ttype tx0 \<noteq> 4 \<Longrightarrow> ext = []"
  shows "head_items tx = head_items tx0 \<and> common_items tx @ own_items tx = map enc ([vl, data, al] @ ext) \<and>
    signature_items tx = map enc [yp, r, s] \<and> raw tx = raw tx0 \<and> ttype tx = ttype tx0"
proof -
  from tail obtain vl' data' al' as tx1 tx2 yp' r' s' where
    d: "d_scalar vl (Some 32) = Inr vl'" "d_bytes data = Inr data'" "al = RList al'" "emap d_access al' = Inr as"
    "d_scalar yp (Some 32) = Inr yp'" "d_scalar r (Some 32) = Inr r'" "d_scalar s (Some 32) = Inr s'"
    and e: "tail_blob (tx0\<lparr>tx_value := vl', tx_data := data', access_list := Some as\<rparr>) ext = Inr tx1"
      "tail_auths tx1 ext = Inr tx2"
    and tx: "tx = tx2\<lparr>y_parity := Some yp', tx_r := r', tx_s := s'\<rparr>"
    by (auto simp: tail_tx_def d_list_iff)
  have same: "head_items tx = head_items tx2" "common_items tx = common_items tx2" "own_items tx = own_items tx2"
    "ttype tx = ttype tx2" "raw tx = raw tx2"
    by (simp_all add: tx head_items_def common_items_def own_items_def)
  from tail_ext_ok [OF e] ext have e': "map enc ext = own_items tx2"
    "head_items tx2 = head_items (tx0\<lparr>tx_value := vl', tx_data := data', access_list := Some as\<rparr>)"
    "common_items tx2 = common_items (tx0\<lparr>tx_value := vl', tx_data := data', access_list := Some as\<rparr>)"
    "raw tx2 = raw tx0" "ttype tx2 = ttype tx0"
    by simp_all
  have "map enc [vl, data, al] = common_items (tx0\<lparr>tx_value := vl', tx_data := data', access_list := Some as\<rparr>)"
    using d(1-4) by (auto simp: common_items_def enc_list_items simp del: enc.simps
      dest!: item_enc emap_enc [OF _ d_access_enc])
  then have "map enc [vl, data, al] = common_items tx" using same(2) e'(3) by simp
  moreover have "signature_items tx = map enc [yp, r, s]"
    using d(5-7) ty e'(5) same(4) by (auto simp: signature_items_def tx dest!: d_scalar_enc)
  ultimately show ?thesis using same e' by (simp add: head_items_def)
qed

lemma decode_legacy_ok:
  assumes "decode_legacy tx0 f = Inr tx"
  shows "unsigned_items tx @ signature_items tx = map enc f \<and> raw tx = raw tx0 \<and> ttype tx = 0"
  using assms
  by (auto simp: decode_legacy_def unsigned_items_def signature_items_def split: list.splits dest!: item_enc)

lemma envelope_Inr: "envelope tx = Inr tx' \<Longrightarrow> tx' = tx"
  by (auto simp: envelope_def Let_def split: if_splits)

text \<open>The two shapes of an accepted transaction.\<close>

lemma decode_transaction_cases:
  assumes "decode_transaction rw = Inr tx"
  obtains (typed) f b where "rw = b # drop 1 rw" "ttype tx = unat b" "ttype tx \<in> {1, 2, 3, 4}"
      "rlp_decode_fully (drop 1 rw) = Inr (RList f)" "unsigned_items tx @ signature_items tx = map enc f" "raw tx = rw"
  | (legacy) f where "ttype tx = 0" "rlp_decode_fully rw = Inr (RList f)" "rw \<noteq> []" "unat (hd rw) \<ge> 0xC0"
      "unsigned_items tx @ signature_items tx = map enc f" "raw tx = rw"
proof (cases rw)
  case Nil
  with assms show ?thesis by (simp add: decode_transaction_def)
next
  case (Cons b r)
  show ?thesis
  proof (cases "1 \<le> unat b \<and> unat b \<le> 4")
    case True
    define tx0 where "tx0 = empty_tx (b # r)\<lparr>ttype := unat b\<rparr>"
    have ty0: "ttype tx0 = unat b" "raw tx0 = rw" using Cons by (simp_all add: tx0_def empty_tx_def)
    from assms True Cons obtain f h where f: "rlp_decode_fully r = Inr (RList f)"
      and h: "(if unat b = 1 then head1 tx0 f else if unat b = 2 then head2 tx0 f
               else if unat b = 3 then head3 tx0 f else head4 tx0 f) = Inr h" and tl: "tail_tx h = Inr tx"
      unfolding tx0_def by (auto simp: decode_transaction_def Let_def split: rlp.splits dest!: envelope_Inr)
    have ty: "ttype tx0 \<in> {1, 2, 3, 4}" using True ty0 by auto
    have "head_ok tx0 f h"
      using h ty ty0 head1_ok [of tx0 f h] head2_ok [of tx0 f h] head3_ok [of tx0 f h] head4_ok [of tx0 f h]
      by (auto split: if_splits)
    moreover obtain tx1 vl data al ext yp r' s where hh: "h = (tx1, vl, data, al, ext, yp, r', s)"
      by (cases h) auto
    ultimately obtain pre where pre: "f = pre @ [vl, data, al] @ ext @ [yp, r', s]" "map enc pre = head_items tx1"
      "raw tx1 = rw" "ttype tx1 = unat b"
      by (auto simp: head_ok_def ty0)
    have ext: "ttype tx1 \<noteq> 3 \<Longrightarrow> ttype tx1 \<noteq> 4 \<Longrightarrow> ext = []"
      using h ty ty0 pre(4) by (auto simp: hh head1_def head2_def split: list.splits if_splits)
    have "ttype tx1 \<noteq> 0" using ty ty0 pre(4) by auto
    from tail_tx_ok [OF tl [unfolded hh] this ext] pre have
      "head_items tx = map enc pre" "common_items tx @ own_items tx = map enc ([vl, data, al] @ ext)"
      "signature_items tx = map enc [yp, r', s]" "raw tx = rw" "ttype tx = unat b"
      by simp_all
    moreover from this have "unsigned_items tx @ signature_items tx = map enc f"
      using \<open>ttype tx1 \<noteq> 0\<close> pre(1,4) unsigned_items_typed [of tx] by simp
    ultimately show ?thesis using Cons f ty ty0 by (intro typed [of b f]) simp_all
  next
    case False
    with assms Cons obtain f where f: "rlp_decode_fully rw = Inr (RList f)" "0xC0 \<le> unat b"
      and l: "decode_legacy (empty_tx rw) f = Inr tx"
      by (auto simp: decode_transaction_def Let_def split: rlp.splits if_splits dest!: envelope_Inr)
    from decode_legacy_ok [OF l] f Cons show ?thesis by (intro legacy) (auto simp: empty_tx_def)
  qed
qed

lemma encode_transaction_items:
  "encode_transaction tx = ebind (seqs (unsigned_items tx @ signature_items tx)) (\<lambda>f.
     ebind (enc_list f) (\<lambda>body. if ttype tx = 0 then Inr body
                                else ebind (byte1 (ttype tx)) (\<lambda>t. Inr (t @ body))))"
  by (simp add: encode_transaction_def unsigned_fields_def seqs_append ebind_assoc)

lemma byte1_unat [simp]: "byte1 (unat b) = Inr [b]"
  by (simp add: byte1_iff)

lemma encode_decode_transaction:
  assumes "decode_transaction rw = Inr tx"
  shows "encode_transaction tx = Inr rw"
  using assms
proof (cases rule: decode_transaction_cases)
  case (typed f b)
  then have "ebind (seqs (map enc f)) enc_list = Inr (drop 1 rw)"
    by (simp add: rlp_decode_fully_iff enc_list_items del: enc.simps)
  moreover have "byte1 (ttype tx) = Inr [b]" "ttype tx \<noteq> 0" using typed(2,3) by auto
  ultimately have "encode_transaction tx = Inr (b # drop 1 rw)"
    using typed(5) by (auto simp: encode_transaction_items)
  with typed(1) show ?thesis by simp
next
  case (legacy f)
  then have "ebind (seqs (map enc f)) enc_list = Inr rw"
    by (simp add: rlp_decode_fully_iff enc_list_items del: enc.simps)
  with legacy show ?thesis by (auto simp: encode_transaction_items)
qed

end
