(* ===== verification/TxCodec.thy ===== *)
theory TxCodec
  imports Tx
begin

text \<open>
  What a decoded transaction is.  \<open>tx_wf\<close> lists, per type, the keys the dictionary has and the
  bounds of their values; \<open>unsigned_tree\<close> and \<open>signature_tree\<close> give its fields as RLP items.  The
  decoder of \<open>Tx\<close> accepts exactly the encodings of well-formed transactions and returns the
  transaction itself (\<open>tx_codec\<close>), and what is signed determines every unsigned field.
\<close>

section \<open>Well-formed transactions\<close>

definition below :: "nat \<Rightarrow> nat option \<Rightarrow> bool" where
  "below k x = (case x of None \<Rightarrow> False | Some n \<Rightarrow> n < k)"

definition access_wf :: "access \<Rightarrow> bool" where
  "access_wf a \<longleftrightarrow> length (fst a) = 20 \<and> list_all (\<lambda>k. length k = 32) (snd a)"

definition auth_wf :: "auth \<Rightarrow> bool" where
  "auth_wf a \<longleftrightarrow> auth_chain_id a < 2 ^ 256 \<and> length (auth_address a) = 20 \<and> auth_nonce a < 2 ^ 64 \<and>
     auth_y_parity a < 256 \<and> auth_r a < 2 ^ 256 \<and> auth_s a < 2 ^ 256"

definition to_wf :: "tx \<Rightarrow> bool" where
  "to_wf tx = (case tx_to tx of None \<Rightarrow> ttype tx \<le> 2 | Some a \<Rightarrow> length a = 20)"

definition fees_wf :: "tx \<Rightarrow> bool" where
  "fees_wf tx \<longleftrightarrow>
     (if ttype tx \<le> 1 then below (2 ^ 256) (gas_price tx) \<and> max_priority_fee_per_gas tx = None \<and> max_fee_per_gas tx = None
      else gas_price tx = None \<and> below (2 ^ 256) (max_priority_fee_per_gas tx) \<and> below (2 ^ 256) (max_fee_per_gas tx))"

definition common_wf :: "tx \<Rightarrow> bool" where
  "common_wf tx \<longleftrightarrow> tx_value tx < 2 ^ 256 \<and> length (tx_data tx) < 2 ^ 64 \<and>
     (if ttype tx = 0 then chain_id tx = None \<and> access_list tx = None
      else below (2 ^ 64) (chain_id tx) \<and> (case access_list tx of None \<Rightarrow> False | Some al \<Rightarrow> list_all access_wf al))"

definition own_wf :: "tx \<Rightarrow> bool" where
  "own_wf tx \<longleftrightarrow>
     (if ttype tx = 3
      then below (2 ^ 256) (max_fee_per_blob_gas tx) \<and>
           (case blob_versioned_hashes tx of None \<Rightarrow> False | Some hs \<Rightarrow> list_all (\<lambda>h. length h = 32) hs)
      else max_fee_per_blob_gas tx = None \<and> blob_versioned_hashes tx = None) \<and>
     (if ttype tx = 4 then (case authorizations tx of None \<Rightarrow> False | Some as \<Rightarrow> list_all auth_wf as)
      else authorizations tx = None)"

definition signature_wf :: "tx \<Rightarrow> bool" where
  "signature_wf tx \<longleftrightarrow>
     (if ttype tx = 0 then y_parity tx = None \<and> below (2 ^ 256) (tx_v tx)
      else tx_v tx = None \<and> below (2 ^ 256) (y_parity tx)) \<and>
     tx_r tx < 2 ^ 256 \<and> tx_s tx < 2 ^ 256"

definition tx_wf :: "tx \<Rightarrow> bool" where
  "tx_wf tx \<longleftrightarrow> ttype tx \<le> 4 \<and> nonce tx < (if ttype tx = 4 then 2 ^ 64 else 2 ^ 256) \<and> gas tx < 2 ^ 64 \<and>
     to_wf tx \<and> fees_wf tx \<and> common_wf tx \<and> own_wf tx \<and> signature_wf tx"

section \<open>The item tree of a transaction\<close>

definition sc :: "nat \<Rightarrow> rlp" where
  "sc n = RBytes (be n)"

definition to_tree :: "bytes option \<Rightarrow> rlp" where
  "to_tree a = RBytes (case a of None \<Rightarrow> [] | Some b \<Rightarrow> b)"

definition access_tree :: "access \<Rightarrow> rlp" where
  "access_tree a = RList [RBytes (fst a), RList (map RBytes (snd a))]"

definition auth_tree :: "auth \<Rightarrow> rlp" where
  "auth_tree a = RList [sc (auth_chain_id a), RBytes (auth_address a), sc (auth_nonce a),
     sc (auth_y_parity a), sc (auth_r a), sc (auth_s a)]"

definition unsigned_tree :: "tx \<Rightarrow> rlp list" where
  "unsigned_tree tx =
     (if ttype tx = 0 then []  else [sc (the (chain_id tx))]) @
     [sc (nonce tx)] @
     (if ttype tx \<le> 1 then [sc (the (gas_price tx))]
      else [sc (the (max_priority_fee_per_gas tx)), sc (the (max_fee_per_gas tx))]) @
     [sc (gas tx), to_tree (tx_to tx), sc (tx_value tx), RBytes (tx_data tx)] @
     (if ttype tx = 0 then [] else [RList (map access_tree (the (access_list tx)))]) @
     (if ttype tx = 3
      then [sc (the (max_fee_per_blob_gas tx)), RList (map RBytes (the (blob_versioned_hashes tx)))] else []) @
     (if ttype tx = 4 then [RList (map auth_tree (the (authorizations tx)))] else [])"

definition signature_tree :: "tx \<Rightarrow> rlp list" where
  "signature_tree tx =
     [sc (the (if ttype tx = 0 then tx_v tx else y_parity tx)), sc (tx_r tx), sc (tx_s tx)]"

lemma sc_enc [simp]: "enc (sc n) = scalar n"
  by (simp add: sc_def scalar_eq)

lemma to_tree_enc [simp]: "enc (to_tree a) = to_item a"
  by (simp add: to_tree_def to_item_def tx_enc_bytes_eq split: option.splits)

lemma bytes_enc [simp]: "enc (RBytes b) = tx_enc_bytes b"
  by (simp add: tx_enc_bytes_eq)

declare enc.simps(1,2) [simp del]

lemma access_tree_enc [simp]: "enc (access_tree a) = access_item a"
  by (simp add: access_tree_def access_item_def enc_list_items comp_def)

lemma auth_tree_enc [simp]: "enc (auth_tree a) = auth_item a"
  by (simp add: auth_tree_def auth_item_def enc_list_items)

lemma unsigned_tree_enc:
  assumes "tx_wf tx" shows "map enc (unsigned_tree tx) = unsigned_items tx"
proof -
  have "enc \<circ> access_tree = access_item" "enc \<circ> auth_tree = auth_item" "enc \<circ> RBytes = tx_enc_bytes"
    by (auto simp: comp_def)
  with assms show ?thesis
    by (auto simp: unsigned_tree_def unsigned_items_def enc_list_items Let_def tx_wf_def fees_wf_def
        common_wf_def own_wf_def below_def split: if_splits option.splits)
qed

lemma signature_tree_enc: "tx_wf tx \<Longrightarrow> map enc (signature_tree tx) = signature_items tx"
  by (auto simp: signature_tree_def signature_items_def tx_wf_def signature_wf_def below_def split: option.splits)

section \<open>Decoding the tree\<close>

lemma d_scalar_sc [simp]: "d_scalar (sc n) None = Inr n"
  using no_lead_be [of n] by (auto simp: sc_def d_scalar_iff)

lemma d_scalar_sc_bound [simp]: "d_scalar (sc n) (Some k) = (if n < 256 ^ k then Inr n else Inl (TxErr ''integer out of range''))"
  using no_lead_be [of n] length_be_le_iff [of n k]
  by (auto simp: sc_def d_scalar_def no_lead_nth)

lemma d_bytes_tree [simp]: "d_bytes (RBytes b) = Inr b"
  by (simp add: d_bytes_def)

lemma d_fixed_tree [simp]: "length b = w \<Longrightarrow> d_fixed (RBytes b) w = Inr b"
  by (simp add: d_fixed_def)

lemma d_to_tree: "(case a of None \<Rightarrow> True | Some b \<Rightarrow> length b = 20) \<Longrightarrow> d_to (to_tree a) = Inr a"
  by (auto simp: d_to_def to_tree_def split: option.splits)

lemma d_list_tree [simp]: "d_list (RList xs) = Inr xs"
  by (simp add: d_list_def)

lemma emap_tree: "list_all ok xs \<Longrightarrow> (\<And>x. ok x \<Longrightarrow> d (t x) = Inr x) \<Longrightarrow> emap d (map t xs) = Inr xs"
  by (induction xs) auto

lemma d_fixed_trees: "list_all (\<lambda>k. length k = w) ks \<Longrightarrow> emap (\<lambda>s. d_fixed s w) (map RBytes ks) = Inr ks"
  by (erule emap_tree) simp

lemma d_access_tree: "access_wf a \<Longrightarrow> d_access (access_tree a) = Inr a"
  by (cases a) (auto simp: access_wf_def d_access_def access_tree_def d_fixed_trees)

lemma d_auth_tree: "auth_wf a \<Longrightarrow> d_auth (auth_tree a) = Inr a"
  by (auto simp: auth_wf_def d_auth_def auth_tree_def)

lemma d_access_trees: "list_all access_wf al \<Longrightarrow> emap d_access (map access_tree al) = Inr al"
  by (erule emap_tree) (rule d_access_tree)

lemma d_auth_trees: "list_all auth_wf al \<Longrightarrow> emap d_auth (map auth_tree al) = Inr al"
  by (erule emap_tree) (rule d_auth_tree)

lemmas trees = d_fixed_trees d_access_trees d_auth_trees

lemmas wf_defs = tx_wf_def to_wf_def fees_wf_def common_wf_def own_wf_def signature_wf_def below_def

lemma envelope_wf: "tx_wf tx \<Longrightarrow> envelope tx = Inr tx"
  by (auto simp: wf_defs envelope_def Let_def split: if_splits option.splits)

lemma decode_legacy_tree:
  assumes "tx_wf tx" "ttype tx = 0"
  shows "decode_legacy (empty_tx (raw tx)) (unsigned_tree tx @ signature_tree tx) = Inr tx"
proof -
  have "d_to (to_tree (tx_to tx)) = Inr (tx_to tx)"
    using assms by (intro d_to_tree) (auto simp: wf_defs split: option.splits)
  with assms show ?thesis
    by (cases tx) (auto simp: wf_defs unsigned_tree_def signature_tree_def decode_legacy_def empty_tx_def
      split: option.splits)
qed

lemma decode_typed_tree:
  assumes wf: "tx_wf tx" and tx0: "tx0 = empty_tx (raw tx)\<lparr>ttype := ttype tx\<rparr>"
    and f: "f = unsigned_tree tx @ signature_tree tx" and ty: "ttype tx \<noteq> 0"
  shows "ebind (if ttype tx = 1 then head1 tx0 f else if ttype tx = 2 then head2 tx0 f
                else if ttype tx = 3 then head3 tx0 f else head4 tx0 f) tail_tx = Inr tx"
proof -
  have to: "d_to (to_tree (tx_to tx)) = Inr (tx_to tx)"
    using wf by (intro d_to_tree) (auto simp: wf_defs split: option.splits)
  have to20: "ebind (d_fixed (to_tree (tx_to tx)) 20) (\<lambda>t. Inr (Some t)) = Inr (tx_to tx)" if "2 < ttype tx"
    using wf that by (auto simp: wf_defs to_tree_def split: option.splits)
  consider "ttype tx = 1" | "ttype tx = 2" | "ttype tx = 3" | "ttype tx = 4"
    using wf ty unfolding tx_wf_def by linarith
  then show ?thesis
  proof cases
    case 1
    with wf to show ?thesis
      by (cases tx) (auto simp: f tx0 wf_defs unsigned_tree_def signature_tree_def head1_def tail_tx_def
        tail_blob_def tail_auths_def empty_tx_def trees split: option.splits)
  next
    case 2
    with wf to show ?thesis
      by (cases tx) (auto simp: f tx0 wf_defs unsigned_tree_def signature_tree_def head2_def head_fees_def
        tail_tx_def tail_blob_def tail_auths_def empty_tx_def trees split: option.splits)
  next
    case 3
    with wf to20 show ?thesis
      by (cases tx) (auto simp: f tx0 wf_defs unsigned_tree_def signature_tree_def head3_def head_fees_def
        tail_tx_def tail_blob_def tail_auths_def empty_tx_def trees split: option.splits)
  next
    case 4
    with wf to20 show ?thesis
      by (cases tx) (auto simp: f tx0 wf_defs unsigned_tree_def signature_tree_def head4_def head_fees_def
        tail_tx_def tail_blob_def tail_auths_def empty_tx_def trees split: option.splits)
  qed
qed

section \<open>Decoded transactions are well-formed\<close>

lemma d_scalar_less: "d_scalar it (Some k) = Inr n \<Longrightarrow> n < 256 ^ k"
proof -
  assume "d_scalar it (Some k) = Inr n"
  then obtain b where b: "length b \<le> k" "n = from_be b" by (auto simp: d_scalar_iff)
  have "from_be b < 256 ^ length b" by (rule from_be_less)
  also have "\<dots> \<le> 256 ^ k" using b(1) by (rule power_increasing) simp
  finally show ?thesis using b(2) by simp
qed

lemma d_scalar_bounds:
  "d_scalar it (Some 32) = Inr n \<Longrightarrow> n < 2 ^ 256"
  "d_scalar it (Some 8) = Inr n \<Longrightarrow> n < 2 ^ 64"
  "d_scalar it (Some (Suc 0)) = Inr n \<Longrightarrow> n < 256"
  by (auto dest: d_scalar_less)

lemma d_fixed_length: "d_fixed it w = Inr b \<Longrightarrow> length b = w"
  by (auto simp: d_fixed_def split: rlp.splits if_splits)

lemma d_to_length: "d_to it = Inr a \<Longrightarrow> (case a of None \<Rightarrow> True | Some b \<Rightarrow> length b = 20)"
  by (auto simp: d_to_def split: rlp.splits if_splits)

lemma emap_all: "emap d xs = Inr ys \<Longrightarrow> (\<And>x y. d x = Inr y \<Longrightarrow> ok y) \<Longrightarrow> list_all ok ys"
  by (auto simp: emap_Inr_iff list_all2_conv_all_nth list_all_length)

lemma d_fixed_all: "emap (\<lambda>s. d_fixed s w) xs = Inr ys \<Longrightarrow> list_all (\<lambda>k. length k = w) ys"
  by (erule emap_all) (rule d_fixed_length)

lemma d_access_wf: "d_access it = Inr a \<Longrightarrow> access_wf a"
  by (auto simp: d_access_def access_wf_def split: rlp.splits list.splits dest: d_fixed_length d_fixed_all)

lemma d_auth_wf: "d_auth it = Inr a \<Longrightarrow> auth_wf a"
  by (auto simp: d_auth_def auth_wf_def split: rlp.splits list.splits
      dest!: d_fixed_length d_scalar_bounds)

lemma d_access_all: "emap d_access xs = Inr al \<Longrightarrow> list_all access_wf al"
  by (erule emap_all) (rule d_access_wf)

lemma d_auth_all: "emap d_auth xs = Inr al \<Longrightarrow> list_all auth_wf al"
  by (erule emap_all) (rule d_auth_wf)

lemma d_bytes_ok: "d_bytes it = Inr b \<Longrightarrow> rlp_ok it \<Longrightarrow> length b < 2 ^ 64"
  by (auto simp: d_bytes_def split: rlp.splits)

lemmas decoded = d_scalar_bounds d_fixed_length d_to_length d_fixed_all d_access_all d_auth_all

lemma envelope_bounds:
  assumes "envelope tx = Inr tx'"
  shows "gas tx < 2 ^ 64" "gas_price tx \<noteq> None \<Longrightarrow> below (2 ^ 256) (gas_price tx)"
    "max_priority_fee_per_gas tx \<noteq> None \<Longrightarrow> below (2 ^ 256) (max_priority_fee_per_gas tx)"
    "max_fee_per_gas tx \<noteq> None \<Longrightarrow> below (2 ^ 256) (max_fee_per_gas tx)"
  using assms by (auto simp: envelope_def Let_def below_def split: if_splits)

lemma below_simps [simp]: "below k (Some n) \<longleftrightarrow> n < k" "\<not> below k None"
  by (simp_all add: below_def)

lemma decode_legacy_wf:
  assumes "decode_legacy (empty_tx rw) f = Inr tx" "envelope tx = Inr tx'" "list_all rlp_ok f"
  shows "tx_wf tx"
proof -
  from assms(1) obtain n gp g to vl data v r s where f: "f = [n, gp, g, to, vl, data, v, r, s]"
    by (auto simp: decode_legacy_def split: list.splits)
  from assms(1) obtain n' gp' g' to' vl' data' v' r' s' where
    d: "d_scalar n (Some 32) = Inr n'" "d_to to = Inr to'" "d_scalar vl (Some 32) = Inr vl'"
      "d_bytes data = Inr data'" "d_scalar v (Some 32) = Inr v'" "d_scalar r (Some 32) = Inr r'"
      "d_scalar s (Some 32) = Inr s'"
    and tx: "tx = empty_tx rw\<lparr>ttype := 0, nonce := n', gas_price := Some gp', gas := g', tx_to := to',
      tx_value := vl', tx_data := data', tx_v := Some v', tx_r := r', tx_s := s'\<rparr>"
    by (auto simp: decode_legacy_def f)
  have "length data' < 2 ^ 64" using d_bytes_ok [OF d(4)] assms(3) by (simp add: f)
  with d_scalar_bounds(1) [OF d(1)] d_to_length [OF d(2)] d_scalar_bounds(1) [OF d(3)] d_scalar_bounds(1) [OF d(5)]
    d_scalar_bounds(1) [OF d(6)] d_scalar_bounds(1) [OF d(7)] envelope_bounds [OF assms(2)]
  show ?thesis by (simp add: tx empty_tx_def wf_defs split: option.splits)
qed

text \<open>What the heads establish, and the tail completes.\<close>

definition head_wf :: "tx \<Rightarrow> bool" where
  "head_wf tx \<longleftrightarrow>
     ttype tx \<in> {1, 2, 3, 4} \<and> below (2 ^ 64) (chain_id tx) \<and> to_wf tx \<and>
     nonce tx < (if ttype tx = 4 then 2 ^ 64 else 2 ^ 256) \<and>
     (if ttype tx = 1 then gas_price tx \<noteq> None \<and> max_priority_fee_per_gas tx = None \<and> max_fee_per_gas tx = None
      else gas_price tx = None \<and> max_priority_fee_per_gas tx \<noteq> None \<and> max_fee_per_gas tx \<noteq> None) \<and>
     tx_v tx = None \<and> max_fee_per_blob_gas tx = None \<and> blob_versioned_hashes tx = None \<and> authorizations tx = None"

lemma tail_blob_frame:
  assumes "tail_blob tx ext = Inr tx'"
  obtains bf hs where "tx' = tx\<lparr>max_fee_per_blob_gas := bf, blob_versioned_hashes := hs\<rparr>"
    "ttype tx = 3 \<Longrightarrow> below (2 ^ 256) bf \<and> (case hs of None \<Rightarrow> False | Some hs \<Rightarrow> list_all (\<lambda>h. length h = 32) hs)"
    "ttype tx \<noteq> 3 \<Longrightarrow> bf = max_fee_per_blob_gas tx \<and> hs = blob_versioned_hashes tx"
proof (cases "ttype tx = 3")
  case True
  with assms obtain bf bvh where "ext = [bf, bvh]"
    by (auto simp: tail_blob_def split: list.splits)
  with assms True that show ?thesis
    by (auto simp: tail_blob_def dest!: d_scalar_bounds(1) d_fixed_all)
next
  case False
  with assms that [where bf = "max_fee_per_blob_gas tx" and hs = "blob_versioned_hashes tx"] show ?thesis
    by (simp add: tail_blob_def)
qed

lemma tail_auths_frame:
  assumes "tail_auths tx ext = Inr tx'"
  obtains as where "tx' = tx\<lparr>authorizations := as\<rparr>"
    "ttype tx = 4 \<Longrightarrow> (case as of None \<Rightarrow> False | Some as \<Rightarrow> list_all auth_wf as)"
    "ttype tx \<noteq> 4 \<Longrightarrow> as = authorizations tx"
proof (cases "ttype tx = 4")
  case True
  with assms obtain auths where "ext = [auths]"
    by (auto simp: tail_auths_def split: list.splits)
  with assms True that show ?thesis by (auto simp: tail_auths_def dest!: d_auth_all)
next
  case False
  with assms that [where as = "authorizations tx"] show ?thesis by (simp add: tail_auths_def)
qed

lemma own_wf_cong:
  "ttype x = ttype y \<Longrightarrow> max_fee_per_blob_gas x = max_fee_per_blob_gas y \<Longrightarrow>
   blob_versioned_hashes x = blob_versioned_hashes y \<Longrightarrow> authorizations x = authorizations y \<Longrightarrow> own_wf x = own_wf y"
  by (simp add: own_wf_def)

lemma to_wf_cong: "ttype x = ttype y \<Longrightarrow> tx_to x = tx_to y \<Longrightarrow> to_wf x = to_wf y"
  by (simp add: to_wf_def split: option.splits)

lemma tail_tx_wf:
  assumes "tail_tx (tx0, vl, data, al, ext, yp, r, s) = Inr tx" "envelope tx = Inr tx'" "rlp_ok data"
    and tx0: "head_wf tx0"
  shows "tx_wf tx"
proof -
  from assms(1) obtain vl' data' al' as tx1 tx2 yp' r' s' where
    d: "d_scalar vl (Some 32) = Inr vl'" "d_bytes data = Inr data'" "emap d_access al' = Inr as"
    "d_scalar yp (Some 32) = Inr yp'" "d_scalar r (Some 32) = Inr r'" "d_scalar s (Some 32) = Inr s'"
    and e: "tail_blob (tx0\<lparr>tx_value := vl', tx_data := data', access_list := Some as\<rparr>) ext = Inr tx1"
      "tail_auths tx1 ext = Inr tx2"
    and tx: "tx = tx2\<lparr>y_parity := Some yp', tx_r := r', tx_s := s'\<rparr>"
    by (auto simp: tail_tx_def d_list_iff)
  define X where "X = tx0\<lparr>tx_value := vl', tx_data := data', access_list := Some as\<rparr>"
  have X: "ttype X = ttype tx0" "max_fee_per_blob_gas X = None" "blob_versioned_hashes X = None"
    "authorizations X = None"
    using tx0 by (simp_all add: X_def head_wf_def)
  from tail_blob_frame [OF e(1) [folded X_def]] obtain bf hs where
    blob: "tx1 = X\<lparr>max_fee_per_blob_gas := bf, blob_versioned_hashes := hs\<rparr>"
    and bf: "ttype X = 3 \<Longrightarrow> below (2 ^ 256) bf \<and> (case hs of None \<Rightarrow> False | Some hs \<Rightarrow> list_all (\<lambda>h. length h = 32) hs)"
    "ttype X \<noteq> 3 \<Longrightarrow> bf = max_fee_per_blob_gas X \<and> hs = blob_versioned_hashes X" by blast
  from tail_auths_frame [OF e(2)] obtain as' where auths: "tx2 = tx1\<lparr>authorizations := as'\<rparr>"
    and as': "ttype tx1 = 4 \<Longrightarrow> (case as' of None \<Rightarrow> False | Some as \<Rightarrow> list_all auth_wf as)"
    "ttype tx1 \<noteq> 4 \<Longrightarrow> as' = authorizations tx1" by blast
  have own_wf: "own_wf (X\<lparr>max_fee_per_blob_gas := bf, blob_versioned_hashes := hs, authorizations := as'\<rparr>)"
    using bf as' X by (auto simp: own_wf_def blob)
  note tx = tx [unfolded auths blob X_def]
  have "own_wf tx" using own_wf by (rule own_wf_cong [THEN iffD1, rotated -1]) (simp_all add: tx X_def)
  moreover have "length data' < 2 ^ 64" using d_bytes_ok [OF d(2)] assms(3) by simp
  with d_scalar_bounds(1) [OF d(1)] d_access_all [OF d(3)] d_scalar_bounds(1) [OF d(4)]
    d_scalar_bounds(1) [OF d(5)] d_scalar_bounds(1) [OF d(6)]
  have "common_wf tx" "signature_wf tx" using tx0
    by (auto simp: tx common_wf_def signature_wf_def head_wf_def)
  moreover have "to_wf tx0" using tx0 by (simp add: head_wf_def)
  then have "to_wf tx" by (rule to_wf_cong [THEN iffD1, rotated -1]) (simp_all add: tx)
  moreover have "fees_wf tx" "ttype tx \<le> 4" "nonce tx < (if ttype tx = 4 then 2 ^ 64 else 2 ^ 256)"
    using tx0 envelope_bounds [OF assms(2)] by (auto simp: tx fees_wf_def head_wf_def)
  ultimately show ?thesis using envelope_bounds(1) [OF assms(2)] by (simp add: tx_wf_def)
qed

lemma head_fees_wf:
  assumes "head_fees (empty_tx rw\<lparr>ttype := b\<rparr>) nb cid n prio mf g to = Inr tx" "b \<in> {2, 3, 4}"
    and "if b = 4 then nb = 8 else nb = 32"
    and to: "\<And>t. to = Inr t \<Longrightarrow> (case t of None \<Rightarrow> b = 2 | Some a \<Rightarrow> length a = 20)"
  shows "head_wf tx"
proof -
  from assms(1) obtain cid' n' prio' mf' g' to' where
    d: "d_scalar cid (Some 8) = Inr cid'" "d_scalar n (Some nb) = Inr n'" "to = Inr to'"
    and tx: "tx = empty_tx rw\<lparr>ttype := b, chain_id := Some cid', nonce := n', max_priority_fee_per_gas := Some prio',
      max_fee_per_gas := Some mf', gas := g', tx_to := to'\<rparr>"
    by (auto simp: head_fees_def)
  have "n' < (if b = 4 then 2 ^ 64 else 2 ^ 256)" using d_scalar_less [OF d(2)] assms(3) by auto
  with d_scalar_bounds(2) [OF d(1)] to [OF d(3)] assms(2) show ?thesis
    by (auto simp: tx head_wf_def to_wf_def empty_tx_def split: option.splits)
qed

lemma fixed_to_length: "ebind (d_fixed to 20) (\<lambda>t. Inr (Some t)) = Inr t \<Longrightarrow> (case t of None \<Rightarrow> c | Some a \<Rightarrow> length a = 20)"
  by (auto dest: d_fixed_length)

lemma heads_wf:
  assumes h: "(if b = 1 then head1 tx f else if b = 2 then head2 tx f
            else if b = 3 then head3 tx f else head4 tx f) = Inr (tx1, vl, data, al, ext, yp, r, s)"
    and tx: "tx = empty_tx rw\<lparr>ttype := b\<rparr>" "list_all rlp_ok f" and b: "b \<in> {1, 2, 3, 4}"
  shows "head_wf tx1 \<and> rlp_ok data"
proof -
  from b consider "b = 1" | "b = 2" | "b = 3" | "b = 4" by auto
  then show ?thesis
  proof cases
    case 1
    then have h1: "head1 tx f = Inr (tx1, vl, data, al, ext, yp, r, s)" using h by simp
    from h1 obtain cid n gp g to where "f = [cid, n, gp, g, to, vl, data, al, yp, r, s]"
      by (auto simp: head1_def split: list.splits)
    with h1 1 tx show ?thesis
      by (auto simp: head1_def head_wf_def to_wf_def empty_tx_def dest!: d_scalar_bounds(1,2) d_to_length
          split: option.splits)
  next
    case 2
    then have "head2 tx f = Inr (tx1, vl, data, al, ext, yp, r, s)" using h by simp
    then obtain cid n prio mf g to where "head_fees tx 32 cid n prio mf g (d_to to) = Inr tx1"
      and "f = [cid, n, prio, mf, g, to, vl, data, al, yp, r, s]"
      by (auto simp: head2_def split: list.splits)
    moreover have "d_to to = Inr t \<Longrightarrow> (case t of None \<Rightarrow> 2 = (2::nat) | Some a \<Rightarrow> length a = 20)" for t
      by (auto dest: d_to_length split: option.splits)
    ultimately show ?thesis using 2 tx head_fees_wf [where rw = rw and b = 2 and nb = 32] by auto
  next
    case 3
    then have "head3 tx f = Inr (tx1, vl, data, al, ext, yp, r, s)" using h by simp
    then obtain cid n prio mf g to bf bvh where
      "head_fees tx 32 cid n prio mf g (ebind (d_fixed to 20) (\<lambda>t. Inr (Some t))) = Inr tx1"
      and "f = [cid, n, prio, mf, g, to, vl, data, al, bf, bvh, yp, r, s]"
      by (auto simp: head3_def split: list.splits)
    with 3 tx head_fees_wf [OF _ _ _ fixed_to_length, where rw = rw and b = 3] show ?thesis by auto
  next
    case 4
    then have "head4 tx f = Inr (tx1, vl, data, al, ext, yp, r, s)" using h by simp
    then obtain cid n prio mf g to auths where
      "head_fees tx 8 cid n prio mf g (ebind (d_fixed to 20) (\<lambda>t. Inr (Some t))) = Inr tx1"
      and "f = [cid, n, prio, mf, g, to, vl, data, al, auths, yp, r, s]"
      by (auto simp: head4_def split: list.splits)
    with 4 tx head_fees_wf [OF _ _ _ fixed_to_length, where rw = rw and b = 4] show ?thesis by auto
  qed
qed

lemma decode_transaction_wf:
  assumes "decode_transaction rw = Inr tx"
  shows "tx_wf tx \<and> raw tx = rw"
proof
  show raw: "raw tx = rw" using assms by (cases rule: decode_transaction_cases)
  from assms obtain b r where rw: "rw = b # r" by (cases rw) (auto simp: decode_transaction_def)
  show "tx_wf tx"
  proof (cases "1 \<le> unat b \<and> unat b \<le> 4")
    case True
    define tx0 where "tx0 = empty_tx rw\<lparr>ttype := unat b\<rparr>"
    from assms True obtain f h tx' where f: "rlp_decode_fully r = Inr (RList f)"
      and h: "(if unat b = 1 then head1 tx0 f else if unat b = 2 then head2 tx0 f
               else if unat b = 3 then head3 tx0 f else head4 tx0 f) = Inr h"
      and tl: "tail_tx h = Inr tx'" and env: "envelope tx' = Inr tx"
      unfolding tx0_def rw
      by (auto simp: decode_transaction_def Let_def split: rlp.splits)
    obtain tx1 vl data al ext yp r' s where hh: "h = (tx1, vl, data, al, ext, yp, r', s)" by (cases h) auto
    have "list_all rlp_ok f" using f by (simp add: rlp_decode_fully_iff)
    moreover have "unat b \<in> {1, 2, 3, 4}" using True by auto
    ultimately have "head_wf tx1 \<and> rlp_ok data" using heads_wf [OF h [unfolded hh] tx0_def] by blast
    with tail_tx_wf [OF tl [unfolded hh] env] envelope_Inr [OF env] show ?thesis by blast
  next
    case False
    with assms rw obtain f tx' where f: "rlp_decode_fully rw = Inr (RList f)"
      and l: "decode_legacy (empty_tx rw) f = Inr tx'" and env: "envelope tx' = Inr tx"
      by (auto simp: decode_transaction_def Let_def split: rlp.splits if_splits)
    have "list_all rlp_ok f" using f by (simp add: rlp_decode_fully_iff)
    with decode_legacy_wf [OF l env] envelope_Inr [OF env] show ?thesis by blast
  qed
qed

section \<open>The codec of transactions\<close>

text \<open>
  A consistent transaction: well-formed, and its \<open>raw\<close> bytes are its encoding.  The decoder takes
  a first byte \<open>0xFF\<close> for an unknown type, which rules out a legacy payload of \<open>2 ^ 56\<close> bytes.
\<close>

definition tx_ok :: "tx \<Rightarrow> bool" where
  "tx_ok tx \<longleftrightarrow> tx_wf tx \<and> encode_transaction tx = Inr (raw tx) \<and> (ttype tx = 0 \<longrightarrow> hd (raw tx) \<noteq> 0xFF)"

lemma rlp_ok_sc: "n < 2 ^ 256 \<Longrightarrow> rlp_ok (sc n)"
proof -
  assume "n < 2 ^ 256"
  then have "length (be n) \<le> 32" by (simp add: length_be_le_iff)
  then show ?thesis by (simp add: sc_def)
qed

lemma rlp_ok_trees:
  "access_wf a \<Longrightarrow> rlp_ok (access_tree a)" "auth_wf u \<Longrightarrow> rlp_ok (auth_tree u)"
  "list_all (\<lambda>h. length h = 32) hs \<Longrightarrow> list_all (rlp_ok \<circ> RBytes) hs"
  by (auto simp: access_wf_def access_tree_def auth_wf_def auth_tree_def list.pred_map list_all_iff rlp_ok_sc)

lemma rlp_ok_tree_lists:
  "list_all access_wf al \<Longrightarrow> list_all (rlp_ok \<circ> access_tree) al"
  "list_all auth_wf as \<Longrightarrow> list_all (rlp_ok \<circ> auth_tree) as"
  using rlp_ok_trees by (auto simp: list_all_iff)

lemma rlp_ok_tree:
  assumes "tx_wf tx" shows "list_all rlp_ok (unsigned_tree tx @ signature_tree tx)"
proof -
  have "rlp_ok (to_tree (tx_to tx))" using assms by (auto simp: tx_wf_def to_wf_def to_tree_def split: option.splits)
  with assms show ?thesis
    by (auto simp: wf_defs unsigned_tree_def signature_tree_def list.pred_map rlp_ok_sc rlp_ok_trees rlp_ok_tree_lists
        split: option.splits if_splits)
qed

lemma list_first_byte:
  assumes "enc (RList f) = Inr e" shows "\<exists>b r. e = b # r \<and> 0xC0 \<le> unat b"
proof -
  from assms obtain p h where "header 0xC0 (length p) = Inr h" "e = h @ p" by (auto simp: enc.simps(2))
  then show ?thesis by (auto elim: enc_list_cases)
qed

lemma decode_encode_transaction:
  assumes "tx_ok tx"
  shows "decode_transaction (raw tx) = Inr tx"
proof -
  have wf: "tx_wf tx" and enc_tx: "encode_transaction tx = Inr (raw tx)" using assms by (simp_all add: tx_ok_def)
  define f where "f = unsigned_tree tx @ signature_tree tx"
  have enc_f: "map enc f = unsigned_items tx @ signature_items tx"
    using wf by (simp add: f_def unsigned_tree_enc signature_tree_enc)
  from enc_tx obtain body where body: "enc (RList f) = Inr body"
    and out: "(if ttype tx = 0 then Inr body else ebind (byte1 (ttype tx)) (\<lambda>t. Inr (t @ body))) = Inr (raw tx)"
    by (auto simp: encode_transaction_items enc_list_items enc_f)
  have rw: "if ttype tx = 0 then raw tx = body else \<exists>b. b # body = raw tx \<and> unat b = ttype tx"
    using out by (auto simp: byte1_iff) metis
  have dec: "rlp_decode_fully body = Inr (RList f)"
    using body rlp_ok_tree [OF wf] by (simp add: rlp_decode_fully_iff f_def)
  show ?thesis
  proof (cases "ttype tx = 0")
    case True
    with list_first_byte [OF body] rw obtain b r where b: "raw tx = b # r" "0xC0 \<le> unat b" by auto
    moreover have "b \<noteq> 0xFF" using assms True b(1) by (simp add: tx_ok_def)
    then have "unat b \<noteq> 0xFF" by (simp add: word_unat_eq_iff)
    then have "unat b \<le> 0xFE" using byte_less [of b] by linarith
    ultimately show ?thesis
      using dec rw True decode_legacy_tree [OF wf True] envelope_wf [OF wf]
      by (auto simp: decode_transaction_def Let_def f_def)
  next
    case False
    then obtain b where b: "raw tx = b # body" "ttype tx = unat b" using rw by metis
    then have "1 \<le> unat b \<and> unat b \<le> 4" using False wf by (auto simp: tx_wf_def)
    then have "decode_transaction (raw tx) =
        ebind (ebind (if ttype tx = 1 then head1 (empty_tx (raw tx)\<lparr>ttype := ttype tx\<rparr>) f
                      else if ttype tx = 2 then head2 (empty_tx (raw tx)\<lparr>ttype := ttype tx\<rparr>) f
                      else if ttype tx = 3 then head3 (empty_tx (raw tx)\<lparr>ttype := ttype tx\<rparr>) f
                      else head4 (empty_tx (raw tx)\<lparr>ttype := ttype tx\<rparr>) f) tail_tx) envelope"
      using b dec by (simp add: decode_transaction_def Let_def)
    also have "\<dots> = Inr tx"
      by (simp only: decode_typed_tree [OF wf refl f_def False] ebind_simps envelope_wf [OF wf])
    finally show ?thesis .
  qed
qed

interpretation tx: codec tx_ok encode_transaction decode_transaction
proof
  fix x b assume "tx_ok x" "encode_transaction x = Inr b"
  then show "decode_transaction b = Inr x"
    using decode_encode_transaction [of x] by (auto simp: tx_ok_def)
next
  fix b x assume d: "decode_transaction b = Inr x"
  show e: "encode_transaction x = Inr b" using d by (rule encode_decode_transaction)
  have "hd b \<noteq> 0xFF" using d by (cases b) (auto simp: decode_transaction_def Let_def)
  then show "tx_ok x" using decode_transaction_wf [OF d] e by (simp add: tx_ok_def)
qed

end
