(* ===== verification/TxRules.thy ===== *)
theory TxRules
  imports TxCodec
begin

text \<open>
  The rules of \<open>guest/test/exp_tx.py\<close> on decoded transactions: intrinsic gas, validity, and the
  152-byte record of the oracle; then what is signed, and which signatures are accepted.
\<close>

section \<open>Constants\<close>

definition TX_BASE :: nat where "TX_BASE = 12000"
definition TX_VALUE_COST :: nat where "TX_VALUE_COST = 6000"
definition TX_DATA_TOKEN_STANDARD :: nat where "TX_DATA_TOKEN_STANDARD = 4"
definition TX_DATA_TOKEN_FLOOR :: nat where "TX_DATA_TOKEN_FLOOR = 16"
definition WARM_ACCESS :: nat where "WARM_ACCESS = 100"
definition COLD_ACCOUNT_ACCESS :: nat where "COLD_ACCOUNT_ACCESS = 3000"
definition COLD_STORAGE_ACCESS :: nat where "COLD_STORAGE_ACCESS = 2100"
definition ACCOUNT_WRITE :: nat where "ACCOUNT_WRITE = 9000"
definition CREATE_ACCESS :: nat where "CREATE_ACCESS = ACCOUNT_WRITE + COLD_ACCOUNT_ACCESS"
definition CODE_INIT_PER_WORD :: nat where "CODE_INIT_PER_WORD = 2"
definition TX_ACCESS_LIST_ADDRESS :: nat where "TX_ACCESS_LIST_ADDRESS = COLD_ACCOUNT_ACCESS - WARM_ACCESS"
definition TX_ACCESS_LIST_STORAGE_KEY :: nat where "TX_ACCESS_LIST_STORAGE_KEY = COLD_STORAGE_ACCESS - WARM_ACCESS"
definition REGULAR_PER_AUTH_BASE_COST :: nat where
  "REGULAR_PER_AUTH_BASE_COST = 101 * 16 + 3000 + 3000 + 2 * WARM_ACCESS"
definition ACCESS_LIST_ADDRESS_FLOOR_TOKENS :: nat where "ACCESS_LIST_ADDRESS_FLOOR_TOKENS = 80"
definition ACCESS_LIST_STORAGE_KEY_FLOOR_TOKENS :: nat where "ACCESS_LIST_STORAGE_KEY_FLOOR_TOKENS = 128"
definition TX_MAX_GAS_LIMIT :: nat where "TX_MAX_GAS_LIMIT = 16777216"
definition TX_MAX_TOTAL_GAS_LIMIT :: nat where "TX_MAX_TOTAL_GAS_LIMIT = 4294967295"
definition MAX_INIT_CODE_SIZE :: nat where "MAX_INIT_CODE_SIZE = 2 * 0x10000"

lemmas gas_constants = TX_BASE_def TX_VALUE_COST_def TX_DATA_TOKEN_STANDARD_def TX_DATA_TOKEN_FLOOR_def
  WARM_ACCESS_def COLD_ACCOUNT_ACCESS_def COLD_STORAGE_ACCESS_def ACCOUNT_WRITE_def CREATE_ACCESS_def
  CODE_INIT_PER_WORD_def TX_ACCESS_LIST_ADDRESS_def TX_ACCESS_LIST_STORAGE_KEY_def
  REGULAR_PER_AUTH_BASE_COST_def ACCESS_LIST_ADDRESS_FLOOR_TOKENS_def
  ACCESS_LIST_STORAGE_KEY_FLOOR_TOKENS_def TX_MAX_GAS_LIMIT_def TX_MAX_TOTAL_GAS_LIMIT_def
  MAX_INIT_CODE_SIZE_def

section \<open>Intrinsic gas\<close>

definition count_tokens_in_data :: "bytes \<Rightarrow> nat" where
  "count_tokens_in_data data = (let z = count_list data 0 in z + (length data - z) * 4)"

text \<open>The access-list loop: the running pair \<open>alc\<close>, \<open>tok\<close>.\<close>

definition access_step :: "nat \<times> nat \<Rightarrow> access \<Rightarrow> nat \<times> nat" where
  "access_step = (\<lambda>(alc, tok) a.
     (alc + (TX_ACCESS_LIST_ADDRESS + length (snd a) * TX_ACCESS_LIST_STORAGE_KEY),
      tok + (ACCESS_LIST_ADDRESS_FLOOR_TOKENS + length (snd a) * ACCESS_LIST_STORAGE_KEY_FLOOR_TOKENS)))"

definition calculate_intrinsic_cost :: "tx \<Rightarrow> bytes \<Rightarrow> (nat \<times> nat \<times> nat) res" where
  "calculate_intrinsic_cost tx sender =
     (let data = tx_data tx;
          data_cost = count_tokens_in_data data * TX_DATA_TOKEN_STANDARD;
          is_create = (tx_to tx = None);
          is_self = (tx_to tx = Some sender);
          (rr, init) =
            (if is_create then (CREATE_ACCESS, CODE_INIT_PER_WORD * ((length data + 31) div 32))
             else if \<not> is_self then (COLD_ACCOUNT_ACCESS + (if tx_value tx > 0 then TX_VALUE_COST else 0), 0)
             else (0, 0));
          entries = (if ttype tx \<noteq> 0 then (case access_list tx of None \<Rightarrow> [] | Some al \<Rightarrow> al) else []);
          (alc, tok) = foldl access_step (0, 0) entries;
          alc = alc + tok * TX_DATA_TOKEN_FLOOR in
      ebind (if ttype tx = 4 then ebind (key (authorizations tx)) (\<lambda>as. Inr (REGULAR_PER_AUTH_BASE_COST * length as))
             else Inr 0) (\<lambda>auth.
        let floor_tokens = length data * TX_DATA_TOKEN_STANDARD + tok;
            base = TX_BASE + rr in
        Inr (base + init + data_cost + alc + auth, 0, floor_tokens * TX_DATA_TOKEN_FLOOR + base)))"

definition validate_transaction :: "tx \<Rightarrow> bytes \<Rightarrow> nat res" where
  "validate_transaction tx sender =
     ebind (calculate_intrinsic_cost tx sender) (\<lambda>(reg, st, fl).
     if gas tx > TX_MAX_TOTAL_GAS_LIMIT then Inr 66
     else if reg + st > gas tx then Inr 60
     else if fl > gas tx then Inr 61
     else if tx_to tx = None \<and> length (tx_data tx) > MAX_INIT_CODE_SIZE then Inr 62
     else if reg > TX_MAX_GAS_LIMIT then Inr 63
     else if fl > TX_MAX_GAS_LIMIT then Inr 64
     else if nonce tx \<ge> 2 ^ 64 - 1 then Inr 65
     else Inr 0)"

section \<open>The record\<close>

definition W :: "int \<Rightarrow> bytes" where
  \<comment> \<open>\<open>struct.pack("<Q", x & ((1 << 64) - 1))\<close>: the masked value always fits\<close>
  "W x = le_fix 8 (nat (x AND mask64))"

definition SENDER :: bytes where "SENDER = zeros 20"

definition opt_len :: "'a list option \<Rightarrow> int" where
  \<comment> \<open>\<open>len(tx.get(k, []))\<close>\<close>
  "opt_len x = (case x of None \<Rightarrow> 0 | Some xs \<Rightarrow> int (length xs))"

definition signature_part :: "tx \<Rightarrow> (int \<times> int \<times> int \<times> bytes) res" where
  \<comment> \<open>the \<open>try\<close> block: a \<open>TxErr\<close> gives the default, any other exception is passed on\<close>
  "signature_part tx =
     (case ebind (chain_id_of tx) (\<lambda>(some, cid). ebind (signature_recovery_parameters tx cid)
             (\<lambda>(recid, h). Inr (int some, int cid, int recid, h))) of
        Inl (TxErr _) \<Rightarrow> Inr (0, 0, -1, zeros 32)
      | r \<Rightarrow> r)"

definition tx_record :: "bytes \<Rightarrow> bytes res" where
  "tx_record rw =
     (case decode_transaction rw of
        Inl (TxErr _) \<Rightarrow> Inr (W (-1) @ zeros (152 - 8))
      | Inl e \<Rightarrow> Inl e
      | Inr tx \<Rightarrow>
          ebind (signature_part tx) (\<lambda>(some, cid, recid, h).
          ebind (calculate_intrinsic_cost tx SENDER) (\<lambda>(reg, st, fl).
          ebind (encode_transaction tx) (\<lambda>e.
          ebind (validate_transaction tx SENDER) (\<lambda>code.
            let out = W (int (ttype tx)) @ W (int (nonce tx)) @ W (int (gas tx)) @
                  W (if tx_to tx = None then 0 else 1) @
                  W (int (length (tx_data tx))) @ W (opt_len (access_list tx)) @
                  W (opt_len (blob_versioned_hashes tx)) @ W (opt_len (authorizations tx)) @
                  h @ W recid @ W (int reg) @ W (int fl) @
                  W (if e = raw tx then 1 else 0) @
                  W some @ W cid @ W (int code) in
            if length out = 152 then Inr out else Inl AssertionError)))))"

section \<open>The price list\<close>

text \<open>The costs as a table: one price per data byte, per access entry and per authorization.\<close>

definition byte_price :: "byte \<Rightarrow> nat" where
  "byte_price b = (if b = 0 then 4 else 16)"

definition recipient_price :: "tx \<Rightarrow> bytes \<Rightarrow> nat" where
  "recipient_price tx sender =
     (case tx_to tx of None \<Rightarrow> 12000
      | Some a \<Rightarrow> if a = sender then 0 else 3000 + (if tx_value tx = 0 then 0 else 6000))"

definition entries :: "tx \<Rightarrow> access list" where
  "entries tx = (case access_list tx of None \<Rightarrow> [] | Some al \<Rightarrow> al)"

definition regular_price :: "tx \<Rightarrow> bytes \<Rightarrow> nat" where
  "regular_price tx sender =
     12000 + recipient_price tx sender +
     (if tx_to tx = None then 2 * ((length (tx_data tx) + 31) div 32) else 0) +
     (\<Sum>b\<leftarrow>tx_data tx. byte_price b) +
     (\<Sum>a\<leftarrow>entries tx. 4180 + 4048 * length (snd a)) +
     (case authorizations tx of None \<Rightarrow> 0 | Some as \<Rightarrow> 7816 * length as)"

definition floor_price :: "tx \<Rightarrow> bytes \<Rightarrow> nat" where
  "floor_price tx sender =
     12000 + recipient_price tx sender + 64 * length (tx_data tx) +
     (\<Sum>a\<leftarrow>entries tx. 1280 + 2048 * length (snd a))"

lemma data_price: "count_tokens_in_data data * TX_DATA_TOKEN_STANDARD = (\<Sum>b\<leftarrow>data. byte_price b)"
proof -
  have "count_list data 0 \<le> length data" by (rule count_le_length)
  then have "count_tokens_in_data data + 3 * count_list data 0 = 4 * length data"
    by (simp add: count_tokens_in_data_def Let_def)
  moreover have "(\<Sum>b\<leftarrow>data. byte_price b) + 12 * count_list data 0 = 16 * length data"
    by (induction data) (auto simp: byte_price_def)
  ultimately show ?thesis by (simp add: TX_DATA_TOKEN_STANDARD_def)
qed

lemma access_loop:
  "foldl access_step (alc, tok) al =
     (alc + (\<Sum>a\<leftarrow>al. 2900 + 2000 * length (snd a)), tok + (\<Sum>a\<leftarrow>al. 80 + 128 * length (snd a)))"
  by (induction al arbitrary: alc tok) (auto simp: access_step_def gas_constants)

lemma access_price:
  "(\<Sum>a\<leftarrow>al. 2900 + 2000 * length (snd a)) + 16 * (\<Sum>a\<leftarrow>al. 80 + 128 * length (snd a)) =
     (\<Sum>a\<leftarrow>al. 4180 + 4048 * length (snd a))" for al :: "access list"
  by (induction al) auto

lemma access_floor:
  "16 * (\<Sum>a\<leftarrow>al. 80 + 128 * length (snd a)) = (\<Sum>a\<leftarrow>al. 1280 + 2048 * length (snd a))" for al :: "access list"
  by (induction al) auto

lemma intrinsic_cost_price:
  assumes "tx_wf tx"
  shows "calculate_intrinsic_cost tx sender = Inr (regular_price tx sender, 0, floor_price tx sender)"
proof -
  have e: "(if ttype tx \<noteq> 0 then (case access_list tx of None \<Rightarrow> [] | Some al \<Rightarrow> al) else []) = entries tx"
    using assms by (auto simp: entries_def tx_wf_def common_wf_def)
  have a: "(if ttype tx = 4 then ebind (key (authorizations tx)) (\<lambda>as. Inr (REGULAR_PER_AUTH_BASE_COST * length as))
     else Inr 0) = Inr (case authorizations tx of None \<Rightarrow> 0 | Some as \<Rightarrow> 7816 * length as)"
    using assms by (auto simp: tx_wf_def own_wf_def gas_constants split: option.splits if_splits)
  note parts = data_price [of "tx_data tx"] access_price [of "entries tx"] access_floor [of "entries tx"]
  show ?thesis
    unfolding calculate_intrinsic_cost_def Let_def e a access_loop data_price
    using access_price [of "entries tx"] access_floor [of "entries tx"]
    by (auto simp: regular_price_def floor_price_def recipient_price_def gas_constants split: option.splits)
qed

lemma validate_transaction_price:
  assumes "tx_wf tx"
  shows "validate_transaction tx sender = Inr
    (if gas tx \<ge> 2 ^ 32 then 66
     else if regular_price tx sender > gas tx then 60
     else if floor_price tx sender > gas tx then 61
     else if tx_to tx = None \<and> length (tx_data tx) > 131072 then 62
     else if regular_price tx sender > 2 ^ 24 then 63
     else if floor_price tx sender > 2 ^ 24 then 64
     else if nonce tx \<ge> 2 ^ 64 - 1 then 65
     else 0)"
  by (simp add: validate_transaction_def intrinsic_cost_price [OF assms] gas_constants)

section \<open>Sizes of encodings\<close>

lemma enc_list_ok: "length (concat f) < 2 ^ 64 \<Longrightarrow> \<exists>h. enc_list f = Inr (h @ concat f)"
proof (cases "length (concat f) \<le> 55")
  case True
  then show ?thesis using header_short [of "length (concat f)" "0xC0"]
    by (auto simp: enc_list_def enc_len_header Let_def)
next
  case False
  assume "length (concat f) < 2 ^ 64"
  with False show ?thesis using header_long [of "length (concat f)" "0xC0"]
    by (auto simp: enc_list_def enc_len_header Let_def)
qed

lemma enc_list_length: "enc_list f = Inr e \<Longrightarrow> length (concat f) \<le> length e"
  by (auto simp: enc_list_def Let_def)

lemma scalar_ok: "n < 2 ^ 256 \<Longrightarrow> \<exists>e. scalar n = Inr e \<and> length e \<le> 33"
proof -
  assume "n < 2 ^ 256"
  then have len: "length (be n) \<le> 32" by (simp add: length_be_le_iff)
  then obtain h where "header 0x80 (length (be n)) = Inr [h]"
    using header_short [of "length (be n)" "0x80"] by auto
  with len show ?thesis by (auto simp: scalar_eq enc_bytes_def)
qed

section \<open>Signing\<close>

definition legacy_protected :: "tx \<Rightarrow> bool" where
  "legacy_protected tx \<longleftrightarrow> ttype tx = 0 \<and> tx_v tx \<noteq> Some 27 \<and> tx_v tx \<noteq> Some 28"

lemma signing_preimage_items:
  assumes "tx_wf tx"
  shows "signing_preimage tx cid =
    ebind (seqs (unsigned_items tx @ (if legacy_protected tx then [scalar cid, scalar 0, scalar 0] else []))) (\<lambda>f.
    ebind (enc_list f) (\<lambda>b. if ttype tx = 0 then Inr b else ebind (byte1 (ttype tx)) (\<lambda>t. Inr (t @ b))))"
proof (cases "ttype tx = 0")
  case True
  with assms obtain v where v: "tx_v tx = Some v" by (auto simp: tx_wf_def signature_wf_def below_def split: option.splits)
  with True v show ?thesis
    by (auto simp: signing_preimage_def unsigned_fields_def legacy_protected_def seqs_append ebind_assoc
        simp del: seqs_simps(2))
next
  case False
  moreover have "byte1 (ttype tx) = Inr [word_of_nat (ttype tx)]" using assms by (simp add: byte1_def tx_wf_def)
  ultimately show ?thesis
    by (simp add: signing_preimage_def unsigned_fields_def legacy_protected_def)
qed

lemma signing_preimage_total:
  assumes "tx_ok tx" "length (raw tx) < 2 ^ 63" "cid < 2 ^ 256"
  shows "\<exists>p. signing_preimage tx cid = Inr p"
proof -
  from assms(1) have wf: "tx_wf tx" and enc_tx: "encode_transaction tx = Inr (raw tx)" by (simp_all add: tx_ok_def)
  from enc_tx obtain f g body where f: "seqs (unsigned_items tx) = Inr f" and body: "enc_list (f @ g) = Inr body"
    and out: "(if ttype tx = 0 then Inr body else ebind (byte1 (ttype tx)) (\<lambda>t. Inr (t @ body))) = Inr (raw tx)"
    by (auto simp: encode_transaction_def unsigned_fields_def)
  from out have "\<exists>t. t @ body = raw tx" by (auto split: if_splits)
  then have len: "length body \<le> length (raw tx)" by (metis le_add2 length_append)
  obtain c z where cz: "scalar cid = Inr c" "length c \<le> 33" "scalar 0 = Inr z" "length z \<le> 33"
    using scalar_ok [OF assms(3)] scalar_ok [of 0] by auto
  have "length (concat f) < 2 ^ 63" using enc_list_length [OF body] len assms(2) by simp
  then obtain h h' where "enc_list f = Inr (h @ concat f)" "enc_list (f @ [c, z, z]) = Inr (h' @ concat (f @ [c, z, z]))"
    using enc_list_ok [of f] enc_list_ok [of "f @ [c, z, z]"] cz by auto
  moreover have "\<exists>t. byte1 (ttype tx) = Inr t" using wf by (simp add: tx_wf_def byte1_def)
  ultimately show ?thesis
    using f cz by (auto simp: signing_preimage_items [OF wf] seqs_append)
qed

lemma signing_hash_total:
  assumes "tx_ok tx" "length (raw tx) < 2 ^ 63" "cid < 2 ^ 256"
  shows "\<exists>h. signing_hash tx cid = Inr h \<and> length h = 32"
  using signing_preimage_total [OF assms] keccak.hash_total by (auto simp: signing_hash_def)

text \<open>The signing image determines the transaction type and every unsigned field.\<close>

definition unsigned :: "tx \<Rightarrow> tx" where
  "unsigned tx = tx\<lparr>raw := [], y_parity := None, tx_v := None, tx_r := 0, tx_s := 0\<rparr>"

lemma sc_inj [simp]: "sc m = sc n \<longleftrightarrow> m = n"
  by (metis from_be_be sc_def rlp.inject(1))

lemma access_tree_inj: "access_tree a = access_tree b \<longleftrightarrow> a = b"
  by (cases a; cases b) (auto simp: access_tree_def inj_map_eq_map inj_def)

lemma auth_tree_inj: "auth_tree a = auth_tree b \<longleftrightarrow> a = b"
  by (cases a; cases b) (auto simp: auth_tree_def)

lemma map_tree_inj [simp]:
  "map access_tree as = map access_tree bs \<longleftrightarrow> as = bs" "map auth_tree us = map auth_tree vs \<longleftrightarrow> us = vs"
  "map RBytes xs = map RBytes ys \<longleftrightarrow> xs = ys"
  by (simp_all add: inj_map_eq_map inj_def access_tree_inj auth_tree_inj)

lemma to_tree_inj: "to_wf t \<Longrightarrow> to_wf u \<Longrightarrow> to_tree (tx_to t) = to_tree (tx_to u) \<Longrightarrow> tx_to t = tx_to u"
  by (auto simp: to_tree_def to_wf_def split: option.splits)

lemma below_iff: "below k x \<longleftrightarrow> x \<noteq> None \<and> the x < k"
  by (auto simp: below_def split: option.splits)

lemma wf_keys:
  assumes "tx_wf t"
  shows "chain_id t = None \<longleftrightarrow> ttype t = 0" "access_list t = None \<longleftrightarrow> ttype t = 0" "gas_price t = None \<longleftrightarrow> 1 < ttype t"
    "max_priority_fee_per_gas t = None \<longleftrightarrow> ttype t \<le> 1" "max_fee_per_gas t = None \<longleftrightarrow> ttype t \<le> 1"
    "max_fee_per_blob_gas t = None \<longleftrightarrow> ttype t \<noteq> 3" "blob_versioned_hashes t = None \<longleftrightarrow> ttype t \<noteq> 3"
    "authorizations t = None \<longleftrightarrow> ttype t \<noteq> 4"
  using assms by (auto simp: tx_wf_def common_wf_def fees_wf_def own_wf_def below_iff split: if_splits option.splits)

lemma unsigned_tree_inj:
  assumes wf: "tx_wf t" "tx_wf u" and ty: "ttype t = ttype u" and tree: "unsigned_tree t = unsigned_tree u"
  shows "unsigned t = unsigned u"
proof -
  have to: "to_tree (tx_to t) = to_tree (tx_to u) \<Longrightarrow> tx_to t = tx_to u"
    using wf by (intro to_tree_inj) (simp_all add: tx_wf_def)
  consider "ttype u = 0" | "ttype u = 1" | "ttype u = 2" | "ttype u = 3" | "ttype u = 4"
    using wf(2) unfolding tx_wf_def by linarith
  then have F: "nonce t = nonce u \<and> gas t = gas u \<and> to_tree (tx_to t) = to_tree (tx_to u) \<and> tx_value t = tx_value u \<and>
      tx_data t = tx_data u \<and> (ttype u \<noteq> 0 \<longrightarrow> the (chain_id t) = the (chain_id u)) \<and>
      (ttype u \<noteq> 0 \<longrightarrow> the (access_list t) = the (access_list u)) \<and>
      (ttype u \<le> 1 \<longrightarrow> the (gas_price t) = the (gas_price u)) \<and>
      (1 < ttype u \<longrightarrow> the (max_priority_fee_per_gas t) = the (max_priority_fee_per_gas u)) \<and>
      (1 < ttype u \<longrightarrow> the (max_fee_per_gas t) = the (max_fee_per_gas u)) \<and>
      (ttype u = 3 \<longrightarrow> the (max_fee_per_blob_gas t) = the (max_fee_per_blob_gas u)) \<and>
      (ttype u = 3 \<longrightarrow> the (blob_versioned_hashes t) = the (blob_versioned_hashes u)) \<and>
      (ttype u = 4 \<longrightarrow> the (authorizations t) = the (authorizations u))"
    by cases (use tree ty in \<open>simp_all add: unsigned_tree_def\<close>)
  note keys = wf_keys [OF wf(1)] wf_keys [OF wf(2)]
  have "chain_id t = chain_id u" "access_list t = access_list u" "gas_price t = gas_price u"
    "max_priority_fee_per_gas t = max_priority_fee_per_gas u" "max_fee_per_gas t = max_fee_per_gas u"
    "max_fee_per_blob_gas t = max_fee_per_blob_gas u" "blob_versioned_hashes t = blob_versioned_hashes u"
    "authorizations t = authorizations u"
    by (rule option.expand; use F in \<open>simp add: keys ty\<close>)+
  with F to ty show ?thesis by (intro tx.equality) (simp_all add: unsigned_def)
qed

definition signing_tree :: "tx \<Rightarrow> nat \<Rightarrow> rlp" where
  "signing_tree tx cid = RList (unsigned_tree tx @ (if legacy_protected tx then [sc cid, sc 0, sc 0] else []))"

lemma signing_preimage_tree:
  assumes "tx_wf tx" "signing_preimage tx cid = Inr p"
  obtains (legacy) "ttype tx = 0" "enc (signing_tree tx cid) = Inr p"
  | (typed) b e where "unat b = ttype tx" "ttype tx \<noteq> 0" "p = b # e" "enc (signing_tree tx cid) = Inr e"
proof -
  have "enc (signing_tree tx cid) = ebind (seqs (unsigned_items tx @
      (if legacy_protected tx then [scalar cid, scalar 0, scalar 0] else []))) enc_list"
    by (simp add: signing_tree_def enc_list_items unsigned_tree_enc [OF assms(1)] seqs_append ebind_assoc)
  with assms(2) that show ?thesis
    by (auto simp: signing_preimage_items [OF assms(1)] byte1_iff split: if_splits)
qed

lemma rlp_ok_signing_tree: "tx_wf tx \<Longrightarrow> cid < 2 ^ 256 \<Longrightarrow> rlp_ok (signing_tree tx cid)"
  using rlp_ok_tree [of tx] by (simp add: signing_tree_def rlp_ok_sc)

lemma signing_tree_inj:
  assumes wf: "tx_wf t" "tx_wf u" and ty: "ttype t = ttype u" and tree: "signing_tree t c = signing_tree u d"
  shows "unsigned t = unsigned u \<and> legacy_protected t = legacy_protected u \<and> (legacy_protected t \<longrightarrow> c = d)"
proof (cases "ttype u = 0")
  case True
  then have len: "length (unsigned_tree t) = 6" "length (unsigned_tree u) = 6" using ty by (simp_all add: unsigned_tree_def)
  have "legacy_protected t = legacy_protected u"
    using arg_cong [OF tree, of "\<lambda>x. case x of RList xs \<Rightarrow> length xs | _ \<Rightarrow> 0"] len
    by (simp add: signing_tree_def split: if_splits)
  with tree len have "unsigned_tree t = unsigned_tree u \<and> (legacy_protected t \<longrightarrow> c = d)"
    by (auto simp: signing_tree_def)
  with \<open>legacy_protected t = legacy_protected u\<close> unsigned_tree_inj [OF wf ty] show ?thesis by blast
next
  case False
  with ty have "\<not> legacy_protected t" "\<not> legacy_protected u" by (simp_all add: legacy_protected_def)
  with tree unsigned_tree_inj [OF wf ty] show ?thesis by (simp add: signing_tree_def)
qed

lemma signing_preimage_inj:
  assumes wf: "tx_wf t" "tx_wf u" and c: "c < 2 ^ 256" "d < 2 ^ 256"
    and p: "signing_preimage t c = Inr p" "signing_preimage u d = Inr p"
  shows "unsigned t = unsigned u \<and> legacy_protected t = legacy_protected u \<and> (legacy_protected t \<longrightarrow> c = d)"
proof -
  have tree_eq: "signing_tree t c = signing_tree u d"
    if "enc (signing_tree t c) = Inr e" "enc (signing_tree u d) = Inr e" for e
    using rlp.encode_inj [OF _ _ that] rlp_ok_signing_tree wf c by blast
  have first: "\<exists>b r. e = b # r \<and> 0xC0 \<le> unat b" if "enc (signing_tree x k) = Inr e" for x k e
    using list_first_byte that by (simp add: signing_tree_def)
  have small: "ttype t \<le> 4" "ttype u \<le> 4" using wf by (simp_all add: tx_wf_def)
  from wf(1) p(1) show ?thesis
  proof (cases rule: signing_preimage_tree)
    case legacy
    from wf(2) p(2) show ?thesis
    proof (cases rule: signing_preimage_tree)
      case legacy
      with \<open>ttype t = 0\<close> \<open>enc (signing_tree t c) = Inr p\<close> show ?thesis
        by (intro signing_tree_inj [OF wf] tree_eq) simp_all
    next
      case (typed b e)
      with first [OF \<open>enc (signing_tree t c) = Inr p\<close>] small show ?thesis by auto
    qed
  next
    case t: (typed b e)
    from wf(2) p(2) show ?thesis
    proof (cases rule: signing_preimage_tree)
      case legacy
      with first [OF \<open>enc (signing_tree u d) = Inr p\<close>] t small show ?thesis by auto
    next
      case (typed b' e')
      with t show ?thesis by (intro signing_tree_inj [OF wf] tree_eq) simp_all
    qed
  qed
qed

section \<open>Signatures\<close>

text \<open>A chain id that \<open>chain_id_of\<close> finds never makes the recovery parameters reject \<open>v\<close>.\<close>

lemma chain_id_of_v:
  assumes "chain_id_of tx = Inr (some, cid)" "ttype tx = 0"
  shows "(\<exists>v. tx_v tx = Some v \<and> (v = 27 \<or> v = 28 \<or> v = 35 + 2 * cid \<or> v = 36 + 2 * cid)) \<and> cid < 2 ^ 64"
proof -
  from assms obtain v where v: "tx_v tx = Some v"
    and c: "v = 27 \<and> cid = 0 \<or> v = 28 \<and> cid = 0 \<or> 35 \<le> v \<and> cid = drop_bit 1 (v - 35) \<and> cid < 2 ^ 64"
    by (auto simp: chain_id_of_def key_Inr_iff Let_def not_less not_le split: if_splits)
  have "v = 35 + 2 * cid \<or> v = 36 + 2 * cid" if "35 \<le> v" "cid = drop_bit 1 (v - 35)"
    using that by (simp add: drop_bit_eq_div) presburger
  with v c show ?thesis by auto
qed

lemma chain_id_less: "tx_wf tx \<Longrightarrow> chain_id_of tx = Inr (some, cid) \<Longrightarrow> cid < 2 ^ 64"
proof (cases "ttype tx = 0")
  case False
  assume "tx_wf tx" "chain_id_of tx = Inr (some, cid)"
  with False show ?thesis by (auto simp: chain_id_of_def tx_wf_def common_wf_def below_iff key_Inr_iff)
qed (use chain_id_of_v in blast)

lemma recovery_parameters_bounds:
  assumes "signature_recovery_parameters tx cid = Inr (recid, h)"
  shows "recid \<le> 1 \<and> length h = 32 \<and> 0 < tx_r tx \<and> tx_r tx < SECP256K1N \<and> 0 < tx_s tx \<and> tx_s tx \<le> SECP256K1N div 2 \<and>
    signing_hash tx cid = Inr h"
proof -
  have len: "length h = 32" if "signing_hash tx cid = Inr h" for h
    using that keccak.hash_length by (auto simp: signing_hash_def)
  from assms show ?thesis
    by (auto simp: signature_recovery_parameters_def Let_def len split: if_splits)
qed

definition signature_in_range :: "tx \<Rightarrow> bool" where
  "signature_in_range tx \<longleftrightarrow> 0 < tx_r tx \<and> tx_r tx < SECP256K1N \<and> 0 < tx_s tx \<and> tx_s tx \<le> SECP256K1N div 2 \<and>
     (ttype tx \<noteq> 0 \<longrightarrow> y_parity tx = Some 0 \<or> y_parity tx = Some 1)"

lemma recovery_parameters_cases:
  assumes ok: "tx_ok tx" "length (raw tx) < 2 ^ 63" and c: "chain_id_of tx = Inr (some, cid)"
  shows "(\<exists>recid h. signature_recovery_parameters tx cid = Inr (recid, h)) \<longleftrightarrow> signature_in_range tx"
    and "signature_recovery_parameters tx cid = Inl e \<Longrightarrow> \<exists>m. e = TxErr m"
proof -
  have wf: "tx_wf tx" using ok by (simp add: tx_ok_def)
  have "cid < 2 ^ 256" using chain_id_less [OF wf c] by simp
  then obtain h where h: "signing_hash tx cid = Inr h" using signing_hash_total [OF ok] by blast
  have v: "\<exists>v. tx_v tx = Some v \<and> (v = 27 \<or> v = 28 \<or> v = 35 + 2 * cid \<or> v = 36 + 2 * cid)" if "ttype tx = 0"
    using chain_id_of_v [OF c that] by blast
  have yp: "\<exists>y. y_parity tx = Some y" if "ttype tx \<noteq> 0"
    using wf that by (auto simp: tx_wf_def signature_wf_def below_iff)
  show "(\<exists>recid h. signature_recovery_parameters tx cid = Inr (recid, h)) \<longleftrightarrow> signature_in_range tx"
    using v yp by (cases "ttype tx = 0")
      (auto simp: signature_recovery_parameters_def Let_def h signature_in_range_def not_less not_le split: if_splits)
  show "\<exists>m. e = TxErr m" if "signature_recovery_parameters tx cid = Inl e"
    using that v yp by (cases "ttype tx = 0")
      (auto simp: signature_recovery_parameters_def Let_def h split: if_splits)
qed

lemma recovery_low_s:
  assumes "signature_recovery_parameters tx cid = Inr x"
  shows "signature_recovery_parameters (tx\<lparr>tx_s := SECP256K1N - tx_s tx\<rparr>) cid' = Inl (TxErr ''bad s'')"
proof -
  have "0 < tx_r tx \<and> tx_r tx < SECP256K1N \<and> 0 < tx_s tx \<and> tx_s tx \<le> SECP256K1N div 2"
    using recovery_parameters_bounds assms by (cases x) blast
  then have "0 < tx_r tx" "tx_r tx < SECP256K1N" "SECP256K1N div 2 < SECP256K1N - tx_s tx"
    by (auto simp: SECP256K1N_def)
  then show ?thesis by (simp add: signature_recovery_parameters_def Let_def)
qed

section \<open>The record\<close>

lemma length_W [simp]: "length (W x) = 8"
  by (simp add: W_def)

lemma chain_id_of_raises: "tx_wf tx \<Longrightarrow> chain_id_of tx = Inl e \<Longrightarrow> \<exists>m. e = TxErr m"
  by (auto simp: chain_id_of_def tx_wf_def common_wf_def signature_wf_def below_def Let_def
      split: if_splits option.splits)

lemma signature_part_total:
  assumes "tx_ok tx" "length (raw tx) < 2 ^ 63"
  shows "\<exists>some cid recid h. signature_part tx = Inr (some, cid, recid, h) \<and> length h = 32"
proof (cases "chain_id_of tx")
  case (Inl e)
  moreover have "tx_wf tx" using assms by (simp add: tx_ok_def)
  ultimately show ?thesis using chain_id_of_raises by (fastforce simp: signature_part_def)
next
  case (Inr c)
  obtain some cid where c: "c = (some, cid)" by (cases c)
  show ?thesis
  proof (cases "signature_recovery_parameters tx cid")
    case (Inl e)
    with recovery_parameters_cases(2) [OF assms Inr [unfolded c]] Inr c show ?thesis
      by (fastforce simp: signature_part_def)
  next
    case r: (Inr x)
    obtain recid h where "x = (recid, h)" by (cases x)
    with recovery_parameters_bounds [of tx cid recid h] r Inr c show ?thesis
      by (simp add: signature_part_def)
  qed
qed

text \<open>Every rejection of the decoder is a \<open>TxErr\<close>, the only exception \<open>tx_record\<close> catches.\<close>

named_theorems rejects_intros \<open>rules for computations that raise nothing but TxErr\<close>

definition rejects :: "'a res \<Rightarrow> bool" where
  "rejects m \<longleftrightarrow> (\<forall>e. m = Inl e \<longrightarrow> (\<exists>s. e = TxErr s))"

lemma rejects_simps [simp]: "rejects (Inr x)" "rejects (Inl (TxErr s))"
  by (simp_all add: rejects_def)

lemma rejects_ebind [rejects_intros]: "rejects m \<Longrightarrow> (\<And>x. m = Inr x \<Longrightarrow> rejects (f x)) \<Longrightarrow> rejects (ebind m f)"
  by (cases m) (auto simp: rejects_def)

lemma rejects_emap [rejects_intros]: "(\<And>x. rejects (d x)) \<Longrightarrow> rejects (emap d xs)"
  by (induction xs) (auto intro!: rejects_ebind)

lemma rejects_decoders [rejects_intros]:
  "rejects (d_scalar it m)" "rejects (d_bytes it)" "rejects (d_fixed it w)" "rejects (d_to it)" "rejects (d_list it)"
  "rejects (rlp_decode_fully b)" "rejects (envelope tx)"
  by (auto simp: d_scalar_def d_bytes_def d_fixed_def d_to_def d_list_def envelope_def Let_def rejects_def
      split: rlp.splits if_splits dest: rlp_decode_fully_raises)

lemma rejects_entries [rejects_intros]: "rejects (d_access it)" "rejects (d_auth it)"
  by (auto simp: d_access_def d_auth_def split: rlp.split list.split intro!: rejects_intros)

lemma rejects_heads [rejects_intros]:
  "rejects (head1 tx f)" "rejects (head2 tx f)" "rejects (head3 tx f)" "rejects (head4 tx f)"
  "rejects (decode_legacy tx f)"
  by (auto simp: head1_def head2_def head3_def head4_def decode_legacy_def head_fees_def split: list.split
      intro!: rejects_intros)

lemma tail_shape:
  assumes "(if b = 1 then head1 tx f else if b = 2 then head2 tx f
            else if b = 3 then head3 tx f else head4 tx f) = Inr (tx1, vl, data, al, ext, yp, r, s)"
    and "ttype tx = b"
  shows "(ttype tx1 = 3 \<longrightarrow> length ext = 2) \<and> (ttype tx1 = 4 \<longrightarrow> b \<noteq> 0 \<longrightarrow> length ext = 1)"
proof -
  have "ttype tx1 = ttype tx"
    using assms by (auto simp: head1_def head2_def head3_def head4_def head_fees_def split: if_splits list.splits)
  with assms show ?thesis by (auto simp: head3_def head4_def split: list.splits)
qed

lemma rejects_ext:
  "(ttype tx = 3 \<Longrightarrow> length ext = 2) \<Longrightarrow> rejects (tail_blob tx ext)"
  "(ttype tx = 4 \<Longrightarrow> length ext = 1) \<Longrightarrow> rejects (tail_auths tx ext)"
  by (auto simp: tail_blob_def tail_auths_def numeral_2_eq_2 length_Suc_conv intro!: rejects_intros)

lemma rejects_typed:
  assumes "b \<in> {1, 2, 3, 4}" "ttype tx = b"
  shows "rejects (ebind (if b = 1 then head1 tx f else if b = 2 then head2 tx f
            else if b = 3 then head3 tx f else head4 tx f) tail_tx)"
proof (rule rejects_ebind)
  fix h assume h: "(if b = 1 then head1 tx f else if b = 2 then head2 tx f
            else if b = 3 then head3 tx f else head4 tx f) = Inr h"
  obtain tx1 vl data al ext yp r s where hh: "h = (tx1, vl, data, al, ext, yp, r, s)" by (cases h) auto
  from tail_shape [OF h [unfolded hh] assms(2)] assms(1)
  have ext: "ttype tx1 = 3 \<Longrightarrow> length ext = 2" "ttype tx1 = 4 \<Longrightarrow> length ext = 1" by auto
  have auths: "rejects (tail_auths tx2 ext)"
    if "tail_blob (tx1\<lparr>tx_value := a, tx_data := d, access_list := l\<rparr>) ext = Inr tx2" for a d l tx2
  proof -
    have "ttype tx2 = ttype tx1" using that by (auto elim: tail_blob_frame)
    with ext show ?thesis by (intro rejects_ext) simp
  qed
  with ext show "rejects (tail_tx h)"
    by (auto simp: tail_tx_def hh intro!: rejects_intros rejects_ext(1) auths)
qed (auto intro!: rejects_intros)

lemma rejects_rlp_case:
  "(\<And>b. it = RBytes b \<Longrightarrow> rejects (f b)) \<Longrightarrow> (\<And>xs. it = RList xs \<Longrightarrow> rejects (g xs)) \<Longrightarrow>
   rejects (case it of RBytes b \<Rightarrow> f b | RList xs \<Rightarrow> g xs)"
  by (cases it) simp_all

lemma rejects_if: "(c \<Longrightarrow> rejects m) \<Longrightarrow> (\<not> c \<Longrightarrow> rejects n) \<Longrightarrow> rejects (if c then m else n)"
  by simp

lemma decode_transaction_raises: "decode_transaction rw = Inl e \<Longrightarrow> \<exists>m. e = TxErr m"
proof -
  have "rejects (decode_transaction rw)"
    unfolding decode_transaction_def Let_def
    by (rule rejects_if rejects_ebind rejects_rlp_case rejects_simps rejects_decoders rejects_heads rejects_typed
        | force)+
  then show "decode_transaction rw = Inl e \<Longrightarrow> \<exists>m. e = TxErr m" by (simp add: rejects_def)
qed

lemma tx_record_accepted:
  assumes "decode_transaction rw = Inr tx" "length rw < 2 ^ 63"
  shows "\<exists>r. tx_record rw = Inr r \<and> length r = 152 \<and> bslice r 0 8 = W (int (ttype tx)) \<and> bslice r 120 128 = W 1"
proof -
  have ok: "tx_ok tx" and raw: "raw tx = rw" and e: "encode_transaction tx = Inr rw"
    using tx.decode_ok [OF assms(1)] decode_transaction_wf [OF assms(1)] encode_decode_transaction [OF assms(1)]
    by blast+
  then have wf: "tx_wf tx" by (simp add: tx_ok_def)
  obtain some cid recid h where sp: "signature_part tx = Inr (some, cid, recid, h)" "length h = 32"
    using signature_part_total [OF ok] assms(2) raw by auto
  show ?thesis
    using sp(2) by (simp add: tx_record_def assms(1) sp(1) intrinsic_cost_price [OF wf] e raw Let_def
      validate_transaction_price [OF wf] bslice_def)
qed

lemma tx_record_rejected:
  assumes "decode_transaction rw = Inl e"
  shows "tx_record rw = Inr (W (-1) @ zeros 144)"
  using decode_transaction_raises [OF assms] by (auto simp: tx_record_def assms)

lemma W_word: "from_le (W x) = nat (x mod 2 ^ 64)"
proof -
  have "x AND mask64 = x mod 2 ^ 64" 
    by (simp add: mask64_mask take_bit_eq_mod flip: take_bit_eq_mask)
  moreover have "nat (x mod 2 ^ 64) < 256 ^ 8" by (simp add: nat_less_iff)
  ultimately show ?thesis by (simp add: W_def from_le_le_fix)
qed

lemma tx_record_word0:
  assumes "tx_record rw = Inr r" "length rw < 2 ^ 63"
  shows "bslice r 0 8 = W (-1) \<longleftrightarrow> (\<exists>e. decode_transaction rw = Inl e)"
proof (cases "decode_transaction rw")
  case (Inl e)
  with assms tx_record_rejected show ?thesis by (fastforce simp: bslice_def)
next
  case (Inr tx)
  have "ttype tx \<le> 4" using decode_transaction_wf [OF Inr] by (simp add: tx_wf_def)
  then have "W (int (ttype tx)) \<noteq> W (-1)"
    using W_word [of "int (ttype tx)"] W_word [of "-1"] by (auto simp: mod_pos_pos_trivial)
  with tx_record_accepted [OF Inr assms(2)] assms(1) Inr show ?thesis by auto
qed

section \<open>Properties\<close>

text \<open>A legacy and a blob transaction to run the definitions on.\<close>

definition sample_legacy :: bytes where
  "sample_legacy = [0xC9, 1, 2, 3, 0x80, 4, 5, 27, 1, 1]"

definition sample_auth :: bytes where
  "sample_auth = [4, 0xE1, 1, 2, 3, 4, 5, 0x94] @ [7, 7, 7, 7, 7, 7, 7, 7, 7, 7, 7, 7, 7, 7, 7, 7, 7, 7, 7, 7] @ [6, 8, 0xC0, 0xC0, 1, 9, 10]"

lemmas run_decode = rlp_decode_fully_def rlp_item.simps rlp_list.simps bslice_def decode_transaction_def
  decode_legacy_def head1_def head2_def head3_def head4_def head_fees_def tail_tx_def tail_blob_def tail_auths_def
  d_scalar_def d_to_def d_bytes_def d_fixed_def d_list_def d_access_def d_auth_def from_be_def empty_tx_def
  envelope_def index_at_def

definition sample_legacy_tx :: tx where
  "sample_legacy_tx = empty_tx sample_legacy\<lparr>nonce := 1, gas_price := Some 2, gas := 3, tx_value := 4, tx_data := [5], tx_v := Some 27, tx_r := 1, tx_s := 1\<rparr>"

definition sample_resigned :: bytes where
  "sample_resigned = [0xC9, 1, 2, 3, 0x80, 4, 5, 28, 9, 8]"

definition sample_resigned_tx :: tx where
  "sample_resigned_tx = empty_tx sample_resigned\<lparr>nonce := 1, gas_price := Some 2, gas := 3, tx_value := 4, tx_data := [5], tx_v := Some 28, tx_r := 9, tx_s := 8\<rparr>"

definition sample_valid :: bytes where
  "sample_valid = [0xDF, 1, 2, 0x82, 0x75, 0x30, 0x94] @ [7, 7, 7, 7, 7, 7, 7, 7, 7, 7, 7, 7, 7, 7, 7, 7, 7, 7, 7, 7] @ [4, 5, 27, 1, 1]"

definition sample_valid_tx :: tx where
  "sample_valid_tx = empty_tx sample_valid\<lparr>nonce := 1, gas_price := Some 2, gas := 30000,
      tx_to := Some [7, 7, 7, 7, 7, 7, 7, 7, 7, 7, 7, 7, 7, 7, 7, 7, 7, 7, 7, 7], tx_value := 4, tx_data := [5], tx_v := Some 27, tx_r := 1, tx_s := 1\<rparr>"

definition sample_auth_tx :: tx where
  "sample_auth_tx = empty_tx sample_auth
     \<lparr>ttype := 4, chain_id := Some 1, nonce := 2, max_priority_fee_per_gas := Some 3, max_fee_per_gas := Some 4, gas := 5,
      tx_to := Some [7, 7, 7, 7, 7, 7, 7, 7, 7, 7, 7, 7, 7, 7, 7, 7, 7, 7, 7, 7], tx_value := 6, tx_data := [8], access_list := Some [], authorizations := Some [],
      y_parity := Some 1, tx_r := 9, tx_s := 10\<rparr>"

lemma samples_decoded:
  "decode_transaction sample_legacy = Inr sample_legacy_tx"
  "decode_transaction sample_resigned = Inr sample_resigned_tx"
  "decode_transaction sample_valid = Inr sample_valid_tx"
  "decode_transaction sample_auth = Inr sample_auth_tx"
  by (simp_all add: run_decode sample_legacy_def sample_legacy_tx_def sample_resigned_def sample_resigned_tx_def
    sample_valid_def sample_valid_tx_def sample_auth_def sample_auth_tx_def)

lemmas sample_tx_defs = sample_legacy_tx_def sample_resigned_tx_def sample_valid_tx_def sample_auth_tx_def empty_tx_def

lemma zeros_20: "zeros 20 = [0, 0, 0, 0, 0, 0, 0, 0, 0, 0, 0, 0, 0, 0, 0, 0, 0, 0, 0, 0]"
  by (simp add: zeros_def numeral_eq_Suc)

lemma decoded_ok: "decode_transaction rw = Inr tx \<Longrightarrow> tx_wf tx" "decode_transaction rw = Inr tx \<Longrightarrow> tx_ok tx"
  "decode_transaction rw = Inr tx \<Longrightarrow> raw tx = rw"
  using decode_transaction_wf tx.decode_ok by blast+

text \<open>C1: The transaction decoder accepts exactly the encodings of well-formed transactions and returns the
  transaction: what it accepts re-encodes to the same bytes, what the encoder writes decodes to what was written,
  and so no transaction has two accepted byte strings.\<close>

theorem transaction_codec:
  "decode_transaction rw = Inr tx \<longleftrightarrow> tx_ok tx \<and> encode_transaction tx = Inr rw"
  by (rule tx.decode_iff)

text \<open>C2: What is signed determines the transaction: if two accepted transactions have the same signing image, they
  have the same type and the same unsigned fields, both or neither are replay-protected, and a protected one was
  signed for the same chain.  No image of one transaction type is an image of another.\<close>

theorem signing_image_injective:
  assumes "decode_transaction a = Inr t" and "decode_transaction b = Inr u" and "c < 2 ^ 256" and "d < 2 ^ 256"
    and "signing_preimage t c = Inr p" and "signing_preimage u d = Inr p"
  shows "unsigned t = unsigned u \<and> legacy_protected t = legacy_protected u \<and> (legacy_protected t \<longrightarrow> c = d)"
  using assms by (intro signing_preimage_inj) (auto intro: decoded_ok)

lemma sample_signing_image:
  "signing_preimage sample_legacy_tx 0 = Inr [0xC6, 1, 2, 3, 0x80, 4, 5]"
  "signing_preimage sample_resigned_tx 0 = Inr [0xC6, 1, 2, 3, 0x80, 4, 5]"
  by (simp_all add: signing_preimage_def unsigned_fields_def sample_tx_defs unsigned_items_def to_item_def
    tx_enc_bytes_def scalar_eq be_def be_loop.simps enc_bytes_def header_def enc_len_header enc_list_def byte1_def)

theorem signing_image_injective_witness:
  "\<exists>t u. decode_transaction sample_legacy = Inr t \<and> decode_transaction sample_resigned = Inr u \<and> t \<noteq> u \<and>
    unsigned t = unsigned u"
proof -
  have "unsigned sample_legacy_tx = unsigned sample_resigned_tx"
    using signing_image_injective [OF samples_decoded(1,2) _ _ sample_signing_image] by simp
  moreover have "sample_legacy_tx \<noteq> sample_resigned_tx" by (simp add: sample_tx_defs)
  ultimately show ?thesis using samples_decoded by blast
qed

text \<open>For an accepted transaction with a chain id, the recovery parameters are returned exactly when \<open>r\<close>, \<open>s\<close> and
  the parity are in range; a legacy \<open>v\<close> that \<open>chain_id_of\<close> accepted is never rejected afterwards.  \<open>2 ^ 63\<close> bytes is
  far beyond what a process can hold and keeps the list headers in their eight length bytes.\<close>

theorem recovery_accepts_iff:
  assumes "decode_transaction rw = Inr tx" and "length rw < 2 ^ 63" and "chain_id_of tx = Inr (some, cid)"
  shows "(\<exists>recid h. signature_recovery_parameters tx cid = Inr (recid, h)) \<longleftrightarrow> signature_in_range tx"
  using assms decoded_ok [OF assms(1)] by (intro recovery_parameters_cases) simp_all

lemma sample_chain_id: "chain_id_of sample_legacy_tx = Inr (0, 0)"
  by (simp add: chain_id_of_def sample_tx_defs)

lemma sample_signature: "signature_in_range sample_legacy_tx"
  by (simp add: signature_in_range_def sample_tx_defs SECP256K1N_def)

lemma sample_short: "length sample_legacy < 2 ^ 63"
  by (simp add: sample_legacy_def)

theorem recovery_accepts_iff_witness:
  "\<exists>recid h. signature_recovery_parameters sample_legacy_tx 0 = Inr (recid, h)"
  using recovery_accepts_iff [OF samples_decoded(1) sample_short sample_chain_id] sample_signature by blast



text \<open>C10: The intrinsic cost of an accepted transaction is the price list's: 4 or 16 per data byte, 2 per word of init
  code, 4180 per access entry and 4048 per storage key, 7816 per authorization, on top of the base and the recipient's
  price; the floor charges 64 per byte.\<close>

theorem intrinsic_cost_is_price:
  assumes "decode_transaction rw = Inr tx"
  shows "calculate_intrinsic_cost tx sender = Inr (regular_price tx sender, 0, floor_price tx sender)"
  by (rule intrinsic_cost_price [OF decoded_ok(1) [OF assms]])

lemma sample_prices:
  "regular_price sample_valid_tx (zeros 20) = 21016" "floor_price sample_valid_tx (zeros 20) = 21064"
  by (simp_all add: regular_price_def floor_price_def recipient_price_def entries_def byte_price_def
    sample_tx_defs zeros_20)

theorem intrinsic_cost_is_price_witness:
  "calculate_intrinsic_cost sample_valid_tx (zeros 20) = Inr (21016, 0, 21064)"
  using intrinsic_cost_is_price [OF samples_decoded(3), of "zeros 20"] by (simp add: sample_prices)

text \<open>A transaction is valid exactly when it meets all limits: the gas limit is a 32-bit value that covers both
  prices, both prices are at most \<open>2 ^ 24\<close>, init code is at most 131072 bytes and the nonce is not the last.\<close>

theorem validate_transaction_zero_iff:
  assumes "decode_transaction rw = Inr tx"
  shows "validate_transaction tx sender = Inr 0 \<longleftrightarrow>
    gas tx < 2 ^ 32 \<and> regular_price tx sender \<le> min (gas tx) (2 ^ 24) \<and> floor_price tx sender \<le> min (gas tx) (2 ^ 24) \<and>
    (tx_to tx = None \<longrightarrow> length (tx_data tx) \<le> 131072) \<and> nonce tx < 2 ^ 64 - 1"
  by (simp add: validate_transaction_price [OF decoded_ok(1) [OF assms]] not_less not_le) auto

theorem validate_transaction_zero_iff_witness:
  "validate_transaction sample_valid_tx (zeros 20) = Inr 0"
  using validate_transaction_zero_iff [OF samples_decoded(3), of "zeros 20"] sample_prices
  by (simp add: sample_tx_defs)

text \<open>The limits bound the size of a valid transaction: its data and its access list are short.\<close>

theorem valid_transaction_small:
  assumes "decode_transaction rw = Inr tx" and "validate_transaction tx sender = Inr 0"
  shows "length (tx_data tx) \<le> 261956 \<and> length (entries tx) \<le> 13097"
proof -
  have "1280 * length al \<le> (\<Sum>a\<leftarrow>al. 1280 + 2048 * length (snd a))" for al :: "access list"
    by (induction al) auto
  from this [of "entries tx"]
  have "1280 * length (entries tx) \<le> (\<Sum>a\<leftarrow>entries tx. 1280 + 2048 * length (snd a))" .
  moreover have "floor_price tx sender \<le> 2 ^ 24"
    using assms(2) by (simp add: validate_transaction_price [OF decoded_ok(1) [OF assms(1)]] split: if_splits)
  ultimately show ?thesis by (simp add: floor_price_def)
qed

theorem valid_transaction_small_witness:
  "length (tx_data sample_valid_tx) \<le> 261956 \<and> length (entries sample_valid_tx) \<le> 13097"
proof -
  have "validate_transaction sample_valid_tx (zeros 20) = Inr 0"
    using validate_transaction_price [OF decoded_ok(1) [OF samples_decoded(3)], of "zeros 20"] sample_prices
    by (simp add: sample_tx_defs)
  from valid_transaction_small [OF samples_decoded(3) this] show ?thesis .
qed

text \<open>The oracle returns a 152-byte record for every byte string, never an exception: a rejected transaction is
  marked by an all-ones first word, an accepted one has its type there and a set re-encoding flag.\<close>

theorem tx_record_total:
  assumes "length rw < 2 ^ 63"
  shows "\<exists>r. tx_record rw = Inr r \<and> length r = 152 \<and>
    (bslice r 0 8 = W (-1) \<longleftrightarrow> (\<exists>e. decode_transaction rw = Inl e)) \<and>
    (\<forall>tx. decode_transaction rw = Inr tx \<longrightarrow> bslice r 0 8 = W (int (ttype tx)) \<and> bslice r 120 128 = W 1)"
proof (cases "decode_transaction rw")
  case (Inl e)
  with tx_record_rejected [OF Inl] tx_record_word0 [OF _ assms] show ?thesis by auto
next
  case (Inr tx)
  with tx_record_accepted [OF Inr assms] tx_record_word0 [OF _ assms] show ?thesis by auto
qed

theorem tx_record_total_witness:
  "\<exists>r. tx_record [] = Inr r \<and> length r = 152 \<and> bslice r 0 8 = W (-1)"
  using tx_record_total [of "[]"] by (auto simp: decode_transaction_def)

end
