(* ===== verification/Recover.thy ===== *)
theory Recover
  imports Secp SszCases TxRules
begin

text \<open>
  Sender recovery and input layouts of \<open>tools/compare-clients.py\<close>, with the sender oracle
  \<open>guest/test/exp_recover.py\<close>: a second implementation of secp256k1 (\<open>pow(x, -1, p)\<close> instead of
  Fermat's inverse, a loop without fuel), the public key and the address that it recovers, the
  conversions between the three layouts of the stateless input, and the addresses of the
  transactions of an input.  \<open>frame\<close>, \<open>unframe\<close> and the list reader are in theory \<open>Ssz\<close>.
\<close>

section \<open>Points and recovery\<close>

fun add_py :: "curve \<Rightarrow> point \<Rightarrow> point \<Rightarrow> point res" where
  \<comment> \<open>\<open>_add\<close>\<close>
  "add_py c None b = Inr b"
| "add_py c a None = Inr a"
| "add_py c (Some a) (Some b) =
     (if fst a = fst b \<and> (snd a + snd b) mod modP c = 0 then Inr None
      else ebind (if a = b
                  then ebind (invmod (2 * snd a) (modP c)) (\<lambda>i. Inr (3 * fst a * fst a * i mod modP c))
                  else ebind (invmod (fst b - fst a) (modP c)) (\<lambda>i. Inr ((snd b - snd a) * i mod modP c)))
             (\<lambda>m. let x = (m * m - fst a - fst b) mod modP c in
                  Inr (Some (x, (m * (fst a - x) - snd a) mod modP c))))"

definition mul_py :: "curve \<Rightarrow> nat \<Rightarrow> point \<Rightarrow> point res" where
  \<comment> \<open>\<open>_mul\<close>; \<open>mul_loop\<close> of theory \<open>Curve\<close> is its loop\<close>
  "mul_py c k pt = mul_loop (add_py c) k None pt"

text \<open>The steps that \<open>recover_pubkey\<close> and \<open>recover_address\<close> share, up to the point \<open>q\<close>.\<close>

definition recover_point :: "curve \<Rightarrow> bytes \<Rightarrow> int \<Rightarrow> int \<Rightarrow> nat \<Rightarrow> point res" where
  "recover_point c h r s recid =
     (let y2 = (powmod r 3 (modP c) + coefB c) mod modP c;
          y0 = powmod y2 (nat ((modP c + 1) div 4)) (modP c) in
      if y0 * y0 mod modP c \<noteq> y2 then Inr None
      else let y = (if odd y0 \<noteq> odd recid then modP c - y0 else y0); z = int (from_be h) in
        ebind (invmod r (ordN c)) (\<lambda>rinv.
        ebind (mul_py c (nat (s * rinv mod ordN c)) (Some (r, y))) (\<lambda>a.
        ebind (mul_py c (nat ((- z * rinv) mod ordN c)) (Some (gen c))) (\<lambda>b.
          add_py c a b))))"

definition recover_pubkey :: "curve \<Rightarrow> bytes \<Rightarrow> int \<Rightarrow> int \<Rightarrow> nat \<Rightarrow> bytes option res" where
  "recover_pubkey c h r s recid =
     ebind (recover_point c h r s recid) (\<lambda>q. case q of None \<Rightarrow> Inr None
     | Some q \<Rightarrow> ebind (int_to_be 32 (fst q)) (\<lambda>x. ebind (int_to_be 32 (snd q)) (\<lambda>y. Inr (Some ([4] @ x @ y)))))"

definition recover_address :: "curve \<Rightarrow> bytes \<Rightarrow> int \<Rightarrow> int \<Rightarrow> nat \<Rightarrow> bytes option res" where
  "recover_address c h r s recid =
     ebind (recover_point c h r s recid) (\<lambda>q. case q of None \<Rightarrow> Inr None
     | Some q \<Rightarrow> ebind (int_to_be 32 (fst q)) (\<lambda>x. ebind (int_to_be 32 (snd q)) (\<lambda>y.
         ebind (keccak256 (x @ y)) (\<lambda>d. Inr (Some (drop 12 d))))))"

section \<open>Layouts\<close>

definition transactions :: "bytes \<Rightarrow> bytes list res" where
  \<comment> \<open>\<open>_transactions\<close>\<close>
  "transactions npr =
     ebind (le32_at npr 0) (\<lambda>o_pl. ebind (le32_at npr 4) (\<lambda>o_vh.
     let pl = bslice npr o_pl o_vh in
     ebind (le32_at pl 504) (\<lambda>o_tx. ebind (le32_at pl 508) (\<lambda>o_wd. read_var_list (bslice pl o_tx o_wd)))))"

definition v06_to_v21 :: "bytes \<Rightarrow> bytes res" where
  "v06_to_v21 blob =
     (let body = drop 2 blob in
      ebind (emap (\<lambda>i. le32_at body (4 * i)) [0..<4]) (\<lambda>o4.
      ebind (le64_at body (o4 ! 2)) (\<lambda>chain_id.
      let npr = bslice body (o4 ! 0) (o4 ! 1); wit = bslice body (o4 ! 1) (o4 ! 2) in
      ebind (pack_u32 16) (\<lambda>a. ebind (pack_u32 (16 + length npr)) (\<lambda>b. ebind (pack_u64 chain_id) (\<lambda>c.
        Inr (take 2 blob @ (a @ b @ c) @ npr @ wit)))))))"

definition v06_to_v084 :: "bytes \<Rightarrow> bytes res" where
  "v06_to_v084 blob =
     (let body = drop 2 blob in
      ebind (emap (\<lambda>i. le32_at body (4 * i)) [0..<4]) (\<lambda>o4.
      ebind (le64_at body (o4 ! 2)) (\<lambda>chain_id.
      let npr = bslice body (o4 ! 0) (o4 ! 1); wit = bslice body (o4 ! 1) (o4 ! 2); keys = drop (o4 ! 3) body;
          a = 20; b = a + length npr; c = b + length wit in
      ebind (pack_u32 a) (\<lambda>a. ebind (pack_u32 b) (\<lambda>b. ebind (pack_u64 chain_id) (\<lambda>d. ebind (pack_u32 c) (\<lambda>c.
        Inr (take 2 blob @ (a @ b @ d @ c) @ npr @ wit @ keys))))))))"

text \<open>The \<open>try\<close> blocks: a \<open>TxErr\<close> leaves no key, other exceptions pass.\<close>

definition guarded :: "bytes option res \<Rightarrow> bytes option res" where
  "guarded m = (case m of Inl (TxErr _) \<Rightarrow> Inr None | _ \<Rightarrow> m)"

definition tx_key :: "curve \<Rightarrow> nat \<Rightarrow> bytes \<Rightarrow> bytes option res" where
  "tx_key c chain rw = guarded (
     ebind (decode_transaction rw) (\<lambda>t.
     ebind (signature_recovery_parameters t chain) (\<lambda>(recid, h).
       recover_pubkey c h (int (tx_r t)) (int (tx_s t)) recid)))"

definition tx_sender :: "curve \<Rightarrow> nat \<Rightarrow> bytes \<Rightarrow> bytes option res" where
  "tx_sender c chain rw = guarded (
     ebind (decode_transaction rw) (\<lambda>t.
     ebind (signature_recovery_parameters t chain) (\<lambda>(recid, h).
       recover_address c h (int (tx_r t)) (int (tx_s t)) recid)))"

definition v21_to_v084 :: "curve \<Rightarrow> bytes \<Rightarrow> bytes res" where
  "v21_to_v084 cv blob =
     (let body = drop 2 blob in
      ebind (le32_at body 0) (\<lambda>o_npr. ebind (le32_at body 4) (\<lambda>o_wit.
      ebind (le64_at body 8) (\<lambda>chain_id.
      let npr = bslice body o_npr o_wit; wit = drop o_wit body in
      ebind (transactions npr) (\<lambda>raws.
      ebind (emap (tx_key cv chain_id) raws) (\<lambda>ks.
      let keys = concat (map (\<lambda>k. case k of None \<Rightarrow> zeros 65 | Some b \<Rightarrow> b) ks);
          a = 20; b = a + length npr; c = b + length wit in
      ebind (pack_u32 a) (\<lambda>a. ebind (pack_u32 b) (\<lambda>b. ebind (pack_u64 chain_id) (\<lambda>d. ebind (pack_u32 c) (\<lambda>c.
        Inr (take 2 blob @ (a @ b @ d @ c) @ npr @ wit @ keys)))))))))))"

definition expected_senders :: "curve \<Rightarrow> bytes \<Rightarrow> bytes res" where
  \<comment> \<open>\<open>expected\<close> of \<open>exp_recover.py\<close>\<close>
  "expected_senders cv blob =
     (let chain_id = from_le (bslice (drop 2 blob) 8 16) in
      ebind (fixture_txs blob) (\<lambda>raws.
      ebind (emap (tx_sender cv chain_id) raws) (\<lambda>as.
        Inr (concat (map (\<lambda>a. case a of None \<Rightarrow> zeros 20 | Some b \<Rightarrow> b) as)))))"

section \<open>The implementations agree\<close>

lemma add_py_point_add:
  assumes p: "prime_mod (modP c)" and v: "valid c P" "valid c Q"
  shows "add_py c P Q = Inr (Secp.point_add c P Q)"
proof (cases "P = None \<or> Q = None")
  case True
  then show ?thesis by (cases P) auto
next
  case False
  then obtain x1 y1 x2 y2 where P: "P = Some (x1, y1)" and Q: "Q = Some (x2, y2)" by auto
  show ?thesis
  proof (cases "x1 = x2")
    case x: True
    show ?thesis
    proof (cases "(y1 + y2) mod modP c = 0")
      case False
      then have y: "y1 = y2" using same_abscissa [OF p, of x1 y1 y2] v x by (auto simp: P Q)
      have "\<not> modP c dvd 2 * y1" using doubled_neq [OF p, of y1] False y by simp
      from invmod_powmod [OF p this] show ?thesis
        using False x y by (simp add: P Q Secp.curve_dbl_def Let_def)
    qed (use x in \<open>simp add: P Q\<close>)
  next
    case x: False
    have "\<not> modP c dvd x2 - x1" by (rule abscissa_neq [of c x1 y1 x2 y2]) (use v x in \<open>simp_all add: P Q\<close>)
    from invmod_powmod [OF p this] show ?thesis using x by (simp add: P Q Secp.curve_add_def Let_def)
  qed
qed

interpretation clients: adder add_py "\<lambda>c. prime_mod (modP c) \<and> coefA c = 0"
  by unfold_locales (auto simp: add_py_point_add intro: Secp.point_add_sum)

lemma mul_py_scalar_mul:
  assumes "prime_mod (modP c)" "coefA c = 0" "valid c pt" "k < 2 ^ 256"
  shows "mul_py c k pt = Inr (Secp.scalar_mul c k pt)"
proof -
  obtain R where R: "mul_loop (add_py c) k None pt = Inr R" "mul_sum c k None pt R"
    using clients.mul_loop_sum [of c None pt k] assms by auto
  have "R = Secp.scalar_mul c k pt"
    using mul_sum_unique [OF assms(1) R(2) Secp.scalar_mul_sum(1) [OF assms]] assms(3) by simp
  with R(1) show ?thesis by (simp add: mul_py_def)
qed

lemma mod_minus_mult: "(- z * i) mod n = ((n - z mod n) mod n * i) mod n" for n :: int
proof -
  have "((n - z mod n) mod n * i) mod n = ((n - z mod n) * i) mod n" by (rule mod_mult_left_eq)
  also have "\<dots> = (- z * i) mod n" unfolding mod_eq_iff_dvd
  proof -
    have "(n - z mod n) * i - - z * i = (n + (z - z mod n)) * i" by (simp add: algebra_simps)
    then show "n dvd (n - z mod n) * i - - z * i" using dvd_add [OF dvd_refl dvd_minus_mod [of n z]] by simp
  qed
  finally show ?thesis by simp
qed

lemma nat_mod_small:
  fixes n :: int assumes "0 < n" "n \<le> 2 ^ 256" shows "nat (x mod n) < 2 ^ 256"
proof -
  have "x mod n < 2 ^ 256" using pos_mod_bound [OF assms(1), of x] assms(2) by linarith
  then show ?thesis by (simp add: nat_less_iff pos_mod_sign [OF assms(1)])
qed

text \<open>No point of order two: the only case where the unreduced \<open>P - y\<close> of this file is not the code's
  \<open>(P - y0) % P\<close> of the vector generator.\<close>

definition no_order_two :: "curve \<Rightarrow> bool" where
  "no_order_two c \<longleftrightarrow> (\<forall>x \<in> {0..<modP c}. \<not> on_curve c x 0)"

lemma recover_point_agrees:
  assumes c: "curve_ok c" and two: "no_order_two c" and n: "ordN c \<le> modP c"
    and r: "0 < r" "r < ordN c" and s: "0 < s" "s < ordN c" and id: "recid \<in> {0, 1}"
  shows "recover_point c h r s recid =
    Inr (case Secp.recover c (int (from_be h)) r s recid of Inl _ \<Rightarrow> None | Inr q \<Rightarrow> Some q)"
proof -
  have c': "prime_mod (modP c)" "modP c mod 4 = 3" "coefA c = 0" "prime_mod (ordN c)" "ordN c \<le> 2 ^ 256" "valid c (Some (gen c))"
    using c by (simp_all add: curve_ok_def)
  have p1: "1 < modP c" using prime_mod_gt [OF c'(1)] .
  have x: "recid_x c r recid = r" using id by (auto simp: recid_x_def)
  have nr: "\<not> ordN c dvd r" using r by (simp add: zdvd_not_zless)
  define rhs where "rhs = (r * r mod modP c * r + coefB c) mod modP c"
  define y0 where "y0 = sqrt_cand c rhs"
  have y0: "0 \<le> y0" "y0 < modP c" using p1 by (simp_all add: y0_def sqrt_cand_def powmod_def)
  have y2: "(powmod r 3 (modP c) + coefB c) mod modP c = rhs"
  proof -
    have "r * r mod modP c * r mod modP c = r ^ 3 mod modP c" by (simp add: mod_mult_left_eq power3_eq_cube)
    then show ?thesis unfolding rhs_def powmod_def by (intro mod_add_cong) simp_all
  qed
  have dec: "decompress_r c r recid = (if y0 * y0 mod modP c \<noteq> rhs then Inl ''xNotSquare''
      else Inr (r, if y0 mod 2 = int (recid mod 2) then y0 else (modP c - y0) mod modP c))"
    unfolding decompress_r_def Let_def recid_x_def [symmetric] x rhs_def [symmetric] y0_def [symmetric]
    using r n by simp
  show ?thesis
  proof (cases "y0 * y0 mod modP c = rhs")
    case False
    then show ?thesis using r s dec y2 unfolding recover_point_def Let_def y2
      by (simp add: y0_def sqrt_cand_def Secp.recover_def)
  next
    case True
    have "y0 \<noteq> 0"
    proof
      assume "y0 = 0"
      then have "rhs = 0" using True by simp
      moreover have "rhs = (r * r * r + coefB c) mod modP c" unfolding rhs_def by (intro mod_add_cong mod_mult_cong) simp_all
      ultimately have "on_curve c r 0" by (simp add: on_curve_def c'(3))
      with two r n show False by (simp add: no_order_two_def)
    qed
    then have "(modP c - y0) mod modP c = modP c - y0" using y0 by (intro mod_pos_pos_trivial) simp_all
    define y where "y = (if odd y0 \<noteq> odd recid then modP c - y0 else y0)"
    have par: "(y0 mod 2 = int (recid mod 2)) = (odd y0 = odd recid)" using id by (auto simp: odd_iff_mod_2_eq_one)
    have decy: "decompress_r c r recid = Inr (r, y)"
      using dec True par \<open>(modP c - y0) mod modP c = modP c - y0\<close> by (auto simp: y_def)
    have vR: "valid c (Some (r, y))"
      using decompress_r_Inr [OF c'(1-3), of r recid r y] decy r by simp
    define i where "i = powmod r (nat (ordN c - 2)) (ordN c)"
    have inv: "invmod r (ordN c) = Inr i" using invmod_powmod [OF c'(4) nr] by (simp add: i_def)
    define u1 where "u1 = (ordN c - int (from_be h) mod ordN c) mod ordN c * i mod ordN c"
    define u2 where "u2 = s mod ordN c * i mod ordN c"
    have u: "(- int (from_be h) * i) mod ordN c = u1" "s * i mod ordN c = u2"
      using mod_minus_mult [of "int (from_be h)" i "ordN c"] by (simp_all add: u1_def u2_def mod_mult_left_eq)
    have small: "nat u1 < 2 ^ 256" "nat u2 < 2 ^ 256"
      unfolding u1_def u2_def by (rule nat_mod_small [OF _ c'(5)], use prime_mod_gt [OF c'(4)] in simp)+
    define A where "A = Secp.scalar_mul c (nat u1) (Some (gen c))"
    define B where "B = Secp.scalar_mul c (nat u2) (Some (r, y))"
    have m: "mul_py c (nat u1) (Some (gen c)) = Inr A" "mul_py c (nat u2) (Some (r, y)) = Inr B"
      using mul_py_scalar_mul [OF c'(1,3,6) small(1)] mul_py_scalar_mul [OF c'(1,3) vR small(2)] by (simp_all add: A_def B_def)
    have vAB: "valid c A" "valid c B"
      using Secp.scalar_mul_sum(2) [OF c'(1,3,6) small(1)] Secp.scalar_mul_sum(2) [OF c'(1,3) vR small(2)] by (simp_all add: A_def B_def)
    have sum: "add_py c B A = Inr (Secp.point_add c A B)"
      using clients.add_commute [of c A B] add_py_point_add [OF c'(1) vAB] vAB c'(1,3) by simp
    have "recover_point c h r s recid = Inr (Secp.point_add c A B)"
      unfolding recover_point_def Let_def y2 y0_def [symmetric, unfolded sqrt_cand_def] y_def [symmetric] inv ebind_simps u m sum
      using True by simp
    moreover have "Secp.recover c (int (from_be h)) r s recid =
        (case Secp.point_add c A B of None \<Rightarrow> Inl ''atInfinity'' | Some q \<Rightarrow> Inr q)"
      using r s decy by (simp add: Secp.recover_def Let_def A_def B_def u1_def u2_def i_def)
    ultimately show ?thesis by (simp split: option.split)
  qed
qed

section \<open>Layout conversions\<close>

lemma upt4: "[0..<4] = [0, 1, 2, 3]"
  by (simp add: upt_rec)

text \<open>What the offsets of the four-part layout select.\<close>

lemma v06_parts:
  assumes "container [None, None, None, None] [n, w, cc, pk] = Inr body"
  shows "emap (\<lambda>i. le32_at body (4 * i)) [0..<4] =
      Inr [16, 16 + length n, 16 + length n + length w, 16 + length n + length w + length cc]"
    "bslice body 16 (16 + length n) = n" "bslice body (16 + length n) (16 + length n + length w) = w"
    "drop (16 + length n + length w) body = cc @ pk" "drop (16 + length n + length w + length cc) body = pk"
    "16 + length n + length w + length cc < 2 ^ 32"
proof -
  let ?ps = "[None, None, None, None] :: bytes option list"
  show "emap (\<lambda>i. le32_at body (4 * i)) [0..<4] =
      Inr [16, 16 + length n, 16 + length n + length w, 16 + length n + length w + length cc]"
    using container_offset [of "[]" "[None, None, None]", simplified, OF assms]
      container_offset [of "[None]" "[None, None]", simplified, OF assms]
      container_offset [of "[None, None]" "[None]", simplified, OF assms]
      container_offset [of "[None, None, None]" "[]", simplified, OF assms]
    by (simp add: upt4 part_off_def numeral_2_eq_2 numeral_3_eq_3)
  show "bslice body 16 (16 + length n) = n" "bslice body (16 + length n) (16 + length n + length w) = w"
    using container_part [OF assms, of 0] container_part [OF assms, of 1] by (simp_all add: part_off_def numeral_2_eq_2 add.assoc)
  show "drop (16 + length n + length w) body = cc @ pk" "drop (16 + length n + length w + length cc) body = pk"
    using container_rest [OF assms, of 2] container_rest [OF assms, of 3]
    by (simp_all add: part_off_def numeral_2_eq_2 numeral_3_eq_3 add.assoc)
  show "16 + length n + length w + length cc < 2 ^ 32"
    using container_Inr(3) [OF assms, of "[None, None, None]" "[]"] by (simp add: numeral_3_eq_3 add.assoc)
qed

lemma le64_at_part: "drop k b = xs @ ys \<Longrightarrow> le64_at xs 0 = Inr v \<Longrightarrow> le64_at b k = Inr v"
proof -
  assume d: "drop k b = xs @ ys" and x: "le64_at xs 0 = Inr v"
  from x have l: "8 \<le> length xs" and v: "v = from_le (take 8 xs)" by (auto simp: le64_at_def bslice_def split: if_splits)
  have "bslice b k (k + 8) = take 8 xs" using l by (simp add: bslice_def d)
  moreover have "k + 8 \<le> length b" using arg_cong [OF d, of length] l by simp
  ultimately show ?thesis using v by (simp add: le64_at_def)
qed

lemma le64_at_less: "le64_at b k = Inr v \<Longrightarrow> v < 2 ^ 64"
  using from_le_less [of "bslice b k (k + 8)"] by (auto simp: le64_at_def split: if_splits)

text \<open>The layout conversions: an input of the old four-part layout (request, witness, chain configuration, keys) whose
  configuration starts with the chain id becomes, with the same schema bytes, the container of request,
  witness and that chain id (\<open>v06_to_v21\<close>), and the container of request, witness, chain id and keys (\<open>v06_to_v084\<close>).\<close>

theorem v06_conversions:
  assumes "container [None, None, None, None] [n, w, cc, pk] = Inr body" "length schema = 2" "le64_at cc 0 = Inr cid"
    "20 + length n + length w < 2 ^ 32"
  shows "\<exists>b21 b084. container [None, None, Some (le_fix 8 cid)] [n, w] = Inr b21 \<and>
    container [None, None, Some (le_fix 8 cid), None] [n, w, pk] = Inr b084 \<and>
    v06_to_v21 (schema @ body) = Inr (schema @ b21) \<and> v06_to_v084 (schema @ body) = Inr (schema @ b084)"
proof -
  note V = v06_parts [OF assms(1)]
  have cid: "le64_at body (16 + length n + length w) = Inr cid" by (rule le64_at_part [OF V(4) assms(3)])
  have c64: "cid < 2 ^ 64" by (rule le64_at_less [OF assms(3)])
  have p: "pack_u32 16 = Inr (le_fix 4 16)" "pack_u32 20 = Inr (le_fix 4 20)" "pack_u32 (16 + length n) = Inr (le_fix 4 (16 + length n))"
    "pack_u32 (20 + length n) = Inr (le_fix 4 (20 + length n))" "pack_u64 cid = Inr (le_fix 8 cid)"
    "pack_u32 (20 + length n + length w) = Inr (le_fix 4 (20 + length n + length w))"
    using assms(4) V(6) c64 by (simp_all add: pack_u32_def pack_u64_def)
  have c21: "container [None, None, Some (le_fix 8 cid)] [n, w] = Inr ((le_fix 4 16 @ le_fix 4 (16 + length n) @ le_fix 8 cid) @ n @ w)"
    using p by (simp add: container_def u32_def index_at_def)
  have c084: "container [None, None, Some (le_fix 8 cid), None] [n, w, pk] =
      Inr ((le_fix 4 20 @ le_fix 4 (20 + length n) @ le_fix 8 cid @ le_fix 4 (20 + length n + length w)) @ n @ w @ pk)"
    using p by (simp add: container_def u32_def index_at_def)
  have d: "drop 2 (schema @ body) = body" "take 2 (schema @ body) = schema" using assms(2) by simp_all
  have "v06_to_v21 (schema @ body) = Inr (schema @ (le_fix 4 16 @ le_fix 4 (16 + length n) @ le_fix 8 cid) @ n @ w)"
    unfolding v06_to_v21_def d Let_def V(1) ebind_simps using V(2,3) p(1,3,5) cid by (simp add: numeral_2_eq_2)
  moreover have "v06_to_v084 (schema @ body) =
      Inr (schema @ (le_fix 4 20 @ le_fix 4 (20 + length n) @ le_fix 8 cid @ le_fix 4 (20 + length n + length w)) @ n @ w @ pk)"
    unfolding v06_to_v084_def d Let_def V(1) ebind_simps using V(2,3,5) p cid by (simp add: numeral_2_eq_2 numeral_3_eq_3)
  ultimately show ?thesis using c21 c084 by blast
qed

theorem v06_conversions_witness:
  "\<exists>b21 b084. container [None, None, Some (le_fix 8 5)] [[1], [2]] = Inr b21 \<and>
    container [None, None, Some (le_fix 8 5), None] [[1], [2], [3]] = Inr b084 \<and>
    v06_to_v21 ([21, 1] @ le_fix 4 16 @ le_fix 4 17 @ le_fix 4 18 @ le_fix 4 26 @ [1, 2] @ le_fix 8 5 @ [3]) = Inr ([21, 1] @ b21) \<and>
    v06_to_v084 ([21, 1] @ le_fix 4 16 @ le_fix 4 17 @ le_fix 4 18 @ le_fix 4 26 @ [1, 2] @ le_fix 8 5 @ [3]) = Inr ([21, 1] @ b084)"
proof (rule v06_conversions)
  show "container [None, None, None, None] [[1], [2], le_fix 8 5, [3]] =
      Inr (le_fix 4 16 @ le_fix 4 17 @ le_fix 4 18 @ le_fix 4 26 @ [1, 2] @ le_fix 8 5 @ [3])"
    by (simp add: container_def u32_def index_at_def pack_u32_def)
  show "le64_at (le_fix 8 5) 0 = Inr 5" using le64_at_middle [of 0 "[]" 5 "[]"] by simp
qed simp_all

text \<open>C18: Three implementations agree: for a signature in range with recovery id 0 or 1 the public key of
  \<open>compare-clients.py\<close> is the encoding of the point that \<open>gen_secp_vectors.py\<close> recovers, and the
  address of \<open>exp_recover.py\<close> is its \<open>ecrecover_address\<close>; both return no result where that reports
  an error, and neither raises.  (The curve is over a prime that is 3 modulo 4, of prime order below it,
  without a point of order two.)\<close>

theorem recoveries_agree:
  assumes "curve_ok c" "no_order_two c" "ordN c \<le> modP c" "modP c \<le> 2 ^ 256" "0 < r" "r < ordN c" "0 < s" "s < ordN c" "recid \<in> {0, 1}"
  shows "recover_pubkey c h r s recid = (case Secp.recover c (int (from_be h)) r s recid of Inl _ \<Rightarrow> Inr None
      | Inr q \<Rightarrow> Inr (Some ([4] @ be_fix 32 (nat (fst q)) @ be_fix 32 (nat (snd q))))) \<and>
    recover_address c h r s recid = ecrecover_address c (int (from_be h)) (27 + recid) r s"
proof -
  note P = recover_point_agrees [OF assms(1-3,5-9), of h]
  have ok: "params_ok c"
    using assms(1,4) prime_mod_gt [of "modP c"] by (auto simp: params_ok_def curve_ok_def reduced_pt_def split: prod.split)
  have v: "27 + recid = 27 \<or> 27 + recid = 28" using assms(9) by auto
  show ?thesis
  proof (cases "Secp.recover c (int (from_be h)) r s recid")
    case (Inl m)
    then show ?thesis using P v by (simp add: recover_pubkey_def recover_address_def ecrecover_address_def)
  next
    case (Inr q)
    have "reduced_pt c (Some q)" using recover_reduced [OF _ _ _ Inr] ok assms(5) by (simp add: params_ok_def)
    note b = coordinate_bytes [OF ok] point_reduced [OF this]
    have "int_to_be 32 (fst q) = Inr (be_fix 32 (nat (fst q)))" "int_to_be 32 (snd q) = Inr (be_fix 32 (nat (snd q)))" using b by blast+
    then show ?thesis using Inr P v
      by (simp add: recover_pubkey_def recover_address_def ecrecover_address_def address_of_point_def ebind_assoc)
  qed
qed

theorem recoveries_agree_witness:
  "recover_pubkey demo43 [5] 2 7 0 = (case Secp.recover demo43 (int (from_be [5])) 2 7 0 of Inl _ \<Rightarrow> Inr None
      | Inr q \<Rightarrow> Inr (Some ([4] @ be_fix 32 (nat (fst q)) @ be_fix 32 (nat (snd q))))) \<and>
    recover_address demo43 [5] 2 7 0 = ecrecover_address demo43 (int (from_be [5])) (27 + 0) 2 7"
proof (rule recoveries_agree [OF demo43_ok])
  have "list_all (\<lambda>x. (x * x * x + 7) mod 43 \<noteq> 0) [0..42 :: int]" by code_simp
  then have "\<forall>x \<in> {0..<43 :: int}. (x * x * x + 7) mod 43 \<noteq> 0" by (simp only: list_all_iff set_upto) auto
  then show "no_order_two demo43" by (simp add: no_order_two_def on_curve_def demo43_def)
qed (simp_all add: demo43_def)

section \<open>From inputs to senders\<close>

text \<open>The two recoveries differ only in what they make of the point: the address hashes the key without its
  first byte.  This needs no property of the curve.\<close>

definition key_address :: "bytes option \<Rightarrow> bytes option res" where
  "key_address k = (case k of None \<Rightarrow> Inr None | Some b \<Rightarrow> ebind (keccak256 (drop 1 b)) (\<lambda>d. Inr (Some (drop 12 d))))"

lemma recover_address_key: "recover_address c h r s recid = ebind (recover_pubkey c h r s recid) key_address"
proof (cases "recover_point c h r s recid")
  case (Inr q)
  then show ?thesis
    by (cases q) (simp_all add: recover_address_def recover_pubkey_def key_address_def ebind_assoc)
qed (simp add: recover_address_def recover_pubkey_def)

lemma key_address_total: "\<exists>a. key_address k = Inr a"
proof -
  have "\<exists>d. keccak256 (drop 1 (the k)) = Inr d" using keccak.hash_total by blast
  then show ?thesis by (cases k) (auto simp: key_address_def)
qed

lemma tx_sender_key: "tx_sender c chain rw = ebind (tx_key c chain rw) key_address"
proof -
  let ?m = "ebind (decode_transaction rw) (\<lambda>t. ebind (signature_recovery_parameters t chain) (\<lambda>(recid, h).
    recover_pubkey c h (int (tx_r t)) (int (tx_s t)) recid))"
  have "tx_sender c chain rw = guarded (ebind ?m key_address)"
    by (simp add: tx_sender_def recover_address_key ebind_assoc case_prod_unfold)
  also have "\<dots> = ebind (guarded ?m) key_address"
  proof (cases ?m)
    case (Inl e)
    then show ?thesis by (cases e) (simp_all add: guarded_def key_address_def)
  next
    case (Inr k)
    then show ?thesis using key_address_total [of k] by (auto simp: guarded_def)
  qed
  finally show ?thesis by (simp add: tx_key_def)
qed

lemma tx_key_length: "tx_key c chain rw = Inr (Some b) \<Longrightarrow> length b = 65"
  by (auto simp: tx_key_def guarded_def recover_pubkey_def dest!: int_to_be_length split: sum.splits exn.splits option.splits)

lemma transactions_request:
  assumes p: "Ssz.payload a = Inr p" and n: "container [None, None, Some (zeros 32), None] [p, [], r] = Inr n"
  shows "transactions n = Inr (txs a)"
proof -
  from payload_Inr [OF p] obtain q t where q: "length q = 7" "list_all (\<lambda>x. length x = 8) q"
    and t: "var_list (txs a) = Inr t" and pl: "container (payload_fixed q) [extra a, t, withdrawals a, bal a] = Inr p" .
  show ?thesis
    unfolding transactions_def npr_layout(1,2) [OF n] ebind_simps Let_def npr_layout(3) [OF n]
      payload_layout(1,2) [OF q pl] payload_layout(3) [OF q pl] by (rule read_var_list [OF t])
qed

definition key_bytes :: "bytes option \<Rightarrow> bytes" where
  "key_bytes k = (case k of None \<Rightarrow> zeros 65 | Some b \<Rightarrow> b)"

definition sender_bytes :: "bytes option \<Rightarrow> bytes" where
  "sender_bytes k = (case k of None \<Rightarrow> zeros 20 | Some b \<Rightarrow> drop 12 (projr (keccak256 (drop 1 b))))"

lemma key_address_bytes:
  "(case projr (key_address k) of None \<Rightarrow> zeros 20 | Some b \<Rightarrow> b) = sender_bytes k" "length (sender_bytes k) = 20"
proof -
  have "\<exists>d. keccak256 (drop 1 (the k)) = Inr d \<and> length d = 32" by (rule keccak.hash_total)
  then show "(case projr (key_address k) of None \<Rightarrow> zeros 20 | Some b \<Rightarrow> b) = sender_bytes k" "length (sender_bytes k) = 20"
    by (auto simp: key_address_def sender_bytes_def split: option.splits)
qed

text \<open>The transactions of an input give the same senders in both tools: on an encoded input (whose sizes leave room for
  the keys) where the key of each transaction is computed without an exception, \<open>v21_to_v084\<close> returns the container of
  the same request and witness, the chain id and the keys, 65 bytes per transaction in order and zeros where none is
  recovered; and \<open>expected\<close> of \<open>exp_recover.py\<close> is, 20 bytes per transaction, the hash of each of these keys, and
  zeros in the same places.\<close>

theorem keys_and_senders:
  assumes "pl_in_range a" "chain < 2 ^ 64" "84 + pl_size a + wit_size st co he + 65 * length (txs a) < 2 ^ 32"
    and K: "\<forall>rw \<in> set (txs a). tx_key cv chain rw = Inr (K rw)"
  shows "\<exists>p w n blob out. Ssz.payload a = Inr p \<and> witness st co he = Inr w \<and> new_payload_request p [] None = Inr n \<and>
    stateless_input (Some p) (Some w) chain = Inr blob \<and> v21_to_v084 cv blob = Inr ([21, 1] @ out) \<and>
    container [None, None, Some (le_fix 8 chain), None] [n, w, concat (map (key_bytes \<circ> K) (txs a))] = Inr out \<and>
    expected_senders cv blob = Inr (concat (map (sender_bytes \<circ> K) (txs a))) \<and>
    length (concat (map (key_bytes \<circ> K) (txs a))) = 65 * length (txs a) \<and>
    length (concat (map (sender_bytes \<circ> K) (txs a))) = 20 * length (txs a)"
proof -
  obtain p where p: "Ssz.payload a = Inr p" "length p = pl_size a"
    by (rule payload_ok [OF assms(1)]) (use assms(3) in simp_all)
  obtain w where w: "witness st co he = Inr w" "length w = wit_size st co he"
    by (rule witness_ok [of st co he]) (use assms(3) in \<open>simp_all add: wit_size_def\<close>)
  obtain n body where b: "stateless_input (Some p) (Some w) chain = Inr ([21, 1] @ body)"
    "new_payload_request p [] None = Inr n" "container [None, None, Some (le_fix 8 chain)] [n, w] = Inr body"
    "container [None, None, Some (zeros 32), None] [p, [], concat (replicate 5 (le_fix 4 20))] = Inr n" "length n = 64 + length p"
    by (rule stateless_input_ok [of chain p w]) (use assms(2,3) p(2) w(2) in simp_all)
  have l8: "length (le_fix 8 chain) = 8" by simp
  note L = input_layout [OF b(3) l8]
  have cid: "le64_at body 8 = Inr chain" using L(5,6) assms(2) by (simp add: le64_at_def)
  have em: "emap (tx_key cv chain) (txs a) = Inr (map K (txs a))" by (rule emap_Inr) (use K in blast)
  have keys: "concat (map (\<lambda>k. case k of None \<Rightarrow> zeros 65 | Some b \<Rightarrow> b) (map K (txs a))) = concat (map (key_bytes \<circ> K) (txs a))"
    by (simp add: key_bytes_def [abs_def] o_def)
  have lk: "length (concat (map (key_bytes \<circ> K) (txs a))) = 65 * length (txs a)"
  proof -
    have "\<forall>x \<in> set (map (key_bytes \<circ> K) (txs a)). length x = 65"
      using K tx_key_length by (fastforce simp: key_bytes_def split: option.splits)
    from length_concat_const [OF this] show ?thesis by simp
  qed
  have ls: "length (concat (map (sender_bytes \<circ> K) (txs a))) = 20 * length (txs a)"
    using length_concat_const [of "map (sender_bytes \<circ> K) (txs a)" 20] key_address_bytes(2) by simp
  have pk: "pack_u32 20 = Inr (le_fix 4 20)" "pack_u32 (20 + length n) = Inr (le_fix 4 (20 + length n))"
    "pack_u64 chain = Inr (le_fix 8 chain)" "pack_u32 (20 + length n + length w) = Inr (le_fix 4 (20 + length n + length w))"
    using assms(2,3) b(5) p(2) w(2) by (simp_all add: pack_u32_def pack_u64_def)
  define out where "out = (le_fix 4 20 @ le_fix 4 (20 + length n) @ le_fix 8 chain @ le_fix 4 (20 + length n + length w)) @ n @ w @
    concat (map (key_bytes \<circ> K) (txs a))"
  have d: "drop 2 ([21, 1] @ body) = body" "take 2 ([21, 1] @ body) = [21, 1]" by simp_all
  have "v21_to_v084 cv ([21, 1] @ body) = Inr ([21, 1] @ out)"
    unfolding v21_to_v084_def d Let_def L(1,2) ebind_simps cid L(3) transactions_request [OF p(1) b(4)] em keys L(4) pk out_def ..
  moreover have "container [None, None, Some (le_fix 8 chain), None] [n, w, concat (map (key_bytes \<circ> K) (txs a))] = Inr out"
    using pk by (simp add: container_def u32_def index_at_def out_def)
  moreover have "expected_senders cv ([21, 1] @ body) = Inr (concat (map (sender_bytes \<circ> K) (txs a)))"
  proof -
    have c: "from_le (bslice body 8 16) = chain" using L(5) assms(2) by simp
    have "emap (tx_sender cv chain) (txs a) = Inr (map (\<lambda>rw. projr (key_address (K rw))) (txs a))"
      by (rule emap_Inr) (use K key_address_total in \<open>metis tx_sender_key ebind_simps(2) sum.sel(2)\<close>)
    then show ?thesis
      unfolding expected_senders_def Let_def d c fixture_txs_input [OF p(1) b(1)] ebind_simps
      by (simp add: key_address_bytes o_def)
  qed
  ultimately show ?thesis using p(1) w(1) b(1,2) lk ls by blast
qed

lemma undecodable_key: "tx_key cv chain [0] = Inr None"
  by (simp add: tx_key_def decode_transaction_def guarded_def)

theorem keys_and_senders_witness:
  "\<exists>p w n blob out. Ssz.payload (pl_default\<lparr>txs := [[0]]\<rparr>) = Inr p \<and> witness [] [] [] = Inr w \<and> new_payload_request p [] None = Inr n \<and>
    stateless_input (Some p) (Some w) 1 = Inr blob \<and> v21_to_v084 secp256k1 blob = Inr ([21, 1] @ out) \<and>
    container [None, None, Some (le_fix 8 1), None] [n, w, zeros 65] = Inr out \<and>
    expected_senders secp256k1 blob = Inr (zeros 20)"
  using keys_and_senders [of "pl_default\<lparr>txs := [[0]]\<rparr>" 1 "[]" "[]" "[]" secp256k1 "\<lambda>_. None"] undecodable_key [of secp256k1 1]
  by (simp add: pl_in_range_def pl_default_def pl_size_def wit_size_def key_bytes_def sender_bytes_def)

end
