(* ===== verification/P256.thy ===== *)
theory P256
  imports Curve
begin

text \<open>
  The P-256 oracle of \<open>tools/gen_p256_vectors.py\<close>: point arithmetic with the linear term, ECDSA
  verification as the precompile specifies it, textbook signing, the range cases of the vector
  table and the record that \<open>main\<close> writes per case.
\<close>

definition p256 :: curve where
  "p256 = \<lparr>modP = 0xFFFFFFFF00000001000000000000000000000000FFFFFFFFFFFFFFFFFFFFFFFF,
     ordN = 0xFFFFFFFF00000000FFFFFFFFFFFFFFFFBCE6FAADA7179E84F3B9CAC2FC632551,
     coefA = 0xFFFFFFFF00000001000000000000000000000000FFFFFFFFFFFFFFFFFFFFFFFF - 3,
     coefB = 0x5AC635D8AA3A93E7B3EBBD55769886BC651D06B0CC53B0F63BCE3C3E27D2604B,
     gen = (0x6B17D1F2E12C4247F8BCE6E563A440F277037D812DEB33A0F4A13945D898C296,
            0x4FE342E2FE1A7F9B8EE7EB4A7C0F9E162BCE33576B315ECECBB6406837BF51F5)\<rparr>"

section \<open>Points\<close>

definition curve_add :: "curve \<Rightarrow> int \<Rightarrow> int \<Rightarrow> int \<Rightarrow> int \<Rightarrow> int \<times> int" where
  "curve_add c x1 y1 x2 y2 =
     (let lam = (y2 - y1) * powmod (x2 - x1) (nat (modP c - 2)) (modP c) mod modP c;
          x3 = (lam * lam - x1 - x2) mod modP c;
          y3 = (lam * (x1 - x3) - y1) mod modP c in (x3, y3))"

definition curve_dbl :: "curve \<Rightarrow> int \<Rightarrow> int \<Rightarrow> int \<times> int" where
  "curve_dbl c x1 y1 =
     (let lam = (3 * x1 * x1 + coefA c) * powmod (2 * y1) (nat (modP c - 2)) (modP c) mod modP c;
          x3 = (lam * lam - 2 * x1) mod modP c;
          y3 = (lam * (x1 - x3) - y1) mod modP c in (x3, y3))"

fun point_add :: "curve \<Rightarrow> point \<Rightarrow> point \<Rightarrow> point" where
  "point_add c None p2 = p2"
| "point_add c p1 None = p1"
| "point_add c (Some (x1, y1)) (Some (x2, y2)) =
     (if x1 = x2 then
        if (y1 + y2) mod modP c = 0 then None else Some (curve_dbl c x1 y1)
      else Some (curve_add c x1 y1 x2 y2))"

text \<open>The \<open>while\<close> loop of \<open>scalar_mul\<close>; it ends because \<open>k\<close> is halved.\<close>

function scalar_loop :: "curve \<Rightarrow> nat \<Rightarrow> point \<Rightarrow> point \<Rightarrow> point" where
  "scalar_loop c k acc pt =
     (if 0 < k then scalar_loop c (k div 2) (if odd k then point_add c acc pt else acc) (point_add c pt pt) else acc)"
  by pat_completeness auto
termination scalar_loop by (relation "measure (\<lambda>(c, k, acc, pt). k)") simp_all

declare scalar_loop.simps [simp del]

definition scalar_mul :: "curve \<Rightarrow> nat \<Rightarrow> point \<Rightarrow> point" where
  "scalar_mul c k pt = scalar_loop c k None pt"

definition is_on_curve :: "curve \<Rightarrow> int \<Rightarrow> int \<Rightarrow> bool" where
  "is_on_curve c x y \<longleftrightarrow> (y * y) mod modP c = (x * x * x + coefA c * x + coefB c) mod modP c"

section \<open>Verification and signing\<close>

definition verify :: "curve \<Rightarrow> bytes \<Rightarrow> int \<Rightarrow> int \<Rightarrow> int \<Rightarrow> int \<Rightarrow> bool" where
  "verify c hash32 r s qx qy =
     (if r \<le> 0 \<or> ordN c \<le> r then False
      else if s \<le> 0 \<or> ordN c \<le> s then False
      else if modP c \<le> qx \<or> modP c \<le> qy then False
      else if qx = 0 \<and> qy = 0 then False
      else if \<not> is_on_curve c qx qy then False
      else
        let e = int (from_be hash32);
            sinv = powmod s (nat (ordN c - 2)) (ordN c);
            u1 = e * sinv mod ordN c;
            u2 = r * sinv mod ordN c in
        case point_add c (scalar_mul c (nat u1) (Some (gen c))) (scalar_mul c (nat u2) (Some (qx, qy))) of
          None \<Rightarrow> False | Some R \<Rightarrow> fst R mod ordN c = r)"

definition sign :: "curve \<Rightarrow> int \<Rightarrow> int \<Rightarrow> nat \<Rightarrow> (int \<times> int) option" where
  "sign c d e k =
     (case scalar_mul c k (Some (gen c)) of None \<Rightarrow> None | Some R \<Rightarrow>
        let r = fst R mod ordN c;
            s = powmod (int k) (nat (ordN c - 2)) (ordN c) * (e + r * d) mod ordN c in
        if r = 0 \<or> s = 0 then None else Some (r, s))"

definition pubkey :: "curve \<Rightarrow> nat \<Rightarrow> point" where
  "pubkey c d = scalar_mul c d (Some (gen c))"

section \<open>Vectors\<close>

type_synonym vcase = "bytes \<times> int \<times> int \<times> int \<times> int"

text \<open>The cases of \<open>fixed_cases\<close> from the range gates of \<open>r\<close> and \<open>s\<close> up to the encoding of infinity; all of
  them are entered with the expected result \<open>False\<close>.\<close>

definition gate_cases :: "curve \<Rightarrow> bytes \<Rightarrow> int \<Rightarrow> int \<Rightarrow> int \<Rightarrow> int \<Rightarrow> (vcase \<times> bool) list" where
  "gate_cases c h1 r s qx qy =
     [((h1, 0, s, qx, qy), False),
      ((h1, ordN c, s, qx, qy), False),
      ((h1, ordN c + 1, s, qx, qy), False),
      ((h1, 2 ^ 256 - 1, s, qx, qy), False),
      ((h1, r, 0, qx, qy), False),
      ((h1, r, ordN c, qx, qy), False),
      ((h1, r, if ordN c + r < 2 ^ 256 then ordN c + r else ordN c + 2, qx, qy), False),
      ((h1, r, 2 ^ 256 - 1, qx, qy), False),
      ((h1, r, s, if qx + modP c < 2 ^ 256 then qx + modP c else modP c, qy), False),
      ((h1, r, s, qx, if qy + modP c < 2 ^ 256 then qy + modP c else modP c), False),
      ((h1, r, s, modP c, qy), False),
      ((h1, r, s, qx, modP c), False),
      ((h1, r, s, 2 ^ 256 - 1, qy), False),
      ((h1, r, s, qx, 2 ^ 256 - 1), False),
      ((h1, r, s, 0, 0), False)]"

text \<open>The check against the package \<open>cryptography\<close>, whose verifier is an argument when it is installed; it is asked only where
  the range checks pass.\<close>

datatype stop = Kat_mismatch | Library_disagrees | Raised exn

type_synonym verifier = "bytes \<Rightarrow> int \<Rightarrow> int \<Rightarrow> int \<Rightarrow> int \<Rightarrow> bool"

definition library_check :: "curve \<Rightarrow> verifier option \<Rightarrow> vcase \<Rightarrow> bool \<Rightarrow> stop + unit" where
  "library_check c lib v result = (case lib of None \<Rightarrow> Inr () | Some f \<Rightarrow> (case v of (hash32, r, s, qx, qy) \<Rightarrow>
     if \<not> (0 < r \<and> r < ordN c \<and> 0 < s \<and> s < ordN c \<and> qx < modP c \<and> qy < modP c \<and> is_on_curve c qx qy) then Inr ()
     else if f hash32 r s qx qy \<noteq> result then Inl Library_disagrees
     else Inr ()))"

text \<open>One iteration of \<open>main\<close>; a result that contradicts the table stops the program.\<close>

definition run_case :: "curve \<Rightarrow> verifier option \<Rightarrow> vcase \<times> bool option \<Rightarrow> stop + (bytes \<times> bytes)" where
  "run_case c lib vw = (case vw of ((hash32, r, s, qx, qy), want) \<Rightarrow>
     let res = verify c hash32 r s qx qy in
     if want \<noteq> None \<and> want \<noteq> Some res then Inl Kat_mismatch
     else case library_check c lib (hash32, r, s, qx, qy) res of Inl x \<Rightarrow> Inl x | Inr _ \<Rightarrow>
       (case ebind (int_to_be 32 r) (\<lambda>rb. ebind (int_to_be 32 s) (\<lambda>sb. ebind (int_to_be 32 qx) (\<lambda>xb. ebind (int_to_be 32 qy) (\<lambda>yb.
            ebind (pack_u64 (if res then 1 else 0)) (\<lambda>e. Inr (hash32 @ rb @ sb @ xb @ yb, e)))))) of
          Inl ex \<Rightarrow> Inl (Raised ex) | Inr o2 \<Rightarrow> Inr o2))"

section \<open>Correctness\<close>

lemma p256_point_add_sum:
  assumes p: "prime_mod (modP c)" and v: "valid c P" "valid c Q"
  shows "curve_sum c P Q (point_add c P Q)"
proof (rule fermat_sum [OF p v])
  show "point_add c R None = R" for R by (cases R) simp_all
qed (simp_all add: curve_dbl_def curve_add_def third_def Let_def)

interpretation p256: adder "\<lambda>c P Q. Inr (point_add c P Q)" "\<lambda>c. prime_mod (modP c)"
  by unfold_locales (auto intro: p256_point_add_sum)

lemma p256_scalar_loop_mul_loop: "mul_loop (\<lambda>P Q. Inr (point_add c P Q)) k acc pt = Inr (scalar_loop c k acc pt)"
proof (induction c k acc pt rule: scalar_loop.induct)
  case (1 c k acc pt)
  show ?case
  proof (cases k)
    case 0
    then show ?thesis by (simp add: scalar_loop.simps)
  next
    case (Suc j)
    have "scalar_loop c k acc pt = scalar_loop c (k div 2) (if odd k then point_add c acc pt else acc) (point_add c pt pt)"
      using Suc by (subst scalar_loop.simps) simp
    moreover have "mul_loop (\<lambda>P Q. Inr (point_add c P Q)) k acc pt =
        mul_loop (\<lambda>P Q. Inr (point_add c P Q)) (k div 2) (if odd k then point_add c acc pt else acc) (point_add c pt pt)"
      using Suc by (simp del: odd_Suc_div_two even_Suc_div_two even_Suc)
    ultimately show ?thesis using 1 Suc by simp
  qed
qed

lemma p256_scalar_mul_sum:
  assumes "prime_mod (modP c)" "valid c pt"
  shows "mul_sum c k None pt (scalar_mul c k pt)" "valid c (scalar_mul c k pt)"
  using p256.mul_loop_sum [of c None pt k] p256_scalar_loop_mul_loop [of c k None pt] assms by (auto simp: scalar_mul_def)

text \<open>What the theorem on verification asks of the parameters.\<close>

definition curve_ok :: "curve \<Rightarrow> bool" where
  "curve_ok c \<longleftrightarrow> prime_mod (modP c) \<and> prime_mod (ordN c) \<and> valid c (Some (gen c))"

lemma verify_ecdsa:
  assumes c: "curve_ok c" and nn: "0 \<le> qx" "0 \<le> qy"
  shows "verify c h r s qx qy \<longleftrightarrow>
    (0 < r \<and> r < ordN c \<and> 0 < s \<and> s < ordN c \<and> (qx, qy) \<noteq> (0, 0) \<and> valid c (Some (qx, qy))) \<and>
    (\<exists>u1 u2 A B X. scalar_for c s (int (from_be h)) u1 \<and> scalar_for c s r u2 \<and>
       mul_sum c (nat u1) None (Some (gen c)) A \<and> mul_sum c (nat u2) None (Some (qx, qy)) B \<and>
       curve_sum c A B (Some X) \<and> fst X mod ordN c = r)" (is "?L \<longleftrightarrow> ?range \<and> (\<exists>u1 u2 A B X. ?D u1 u2 A B X)")
proof (cases ?range)
  case False
  then show ?thesis using nn by (auto simp: verify_def reduced_def is_on_curve_def on_curve_def)
next
  case True
  have c': "prime_mod (modP c)" "prime_mod (ordN c)" "valid c (Some (gen c))" using c by (simp_all add: curve_ok_def)
  have ns: "\<not> ordN c dvd s" using True by (simp add: zdvd_not_zless)
  have vQ: "valid c (Some (qx, qy))" using True by blast
  define v1 where "v1 = int (from_be h) * powmod s (nat (ordN c - 2)) (ordN c) mod ordN c"
  define v2 where "v2 = r * powmod s (nat (ordN c - 2)) (ordN c) mod ordN c"
  define A0 where "A0 = scalar_mul c (nat v1) (Some (gen c))"
  define B0 where "B0 = scalar_mul c (nat v2) (Some (qx, qy))"
  have v: "scalar_for c s (int (from_be h)) v1" "scalar_for c s r v2"
    unfolding v1_def v2_def by (rule scalar_for_quotient [OF c'(2) ns])+
  have code: "?L \<longleftrightarrow> (\<exists>X. point_add c A0 B0 = Some X \<and> fst X mod ordN c = r)"
    using True by (auto simp: verify_def Let_def v1_def v2_def A0_def B0_def reduced_def is_on_curve_def on_curve_def split: option.splits)
  note SA = p256_scalar_mul_sum [OF c'(1,3), of "nat v1", folded A0_def] and SB = p256_scalar_mul_sum [OF c'(1) vQ, of "nat v2", folded B0_def]
  note S = p256_point_add_sum [OF c'(1) SA(2) SB(2)]
  show ?thesis
  proof
    assume ?L
    then show "?range \<and> (\<exists>u1 u2 A B X. ?D u1 u2 A B X)" using code True v SA(1) SB(1) S by metis
  next
    assume "?range \<and> (\<exists>u1 u2 A B X. ?D u1 u2 A B X)"
    then obtain u1 u2 A B X where D: "?D u1 u2 A B X" by blast
    have u: "u1 = v1" "u2 = v2" using D v scalar_for_unique [OF c'(2) ns] by blast+
    have "A0 = A" "B0 = B" using mul_sum_unique [OF c'(1)] SA(1) SB(1) D u c'(3) vQ by (metis valid_simps(1))+
    then have "point_add c A0 B0 = Some X" using sum_unique [OF c'(1) SA(2) SB(2) S] D by blast
    then show ?L using code D by blast
  qed
qed

lemma sign_in_range:
  assumes n: "0 < ordN c" and g: "sign c d e k = Some (r, s)"
  shows "0 < r \<and> r < ordN c \<and> 0 < s \<and> s < ordN c"
proof -
  from g obtain t u where "r = t mod ordN c" "s = u mod ordN c" "r \<noteq> 0" "s \<noteq> 0"
    by (auto simp: sign_def Let_def split: option.splits if_splits)
  then show ?thesis 
    using pos_mod_sign [OF n, of t] pos_mod_sign [OF n, of u] pos_mod_bound [OF n] by (simp add: order.strict_iff_order)
qed

section \<open>Properties\<close>

text \<open>C15: Verification is ECDSA verification: over prime moduli, \<open>verify\<close> accepts exactly when \<open>r\<close> and \<open>s\<close> are
  in range, the key is a reduced point of the curve other than the encoding of infinity, and the sum of
  \<open>u1 G\<close> and \<open>u2 Q\<close>, for the unique reduced \<open>u1 = e / s\<close> and \<open>u2 = r / s\<close>, is finite with an abscissa
  congruent to \<open>r\<close> modulo the order.\<close>

theorem verify_iff:
  assumes "curve_ok c" "0 \<le> qx" "0 \<le> qy"
  shows "verify c h r s qx qy \<longleftrightarrow>
    (0 < r \<and> r < ordN c \<and> 0 < s \<and> s < ordN c \<and> (qx, qy) \<noteq> (0, 0) \<and> valid c (Some (qx, qy))) \<and>
    (\<exists>u1 u2 A B X. scalar_for c s (int (from_be h)) u1 \<and> scalar_for c s r u2 \<and>
       mul_sum c (nat u1) None (Some (gen c)) A \<and> mul_sum c (nat u2) None (Some (qx, qy)) B \<and>
       curve_sum c A B (Some X) \<and> fst X mod ordN c = r)"
  using assms by (rule verify_ecdsa)

definition demo23 :: curve where
  \<comment> \<open>\<open>y\<^sup>2 = x\<^sup>3 - 3 x + 15\<close> over 23 elements, of order 17\<close>
  "demo23 = \<lparr>modP = 23, ordN = 17, coefA = 20, coefB = 15, gen = (1, 6)\<rparr>"

lemma demo23_ok: "curve_ok demo23"
proof -
  have "prime_mod 23" "prime_mod 17" by code_simp+
  then show ?thesis by (simp add: curve_ok_def demo23_def reduced_def on_curve_def)
qed

theorem verify_iff_witness:
  "\<exists>u1 u2 A B X. scalar_for demo23 11 (int (from_be [5])) u1 \<and> scalar_for demo23 11 11 u2 \<and>
     mul_sum demo23 (nat u1) None (Some (gen demo23)) A \<and> mul_sum demo23 (nat u2) None (Some (17, 22)) B \<and>
     curve_sum demo23 A B (Some X) \<and> fst X mod ordN demo23 = 11"
proof -
  have "verify demo23 [5] 11 11 17 22" by code_simp
  then show ?thesis using verify_iff [OF demo23_ok, of 17 22 "[5]" 11 11] by simp
qed

lemma be_fix_zero: "be_fix k 0 = replicate k 0"
  by (induction k) (simp_all add: replicate_append_same)

text \<open>The range gates of the vector table, for the P-256 constants: whatever the hash, the signature and the
  key are (non-negative integers), each of the fifteen gate cases is rejected, so that the table's
  \<open>False\<close> never stops the program, nor does the library that is asked besides; written out, such a case is 160 bytes of input and a zero word of
  expected output as long as its integers fit 32 bytes.\<close>

theorem gate_cases_rejected:
  assumes "0 \<le> r" "0 \<le> qx" "0 \<le> qy" "length h = 32" "(cs, want) \<in> set (gate_cases p256 h r s qx qy)"
  shows "want = False \<and> (case cs of (h', r', s', x', y') \<Rightarrow> \<not> verify p256 h' r' s' x' y' \<and>
    (0 \<le> r' \<and> r' < 2 ^ 256 \<and> 0 \<le> s' \<and> s' < 2 ^ 256 \<and> 0 \<le> x' \<and> x' < 2 ^ 256 \<and> 0 \<le> y' \<and> y' < 2 ^ 256 \<longrightarrow>
      (\<exists>b. run_case p256 lib (cs, Some want) = Inr (b, zeros 8) \<and> length b = 160)))"
proof -
  obtain h' r' s' x' y' where cs: "cs = (h', r', s', x', y')" using prod_cases5 by blast
  have gate: "want = False \<and> h' = h \<and> (r' \<le> 0 \<or> ordN p256 \<le> r' \<or> s' \<le> 0 \<or> ordN p256 \<le> s' \<or> modP p256 \<le> x' \<or> modP p256 \<le> y' \<or> x' = 0 \<and> y' = 0)"
    using assms(5) unfolding cs gate_cases_def list.set insert_iff empty_iff prod.inject
    using assms(1-3) by (elim disjE conjE) (simp_all add: p256_def)
  then have v: "\<not> verify p256 h' r' s' x' y'" by (auto simp: verify_def)
  have "\<not> is_on_curve p256 0 0" by (simp add: is_on_curve_def p256_def)
  then have lib: "library_check p256 lib cs res = Inr ()" for res
    using gate by (cases lib) (auto simp: library_check_def cs)
  have "\<exists>b. run_case p256 lib (cs, Some want) = Inr (b, zeros 8) \<and> length b = 160"
    if "0 \<le> r'" "r' < 2 ^ 256" "0 \<le> s'" "s' < 2 ^ 256" "0 \<le> x'" "x' < 2 ^ 256" "0 \<le> y'" "y' < 2 ^ 256"
  proof -
    have b: "int_to_be 32 z = Inr (be_fix 32 (nat z))" if "0 \<le> z" "z < 2 ^ 256" for z
      by (rule int_to_be_ok) (use that in simp_all)
    have "pack_u64 0 = Inr (zeros 8)" by (simp add: pack_u64_def le_fix_def be_fix_zero zeros_def)
    then show ?thesis using v gate assms(4) b [OF that(1,2)] b [OF that(3,4)] b [OF that(5,6)] b [OF that(7,8)] lib [of False]
      by (simp add: run_case_def cs Let_def)
  qed
  then show ?thesis using gate v by (simp add: cs)
qed

theorem gate_cases_rejected_witness:
  "\<not> verify p256 (zeros 32) 0 1 2 3 \<and> (\<exists>b. run_case p256 None ((zeros 32, 0, 1, 2, 3), Some False) = Inr (b, zeros 8) \<and> length b = 160)"
  using gate_cases_rejected [of 5 2 3 "zeros 32" "(zeros 32, 0, 1, 2, 3)" False 1 None] by (simp add: gate_cases_def)

end
