(* ===== verification/Ecdsa.thy ===== *)
theory Ecdsa
  imports Secp P256
begin

text \<open>
  Signatures that are made are accepted: for the two signers of the vector generators, the verifier of
  \<open>tools/gen_p256_vectors.py\<close> accepts what \<open>sign\<close> returns, and the recovery of
  \<open>tools/gen_secp_vectors.py\<close> returns the key that signed.  Beside the primality of the two moduli this rests on the
  group law of the curve, the associativity of the chord-and-tangent rule, and on the order of the generator; both are
  the hypothesis \<open>group_laws\<close>, which is a theorem about every elliptic curve and is evaluated here on a curve of
  thirteen points.
\<close>

section \<open>The group of points\<close>

definition group_laws :: "curve \<Rightarrow> bool" where
  "group_laws c \<longleftrightarrow> (\<forall>P Q R. valid c P \<and> valid c Q \<and> valid c R \<longrightarrow>
      P256.point_add c (P256.point_add c P Q) R = P256.point_add c P (P256.point_add c Q R)) \<and>
    P256.scalar_mul c (nat (ordN c)) (Some (gen c)) = None"

definition times :: "curve \<Rightarrow> nat \<Rightarrow> point \<Rightarrow> point" where
  \<comment> \<open>the sum of \<open>k\<close> copies of a point\<close>
  "times c k P = (P256.point_add c P ^^ k) None"

definition group_curve :: "curve \<Rightarrow> bool" where
  "group_curve c \<longleftrightarrow> P256.curve_ok c \<and> group_laws c"

lemma group_curveD:
  assumes "group_curve c"
  shows "prime_mod (modP c)" "prime_mod (ordN c)" "valid c (Some (gen c))"
    "\<And>P Q R. valid c P \<Longrightarrow> valid c Q \<Longrightarrow> valid c R \<Longrightarrow>
      P256.point_add c (P256.point_add c P Q) R = P256.point_add c P (P256.point_add c Q R)"
    "P256.scalar_mul c (nat (ordN c)) (Some (gen c)) = None"
  using assms by (auto simp: group_curve_def P256.curve_ok_def group_laws_def)

lemma add_closed: "group_curve c \<Longrightarrow> valid c P \<Longrightarrow> valid c Q \<Longrightarrow> valid c (P256.point_add c P Q)"
  using p256_point_add_sum sum_valid group_curveD(1) by blast

lemma add_None [simp]: "P256.point_add c None Q = Q" "P256.point_add c P None = P"
  by (cases P; simp)+

lemma add_comm: "group_curve c \<Longrightarrow> valid c P \<Longrightarrow> valid c Q \<Longrightarrow> P256.point_add c P Q = P256.point_add c Q P"
  using p256.add_commute [of c P Q] group_curveD(1) by auto

lemma times_0 [simp]: "times c 0 P = None"
  by (simp add: times_def)

lemma times_Suc: "times c (Suc k) P = P256.point_add c P (times c k P)"
  by (simp add: times_def)

lemma times_1: "times c 1 P = P"
  by (simp add: times_def)

lemma times_valid: "group_curve c \<Longrightarrow> valid c P \<Longrightarrow> valid c (times c k P)"
  by (induction k) (simp_all add: times_Suc add_closed)

lemma times_add:
  assumes "group_curve c" "valid c P"
  shows "times c (a + b) P = P256.point_add c (times c a P) (times c b P)"
proof (induction a)
  case (Suc a)
  show ?case
    using Suc group_curveD(4) [OF assms(1) assms(2) times_valid [OF assms, of a] times_valid [OF assms, of b]]
    by (simp add: times_Suc)
qed simp

lemma times_times:
  assumes "group_curve c" "valid c P"
  shows "times c a (times c b P) = times c (a * b) P"
  by (induction a) (simp_all add: times_Suc times_add [OF assms] )

lemma times_double: "group_curve c \<Longrightarrow> valid c P \<Longrightarrow> times c m (P256.point_add c P P) = times c (2 * m) P"
  using times_times [of c P m 2] times_1 [of c P] by (simp add: numeral_2_eq_2 times_Suc mult.commute)

lemma scalar_loop_times:
  "group_curve c \<Longrightarrow> valid c acc \<Longrightarrow> valid c pt \<Longrightarrow> P256.scalar_loop c k acc pt = P256.point_add c acc (times c k pt)"
proof (induction c k acc pt rule: P256.scalar_loop.induct)
  case (1 c k acc pt)
  note g = 1(2) and v = 1(3,4)
  show ?case
  proof (cases "0 < k")
    case True
    define a where "a = (if odd k then P256.point_add c acc pt else acc)"
    have va: "valid c a" using add_closed [OF g v] v by (simp add: a_def)
    have "P256.scalar_loop c k acc pt = P256.scalar_loop c (k div 2) a (P256.point_add c pt pt)"
      using True by (subst P256.scalar_loop.simps) (simp add: a_def)
    also have "\<dots> = P256.point_add c a (times c (k div 2) (P256.point_add c pt pt))"
      using 1(1) [OF True g] va add_closed [OF g v(2) v(2)] by (simp only: a_def)
    also have "\<dots> = P256.point_add c a (times c (2 * (k div 2)) pt)" by (simp only: times_double [OF g v(2)])
    also have "\<dots> = P256.point_add c acc (times c k pt)"
    proof (cases "odd k")
      case odd: True
      have "times c k pt = P256.point_add c pt (times c (2 * (k div 2)) pt)"
        using odd times_Suc [of c "2 * (k div 2)" pt] by simp
      then show ?thesis
        using odd group_curveD(4) [OF g v times_valid [OF g v(2)]] by (simp add: a_def)
    qed (simp add: a_def)
    finally show ?thesis .
  qed (simp add: P256.scalar_loop.simps)
qed

lemma scalar_mul_times: "group_curve c \<Longrightarrow> valid c pt \<Longrightarrow> P256.scalar_mul c k pt = times c k pt"
  using scalar_loop_times [of c None pt k] by (simp add: P256.scalar_mul_def)

section \<open>The order of the generator\<close>

lemma times_order:
  assumes "group_curve c"
  shows "times c (nat (ordN c)) (Some (gen c)) = None"
  using group_curveD(3,5) [OF assms] scalar_mul_times [OF assms] by metis

lemma times_None [simp]: "times c k None = None"
  by (induction k) (simp_all add: times_Suc)

lemma times_mod:
  assumes g: "group_curve c"
  shows "times c (k mod nat (ordN c)) (Some (gen c)) = times c k (Some (gen c))"
proof -
  let ?n = "nat (ordN c)" and ?G = "Some (gen c)"
  have "times c k ?G = times c (k mod ?n + (k div ?n) * ?n) ?G" by simp
  also have "\<dots> = P256.point_add c (times c (k mod ?n) ?G) (times c (k div ?n) (times c ?n ?G))"
    by (simp only: times_add [OF g group_curveD(3) [OF g]] times_times [OF g group_curveD(3) [OF g]])
  finally show ?thesis using times_order [OF g] by simp
qed

lemma times_cong:
  assumes g: "group_curve c" and "int a mod ordN c = int b mod ordN c"
  shows "times c a (Some (gen c)) = times c b (Some (gen c))"
proof -
  have "a mod nat (ordN c) = b mod nat (ordN c)"
    using assms(2) group_curveD(2) [OF g] prime_mod_gt [of "ordN c"] nat_mod_distrib [of "int a" "ordN c"] nat_mod_distrib [of "int b" "ordN c"] by simp
  then show ?thesis using times_mod [OF g] by metis
qed

section \<open>Signatures that verify\<close>

lemma nat_mod_int: "0 < n \<Longrightarrow> int (nat (x mod n)) = x mod n" for x n :: int
  by simp

text \<open>The quotient that a verifier computes from the equation of a signature.\<close>

lemma quotient_of:
  fixes s t w n :: int
  assumes n: "prime_mod n" and s: "\<not> n dvd s" and eq: "s * t mod n = w mod n"
  shows "w * powmod s (nat (n - 2)) n mod n = t mod n"
proof -
  let ?i = "powmod s (nat (n - 2)) n"
  have "w * ?i mod n = s * t * ?i mod n" using eq by (metis mod_mult_left_eq)
  also have "\<dots> = t * (s * ?i mod n) mod n" by (simp add: mod_mult_right_eq ac_simps)
  also have "\<dots> = t mod n" using fermat_inverse [OF n s] by simp
  finally show ?thesis .
qed

lemma common_factor: "(a * i mod n + b * i mod n * d) mod n = (a + b * d) * i mod n" for a b d i n :: int
proof -
  have "b * i mod n * d mod n = b * d * i mod n" by (simp only: mod_mult_left_eq) (simp only: ac_simps)
  then have "(a * i mod n + b * i mod n * d) mod n = (a * i + b * d * i) mod n" by (metis mod_add_eq mod_add_left_eq)
  then show ?thesis by (simp add: distrib_right)
qed

lemma combined_scalars:
  assumes g: "group_curve c" and u: "(u1 + u2 * int d) mod ordN c = t mod ordN c" and nn: "0 \<le> u1" "0 \<le> u2"
  shows "P256.point_add c (times c (nat u1) (Some (gen c))) (times c (nat u2) (times c d (Some (gen c)))) =
    times c (nat (t mod ordN c)) (Some (gen c))"
proof -
  have n: "0 < ordN c" using prime_mod_gt [OF group_curveD(2) [OF g]] by simp
  have "P256.point_add c (times c (nat u1) (Some (gen c))) (times c (nat u2) (times c d (Some (gen c)))) =
      times c (nat u1 + nat u2 * d) (Some (gen c))"
    by (simp only: times_add [OF g group_curveD(3) [OF g]] times_times [OF g group_curveD(3) [OF g]])
  also have "\<dots> = times c (nat (t mod ordN c)) (Some (gen c))"
    by (rule times_cong [OF g]) (use u nn n in simp)
  finally show ?thesis .
qed

lemma verify_accepts:
  assumes g: "group_curve c" and Q: "times c d (Some (gen c)) = Some (qx, qy)" "(qx, qy) \<noteq> (0, 0)"
    and r: "0 < r" "r < ordN c" and s: "0 < s" "s < ordN c"
    and eq: "s * t mod ordN c = (int (from_be h) + r * int d) mod ordN c"
    and R: "times c (nat (t mod ordN c)) (Some (gen c)) = Some R" "fst R mod ordN c = r"
  shows "P256.verify c h r s qx qy"
proof -
  note p = group_curveD(1) [OF g] and n = group_curveD(2) [OF g] and G = group_curveD(3) [OF g]
  have n0: "0 < ordN c" using prime_mod_gt [OF n] by simp
  have vQ: "valid c (Some (qx, qy))" using times_valid [OF g G, of d] Q(1) by simp
  have ns: "\<not> ordN c dvd s" using s by (simp add: zdvd_not_zless)
  let ?i = "powmod s (nat (ordN c - 2)) (ordN c)"
  define u1 where "u1 = int (from_be h) * ?i mod ordN c"
  define u2 where "u2 = r * ?i mod ordN c"
  have "(u1 + u2 * int d) mod ordN c = (int (from_be h) + r * int d) * ?i mod ordN c"
    unfolding u1_def u2_def by (rule common_factor)
  also have "\<dots> = t mod ordN c" by (rule quotient_of [OF n ns eq])
  finally have u: "(u1 + u2 * int d) mod ordN c = t mod ordN c" .
  have sum: "P256.point_add c (P256.scalar_mul c (nat u1) (Some (gen c))) (P256.scalar_mul c (nat u2) (Some (qx, qy))) = Some R"
    using combined_scalars [OF g u] n0 R(1) Q(1) scalar_mul_times [OF g G] scalar_mul_times [OF g vQ]
    by (simp add: u1_def u2_def)
  have gates: "\<not> r \<le> 0" "\<not> ordN c \<le> r" "\<not> s \<le> 0" "\<not> ordN c \<le> s" "\<not> (modP c \<le> qx \<or> modP c \<le> qy)" "\<not> (qx = 0 \<and> qy = 0)"
    "is_on_curve c qx qy"
    using r s Q(2) vQ by (auto simp: reduced_def is_on_curve_def on_curve_def)
  show ?thesis
    unfolding P256.verify_def using gates R(2) sum by (simp add: Let_def u1_def u2_def)
qed

text \<open>The negated scalar gives a point with the same abscissa.\<close>

lemma times_negated:
  assumes g: "group_curve c" and R: "times c k (Some (gen c)) = Some R"
  shows "\<exists>R'. times c (nat ((- int k) mod ordN c)) (Some (gen c)) = Some R' \<and> fst R' = fst R"
proof -
  note G = group_curveD(3) [OF g]
  have n0: "0 < ordN c" using prime_mod_gt [OF group_curveD(2) [OF g]] by simp
  let ?m = "nat ((- int k) mod ordN c)"
  have "int (?m + k) mod ordN c = int 0 mod ordN c" using n0 by (simp add: mod_simps)
  then have "times c (?m + k) (Some (gen c)) = None" using times_cong [OF g, of "?m + k" 0] by simp
  then have sum: "P256.point_add c (times c ?m (Some (gen c))) (Some R) = None"
    by (simp only: times_add [OF g G] R)
  then obtain R' where R': "times c ?m (Some (gen c)) = Some R'" by (cases "times c ?m (Some (gen c))") auto
  with sum have "fst R' = fst R" by (cases R; cases R') (auto split: if_splits)
  with R' show ?thesis by blast
qed

lemma sign_Some:
  assumes g: "group_curve c" and s: "P256.sign c d e k = Some (r, s)"
  obtains R where "times c k (Some (gen c)) = Some R" "r = fst R mod ordN c" "0 < r" "r < ordN c" "0 < s" "s < ordN c"
    "s * int k mod ordN c = (e + r * d) mod ordN c"
proof -
  note n = group_curveD(2) [OF g] and G = group_curveD(3) [OF g]
  have n0: "0 < ordN c" using prime_mod_gt [OF n] by simp
  from s obtain R where R: "times c k (Some (gen c)) = Some R" "r = fst R mod ordN c"
    and s': "s = powmod (int k) (nat (ordN c - 2)) (ordN c) * (e + r * d) mod ordN c"
    by (auto simp: P256.sign_def Let_def scalar_mul_times [OF g G] split: option.splits if_splits)
  have nk: "\<not> ordN c dvd int k"
  proof
    assume "ordN c dvd int k"
    then have "int k mod ordN c = int 0 mod ordN c" by simp
    from times_cong [OF g this] R(1) show False by simp
  qed
  have "s * int k mod ordN c = int k * powmod (int k) (nat (ordN c - 2)) (ordN c) mod ordN c * (e + r * d) mod ordN c"
    by (simp add: s' mod_simps ac_simps)
  also have "\<dots> = (e + r * d) mod ordN c" by (simp add: fermat_inverse [OF n nk])
  finally show thesis using that R sign_in_range [OF n0 s] by blast
qed

lemma sign_accepted:
  assumes g: "group_curve c" and Q: "P256.pubkey c d = Some (qx, qy)" "(qx, qy) \<noteq> (0, 0)"
    and sg: "P256.sign c (int d) e k = Some (r, s)" and e: "e mod ordN c = int (from_be h) mod ordN c"
  shows "P256.verify c h r s qx qy" "P256.verify c h r (ordN c - s) qx qy"
proof -
  note G = group_curveD(3) [OF g]
  have n0: "0 < ordN c" using prime_mod_gt [OF group_curveD(2) [OF g]] by simp
  have Q': "times c d (Some (gen c)) = Some (qx, qy)" using Q(1) by (simp add: P256.pubkey_def scalar_mul_times [OF g G])
  from sign_Some [OF g sg] obtain R where R: "times c k (Some (gen c)) = Some R" "r = fst R mod ordN c"
    and rs: "0 < r" "r < ordN c" "0 < s" "s < ordN c" and eq: "s * int k mod ordN c = (e + r * int d) mod ordN c" .
  have eq': "s * int k mod ordN c = (int (from_be h) + r * int d) mod ordN c"
    using eq e by (metis mod_add_left_eq)
  have "times c (nat (int k mod ordN c)) (Some (gen c)) = Some R"
    using R(1) times_mod [OF g, of k] n0 by (simp add: nat_mod_distrib)
  with verify_accepts [OF g Q' Q(2) rs eq'] R(2) show "P256.verify c h r s qx qy" by simp
  obtain R' where "times c (nat ((- int k) mod ordN c)) (Some (gen c)) = Some R'" "fst R' = fst R"
    using times_negated [OF g R(1)] by blast
  moreover have "(ordN c - s) * (- int k) mod ordN c = (int (from_be h) + r * int d) mod ordN c"
    unfolding eq' [symmetric] by (simp add: mod_eq_iff_dvd algebra_simps)
  ultimately show "P256.verify c h r (ordN c - s) qx qy"
    using verify_accepts [OF g Q' Q(2) rs(1,2), of "ordN c - s" "- int k"] R(2) rs(3,4) by simp
qed

section \<open>Signatures that recover\<close>

text \<open>On a curve without a linear term the two scripts add and multiply alike.\<close>

lemma secp_add_eq:
  "group_curve c \<Longrightarrow> coefA c = 0 \<Longrightarrow> valid c P \<Longrightarrow> valid c Q \<Longrightarrow> Secp.point_add c P Q = P256.point_add c P Q"
  using sum_unique [OF _ _ _ Secp.point_add_sum p256_point_add_sum] group_curveD(1) by metis

lemma secp_loop_eq:
  assumes "group_curve c" "coefA c = 0"
  shows "k < 2 ^ i \<Longrightarrow> valid c acc \<Longrightarrow> valid c pt \<Longrightarrow> Secp.scalar_loop c i k acc pt = P256.scalar_loop c k acc pt"
proof (induction i arbitrary: k acc pt)
  case 0
  then show ?case by (simp add: P256.scalar_loop.simps)
next
  case (Suc i)
  show ?case
  proof (cases "k = 0")
    case False
    let ?a = "if odd k then P256.point_add c acc pt else acc" and ?p = "P256.point_add c pt pt"
    have v: "valid c ?a" "valid c ?p" using Suc.prems add_closed [OF assms(1)] by simp_all
    have "Secp.scalar_loop c (Suc i) k acc pt = Secp.scalar_loop c i (k div 2) ?a ?p"
      using False Suc.prems secp_add_eq [OF assms] by (simp add: odd_iff_mod_2_eq_one)
    also have "\<dots> = P256.scalar_loop c (k div 2) ?a ?p"
      using Suc.prems(1) v by (intro Suc.IH) simp_all
    also have "\<dots> = P256.scalar_loop c k acc pt" using False by (subst (2) P256.scalar_loop.simps) simp
    finally show ?thesis .
  qed (simp add: P256.scalar_loop.simps)
qed

lemma secp_mul_times:
  "group_curve c \<Longrightarrow> coefA c = 0 \<Longrightarrow> k < 2 ^ 256 \<Longrightarrow> valid c pt \<Longrightarrow> Secp.scalar_mul c k pt = times c k pt"
  using secp_loop_eq [of c k 256 None pt] scalar_mul_times [of c pt k]
  by (simp only: Secp.scalar_mul_def P256.scalar_mul_def valid_simps simp_thms)

lemma scalar_below: "group_curve c \<Longrightarrow> ordN c \<le> 2 ^ 256 \<Longrightarrow> nat (x mod ordN c) < 2 ^ 256"
  using prime_mod_gt [OF group_curveD(2), of c] order.strict_trans2 [OF pos_mod_bound, of "ordN c" "2 ^ 256" x]
  by (simp add: nat_less_iff)

lemma negated_sum: "((n - a mod n) mod n + s mod n * k) mod n = (s * k - a) mod n" for a s k n :: int
proof -
  have "(n - a mod n) mod n mod n = (- a) mod n"
    unfolding mod_mod_trivial mod_diff_right_eq by (simp add: mod_eq_iff_dvd)
  then have "((n - a mod n) mod n + s mod n * k) mod n = (- a + s * k) mod n"
    by (rule mod_add_cong) (rule mod_mult_left_eq)
  then show ?thesis by simp
qed

definition secp_ok :: "curve \<Rightarrow> bool" where
  \<comment> \<open>what recovery asks of the parameters\<close>
  "secp_ok c \<longleftrightarrow> group_curve c \<and> coefA c = 0 \<and> modP c mod 4 = 3 \<and> ordN c \<le> 2 ^ 256 \<and> modP c \<le> 2 * ordN c"

lemma secp_sign_P256:
  assumes c: "secp_ok c" "k < 2 ^ 256" and s: "Secp.sign c d e k = Some (r, s, recid)"
  obtains R where "P256.sign c d e k = Some (r, s)" "times c k (Some (gen c)) = Some R"
    "recid = (if odd (snd R) then 1 else 0) + (if ordN c \<le> fst R then 2 else 0)"
proof -
  have g: "group_curve c" and a: "coefA c = 0" using c by (simp_all add: secp_ok_def)
  note G = group_curveD(3) [OF g]
  have m: "Secp.scalar_mul c k (Some (gen c)) = times c k (Some (gen c))"
    "P256.scalar_mul c k (Some (gen c)) = times c k (Some (gen c))"
    using secp_mul_times [OF g a c(2) G] scalar_mul_times [OF g G] by simp_all
  from s that show thesis
    by (auto simp: Secp.sign_def P256.sign_def m Let_def split: option.splits if_splits)
qed

lemma secp_okD:
  assumes "secp_ok c"
  shows "group_curve c" "coefA c = 0" "modP c mod 4 = 3" "ordN c \<le> 2 ^ 256" "modP c \<le> 2 * ordN c" "0 < ordN c"
    "prime_mod (modP c)" "prime_mod (ordN c)" "valid c (Some (gen c))"
  using assms group_curveD(1,2,3) [of c] prime_mod_gt [of "ordN c"] by (auto simp: secp_ok_def)

text \<open>Recovery from a multiple \<open>k G\<close> that decompression finds is the multiple \<open>(s k - e) / r\<close>.\<close>

lemma recover_multiple:
  assumes c: "secp_ok c" and dec: "decompress_r c r recid = Inr R" and R: "times c k (Some (gen c)) = Some R"
    and rs: "0 < r" "r < ordN c" "0 < s" "s < ordN c" and eq: "r * t mod ordN c = (s * int k - e) mod ordN c"
  shows "Secp.recover c e r s recid = (case times c (nat (t mod ordN c)) (Some (gen c)) of None \<Rightarrow> Inl ''atInfinity'' | Some q \<Rightarrow> Inr q)"
proof -
  note g = secp_okD(1,2) [OF c] and G = secp_okD(9) [OF c] and n0 = secp_okD(6) [OF c]
  have vR: "valid c (Some R)" using times_valid [OF g(1) G, of k] R by simp
  have nr: "\<not> ordN c dvd r" using rs by (simp add: zdvd_not_zless)
  let ?i = "powmod r (nat (ordN c - 2)) (ordN c)"
  define u1 where "u1 = (ordN c - e mod ordN c) mod ordN c * ?i mod ordN c"
  define u2 where "u2 = s mod ordN c * ?i mod ordN c"
  have "(u1 + u2 * int k) mod ordN c = ((ordN c - e mod ordN c) mod ordN c + s mod ordN c * int k) * ?i mod ordN c"
    unfolding u1_def u2_def by (rule common_factor)
  also have "\<dots> = t mod ordN c"
    by (rule quotient_of [OF secp_okD(8) [OF c] nr]) (simp only: negated_sum eq)
  finally have u: "(u1 + u2 * int k) mod ordN c = t mod ordN c" .
  have nn: "0 \<le> u1" "0 \<le> u2" using n0 by (simp_all add: u1_def u2_def)
  have mul: "Secp.scalar_mul c (nat u1) (Some (gen c)) = times c (nat u1) (Some (gen c))"
    "Secp.scalar_mul c (nat u2) (Some R) = times c (nat u2) (Some R)"
    unfolding u1_def u2_def by (rule secp_mul_times [OF g scalar_below [OF g(1) secp_okD(4) [OF c]]], rule G vR)+
  have "Secp.point_add c (times c (nat u1) (Some (gen c))) (times c (nat u2) (Some R)) =
      P256.point_add c (times c (nat u1) (Some (gen c))) (times c (nat u2) (times c k (Some (gen c))))"
    unfolding R by (rule secp_add_eq [OF g]) (rule times_valid [OF g(1)], rule G vR)+
  also have "\<dots> = times c (nat (t mod ordN c)) (Some (gen c))" by (rule combined_scalars [OF g(1) u nn])
  finally have sum: "Secp.point_add c (Secp.scalar_mul c (nat u1) (Some (gen c))) (Secp.scalar_mul c (nat u2) (Some R)) =
      times c (nat (t mod ordN c)) (Some (gen c))" by (simp only: mul)
  show ?thesis
    unfolding recover_def using rs dec sum by (simp add: Let_def u1_def u2_def)
qed

text \<open>The abscissa and the recovery id of a point lead back to it.\<close>

lemma decompress_point:
  assumes c: "secp_ok c" and v: "valid c (Some R)" "fst R mod ordN c \<noteq> 0"
  shows "decompress_r c (fst R mod ordN c) ((if odd (snd R) then 1 else 0) + (if ordN c \<le> fst R then 2 else 0)) = Inr R"
proof -
  obtain x y where xy: "R = (x, y)" by (cases R)
  let ?r = "x mod ordN c" and ?id = "(if odd y then 1 else 0) + (if ordN c \<le> x then 2 else 0) :: nat"
  have b: "0 \<le> x" "x < 2 * ordN c" using v(1) secp_okD(5) [OF c] by (auto simp: xy reduced_def)
  have n0: "0 < ordN c" by (rule secp_okD(6) [OF c])
  have "(?id div 2) mod 2 = 1 \<longleftrightarrow> ordN c \<le> x" by simp
  moreover have "?r = (if ordN c \<le> x then x - ordN c else x)"
  proof (cases "ordN c \<le> x")
    case True
    have "x mod ordN c = (x - ordN c) mod ordN c" by (simp add: mod_eq_iff_dvd)
    also have "\<dots> = x - ordN c" by (rule mod_pos_pos_trivial) (use True b in simp_all)
    finally show ?thesis using True by simp
  qed (use b in simp)
  ultimately have x: "recid_x c ?r ?id = x" by (simp add: recid_x_def)
  have par: "y mod 2 = int (?id mod 2)" by (simp add: odd_iff_mod_2_eq_one)
  show ?thesis
    unfolding xy fst_conv snd_conv
    by (subst decompress_r_Inr [OF secp_okD(7,3,2) [OF c]]) (use n0 v(1) x par in \<open>simp_all add: xy\<close>)
qed

lemma sign_recovered:
  assumes c: "secp_ok c" and k: "k < 2 ^ 256" "d < 2 ^ 256" and Q: "Secp.pubkey c d = Some Q"
    and sg: "Secp.sign c (int d) e k = Some (r, s, recid)" and e: "e mod ordN c = e' mod ordN c"
  shows "Secp.recover c e' r s recid = Inr Q"
proof -
  note g = secp_okD(1,2) [OF c] and G = secp_okD(9) [OF c] and n0 = secp_okD(6) [OF c]
  have Q': "times c d (Some (gen c)) = Some Q" using Q by (simp add: Secp.pubkey_def secp_mul_times [OF g k(2) G])
  obtain R where sg': "P256.sign c (int d) e k = Some (r, s)" and R: "times c k (Some (gen c)) = Some R"
    and id: "recid = (if odd (snd R) then 1 else 0) + (if ordN c \<le> fst R then 2 else 0)"
    by (rule secp_sign_P256 [OF c k(1) sg])
  have vR: "valid c (Some R)" using times_valid [OF g(1) G, of k] R by simp
  obtain r: "r = fst R mod ordN c" and rs: "0 < r" "r < ordN c" "0 < s" "s < ordN c" and eq: "s * int k mod ordN c = (e + r * int d) mod ordN c"
    using sign_Some [OF g(1) sg'] R by auto
  have dec: "decompress_r c r recid = Inr R" using decompress_point [OF c vR] rs by (simp add: r id)
  have "(s * int k - e') mod ordN c = (e + r * int d - e) mod ordN c" using eq e [symmetric] by (rule mod_diff_cong)
  then have eq': "r * int d mod ordN c = (s * int k - e') mod ordN c" by simp
  have "times c (nat (int d mod ordN c)) (Some (gen c)) = Some Q"
    using Q' times_mod [OF g(1), of d] n0 by (simp add: nat_mod_distrib)
  then show ?thesis by (simp add: recover_multiple [OF c dec R rs eq'])
qed

section \<open>Small groups\<close>

text \<open>A table that holds every point and in which points add like their indices makes the curve a group.\<close>

definition table_ok :: "curve \<Rightarrow> point list \<Rightarrow> bool" where
  "table_ok c tab \<longleftrightarrow> tab \<noteq> [] \<and> None \<in> set tab \<and>
    list_all (\<lambda>x. list_all (\<lambda>y. on_curve c x y \<longrightarrow> Some (x, y) \<in> set tab) [0..modP c - 1]) [0..modP c - 1] \<and>
    list_all (\<lambda>i. list_all (\<lambda>j. P256.point_add c (tab ! i) (tab ! j) = tab ! ((i + j) mod length tab)) [0..<length tab]) [0..<length tab]"

lemma table_group:
  assumes c: "P256.curve_ok c" and o: "P256.scalar_mul c (nat (ordN c)) (Some (gen c)) = None" and t: "table_ok c tab"
  shows "group_curve c"
proof -
  have pos: "0 < length tab" using t by (simp add: table_ok_def)
  have all: "\<exists>i. i < length tab \<and> P = tab ! i" if "valid c P" for P
  proof -
    have "P \<in> set tab" using that t by (cases P) (auto simp: table_ok_def list_all_iff reduced_def)
    then show ?thesis by (auto simp: in_set_conv_nth)
  qed
  have add: "P256.point_add c (tab ! i) (tab ! j) = tab ! ((i + j) mod length tab)" if "i < length tab" "j < length tab" for i j
    using t that by (simp add: table_ok_def list_all_iff)
  have "P256.point_add c (P256.point_add c P Q) R = P256.point_add c P (P256.point_add c Q R)"
    if v: "valid c P" "valid c Q" "valid c R" for P Q R
  proof -
    obtain i j k where "P = tab ! i" "Q = tab ! j" "R = tab ! k" "i < length tab" "j < length tab" "k < length tab"
      using v [THEN all] by blast
    then show ?thesis using pos by (simp add: add mod_simps add.assoc)
  qed
  then show ?thesis using c o by (simp add: group_curve_def group_laws_def)
qed

text \<open>\<open>y\<^sup>2 = x\<^sup>3 + 3\<close> over 7 elements has 13 points, \<open>y\<^sup>2 = x\<^sup>3 + 3 x + 5\<close> over 17 elements has 23.\<close>

definition demo7 :: curve where
  "demo7 = \<lparr>modP = 7, ordN = 13, coefA = 0, coefB = 3, gen = (1, 2)\<rparr>"

definition demo17 :: curve where
  "demo17 = \<lparr>modP = 17, ordN = 23, coefA = 3, coefB = 5, gen = (1, 3)\<rparr>"

lemma demo7_group: "group_curve demo7"
proof (rule table_group)
  have "prime_mod 7" "prime_mod 13" by code_simp+
  then show "P256.curve_ok demo7" by (simp add: P256.curve_ok_def demo7_def reduced_def on_curve_def)
  show "P256.scalar_mul demo7 (nat (ordN demo7)) (Some (gen demo7)) = None" by code_simp
  show "table_ok demo7 [None, Some (1, 2), Some (6, 3), Some (2, 2), Some (4, 5), Some (3, 3), Some (5, 3), Some (5, 4), Some (3, 4),
     Some (4, 2), Some (2, 5), Some (6, 4), Some (1, 5)]" by code_simp
qed

lemma demo17_group: "group_curve demo17"
proof (rule table_group)
  have "prime_mod 17" "prime_mod 23" by code_simp+
  then show "P256.curve_ok demo17" by (simp add: P256.curve_ok_def demo17_def reduced_def on_curve_def)
  show "P256.scalar_mul demo17 (nat (ordN demo17)) (Some (gen demo17)) = None" by code_simp
    show "table_ok demo17 [None, Some (1, 3), Some (16, 16), Some (4, 8), Some (11, 3), Some (5, 14), Some (9, 9), Some
     (15, 12), Some (10, 7), Some (2, 6), Some (6, 16), Some (12, 16), Some (12, 1), Some (6, 1), Some (2, 11), Some
     (10, 10), Some (15, 5), Some (9, 8), Some (5, 3), Some (11, 14), Some (4, 9), Some (16, 1), Some (1, 14)]" by code_simp
qed

lemma demo7_secp: "secp_ok demo7"
  using demo7_group by (simp add: secp_ok_def demo7_def)

section \<open>Properties\<close>

text \<open>What \<open>sign\<close> of the P-256 oracle returns, its \<open>verify\<close> accepts.  On a curve whose points are a group with a generator
  of prime order, for a private key whose public point is not the encoding of infinity: if \<open>sign\<close> returns \<open>(r, s)\<close> for a
  number congruent to the hash modulo the order, then the signature verifies for that hash and key, and so does the
  malleated one with \<open>n - s\<close>.\<close>

theorem sign_verifies:
  assumes "group_curve c" "P256.pubkey c d = Some (qx, qy)" "(qx, qy) \<noteq> (0, 0)"
    and "P256.sign c (int d) e k = Some (r, s)" "e mod ordN c = int (from_be h) mod ordN c"
  shows "P256.verify c h r s qx qy \<and> P256.verify c h r (ordN c - s) qx qy"
  using sign_accepted [OF assms] by simp

theorem sign_verifies_witness:
  "P256.verify demo7 [200] 2 10 5 3 \<and> P256.verify demo7 [200] 2 (ordN demo7 - 10) 5 3"
proof (rule sign_verifies [OF demo7_group])
  show "P256.pubkey demo7 6 = Some (5, 3)" by code_simp
  show "P256.sign demo7 (int 6) 5 3 = Some (2, 10)" by code_simp
qed (simp, code_simp)

text \<open>What \<open>sign\<close> of the secp256k1 generator returns, \<open>recover\<close> turns back into the public key.  On a curve whose points are
  a group with a generator of prime order, without a linear term: for every private key and nonce below \<open>2^256\<close>, if
  \<open>sign\<close> returns \<open>(r, s, recid)\<close> for a number congruent to the hash modulo the order, then recovery from the hash and
  that signature returns the public point of the signer.\<close>

theorem sign_recovers:
  assumes "secp_ok c" "d < 2 ^ 256" "k < 2 ^ 256" "Secp.pubkey c d = Some Q"
    and "Secp.sign c (int d) (e mod ordN c) k = Some (r, s, recid)"
  shows "Secp.recover c e r s recid = Inr Q"
  using sign_recovered [OF assms(1,3,2,4,5)] by simp

theorem sign_recovers_witness: "\<exists>r s recid Q. Secp.recover demo7 200 r s recid = Inr Q"
proof -
  have "Secp.recover demo7 200 2 10 0 = Inr (5, 3)"
  proof (rule sign_recovers [OF demo7_secp])
    show "Secp.pubkey demo7 6 = Some (5, 3)" by code_simp
    show "Secp.sign demo7 (int 6) (200 mod ordN demo7) 3 = Some (2, 10, 0)" by code_simp
  qed simp_all
  then show ?thesis by blast
qed

end
