(* ===== verification/P256Cases.thy ===== *)
theory P256Cases
  imports Ecdsa Ssz
begin

text \<open>
  The case list of \<open>tools/gen_p256_vectors.py\<close> and its files: \<open>fixed_cases\<close>, \<open>gen_random\<close> and \<open>main\<close>.  SHA-256 of the
  standard library and the installed verifier are arguments, and so is the signature of the EIP, whose verification
  needs an evaluation at 256 bits.  What the random generator draws is an argument; the loop that draws nonces until one
  signs has no bound in the source and is a partial function.
\<close>

unbundle bit_operations_syntax

section \<open>The fixed cases\<close>

definition unpacked :: "'a option \<Rightarrow> 'a res" where
  \<comment> \<open>unpacking what may be \<open>None\<close>\<close>
  "unpacked x = (case x of None \<Rightarrow> Inl TypeError | Some v \<Rightarrow> Inr v)"

lemma unpacked_iff [simp]: "unpacked x = Inr v \<longleftrightarrow> x = Some v"
  by (cases x) (simp_all add: unpacked_def)

definition eip_case :: vcase where
  "eip_case = (be_fix 32 0xbb5a52f42f9c9261ed4361f59422a1e30036e7c32b270c8807a419feca605023,
     0x2ba3a8be6b94d5ec80a6d9d1190a436effe50d85a1eee859b8cc6af9bd5c2e18,
     0x4cd60b855d442f5b3c7b11eb6c4e0ae7525fe710fab9aa7c77a67f79e6fadd76,
     0x2927b10512bae3eddcfe467828128bad2903269919f7086069c8c4df6c732838,
     0xc7787964eaac00e5921fb1498a60f4606766b3d9685001558d1a974e7341513e)"

type_synonym entry = "vcase \<times> bool option"

definition key_cases :: "curve \<Rightarrow> bytes \<Rightarrow> int \<Rightarrow> int \<Rightarrow> int \<Rightarrow> int \<Rightarrow> entry list res" where
  \<comment> \<open>the cases of the test key before the range gates\<close>
  "key_cases c h1 r s qx qy = ebind (int_to_be 32 (int (from_be h1 XOR 1))) (\<lambda>h1'. Inr
     [((h1, r, s, qx, qy), Some True),
      ((h1, r, ordN c - s, qx, qy), Some True),
      ((h1, r, s, qx, modP c - qy), Some False),
      ((h1, s, r, qx, qy), Some False),
      ((h1', r, s, qx, qy), Some False),
      ((h1, r + 1, s, qx, qy), Some False)])"

definition off_curve_cases :: "curve \<Rightarrow> bytes \<Rightarrow> int \<Rightarrow> int \<Rightarrow> int \<Rightarrow> int \<Rightarrow> entry list" where
  "off_curve_cases c h1 r s qx qy =
     [((h1, r, s, qx, 0), Some False),
      ((h1, r, s, 0, qy), Some False),
      ((h1, r, s, qx, (qy + 1) mod modP c), Some False),
      ((h1, r, s, fst (gen c), snd (gen c) + 1), Some False),
      ((h1, r, s, 1, 1), Some False)]"

definition hash_cases :: "curve \<Rightarrow> int \<Rightarrow> int \<Rightarrow> int \<Rightarrow> entry list res" where
  "hash_cases c d qx qy =
     ebind (unpacked (sign c d 0 0xABCDEF)) (\<lambda>(r0, s0). ebind (int_to_be 32 0) (\<lambda>h0.
     let ebig = ordN c + 987654321 in
     ebind (unpacked (sign c d (ebig mod ordN c) 0x5EED)) (\<lambda>(rb, sb). ebind (int_to_be 32 ebig) (\<lambda>hb.
     ebind (int_to_be 32 (2 ^ 256 - 1)) (\<lambda>hm.
     ebind (unpacked (sign c d ((2 ^ 256 - 1) mod ordN c) 0x7777)) (\<lambda>(rmax, smax). ebind (int_to_be 32 (ordN c)) (\<lambda>hn.
     ebind (unpacked (sign c d 0 0x424242)) (\<lambda>(r_n, s_n). Inr
       [((h0, r0, s0, qx, qy), Some True),
        ((hb, rb, sb, qx, qy), Some True),
        ((hm, rb, sb, qx, qy), Some False),
        ((hm, rmax, smax, qx, qy), Some True),
        ((hn, rmax, smax, qx, qy), Some False),
        ((hn, r_n, s_n, qx, qy), Some True)]))))))))"

definition scalar_cases :: "curve \<Rightarrow> (bytes \<Rightarrow> bytes) \<Rightarrow> int \<Rightarrow> entry list res" where
  \<comment> \<open>the two cases of one private key\<close>
  "scalar_cases c sha256 dd =
     ebind (unpacked (pubkey c (nat dd))) (\<lambda>(px, py).
     let hh = sha256 [word_of_int (dd AND 255)] in
     ebind (unpacked (sign c dd (int (from_be hh)) (nat (0x1234567 + dd mod 1000)))) (\<lambda>(rr, ss).
     Inr [((hh, rr, ss, px, py), Some True), ((hh, rr, ss, px, modP c - py), Some False)]))"

definition solved_key :: "curve \<Rightarrow> bytes \<Rightarrow> int \<Rightarrow> int" where
  \<comment> \<open>the private key for which \<open>s\<close> signs with nonce one\<close>
  "solved_key c h1 s = (let rG = fst (gen c) mod ordN c in
     (s * 1 - int (from_be h1)) * powmod rG (nat (ordN c - 2)) (ordN c) mod ordN c)"

definition solved_case :: "curve \<Rightarrow> bytes \<Rightarrow> int \<Rightarrow> entry res" where
  "solved_case c h1 s = ebind (unpacked (pubkey c (nat (solved_key c h1 s)))) (\<lambda>(px, py).
     Inr ((h1, fst (gen c) mod ordN c, s, px, py), Some True))"

definition wrapped_case :: "curve \<Rightarrow> bytes \<Rightarrow> entry res" where
  "wrapped_case c h1 = ebind (unpacked (pubkey c (nat (solved_key c h1 1)))) (\<lambda>(px, py).
     Inr ((h1, min (fst (gen c) mod ordN c + ordN c) (2 ^ 256 - 1), 1, px, py), Some False))"

definition fixed_cases :: "curve \<Rightarrow> vcase \<Rightarrow> (bytes \<Rightarrow> bytes) \<Rightarrow> entry list res" where
  "fixed_cases c kat sha256 =
     (let d = 12345 in
     ebind (unpacked (pubkey c d)) (\<lambda>(qx, qy).
     let h1 = sha256 (map of_char ''p256 pancake'') in
     ebind (unpacked (sign c (int d) (int (from_be h1)) 0x1F00D)) (\<lambda>(r, s).
     ebind (key_cases c h1 r s qx qy) (\<lambda>keys.
     ebind (hash_cases c (int d) qx qy) (\<lambda>hashes.
     ebind (emap (scalar_cases c sha256) [1, 2, 3, ordN c - 1, ordN c - 2]) (\<lambda>scalars.
     ebind (emap (solved_case c h1) [1, 2, ordN c - 1]) (\<lambda>solved.
     ebind (wrapped_case c h1) (\<lambda>wrapped.
     Inr ((kat, Some True) # keys @ map (\<lambda>(v, want). (v, Some want)) (gate_cases c h1 r s qx qy)
          @ off_curve_cases c h1 r s qx qy @ hashes @ concat scalars @ solved @ [wrapped])))))))))"

section \<open>The random cases\<close>

partial_function (option) first_some :: "(nat \<Rightarrow> 'a option) \<Rightarrow> nat \<Rightarrow> 'a option" where
  \<comment> \<open>trying until something is returned\<close>
  "first_some f i = (case f i of None \<Rightarrow> first_some f (Suc i) | Some g \<Rightarrow> Some g)"

lemma first_some_result:
  assumes "first_some f i = Some g" shows "\<exists>j. f j = Some g"
proof (rule first_some.raw_induct [where P = "\<lambda>f i g. \<exists>j. f j = Some g", OF _ assms])
  fix h :: "(nat \<Rightarrow> 'a option) \<Rightarrow> nat \<Rightarrow> 'a option" and f i g
  assume IH: "\<And>f i g. h f i = Some g \<Longrightarrow> \<exists>j. f j = Some g"
    and g: "(case f i of None \<Rightarrow> h f (Suc i) | Some g \<Rightarrow> Some g) = Some g"
  show "\<exists>j. f j = Some g"
  proof (cases "f i")
    case None
    then have "h f (Suc i) = Some g" using g by simp
    then show ?thesis by (rule IH)
  next
    case (Some h)
    then show ?thesis using g by auto
  qed
qed

lemma first_some_returns: "f (i + j) \<noteq> None \<Longrightarrow> \<exists>g. first_some f i = Some g"
proof (induction j arbitrary: i)
  case 0
  then show ?case by (subst first_some.simps) (auto split: option.split)
next
  case (Suc j)
  then have "\<exists>g. first_some f (Suc i) = Some g" by simp
  then show ?case by (subst first_some.simps) (auto split: option.split)
qed

definition sign_until :: "curve \<Rightarrow> int \<Rightarrow> int \<Rightarrow> (nat \<Rightarrow> nat) \<Rightarrow> (int \<times> int) option" where
  \<comment> \<open>the loop over nonces, of which \<open>ks\<close> are the draws\<close>
  "sign_until c d e ks = first_some (\<lambda>j. sign c d e (ks j)) 0"

record draw =
  dr_d :: nat            \<comment> \<open>\<open>randrange(1, N)\<close>\<close>
  dr_msg :: bytes        \<comment> \<open>the 32 drawn bytes\<close>
  dr_above :: int        \<comment> \<open>what is added to the order for kind 9\<close>
  dr_ks :: "nat \<Rightarrow> nat"   \<comment> \<open>the nonces\<close>
  dr_r :: int            \<comment> \<open>for kind 4\<close>
  dr_s :: int            \<comment> \<open>for kind 5\<close>
  dr_msg2 :: bytes       \<comment> \<open>for kind 7\<close>

definition draw_msg :: "curve \<Rightarrow> nat \<Rightarrow> draw \<Rightarrow> bytes res" where
  "draw_msg c kind w = (if kind = 9 then int_to_be 32 (ordN c + dr_above w) else if kind = 8 then Inr (zeros 32) else Inr (dr_msg w))"

definition random_case :: "curve \<Rightarrow> nat \<Rightarrow> draw \<Rightarrow> entry res option" where
  \<comment> \<open>one round of the loop of \<open>gen_random\<close>; \<open>None\<close> where no nonce signs\<close>
  "random_case c i w = (case pubkey c (dr_d w) of None \<Rightarrow> Some (Inl TypeError) | Some (qx, qy) \<Rightarrow>
     let kind = i mod 10 in
     case draw_msg c kind w of Inl ex \<Rightarrow> Some (Inl ex) | Inr msg \<Rightarrow>
     (case sign_until c (int (dr_d w)) (int (from_be msg) mod ordN c) (dr_ks w) of None \<Rightarrow> None | Some (r, s) \<Rightarrow>
       Some (Inr ((if kind = 7 then dr_msg2 w else msg,
                   if kind = 4 then dr_r w else r,
                   if kind = 3 then ordN c - s else if kind = 5 then dr_s w else s,
                   qx,
                   if kind = 6 then modP c - qy else qy),
                  if kind = 4 \<or> kind = 5 \<or> kind = 6 then Some False else if kind = 7 then None else Some True))))"

fun gen_random :: "curve \<Rightarrow> (nat \<Rightarrow> draw) \<Rightarrow> nat list \<Rightarrow> entry list res option" where
  \<comment> \<open>over the values that \<open>i\<close> takes\<close>
  "gen_random c draws [] = Some (Inr [])"
| "gen_random c draws (i # is) = (case random_case c i (draws i) of None \<Rightarrow> None | Some (Inl ex) \<Rightarrow> Some (Inl ex)
     | Some (Inr x) \<Rightarrow> (case gen_random c draws is of None \<Rightarrow> None | Some (Inl ex) \<Rightarrow> Some (Inl ex) | Some (Inr xs) \<Rightarrow> Some (Inr (x # xs))))"

section \<open>The two files\<close>

definition py_take :: "int \<Rightarrow> 'a list \<Rightarrow> 'a list" where
  \<comment> \<open>\<open>xs[:n]\<close>\<close>
  "py_take n xs = (if 0 \<le> n then take (nat n) xs else take (length xs - nat (- n)) xs)"

fun run_cases :: "curve \<Rightarrow> verifier option \<Rightarrow> entry list \<Rightarrow> stop + (bytes \<times> bytes) list" where
  "run_cases c lib [] = Inr []"
| "run_cases c lib (v # vs) = (case run_case c lib v of Inl x \<Rightarrow> Inl x | Inr o1 \<Rightarrow>
     (case run_cases c lib vs of Inl x \<Rightarrow> Inl x | Inr os \<Rightarrow> Inr (o1 # os)))"

definition verified :: "curve \<Rightarrow> vcase \<Rightarrow> bool" where
  "verified c v = (case v of (h, r, s, qx, qy) \<Rightarrow> verify c h r s qx qy)"

definition write_cases :: "curve \<Rightarrow> verifier option \<Rightarrow> entry list \<Rightarrow> stop + (bytes \<times> bytes \<times> nat)" where
  \<comment> \<open>the two files and the number of valid signatures\<close>
  "write_cases c lib cases = (case run_cases c lib cases of Inl x \<Rightarrow> Inl x | Inr os \<Rightarrow>
     let blob = concat (map fst os) in
     case pack_u64 (length blob) of Inl ex \<Rightarrow> Inl (Raised ex) | Inr n \<Rightarrow>
       Inr (n @ blob @ zeros (nat ((- (8 + int (length blob))) mod 8)), concat (map snd os),
            length (filter (\<lambda>v. verified c (fst v)) cases)))"

definition p256_main :: "curve \<Rightarrow> vcase \<Rightarrow> (bytes \<Rightarrow> bytes) \<Rightarrow> verifier option \<Rightarrow> int \<Rightarrow> (nat \<Rightarrow> draw) \<Rightarrow>
    (stop + (bytes \<times> bytes \<times> nat)) option" where
  "p256_main c kat sha256 lib count draws = (case fixed_cases c kat sha256 of Inl ex \<Rightarrow> Some (Inl (Raised ex)) | Inr fs \<Rightarrow>
     (case if int (length fs) < count then gen_random c draws [1..<nat count - length fs + 1] else Some (Inr []) of
        None \<Rightarrow> None | Some (Inl ex) \<Rightarrow> Some (Inl (Raised ex)) |
        Some (Inr rs) \<Rightarrow> Some (write_cases c lib (py_take count (fs @ rs)))))"

section \<open>The cases entered as valid\<close>

definition cases_ok :: "curve \<Rightarrow> bool" where
  \<comment> \<open>what the case list asks of the curve\<close>
  "cases_ok c \<longleftrightarrow> group_curve c \<and> \<not> on_curve c 0 0 \<and> 2 < ordN c \<and> fst (gen c) mod ordN c \<noteq> 0"

definition entry_holds :: "curve \<Rightarrow> entry \<Rightarrow> bool" where
  "entry_holds c v \<longleftrightarrow> (snd v = Some True \<longrightarrow> verified c (fst v))"

lemma entry_holds_simps [simp]:
  "entry_holds c (v, Some False)" "entry_holds c (v, None)" "entry_holds c ((h, r, s, x, y), Some True) \<longleftrightarrow> verify c h r s x y"
  by (simp_all add: entry_holds_def verified_def)

lemma cases_okD:
  assumes "cases_ok c"
  shows "group_curve c" "0 < ordN c" "2 < ordN c" "prime_mod (ordN c)" "valid c (Some (gen c))"
  using assms group_curveD(2,3) by (auto simp: cases_ok_def)

lemma pubkey_finite:
  assumes c: "cases_ok c" and p: "pubkey c d = Some (x, y)"
  shows "(x, y) \<noteq> (0, 0)" "times c d (Some (gen c)) = Some (x, y)"
proof -
  show t: "times c d (Some (gen c)) = Some (x, y)"
    using p scalar_mul_times [OF cases_okD(1,5) [OF c]] by (simp add: pubkey_def)
  have "valid c (Some (x, y))" using times_valid [OF cases_okD(1,5) [OF c], of d] t by simp
  then show "(x, y) \<noteq> (0, 0)" using c by (auto simp: cases_ok_def)
qed

lemma signed_case:
  assumes "cases_ok c" "pubkey c d = Some (x, y)" "sign c (int d) e k = Some (r, s)" "e mod ordN c = int (from_be h) mod ordN c"
  shows "verify c h r s x y" "verify c h r (ordN c - s) x y"
  using sign_accepted [OF cases_okD(1) [OF assms(1)] assms(2) pubkey_finite(1) [OF assms(1,2)] assms(3,4)] by simp_all

lemma from_be_int: "int_to_be 32 x = Inr b \<Longrightarrow> int (from_be b) = x"
  by (auto simp: int_to_be_def to_be_iff split: if_splits)

lemma key_cases_hold:
  assumes "cases_ok c" "pubkey c d = Some (qx, qy)" "sign c (int d) (int (from_be h1)) k = Some (r, s)" "key_cases c h1 r s qx qy = Inr es"
  shows "list_all (entry_holds c) es"
  using assms(4) signed_case [OF assms(1-3), of h1] by (auto simp: key_cases_def)

lemma hash_cases_hold:
  assumes c: "cases_ok c" "pubkey c d = Some (qx, qy)" and es: "hash_cases c (int d) qx qy = Inr es"
  shows "list_all (entry_holds c) es"
proof -
  from es obtain r0 s0 h0 rb sb hb hm rm sm hn rn sn where
    s: "sign c (int d) 0 0xABCDEF = Some (r0, s0)" "sign c (int d) ((ordN c + 987654321) mod ordN c) 0x5EED = Some (rb, sb)"
      "sign c (int d) ((2 ^ 256 - 1) mod ordN c) 0x7777 = Some (rm, sm)" "sign c (int d) 0 0x424242 = Some (rn, sn)"
    and h: "int_to_be 32 0 = Inr h0" "int_to_be 32 (ordN c + 987654321) = Inr hb" "int_to_be 32 (2 ^ 256 - 1) = Inr hm"
      "int_to_be 32 (ordN c) = Inr hn"
    and es': "es = [((h0, r0, s0, qx, qy), Some True), ((hb, rb, sb, qx, qy), Some True), ((hm, rb, sb, qx, qy), Some False),
        ((hm, rm, sm, qx, qy), Some True), ((hn, rm, sm, qx, qy), Some False), ((hn, rn, sn, qx, qy), Some True)]"
    unfolding hash_cases_def Let_def ebind_Inr_iff unpacked_iff by (fastforce simp: split_paired_Ex)
  note v = signed_case(1) [OF c s(1), of h0] signed_case(1) [OF c s(2), of hb] signed_case(1) [OF c s(3), of hm] signed_case(1) [OF c s(4), of hn]
  show ?thesis using v unfolding h [THEN from_be_int] es' by simp
qed

lemma scalar_cases_hold:
  assumes c: "cases_ok c" and "0 \<le> dd" "scalar_cases c sha256 dd = Inr es"
  shows "list_all (entry_holds c) es"
  using assms signed_case(1) [OF c, of "nat dd"] by (auto simp: scalar_cases_def Let_def)

lemma solved_key_eq:
  assumes "cases_ok c"
  shows "s * 1 mod ordN c = (int (from_be h) + fst (gen c) mod ordN c * int (nat (solved_key c h s))) mod ordN c"
proof -
  let ?n = "ordN c" and ?r = "fst (gen c) mod ordN c" and ?e = "int (from_be h)"
  have nr: "\<not> ?n dvd ?r" using assms by (auto simp: cases_ok_def dvd_eq_mod_eq_0)
  let ?i = "powmod ?r (nat (?n - 2)) ?n"
  have k: "int (nat (solved_key c h s)) = (s - ?e) * ?i mod ?n" using cases_okD(2) [OF assms] by (simp add: solved_key_def Let_def)
  have "?r * ((s - ?e) * ?i mod ?n) mod ?n = (s - ?e) * (?r * ?i mod ?n) mod ?n" 
    unfolding mod_mult_right_eq by (simp only: ac_simps)
  also have "\<dots> = (s - ?e) mod ?n" by (simp only: fermat_inverse [OF cases_okD(4) [OF assms] nr] mult_1_right)
  finally have "(?e + ?r * int (nat (solved_key c h s))) mod ?n = (?e + (s - ?e)) mod ?n"
    unfolding k by (intro mod_add_cong refl)
  then show ?thesis by simp
qed

lemma solved_case_holds:
  assumes c: "cases_ok c" and s: "0 < s" "s < ordN c" and v: "solved_case c h1 s = Inr v"
  shows "entry_holds c v"
proof -
  note n = cases_okD(2,3) [OF c]
  from v obtain px py where p: "pubkey c (nat (solved_key c h1 s)) = Some (px, py)" and v: "v = ((h1, fst (gen c) mod ordN c, s, px, py), Some True)"
    by (auto simp: solved_case_def)
  have "fst (gen c) mod ordN c \<noteq> 0" using c by (simp add: cases_ok_def)
  then have r: "0 < fst (gen c) mod ordN c" "fst (gen c) mod ordN c < ordN c"
    using n pos_mod_sign [of "ordN c" "fst (gen c)"] pos_mod_bound [of "ordN c" "fst (gen c)"] by linarith+
  have "1 mod ordN c = 1" using n by simp
  then have "times c (nat (1 mod ordN c)) (Some (gen c)) = Some (gen c)" by (simp add: times_1 [unfolded One_nat_def])
  then show ?thesis
    using verify_accepts [OF cases_okD(1) [OF c] pubkey_finite(2,1) [OF c p] r s solved_key_eq [OF c]] by (simp add: v)
qed

lemma emap_results: "emap f xs = Inr ys \<Longrightarrow> (\<And>x y. x \<in> set xs \<Longrightarrow> f x = Inr y \<Longrightarrow> Q y) \<Longrightarrow> list_all Q ys"
  unfolding emap_Inr_iff list_all2_conv_all_nth list_all_length by (metis nth_mem)

lemma fixed_cases_hold:
  assumes c: "cases_ok c" and fs: "fixed_cases c kat sha256 = Inr fs"
  shows "fs \<noteq> [] \<and> hd fs = (kat, Some True) \<and> list_all (entry_holds c) (tl fs)"
proof -
  from fs obtain qx qy r s keys hashes scalars solved wrapped where
    p: "pubkey c 12345 = Some (qx, qy)" and s: "sign c (int 12345) (int (from_be (sha256 (map of_char ''p256 pancake'')))) 0x1F00D = Some (r, s)"
    and k: "key_cases c (sha256 (map of_char ''p256 pancake'')) r s qx qy = Inr keys"
    and h: "hash_cases c (int 12345) qx qy = Inr hashes"
    and d: "emap (scalar_cases c sha256) [1, 2, 3, ordN c - 1, ordN c - 2] = Inr scalars"
    and q: "emap (solved_case c (sha256 (map of_char ''p256 pancake''))) [1, 2, ordN c - 1] = Inr solved"
    and w: "wrapped_case c (sha256 (map of_char ''p256 pancake'')) = Inr wrapped"
    and fs': "fs = (kat, Some True) # keys @ map (\<lambda>(v, want). (v, Some want)) (gate_cases c (sha256 (map of_char ''p256 pancake'')) r s qx qy)
        @ off_curve_cases c (sha256 (map of_char ''p256 pancake'')) r s qx qy @ hashes @ concat scalars @ solved @ [wrapped]"
    unfolding fixed_cases_def Let_def ebind_Inr_iff unpacked_iff by (auto simp del: emap.simps of_nat_numeral)
  note n = cases_okD(2,3) [OF c]
  have "list_all (list_all (entry_holds c)) scalars"
    by (rule emap_results [OF d]) (rule scalar_cases_hold [OF c], use n in auto)
  then have "list_all (entry_holds c) (concat scalars)" by (auto simp: list_all_iff)
  moreover have "list_all (entry_holds c) solved"
    by (rule emap_results [OF q]) (rule solved_case_holds [OF c], use n in auto)
  moreover have "list_all (entry_holds c) (map (\<lambda>(v, want). (v, Some want)) (gate_cases c h1 r s qx qy))" for h1
    by (simp add: gate_cases_def)
  moreover have "list_all (entry_holds c) (off_curve_cases c h1 r s qx qy)" for h1
    by (simp add: off_curve_cases_def)
  moreover have "entry_holds c wrapped" using w by (auto simp: wrapped_case_def)
  ultimately show ?thesis
    using key_cases_hold [OF c p s k] hash_cases_hold [OF c p h] by (simp add: fs')
qed

section \<open>The random cases return\<close>

lemma pubkey_Some:
  assumes c: "cases_ok c" and d: "0 < d" "int d < ordN c"
  shows "\<exists>Q. pubkey c d = Some Q"
proof (rule ccontr)
  note g = cases_okD(1,5) [OF c]
  assume "\<nexists>Q. pubkey c d = Some Q"
  then have "pubkey c d = None" by (cases "pubkey c d") auto
  then have "times c d (Some (gen c)) = None" using scalar_mul_times [OF g] by (simp add: pubkey_def)
  then have zero: "times c (m * d) (Some (gen c)) = None" for m using times_times [OF g, of m d] by simp
  have nd: "\<not> ordN c dvd int d" using d by (simp add: zdvd_not_zless)
  let ?i = "powmod (int d) (nat (ordN c - 2)) (ordN c)"
  have "int (nat ?i * d) mod ordN c = int d * ?i mod ordN c"
    using cases_okD(2) [OF c] by (simp add: powmod_def mult.commute)
  also have "\<dots> = int 1 mod ordN c" using fermat_inverse [OF cases_okD(4) [OF c] nd] cases_okD(3) [OF c] by simp
  finally have "times c (nat ?i * d) (Some (gen c)) = times c 1 (Some (gen c))" by (rule times_cong [OF g(1)])
  then show False using zero times_1 [of c "Some (gen c)"] by (simp del: One_nat_def)
qed

lemma sign_until_Some: "sign_until c d e ks = Some g \<Longrightarrow> \<exists>k. sign c d e k = Some g"
  using first_some_result by (fastforce simp: sign_until_def)

lemma sign_until_returns: "sign c d e (ks j) \<noteq> None \<Longrightarrow> \<exists>g. sign_until c d e ks = Some g"
  using first_some_returns [of "\<lambda>j. sign c d e (ks j)" 0 j] by (simp add: sign_until_def)

definition draw_ok :: "curve \<Rightarrow> nat \<Rightarrow> draw \<Rightarrow> bool" where
  \<comment> \<open>what the generator can draw in round \<open>i\<close>, with nonces of which one signs\<close>
  "draw_ok c i w \<longleftrightarrow> 0 < dr_d w \<and> int (dr_d w) < ordN c \<and> length (dr_msg w) = 32 \<and> length (dr_msg2 w) = 32 \<and>
     1 \<le> dr_above w \<and> dr_above w < 2 ^ 256 - ordN c \<and> 1 \<le> dr_r w \<and> dr_r w < ordN c \<and> 1 \<le> dr_s w \<and> dr_s w < ordN c \<and>
     (\<exists>msg j. draw_msg c (i mod 10) w = Inr msg \<and> sign c (int (dr_d w)) (int (from_be msg) mod ordN c) (dr_ks w j) \<noteq> None)"

lemma random_case_holds:
  assumes c: "cases_ok c" and v: "random_case c i w = Some (Inr v)"
  shows "entry_holds c v"
proof -
  from v obtain qx qy where p: "pubkey c (dr_d w) = Some (qx, qy)" by (auto simp: random_case_def split: option.splits)
  from v p obtain msg where m: "draw_msg c (i mod 10) w = Inr msg" by (auto simp: random_case_def Let_def split: sum.splits)
  from v p m obtain r s where u: "sign_until c (int (dr_d w)) (int (from_be msg) mod ordN c) (dr_ks w) = Some (r, s)"
    by (auto simp: random_case_def Let_def split: option.splits)
  obtain k where "sign c (int (dr_d w)) (int (from_be msg) mod ordN c) k = Some (r, s)" using sign_until_Some [OF u] by blast
  from signed_case [OF c p this, of msg] show ?thesis using v by (auto simp: random_case_def p m u Let_def split: if_splits)
qed

lemma random_case_returns:
  assumes c: "cases_ok c" and w: "draw_ok c i w"
  shows "\<exists>v. random_case c i w = Some (Inr v)"
proof -
  obtain qx qy where p: "pubkey c (dr_d w) = Some (qx, qy)" using pubkey_Some [OF c, of "dr_d w"] w by (auto simp: draw_ok_def)
  obtain msg j where m: "draw_msg c (i mod 10) w = Inr msg" and "sign c (int (dr_d w)) (int (from_be msg) mod ordN c) (dr_ks w j) \<noteq> None"
    using w by (auto simp: draw_ok_def)
  then obtain r s where "sign_until c (int (dr_d w)) (int (from_be msg) mod ordN c) (dr_ks w) = Some (r, s)"
    using sign_until_returns [of c _ _ "dr_ks w" j] by fastforce
  then show ?thesis by (simp add: random_case_def p m Let_def)
qed

lemma gen_random_hold:
  assumes c: "cases_ok c"
  shows "gen_random c draws is = Some (Inr rs) \<Longrightarrow> list_all (entry_holds c) rs \<and> length rs = length is"
proof (induction "is" arbitrary: rs)
  case (Cons i "is")
  then obtain x where x: "random_case c i (draws i) = Some (Inr x)" by (auto split: option.splits sum.splits)
  with Cons.prems obtain xs where "gen_random c draws is = Some (Inr xs)" "rs = x # xs" by (auto split: option.splits sum.splits)
  then show ?case using Cons.IH random_case_holds [OF c x] by simp
qed simp

lemma gen_random_returns:
  assumes c: "cases_ok c"
  shows "list_all (\<lambda>i. draw_ok c i (draws i)) is \<Longrightarrow> \<exists>rs. gen_random c draws is = Some (Inr rs)"
proof (induction "is")
  case (Cons i "is")
  then obtain rs where "gen_random c draws is = Some (Inr rs)" by auto
  moreover have "draw_ok c i (draws i)" using Cons.prems by simp
  then have "\<exists>v. random_case c i (draws i) = Some (Inr v)" by (rule random_case_returns [OF c])
  ultimately show ?case by (elim exE) simp
qed simp

section \<open>Sizes\<close>

definition fits256 :: "int \<Rightarrow> bool" where
  "fits256 x \<longleftrightarrow> 0 \<le> x \<and> x < 2 ^ 256"

definition entry_fits :: "entry \<Rightarrow> bool" where
  \<comment> \<open>the hash has 32 bytes and the integers have 256 bits\<close>
  "entry_fits v = (case v of ((h, r, s, x, y), want) \<Rightarrow> length h = 32 \<and> fits256 r \<and> fits256 s \<and> fits256 x \<and> fits256 y)"

lemma entry_fits_simps [simp]:
  "entry_fits ((h, r, s, x, y), want) \<longleftrightarrow> length h = 32 \<and> fits256 r \<and> fits256 s \<and> fits256 x \<and> fits256 y"
  by (simp add: entry_fits_def)

lemma eip_case_fits: "entry_fits (eip_case, Some True)"
  by (simp add: eip_case_def fits256_def)

definition sizes_ok :: "curve \<Rightarrow> bool" where
  "sizes_ok c \<longleftrightarrow> modP c < 2 ^ 256 \<and> ordN c + 2 < 2 ^ 256"

lemma pubkey_fits:
  assumes "cases_ok c" "sizes_ok c" "pubkey c d = Some (x, y)"
  shows "fits256 x" "fits256 y" "0 \<le> x \<and> x < modP c" "0 \<le> y \<and> y < modP c"
proof -
  have "valid c (Some (x, y))" using times_valid [OF cases_okD(1,5) [OF assms(1)], of d] pubkey_finite(2) [OF assms(1,3)] by simp
  then show "0 \<le> x \<and> x < modP c" "0 \<le> y \<and> y < modP c" "fits256 x" "fits256 y"
    using assms(2) by (auto simp: reduced_def fits256_def sizes_ok_def)
qed

lemma sign_fits:
  assumes "cases_ok c" "sizes_ok c" "sign c d e k = Some (r, s)"
  shows "fits256 r" "fits256 s" "0 < r \<and> r < ordN c" "0 < s \<and> s < ordN c"
  using sign_in_range [OF cases_okD(2) [OF assms(1)] assms(3)] assms(2) by (auto simp: fits256_def sizes_ok_def)

lemma key_cases_fit:
  assumes "sizes_ok c" "length h1 = 32" "0 < r \<and> r < ordN c" "0 < s \<and> s < ordN c" "0 \<le> x \<and> x < modP c" "0 \<le> y \<and> y < modP c"
    and "key_cases c h1 r s x y = Inr es"
  shows "list_all entry_fits es"
  using assms by (auto simp: key_cases_def fits256_def sizes_ok_def dest: int_to_be_length)

lemma gate_cases_fit:
  assumes "sizes_ok c" "length h1 = 32" "0 < r \<and> r < ordN c" "0 < s \<and> s < ordN c" "0 \<le> x \<and> x < modP c" "0 \<le> y \<and> y < modP c"
  shows "list_all entry_fits (map (\<lambda>(v, want). (v, Some want)) (gate_cases c h1 r s x y))"
  using assms by (auto simp: gate_cases_def fits256_def sizes_ok_def)

lemma off_curve_cases_fit:
  assumes "sizes_ok c" "cases_ok c" "length h1 = 32" "0 < r \<and> r < ordN c" "0 < s \<and> s < ordN c" "0 \<le> x \<and> x < modP c" "0 \<le> y \<and> y < modP c"
  shows "list_all entry_fits (off_curve_cases c h1 r s x y)"
proof -
  have "fits256 ((y + 1) mod modP c)"
  proof -
    have "0 < modP c" "modP c < 2 ^ 256" using assms by (auto simp: sizes_ok_def)
    then show ?thesis using pos_mod_bound [of "modP c" "y + 1"] pos_mod_sign [of "modP c" "y + 1"] unfolding fits256_def by linarith
  qed
  moreover have "fits256 (fst (gen c))" "fits256 (snd (gen c) + 1)"
    using cases_okD(5) [OF assms(2)] assms(1) by (auto simp: reduced_def fits256_def sizes_ok_def valid_def split: prod.splits)
  ultimately show ?thesis using assms by (auto simp: off_curve_cases_def fits256_def sizes_ok_def)
qed

lemma hash_cases_fit:
  assumes "sizes_ok c" "cases_ok c" "fits256 x" "fits256 y" "hash_cases c d x y = Inr es"
  shows "list_all entry_fits es"
  using assms(3-5) by (auto simp: hash_cases_def Let_def ebind_Inr_iff sign_fits [OF assms(2,1)] dest: int_to_be_length)

lemma scalar_cases_fit:
  assumes "sizes_ok c" "cases_ok c" "\<And>b. length (sha256 b) = 32" "scalar_cases c sha256 dd = Inr es"
  shows "list_all entry_fits es"
proof -
  from assms(4) obtain x y r s where p: "pubkey c (nat dd) = Some (x, y)"
    and s: "sign c dd (int (from_be (sha256 [word_of_int (dd AND 255)]))) (nat (0x1234567 + dd mod 1000)) = Some (r, s)"
    and es: "es = [((sha256 [word_of_int (dd AND 255)], r, s, x, y), Some True), ((sha256 [word_of_int (dd AND 255)], r, s, x, modP c - y), Some False)]"
    by (auto simp: scalar_cases_def Let_def ebind_Inr_iff)
  have "fits256 (modP c - y)" using pubkey_fits(4) [OF assms(2,1) p] assms(1) by (auto simp: fits256_def sizes_ok_def)
  then show ?thesis using pubkey_fits(1,2) [OF assms(2,1) p] sign_fits(1,2) [OF assms(2,1) s] by (simp add: es assms(3))
qed

lemma solved_case_fits:
  assumes "sizes_ok c" "cases_ok c" "length h1 = 32" "0 < s \<and> s < ordN c" "solved_case c h1 s = Inr v"
  shows "entry_fits v"
proof -
  from assms(5) obtain x y where p: "pubkey c (nat (solved_key c h1 s)) = Some (x, y)"
    and v: "v = ((h1, fst (gen c) mod ordN c, s, x, y), Some True)" by (auto simp: solved_case_def)
  have "fits256 (fst (gen c) mod ordN c)"
    using cases_okD(2) [OF assms(2)] assms(1) pos_mod_bound [of "ordN c" "fst (gen c)"] pos_mod_sign [of "ordN c" "fst (gen c)"]
    unfolding fits256_def sizes_ok_def by linarith
  then show ?thesis using pubkey_fits(1,2) [OF assms(2,1) p] assms(1,3,4) by (auto simp: v fits256_def sizes_ok_def)
qed

lemma wrapped_case_fits:
  assumes "sizes_ok c" "cases_ok c" "length h1 = 32" "wrapped_case c h1 = Inr v"
  shows "entry_fits v"
proof -
  from assms(4) obtain x y where p: "pubkey c (nat (solved_key c h1 1)) = Some (x, y)"
    and v: "v = ((h1, min (fst (gen c) mod ordN c + ordN c) (2 ^ 256 - 1), 1, x, y), Some False)" by (auto simp: wrapped_case_def)
  have "0 \<le> fst (gen c) mod ordN c" using cases_okD(2) [OF assms(2)] by simp
  then have "fits256 (min (fst (gen c) mod ordN c + ordN c) (2 ^ 256 - 1))"
    using cases_okD(2) [OF assms(2)] unfolding fits256_def by (auto simp: min_def)
  then show ?thesis using pubkey_fits(1,2) [OF assms(2,1) p] assms(3) by (simp add: v fits256_def)
qed

lemma fixed_cases_fit:
  assumes c: "sizes_ok c" "cases_ok c" and sha: "\<And>b. length (sha256 b) = 32" and kat: "entry_fits (kat, Some True)"
    and fs: "fixed_cases c kat sha256 = Inr fs"
  shows "list_all entry_fits fs"
proof -
  obtain h1 where h1: "h1 = sha256 (map of_char ''p256 pancake'')" by blast
  from fs obtain qx qy r s keys hashes scalars solved wrapped where
    p: "pubkey c 12345 = Some (qx, qy)" and s: "sign c (int 12345) (int (from_be h1)) 0x1F00D = Some (r, s)"
    and k: "key_cases c h1 r s qx qy = Inr keys"
    and h: "hash_cases c (int 12345) qx qy = Inr hashes"
    and d: "emap (scalar_cases c sha256) [1, 2, 3, ordN c - 1, ordN c - 2] = Inr scalars"
    and q: "emap (solved_case c h1) [1, 2, ordN c - 1] = Inr solved"
    and w: "wrapped_case c h1 = Inr wrapped"
    and fs': "fs = (kat, Some True) # keys @ map (\<lambda>(v, want). (v, Some want)) (gate_cases c h1 r s qx qy)
        @ off_curve_cases c h1 r s qx qy @ hashes @ concat scalars @ solved @ [wrapped]"
    unfolding fixed_cases_def Let_def ebind_Inr_iff unpacked_iff h1 by (auto simp del: emap.simps of_nat_numeral)
  have l: "length h1 = 32" by (simp add: h1 sha)
  note pf = pubkey_fits [OF c(2,1) p] and sf = sign_fits [OF c(2,1) s]
  have "list_all (list_all entry_fits) scalars"
    by (rule emap_results [OF d]) (rule scalar_cases_fit [OF c sha])
  then have "list_all entry_fits (concat scalars)" by (auto simp: list_all_iff)
  moreover have "list_all entry_fits solved"
    by (rule emap_results [OF q]) (rule solved_case_fits [OF c l], use cases_okD(3) [OF c(2)] in auto)
  moreover note key_cases_fit [OF c(1) l sf(3,4) pf(3,4) k] gate_cases_fit [OF c(1) l sf(3,4) pf(3,4)]
    off_curve_cases_fit [OF c l sf(3,4) pf(3,4)] hash_cases_fit [OF c pf(1,2) h] wrapped_case_fits [OF c l w]
  ultimately show ?thesis using kat by (simp add: fs' del: entry_fits_simps)
qed

lemma random_case_fits:
  assumes c: "sizes_ok c" "cases_ok c" and w: "draw_ok c i w" and v: "random_case c i w = Some (Inr v)"
  shows "entry_fits v"
proof -
  from v obtain qx qy where p: "pubkey c (dr_d w) = Some (qx, qy)" by (auto simp: random_case_def split: option.splits)
  from v p obtain msg where m: "draw_msg c (i mod 10) w = Inr msg" by (auto simp: random_case_def Let_def split: sum.splits)
  from v p m obtain r s where u: "sign_until c (int (dr_d w)) (int (from_be msg) mod ordN c) (dr_ks w) = Some (r, s)"
    by (auto simp: random_case_def Let_def split: option.splits)
  obtain k where k: "sign c (int (dr_d w)) (int (from_be msg) mod ordN c) k = Some (r, s)" using sign_until_Some [OF u] by blast
  have msg: "length msg = 32" using m w by (auto simp: draw_msg_def draw_ok_def dest: int_to_be_length split: if_splits)
  have "fits256 (modP c - qy)" "fits256 (ordN c - s)" "fits256 (dr_r w)" "fits256 (dr_s w)"
    using pubkey_fits(4) [OF c(2,1) p] sign_fits(4) [OF c(2,1) k] c(1) w by (auto simp: fits256_def sizes_ok_def draw_ok_def)
  then show ?thesis
    using v w msg pubkey_fits(1,2) [OF c(2,1) p] sign_fits(1,2) [OF c(2,1) k] 
    by (auto simp: random_case_def p m u Let_def draw_ok_def)
qed

lemma gen_random_fit:
  assumes c: "sizes_ok c" "cases_ok c"
  shows "list_all (\<lambda>i. draw_ok c i (draws i)) is \<Longrightarrow> gen_random c draws is = Some (Inr rs) \<Longrightarrow> list_all entry_fits rs"
proof (induction "is" arbitrary: rs)
  case (Cons i "is")
  then obtain x where x: "random_case c i (draws i) = Some (Inr x)" by (auto split: option.splits sum.splits)
  with Cons.prems obtain xs where "gen_random c draws is = Some (Inr xs)" "rs = x # xs" by (auto split: option.splits sum.splits)
  then show ?case using Cons.IH Cons.prems(1) random_case_fits [OF c _ x] by simp
qed simp

section \<open>The files\<close>

definition lib_ok :: "curve \<Rightarrow> verifier option \<Rightarrow> bool" where
  \<comment> \<open>the library, when it is installed, verifies signatures\<close>
  "lib_ok c lib = (case lib of None \<Rightarrow> True | Some f \<Rightarrow> f = verify c)"

definition entry_input :: "entry \<Rightarrow> bytes" where
  "entry_input v = (case v of ((h, r, s, x, y), want) \<Rightarrow>
     h @ be_fix 32 (nat r) @ be_fix 32 (nat s) @ be_fix 32 (nat x) @ be_fix 32 (nat y))"

definition entry_word :: "curve \<Rightarrow> entry \<Rightarrow> bytes" where
  "entry_word c v = le_fix 8 (if verified c (fst v) then 1 else 0)"

definition entry_met :: "curve \<Rightarrow> entry \<Rightarrow> bool" where
  "entry_met c v = (snd v = None \<or> snd v = Some (verified c (fst v)))"

lemma entry_lengths: "entry_fits v \<Longrightarrow> length (entry_input v) = 160" "length (entry_word c v) = 8"
  by (auto simp: entry_fits_def entry_input_def entry_word_def)

lemma run_case_eq:
  assumes "lib_ok c lib" "entry_fits v"
  shows "run_case c lib v = (if entry_met c v then Inr (entry_input v, entry_word c v) else Inl Kat_mismatch)"
proof -
  obtain h r s x y want where v: "v = ((h, r, s, x, y), want)" by (metis prod.exhaust)
  have b: "int_to_be 32 z = Inr (be_fix 32 (nat z))" if "fits256 z" for z
    by (rule int_to_be_ok) (use that in \<open>simp_all add: fits256_def\<close>)
  have "library_check c lib (h, r, s, x, y) (verify c h r s x y) = Inr ()"
    using assms(1) by (cases lib) (simp_all add: library_check_def lib_ok_def)
  then show ?thesis
    using assms(2) by (auto simp: run_case_def v Let_def b entry_met_def verified_def entry_input_def entry_word_def pack_u64_def)
qed

lemma run_cases_eq:
  assumes "lib_ok c lib"
  shows "list_all entry_fits vs \<Longrightarrow> run_cases c lib vs =
    (if list_all (entry_met c) vs then Inr (map (\<lambda>v. (entry_input v, entry_word c v)) vs) else Inl Kat_mismatch)"
  by (induction vs) (simp_all add: run_case_eq [OF assms])

definition entry_refuted :: "curve \<Rightarrow> entry \<Rightarrow> bool" where
  \<comment> \<open>entered as invalid, and accepted\<close>
  "entry_refuted c v = (snd v = Some False \<and> verified c (fst v))"

lemma entry_met_iff: "entry_holds c v \<Longrightarrow> entry_met c v \<longleftrightarrow> \<not> entry_refuted c v"
  by (cases "snd v") (auto simp: entry_holds_def entry_met_def entry_refuted_def)

definition selected :: "int \<Rightarrow> entry list \<Rightarrow> entry list \<Rightarrow> entry list" where
  \<comment> \<open>the cases that are written, of the fixed and the drawn ones\<close>
  "selected count fs rs = py_take count (fs @ rs)"

definition files_of :: "curve \<Rightarrow> entry list \<Rightarrow> bytes \<Rightarrow> bytes \<Rightarrow> bool" where
  \<comment> \<open>the input reads as the cases one behind the other, and the words are the verdicts\<close>
  "files_of c cs inp out = (unframe inp = Inr (concat (map entry_input cs)) \<and> out = concat (map (entry_word c) cs) \<and>
     length inp = 8 + 160 * length cs \<and> length out = 8 * length cs)"

lemma write_cases_eq:
  assumes "lib_ok c lib" "list_all entry_fits cs" "length cs < 2 ^ 50"
  shows "\<exists>inp out. files_of c cs inp out \<and> write_cases c lib cs =
    (if list_all (entry_met c) cs then Inr (inp, out, length (filter (\<lambda>v. verified c (fst v)) cs)) else Inl Kat_mismatch)"
proof -
  let ?blob = "concat (map entry_input cs)" and ?out = "concat (map (entry_word c) cs)"
  have len: "length ?blob = 160 * length cs" "length ?out = 8 * length cs"
    using assms(2) by (subst length_concat_const, auto simp: list_all_iff entry_lengths)+
  have bl: "length ?blob < 2 ^ 64" using len(1) assms(3) by simp
  define inp where "inp = le_fix 8 (length ?blob) @ ?blob @ zeros (pad8 (length ?blob))"
  have "frame ?blob = Inr inp" using bl by (simp add: frame_def pack_u64_def inp_def)
  then have un: "unframe inp = Inr ?blob" using frame_Inr by blast
  have "pad8 (160 * n) = 0" for n
  proof -
    have "(- (8 + int (160 * n))) mod 8 = 0" by presburger
    then show ?thesis using frame_pad [of "160 * n"] by simp
  qed
  then have "files_of c cs inp ?out" using un len by (simp add: files_of_def inp_def)
  moreover have "write_cases c lib cs =
      (if list_all (entry_met c) cs then Inr (inp, ?out, length (filter (\<lambda>v. verified c (fst v)) cs)) else Inl Kat_mismatch)"
    unfolding write_cases_def run_cases_eq [OF assms(1,2)] Let_def pack_u64_def inp_def frame_pad using bl by (simp add: comp_def)
  ultimately show ?thesis by blast
qed

lemma main_result:
  assumes c: "cases_ok c" "sizes_ok c" and sha: "\<And>b. length (sha256 b) = 32" and lib: "lib_ok c lib"
    and kat: "entry_fits (kat, Some True)" "verified c kat" and fs: "fixed_cases c kat sha256 = Inr fs"
    and count: "0 \<le> count" "count < 2 ^ 32" and draws: "list_all (\<lambda>i. draw_ok c i (draws i)) [1..<nat count - length fs + 1]"
  shows "\<exists>rs inp out. let cs = selected count fs rs in length cs = nat count \<and> list_all (entry_holds c) cs \<and> files_of c cs inp out \<and>
    p256_main c kat sha256 lib count draws = Some
      (if list_ex (entry_refuted c) cs then Inl Kat_mismatch else Inr (inp, out, length (filter (\<lambda>v. verified c (fst v)) cs)))"
proof -
  let ?is = "[1..<nat count - length fs + 1]"
  obtain rs where rs: "gen_random c draws ?is = Some (Inr rs)" using gen_random_returns [OF c(1) draws] by blast
  define cs where "cs = selected count fs rs"
  have fs': "list_all (entry_holds c) fs" using fixed_cases_hold [OF c(1) fs] kat(2) by (cases fs) (simp_all add: entry_holds_def)
  have all: "list_all (entry_holds c) (fs @ rs)" "list_all entry_fits (fs @ rs)"
    using fs' gen_random_hold [OF c(1) rs] fixed_cases_fit [OF c(2,1) sha kat(1) fs] gen_random_fit [OF c(2,1) draws rs] by simp_all
  have sub: "set cs \<subseteq> set (fs @ rs)" using count by (auto simp: cs_def selected_def py_take_def dest: in_set_takeD)
  then have cs: "list_all (entry_holds c) cs" "list_all entry_fits cs" using all by (auto simp: list_all_iff)
  have len: "length cs = nat count" using gen_random_hold [OF c(1) rs] count by (auto simp: cs_def selected_def py_take_def)
  have met: "list_all (entry_met c) cs \<longleftrightarrow> \<not> list_ex (entry_refuted c) cs"
    using cs(1) entry_met_iff [of c] by (auto simp: list_all_iff list_ex_iff)
  have "length cs < 2 ^ 50" using len count by simp
  from write_cases_eq [OF lib cs(2) this] obtain inp out where w: "files_of c cs inp out" "write_cases c lib cs =
      (if list_ex (entry_refuted c) cs then Inl Kat_mismatch else Inr (inp, out, length (filter (\<lambda>v. verified c (fst v)) cs)))"
    unfolding met by (auto split: if_splits)
  have g: "(if int (length fs) < count then gen_random c draws ?is else Some (Inr [])) = Some (Inr rs)"
    using rs count by (auto simp: not_less)
  have "p256_main c kat sha256 lib count draws = Some (write_cases c lib cs)"
    unfolding p256_main_def fs sum.case g option.case by (simp add: cs_def selected_def)
  then show ?thesis
    using w len cs(1) unfolding cs_def by (intro exI [of _ rs] exI [of _ inp] exI [of _ out]) (simp add: Let_def)
qed

section \<open>Properties\<close>


definition hash17 :: "bytes \<Rightarrow> bytes" where
  \<comment> \<open>every hash is three\<close>
  "hash17 b = zeros 31 @ [3]"

definition draw17 :: draw where
  "draw17 = \<lparr>dr_d = 1, dr_msg = zeros 31 @ [3], dr_above = 1, dr_ks = Suc, dr_r = 1, dr_s = 1, dr_msg2 = zeros 32\<rparr>"

lemma demo17_cases: "cases_ok demo17" "sizes_ok demo17"
  using demo17_group by (simp_all add: cases_ok_def sizes_ok_def demo17_def on_curve_def)

lemma draw17_ok: "draw_ok demo17 i draw17"
proof -
  have e: "sign demo17 (int 1) (int (from_be (zeros 32)) mod 23) (Suc 1) \<noteq> None" "sign demo17 (int 1) (int (from_be (zeros 31 @ [3])) mod 23) (Suc 1) \<noteq> None"
    "sign demo17 (int 1) (int (from_be (be_fix 32 24)) mod 23) (Suc 1) \<noteq> None"
    by code_simp+
  have "int_to_be 32 24 = Inr (be_fix 32 24)" using int_to_be_ok [of 24 32] by simp
  then have "\<exists>msg j. draw_msg demo17 (i mod 10) draw17 = Inr msg \<and>
      sign demo17 (int (dr_d draw17)) (int (from_be msg) mod ordN demo17) (dr_ks draw17 j) \<noteq> None"
    using e by (auto simp: draw_msg_def draw17_def demo17_def intro!: exI [of _ "Suc 0"])
  then show ?thesis by (simp add: draw_ok_def) (simp add: draw17_def demo17_def)
qed

definition kat17 :: vcase where
  "kat17 = (zeros 31 @ [3], 9, 3, 9, 8)"

text \<open>Only the residue of a scalar matters, which keeps the evaluation small.\<close>

lemma sign_mod:
  assumes "group_curve c" shows "sign c d e k = sign c d e (k mod nat (ordN c))"
proof -
  note G = group_curveD(3) [OF assms]
  have "0 < ordN c" using prime_mod_gt [OF group_curveD(2) [OF assms]] by simp
  then have p: "powmod (int (k mod nat (ordN c))) m (ordN c) = powmod (int k) m (ordN c)" for m
    by (simp add: powmod_mod zmod_int)
  show ?thesis unfolding sign_def scalar_mul_times [OF assms G] times_mod [OF assms] p by (rule refl)
qed

lemma pubkey_mod: "group_curve c \<Longrightarrow> pubkey c k = pubkey c (k mod nat (ordN c))"
  using scalar_mul_times group_curveD(3) times_mod by (simp add: pubkey_def)

lemma order17: "nat (ordN demo17) = 23"
  by (simp add: demo17_def)

lemma signs17:
  shows "sign demo17 12345 3 126989 = Some (9, 3)"
    "sign demo17 12345 0 11259375 = Some (1, 17)"
    "sign demo17 12345 5 24301 = Some (6, 10)"
    "sign demo17 12345 7 30583 = Some (15, 2)"
    "sign demo17 12345 0 4342338 = Some (15, 20)"
    "sign demo17 1 3 19088744 = Some (2, 21)"
    "sign demo17 2 3 19088745 = Some (6, 13)"
    "sign demo17 3 3 19088746 = Some (12, 14)"
    "sign demo17 22 3 19088765 = Some (15, 18)"
    "sign demo17 21 3 19088764 = Some (9, 9)"
  by (subst sign_mod [OF demo17_group], simp add: order17, code_simp)+

lemma keys17:
  shows "pubkey demo17 12345 = Some (9, 8)"
    "pubkey demo17 1 = Some (1, 3)"
    "pubkey demo17 2 = Some (16, 16)"
    "pubkey demo17 3 = Some (4, 8)"
    "pubkey demo17 22 = Some (1, 14)"
    "pubkey demo17 21 = Some (16, 1)"
    "pubkey demo17 19 = Some (11, 14)"
  by (subst pubkey_mod [OF demo17_group], simp add: order17, code_simp)+

lemma hash17_value: "from_be (hash17 b) = 3"
  by (simp add: hash17_def)

lemma ints17: "0 \<le> x \<Longrightarrow> x < 2 ^ 256 \<Longrightarrow> int_to_be 32 x = Inr (be_fix 32 (nat x))"
  by (rule int_to_be_ok) simp_all

lemma order17_values: "ordN demo17 = 23" "fst (gen demo17) mod 23 = 1"
  by (simp_all add: demo17_def)

lemma solved17: "solved_key demo17 (hash17 b) 1 = 21" "solved_key demo17 (hash17 b) 2 = 22" "solved_key demo17 (hash17 b) 22 = 19"
  by (simp_all add: solved_key_def order17_values hash17_value powmod_def)

lemma fixed17: "\<exists>fs. fixed_cases demo17 kat17 hash17 = Inr fs"
proof -
  have key: "\<exists>es. key_cases demo17 (hash17 b) 9 3 9 8 = Inr es" for b
    by (simp add: key_cases_def hash17_value ints17)
  have hash: "\<exists>es. hash_cases demo17 12345 9 8 = Inr es"
    by (simp add: hash_cases_def order17_values signs17 ints17 unpacked_def Let_def)
  have scalar: "\<exists>es. scalar_cases demo17 hash17 dd = Inr es" if "dd \<in> {1, 2, 3, 22, 21}" for dd
    using that by (auto simp: scalar_cases_def keys17 [simplified] hash17_value signs17 unpacked_def Let_def)
  have solved: "\<exists>v. solved_case demo17 (hash17 b) s = Inr v" if "s \<in> {1, 2, 22}" for s b
    using that by (auto simp: solved_case_def solved17 keys17 unpacked_def)
  have wrapped: "\<exists>v. wrapped_case demo17 (hash17 b) = Inr v" for b
    by (simp add: wrapped_case_def solved17 keys17 unpacked_def)
  define h1 where "h1 = hash17 (map of_char ''p256 pancake'')"
  have "emap (scalar_cases demo17 hash17) [1, 2, 3, 22, 21] = Inr (map (\<lambda>dd. projr (scalar_cases demo17 hash17 dd)) [1, 2, 3, 22, 21])"
  proof (rule emap_Inr)
    fix dd assume "dd \<in> set [1, 2, 3, 22, 21 :: int]"
    then have "dd \<in> {1, 2, 3, 22, 21}" by simp
    from scalar [OF this] show "scalar_cases demo17 hash17 dd = Inr (projr (scalar_cases demo17 hash17 dd))" by (elim exE) simp
  qed
  moreover have "emap (solved_case demo17 h1) [1, 2, 22] = Inr (map (\<lambda>s. projr (solved_case demo17 h1 s)) [1, 2, 22])"
  proof (rule emap_Inr)
    fix s assume "s \<in> set [1, 2, 22 :: int]"
    then have "s \<in> {1, 2, 22}" by simp
    from solved [OF this, of "map of_char ''p256 pancake''"] show "solved_case demo17 h1 s = Inr (projr (solved_case demo17 h1 s))"
      unfolding h1_def by (elim exE) simp
  qed
  moreover have "from_be h1 = 3" by (simp add: h1_def hash17_value)
  ultimately show ?thesis
    using key [of "map of_char ''p256 pancake''"] hash wrapped [of "map of_char ''p256 pancake''"]
    unfolding fixed_cases_def Let_def h1_def [symmetric]
    by (auto simp: order17_values keys17 signs17 unpacked_def simp del: emap.simps)
qed


end
