(* ===== verification/SecpCases.thy ===== *)
theory SecpCases
  imports P256Cases
begin

text \<open>
  The case list of \<open>tools/gen_secp_vectors.py\<close> and its files: \<open>FIXED\<close>, \<open>gen_random\<close> with the search for abscissas without a
  point, the checks against the installed libraries and \<open>main\<close>.  Four signatures of other projects are an argument, since
  their recovery needs an evaluation at 256 bits; the libraries and the draws are arguments too.
\<close>

section \<open>The fixed cases\<close>

type_synonym scase = "bytes \<times> int \<times> int \<times> nat"
type_synonym sentry = "scase \<times> (string + int \<times> int) option \<times> bytes option"

definition reference_cases :: "sentry list" where
  \<comment> \<open>the four entries of \<open>FIXED\<close> whose signatures come from elsewhere; the second wants the generator\<close>
  "reference_cases =
     [((be_fix 32 0x18C547E4F7B0F325AD1E56F57E26C745B09A3E503D86E00E5255FF7F715D3D1C,
        0x73B1693892219D736CABA55BDB67216E485557EA6B6AF75F37096C9AA6A5A75F,
        0xEEB940B1D03B21E36B0E47E79769F095FE2AB855BD91E3A38756B7D75A9C4549, 1),
       Some (Inr (0x3A514176466FA815ED481FFAD09110A2D344F6C9B78C1D14AFC351C3A51BE33D,
                  0x8072E77939DC03BA44790779B7A1025BAF3003F6732430E20CD9B76D953391B3)),
       Some (be_fix 20 0xa94f5374fce5edbc8e2a8697c15331677e6ebf0b)),
      ((be_fix 32 0x8268970637E7EC5E5732A57C1516B9BC08E10C97C69B43573EE8FCB5DB289440,
        0x0F5D436BB1EE6278117F772990A5671A75E0A179467ED1D8C612FEC86BFE7FF8,
        0x3F447738ECD57BC8B22B54E23AFCF109DB1D86CA8D17F60AD45E98F4526E71AF, 0),
       Some (Inr (gen secp256k1)), None),
      ((be_fix 32 0x11231FE21C44D87DD72EE6456267066DF8226784CA912B1D3020C7348E851959,
        0xBB50E2D89A4ED70663D080659FE0AD4B9BC3E06C17A227433966CB59CEEE020D,
        0x5AA713217EAFF6BF62AFEA8B901AB3C6B77BC5FF1A466AF565A4D6250ED8C586, 0),
       Some (Inr (0xC03457AEBB04B5343EE14B08F89A57BD842A7F6F1D39EC63A8CACC95CDEEA779,
                  0x9BCD9CA350448E320E418C2F44B64087CE652A86004586E9A2D6C9661E74DF60)), None),
      ((be_fix 32 0x65c3ae64d466f2a8ffeab9ea674e0275cd4428e6df077c3d786b5d7a5d8984db,
        0x1518619670d02fb8bf8f6f78b6b0885aae6820737cfdd8080a6d829e2f9cb327,
        0x6cb5e9483bb48d9ddc77f9ae18296e8df37e00a99d5ea4b927e2b54c41492eec, 1),
       Some (Inr (0x1b84c5567b126440995d3ed5aaba0565d71e1834604819ff9c17f5e9d5dd078f,
                  0x70beaf8f588b541507fed6a642c5ab42dfdf8120a7f639de5122d47a69a8e8d1)),
       Some (be_fix 20 0x1a642f0e3c3af545e7acbd38b07251b3990914f1))]"

definition spec_case :: "int \<times> int \<times> int \<times> nat \<times> (string + int \<times> int) option \<Rightarrow> sentry res" where
  \<comment> \<open>a case whose hash is a number\<close>
  "spec_case q = (case q of (h, r, s, recid, want) \<Rightarrow> ebind (int_to_be 32 h) (\<lambda>b. Inr ((b, r, s, recid), want, None)))"

definition infinity_spec :: "curve \<Rightarrow> int \<times> int \<times> int \<times> nat \<times> (string + int \<times> int) option" where
  "infinity_spec c = (1, fst (gen c), 1, 0, Some (Inl ''atInfinity''))"

definition edge_specs :: "curve \<Rightarrow> (int \<times> int \<times> int \<times> nat \<times> (string + int \<times> int) option) list" where
  "edge_specs c =
     [(2, fst (gen c), 3, 1, None),
      (5, fst (gen c), 7, 0, None),
      (1, 5, 1, 0, Some (Inl ''xNotSquare'')),
      (1, ordN c - 1, 1, 2, Some (Inl ''xOutOfRange'')),
      (1, modP c - ordN c, 1, 2, Some (Inl ''xOutOfRange'')),
      (1, modP c - ordN c, 1, 3, Some (Inl ''xOutOfRange'')),
      (1, modP c - ordN c - 1, 1, 2, None),
      (1, 0, 1, 0, Some (Inl ''rOutOfRange'')),
      (1, ordN c, 1, 0, Some (Inl ''rOutOfRange'')),
      (1, ordN c + 1, 1, 1, Some (Inl ''rOutOfRange'')),
      (1, 2 ^ 256 - 1, 1, 0, Some (Inl ''rOutOfRange'')),
      (1, modP c - 1, 1, 2, Some (Inl ''rOutOfRange'')),
      (1, fst (gen c), 0, 0, Some (Inl ''sOutOfRange'')),
      (1, fst (gen c), ordN c, 0, Some (Inl ''sOutOfRange'')),
      (1, fst (gen c), 2 ^ 256 - 1, 1, Some (Inl ''sOutOfRange'')),
      (0, 1, 1, 0, None),
      (0, 1, 1, 1, None),
      (0, 1, 1, 2, None),
      (ordN c + 12345, 1, ordN c - 1, 1, None),
      (2 ^ 256 - 1, 2, 2, 0, None)]"

definition FIXED :: "curve \<Rightarrow> sentry list \<Rightarrow> sentry list res" where
  \<comment> \<open>the infinite result stands before the last of the reference cases\<close>
  "FIXED c refs = ebind (spec_case (infinity_spec c)) (\<lambda>i. ebind (emap spec_case (edge_specs c)) (\<lambda>es.
     Inr (take 3 refs @ [i] @ drop 3 refs @ es)))"

section \<open>The random cases\<close>

record sdraw =
  sd_d :: nat             \<comment> \<open>\<open>randrange(1, N)\<close>\<close>
  sd_msg :: bytes         \<comment> \<open>the 32 drawn bytes\<close>
  sd_above :: int         \<comment> \<open>what is added to the order for kind 7\<close>
  sd_ks :: "nat \<Rightarrow> nat"    \<comment> \<open>the nonces\<close>

definition sdraw_msg :: "curve \<Rightarrow> nat \<Rightarrow> sdraw \<Rightarrow> bytes res" where
  "sdraw_msg c kind w = (if kind = 7 then int_to_be 32 (ordN c + sd_above w) else if kind = 6 then Inr (zeros 32) else Inr (sd_msg w))"

definition secp_sign_until :: "curve \<Rightarrow> int \<Rightarrow> int \<Rightarrow> (nat \<Rightarrow> nat) \<Rightarrow> (int \<times> int \<times> nat) option" where
  "secp_sign_until c d e ks = first_some (\<lambda>j. Secp.sign c d e (ks j)) 0"

definition secp_random_case :: "curve \<Rightarrow> nat \<Rightarrow> sdraw \<Rightarrow> sentry res option" where
  \<comment> \<open>one round of the first loop of \<open>gen_random\<close>; \<open>None\<close> where no nonce signs\<close>
  "secp_random_case c i w = (let kind = i mod 8 in
     case sdraw_msg c kind w of Inl ex \<Rightarrow> Some (Inl ex) | Inr msg \<Rightarrow>
     (case secp_sign_until c (int (sd_d w)) (int (from_be msg) mod ordN c) (sd_ks w) of None \<Rightarrow> None | Some (r, s, recid) \<Rightarrow>
       Some (Inr ((msg, r,
                   if kind = 3 then ordN c - s else s,
                   if kind = 4 then recid XOR 1 else if kind = 5 then recid OR 2 else recid),
                  if kind \<in> {0, 1, 2, 6, 7} then map_option Inr (Secp.pubkey c (sd_d w)) else None, None))))"

fun secp_random_cases :: "curve \<Rightarrow> (nat \<Rightarrow> sdraw) \<Rightarrow> nat list \<Rightarrow> sentry list res option" where
  \<comment> \<open>over the values that \<open>i\<close> takes\<close>
  "secp_random_cases c draws [] = Some (Inr [])"
| "secp_random_cases c draws (i # is) = (case secp_random_case c i (draws i) of None \<Rightarrow> None | Some (Inl ex) \<Rightarrow> Some (Inl ex)
     | Some (Inr x) \<Rightarrow> (case secp_random_cases c draws is of None \<Rightarrow> None | Some (Inl ex) \<Rightarrow> Some (Inl ex) | Some (Inr xs) \<Rightarrow> Some (Inr (x # xs))))"

definition residue_test :: "curve \<Rightarrow> int \<Rightarrow> int" where
  \<comment> \<open>\<open>pow(rhs, (P - 1) // 2, P)\<close>\<close>
  "residue_test c r = powmod ((r * r * r + coefB c) mod modP c) (nat ((modP c - 1) div 2)) (modP c)"

partial_function (option) non_squares :: "curve \<Rightarrow> int \<Rightarrow> nat \<Rightarrow> int list option" where
  \<comment> \<open>the second loop, from \<open>r\<close> on with \<open>found\<close> found before\<close>
  "non_squares c r found = (if found < 2 then
     if residue_test c r \<noteq> 1 then Option.bind (non_squares c (r + 1) (found + 1)) (\<lambda>rs. Some (r # rs))
     else non_squares c (r + 1) found
   else Some [])"

definition secp_gen_random :: "curve \<Rightarrow> (nat \<Rightarrow> sdraw) \<Rightarrow> nat \<Rightarrow> sentry list res option" where
  "secp_gen_random c draws n = (case secp_random_cases c draws [1..<n + 1] of None \<Rightarrow> None | Some (Inl ex) \<Rightarrow> Some (Inl ex)
     | Some (Inr xs) \<Rightarrow> (case non_squares c 1 0 of None \<Rightarrow> None | Some rs \<Rightarrow>
        Some (ebind (emap (\<lambda>(found, r). spec_case (9, r, 3, found, Some (Inl ''xNotSquare''))) (enumerate 0 rs)) (\<lambda>ys. Inr (xs @ ys)))))"

section \<open>The two files\<close>

datatype secp_stop = Recovery_mismatch | Coincurve_disagrees | Specs_disagree | Address_mismatch | Raises exn

fun raising :: "'a res \<Rightarrow> secp_stop + 'a" where
  "raising (Inl ex) = Inl (Raises ex)"
| "raising (Inr x) = Inr x"

definition sbind :: "'e + 'a \<Rightarrow> ('a \<Rightarrow> 'e + 'b) \<Rightarrow> 'e + 'b" where
  "sbind m f = (case m of Inl e \<Rightarrow> Inl e | Inr x \<Rightarrow> f x)"

record secp_libs =
  sl_recover :: "(bytes \<Rightarrow> bytes \<Rightarrow> bytes option) option"             \<comment> \<open>\<open>coincurve\<close>: signature and hash; \<open>None\<close> for an exception\<close>
  sl_specs :: "(int \<Rightarrow> int \<Rightarrow> nat \<Rightarrow> bytes \<Rightarrow> bytes) option"   \<comment> \<open>\<open>secp256k1_recover\<close> of the execution specs\<close>

definition point_bytes :: "int \<times> int \<Rightarrow> bytes res" where
  "point_bytes q = ebind (int_to_be 32 (fst q)) (\<lambda>x. ebind (int_to_be 32 (snd q)) (\<lambda>y. Inr (x @ y)))"

definition result_bytes :: "string + int \<times> int \<Rightarrow> bytes option res" where
  "result_bytes res = (case res of Inl _ \<Rightarrow> Inr None | Inr q \<Rightarrow> ebind (point_bytes q) (\<lambda>b. Inr (Some b)))"

definition secp_cross_check :: "curve \<Rightarrow> secp_libs \<Rightarrow> scase \<Rightarrow> string + int \<times> int \<Rightarrow> secp_stop + unit" where
  "secp_cross_check c libs v res = (case sl_recover libs of None \<Rightarrow> Inr () | Some lib \<Rightarrow> (case v of (h, r, s, recid) \<Rightarrow>
     if ordN c \<le> r \<or> ordN c \<le> s \<or> 3 < recid then Inr ()
     else sbind (raising (ebind (int_to_be 32 r) (\<lambda>rb. ebind (int_to_be 32 s) (\<lambda>sb. ebind (byte1 recid) (\<lambda>id. Inr (rb @ sb @ id)))))) (\<lambda>sig.
       sbind (raising (result_bytes res)) (\<lambda>exp.
       if lib sig h \<noteq> exp then Inl Coincurve_disagrees
       else case sl_specs libs of None \<Rightarrow> Inr () | Some f \<Rightarrow>
         if recid \<le> 1 \<and> \<not> isl res \<and> Some (f r s recid h) \<noteq> exp then Inl Specs_disagree else Inr ()))))"

definition secp_case :: "curve \<Rightarrow> secp_libs \<Rightarrow> sentry \<Rightarrow> secp_stop + (bytes \<times> bytes)" where
  \<comment> \<open>one iteration of \<open>main\<close>: what it appends to the two strings\<close>
  "secp_case c libs v = (case v of ((h, r, s, recid), want, want_addr) \<Rightarrow>
     let e = int (from_be h); res = recover c e r s recid in
     if want \<noteq> None \<and> want \<noteq> Some res then Inl Recovery_mismatch
     else sbind (secp_cross_check c libs (h, r, s, recid) res) (\<lambda>_.
       sbind (raising (ecrecover_address c e (recid + 27) r s)) (\<lambda>addr.
       if want_addr \<noteq> None \<and> want_addr \<noteq> addr then Inl Address_mismatch
       else sbind (raising (case_input (h, r, s, recid))) (\<lambda>i.
         raising (ebind (point_record res) (\<lambda>a. ebind (address_record addr) (\<lambda>b. Inr (i, a @ b))))))))"

fun secp_loop :: "curve \<Rightarrow> secp_libs \<Rightarrow> sentry list \<Rightarrow> secp_stop + (bytes \<times> bytes) list" where
  "secp_loop c libs [] = Inr []"
| "secp_loop c libs (v # vs) = sbind (secp_case c libs v) (\<lambda>x. sbind (secp_loop c libs vs) (\<lambda>xs. Inr (x # xs)))"

definition recovered :: "curve \<Rightarrow> scase \<Rightarrow> bool" where
  "recovered c v = (case v of (h, r, s, recid) \<Rightarrow> \<not> isl (recover c (int (from_be h)) r s recid))"

definition secp_write :: "curve \<Rightarrow> secp_libs \<Rightarrow> sentry list \<Rightarrow> secp_stop + (bytes \<times> bytes \<times> nat)" where
  \<comment> \<open>the two files and the number of successful recoveries\<close>
  "secp_write c libs cases = sbind (secp_loop c libs cases) (\<lambda>os. let blob = concat (map fst os) in
     sbind (raising (pack_u64 (length blob))) (\<lambda>n.
       Inr (n @ blob @ zeros (nat ((- (8 + int (length blob))) mod 8)), concat (map snd os),
            length (filter (\<lambda>v. recovered c (fst v)) cases))))"

definition secp_main :: "curve \<Rightarrow> sentry list \<Rightarrow> secp_libs \<Rightarrow> int \<Rightarrow> (nat \<Rightarrow> sdraw) \<Rightarrow> (secp_stop + (bytes \<times> bytes \<times> nat)) option" where
  "secp_main c refs libs count draws = (case FIXED c refs of Inl ex \<Rightarrow> Some (Inl (Raises ex)) | Inr fs \<Rightarrow>
     (case if int (length fs) + 2 < count then secp_gen_random c draws (nat count - length fs - 2) else Some (Inr []) of
        None \<Rightarrow> None | Some (Inl ex) \<Rightarrow> Some (Inl (Raises ex)) |
        Some (Inr rs) \<Rightarrow> Some (secp_write c libs (py_take count (fs @ rs)))))"

section \<open>What the case list asks of the curve\<close>

definition secp_numbers :: "curve \<Rightarrow> int \<Rightarrow> int \<Rightarrow> bool" where
  \<comment> \<open>\<open>r1\<close> and \<open>r2\<close> are the first two abscissas whose ordinate would be the root of a non-residue\<close>
  "secp_numbers c r1 r2 \<longleftrightarrow> modP c \<le> 2 ^ 256 \<and> ordN c + 12345 < 2 ^ 256 \<and> 7 < ordN c \<and> ordN c < modP c \<and> modP c \<le> 2 * ordN c - 1 \<and>
     0 < fst (gen c) \<and> fst (gen c) < ordN c \<and> even (snd (gen c)) \<and> residue_test c 5 \<notin> {0, 1} \<and>
     1 \<le> r1 \<and> r1 < r2 \<and> r2 < ordN c \<and> residue_test c r1 \<notin> {0, 1} \<and> residue_test c r2 \<notin> {0, 1} \<and>
     list_all (\<lambda>r. r = r1 \<or> residue_test c r = 1) [1..r2 - 1]"

definition secp_ready :: "curve \<Rightarrow> int \<Rightarrow> int \<Rightarrow> bool" where
  "secp_ready c r1 r2 \<longleftrightarrow> secp_ok c \<and> secp_numbers c r1 r2"

lemma secp_readyD:
  assumes "secp_ready c r1 r2"
  shows "secp_ok c" "modP c \<le> 2 ^ 256" "ordN c + 12345 < 2 ^ 256" "7 < ordN c" "ordN c < modP c" "modP c < 2 * ordN c"
    "0 < fst (gen c)" "fst (gen c) < ordN c" "even (snd (gen c))" "residue_test c 5 \<notin> {0, 1}"
    "1 \<le> r1" "r1 < r2" "r2 < ordN c" "residue_test c r1 \<notin> {0, 1}" "residue_test c r2 \<notin> {0, 1}"
    "\<And>r. 1 \<le> r \<Longrightarrow> r < r2 \<Longrightarrow> r \<noteq> r1 \<Longrightarrow> residue_test c r = 1"
  using assms by (auto simp: secp_ready_def secp_numbers_def list_all_iff)

text \<open>Euler's criterion, in the direction that the search needs.\<close>

lemma residue_test_no_point:
  assumes p: "prime_mod (modP c)" "modP c mod 4 = 3" and a: "coefA c = 0" and t: "residue_test c x \<notin> {0, 1}"
  shows "\<not> on_curve c x y"
proof
  let ?a = "x * x * x + coefB c" and ?m = "nat ((modP c - 1) div 2)"
  assume "on_curve c x y"
  then have y: "y * y mod modP c = ?a mod modP c" using a by (simp add: on_curve_def)
  have p1: "1 < modP c" using p(1) by (rule prime_mod_gt)
  have e: "2 * ((modP c - 1) div 2) = modP c - 1" using p(2) by presburger
  have m: "2 * ?m = nat (modP c - 1)" using e p1 by linarith
  have "residue_test c x = (y * y) ^ ?m mod modP c"
    unfolding residue_test_def powmod_mod y [symmetric] by (simp add: powmod_def power_mod)
  also have "(y * y) ^ ?m = y ^ nat (modP c - 1)"
    by (simp only: m [symmetric] power_mult power2_eq_square)
  finally have r: "residue_test c x = y ^ nat (modP c - 1) mod modP c" .
  show False
  proof (cases "modP c dvd y")
    case True
    moreover have "0 < nat (modP c - 1)" using p1 by simp
    ultimately have "modP c dvd y ^ nat (modP c - 1)" by (metis dvd_power dvd_trans)
    then show ?thesis using t r by simp
  next
    case False
    then show ?thesis using t r fermat [OF p(1) False] by simp
  qed
qed

section \<open>The cases with a fixed result\<close>

lemma secp_curve_ok: "secp_ok c \<Longrightarrow> Secp.curve_ok c"
  using secp_okD [of c] by (simp add: Secp.curve_ok_def)

definition spec_holds :: "curve \<Rightarrow> int \<times> int \<times> int \<times> nat \<times> (string + int \<times> int) option \<Rightarrow> bool" where
  "spec_holds c q = (case q of (h, r, s, recid, want) \<Rightarrow> want = None \<or> want = Some (recover c h r s recid))"

lemma no_point_case:
  assumes c: "secp_ok c" and r: "0 < r" "r < ordN c" "ordN c \<le> modP c" and s: "0 < s" "s < ordN c" and i: "recid < 2"
    and t: "residue_test c r \<notin> {0, 1}"
  shows "recover c e r s recid = Inl ''xNotSquare''"
proof -
  have x: "recid_x c r recid = r" using i by (simp add: recid_x_def)
  show ?thesis
    using recover_Inl [OF secp_curve_ok [OF c], of r s e recid "''xNotSquare''"] r s
      residue_test_no_point [OF secp_okD(7,3,2) [OF c] t] by (simp add: x)
qed

lemma infinity_case:
  assumes c: "secp_ready c r1 r2"
  shows "recover c 1 (fst (gen c)) 1 0 = Inl ''atInfinity''"
proof -
  note d = secp_readyD [OF c]
  let ?G = "gen c"
  have r: "fst ?G mod ordN c = fst ?G" using d(7,8) by simp
  have "decompress_r c (fst ?G mod ordN c) ((if odd (snd ?G) then 1 else 0) + (if ordN c \<le> fst ?G then 2 else 0)) = Inr ?G"
    by (rule decompress_point [OF d(1) secp_okD(9) [OF d(1)]]) (use d(7) r in simp)
  then have dec: "decompress_r c (fst ?G) 0 = Inr ?G" using d(8,9) by (simp add: r)
  have "times c 1 (Some ?G) = Some ?G" by (rule times_1)
  from recover_multiple [OF d(1) dec this d(7,8), of 1 0 1] d(4) show ?thesis by simp
qed

lemma edge_specs_hold:
  assumes c: "secp_ready c r1 r2"
  shows "list_all (spec_holds c) (edge_specs c)"
proof -
  note d = secp_readyD [OF c]
  have five: "recover c 1 5 1 0 = Inl ''xNotSquare''"
    by (rule no_point_case) (use d in auto)
  have out: "recover c e r 1 recid = Inl ''xOutOfRange''"
    if "0 < r" "r < ordN c" "modP c \<le> r + ordN c" "recid \<in> {2, 3}" for e r recid
  proof -
    have "(recid div 2) mod 2 = 1" using that(4) by auto
    then have "decompress_r c r recid = Inl ''xOutOfRange''" using that(3) by (simp only: decompress_r_def Let_def if_True simp_thms)
    then show ?thesis using that(1,2) d(4) by (simp only: recover_def sum.case) simp
  qed
  have r0: "recover c e r s recid = Inl ''rOutOfRange''" if "r = 0 \<or> ordN c \<le> r" for e r s recid
    using that by (simp add: recover_def)
  have s0: "recover c e r s recid = Inl ''sOutOfRange''" if "0 < r" "r < ordN c" "s = 0 \<or> ordN c \<le> s" for e r s recid
    using that by (simp add: recover_def)
  have "recover c 1 (ordN c - 1) 1 2 = Inl ''xOutOfRange''" "recover c 1 (modP c - ordN c) 1 2 = Inl ''xOutOfRange''"
    "recover c 1 (modP c - ordN c) 1 3 = Inl ''xOutOfRange''"
    by (rule out; use d in simp)+
  moreover have "recover c 1 0 1 0 = Inl ''rOutOfRange''" "recover c 1 (ordN c) 1 0 = Inl ''rOutOfRange''"
    "recover c 1 (ordN c + 1) 1 1 = Inl ''rOutOfRange''" "recover c 1 (2 ^ 256 - 1) 1 0 = Inl ''rOutOfRange''"
    "recover c 1 (modP c - 1) 1 2 = Inl ''rOutOfRange''"
    by (rule r0; use d in simp)+
  moreover have "recover c 1 (fst (gen c)) 0 0 = Inl ''sOutOfRange''" "recover c 1 (fst (gen c)) (ordN c) 0 = Inl ''sOutOfRange''"
    "recover c 1 (fst (gen c)) (2 ^ 256 - 1) 1 = Inl ''sOutOfRange''"
    by (rule s0; use d in simp)+
  ultimately show ?thesis unfolding edge_specs_def list.pred_inject spec_holds_def prod.case using five by simp
qed

section \<open>Entries\<close>

definition sentry_met :: "curve \<Rightarrow> sentry \<Rightarrow> bool" where
  \<comment> \<open>what is wanted is what recovery and the address give\<close>
  "sentry_met c v = (case v of ((h, r, s, recid), want, want_addr) \<Rightarrow>
     (want = None \<or> want = Some (recover c (int (from_be h)) r s recid)) \<and>
     (want_addr = None \<or> Inr want_addr = ecrecover_address c (int (from_be h)) (recid + 27) r s))"

definition sentry_fits :: "sentry \<Rightarrow> bool" where
  "sentry_fits v = (case v of ((h, r, s, recid), want, want_addr) \<Rightarrow> length h = 32 \<and> fits256 r \<and> fits256 s \<and> recid < 256)"

definition spec_fits :: "int \<times> int \<times> int \<times> nat \<times> (string + int \<times> int) option \<Rightarrow> bool" where
  "spec_fits q = (case q of (h, r, s, recid, want) \<Rightarrow> fits256 h \<and> fits256 r \<and> fits256 s \<and> recid < 256)"

lemma spec_case_Inr:
  assumes "spec_holds c q" "spec_fits q"
  shows "\<exists>v. spec_case q = Inr v \<and> sentry_met c v \<and> sentry_fits v"
proof -
  obtain h r s recid want where q: "q = (h, r, s, recid, want)" by (metis prod.exhaust)
  have b: "int_to_be 32 h = Inr (be_fix 32 (nat h))" "int (from_be (be_fix 32 (nat h))) = h"
    using assms(2) int_to_be_ok [of h 32] from_be_int by (auto simp: q spec_fits_def fits256_def)
  then show ?thesis using assms by (simp add: spec_case_def q sentry_met_def sentry_fits_def spec_holds_def spec_fits_def)
qed

lemma spec_cases_Inr:
  assumes "list_all (spec_holds c) qs" "list_all spec_fits qs"
  shows "\<exists>vs. emap spec_case qs = Inr vs \<and> list_all (sentry_met c) vs \<and> list_all sentry_fits vs \<and> length vs = length qs"
  using assms
proof (induction qs)
  case (Cons q qs)
  then obtain vs where "emap spec_case qs = Inr vs \<and> list_all (sentry_met c) vs \<and> list_all sentry_fits vs \<and> length vs = length qs" by auto
  moreover obtain v where "spec_case q = Inr v \<and> sentry_met c v \<and> sentry_fits v" using spec_case_Inr [of c q] Cons.prems by auto
  ultimately show ?case by simp
qed simp

lemma FIXED_Inr:
  assumes c: "secp_ready c r1 r2" and refs: "length refs = 4" "list_all (sentry_met c) refs" "list_all sentry_fits refs"
  shows "\<exists>fs. FIXED c refs = Inr fs \<and> list_all (sentry_met c) fs \<and> list_all sentry_fits fs \<and> length fs = 25"
proof -
  note d = secp_readyD [OF c]
  have inf: "spec_holds c (infinity_spec c)" "spec_fits (infinity_spec c)"
    using infinity_case [OF c] d(3,7,8) by (simp_all add: infinity_spec_def spec_holds_def spec_fits_def fits256_def)
  have fit: "list_all spec_fits (edge_specs c)"
    using d by (simp add: edge_specs_def spec_fits_def fits256_def)
  obtain i where i: "spec_case (infinity_spec c) = Inr i" "sentry_met c i" "sentry_fits i" using spec_case_Inr [OF inf] by blast
  obtain es where es: "emap spec_case (edge_specs c) = Inr es" "list_all (sentry_met c) es" "list_all sentry_fits es" "length es = 20"
    using spec_cases_Inr [OF edge_specs_hold [OF c] fit] by (auto simp: edge_specs_def)
  have "list_all P (take 3 refs)" "list_all P (drop 3 refs)" if "list_all P refs" for P
    using that by (auto simp: list_all_iff dest: in_set_takeD in_set_dropD)
  then show ?thesis using i es refs by (simp add: FIXED_def)
qed

section \<open>The random cases\<close>

definition sdraw_ok :: "curve \<Rightarrow> nat \<Rightarrow> sdraw \<Rightarrow> bool" where
  \<comment> \<open>what the generator can draw in round \<open>i\<close>, with nonces of which one signs\<close>
  "sdraw_ok c i w \<longleftrightarrow> int (sd_d w) < ordN c \<and> length (sd_msg w) = 32 \<and> 1 \<le> sd_above w \<and> sd_above w < 2 ^ 256 - ordN c \<and>
     (\<forall>j. int (sd_ks w j) < ordN c) \<and>
     (\<exists>msg j. sdraw_msg c (i mod 8) w = Inr msg \<and> Secp.sign c (int (sd_d w)) (int (from_be msg) mod ordN c) (sd_ks w j) \<noteq> None)"

lemma secp_sign_range:
  assumes "0 < ordN c" "Secp.sign c d e k = Some (r, s, recid)"
  shows "0 < r" "r < ordN c" "0 < s" "s < ordN c" "recid < 4"
proof -
  from assms(2) obtain t u where "r = t mod ordN c" "s = u mod ordN c" "r \<noteq> 0" "s \<noteq> 0" and i: "recid < 4"
    by (auto simp: Secp.sign_def Let_def split: option.splits if_splits)
  then show "0 < r" "r < ordN c" "0 < s" "s < ordN c" "recid < 4"
    using pos_mod_sign [OF assms(1), of t] pos_mod_sign [OF assms(1), of u] pos_mod_bound [OF assms(1)]
    by (simp_all add: order.strict_iff_order)
qed

lemma secp_random_case_Inr:
  assumes c: "secp_ready c r1 r2" and w: "sdraw_ok c i w"
  shows "\<exists>v. secp_random_case c i w = Some (Inr v) \<and> sentry_met c v \<and> sentry_fits v"
proof -
  note d = secp_readyD [OF c]
  obtain msg j where m: "sdraw_msg c (i mod 8) w = Inr msg"
    and j: "Secp.sign c (int (sd_d w)) (int (from_be msg) mod ordN c) (sd_ks w j) \<noteq> None"
    using w unfolding sdraw_ok_def by blast
  obtain r s recid where u: "secp_sign_until c (int (sd_d w)) (int (from_be msg) mod ordN c) (sd_ks w) = Some (r, s, recid)"
    using first_some_returns [of "\<lambda>j. Secp.sign c (int (sd_d w)) (int (from_be msg) mod ordN c) (sd_ks w j)" 0 j] j
    by (auto simp: secp_sign_until_def)
  obtain k where k: "Secp.sign c (int (sd_d w)) (int (from_be msg) mod ordN c) (sd_ks w k) = Some (r, s, recid)"
    using first_some_result u by (fastforce simp: secp_sign_until_def)
  note rng = secp_sign_range [OF secp_okD(6) [OF d(1)] k]
  have b: "sd_d w < 2 ^ 256" "sd_ks w k < 2 ^ 256"
  proof -
    have "int (sd_d w) < 2 ^ 256" "int (sd_ks w k) < 2 ^ 256" using w d(3) by (auto simp: sdraw_ok_def dest: spec [of _ k])
    then show "sd_d w < 2 ^ 256" "sd_ks w k < 2 ^ 256" by simp_all
  qed
  have rec: "recover c (int (from_be msg)) r s recid = Inr Q" if "Secp.pubkey c (sd_d w) = Some Q" for Q
    by (rule sign_recovered [OF d(1) b(2,1) that k]) simp
  have len: "length msg = 32" using m w by (auto simp: sdraw_msg_def sdraw_ok_def dest: int_to_be_length split: if_splits)
  have x: "recid XOR 1 < 256 \<and> recid OR 2 < 256"
  proof -
    have "recid \<in> {0, 1, 2, 3}" using rng(5) by auto
    then show ?thesis by auto
  qed
  have "fits256 r" "fits256 s" "fits256 (ordN c - s)" using rng d(3) by (auto simp: fits256_def)
  then show ?thesis
    using x rng(5) len rec
    by (cases "Secp.pubkey c (sd_d w)") (auto simp: secp_random_case_def m u Let_def sentry_met_def sentry_fits_def)
qed

lemma secp_random_cases_Inr:
  assumes c: "secp_ready c r1 r2"
  shows "list_all (\<lambda>i. sdraw_ok c i (draws i)) is \<Longrightarrow> \<exists>xs. secp_random_cases c draws is = Some (Inr xs) \<and>
    list_all (sentry_met c) xs \<and> list_all sentry_fits xs \<and> length xs = length is"
proof (induction "is")
  case (Cons i "is")
  then obtain xs where "secp_random_cases c draws is = Some (Inr xs) \<and> list_all (sentry_met c) xs \<and> list_all sentry_fits xs \<and> length xs = length is"
    by auto
  moreover have "sdraw_ok c i (draws i)" using Cons.prems by simp
  then obtain v where "secp_random_case c i (draws i) = Some (Inr v) \<and> sentry_met c v \<and> sentry_fits v"
    using secp_random_case_Inr [OF c] by blast
  ultimately show ?case by simp
qed simp

text \<open>The search returns the first two abscissas that fail the test.\<close>

lemma non_squares_step:
  assumes "\<And>x. r \<le> x \<Longrightarrow> x < z \<Longrightarrow> residue_test c x = 1" "r \<le> z" "found < 2"
  shows "non_squares c r found = non_squares c z found"
proof -
  have "\<And>x. z - int n \<le> x \<Longrightarrow> x < z \<Longrightarrow> residue_test c x = 1" if "n \<le> nat (z - r)" for n
    by (rule assms(1)) (use that assms(2) in auto)
  then have "n \<le> nat (z - r) \<Longrightarrow> non_squares c (z - int n) found = non_squares c z found" for n
  proof (induction n)
    case (Suc n)
    have "residue_test c (z - int (Suc n)) = 1" using Suc.prems(2) [OF Suc.prems(1)] by simp
    then have "non_squares c (z - int (Suc n)) found = non_squares c (z - int (Suc n) + 1) found"
      using assms(3) by (subst non_squares.simps) simp
    also have "z - int (Suc n) + 1 = z - int n" by simp
    also have "non_squares c (z - int n) found = non_squares c z found" using Suc by simp
    finally show ?case .
  qed simp
  from this [of "nat (z - r)"] show ?thesis using assms(2) by simp
qed

lemma non_squares_found:
  assumes c: "secp_ready c r1 r2"
  shows "non_squares c 1 0 = Some [r1, r2]"
proof -
  note d = secp_readyD [OF c]
  have n: "residue_test c r1 \<noteq> 1" "residue_test c r2 \<noteq> 1" using d(14,15) by auto
  have "non_squares c 1 0 = non_squares c r1 0"
    by (rule non_squares_step) (use d(11,12,16) in auto)
  also have "\<dots> = Option.bind (non_squares c (r1 + 1) 1) (\<lambda>rs. Some (r1 # rs))"
    using n by (subst non_squares.simps) simp
  also have "non_squares c (r1 + 1) 1 = non_squares c r2 1"
    by (rule non_squares_step) (use d(11,12,16) in auto)
  also have "\<dots> = Option.bind (non_squares c (r2 + 1) 2) (\<lambda>rs. Some (r2 # rs))"
    using n by (subst non_squares.simps) (simp add: numeral_2_eq_2)
  also have "non_squares c (r2 + 1) 2 = Some []"
    by (subst non_squares.simps) simp
  finally show ?thesis by simp
qed

lemma secp_gen_random_Inr:
  assumes c: "secp_ready c r1 r2" and w: "list_all (\<lambda>i. sdraw_ok c i (draws i)) [1..<n + 1]"
  shows "\<exists>rs. secp_gen_random c draws n = Some (Inr rs) \<and> list_all (sentry_met c) rs \<and> list_all sentry_fits rs \<and> length rs = n + 2"
proof -
  note d = secp_readyD [OF c]
  obtain xs where xs: "secp_random_cases c draws [1..<n + 1] = Some (Inr xs)" "list_all (sentry_met c) xs" "list_all sentry_fits xs" "length xs = n"
    using secp_random_cases_Inr [OF c w] by auto
  let ?q = "\<lambda>found r. (9, r, 3, found, Some (Inl ''xNotSquare''))"
  define qs :: "(int \<times> int \<times> int \<times> nat \<times> (string + int \<times> int) option) list" where "qs = [?q 0 r1, ?q 1 r2]"
  have "list_all (spec_holds c) qs" "list_all spec_fits qs" and len: "length qs = 2"
    using no_point_case [OF d(1), of r1 3 0 9] no_point_case [OF d(1), of r2 3 1 9] d
    by (simp_all add: qs_def spec_holds_def spec_fits_def fits256_def)
  then obtain ys where ys: "emap spec_case qs = Inr ys" "list_all (sentry_met c) ys" "list_all sentry_fits ys" "length ys = 2"
    using spec_cases_Inr [of c qs] by auto
  have "emap (\<lambda>(found, r). spec_case (?q found r)) (enumerate 0 [r1, r2]) = emap spec_case qs" by (simp add: qs_def)
  then show ?thesis using xs ys by (simp add: secp_gen_random_def non_squares_found [OF c] del: emap.simps)
qed

section \<open>The files\<close>

definition recovered_bytes :: "string + int \<times> int \<Rightarrow> bytes option" where
  "recovered_bytes res = (case res of Inl _ \<Rightarrow> None | Inr q \<Rightarrow> Some (be_fix 32 (nat (fst q)) @ be_fix 32 (nat (snd q))))"

definition libs_ok :: "curve \<Rightarrow> secp_libs \<Rightarrow> bool" where
  \<comment> \<open>the libraries, where they are installed, recover public keys\<close>
  "libs_ok c libs \<longleftrightarrow>
     (case sl_recover libs of None \<Rightarrow> True | Some lib \<Rightarrow> (\<forall>h r s recid. 0 \<le> r \<and> r < ordN c \<and> 0 \<le> s \<and> s < ordN c \<and> recid \<le> 3 \<longrightarrow>
        lib (be_fix 32 (nat r) @ be_fix 32 (nat s) @ [word_of_nat recid]) h = recovered_bytes (recover c (int (from_be h)) r s recid))) \<and>
     (case sl_specs libs of None \<Rightarrow> True | Some f \<Rightarrow> (\<forall>h r s recid q. recover c (int (from_be h)) r s recid = Inr q \<longrightarrow>
        Some (f r s recid h) = recovered_bytes (Inr q)))"

lemma secp_params: "secp_ready c r1 r2 \<Longrightarrow> Secp.params_ok c"
proof -
  assume c: "secp_ready c r1 r2"
  note d = secp_readyD [OF c]
  have "valid c (Some (gen c))" by (rule secp_okD(9) [OF d(1)])
  then have "reduced_pt c (Some (gen c))" by (cases "gen c") (simp add: reduced_pt_def)
  then show ?thesis using d by (simp add: params_ok_def)
qed

lemma result_bytes_eq:
  assumes "secp_ready c r1 r2" "0 \<le> r"
  shows "result_bytes (recover c e r s recid) = Inr (recovered_bytes (recover c e r s recid))"
proof (cases "recover c e r s recid")
  case (Inr q)
  note p = secp_params [OF assms(1)]
  have "reduced_pt c (Some q)" using recover_reduced [OF _ assms(2) _ Inr] p by (simp add: params_ok_def)
  then show ?thesis
    using Inr coordinate_bytes [OF p] point_reduced [of c q] by (simp add: result_bytes_def point_bytes_def recovered_bytes_def)
qed (simp add: result_bytes_def recovered_bytes_def)

lemma secp_cross_check_ok:
  assumes c: "secp_ready c r1 r2" and l: "libs_ok c libs" and f: "fits256 r" "fits256 s" "recid < 256"
  shows "secp_cross_check c libs (h, r, s, recid) (recover c (int (from_be h)) r s recid) = Inr ()"
proof (cases "sl_recover libs")
  case (Some lib)
  let ?res = "recover c (int (from_be h)) r s recid" and ?sig = "be_fix 32 (nat r) @ be_fix 32 (nat s) @ [word_of_nat recid]"
  have b: "int_to_be 32 z = Inr (be_fix 32 (nat z))" if "fits256 z" for z
    by (rule int_to_be_ok) (use that in \<open>simp_all add: fits256_def\<close>)
  have i: "byte1 recid = Inr [word_of_nat recid]" using f(3) by (auto simp: byte1_iff)
  show ?thesis
  proof (cases "ordN c \<le> r \<or> ordN c \<le> s \<or> 3 < recid")
    case False
    have lib: "lib ?sig h = recovered_bytes ?res"
      using l False f Some unfolding libs_ok_def by (simp add: fits256_def)
    have spec: "Some (g r s recid h) = recovered_bytes ?res" if "sl_specs libs = Some g" "\<not> isl ?res" for g
      using l that unfolding libs_ok_def by (cases ?res) auto
    show ?thesis
      using False Some spec result_bytes_eq [OF c, of r "int (from_be h)" s recid] f
      by (cases "sl_specs libs") (auto simp: secp_cross_check_def sbind_def b i lib fits256_def)
  qed (auto simp: secp_cross_check_def Some)
qed (simp add: secp_cross_check_def)

lemma secp_case_eq:
  assumes c: "secp_ready c r1 r2" and l: "libs_ok c libs" and v: "sentry_fits v" "sentry_met c v"
  shows "\<exists>i e. secp_case c libs v = Inr (i, e) \<and> case_input (fst v) = Inr i \<and> case_expected c (fst v) = Inr e"
proof -
  obtain h r s recid want addr where vd: "v = ((h, r, s, recid), want, addr)" by (metis prod.exhaust)
  have f: "length h = 32" "fits256 r" "fits256 s" "recid < 256" using v(1) by (simp_all add: vd sentry_fits_def)
  have nn: "0 \<le> r" "r < 2 ^ 256" "0 \<le> s" "s < 2 ^ 256" "recid < 2 ^ 64" using f by (simp_all add: fits256_def)
  have m: "want = None \<or> want = Some (recover c (int (from_be h)) r s recid)"
    "addr = None \<or> Inr addr = ecrecover_address c (int (from_be h)) (recid + 27) r s" using v(2) by (simp_all add: vd sentry_met_def)
  note x = secp_cross_check_ok [OF c l f(2-4), of h]
  obtain i where i: "case_input (h, r, s, recid) = Inr i" using case_input_total [OF f(1) nn] by blast
  obtain e where e: "case_expected c (h, r, s, recid) = Inr e" using case_expected_total [OF secp_params [OF c] nn(1)] by blast
  from e obtain a pr ar where a: "ecrecover_address c (int (from_be h)) (recid + 27) r s = Inr a"
    and pr: "point_record (recover c (int (from_be h)) r s recid) = Inr pr" "address_record a = Inr ar" "e = pr @ ar"
    by (auto simp: case_expected_def Let_def)
  have "secp_case c libs v = Inr (i, e)"
    using m x by (auto simp: secp_case_def vd Let_def sbind_def i a pr)
  then show ?thesis using i e by (simp add: vd)
qed

lemma secp_loop_result:
  assumes c: "secp_ready c r1 r2" and l: "libs_ok c libs"
  shows "list_all sentry_fits vs \<Longrightarrow> list_all (sentry_met c) vs \<Longrightarrow> \<exists>os. secp_loop c libs vs = Inr os \<and>
    emap (\<lambda>cs. ebind (case_input cs) (\<lambda>i. ebind (case_expected c cs) (\<lambda>e. Inr (i, e)))) (map fst vs) = Inr os"
proof (induction vs)
  case (Cons v vs)
  then obtain os where "secp_loop c libs vs = Inr os"
    "emap (\<lambda>cs. ebind (case_input cs) (\<lambda>i. ebind (case_expected c cs) (\<lambda>e. Inr (i, e)))) (map fst vs) = Inr os" by auto
  moreover have "sentry_fits v" "sentry_met c v" using Cons.prems by simp_all
  then obtain i e where "secp_case c libs v = Inr (i, e) \<and> case_input (fst v) = Inr i \<and> case_expected c (fst v) = Inr e"
    using secp_case_eq [OF c l] by blast
  ultimately show ?case by (simp add: sbind_def)
qed simp

lemma secp_write_eq:
  assumes c: "secp_ready c r1 r2" and l: "libs_ok c libs" and v: "list_all sentry_fits vs" "list_all (sentry_met c) vs" "length vs < 2 ^ 50"
  shows "\<exists>i e. secp_write c libs vs = Inr (i, e, length (filter (\<lambda>v. recovered c (fst v)) vs)) \<and> vectors c (map fst vs) = Inr (i, e) \<and>
    length i = 8 + 104 * length vs \<and> length e = 112 * length vs"
proof -
  obtain os where os: "secp_loop c libs vs = Inr os"
    "emap (\<lambda>cs. ebind (case_input cs) (\<lambda>i. ebind (case_expected c cs) (\<lambda>e. Inr (i, e)))) (map fst vs) = Inr os"
    using secp_loop_result [OF c l v(1,2)] by blast
  have "\<forall>(h, r, s, recid) \<in> set (map fst vs). length h = 32 \<and> 0 \<le> r \<and> r < 2 ^ 256 \<and> 0 \<le> s \<and> s < 2 ^ 256 \<and> recid < 2 ^ 64"
    using v(1) by (fastforce simp: list_all_iff sentry_fits_def fits256_def)
  from vectors_total [OF secp_params [OF c] this] v(3) obtain i e where
    ve: "vectors c (map fst vs) = Inr (i, e)" "length i = 8 + 104 * length vs" "length e = 112 * length vs" by auto
  then obtain n where n: "pack_u64 (length (concat (map fst os))) = Inr n"
    and i: "i = n @ concat (map fst os) @ zeros (nat ((- (8 + int (length (concat (map fst os))))) mod 8))" "e = concat (map snd os)"
    by (auto simp: vectors_def os(2) Let_def)
  have "secp_write c libs vs = Inr (i, e, length (filter (\<lambda>v. recovered c (fst v)) vs))"
    unfolding secp_write_def os(1) by (simp only: sbind_def sum.case Let_def n raising.simps i)
  then show ?thesis using ve by blast
qed

definition secp_selected :: "int \<Rightarrow> sentry list \<Rightarrow> sentry list \<Rightarrow> sentry list" where
  "secp_selected count fs rs = py_take count (fs @ rs)"

lemma secp_main_result:
  assumes c: "secp_ready c r1 r2" and l: "libs_ok c libs" and refs: "length refs = 4" "list_all (sentry_met c) refs" "list_all sentry_fits refs"
    and count: "0 \<le> count" "count < 2 ^ 32" and draws: "list_all (\<lambda>i. sdraw_ok c i (draws i)) [1..<nat count - 27 + 1]"
  shows "\<exists>fs rs i e. FIXED c refs = Inr fs \<and> length fs = 25 \<and> (let cs = secp_selected count fs rs in
    length cs = (if count \<le> 27 then min (nat count) 25 else nat count) \<and> list_all (sentry_met c) cs \<and> vectors c (map fst cs) = Inr (i, e) \<and>
    length i = 8 + 104 * length cs \<and> length e = 112 * length cs \<and>
    secp_main c refs libs count draws = Some (Inr (i, e, length (filter (\<lambda>v. recovered c (fst v)) cs))))"
proof -
  obtain fs where fs: "FIXED c refs = Inr fs" "list_all (sentry_met c) fs" "list_all sentry_fits fs" "length fs = 25"
    using FIXED_Inr [OF c refs] by blast
  obtain rs where rs: "(if int (length fs) + 2 < count then secp_gen_random c draws (nat count - length fs - 2) else Some (Inr [])) = Some (Inr rs)"
    "list_all (sentry_met c) rs" "list_all sentry_fits rs" "length rs = (if count \<le> 27 then 0 else nat count - 25)"
  proof (cases "count \<le> 27")
    case True
    then show ?thesis using that [of "[]"] fs(4) by simp
  next
    case False
    then show ?thesis using secp_gen_random_Inr [OF c draws] that fs(4) by auto
  qed
  define cs where "cs = secp_selected count fs rs"
  have sub: "set cs \<subseteq> set (fs @ rs)" using count by (auto simp: cs_def secp_selected_def py_take_def dest: in_set_takeD)
  have len: "length cs = (if count \<le> 27 then min (nat count) 25 else nat count)"
    using count fs(4) rs(4) by (auto simp: cs_def secp_selected_def py_take_def)
  have all: "list_all sentry_fits cs" "list_all (sentry_met c) cs" using sub fs rs by (auto simp: list_all_iff)
  have "length cs < 2 ^ 50" using len count by (auto split: if_splits)
  from secp_write_eq [OF c l all this] obtain i e where
    w: "secp_write c libs cs = Inr (i, e, length (filter (\<lambda>v. recovered c (fst v)) cs))" "vectors c (map fst cs) = Inr (i, e)"
    "length i = 8 + 104 * length cs" "length e = 112 * length cs" by blast
  have "secp_main c refs libs count draws = Some (secp_write c libs cs)"
    unfolding secp_main_def fs(1) sum.case rs(1) option.case by (simp add: cs_def secp_selected_def)
  then show ?thesis
    using w len all(2) fs unfolding cs_def by (intro exI [of _ fs] exI [of _ rs] exI [of _ i] exI [of _ e]) (simp add: Let_def)
qed

section \<open>A small curve\<close>

text \<open>\<open>y\<^sup>2 = x\<^sup>3 + 3\<close> over 19 elements has 13 points.\<close>

definition demo19 :: curve where
  "demo19 = \<lparr>modP = 19, ordN = 13, coefA = 0, coefB = 3, gen = (1, 2)\<rparr>"

lemma demo19_ready: "secp_ready demo19 4 5"
proof -
  have "group_curve demo19"
  proof (rule table_group)
    have "prime_mod 19" "prime_mod 13" by code_simp+
    then show "P256.curve_ok demo19" by (simp add: P256.curve_ok_def demo19_def reduced_def on_curve_def)
    show "P256.scalar_mul demo19 (nat (ordN demo19)) (Some (gen demo19)) = None" by code_simp
    show "table_ok demo19 [None, Some (1, 2), Some (14, 12), Some (11, 2), Some (7, 17), Some (3, 12), Some (2, 12), Some (2, 7), Some (3, 7), Some (7, 2), Some (11, 17), Some (14, 7), Some (1, 17)]" by code_simp
  qed
  then have "secp_ok demo19" by (simp add: secp_ok_def demo19_def)
  moreover have "residue_test demo19 1 = 1" "residue_test demo19 2 = 1" "residue_test demo19 3 = 1"
    "residue_test demo19 4 = 18" "residue_test demo19 5 = 18" by code_simp+
  moreover have "[1..5 - 1] = [1, 2, 3, 4 :: int]" by code_simp
  ultimately show ?thesis unfolding secp_ready_def secp_numbers_def by (simp add: demo19_def)
qed

definition package_libs :: "curve \<Rightarrow> secp_libs" where
  "package_libs c = \<lparr>sl_recover = Some (\<lambda>sig h. recovered_bytes (recover c (int (from_be h)) (int (from_be (take 32 sig)))
       (int (from_be (take 32 (drop 32 sig)))) (unat (sig ! 64)))),
     sl_specs = Some (\<lambda>r s recid h. the (recovered_bytes (recover c (int (from_be h)) r s recid)))\<rparr>"

lemma package_libs_ok: "ordN c \<le> 2 ^ 256 \<Longrightarrow> libs_ok c (package_libs c)"
  by (auto simp: libs_ok_def package_libs_def from_be_be_fix recovered_bytes_def nth_append nat_less_iff)

section \<open>Properties\<close>


definition refs19 :: "sentry list" where
  "refs19 = replicate 4 ((zeros 31 @ [5], 1, 7, 0), Some (Inr (14, 12)), None)"

definition sdraw19 :: sdraw where
  "sdraw19 = \<lparr>sd_d = 6, sd_msg = zeros 31 @ [3], sd_above = 1, sd_ks = (\<lambda>j. j mod 13)\<rparr>"

lemma sdraw19_ok: "sdraw_ok demo19 i sdraw19"
proof -
  have e: "Secp.sign demo19 (int 6) (int (from_be (zeros 32)) mod 13) (2 mod 13) \<noteq> None"
    "Secp.sign demo19 (int 6) (int (from_be (zeros 31 @ [3])) mod 13) (2 mod 13) \<noteq> None"
    "Secp.sign demo19 (int 6) (int (from_be (be_fix 32 14)) mod 13) (2 mod 13) \<noteq> None"
    by code_simp+
  have "int_to_be 32 14 = Inr (be_fix 32 14)" using int_to_be_ok [of 14 32] by simp
  then have "\<exists>msg. sdraw_msg demo19 (i mod 8) sdraw19 = Inr msg \<and> Secp.sign demo19 (int 6) (int (from_be msg) mod 13) (2 mod 13) \<noteq> None"
    using e by (cases "i mod 8 = 7"; cases "i mod 8 = 6") (simp_all add: sdraw_msg_def, simp_all add: sdraw19_def demo19_def)
  then obtain msg where "sdraw_msg demo19 (i mod 8) sdraw19 = Inr msg"
    "Secp.sign demo19 (int (sd_d sdraw19)) (int (from_be msg) mod ordN demo19) (sd_ks sdraw19 2) \<noteq> None"
    by (auto simp: sdraw19_def demo19_def)
  then have "\<exists>msg j. sdraw_msg demo19 (i mod 8) sdraw19 = Inr msg \<and>
      Secp.sign demo19 (int (sd_d sdraw19)) (int (from_be msg) mod ordN demo19) (sd_ks sdraw19 j) \<noteq> None" by blast
  then show ?thesis unfolding sdraw_ok_def by (intro conjI) (simp_all add: sdraw19_def demo19_def)
qed


end
