(* ===== verification/Tower.thy ===== *)
theory Tower
  imports Modular
begin

text \<open>
  The field tower of \<open>tools/blsref.py\<close>: \<open>Fp2 = Fp[u]/(u^2 + 1)\<close>, \<open>Fp6 = Fp2[v]/(v^3 - xi)\<close> and
  \<open>Fp12 = Fp6[w]/(w^2 - v)\<close>, on tuples of Python integers reduced modulo \<open>P\<close> after every
  coordinate.  The first part holds the functions of the file.  The second builds the same rings
  as types: \<open>fp\<close> is the ring of residues, and \<open>fp2\<close>, \<open>fp6\<close>, \<open>fp12\<close> are polynomials multiplied
  schoolbook and reduced by the defining relation, each an instance of \<open>comm_ring_1\<close>.  The maps
  \<open>f2_of\<close>, \<open>f6_of\<close>, \<open>f12_of\<close> are the abstraction; every function of the file is the ring operation
  under them, for all integer tuples, and returns reduced tuples, on which the maps are injective.
\<close>

section \<open>The functions of the file\<close>

definition bls_P :: int where
  "bls_P = 0x1a0111ea397fe69a4b1ba7b6434bacd764774b84f38512bf6730d2a0f6b0f6241eabfffeb153ffffb9feffffffffaaab"

definition fp_inv :: "int \<Rightarrow> int" where
  "fp_inv a = (if a \<noteq> 0 then powmod a (nat (bls_P - 2)) bls_P else 0)"

type_synonym f2 = "int \<times> int"
type_synonym f6 = "f2 \<times> f2 \<times> f2"
type_synonym f12 = "f6 \<times> f6"

definition f2_add :: "f2 \<Rightarrow> f2 \<Rightarrow> f2" where
  "f2_add a b = ((fst a + fst b) mod bls_P, (snd a + snd b) mod bls_P)"

definition f2_sub :: "f2 \<Rightarrow> f2 \<Rightarrow> f2" where
  "f2_sub a b = ((fst a - fst b) mod bls_P, (snd a - snd b) mod bls_P)"

definition f2_neg :: "f2 \<Rightarrow> f2" where
  "f2_neg a = (- fst a mod bls_P, - snd a mod bls_P)"

definition f2_mul :: "f2 \<Rightarrow> f2 \<Rightarrow> f2" where
  "f2_mul a b = ((fst a * fst b - snd a * snd b) mod bls_P, (fst a * snd b + snd a * fst b) mod bls_P)"

definition f2_sqr :: "f2 \<Rightarrow> f2" where
  "f2_sqr a = f2_mul a a"

definition f2_conj :: "f2 \<Rightarrow> f2" where
  "f2_conj a = (fst a, - snd a mod bls_P)"

definition f2_mul_xi :: "f2 \<Rightarrow> f2" where
  "f2_mul_xi a = ((fst a - snd a) mod bls_P, (fst a + snd a) mod bls_P)"

definition f2_scale :: "f2 \<Rightarrow> int \<Rightarrow> f2" where
  "f2_scale a k = (fst a * k mod bls_P, snd a * k mod bls_P)"

definition f2_inv :: "f2 \<Rightarrow> f2" where
  "f2_inv a =
     (let d = fp_inv ((fst a * fst a + snd a * snd a) mod bls_P)
      in (fst a * d mod bls_P, - snd a * d mod bls_P))"

text \<open>The digits of \<open>bin(n)[2:]\<close>, most significant first; \<open>True\<close> is the character \<open>1\<close>.\<close>

fun bits :: "nat \<Rightarrow> bool list" where
  "bits n = (if n < 2 then [n = 1] else bits (n div 2) @ [odd n])"

declare bits.simps [simp del]

definition F2_ZERO :: f2 where "F2_ZERO = (0, 0)"
definition F2_ONE :: f2 where "F2_ONE = (1, 0)"
definition XI :: f2 where "XI = (1, 1)"

definition f2_pow :: "f2 \<Rightarrow> nat \<Rightarrow> f2" where
  "f2_pow a e = foldl (\<lambda>r bit. let r = f2_sqr r in if bit then f2_mul r a else r) F2_ONE (bits e)"

definition f6_add :: "f6 \<Rightarrow> f6 \<Rightarrow> f6" where
  "f6_add a b = (case (a, b) of ((a0, a1, a2), (b0, b1, b2)) \<Rightarrow> (f2_add a0 b0, f2_add a1 b1, f2_add a2 b2))"

definition f6_sub :: "f6 \<Rightarrow> f6 \<Rightarrow> f6" where
  "f6_sub a b = (case (a, b) of ((a0, a1, a2), (b0, b1, b2)) \<Rightarrow> (f2_sub a0 b0, f2_sub a1 b1, f2_sub a2 b2))"

definition f6_neg :: "f6 \<Rightarrow> f6" where
  "f6_neg a = (case a of (a0, a1, a2) \<Rightarrow> (f2_neg a0, f2_neg a1, f2_neg a2))"

definition f6_mul :: "f6 \<Rightarrow> f6 \<Rightarrow> f6" where
  "f6_mul a b =
     (case (a, b) of ((a0, a1, a2), (b0, b1, b2)) \<Rightarrow>
        let c0 = f2_add (f2_mul a0 b0) (f2_mul_xi (f2_add (f2_mul a1 b2) (f2_mul a2 b1)));
            c1 = f2_add (f2_add (f2_mul a0 b1) (f2_mul a1 b0)) (f2_mul_xi (f2_mul a2 b2));
            c2 = f2_add (f2_add (f2_mul a0 b2) (f2_mul a1 b1)) (f2_mul a2 b0)
        in (c0, c1, c2))"

definition f6_mul_v :: "f6 \<Rightarrow> f6" where
  "f6_mul_v a = (case a of (a0, a1, a2) \<Rightarrow> (f2_mul_xi a2, a0, a1))"

definition f6_inv :: "f6 \<Rightarrow> f6" where
  "f6_inv a =
     (case a of (a0, a1, a2) \<Rightarrow>
        let t0 = f2_sub (f2_sqr a0) (f2_mul_xi (f2_mul a1 a2));
            t1 = f2_sub (f2_mul_xi (f2_sqr a2)) (f2_mul a0 a1);
            t2 = f2_sub (f2_sqr a1) (f2_mul a0 a2);
            d = f2_add (f2_mul a0 t0) (f2_mul_xi (f2_add (f2_mul a2 t1) (f2_mul a1 t2)));
            di = f2_inv d
        in (f2_mul t0 di, f2_mul t1 di, f2_mul t2 di))"

definition F6_ZERO :: f6 where "F6_ZERO = (F2_ZERO, F2_ZERO, F2_ZERO)"
definition F6_ONE :: f6 where "F6_ONE = (F2_ONE, F2_ZERO, F2_ZERO)"

definition f12_mul :: "f12 \<Rightarrow> f12 \<Rightarrow> f12" where
  "f12_mul a b =
     (case (a, b) of ((a0, a1), (b0, b1)) \<Rightarrow>
        let t0 = f6_mul a0 b0;
            t1 = f6_mul a1 b1;
            c0 = f6_add t0 (f6_mul_v t1);
            c1 = f6_sub (f6_sub (f6_mul (f6_add a0 a1) (f6_add b0 b1)) t0) t1
        in (c0, c1))"

definition f12_sqr :: "f12 \<Rightarrow> f12" where
  "f12_sqr a = f12_mul a a"

definition f12_conj :: "f12 \<Rightarrow> f12" where
  "f12_conj a = (fst a, f6_neg (snd a))"

definition f12_inv :: "f12 \<Rightarrow> f12" where
  "f12_inv a =
     (case a of (a0, a1) \<Rightarrow>
        let d = f6_inv (f6_sub (f6_mul a0 a0) (f6_mul_v (f6_mul a1 a1)))
        in (f6_mul a0 d, f6_neg (f6_mul a1 d)))"

definition F12_ONE :: f12 where "F12_ONE = (F6_ONE, F6_ZERO)"

definition GAMMA :: "nat \<Rightarrow> f2" where
  \<comment> \<open>the list \<open>GAMMA\<close> of the file, whose entry 0 is \<open>None\<close> and never used\<close>
  "GAMMA k = f2_pow XI (k * nat (bls_P - 1) div 6)"

definition f12_frob :: "f12 \<Rightarrow> f12" where
  "f12_frob a =
     (case a of ((a00, a01, a02), (a10, a11, a12)) \<Rightarrow>
        ((f2_conj a00, f2_mul (f2_conj a01) (GAMMA 2), f2_mul (f2_conj a02) (GAMMA 4)),
         (f2_mul (f2_conj a10) (GAMMA 1), f2_mul (f2_conj a11) (GAMMA 3), f2_mul (f2_conj a12) (GAMMA 5))))"

definition f12_pow :: "f12 \<Rightarrow> nat \<Rightarrow> f12" where
  "f12_pow a e = foldl (\<lambda>r bit. let r = f12_sqr r in if bit then f12_mul r a else r) F12_ONE (bits e)"

section \<open>The rings as types\<close>

lemma bls_P_gt: "2 < bls_P"
  by (simp add: bls_P_def)

typedef fp = "{0..<bls_P}"
  using bls_P_gt by (intro exI [of _ 0]) simp

setup_lifting type_definition_fp

instantiation fp :: comm_ring_1
begin

lift_definition zero_fp :: fp is 0 using bls_P_gt by simp
lift_definition one_fp :: fp is 1 using bls_P_gt by simp
lift_definition plus_fp :: "fp \<Rightarrow> fp \<Rightarrow> fp" is "\<lambda>x y. (x + y) mod bls_P" using bls_P_gt by simp
lift_definition minus_fp :: "fp \<Rightarrow> fp \<Rightarrow> fp" is "\<lambda>x y. (x - y) mod bls_P" using bls_P_gt by simp
lift_definition uminus_fp :: "fp \<Rightarrow> fp" is "\<lambda>x. - x mod bls_P" using bls_P_gt by simp
lift_definition times_fp :: "fp \<Rightarrow> fp \<Rightarrow> fp" is "\<lambda>x y. x * y mod bls_P" using bls_P_gt by simp

instance
proof
  fix a b c :: fp
  show "a * b * c = a * (b * c)" by transfer (simp add: mod_mult_left_eq mod_mult_right_eq mult.assoc)
  show "a * b = b * a" by transfer (simp add: mult.commute)
  show "1 * a = a" by transfer simp
  show "a + b + c = a + (b + c)" by transfer (simp add: mod_add_left_eq mod_add_right_eq add.assoc)
  show "a + b = b + a" by transfer (simp add: add.commute)
  show "0 + a = a" by transfer simp
  show "- a + a = 0" by transfer (simp add: mod_add_left_eq)
  show "a - b = a + - b" by transfer (simp add: mod_add_right_eq)
  show "(a + b) * c = a * c + b * c"
    by transfer (simp add: mod_mult_left_eq mod_add_eq distrib_right)
  show "(0::fp) \<noteq> 1" by transfer simp
qed

end

lift_definition fp_of :: "int \<Rightarrow> fp" is "\<lambda>x. x mod bls_P" using bls_P_gt by simp

lemma fp_of_eq: "fp_of x = fp_of y \<longleftrightarrow> x mod bls_P = y mod bls_P"
  by transfer (rule refl)

named_theorems tower "the functions of the file as ring operations"

lemma fp_of_hom [tower]:
  "fp_of (x + y) = fp_of x + fp_of y" "fp_of (x - y) = fp_of x - fp_of y" "fp_of (x * y) = fp_of x * fp_of y"
  "fp_of (- x) = - fp_of x" "fp_of (x mod bls_P) = fp_of x" "fp_of 0 = 0" "fp_of 1 = 1"
  using bls_P_gt by (transfer; simp add: mod_add_eq mod_diff_eq mod_mult_eq mod_minus_eq)+

datatype fp2 = Fp2 (re: fp) (im: fp)

instantiation fp2 :: comm_ring_1
begin

definition zero_fp2 :: fp2 where "0 = Fp2 0 0"
definition one_fp2 :: fp2 where "1 = Fp2 1 0"
fun plus_fp2 :: "fp2 \<Rightarrow> fp2 \<Rightarrow> fp2" where "Fp2 a b + Fp2 c d = Fp2 (a + c) (b + d)"
fun minus_fp2 :: "fp2 \<Rightarrow> fp2 \<Rightarrow> fp2" where "Fp2 a b - Fp2 c d = Fp2 (a - c) (b - d)"
fun uminus_fp2 :: "fp2 \<Rightarrow> fp2" where "- Fp2 a b = Fp2 (- a) (- b)"
fun times_fp2 :: "fp2 \<Rightarrow> fp2 \<Rightarrow> fp2" where "Fp2 a b * Fp2 c d = Fp2 (a * c - b * d) (a * d + b * c)"

instance
proof
  fix a b c :: fp2
  show "a * b * c = a * (b * c)" by (cases a; cases b; cases c) (simp add: algebra_simps)
  show "a * b = b * a" by (cases a; cases b) (simp add: algebra_simps)
  show "1 * a = a" by (cases a) (simp add: one_fp2_def)
  show "a + b + c = a + (b + c)" by (cases a; cases b; cases c) (simp add: algebra_simps)
  show "a + b = b + a" by (cases a; cases b) (simp add: algebra_simps)
  show "0 + a = a" by (cases a) (simp add: zero_fp2_def)
  show "- a + a = 0" by (cases a) (simp add: zero_fp2_def)
  show "a - b = a + - b" by (cases a; cases b) (simp add: algebra_simps)
  show "(a + b) * c = a * c + b * c" by (cases a; cases b; cases c) (simp add: algebra_simps)
  show "(0::fp2) \<noteq> 1" by (simp add: zero_fp2_def one_fp2_def)
qed

end

definition xi :: fp2 where "xi = Fp2 1 1"

datatype fp6 = Fp6 fp2 fp2 fp2

instantiation fp6 :: comm_ring_1
begin

definition zero_fp6 :: fp6 where "0 = Fp6 0 0 0"
definition one_fp6 :: fp6 where "1 = Fp6 1 0 0"
fun plus_fp6 :: "fp6 \<Rightarrow> fp6 \<Rightarrow> fp6" where "Fp6 a b c + Fp6 x y z = Fp6 (a + x) (b + y) (c + z)"
fun minus_fp6 :: "fp6 \<Rightarrow> fp6 \<Rightarrow> fp6" where "Fp6 a b c - Fp6 x y z = Fp6 (a - x) (b - y) (c - z)"
fun uminus_fp6 :: "fp6 \<Rightarrow> fp6" where "- Fp6 a b c = Fp6 (- a) (- b) (- c)"
fun times_fp6 :: "fp6 \<Rightarrow> fp6 \<Rightarrow> fp6" where
  "Fp6 a b c * Fp6 x y z = Fp6 (a * x + xi * (b * z + c * y)) (a * y + b * x + xi * (c * z)) (a * z + b * y + c * x)"

instance
proof
  fix a b c :: fp6
  show "a * b * c = a * (b * c)" by (cases a; cases b; cases c) (simp add: algebra_simps)
  show "a * b = b * a" by (cases a; cases b) (simp add: algebra_simps)
  show "1 * a = a" by (cases a) (simp add: one_fp6_def)
  show "a + b + c = a + (b + c)" by (cases a; cases b; cases c) (simp add: algebra_simps)
  show "a + b = b + a" by (cases a; cases b) (simp add: algebra_simps)
  show "0 + a = a" by (cases a) (simp add: zero_fp6_def)
  show "- a + a = 0" by (cases a) (simp add: zero_fp6_def)
  show "a - b = a + - b" by (cases a; cases b) (simp add: algebra_simps)
  show "(a + b) * c = a * c + b * c" by (cases a; cases b; cases c) (simp add: algebra_simps)
  show "(0::fp6) \<noteq> 1" by (simp add: zero_fp6_def one_fp6_def)
qed

end

definition v6 :: fp6 where "v6 = Fp6 0 1 0"

datatype fp12 = Fp12 fp6 fp6

instantiation fp12 :: comm_ring_1
begin

definition zero_fp12 :: fp12 where "0 = Fp12 0 0"
definition one_fp12 :: fp12 where "1 = Fp12 1 0"
fun plus_fp12 :: "fp12 \<Rightarrow> fp12 \<Rightarrow> fp12" where "Fp12 a b + Fp12 c d = Fp12 (a + c) (b + d)"
fun minus_fp12 :: "fp12 \<Rightarrow> fp12 \<Rightarrow> fp12" where "Fp12 a b - Fp12 c d = Fp12 (a - c) (b - d)"
fun uminus_fp12 :: "fp12 \<Rightarrow> fp12" where "- Fp12 a b = Fp12 (- a) (- b)"
fun times_fp12 :: "fp12 \<Rightarrow> fp12 \<Rightarrow> fp12" where
  "Fp12 a b * Fp12 c d = Fp12 (a * c + v6 * (b * d)) (a * d + b * c)"

instance
proof
  fix a b c :: fp12
  show "a * b * c = a * (b * c)" by (cases a; cases b; cases c) (simp add: algebra_simps)
  show "a * b = b * a" by (cases a; cases b) (simp add: algebra_simps)
  show "1 * a = a" by (cases a) (simp add: one_fp12_def)
  show "a + b + c = a + (b + c)" by (cases a; cases b; cases c) (simp add: algebra_simps)
  show "a + b = b + a" by (cases a; cases b) (simp add: algebra_simps)
  show "0 + a = a" by (cases a) (simp add: zero_fp12_def)
  show "- a + a = 0" by (cases a) (simp add: zero_fp12_def)
  show "a - b = a + - b" by (cases a; cases b) (simp add: algebra_simps)
  show "(a + b) * c = a * c + b * c" by (cases a; cases b; cases c) (simp add: algebra_simps)
  show "(0::fp12) \<noteq> 1" by (simp add: zero_fp12_def one_fp12_def)
qed

end


section \<open>The functions are the ring operations\<close>

definition f2_of :: "f2 \<Rightarrow> fp2" where "f2_of a = Fp2 (fp_of (fst a)) (fp_of (snd a))"

definition f6_of :: "f6 \<Rightarrow> fp6" where
  "f6_of a = (case a of (a0, a1, a2) \<Rightarrow> Fp6 (f2_of a0) (f2_of a1) (f2_of a2))"

definition f12_of :: "f12 \<Rightarrow> fp12" where "f12_of a = Fp12 (f6_of (fst a)) (f6_of (snd a))"

definition fp_ok :: "int \<Rightarrow> bool" where "fp_ok x \<longleftrightarrow> 0 \<le> x \<and> x < bls_P"
definition f2_ok :: "f2 \<Rightarrow> bool" where "f2_ok a \<longleftrightarrow> fp_ok (fst a) \<and> fp_ok (snd a)"
definition f6_ok :: "f6 \<Rightarrow> bool" where "f6_ok a = (case a of (a0, a1, a2) \<Rightarrow> f2_ok a0 \<and> f2_ok a1 \<and> f2_ok a2)"
definition f12_ok :: "f12 \<Rightarrow> bool" where "f12_ok a \<longleftrightarrow> f6_ok (fst a) \<and> f6_ok (snd a)"

lemma fp_ok_mod [simp, intro]: "fp_ok (x mod bls_P)" "fp_ok 0" "fp_ok 1"
  using bls_P_gt by (simp_all add: fp_ok_def)

lemma fp_of_inj: "fp_ok x \<Longrightarrow> fp_ok y \<Longrightarrow> fp_of x = fp_of y \<longleftrightarrow> x = y"
  by (simp add: fp_of_eq fp_ok_def)

lemma f2_of_inj: "f2_ok a \<Longrightarrow> f2_ok b \<Longrightarrow> f2_of a = f2_of b \<longleftrightarrow> a = b"
  by (cases a; cases b) (simp add: f2_of_def f2_ok_def fp_of_inj)

lemma f6_of_inj: "f6_ok a \<Longrightarrow> f6_ok b \<Longrightarrow> f6_of a = f6_of b \<longleftrightarrow> a = b"
  by (cases a; cases b) (simp add: f6_of_def f6_ok_def f2_of_inj)

lemma f12_of_inj: "f12_ok a \<Longrightarrow> f12_ok b \<Longrightarrow> f12_of a = f12_of b \<longleftrightarrow> a = b"
  by (cases a; cases b) (simp add: f12_of_def f12_ok_def f6_of_inj)

fun conj2 :: "fp2 \<Rightarrow> fp2" where "conj2 (Fp2 a b) = Fp2 a (- b)"
fun norm2 :: "fp2 \<Rightarrow> fp" where "norm2 (Fp2 a b) = a * a + b * b"
fun conj12 :: "fp12 \<Rightarrow> fp12" where "conj12 (Fp12 a b) = Fp12 a (- b)"

lemma f2_hom [tower]:
  "f2_of (f2_add a b) = f2_of a + f2_of b" "f2_of (f2_sub a b) = f2_of a - f2_of b"
  "f2_of (f2_neg a) = - f2_of a" "f2_of (f2_mul a b) = f2_of a * f2_of b"
  "f2_of (f2_sqr a) = f2_of a * f2_of a" "f2_of (f2_conj a) = conj2 (f2_of a)"
  "f2_of (f2_mul_xi a) = xi * f2_of a" "f2_of F2_ZERO = 0" "f2_of F2_ONE = 1" "f2_of XI = xi"
  "f2_of (f2_scale a k) = f2_of (k, 0) * f2_of a"
proof -
  show mul: "f2_of (f2_mul a b) = f2_of a * f2_of b" for a b
    by (simp add: f2_of_def f2_mul_def fp_of_hom algebra_simps)
  show "f2_of (f2_sqr a) = f2_of a * f2_of a" by (simp add: f2_sqr_def mul)
qed (simp_all add: f2_of_def f2_add_def f2_sub_def f2_neg_def f2_conj_def f2_mul_xi_def f2_scale_def
      F2_ZERO_def F2_ONE_def XI_def xi_def zero_fp2_def one_fp2_def fp_of_hom algebra_simps)

lemma f6_simps [simp]:
  "f6_of (a0, a1, a2) = Fp6 (f2_of a0) (f2_of a1) (f2_of a2)" "f6_ok (a0, a1, a2) \<longleftrightarrow> f2_ok a0 \<and> f2_ok a1 \<and> f2_ok a2"
  "f6_add (a0, a1, a2) (b0, b1, b2) = (f2_add a0 b0, f2_add a1 b1, f2_add a2 b2)"
  "f6_sub (a0, a1, a2) (b0, b1, b2) = (f2_sub a0 b0, f2_sub a1 b1, f2_sub a2 b2)"
  "f6_neg (a0, a1, a2) = (f2_neg a0, f2_neg a1, f2_neg a2)"
  "f6_mul_v (a0, a1, a2) = (f2_mul_xi a2, a0, a1)"
  by (simp_all add: f6_of_def f6_ok_def f6_add_def f6_sub_def f6_neg_def f6_mul_v_def)

lemma f12_simps [simp]:
  "f12_of (a0, a1) = Fp12 (f6_of a0) (f6_of a1)" "f12_ok (a0, a1) \<longleftrightarrow> f6_ok a0 \<and> f6_ok a1"
  by (simp_all add: f12_of_def f12_ok_def)

lemma f6_hom [tower]:
  "f6_of (f6_add a b) = f6_of a + f6_of b" "f6_of (f6_sub a b) = f6_of a - f6_of b"
  "f6_of (f6_neg a) = - f6_of a" "f6_of (f6_mul a b) = f6_of a * f6_of b"
  "f6_of (f6_mul_v a) = v6 * f6_of a" "f6_of F6_ZERO = 0" "f6_of F6_ONE = 1"
  by (cases a rule: prod_cases3; cases b rule: prod_cases3;
      simp only: f6_mul_def F6_ZERO_def F6_ONE_def zero_fp6_def one_fp6_def v6_def f2_hom f6_simps prod.case Let_def
        plus_fp6.simps minus_fp6.simps uminus_fp6.simps times_fp6.simps mult_zero_left mult_zero_right add_0_left add_0_right mult_1_left; fail)+

lemma f12_hom [tower]:
  "f12_of (f12_mul a b) = f12_of a * f12_of b" "f12_of (f12_sqr a) = f12_of a * f12_of a"
  "f12_of (f12_conj a) = conj12 (f12_of a)" "f12_of F12_ONE = 1"
proof -
  show mul: "f12_of (f12_mul a b) = f12_of a * f12_of b" for a b
    by (cases a; cases b) (simp add: f12_mul_def f6_hom Let_def, simp add: algebra_simps)
  show "f12_of (f12_sqr a) = f12_of a * f12_of a" by (simp add: f12_sqr_def mul)
  show "f12_of (f12_conj a) = conj12 (f12_of a)" by (simp add: f12_of_def f12_conj_def f6_hom)
  show "f12_of F12_ONE = 1" by (simp add: F12_ONE_def one_fp12_def f6_hom)
qed

lemma f2_ok_ops [simp, intro]:
  "f2_ok (f2_add a b)" "f2_ok (f2_sub a b)" "f2_ok (f2_neg a)" "f2_ok (f2_mul a b)" "f2_ok (f2_sqr a)"
  "f2_ok (f2_mul_xi a)" "f2_ok (f2_scale a k)" "f2_ok (f2_inv a)" "f2_ok F2_ZERO" "f2_ok F2_ONE"
  "f2_ok a \<Longrightarrow> f2_ok (f2_conj a)"
  by (simp_all add: f2_ok_def f2_add_def f2_sub_def f2_neg_def f2_mul_def f2_sqr_def f2_mul_xi_def f2_scale_def
      f2_inv_def F2_ZERO_def F2_ONE_def f2_conj_def Let_def)

lemma f6_ok_ops [simp, intro]:
  "f6_ok (f6_add a b)" "f6_ok (f6_sub a b)" "f6_ok (f6_neg a)" "f6_ok (f6_mul a b)" "f6_ok (f6_inv a)"
  "f6_ok F6_ZERO" "f6_ok F6_ONE" "f6_ok a \<Longrightarrow> f6_ok (f6_mul_v a)"
  by (cases a rule: prod_cases3; cases b rule: prod_cases3;
      simp only: f6_simps f6_mul_def f6_inv_def F6_ZERO_def F6_ONE_def Let_def prod.case f2_ok_ops; fail)+

lemma f12_ok_ops [simp, intro]:
  "f12_ok (f12_mul a b)" "f12_ok (f12_sqr a)" "f12_ok (f12_inv a)" "f12_ok F12_ONE"
  "f12_ok a \<Longrightarrow> f12_ok (f12_conj a)" "f12_ok a \<Longrightarrow> f12_ok (f12_frob a)"
proof -
  show mul: "f12_ok (f12_mul a b)" for a b by (simp add: f12_mul_def Let_def split: prod.split)
  show "f12_ok (f12_sqr a)" by (simp add: f12_sqr_def mul)
  show "f12_ok (f12_inv a)" by (simp add: f12_inv_def Let_def split: prod.split)
  show "f12_ok F12_ONE" by (simp add: F12_ONE_def)
  show "f12_ok a \<Longrightarrow> f12_ok (f12_conj a)" by (cases a) (simp add: f12_conj_def)
  show "f12_ok a \<Longrightarrow> f12_ok (f12_frob a)"
    by (cases "fst a" rule: prod_cases3; cases "snd a" rule: prod_cases3; cases a) (simp add: f12_frob_def)
qed

section \<open>Powers, inverses, conjugates\<close>

lemma foldl_hom: "(\<And>r b. h (f r b) = g (h r) b) \<Longrightarrow> h (foldl f s xs) = foldl g (h s) xs"
  by (induction xs arbitrary: s) simp_all

lemma pow_loop: "foldl (\<lambda>r b. if b then r * r * a else r * r) 1 (bits e) = a ^ e" for a :: "'a::comm_monoid_mult"
proof (induction e rule: bits.induct)
  case (1 n)
  show ?case
  proof (cases "n < 2")
    case True
    then show ?thesis by (subst bits.simps) (auto simp: less_2_cases_iff)
  next
    case False
    let ?h = "a ^ (n div 2)"
    have "foldl (\<lambda>r b. if b then r * r * a else r * r) 1 (bits n) = (if odd n then ?h * ?h * a else ?h * ?h)"
      by (subst bits.simps) (simp add: False 1)
    also have "\<dots> = a ^ (n div 2 + n div 2 + n mod 2)" by (simp add: power_add odd_iff_mod_2_eq_one)
    also have "n div 2 + n div 2 + n mod 2 = n" by presburger
    finally show ?thesis .
  qed
qed

lemma f2_pow_hom [tower]: "f2_of (f2_pow a e) = f2_of a ^ e"
  unfolding f2_pow_def pow_loop [symmetric]
  by (subst foldl_hom [where h = f2_of and g = "\<lambda>r b. if b then r * r * f2_of a else r * r"])
    (simp_all add: f2_hom Let_def)

lemma f12_pow_hom [tower]: "f12_of (f12_pow a e) = f12_of a ^ e"
  unfolding f12_pow_def pow_loop [symmetric]
  by (subst foldl_hom [where h = f12_of and g = "\<lambda>r b. if b then r * r * f12_of a else r * r"])
    (simp_all add: f12_hom Let_def)

lemma foldl_ok: "(\<And>r b. Q (f r b)) \<Longrightarrow> Q s \<Longrightarrow> Q (foldl f s xs)"
  by (induction xs arbitrary: s) simp_all

lemma pow_ok [simp, intro]: "f2_ok (f2_pow a e)" "f12_ok (f12_pow b e)"
  unfolding f2_pow_def f12_pow_def by (rule foldl_ok; simp add: Let_def)+

lemma fp_of_power: "fp_of (x ^ n) = fp_of x ^ n"
  by (induction n) (simp_all add: fp_of_hom)

lemma fp_inv_hom [tower]: "fp_of (fp_inv a) = fp_of a ^ nat (bls_P - 2)"
  using bls_P_gt by (simp add: fp_inv_def powmod_def fp_of_hom fp_of_power power_0_left)

definition emb2 :: "fp \<Rightarrow> fp2" where "emb2 x = Fp2 x 0"
definition emb6 :: "fp2 \<Rightarrow> fp6" where "emb6 x = Fp6 x 0 0"
definition emb12 :: "fp6 \<Rightarrow> fp12" where "emb12 x = Fp12 x 0"

text \<open>The norms down the tower, each a product of conjugates.\<close>

fun norm6 :: "fp6 \<Rightarrow> fp2" where
  "norm6 (Fp6 a b c) = a * a * a + xi * (b * b * b) + xi * xi * (c * c * c) - xi * (a * b * c + a * b * c + a * b * c)"
fun norm12 :: "fp12 \<Rightarrow> fp6" where "norm12 (Fp12 a b) = a * a - v6 * (b * b)"

definition norm_fp :: "fp12 \<Rightarrow> fp" where "norm_fp f = norm2 (norm6 (norm12 f))"

lemma norm_mult:
  "norm2 (a * b) = norm2 a * norm2 b" "norm6 (x * y) = norm6 x * norm6 y" "norm12 (f * g) = norm12 f * norm12 g"
  "norm_fp (f * g) = norm_fp f * norm_fp g"
proof -
  show 2: "norm2 (a * b) = norm2 a * norm2 b" for a b by (cases a; cases b) (simp add: algebra_simps)
  show 6: "norm6 (x * y) = norm6 x * norm6 y" for x y by (cases x; cases y) (simp add: algebra_simps)
  show 12: "norm12 (f * g) = norm12 f * norm12 g" for f g by (cases f; cases g) (simp add: algebra_simps)
  show "norm_fp (f * g) = norm_fp f * norm_fp g" by (simp add: norm_fp_def 2 6 12)
qed

lemma f2_inv_hom: "f2_of (f2_inv a) = conj2 (f2_of a) * emb2 (norm2 (f2_of a) ^ nat (bls_P - 2))"
  by (simp add: f2_inv_def f2_of_def emb2_def fp_of_hom fp_inv_hom Let_def)

lemma mult_conj2: "x * conj2 x = emb2 (norm2 x)"
  by (cases x) (simp add: emb2_def algebra_simps)

lemma emb_mult: "emb2 x * emb2 y = emb2 (x * y)" "emb6 a * emb6 b = emb6 (a * b)" "emb12 c * emb12 d = emb12 (c * d)"
  by (simp_all add: emb2_def emb6_def emb12_def)

lemma f2_mult_inv: "f2_of a * f2_of (f2_inv a) = emb2 (norm2 (f2_of a) ^ nat (bls_P - 1))"
proof -
  have "nat (bls_P - 1) = Suc (nat (bls_P - 2))" using bls_P_gt by simp
  then show ?thesis by (simp add: f2_inv_hom mult_conj2 emb_mult flip: mult.assoc)
qed

lemma f6_mult_inv: "f6_of a * f6_of (f6_inv a) = emb6 (emb2 (norm2 (norm6 (f6_of a)) ^ nat (bls_P - 1)))"
proof (cases a rule: prod_cases3)
  case (fields a0 a1 a2)
  let ?t0 = "f2_sub (f2_sqr a0) (f2_mul_xi (f2_mul a1 a2))"
  let ?t1 = "f2_sub (f2_mul_xi (f2_sqr a2)) (f2_mul a0 a1)"
  let ?t2 = "f2_sub (f2_sqr a1) (f2_mul a0 a2)"
  define d where "d = f2_add (f2_mul a0 ?t0) (f2_mul_xi (f2_add (f2_mul a2 ?t1) (f2_mul a1 ?t2)))"
  have d: "f2_of d = norm6 (f6_of a)" by (simp add: d_def fields f2_hom algebra_simps)
  have "f6_of (f6_inv a) = f6_of (?t0, ?t1, ?t2) * emb6 (f2_of (f2_inv d))"
    by (simp add: fields f6_inv_def d_def Let_def f2_hom emb6_def)
  moreover have "f6_of a * f6_of (?t0, ?t1, ?t2) = emb6 (f2_of d)"
    by (simp add: fields d emb6_def f2_hom algebra_simps)
  ultimately have "f6_of a * f6_of (f6_inv a) = emb6 (f2_of d * f2_of (f2_inv d))"
    by (simp only: emb_mult flip: mult.assoc)
  then show ?thesis by (simp only: f2_mult_inv) (simp only: d)
qed

lemma f12_mult_inv: "f12_of a * f12_of (f12_inv a) = emb12 (emb6 (emb2 (norm_fp (f12_of a) ^ nat (bls_P - 1))))"
proof -
  obtain a0 a1 where Pair: "a = (a0, a1)" by (rule prod.exhaust)
  define n where "n = f6_sub (f6_mul a0 a0) (f6_mul_v (f6_mul a1 a1))"
  have n: "f6_of n = norm12 (f12_of a)" by (simp add: n_def Pair f6_hom)
  have "f12_of (f12_inv a) = conj12 (f12_of a) * emb12 (f6_of (f6_inv n))"
    by (simp add: Pair f12_inv_def n_def [symmetric] f6_hom emb12_def Let_def)
  moreover have "f12_of a * conj12 (f12_of a) = emb12 (f6_of n)"
    by (simp add: Pair n emb12_def algebra_simps)
  ultimately have "f12_of a * f12_of (f12_inv a) = emb12 (f6_of n * f6_of (f6_inv n))"
    by (simp only: emb_mult flip: mult.assoc)
  then show ?thesis by (simp only: f6_mult_inv) (simp only: n norm_fp_def)
qed

section \<open>The Frobenius map and conjugation\<close>

fun frob12 :: "fp12 \<Rightarrow> fp12" where
  "frob12 (Fp12 (Fp6 a b c) (Fp6 x y z)) =
     (let g = f2_of (GAMMA 1) in
      Fp12 (Fp6 (conj2 a) (conj2 b * g ^ 2) (conj2 c * g ^ 4)) (Fp6 (conj2 x * g) (conj2 y * g ^ 3) (conj2 z * g ^ 5)))"

lemma GAMMA_power: "f2_of (GAMMA k) = f2_of (GAMMA 1) ^ k"
proof -
  have "nat (bls_P - 1) = 6 * (nat (bls_P - 1) div 6)" by (simp add: bls_P_def)
  then have "k * nat (bls_P - 1) div 6 = nat (bls_P - 1) div 6 * k" by (metis mult.left_commute mult.commute nonzero_mult_div_cancel_left zero_neq_numeral)
  then show ?thesis by (simp only: GAMMA_def f2_pow_hom power_mult mult_1)
qed

lemma f12_frob_hom [tower]: "f12_of (f12_frob a) = frob12 (f12_of a)"
proof -
  obtain a00 a01 a02 a10 a11 a12 where a: "a = ((a00, a01, a02), (a10, a11, a12))" by (metis prod.exhaust)
  show ?thesis by (simp add: a f12_frob_def f2_hom GAMMA_power [of 2] GAMMA_power [of 3] GAMMA_power [of 4] GAMMA_power [of 5] Let_def)
qed

lemma conj12_mult: "conj12 (f * g) = conj12 f * conj12 g"
  by (cases f; cases g) (simp add: algebra_simps)

lemma conj12_one [simp]: "conj12 1 = 1"
  by (simp add: one_fp12_def)

lemma conj12_power: "conj12 (f ^ n) = conj12 f ^ n"
  by (induction n) (simp_all add: conj12_mult)

lemma conj2_hom: "conj2 (a + b) = conj2 a + conj2 b" "conj2 (- a) = - conj2 a" "conj2 (a * b) = conj2 a * conj2 b"
  by (cases a; cases b; simp add: algebra_simps)+

lemma conj2_01 [simp]: "conj2 0 = 0" "conj2 1 = 1"
  by (simp_all add: zero_fp2_def one_fp2_def)

lemma frob12_one: "frob12 1 = 1"
  by (simp add: one_fp12_def one_fp6_def zero_fp6_def Let_def)

lemma GAMMA_ok [simp]: "f2_ok (GAMMA k)"
  by (simp add: GAMMA_def)

lemma f2_ok_XI: "f2_ok XI"
  using bls_P_gt by (simp add: f2_ok_def fp_ok_def XI_def)

lemma xi_power: "f2_of (GAMMA 1) ^ 6 = xi ^ nat (bls_P - 1)"
proof -
  have "nat (bls_P - 1) = 6 * (nat (bls_P - 1) div 6)" by (simp add: bls_P_def)
  then show ?thesis by (simp only: GAMMA_def f2_pow_hom f2_hom mult_1) (metis power_mult mult.commute)
qed

lemma fp_of_surj: "\<exists>x. fp_of x = y"
  by transfer (metis atLeastLessThan_iff mod_pos_pos_trivial)

lemma f2_of_surj: "\<exists>x. f2_of x = y"
  using fp_of_surj by (cases y) (metis f2_of_def fst_conv snd_conv)

lemma f6_of_surj: "\<exists>x. f6_of x = y"
  using f2_of_surj by (cases y) (metis f6_simps(1))

lemma f12_of_surj: "\<exists>x. f12_of x = y"
  using f6_of_surj by (cases y) (metis f12_simps(1))

lemma frob_conj: "frob12 (conj12 f) = conj12 (frob12 f)"
proof -
  obtain a b c x y z where f: "f = Fp12 (Fp6 a b c) (Fp6 x y z)" by (metis fp12.exhaust fp6.exhaust)
  show ?thesis by (simp add: f conj2_hom Let_def)
qed

lemma frob_mult_iff:
  "(\<forall>f g. frob12 (f * g) = frob12 f * frob12 g) \<longleftrightarrow> f2_of (GAMMA 1) ^ 6 * xi = conj2 xi"
proof
  assume hom: "\<forall>f g. frob12 (f * g) = frob12 f * frob12 g"
  let ?v = "Fp12 v6 0" and ?w = "Fp12 (Fp6 0 0 1) 0"
  have "frob12 (?v * ?w) = frob12 ?v * frob12 ?w" using hom by blast
  then show "f2_of (GAMMA 1) ^ 6 * xi = conj2 xi"
    by (simp add: v6_def zero_fp6_def Let_def mult.commute flip: power_add)
next
  assume g: "f2_of (GAMMA 1) ^ 6 * xi = conj2 xi"
  define h where "h = f2_of (GAMMA 1)"
  have h: "f2_of (GAMMA (Suc 0)) = h" by (simp add: h_def)
  have c: "conj2 xi = h * h * h * h * h * h * xi" using g by (simp add: h_def eval_nat_numeral mult.assoc)
  show "\<forall>f g. frob12 (f * g) = frob12 f * frob12 g"
  proof (intro allI)
    fix f g :: fp12
    obtain a b c x y z where f: "f = Fp12 (Fp6 a b c) (Fp6 x y z)" by (metis fp12.exhaust fp6.exhaust)
    obtain a' b' c' x' y' z' where g: "g = Fp12 (Fp6 a' b' c') (Fp6 x' y' z')" by (metis fp12.exhaust fp6.exhaust)
    show "frob12 (f * g) = frob12 f * frob12 g"
      by (simp add: f g v6_def conj2_hom c Let_def eval_nat_numeral h) (simp add: algebra_simps)
  qed
qed

section \<open>The properties of the tower\<close>

text \<open>C19: \<open>f12_mul\<close>, a Karatsuba product of Karatsuba-free cubic products with every coordinate
  reduced, is the multiplication of \<open>Fp[u]/(u^2+1)[v]/(v^3-(1+u))[w]/(w^2-v)\<close>: it returns reduced
  coordinates for all integers, is the schoolbook product under the abstraction, which determines a
  reduced tuple, and so it is associative, commutative and has the unit \<open>F12_ONE\<close>.\<close>

theorem f12_mul_refines:
  "f12_of (f12_mul a b) = f12_of a * f12_of b \<and> f12_ok (f12_mul a b) \<and>
   inj_on f12_of {x. f12_ok x} \<and>
   f12_mul (f12_mul a b) c = f12_mul a (f12_mul b c) \<and> f12_mul a b = f12_mul b a \<and>
   f12_mul (f12_mul F12_ONE a) b = f12_mul a b"
proof (intro conjI)
  show "inj_on f12_of {x. f12_ok x}" by (rule inj_onI) (simp add: f12_of_inj)
  show "f12_mul (f12_mul a b) c = f12_mul a (f12_mul b c)" "f12_mul a b = f12_mul b a"
    "f12_mul (f12_mul F12_ONE a) b = f12_mul a b"
    by (simp_all add: f12_hom ac_simps flip: f12_of_inj)
qed (simp_all add: f12_hom)

text \<open>The two square-and-multiply loops compute powers for every exponent, 0 included, and return
  reduced coordinates; exponents add and multiply as they should.\<close>

theorem pow_refines:
  "f2_of (f2_pow x e) = f2_of x ^ e \<and> f12_of (f12_pow a e) = f12_of a ^ e \<and> f12_ok (f12_pow a e) \<and>
   f12_pow a (m + n) = f12_mul (f12_pow a m) (f12_pow a n) \<and>
   f12_pow a (m * n) = f12_pow (f12_pow a m) n \<and>
   f12_pow (f12_mul a b) n = f12_mul (f12_pow a n) (f12_pow b n)"
proof -
  have "f12_pow a (m + n) = f12_mul (f12_pow a m) (f12_pow a n)" "f12_pow a (m * n) = f12_pow (f12_pow a m) n"
    "f12_pow (f12_mul a b) n = f12_mul (f12_pow a n) (f12_pow b n)"
    by (simp_all add: f12_pow_hom f12_hom power_add power_mult power_mult_distrib flip: f12_of_inj)
  then show ?thesis by (simp add: f2_pow_hom f12_pow_hom)
qed

text \<open>Inversion down the tower.  The product of an element with its \<open>f12_inv\<close> is the scalar
  \<open>n^(P-1)\<close>, where \<open>n\<close> is the norm to \<open>Fp\<close>, multiplicative in the element; the same holds for
  \<open>f6_inv\<close> and \<open>f2_inv\<close> with their norms.  So the inverse is right wherever Fermat's theorem
  gives 1, and of a non-invertible element it is an annihilated product, never an exception.\<close>

theorem f12_inv_norm:
  "f12_of a * f12_of (f12_inv a) = emb12 (emb6 (emb2 (norm_fp (f12_of a) ^ nat (bls_P - 1)))) \<and>
   f6_of b * f6_of (f6_inv b) = emb6 (emb2 (norm2 (norm6 (f6_of b)) ^ nat (bls_P - 1))) \<and>
   f2_of c * f2_of (f2_inv c) = emb2 (norm2 (f2_of c) ^ nat (bls_P - 1)) \<and>
   norm_fp (f12_of (f12_mul a a')) = norm_fp (f12_of a) * norm_fp (f12_of a') \<and> f12_ok (f12_inv a)"
  by (simp add: f12_mult_inv f6_mult_inv f2_mult_inv f12_hom norm_mult)

text \<open>\<open>f12_frob\<close> with its table of constants commutes with conjugation, keeps the unit, and is
  multiplicative exactly when \<open>XI^P\<close> is the conjugate of \<open>XI\<close>; the five constants are the powers
  of the first.\<close>

theorem f12_frob_laws:
  "f12_frob F12_ONE = F12_ONE \<and> f12_of (f12_frob (f12_conj a)) = f12_of (f12_conj (f12_frob a)) \<and>
   GAMMA (Suc k) = f2_pow (GAMMA 1) (Suc k) \<and>
   ((\<forall>a b. f12_frob (f12_mul a b) = f12_mul (f12_frob a) (f12_frob b)) \<longleftrightarrow>
     f2_mul (f2_pow XI (nat (bls_P - 1))) XI = f2_conj XI)"
proof (intro conjI)
  show "f12_frob F12_ONE = F12_ONE" by (simp add: f12_frob_hom f12_hom frob12_one flip: f12_of_inj)
  show "f12_of (f12_frob (f12_conj a)) = f12_of (f12_conj (f12_frob a))" by (simp add: f12_frob_hom f12_hom frob_conj)
  show "GAMMA (Suc k) = f2_pow (GAMMA 1) (Suc k)"
    by (simp only: GAMMA_ok pow_ok f2_pow_hom GAMMA_power [of "Suc k"] flip: f2_of_inj)
  have "(\<forall>a b. f12_frob (f12_mul a b) = f12_mul (f12_frob a) (f12_frob b)) \<longleftrightarrow>
      (\<forall>a b. frob12 (f12_of a * f12_of b) = frob12 (f12_of a) * frob12 (f12_of b))"
    by (simp add: f12_frob_hom f12_hom flip: f12_of_inj)
  also have "\<dots> \<longleftrightarrow> (\<forall>f g. frob12 (f * g) = frob12 f * frob12 g)" by (metis f12_of_surj)
  also have "\<dots> \<longleftrightarrow> f2_mul (f2_pow XI (nat (bls_P - 1))) XI = f2_conj XI"
    by (simp add: frob_mult_iff xi_power [simplified] f2_hom f2_ok_XI f2_pow_hom flip: f2_of_inj)
  finally show "(\<forall>a b. f12_frob (f12_mul a b) = f12_mul (f12_frob a) (f12_frob b)) \<longleftrightarrow>
     f2_mul (f2_pow XI (nat (bls_P - 1))) XI = f2_conj XI" .
qed

end
