(* ===== verification/BlsCurve.thy ===== *)
theory BlsCurve
  imports Tower
begin

text \<open>
  The group law of \<open>tools/blsref.py\<close>: one projective implementation, generic over a record of field
  operations, serves \<open>G1\<close> over \<open>Fp\<close> and \<open>G2\<close> over \<open>Fp2\<close>.  The locale \<open>ring_fld\<close> is what the
  implementation needs of the record: a map to a commutative ring under which the operations are
  the ring's, and an equality test that is equality under the map.  The lemmas are proved in it
  and interpreted for both records of the file.  They are polynomial identities, so none needs
  \<open>P\<close> to be prime.
\<close>

section \<open>The functions of the file\<close>

record 'a fld =
  f_one :: 'a
  f_zero :: 'a
  f_add :: "'a \<Rightarrow> 'a \<Rightarrow> 'a"
  f_sub :: "'a \<Rightarrow> 'a \<Rightarrow> 'a"
  f_mul :: "'a \<Rightarrow> 'a \<Rightarrow> 'a"
  f_neg :: "'a \<Rightarrow> 'a"
  f_eq :: "'a \<Rightarrow> 'a \<Rightarrow> bool"

primrec smul :: "'a fld \<Rightarrow> nat \<Rightarrow> 'a \<Rightarrow> 'a" where
  "smul F 0 a = f_zero F"
| "smul F (Suc k) a = f_add F (smul F k a) a"

definition F1 :: "int fld" where
  "F1 = \<lparr>f_one = 1, f_zero = 0, f_add = (\<lambda>a b. (a + b) mod bls_P), f_sub = (\<lambda>a b. (a - b) mod bls_P),
         f_mul = (\<lambda>a b. a * b mod bls_P), f_neg = (\<lambda>a. - a mod bls_P), f_eq = (=)\<rparr>"

definition F2 :: "f2 fld" where
  "F2 = \<lparr>f_one = F2_ONE, f_zero = F2_ZERO, f_add = f2_add, f_sub = f2_sub, f_mul = f2_mul,
         f_neg = f2_neg, f_eq = (=)\<rparr>"

type_synonym 'a proj = "'a \<times> 'a \<times> 'a"

definition pt_inf :: "'a fld \<Rightarrow> 'a proj" where
  "pt_inf F = (f_one F, f_one F, f_zero F)"

definition pt_is_inf :: "'a fld \<Rightarrow> 'a proj \<Rightarrow> bool" where
  "pt_is_inf F p = (case p of (x, y, z) \<Rightarrow> f_eq F z (f_zero F))"

definition pt_double :: "'a fld \<Rightarrow> 'a proj \<Rightarrow> 'a proj" where
  "pt_double F pt =
     (case pt of (x, y, z) \<Rightarrow>
        let W = smul F 3 (f_mul F x x);
            S = f_mul F y z;
            B = f_mul F (f_mul F x y) S;
            H = f_sub F (f_mul F W W) (smul F 8 B);
            S2 = f_mul F S S;
            nx = smul F 2 (f_mul F H S);
            ny = f_sub F (f_mul F W (f_sub F (smul F 4 B) H)) (smul F 8 (f_mul F (f_mul F y y) S2));
            nz = smul F 8 (f_mul F S S2)
        in (nx, ny, nz))"

definition pt_add :: "'a fld \<Rightarrow> 'a proj \<Rightarrow> 'a proj \<Rightarrow> 'a proj" where
  "pt_add F p1 p2 =
     (case (p1, p2) of ((x1, y1, z1), (x2, y2, z2)) \<Rightarrow>
        if f_eq F z1 (f_zero F) then p2
        else if f_eq F z2 (f_zero F) then p1
        else
          let U1 = f_mul F y2 z1; U2 = f_mul F y1 z2;
              V1 = f_mul F x2 z1; V2 = f_mul F x1 z2
          in if f_eq F V1 V2 then (if f_eq F U1 U2 then pt_double F p1 else pt_inf F)
             else
               let U = f_sub F U1 U2; V = f_sub F V1 V2;
                   V2s = f_mul F V V; V2sV2 = f_mul F V2s V2; V3 = f_mul F V V2s;
                   W = f_mul F z1 z2;
                   A = f_sub F (f_sub F (f_mul F (f_mul F U U) W) V3) (smul F 2 V2sV2)
               in (f_mul F V A, f_sub F (f_mul F U (f_sub F V2sV2 A)) (f_mul F V3 U2), f_mul F V3 W))"

definition pt_mul :: "'a fld \<Rightarrow> 'a proj \<Rightarrow> nat \<Rightarrow> 'a proj" where
  "pt_mul F pt n =
     foldl (\<lambda>r bit. let r = pt_double F r in if bit then pt_add F r pt else r) (pt_inf F)
       (if n \<noteq> 0 then bits n else [])"

definition pt_neg :: "'a fld \<Rightarrow> 'a proj \<Rightarrow> 'a proj" where
  "pt_neg F p = (case p of (x, y, z) \<Rightarrow> (x, f_neg F y, z))"

definition pt_normalize :: "'a fld \<Rightarrow> 'a proj \<Rightarrow> ('a \<Rightarrow> 'a) \<Rightarrow> 'a \<times> 'a" where
  "pt_normalize F p iv =
     (case p of (x, y, z) \<Rightarrow> let zi = iv z in (f_mul F x zi, f_mul F y zi))"

definition g1_on_curve :: "int \<Rightarrow> int \<Rightarrow> bool" where
  "g1_on_curve x y \<longleftrightarrow> (y * y - x * x * x - 4) mod bls_P = 0"

definition g2_on_curve :: "f2 \<Rightarrow> f2 \<Rightarrow> bool" where
  "g2_on_curve x y \<longleftrightarrow> f2_sub (f2_sqr y) (f2_add (f2_mul (f2_sqr x) x) (4, 4)) = F2_ZERO"

section \<open>The group law over a ring\<close>

text \<open>The formulas with the ring's operations, and the curve equation \<open>Y^2 Z = X^3 + b Z^3\<close>.\<close>

definition rdbl :: "'r::comm_ring_1 \<times> 'r \<times> 'r \<Rightarrow> 'r \<times> 'r \<times> 'r" where
  "rdbl p = (case p of (x, y, z) \<Rightarrow>
     let W = 3 * x * x; S = y * z; B = x * y * S; H = W * W - 8 * B
     in (2 * H * S, W * (4 * B - H) - 8 * (y * y * (S * S)), 8 * S * (S * S)))"

definition rchord :: "'r::comm_ring_1 \<times> 'r \<times> 'r \<Rightarrow> 'r \<times> 'r \<times> 'r \<Rightarrow> 'r \<times> 'r \<times> 'r" where
  "rchord p q = (case (p, q) of ((x1, y1, z1), (x2, y2, z2)) \<Rightarrow>
     let U = y2 * z1 - y1 * z2; V = x2 * z1 - x1 * z2; W = z1 * z2;
         A = U * U * W - V * V * V - 2 * (V * V * (x1 * z2))
     in (V * A, U * (V * V * (x1 * z2) - A) - V * V * V * (y1 * z2), V * V * V * W))"

definition rcurve :: "'r::comm_ring_1 \<Rightarrow> 'r \<times> 'r \<times> 'r \<Rightarrow> bool" where
  "rcurve b p = (case p of (x, y, z) \<Rightarrow> y * y * z = x * x * x + b * z * z * z)"

lemma double_identity:
  fixes x y z b :: "'r::comm_ring_1"
  defines "W \<equiv> 3 * x * x" and "S \<equiv> y * z" and "B \<equiv> x * y * (y * z)"
  defines "H \<equiv> W * W - 8 * B"
  defines "X \<equiv> 2 * H * S" and "Y \<equiv> W * (4 * B - H) - 8 * (y * y * (S * S))" and "Z \<equiv> 8 * S * (S * S)"
  shows "Y * Y * Z - X * X * X - b * Z * Z * Z = 512 * y ^ 9 * z ^ 6 * (y * y * z - x * x * x - b * z * z * z)"
  unfolding X_def Y_def Z_def H_def W_def B_def S_def by (simp add: algebra_simps eval_nat_numeral)

lemma chord_identity3:
  fixes U V W a c b :: "'r::comm_ring_1"
  defines "A \<equiv> U * U * W - V * V * V - 2 * (V * V * a)"
  defines "Y \<equiv> U * (V * V * a - A) - V * V * V * c"
  shows "Y * Y * (V * V * V * W) - (V * A) * (V * A) * (V * A) - b * (V * V * V * W) * (V * V * V * W) * (V * V * V * W) =
     V ^ 9 * (c * c * W - a * a * a - b * W * W * W) +
     V ^ 6 * (A - V * V * a) * (((U + c) * (U + c) * W - (V + a) * (V + a) * (V + a) - b * W * W * W) - (c * c * W - a * a * a - b * W * W * W))"
  unfolding Y_def A_def by (simp add: algebra_simps eval_nat_numeral)

lemma rcurve_iff: "rcurve b (x, y, z) \<longleftrightarrow> y * y * z - x * x * x - b * z * z * z = 0"
  by (simp add: rcurve_def diff_diff_eq)

lemma rdbl_curve: "rcurve b p \<Longrightarrow> rcurve b (rdbl p)"
proof -
  obtain x y z where p: "p = (x, y, z)" by (metis prod.exhaust)
  assume "rcurve b p"
  then have e: "y * y * z - x * x * x - b * z * z * z = 0" by (simp add: p rcurve_def)
  show "rcurve b (rdbl p)"
    using double_identity [of x y z b, unfolded e mult_zero_right]
    by (simp only: p rdbl_def rcurve_iff Let_def prod.case)
qed

lemma rchord_curve:
  assumes "rcurve b p" "rcurve b q" shows "rcurve b (rchord p q)"
proof -
  obtain x1 y1 z1 x2 y2 z2 where p: "p = (x1, y1, z1)" and q: "q = (x2, y2, z2)" by (metis prod.exhaust)
  let ?U = "y2 * z1 - y1 * z2" and ?V = "x2 * z1 - x1 * z2" and ?W = "z1 * z2"
  have e1: "z2 * z2 * z2 * (y1 * y1 * z1) = z2 * z2 * z2 * (x1 * x1 * x1 + b * z1 * z1 * z1)"
    and e2: "z1 * z1 * z1 * (y2 * y2 * z2) = z1 * z1 * z1 * (x2 * x2 * x2 + b * z2 * z2 * z2)"
    using assms by (simp_all add: p q rcurve_def)
  have "(y1 * z2) * (y1 * z2) * ?W - (x1 * z2) * (x1 * z2) * (x1 * z2) - b * ?W * ?W * ?W = 0"
    "(?U + y1 * z2) * (?U + y1 * z2) * ?W - (?V + x1 * z2) * (?V + x1 * z2) * (?V + x1 * z2) - b * ?W * ?W * ?W = 0"
    using e1 e2 by (simp_all add: algebra_simps)
  note zero = this
  show ?thesis
    using chord_identity3 [where U = ?U and V = ?V and W = ?W and a = "x1 * z2" and c = "y1 * z2" and b = b, unfolded zero]
    by (simp only: p q rchord_def rcurve_iff Let_def prod.case mult_zero_right diff_self add_0_right)
qed

text \<open>The reflected third point of the line of slope \<open>U / V\<close> through \<open>p\<close> and \<open>q\<close>, with denominators cleared.\<close>

definition third_on :: "'r::comm_ring_1 \<Rightarrow> 'r \<Rightarrow> 'r \<times> 'r \<times> 'r \<Rightarrow> 'r \<times> 'r \<times> 'r \<Rightarrow> 'r \<times> 'r \<times> 'r \<Rightarrow> bool" where
  "third_on U V p q r \<longleftrightarrow>
     (case (p, q, r) of ((x1, y1, z1), (x2, y2, z2), (X, Y, Z)) \<Rightarrow>
        X * V * V * z1 * z2 = Z * (U * U * z1 * z2 - V * V * (x1 * z2 + x2 * z1)) \<and>
        Y * V * z1 = U * (x1 * Z - X * z1) - y1 * V * Z)"

lemma third_identity:
  fixes U V :: "'r::comm_ring_1"
  assumes e: "x2 * z1 = V + x1 * z2"
  defines "A \<equiv> U * U * (z1 * z2) - V * V * V - 2 * (V * V * (x1 * z2))"
  shows "third_on U V (x1, y1, z1) (x2, y2, z2)
    (V * A, U * (V * V * (x1 * z2) - A) - V * V * V * (y1 * z2), V * V * V * (z1 * z2))"
  unfolding third_on_def prod.case e A_def by (simp add: algebra_simps)

lemma rchord_third:
  "third_on (y2 * z1 - y1 * z2) (x2 * z1 - x1 * z2) (x1, y1, z1) (x2, y2, z2) (rchord (x1, y1, z1) (x2, y2, z2))"
  unfolding rchord_def prod.case Let_def by (rule third_identity) simp

lemma rdbl_third: "third_on (3 * x * x) (2 * y * z) (x, y, z) (x, y, z) (rdbl (x, y, z))"
  unfolding third_on_def rdbl_def prod.case Let_def by (simp add: algebra_simps)

definition rneg3 :: "'r::comm_ring_1 \<times> 'r \<times> 'r \<Rightarrow> 'r \<times> 'r \<times> 'r" where
  "rneg3 p = (case p of (x, y, z) \<Rightarrow> (- x, - y, - z))"

lemma rchord_swap: "rchord q p = rneg3 (rchord p q)"
proof -
  obtain x1 y1 z1 x2 y2 z2 where p: "p = (x1, y1, z1)" and q: "q = (x2, y2, z2)" by (metis prod.exhaust)
  define a c U V W where d: "a = x1 * z2" "c = y1 * z2" "U = y2 * z1 - y1 * z2" "V = x2 * z1 - x1 * z2" "W = z1 * z2"
  have e: "x2 * z1 = V + a" "y2 * z1 = U + c" "x1 * z2 = a" "y1 * z2 = c" "z1 * z2 = W" "z2 * z1 = W"
    by (simp_all add: d mult.commute)
  have e2: "a - (V + a) = - V" "c - (U + c) = - U" "V + a - a = V" "U + c - c = U" by simp_all
  show ?thesis
    unfolding p q rchord_def rneg3_def prod.case Let_def e e2 by (simp add: algebra_simps)
qed

lemma foldl_inv: "Q s \<Longrightarrow> (\<And>r b. Q r \<Longrightarrow> Q (f r b)) \<Longrightarrow> Q (foldl f s xs)"
  by (induction xs arbitrary: s) simp_all

section \<open>What the group law needs of a field record\<close>

definition map3 :: "('a \<Rightarrow> 'b) \<Rightarrow> 'a proj \<Rightarrow> 'b proj" where
  "map3 h p = (case p of (x, y, z) \<Rightarrow> (h x, h y, h z))"

definition all3 :: "('a \<Rightarrow> bool) \<Rightarrow> 'a proj \<Rightarrow> bool" where
  "all3 ok p = (case p of (x, y, z) \<Rightarrow> ok x \<and> ok y \<and> ok z)"

lemma map3_simps [simp]:
  "map3 h (x, y, z) = (h x, h y, h z)" "all3 ok (x, y, z) \<longleftrightarrow> ok x \<and> ok y \<and> ok z"
  by (simp_all add: map3_def all3_def)

definition on_proj :: "('a \<Rightarrow> bool) \<Rightarrow> ('a \<Rightarrow> 'r::comm_ring_1) \<Rightarrow> 'r \<Rightarrow> 'a proj \<Rightarrow> bool" where
  \<comment> \<open>reduced coordinates, at infinity or on \<open>Y^2 Z = X^3 + b Z^3\<close>\<close>
  "on_proj ok h b p \<longleftrightarrow> all3 ok p \<and> (snd (snd (map3 h p)) = 0 \<or> rcurve b (map3 h p))"

definition group_law :: "'a fld \<Rightarrow> ('a \<Rightarrow> 'r::comm_ring_1) \<Rightarrow> 'a proj \<Rightarrow> 'a proj \<Rightarrow> bool" where
  "group_law F h p q =
     (case (map3 h p, map3 h q) of ((x1, y1, z1), (x2, y2, z2)) \<Rightarrow>
        if z1 = 0 then pt_add F p q = q
        else if z2 = 0 then pt_add F p q = p
        else if x2 * z1 \<noteq> x1 * z2 then
          third_on (y2 * z1 - y1 * z2) (x2 * z1 - x1 * z2) (x1, y1, z1) (x2, y2, z2) (map3 h (pt_add F p q)) \<and>
          map3 h (pt_add F q p) = rneg3 (map3 h (pt_add F p q))
        else if y2 * z1 \<noteq> y1 * z2 then pt_add F p q = pt_inf F
        else third_on (3 * x1 * x1) (2 * y1 * z1) (x1, y1, z1) (x1, y1, z1) (map3 h (pt_add F p q)))"

locale ring_fld =
  fixes F :: "'a fld" and ok :: "'a \<Rightarrow> bool" and h :: "'a \<Rightarrow> 'r::comm_ring_1"
  assumes hom [simp]: "h (f_one F) = 1" "h (f_zero F) = 0" "h (f_add F a b) = h a + h b" "h (f_sub F a b) = h a - h b"
      "h (f_mul F a b) = h a * h b" "h (f_neg F a) = - h a"
    and ok [simp]: "ok (f_one F)" "ok (f_zero F)" "ok (f_add F a b)" "ok (f_sub F a b)" "ok (f_mul F a b)" "ok (f_neg F a)"
    and eq: "ok a \<Longrightarrow> ok b \<Longrightarrow> f_eq F a b \<longleftrightarrow> h a = h b"
begin

lemma smul_hom [simp]: "h (smul F k a) = of_nat k * h a"
  by (induction k) (simp_all add: algebra_simps)

lemma smul_ok [simp]: "ok (smul F k a)"
  by (cases k) simp_all

lemma double_hom: "map3 h (pt_double F p) = rdbl (map3 h p)"
  by (cases p rule: prod_cases3) (simp add: pt_double_def rdbl_def Let_def mult.assoc)

lemma double_ok: "all3 ok (pt_double F p)"
  by (cases p rule: prod_cases3) (simp add: pt_double_def Let_def)

lemma inf_simps: "map3 h (pt_inf F) = (1, 1, 0)" "all3 ok (pt_inf F)"
  by (simp_all add: pt_inf_def)

lemma add_cases:
  assumes "ok x1" "ok y1" "ok z1" "ok x2" "ok y2" "ok z2"
  shows "h z1 = 0 \<Longrightarrow> pt_add F (x1, y1, z1) (x2, y2, z2) = (x2, y2, z2)"
    and "h z1 \<noteq> 0 \<Longrightarrow> h z2 = 0 \<Longrightarrow> pt_add F (x1, y1, z1) (x2, y2, z2) = (x1, y1, z1)"
    and "h z1 \<noteq> 0 \<Longrightarrow> h z2 \<noteq> 0 \<Longrightarrow> h x2 * h z1 = h x1 * h z2 \<Longrightarrow> h y2 * h z1 \<noteq> h y1 * h z2 \<Longrightarrow>
      pt_add F (x1, y1, z1) (x2, y2, z2) = pt_inf F"
    and "h z1 \<noteq> 0 \<Longrightarrow> h z2 \<noteq> 0 \<Longrightarrow> h x2 * h z1 = h x1 * h z2 \<Longrightarrow> h y2 * h z1 = h y1 * h z2 \<Longrightarrow>
      pt_add F (x1, y1, z1) (x2, y2, z2) = pt_double F (x1, y1, z1)"
    and "h z1 \<noteq> 0 \<Longrightarrow> h z2 \<noteq> 0 \<Longrightarrow> h x2 * h z1 \<noteq> h x1 * h z2 \<Longrightarrow>
      map3 h (pt_add F (x1, y1, z1) (x2, y2, z2)) = rchord (h x1, h y1, h z1) (h x2, h y2, h z2) \<and>
      all3 ok (pt_add F (x1, y1, z1) (x2, y2, z2))"
  using assms by (simp_all add: pt_add_def eq Let_def rchord_def mult.assoc)

lemma double_on: "on_proj ok h b p \<Longrightarrow> on_proj ok h b (pt_double F p)"
proof -
  obtain x y z where p: "p = (x, y, z)" by (rule prod_cases3)
  assume "on_proj ok h b p"
  then consider "h z = 0" | "rcurve b (map3 h p)" by (auto simp: on_proj_def p)
  then have "snd (snd (rdbl (map3 h p))) = 0 \<or> rcurve b (rdbl (map3 h p))"
    by cases (simp add: p rdbl_def Let_def, simp add: rdbl_curve)
  then show ?thesis by (simp add: on_proj_def double_hom double_ok)
qed

lemma add_on:
  assumes p: "on_proj ok h b p" and q: "on_proj ok h b q" shows "on_proj ok h b (pt_add F p q)"
proof -
  obtain x1 y1 z1 x2 y2 z2 where pq: "p = (x1, y1, z1)" "q = (x2, y2, z2)" by (metis prod_cases3)
  have o: "ok x1" "ok y1" "ok z1" "ok x2" "ok y2" "ok z2" using p q by (simp_all add: on_proj_def pq)
  note A = add_cases [OF o]
  consider "h z1 = 0" | "h z1 \<noteq> 0" "h z2 = 0"
    | "h z1 \<noteq> 0" "h z2 \<noteq> 0" "h x2 * h z1 = h x1 * h z2" "h y2 * h z1 \<noteq> h y1 * h z2"
    | "h z1 \<noteq> 0" "h z2 \<noteq> 0" "h x2 * h z1 = h x1 * h z2" "h y2 * h z1 = h y1 * h z2"
    | "h z1 \<noteq> 0" "h z2 \<noteq> 0" "h x2 * h z1 \<noteq> h x1 * h z2"
    by blast
  then show ?thesis
  proof cases
    case 3
    then show ?thesis by (simp add: pq A on_proj_def inf_simps)
  next
    case 5
    have "rcurve b (rchord (map3 h p) (map3 h q))" using p q 5 by (intro rchord_curve) (auto simp: on_proj_def pq)
    then show ?thesis using A(5) [OF 5] by (simp add: on_proj_def pq)
  qed (use A p q double_on in \<open>auto simp: pq\<close>)
qed

lemma neg_on: "on_proj ok h b p \<Longrightarrow> on_proj ok h b (pt_neg F p)"
  by (cases p rule: prod_cases3) (auto simp: on_proj_def pt_neg_def rcurve_def)

lemma inf_on: "on_proj ok h b (pt_inf F)"
  by (simp add: on_proj_def inf_simps)

lemma mul_on:
  assumes "on_proj ok h b p" shows "on_proj ok h b (pt_mul F p n)"
  unfolding pt_mul_def
proof (rule foldl_inv [where Q = "on_proj ok h b"])
  show "on_proj ok h b (pt_inf F)" by (rule inf_on)
  show "on_proj ok h b (let r = pt_double F r in if d then pt_add F r p else r)" if "on_proj ok h b r" for r d
    using that assms by (simp add: Let_def double_on add_on)
qed

lemma law:
  assumes "all3 ok p" "all3 ok q" shows "group_law F h p q"
proof -
  obtain x1 y1 z1 x2 y2 z2 where pq: "p = (x1, y1, z1)" "q = (x2, y2, z2)" by (metis prod_cases3)
  have o: "ok x1" "ok y1" "ok z1" "ok x2" "ok y2" "ok z2" using assms by (simp_all add: pq)
  note A = add_cases [OF o] and B = add_cases [OF o(4-6) o(1-3)]
  let ?P = "(h x1, h y1, h z1)" and ?Q = "(h x2, h y2, h z2)"
  consider "h z1 = 0" | "h z1 \<noteq> 0" "h z2 = 0"
    | "h z1 \<noteq> 0" "h z2 \<noteq> 0" "h x2 * h z1 = h x1 * h z2" "h y2 * h z1 \<noteq> h y1 * h z2"
    | "h z1 \<noteq> 0" "h z2 \<noteq> 0" "h x2 * h z1 = h x1 * h z2" "h y2 * h z1 = h y1 * h z2"
    | "h z1 \<noteq> 0" "h z2 \<noteq> 0" "h x2 * h z1 \<noteq> h x1 * h z2"
    by blast
  then show ?thesis
  proof cases
    case 4
    then show ?thesis by (simp add: group_law_def pq A double_hom rdbl_third)
  next
    case 5
    have "map3 h (pt_add F p q) = rchord ?P ?Q" "map3 h (pt_add F q p) = rchord ?Q ?P"
      using A(5) [OF 5] B(5) [OF 5(2,1)] 5(3) by (auto simp: pq)
    then show ?thesis
      using 5 rchord_third [of "h y2" "h z1" "h y1" "h z2" "h x2" "h x1"] rchord_swap [of ?Q ?P]
      by (simp add: group_law_def pq)
  qed (simp_all add: group_law_def pq A)
qed

end

interpretation g1: ring_fld F1 fp_ok fp_of
  by unfold_locales (simp_all add: F1_def fp_of_hom fp_of_inj)

interpretation g2: ring_fld F2 f2_ok f2_of
  by unfold_locales (simp_all add: F2_def f2_hom f2_of_inj)

section \<open>The properties of the groups\<close>

definition b1 :: fp where "b1 = fp_of 4"
definition b2 :: fp2 where "b2 = f2_of (4, 4)"

lemma g1_affine: "g1_on_curve x y \<longleftrightarrow> rcurve b1 (fp_of x, fp_of y, 1)"
proof -
  have "g1_on_curve x y \<longleftrightarrow> fp_of (y * y - x * x * x - 4) = fp_of 0" by (simp add: g1_on_curve_def fp_of_eq)
  then show ?thesis by (simp add: fp_of_hom rcurve_iff b1_def)
qed

lemma g2_affine: "g2_on_curve x y \<longleftrightarrow> rcurve b2 (f2_of x, f2_of y, 1)"
proof -
  have "g2_on_curve x y \<longleftrightarrow> f2_of (f2_sub (f2_sqr y) (f2_add (f2_mul (f2_sqr x) x) (4, 4))) = f2_of F2_ZERO"
    by (simp add: g2_on_curve_def f2_of_inj)
  then show ?thesis by (simp add: f2_hom rcurve_iff b2_def diff_diff_eq)
qed

text \<open>The projective formulas never leave their curve.  A reduced triple at infinity or on
  \<open>Y^2 Z = X^3 + 4 Z^3\<close> stays so under doubling, addition, negation and multiplication by any
  scalar, and the same over \<open>Fp2\<close> with the twist's constant \<open>(4, 4)\<close>; a reduced affine point that
  passes \<open>g1_on_curve\<close> or \<open>g2_on_curve\<close> enters with \<open>Z = 1\<close>.\<close>

theorem bls_groups_closed:
  assumes "on_proj fp_ok fp_of b1 p" "on_proj fp_ok fp_of b1 q" "on_proj f2_ok f2_of b2 r" "on_proj f2_ok f2_of b2 s"
  shows "on_proj fp_ok fp_of b1 (pt_add F1 p q) \<and> on_proj fp_ok fp_of b1 (pt_double F1 p) \<and>
      on_proj fp_ok fp_of b1 (pt_neg F1 p) \<and> on_proj fp_ok fp_of b1 (pt_mul F1 p n) \<and>
      on_proj f2_ok f2_of b2 (pt_add F2 r s) \<and> on_proj f2_ok f2_of b2 (pt_double F2 r) \<and>
      on_proj f2_ok f2_of b2 (pt_neg F2 r) \<and> on_proj f2_ok f2_of b2 (pt_mul F2 r n) \<and>
      (on_proj fp_ok fp_of b1 (x, y, 1) \<longleftrightarrow> fp_ok x \<and> fp_ok y \<and> g1_on_curve x y) \<and>
      (on_proj f2_ok f2_of b2 (u, v, F2_ONE) \<longleftrightarrow> f2_ok u \<and> f2_ok v \<and> g2_on_curve u v)"
proof -
  have "on_proj fp_ok fp_of b1 (x, y, 1) \<longleftrightarrow> fp_ok x \<and> fp_ok y \<and> g1_on_curve x y"
    "on_proj f2_ok f2_of b2 (u, v, F2_ONE) \<longleftrightarrow> f2_ok u \<and> f2_ok v \<and> g2_on_curve u v"
    by (auto simp add: on_proj_def g1_affine g2_affine fp_of_hom f2_hom)
  with assms show ?thesis
    by (simp add: g1.add_on g1.double_on g1.neg_on g1.mul_on g2.add_on g2.double_on g2.neg_on g2.mul_on)
qed

lemma bls_groups_closed_witness:
  "on_proj fp_ok fp_of b1 (pt_mul F1 (0, 2, 1) 1000000) \<and>
   on_proj f2_ok f2_of b2 (pt_mul F2 ((bls_P - 1, 0), (2, 1), (1, 0)) 1000000) \<and>
   g1_on_curve 0 2 \<and> g2_on_curve (bls_P - 1, 0) (2, 1)"
proof -
  have m: "f2_of (bls_P - 1, 0) = f2_of (- 1, 0)" by (simp add: f2_of_def fp_of_eq)
  have "rcurve b2 (f2_of (- 1, 0), f2_of (2, 1), 1)"
    by (simp add: rcurve_def b2_def f2_of_def one_fp2_def flip: fp_of_hom(1-4,6,7))
  then have g: "g1_on_curve 0 2" "g2_on_curve (bls_P - 1, 0) (2, 1)"
    by (simp_all add: g2_affine m) (simp add: g1_on_curve_def)
  have 1: "on_proj fp_ok fp_of b1 (0, 2, 1)" using g(1) bls_P_gt
    by (simp add: on_proj_def g1_affine fp_of_hom fp_ok_def)
  have 2: "on_proj f2_ok f2_of b2 ((bls_P - 1, 0), (2, 1), (1, 0))" using g(2) bls_P_gt
    by (simp add: on_proj_def g2_affine f2_hom [unfolded F2_ONE_def] f2_ok_def fp_ok_def)
  show ?thesis using bls_groups_closed [OF 1 1 2 2, of 1000000] g by simp
qed

text \<open>C20: addition is the chord-and-tangent rule on every input.  With reduced coordinates,
  \<open>pt_add\<close> returns the other operand where one is at infinity, the reflected third point of the
  chord where the abscissas differ (and swapping the operands then only flips the sign of the
  triple), infinity where only the ordinates differ, and the tangent's third point where the two
  points are equal.  Both groups satisfy it through the same code.\<close>

theorem pt_add_group_law:
  assumes "all3 fp_ok p" "all3 fp_ok q" "all3 f2_ok r" "all3 f2_ok s"
  shows "group_law F1 fp_of p q \<and> group_law F2 f2_of r s"
  using assms by (simp add: g1.law g2.law)

lemma pt_add_group_law_witness:
  "group_law F1 fp_of (0, 2, 1) (5, 7, 3) \<and> group_law F2 f2_of ((0, 1), (2, 1), (1, 0)) ((4, 0), (0, 3), (2, 2))"
  using bls_P_gt by (intro pt_add_group_law) (simp_all add: f2_ok_def fp_ok_def bls_P_def)

end
