(* ===== verification/Decimal.thy ===== *)
theory Decimal
  imports Prelude
begin

text \<open>
  Decimal numerals: \<open>str(n)\<close> of Python on an integer, and the reading of a numeral back, which is
  \<open>int(s)\<close> on what \<open>str\<close> writes.
\<close>

definition digit :: "nat \<Rightarrow> char" where
  "digit d = char_of (48 + d)"

fun dec_nat :: "nat \<Rightarrow> string" where
  "dec_nat n = (if n < 10 then [digit n] else dec_nat (n div 10) @ [digit (n mod 10)])"

declare dec_nat.simps [simp del]

definition py_str :: "int \<Rightarrow> string" where
  "py_str z = (if z < 0 then CHR ''-'' # dec_nat (nat (- z)) else dec_nat (nat z))"

definition read_nat :: "string \<Rightarrow> nat" where
  "read_nat s = foldl (\<lambda>a c. 10 * a + (of_char c - 48)) 0 s"

definition read_int :: "string \<Rightarrow> int" where
  "read_int s = (case s of [] \<Rightarrow> 0 | c # t \<Rightarrow> if c = CHR ''-'' then - int (read_nat t) else int (read_nat s))"

lemma of_char_digit [simp]: "d < 10 \<Longrightarrow> of_char (digit d) = (48 + d :: nat)"
  by (simp add: digit_def of_char_of)

lemma digit_not_minus: "d < 10 \<Longrightarrow> digit d \<noteq> CHR ''-''"
proof
  assume d: "d < 10" "digit d = CHR ''-''"
  then have "(48 + d :: nat) = of_char (CHR ''-'')" by (metis of_char_digit)
  then show False by simp
qed

lemma read_dec_nat: "read_nat (dec_nat n) = n"
proof (induction n rule: dec_nat.induct)
  case (1 n)
  then show ?case by (subst dec_nat.simps) (auto simp: read_nat_def)
qed

lemma dec_nat_head: "\<exists>c t. dec_nat n = c # t \<and> c \<noteq> CHR ''-''"
proof (induction n rule: dec_nat.induct)
  case (1 n)
  then show ?case by (subst dec_nat.simps) (auto simp: digit_not_minus)
qed

lemma read_py_str [simp]: "read_int (py_str z) = z"
proof (cases "z < 0")
  case False
  obtain c t where "dec_nat (nat z) = c # t" "c \<noteq> CHR ''-''" using dec_nat_head by blast
  then show ?thesis using False read_dec_nat [of "nat z"] by (simp add: read_int_def py_str_def)
qed (simp add: read_int_def py_str_def read_dec_nat)

lemma dec_nat_digits: "c \<in> set (dec_nat n) \<Longrightarrow> 48 \<le> (of_char c :: nat) \<and> (of_char c :: nat) < 58"
proof (induction n rule: dec_nat.induct)
  case (1 n)
  then show ?case by (subst (asm) (2) dec_nat.simps) (auto split: if_splits)
qed

lemma py_str_inj: "py_str a = py_str b \<longleftrightarrow> a = b"
  by (metis read_py_str)

end
