(* ===== verification/BlsPairing.thy ===== *)
theory BlsPairing
  imports BlsCurve Decimal
begin

text \<open>
  The optimal ate pairing of \<open>tools/blsref.py\<close>: the line functions in Jacobian coordinates, the
  Miller loop over the bits of \<open>|x|\<close>, the final exponentiation, and the integer helpers that write
  the guest's constants.  The lemmas show that the Miller loop walks on the twist, that every
  line it multiplies in is the line it should be, that the sparse product \<open>ell\<close> is that line
  evaluated at the \<open>G1\<close> point, and that the hard part raises to the exponent of the docstring.
\<close>

section \<open>The functions of the file\<close>

definition R_ORDER :: int where
  "R_ORDER = 0x73eda753299d7d483339d80809a1d80553bda402fffe5bfeffffffff00000001"

definition BLS_X :: nat where
  \<comment> \<open>\<open>|x|\<close>; \<open>x\<close> is negative\<close>
  "BLS_X = 0xd201000000010000"

definition f12_exp_x :: "f12 \<Rightarrow> f12" where
  "f12_exp_x a = f12_conj (f12_pow a BLS_X)"

definition final_easy :: "f12 \<Rightarrow> f12" where
  "final_easy f =
     (let t = f12_mul (f12_conj f) (f12_inv f)
      in f12_mul (f12_frob (f12_frob t)) t)"

definition final_hard :: "f12 \<Rightarrow> f12" where
  "final_hard m =
     (let a = f12_mul (f12_exp_x m) (f12_conj m);
          a = f12_mul (f12_exp_x a) (f12_conj a);
          b = f12_mul (f12_exp_x a) (f12_frob a);
          c = f12_exp_x (f12_exp_x b);
          c = f12_mul (f12_mul c (f12_frob (f12_frob b))) (f12_conj b);
          m3 = f12_mul (f12_sqr m) m
      in f12_mul c m3)"

definition final_exp :: "f12 \<Rightarrow> f12" where
  "final_exp f = final_hard (final_easy f)"

type_synonym line = "f2 \<times> f2 \<times> f2"

definition doubling_step :: "f2 \<Rightarrow> f2 \<Rightarrow> f2 \<Rightarrow> f2 proj \<times> line" where
  "doubling_step rx ry rz =
     (let tmp0 = f2_sqr rx;
          tmp1 = f2_sqr ry;
          tmp2 = f2_sqr tmp1;
          tmp3 = f2_sub (f2_sub (f2_sqr (f2_add tmp1 rx)) tmp0) tmp2;
          tmp3 = f2_add tmp3 tmp3;
          tmp4 = f2_add (f2_add tmp0 tmp0) tmp0;
          tmp6 = f2_add rx tmp4;
          tmp5 = f2_sqr tmp4;
          zsq = f2_sqr rz;
          nx = f2_sub (f2_sub tmp5 tmp3) tmp3;
          nz = f2_sub (f2_sub (f2_sqr (f2_add rz ry)) tmp1) zsq;
          ny = f2_mul (f2_sub tmp3 nx) tmp4;
          tmp2 = f2_add tmp2 tmp2; tmp2 = f2_add tmp2 tmp2; tmp2 = f2_add tmp2 tmp2;
          ny = f2_sub ny tmp2;
          tmp3 = f2_mul tmp4 zsq;
          tmp3 = f2_add tmp3 tmp3;
          tmp3 = f2_neg tmp3;
          tmp6 = f2_sub (f2_sub (f2_sqr tmp6) tmp0) tmp5;
          tmp1 = f2_add tmp1 tmp1; tmp1 = f2_add tmp1 tmp1;
          tmp6 = f2_sub tmp6 tmp1;
          tmp0 = f2_mul nz zsq;
          tmp0 = f2_add tmp0 tmp0
      in ((nx, ny, nz), (tmp0, tmp3, tmp6)))"

definition addition_step :: "f2 \<Rightarrow> f2 \<Rightarrow> f2 \<Rightarrow> f2 \<Rightarrow> f2 \<Rightarrow> f2 proj \<times> line" where
  "addition_step rx ry rz qx qy =
     (let zsq = f2_sqr rz;
          ysq = f2_sqr qy;
          t0 = f2_mul zsq qx;
          t1 = f2_mul (f2_sub (f2_sub (f2_sqr (f2_add qy rz)) ysq) zsq) zsq;
          t2 = f2_sub t0 rx;
          t3 = f2_sqr t2;
          t4 = f2_add t3 t3; t4 = f2_add t4 t4;
          t5 = f2_mul t4 t2;
          t6 = f2_sub (f2_sub t1 ry) ry;
          t9 = f2_mul t6 qx;
          t7 = f2_mul t4 rx;
          nx = f2_sub (f2_sub (f2_sub (f2_sqr t6) t5) t7) t7;
          nz = f2_sub (f2_sub (f2_sqr (f2_add rz t2)) zsq) t3;
          t10 = f2_add qy nz;
          t8 = f2_mul (f2_sub t7 nx) t6;
          t0 = f2_mul ry t5;
          t0 = f2_add t0 t0;
          ny = f2_sub t8 t0;
          t10 = f2_sub (f2_sqr t10) ysq;
          ztsq = f2_sqr nz;
          t10 = f2_sub t10 ztsq;
          t9 = f2_sub (f2_add t9 t9) t10;
          t10 = f2_add nz nz;
          t6 = f2_neg t6;
          t1 = f2_add t6 t6
      in ((nx, ny, nz), (t10, t1, t9)))"

definition ell :: "f12 \<Rightarrow> line \<Rightarrow> int \<Rightarrow> int \<Rightarrow> f12" where
  "ell f coeffs px py =
     (case coeffs of (k0, k1, k2) \<Rightarrow>
        let c0 = f2_scale k0 py;
            c1 = f2_scale k1 px;
            c2 = k2;
            line = ((c2, c1, F2_ZERO), (F2_ZERO, c0, F2_ZERO))
        in f12_mul f line)"

definition miller_step :: "int \<times> int \<Rightarrow> f2 \<times> f2 \<Rightarrow> f12 \<times> f2 proj \<Rightarrow> bool \<Rightarrow> f12 \<times> f2 proj" where
  "miller_step P1 Q st d =
     (case (P1, Q, st) of ((px, py), (qx, qy), (f, rx, ry, rz)) \<Rightarrow>
        let f = f12_sqr f;
            ((rx, ry, rz), coeffs) = doubling_step rx ry rz;
            f = ell f coeffs px py
        in if d then
             let ((rx, ry, rz), coeffs) = addition_step rx ry rz qx qy
             in (ell f coeffs px py, (rx, ry, rz))
           else (f, (rx, ry, rz)))"

definition miller_loop :: "int \<times> int \<Rightarrow> f2 \<times> f2 \<Rightarrow> f12" where
  "miller_loop P1 Q =
     (let (f, R) = foldl (miller_step P1 Q) (F12_ONE, (fst Q, snd Q, F2_ONE)) (tl (bits BLS_X))
      in f12_conj f)"

definition pairing_raw :: "int proj \<Rightarrow> f2 proj \<Rightarrow> f12" where
  "pairing_raw p1 q =
     (if pt_is_inf F1 p1 \<or> pt_is_inf F2 q then F12_ONE
      else let pa = pt_normalize F1 p1 fp_inv;
               qa = pt_normalize F2 q f2_inv
           in miller_loop pa qa)"

definition pairing :: "int proj \<Rightarrow> f2 proj \<Rightarrow> f12" where
  "pairing p1 q = final_exp (pairing_raw p1 q)"

definition RM :: int where "RM = push_bit 384 1"

definition limbs :: "int \<Rightarrow> nat \<Rightarrow> int list" where
  "limbs x n = map (\<lambda>i. drop_bit (64 * i) x AND (push_bit 64 1 - 1)) [0..<n]"

definition sdec :: "int \<Rightarrow> string" where
  "sdec w = py_str (if w \<ge> push_bit 63 1 then w - push_bit 64 1 else w)"

definition mont :: "int \<Rightarrow> int" where
  "mont x = x * RM mod bls_P"

definition INV :: "int res" where
  "INV = ebind (invmod bls_P (push_bit 64 1)) (\<lambda>i. Inr (- i mod push_bit 64 1))"

section \<open>The line functions over the ring\<close>

definition jcurve :: "fp2 \<times> fp2 \<times> fp2 \<Rightarrow> bool" where
  \<comment> \<open>the twist in Jacobian coordinates, \<open>x = X/Z^2\<close> and \<open>y = Y/Z^3\<close>\<close>
  "jcurve p = (case p of (X, Y, Z) \<Rightarrow> Y * Y = X * X * X + b2 * Z ^ 6)"

definition jproj :: "'r::comm_ring_1 \<times> 'r \<times> 'r \<Rightarrow> 'r \<times> 'r \<times> 'r" where
  \<comment> \<open>the same point in the coordinates \<open>x = X/Z\<close>, \<open>y = Y/Z\<close>\<close>
  "jproj p = (case p of (X, Y, Z) \<Rightarrow> (X * Z, Y, Z * Z * Z))"

definition on_line :: "'r::comm_ring_1 \<times> 'r \<times> 'r \<Rightarrow> 'r \<times> 'r \<times> 'r \<Rightarrow> bool" where
  \<comment> \<open>\<open>c0 y + c1 x + c2 = 0\<close> at a Jacobian point, with the denominator \<open>Z^3\<close> cleared\<close>
  "on_line l p = (case (l, p) of ((c0, c1, c2), (X, Y, Z)) \<Rightarrow> c0 * Y + c1 * (X * Z) + c2 * (Z * Z * Z) = 0)"

definition jneg :: "'r::comm_ring_1 \<times> 'r \<times> 'r \<Rightarrow> 'r \<times> 'r \<times> 'r" where
  "jneg p = (case p of (X, Y, Z) \<Rightarrow> (X, - Y, Z))"

definition jdbl :: "'r::comm_ring_1 \<times> 'r \<times> 'r \<Rightarrow> 'r \<times> 'r \<times> 'r" where
  "jdbl p = (case p of (X, Y, Z) \<Rightarrow>
     let M = 3 * (X * X); S = 4 * (X * (Y * Y)); X' = M * M - 2 * S
     in (X', M * (S - X') - 8 * (Y * Y * (Y * Y)), 2 * (Y * Z)))"

definition jdbl_line :: "'r::comm_ring_1 \<times> 'r \<times> 'r \<Rightarrow> 'r \<times> 'r \<times> 'r" where
  "jdbl_line p = (case p of (X, Y, Z) \<Rightarrow>
     (4 * (Y * Z * (Z * Z)), - (6 * (X * X * (Z * Z))), 6 * (X * X * X) - 4 * (Y * Y)))"

lemma doubling_hom:
  "map3 f2_of (fst (doubling_step rx ry rz)) = jdbl (f2_of rx, f2_of ry, f2_of rz)"
  "map3 f2_of (snd (doubling_step rx ry rz)) = jdbl_line (f2_of rx, f2_of ry, f2_of rz)"
  unfolding doubling_step_def Let_def fst_conv snd_conv map3_simps f2_hom jdbl_def jdbl_line_def prod.case
  by (simp_all add: algebra_simps)

lemma jdbl_curve: "jcurve p \<Longrightarrow> jcurve (jdbl p)"
proof -
  obtain X Y Z where p: "p = (X, Y, Z)" by (rule prod_cases3)
  assume "jcurve p"
  then have b: "b2 * Z ^ 6 = Y * Y - X * X * X" by (simp add: jcurve_def p)
  have "b2 * (2 * (Y * Z)) ^ 6 = 64 * Y ^ 6 * (b2 * Z ^ 6)" by (simp add: power_mult_distrib)
  then show ?thesis
    unfolding jcurve_def jdbl_def p prod.case Let_def b by (simp add: algebra_simps eval_nat_numeral)
qed

lemma jdbl_lines: "on_line (jdbl_line p) p" "on_line (jdbl_line p) (jneg (jdbl p))"
proof -
  obtain X Y Z where p: "p = (X, Y, Z)" by (rule prod_cases3)
  show "on_line (jdbl_line p) p" "on_line (jdbl_line p) (jneg (jdbl p))"
    unfolding on_line_def jdbl_line_def jneg_def jdbl_def p prod.case Let_def by (simp_all add: algebra_simps)
qed

lemma jdbl_rdbl: "rdbl (jproj (X, Y, Z)) = map3 ((*) (Z ^ 6)) (jproj (jdbl (X, Y, Z)))"
  unfolding rdbl_def jproj_def jdbl_def map3_simps prod.case Let_def by (simp add: algebra_simps eval_nat_numeral)

definition jadd :: "'r::comm_ring_1 \<times> 'r \<times> 'r \<Rightarrow> 'r \<times> 'r \<Rightarrow> 'r \<times> 'r \<times> 'r" where
  "jadd p q = (case (p, q) of ((X, Y, Z), (qx, qy)) \<Rightarrow>
     let H = qx * (Z * Z) - X; r = 2 * (qy * (Z * Z * Z) - Y);
         X' = r * r - 4 * (H * H * H) - 8 * (X * (H * H))
     in (X', r * (4 * (X * (H * H)) - X') - 8 * (Y * (H * H * H)), 2 * (Z * H)))"

definition jadd_line :: "'r::comm_ring_1 \<times> 'r \<times> 'r \<Rightarrow> 'r \<times> 'r \<Rightarrow> 'r \<times> 'r \<times> 'r" where
  "jadd_line p q = (case (p, q) of ((X, Y, Z), (qx, qy)) \<Rightarrow>
     let H = qx * (Z * Z) - X; r = 2 * (qy * (Z * Z * Z) - Y)
     in (4 * (Z * H), - (2 * r), 2 * (r * qx) - 4 * (qy * (Z * H))))"

lemma addition_hom:
  "map3 f2_of (fst (addition_step rx ry rz qx qy)) = jadd (f2_of rx, f2_of ry, f2_of rz) (f2_of qx, f2_of qy)"
  "map3 f2_of (snd (addition_step rx ry rz qx qy)) = jadd_line (f2_of rx, f2_of ry, f2_of rz) (f2_of qx, f2_of qy)"
  unfolding addition_step_def Let_def fst_conv snd_conv map3_simps f2_hom jadd_def jadd_line_def prod.case
  by (simp_all add: algebra_simps)

lemma jadd_lines:
  "on_line (jadd_line p q) p" "on_line (jadd_line p q) (fst q, snd q, 1)" "on_line (jadd_line p q) (jneg (jadd p q))"
proof -
  obtain X Y Z qx qy where p: "p = (X, Y, Z)" "q = (qx, qy)" by (metis prod.exhaust)
  show "on_line (jadd_line p q) p" "on_line (jadd_line p q) (fst q, snd q, 1)" "on_line (jadd_line p q) (jneg (jadd p q))"
    unfolding on_line_def jadd_line_def jneg_def jadd_def p prod.case Let_def by (simp_all add: algebra_simps)
qed

lemma jadd_rchord:
  "map3 ((*) 8) (rchord (jproj (X, Y, Z)) (qx, qy, 1)) = map3 ((*) (Z * Z * Z)) (jproj (jadd (X, Y, Z) (qx, qy)))"
  unfolding rchord_def jproj_def jadd_def map3_simps prod.case Let_def by (simp add: algebra_simps eval_nat_numeral)

lemma jadd_identity:
  fixes X Y H r :: "'r::comm_ring_1"
  defines "X' \<equiv> r * r - 4 * (H * H * H) - 8 * (X * (H * H))"
  defines "Y' \<equiv> r * (4 * (X * (H * H)) - X') - 8 * (Y * (H * H * H))"
  shows "Y' * Y' - X' * X' * X' - 64 * H ^ 6 * (Y * Y - X * X * X) =
    4 * (H * H * H) * (X' - 4 * (X * (H * H))) * (r * r + 4 * (r * Y) - 4 * (3 * (X * X * H) + 3 * (X * (H * H)) + H * H * H))"
  unfolding Y'_def X'_def by (simp add: algebra_simps eval_nat_numeral)

lemma jadd_curve:
  assumes p: "jcurve p" and q: "rcurve b2 (fst q, snd q, 1)" shows "jcurve (jadd p q)"
proof -
  obtain X Y Z qx qy where d: "p = (X, Y, Z)" "q = (qx, qy)" by (metis prod.exhaust)
  define H r where "H = qx * (Z * Z) - X" and "r = 2 * (qy * (Z * Z * Z) - Y)"
  have x: "qx * (Z * Z) = X + H" and y: "2 * (qy * (Z * Z * Z)) = r + 2 * Y" by (simp_all add: H_def r_def algebra_simps)
  have b: "b2 * Z ^ 6 = Y * Y - X * X * X" using p by (simp add: jcurve_def d)
  have "4 * (Z ^ 6 * (qy * qy)) = 4 * (Z ^ 6 * (qx * qx * qx + b2))" using q by (simp add: d rcurve_def)
  moreover have "4 * (Z ^ 6 * (qy * qy)) = (2 * (qy * (Z * Z * Z))) * (2 * (qy * (Z * Z * Z)))"
    by (simp add: algebra_simps eval_nat_numeral)
  moreover have "4 * (Z ^ 6 * (qx * qx * qx + b2)) =
      4 * ((qx * (Z * Z)) * (qx * (Z * Z)) * (qx * (Z * Z))) + 4 * (b2 * Z ^ 6)"
    by (simp add: algebra_simps eval_nat_numeral)
  ultimately have "(r + 2 * Y) * (r + 2 * Y) = 4 * ((X + H) * (X + H) * (X + H)) + 4 * (Y * Y - X * X * X)"
    unfolding x y b by simp
  then have "r * r + 4 * (r * Y) - 4 * (3 * (X * X * H) + 3 * (X * (H * H)) + H * H * H) = 0"
    by (simp add: algebra_simps)
  note I = jadd_identity [where r = r and H = H and X = X and Y = Y, unfolded this mult_zero_right]
  have "b2 * (2 * (Z * H)) ^ 6 = 64 * H ^ 6 * (Y * Y - X * X * X)"
    by (simp add: power_mult_distrib flip: b)
  then show ?thesis
    using I unfolding jcurve_def jadd_def d prod.case Let_def H_def [symmetric] r_def [symmetric] by (simp add: diff_diff_eq)
qed

section \<open>The Miller loop over the ring\<close>

definition line_at :: "fp2 \<times> fp2 \<times> fp2 \<Rightarrow> int \<Rightarrow> int \<Rightarrow> fp12" where
  \<comment> \<open>\<open>c2 + c1 px w^2 + c0 py w^3\<close>, where \<open>w^2 = v\<close>\<close>
  "line_at l px py = (case l of (c0, c1, c2) \<Rightarrow>
     emb12 (emb6 c2) + emb12 (emb6 (c1 * f2_of (px, 0))) * Fp12 0 1 ^ 2 + emb12 (emb6 (c0 * f2_of (py, 0))) * Fp12 0 1 ^ 3)"

lemma ell_hom: "f12_of (ell f l px py) = f12_of f * line_at (map3 f2_of l) px py"
proof -
  obtain c0 c1 c2 where l: "l = (c0, c1, c2)" by (rule prod_cases3)
  show ?thesis
    by (simp add: ell_def l line_at_def f12_hom f2_hom Let_def emb12_def emb6_def eval_nat_numeral v6_def
        zero_fp6_def one_fp6_def mult.commute)
qed

definition walk :: "fp2 \<times> fp2 \<Rightarrow> int \<times> int \<Rightarrow> fp12 \<times> fp2 \<times> fp2 \<times> fp2 \<Rightarrow> bool \<Rightarrow> fp12 \<times> fp2 \<times> fp2 \<times> fp2" where
  \<comment> \<open>one digit of the reference Miller loop\<close>
  "walk q P st d =
     (let (f, T) = st;
          f = f ^ 2 * line_at (jdbl_line T) (fst P) (snd P);
          T = jdbl T
      in if d then (f * line_at (jadd_line T q) (fst P) (snd P), jadd T q) else (f, T))"

lemma miller_step_hom:
  "map_prod f12_of (map3 f2_of) (miller_step P Q st d) =
     walk (map_prod f2_of f2_of Q) P (map_prod f12_of (map3 f2_of) st) d"
proof -
  obtain px py qx qy f rx ry rz where st: "P = (px, py)" "Q = (qx, qy)" "st = (f, rx, ry, rz)" by (metis prod.exhaust)
  obtain dx dy dz dl where D: "doubling_step rx ry rz = ((dx, dy, dz), dl)" by (metis prod.exhaust)
  obtain ax ay az al where A: "addition_step dx dy dz qx qy = ((ax, ay, az), al)" by (metis prod.exhaust)
  have d: "(f2_of dx, f2_of dy, f2_of dz) = jdbl (f2_of rx, f2_of ry, f2_of rz)"
    "map3 f2_of dl = jdbl_line (f2_of rx, f2_of ry, f2_of rz)"
    using doubling_hom [of rx ry rz] by (simp_all add: D)
  have a: "(f2_of ax, f2_of ay, f2_of az) = jadd (f2_of dx, f2_of dy, f2_of dz) (f2_of qx, f2_of qy)"
    "map3 f2_of al = jadd_line (f2_of dx, f2_of dy, f2_of dz) (f2_of qx, f2_of qy)"
    using addition_hom [of dx dy dz qx qy] by (simp_all add: A)
  show ?thesis
    by (simp add: st miller_step_def walk_def D A Let_def ell_hom f12_hom power2_eq_square d a)
qed

lemma miller_loop_hom:
  "f12_of (miller_loop P Q) =
     conj12 (fst (foldl (walk (map_prod f2_of f2_of Q) P) (1, f2_of (fst Q), f2_of (snd Q), 1) (tl (bits BLS_X))))"
proof -
  let ?s = "(F12_ONE, fst Q, snd Q, F2_ONE)"
  obtain f R where fR: "foldl (miller_step P Q) ?s (tl (bits BLS_X)) = (f, R)" by (metis prod.exhaust)
  have "map_prod f12_of (map3 f2_of) (f, R) =
      foldl (walk (map_prod f2_of f2_of Q) P) (1, f2_of (fst Q), f2_of (snd Q), 1) (tl (bits BLS_X))"
    unfolding fR [symmetric]
    by (subst foldl_hom [where h = "map_prod f12_of (map3 f2_of)"]) (simp_all add: miller_step_hom f12_hom f2_hom)
  from this [symmetric] show ?thesis by (simp add: miller_loop_def fR f12_hom)
qed

lemma walk_curve:
  assumes q: "rcurve b2 (fst q, snd q, 1)"
  shows "jcurve (snd st) \<Longrightarrow> jcurve (snd (foldl (walk q P) st ds))"
  by (induction ds arbitrary: st) (simp_all add: walk_def split_beta Let_def jdbl_curve jadd_curve [OF _ q])

section \<open>The final exponentiation\<close>

lemma R_ORDER_x: "R_ORDER = int BLS_X ^ 4 - int BLS_X ^ 2 + 1"
  by (simp add: R_ORDER_def BLS_X_def)

lemma bls_P_x: "3 * (bls_P + int BLS_X) = (int BLS_X + 1) ^ 2 * R_ORDER"
  by (simp add: R_ORDER_def BLS_X_def bls_P_def)

lemma hard_part_identity:
  "3 * ((bls_P ^ 4 - bls_P ^ 2 + 1) div R_ORDER) =
     (int BLS_X + 1) ^ 2 * (bls_P - int BLS_X) * (int BLS_X ^ 2 + bls_P ^ 2 - 1) + 3"
  "R_ORDER dvd bls_P ^ 4 - bls_P ^ 2 + 1"
proof -
  define p x r where d: "p = bls_P" "x = int BLS_X" "r = R_ORDER"
  have e: "3 * (p ^ 4 - p ^ 2 + 1) = 3 * (p + x) * (p - x) * (x ^ 2 + p ^ 2 - 1) + 3 * (x ^ 4 - x ^ 2 + 1)"
    by (simp add: algebra_simps eval_nat_numeral)
  have e3: "3 * (p ^ 4 - p ^ 2 + 1) = r * ((x + 1) ^ 2 * (p - x) * (x ^ 2 + p ^ 2 - 1) + 3)"
    unfolding e using bls_P_x R_ORDER_x by (simp add: d [symmetric]) (simp add: algebra_simps)
  have "coprime r 3" by (simp add: d R_ORDER_def coprime_iff_gcd_eq_1 gcd_non_0_int)
  moreover have "r dvd 3 * (p ^ 4 - p ^ 2 + 1)" by (simp only: e3 dvd_triv_left)
  ultimately have v: "r dvd p ^ 4 - p ^ 2 + 1" by (simp only: coprime_dvd_mult_right_iff)
  then obtain k where k: "p ^ 4 - p ^ 2 + 1 = r * k" by (rule dvdE)
  have "r > 0" by (simp add: d R_ORDER_def)
  then have "3 * k = (x + 1) ^ 2 * (p - x) * (x ^ 2 + p ^ 2 - 1) + 3"
    using e3 by (simp add: k mult.left_commute [of 3])
  then show "3 * ((bls_P ^ 4 - bls_P ^ 2 + 1) div R_ORDER) =
     (int BLS_X + 1) ^ 2 * (bls_P - int BLS_X) * (int BLS_X ^ 2 + bls_P ^ 2 - 1) + 3"
    using k \<open>r > 0\<close> by (simp add: d [symmetric])
  show "R_ORDER dvd bls_P ^ 4 - bls_P ^ 2 + 1" using v by (simp only: d)
qed

lemma conj12_conj12 [simp]: "conj12 (conj12 f) = f"
  by (cases f) simp

lemma cancel_power: "M * C = 1 \<Longrightarrow> n \<le> m \<Longrightarrow> C ^ n * M ^ m = M ^ (m - n)" for M :: "'a::comm_monoid_mult"
proof -
  assume c: "M * C = 1" and n: "n \<le> m"
  have "C * M = 1" using c by (simp add: mult.commute)
  then have "C ^ n * M ^ n = 1" by (simp flip: power_mult_distrib)
  moreover have "M ^ m = M ^ n * M ^ (m - n)" using n by (simp flip: power_add)
  ultimately show ?thesis by (simp flip: mult.assoc)
qed

lemma exp_x_hom: "f12_of (f12_exp_x a) = conj12 (f12_of a) ^ BLS_X"
  by (simp add: f12_exp_x_def f12_hom f12_pow_hom conj12_power)

lemma final_hard_power:
  fixes m :: f12
  defines "M \<equiv> f12_of m" and "p \<equiv> nat bls_P" and "X \<equiv> BLS_X"
  assumes unit: "M * conj12 M = 1" and frob: "\<And>k. frob12 (M ^ k) = M ^ (k * p)"
  shows "f12_of (final_hard m) = M ^ ((X + 1) ^ 2 * (p - X) * (X ^ 2 + p ^ 2 - 1) + 3)"
proof -
  let ?C = "conj12 M"
  define e where "e = (X + 1) * (X + 1)"
  define E where "E = e * (p - X)"
  define a1 a2 b where "a1 = f12_mul (f12_exp_x m) (f12_conj m)" and "a2 = f12_mul (f12_exp_x a1) (f12_conj a1)"
    and "b = f12_mul (f12_exp_x a2) (f12_frob a2)"
  define c where "c = f12_mul (f12_mul (f12_exp_x (f12_exp_x b)) (f12_frob (f12_frob b))) (f12_conj b)"
  have le: "X \<le> p" by (simp add: X_def p_def BLS_X_def bls_P_def)
  have a1: "f12_of a1 = ?C ^ (X + 1)"
    by (simp add: a1_def f12_hom exp_x_hom M_def X_def mult.commute)
  have "f12_of a2 = (M ^ (X + 1)) ^ X * M ^ (X + 1)"
    by (simp only: a2_def f12_hom exp_x_hom a1 conj12_power conj12_conj12 flip: X_def)
  also have "(M ^ (X + 1)) ^ X * M ^ (X + 1) = M ^ e"
    unfolding power_mult [symmetric] power_add [symmetric] e_def by (simp only: distrib_left mult_1_right)
  finally have a2: "f12_of a2 = M ^ e" .
  have "f12_of b = ?C ^ (e * X) * M ^ (e * p)"
    by (simp add: b_def f12_hom exp_x_hom f12_frob_hom a2 conj12_power frob flip: X_def power_mult)
  also have "\<dots> = M ^ E" using le by (simp add: cancel_power [OF unit] E_def diff_mult_distrib2)
  finally have b: "f12_of b = M ^ E" .
  have "f12_of c = M ^ (E * X * X) * M ^ (E * p * p) * ?C ^ E"
    by (simp add: c_def f12_hom exp_x_hom f12_frob_hom b conj12_power frob flip: X_def power_mult)
  also have "\<dots> = ?C ^ E * M ^ (E * X * X + E * p * p)" by (simp add: power_add mult.commute)
  also have "\<dots> = M ^ (E * X * X + E * p * p - E)"
    by (rule cancel_power [OF unit]) (simp add: X_def BLS_X_def trans_le_add1)
  also have "E * X * X + E * p * p - E = E * (X ^ 2 + p ^ 2 - 1)"
    by (simp add: diff_mult_distrib2 distrib_left power2_eq_square)
  finally have c: "f12_of c = M ^ (E * (X ^ 2 + p ^ 2 - 1))" .
  have "final_hard m = f12_mul c (f12_mul (f12_sqr m) m)"
    by (simp add: final_hard_def c_def b_def a2_def a1_def Let_def)
  then have "f12_of (final_hard m) = M ^ (E * (X ^ 2 + p ^ 2 - 1)) * M ^ 3"
    by (simp add: f12_hom c M_def eval_nat_numeral)
  then show ?thesis by (simp add: E_def e_def power2_eq_square flip: power_add)
qed

section \<open>Limbs and literals\<close>

lemma limb_value: "drop_bit (64 * i) x AND (push_bit 64 1 - 1) = x div 2 ^ (64 * i) mod 2 ^ 64" for x :: int
proof -
  have "push_bit 64 1 - 1 = (mask 64 :: int)" by (simp add: mask_eq_exp_minus_1)
  then show ?thesis by (simp only: flip: take_bit_eq_mask) (simp only: drop_bit_eq_div take_bit_eq_mod)
qed

lemma limbs_sum: "(\<Sum>i<n. limbs x n ! i * 2 ^ (64 * i)) = x mod 2 ^ (64 * n)"
proof -
  have "(\<Sum>i<n. x div 2 ^ (64 * i) mod 2 ^ 64 * 2 ^ (64 * i)) = x mod 2 ^ (64 * n)"
  proof (induction n)
    case (Suc n)
    have "x mod 2 ^ (64 * Suc n) = x mod (2 ^ (64 * n) * 2 ^ 64)" by (simp only: power_add [symmetric] mult_Suc_right add.commute)
    also have "\<dots> = 2 ^ (64 * n) * (x div 2 ^ (64 * n) mod 2 ^ 64) + x mod 2 ^ (64 * n)" by (rule zmod_zmult2_eq) simp
    finally show ?case using Suc by (simp add: algebra_simps)
  qed simp
  moreover have "limbs x n ! i = x div 2 ^ (64 * i) mod 2 ^ 64" if "i < n" for i
    using that limb_value [of i x] by (simp add: limbs_def)
  ultimately show ?thesis by simp
qed

lemma bls_P_mod4: "bls_P mod 4 = 3"
  by (simp add: bls_P_def)

lemma coprime_P: "coprime bls_P (2 ^ k)"
proof -
  have "odd bls_P" by (simp add: bls_P_def)
  then show ?thesis by (simp add: coprime_power_right_iff coprime_right_2_iff_odd)
qed

lemma mont_mod: "mont x = x * 2 ^ 384 mod bls_P"
  by (simp add: mont_def RM_def push_bit_eq_mult)

lemma mont_inj: "mont x = mont y \<longleftrightarrow> x mod bls_P = y mod bls_P"
proof -
  have "mont x = mont y \<longleftrightarrow> bls_P dvd (x - y) * 2 ^ 384"
    by (simp only: mont_mod mod_eq_iff_dvd left_diff_distrib)
  then show ?thesis using coprime_P [of 384] by (simp only: coprime_dvd_mult_left_iff mod_eq_iff_dvd)
qed

section \<open>The properties of the pairing\<close>

text \<open>The line functions.  In Jacobian coordinates over \<open>Fp2\<close>, \<open>doubling_step\<close> returns the
  projective double of the group law (up to the factor \<open>Z^6\<close>) with a line through \<open>R\<close> and \<open>-2R\<close>;
  \<open>addition_step\<close> returns the projective chord sum (up to \<open>Z^3\<close> against 8) with a line through
  \<open>R\<close>, \<open>Q\<close> and \<open>-(R + Q)\<close>.  \<open>ell\<close> multiplies by that line evaluated at \<open>(px, py)\<close> as
  \<open>c2 + c1 px w^2 + c0 py w^3\<close>.\<close>

theorem line_functions:
  fixes rx ry rz qx qy :: f2 and f :: f12 and px py :: int
  defines "R \<equiv> (f2_of rx, f2_of ry, f2_of rz)" and "q \<equiv> (f2_of qx, f2_of qy)"
  defines "D \<equiv> doubling_step rx ry rz" and "A \<equiv> addition_step rx ry rz qx qy"
  shows "rdbl (jproj R) = map3 ((*) (f2_of rz ^ 6)) (jproj (map3 f2_of (fst D))) \<and>
    on_line (map3 f2_of (snd D)) R \<and> on_line (map3 f2_of (snd D)) (jneg (map3 f2_of (fst D))) \<and>
    map3 ((*) 8) (rchord (jproj R) (f2_of qx, f2_of qy, 1)) =
      map3 ((*) (f2_of rz * f2_of rz * f2_of rz)) (jproj (map3 f2_of (fst A))) \<and>
    on_line (map3 f2_of (snd A)) R \<and> on_line (map3 f2_of (snd A)) (f2_of qx, f2_of qy, 1) \<and>
    on_line (map3 f2_of (snd A)) (jneg (map3 f2_of (fst A))) \<and>
    f12_of (ell f (snd D) px py) = f12_of f * line_at (map3 f2_of (snd D)) px py"
  unfolding D_def A_def doubling_hom addition_hom ell_hom q_def [symmetric] R_def
  using jdbl_lines [of "(f2_of rx, f2_of ry, f2_of rz)"] jadd_lines [of "(f2_of rx, f2_of ry, f2_of rz)" q]
  by (simp add: jdbl_rdbl jadd_rchord q_def)

text \<open>C21: the Miller loop.  \<open>miller_loop\<close> computes the conjugate of the reference walk over the 63
  digits of \<open>|x|\<close> below the leading one, which squares, multiplies in the tangent line and doubles,
  and at a digit 1 multiplies in the chord line and adds \<open>Q\<close>; for a \<open>Q\<close> that passes
  \<open>g2_on_curve\<close>, every point the walk visits is on the twist.\<close>

theorem miller_loop_refines:
  fixes Q :: "f2 \<times> f2" and P :: "int \<times> int"
  defines "visit k \<equiv> foldl (walk (map_prod f2_of f2_of Q) P) (1, f2_of (fst Q), f2_of (snd Q), 1) (take k (tl (bits BLS_X)))"
  assumes "g2_on_curve (fst Q) (snd Q)"
  shows "f12_of (miller_loop P Q) = conj12 (fst (visit 63)) \<and> jcurve (snd (visit k)) \<and>
    length (bits BLS_X) = 64 \<and> f12_ok (miller_loop P Q)"
proof -
  have len: "length (bits BLS_X) = 64" by (simp add: BLS_X_def bits.simps)
  have "jcurve (snd (visit k))" unfolding visit_def
    by (rule walk_curve) (use assms(2) in \<open>simp_all add: g2_affine jcurve_def rcurve_def\<close>)
  moreover have "f12_of (miller_loop P Q) = conj12 (fst (visit 63))"
    by (simp add: miller_loop_hom visit_def len)
  moreover have "f12_ok (fst (foldl (miller_step P Q) st ds))" if "f12_ok (fst st)" for st ds
    using that
  proof (induction ds arbitrary: st)
    case (Cons d ds)
    have "f12_ok (fst (miller_step P Q st d))"
      by (simp add: miller_step_def ell_def split_beta Let_def)
    then show ?case using Cons.IH by simp
  qed simp
  then have "f12_ok (miller_loop P Q)" by (simp add: miller_loop_def split_beta)
  ultimately show ?thesis by (simp add: len)
qed

lemma miller_loop_refines_witness:
  "f12_ok (miller_loop (0, 2) ((bls_P - 1, 0), (2, 1)))"
proof -
  have "g2_on_curve (bls_P - 1, 0) (2, 1)" using bls_groups_closed_witness by simp
  then show ?thesis using miller_loop_refines [of "((bls_P - 1, 0), (2, 1))" "(0, 2)" 5] by simp
qed


lemma fp_inv_1: "fp_inv 1 = 1"
  using bls_P_gt by (simp add: fp_inv_def powmod_def)

lemma norm_fp_one: "norm_fp 1 = 1"
proof -
  have "norm12 1 = 1" by (simp add: one_fp12_def)
  moreover have "norm6 1 = 1" by (simp add: one_fp6_def)
  moreover have "norm2 1 = 1" by (simp add: one_fp2_def)
  ultimately show ?thesis by (simp add: norm_fp_def)
qed

lemma f12_inv_one: "f12_inv F12_ONE = F12_ONE"
proof -
  have "emb12 (emb6 (emb2 1)) = 1"
    by (simp add: emb12_def emb6_def emb2_def one_fp12_def one_fp6_def flip: one_fp2_def)
  then have "f12_of F12_ONE * f12_of (f12_inv F12_ONE) = 1" unfolding f12_mult_inv by (simp add: f12_hom norm_fp_one)
  then show ?thesis by (simp add: f12_hom flip: f12_of_inj)
qed

lemma final_easy_one: "final_easy F12_ONE = F12_ONE"
  by (simp add: final_easy_def Let_def f12_inv_one f12_hom f12_frob_hom frob12_one flip: f12_of_inj)

lemma final_hard_one: "final_hard F12_ONE = F12_ONE"
  by (simp add: final_hard_def Let_def exp_x_hom f12_hom f12_frob_hom frob12_one flip: f12_of_inj)

lemma final_exp_one: "final_exp F12_ONE = F12_ONE"
  by (simp add: final_exp_def final_easy_one final_hard_one)


text \<open>\<open>pairing\<close> of a point at infinity, on either side, is the unit, for any coordinates of the
  point; otherwise it is the final exponentiation of the Miller loop at the normalised points.\<close>

theorem pairing_infinity:
  "pairing p q = (if snd (snd p) = 0 \<or> snd (snd q) = F2_ZERO then F12_ONE
     else final_exp (miller_loop (pt_normalize F1 p fp_inv) (pt_normalize F2 q f2_inv)))"
proof -
  have "fst (snd (snd q)) = 0 \<and> snd (snd (snd q)) = 0 \<longleftrightarrow> snd (snd q) = F2_ZERO"
    by (simp add: F2_ZERO_def prod_eq_iff)
  then show ?thesis
    by (simp add: pairing_def pairing_raw_def pt_is_inf_def F1_def F2_def split_beta Let_def final_exp_one)
qed

text \<open>The words of the constants file.  \<open>limbs\<close> are 64-bit words whose weighted sum is the number
  modulo \<open>2^(64 n)\<close>; the decimal that \<open>sdec\<close> writes reads back as a number in the signed 64-bit
  range congruent to the word; \<open>mont\<close> is injective on residues and turns products into Montgomery
  products; \<open>INV\<close> exists and is the negated inverse of \<open>P\<close> modulo \<open>2^64\<close>.\<close>

theorem constants_words:
  "(\<Sum>i<n. limbs x n ! i * 2 ^ (64 * i)) = x mod 2 ^ (64 * n) \<and>
   read_int (sdec (w mod 2 ^ 64)) mod 2 ^ 64 = w mod 2 ^ 64 \<and>
   - (2 ^ 63) \<le> read_int (sdec (w mod 2 ^ 64)) \<and> read_int (sdec (w mod 2 ^ 64)) < 2 ^ 63 \<and>
   (mont x = mont y \<longleftrightarrow> x mod bls_P = y mod bls_P) \<and> mont x * mont y mod bls_P = mont (x * y) * RM mod bls_P \<and>
   (\<exists>i. INV = Inr i \<and> i * bls_P mod 2 ^ 64 = 2 ^ 64 - 1 \<and> 0 \<le> i \<and> i < 2 ^ 64)"
proof -
  have "mont x * mont y mod bls_P = mont (x * y) * RM mod bls_P"
    unfolding mont_def by (subst mod_mult_eq, subst mod_mult_left_eq) (simp only: ac_simps)
  moreover have "read_int (sdec (w mod 2 ^ 64)) mod 2 ^ 64 = w mod 2 ^ 64"
    "- (2 ^ 63) \<le> read_int (sdec (w mod 2 ^ 64))" "read_int (sdec (w mod 2 ^ 64)) < 2 ^ 63"
    using pos_mod_bound [of "2 ^ 64" w] pos_mod_sign [of "2 ^ 64" w] by (auto simp: sdec_def)
  moreover have "\<exists>i. INV = Inr i \<and> i * bls_P mod 2 ^ 64 = 2 ^ 64 - 1 \<and> 0 \<le> i \<and> i < 2 ^ 64"
  proof -
    have g: "gcd bls_P (2 ^ 64) = 1" using coprime_P [of 64] by (simp only: coprime_iff_gcd_eq_1)
    have "\<exists>y. invmod bls_P (2 ^ 64) = Inr y"
      unfolding invmod_def g by (intro exI, subst if_P, rule refl, rule refl)
    then obtain y where y: "invmod bls_P (2 ^ 64) = Inr y" ..
    have "- y mod 2 ^ 64 * bls_P mod 2 ^ 64 = - (bls_P * y mod 2 ^ 64) mod 2 ^ 64"
      unfolding mod_mult_left_eq mod_minus_eq by (simp only: mult_minus_right mult.commute [of "- y"])
    also have "\<dots> = 2 ^ 64 - 1" by (subst invmod_Inr(1) [OF _ y]) simp_all
    finally show ?thesis by (intro exI [of _ "- y mod 2 ^ 64"]) (simp add: INV_def y [simplified])
  qed
  ultimately show ?thesis by (simp only: limbs_sum mont_inj)
qed

end
