(* ===== verification/PyEcc.thy ===== *)
theory PyEcc
  imports BlsCurve Records
begin

text \<open>
  The \<open>py_ecc\<close> package as an argument.  The two curve vector generators call its optimised curve
  modules; that code is not in the repository, so the functions it provides are the fields of a
  record, and what the generators rely on is the locale \<open>pyecc_bounds\<close>: coordinates that the package
  returns are residues, and a residue fits the width the generator serialises it in.  A point is a
  projective triple of residues, as \<open>FQ\<close> and \<open>FQ2\<close> values are built from plain integers; the target
  group of the pairing stays abstract.  The last section instantiates the record with the group
  law of \<open>BlsCurve\<close> over a field of seven elements, so that the theorems about the generators have
  an instance to evaluate.
\<close>

record 'f pyecc =
  field_modulus :: int
  curve_order :: nat
  is_on_curve1 :: "int proj \<Rightarrow> bool"
  is_on_curve2 :: "f2 proj \<Rightarrow> bool"
  is_inf1 :: "int proj \<Rightarrow> bool"
  is_inf2 :: "f2 proj \<Rightarrow> bool"
  normalize1 :: "int proj \<Rightarrow> int \<times> int"
  normalize2 :: "f2 proj \<Rightarrow> f2 \<times> f2"
  ec_add1 :: "int proj \<Rightarrow> int proj \<Rightarrow> int proj"
  ec_add2 :: "f2 proj \<Rightarrow> f2 proj \<Rightarrow> f2 proj"
  multiply1 :: "int proj \<Rightarrow> nat \<Rightarrow> int proj"
  multiply2 :: "f2 proj \<Rightarrow> nat \<Rightarrow> f2 proj"
  fq2_mul :: "f2 \<Rightarrow> f2 \<Rightarrow> f2"
  ec_pairing :: "f2 proj \<Rightarrow> int proj \<Rightarrow> 'f"
  fq12_one :: 'f
  fq12_mul :: "'f \<Rightarrow> 'f \<Rightarrow> 'f"
  fq12_inv :: "'f \<Rightarrow> 'f"
  fq12_pow :: "'f \<Rightarrow> nat \<Rightarrow> 'f"
  fq12_coeffs :: "'f \<Rightarrow> int list"
  fq12_of :: "int list \<Rightarrow> 'f"
  map_to_g1 :: "int \<Rightarrow> int proj"
  map_to_g2 :: "f2 \<Rightarrow> f2 proj"

definition residue :: "'f pyecc \<Rightarrow> int \<Rightarrow> bool" where
  "residue L x \<longleftrightarrow> 0 \<le> x \<and> x < field_modulus L"

locale pyecc_bounds =
  fixes L :: "'f pyecc" and w :: nat
  assumes modulus: "0 < field_modulus L" "field_modulus L \<le> 256 ^ w"
    and normalized1: "normalize1 L p = (x, y) \<Longrightarrow> residue L x \<and> residue L y"
    and normalized2: "normalize2 L q = (u, v) \<Longrightarrow> residue L (fst u) \<and> residue L (snd u) \<and> residue L (fst v) \<and> residue L (snd v)"
    and mul2: "residue L (fst (fq2_mul L a b)) \<and> residue L (snd (fq2_mul L a b))"
    and coeffs: "length (fq12_coeffs L f) = 12" "c \<in> set (fq12_coeffs L f) \<Longrightarrow> residue L c"
begin

lemma to_be_residue: "w \<le> k \<Longrightarrow> residue L x \<Longrightarrow> int_to_be k x = Inr (be_fix k (nat x))"
proof -
  assume wk: "w \<le> k" and r: "residue L x"
  have "field_modulus L \<le> 256 ^ w" by (rule modulus(2))
  also have "\<dots> \<le> 256 ^ k" using wk by (simp add: power_increasing)
  finally show ?thesis using r by (intro int_to_be_ok) (auto simp: residue_def)
qed

lemma to_be_mod: "w \<le> k \<Longrightarrow> int_to_be k (x mod field_modulus L) = Inr (be_fix k (nat (x mod field_modulus L)))"
  by (rule to_be_residue) (simp_all add: residue_def modulus)

end

section \<open>A small instance\<close>

definition F7 :: "int fld" where
  "F7 = \<lparr>f_one = 1, f_zero = 0, f_add = (\<lambda>a b. (a + b) mod 7), f_sub = (\<lambda>a b. (a - b) mod 7),
         f_mul = (\<lambda>a b. a * b mod 7), f_neg = (\<lambda>a. - a mod 7), f_eq = (=)\<rparr>"

definition F49 :: "f2 fld" where
  "F49 = \<lparr>f_one = (1, 0), f_zero = (0, 0), f_add = (\<lambda>a b. ((fst a + fst b) mod 7, (snd a + snd b) mod 7)),
         f_sub = (\<lambda>a b. ((fst a - fst b) mod 7, (snd a - snd b) mod 7)),
         f_mul = (\<lambda>a b. ((fst a * fst b - snd a * snd b) mod 7, (fst a * snd b + snd a * fst b) mod 7)),
         f_neg = (\<lambda>a. (- fst a mod 7, - snd a mod 7)), f_eq = (=)\<rparr>"

definition inv49 :: "f2 \<Rightarrow> f2" where
  "inv49 a = (let d = powmod (fst a * fst a + snd a * snd a) 5 7 in (fst a * d mod 7, - snd a * d mod 7))"

definition on_small :: "'a fld \<Rightarrow> 'a \<Rightarrow> 'a proj \<Rightarrow> bool" where
  "on_small F b p = (case p of (x, y, z) \<Rightarrow> z = f_zero F \<or>
     f_mul F (f_mul F y y) z = f_add F (f_mul F (f_mul F x x) x) (f_mul F b (f_mul F (f_mul F z z) z)))"

definition ecc7 :: "int pyecc" where
  \<comment> \<open>\<open>y^2 = x^3 + 3\<close> over seven elements, a group of order 13, with the trivial pairing\<close>
  "ecc7 = \<lparr>field_modulus = 7, curve_order = 13,
     is_on_curve1 = on_small F7 3, is_on_curve2 = on_small F49 (3, 0),
     is_inf1 = pt_is_inf F7, is_inf2 = pt_is_inf F49,
     normalize1 = (\<lambda>p. pt_normalize F7 p (\<lambda>z. powmod z 5 7)), normalize2 = (\<lambda>p. pt_normalize F49 p inv49),
     ec_add1 = pt_add F7, ec_add2 = pt_add F49, multiply1 = pt_mul F7, multiply2 = pt_mul F49,
     fq2_mul = f_mul F49, ec_pairing = (\<lambda>q p. 1), fq12_one = 1, fq12_mul = (\<lambda>a b. a * b mod 7),
     fq12_inv = (\<lambda>a. powmod a 5 7), fq12_pow = (\<lambda>a n. powmod a n 7),
     fq12_coeffs = (\<lambda>f. replicate 12 (f mod 7)), fq12_of = (\<lambda>cs. hd cs mod 7),
     map_to_g1 = (\<lambda>x. (1, 2, 1)), map_to_g2 = (\<lambda>x. ((1, 0), (2, 0), (1, 0)))\<rparr>"

interpretation ecc7: pyecc_bounds ecc7 1
  by unfold_locales
    (auto simp: ecc7_def residue_def pt_normalize_def F7_def F49_def Let_def split: prod.splits)

lemma ecc7_bounds: "1 \<le> k \<Longrightarrow> pyecc_bounds ecc7 k"
  using ecc7.pyecc_bounds_axioms self_le_power [of "256 :: int" k]
  by (auto simp: pyecc_bounds_def ecc7_def)

end
