(* ===== verification/Bn254.thy ===== *)
theory Bn254
  imports PyEcc
begin

text \<open>
  The alt_bn128 oracle of \<open>tools/gen_bn254_vectors.py\<close>: decoding of points with its two checks, the
  three precompiles, the evaluator of the eight record types and the stream loop.  \<open>py_ecc\<close> is the
  record of \<open>PyEcc\<close>; \<open>P\<close> and \<open>R\<close> are its \<open>field_modulus\<close> and \<open>curve_order\<close>.
\<close>

section \<open>The functions of the file\<close>

abbreviation (input) be32 :: "int \<Rightarrow> bytes res" where
  "be32 x \<equiv> int_to_be 32 x"

definition bn_g1_bytes :: "'f pyecc \<Rightarrow> int proj \<Rightarrow> bytes res" where
  "bn_g1_bytes L pt =
     (if is_inf1 L pt then Inr (zeros 64)
      else case normalize1 L pt of (x, y) \<Rightarrow> ebind (be32 x) (\<lambda>a. ebind (be32 y) (\<lambda>b. Inr (a @ b))))"

definition bn_g2_bytes :: "'f pyecc \<Rightarrow> f2 proj \<Rightarrow> bytes res" where
  "bn_g2_bytes L pt =
     (if is_inf2 L pt then Inr (zeros 128)
      else case normalize2 L pt of (x, y) \<Rightarrow>
        ebind (seqs [be32 (snd x), be32 (fst x), be32 (snd y), be32 (fst y)]) (\<lambda>bs. Inr (concat bs)))"

definition fq12_bytes :: "'f pyecc \<Rightarrow> 'f \<Rightarrow> bytes res" where
  "fq12_bytes L f = ebind (emap (int_to_be 32) (fq12_coeffs L f)) (\<lambda>bs. Inr (concat bs))"

definition fq12_from_bytes :: "'f pyecc \<Rightarrow> bytes \<Rightarrow> 'f" where
  "fq12_from_bytes L b = fq12_of L (map (\<lambda>i. int (from_be (bslice b (i * 32) ((i + 1) * 32)))) [0..<12])"

definition buffer_read :: "bytes \<Rightarrow> nat \<Rightarrow> nat \<Rightarrow> bytes" where
  "buffer_read data start sz = (let out = bslice data start (start + sz) in out @ zeros (sz - length out))"

definition bytes_to_g1 :: "'f pyecc \<Rightarrow> bytes \<Rightarrow> int proj res" where
  "bytes_to_g1 L data =
     (let x = int (from_be (bslice data 0 32));
          y = int (from_be (bslice data 32 64))
      in if x \<ge> field_modulus L \<or> y \<ge> field_modulus L then Inl (Invalid ''field'')
         else let z = (if x = 0 \<and> y = 0 then 0 else 1);
                  pt = (x, y, z)
              in if \<not> is_on_curve1 L pt then Inl (Invalid ''curve'') else Inr pt)"

definition bytes_to_g2 :: "'f pyecc \<Rightarrow> bytes \<Rightarrow> f2 proj res" where
  "bytes_to_g2 L data =
     (let x0 = int (from_be (bslice data 0 32));
          x1 = int (from_be (bslice data 32 64));
          y0 = int (from_be (bslice data 64 96));
          y1 = int (from_be (bslice data 96 128))
      in if x0 \<ge> field_modulus L \<or> x1 \<ge> field_modulus L \<or> y0 \<ge> field_modulus L \<or> y1 \<ge> field_modulus L
         then Inl (Invalid ''field'')
         else let x = (x1, x0); y = (y1, y0);
                  z = (if x = (0, 0) \<and> y = (0, 0) then (0, 0) else (1, 0));
                  pt = (x, y, z)
              in if \<not> is_on_curve2 L pt then Inl (Invalid ''curve'') else Inr pt)"

definition catch_invalid :: "'a res \<Rightarrow> ('a \<Rightarrow> 'b res) \<Rightarrow> 'b res \<Rightarrow> 'b res" where
  \<comment> \<open>\<open>try: x = m / except Invalid: return h\<close>, then the rest of the body on \<open>x\<close>\<close>
  "catch_invalid m body h =
     (case m of Inr x \<Rightarrow> body x | Inl e \<Rightarrow> (case e of Invalid s \<Rightarrow> h | _ \<Rightarrow> Inl e))"

definition ecadd :: "'f pyecc \<Rightarrow> bytes \<Rightarrow> bytes res" where
  "ecadd L data =
     catch_invalid
       (ebind (bytes_to_g1 L (buffer_read data 0 64)) (\<lambda>p0.
        ebind (bytes_to_g1 L (buffer_read data 64 64)) (\<lambda>p1. Inr (p0, p1))))
       (\<lambda>(p0, p1). ebind (pack_u64 0) (\<lambda>s. ebind (bn_g1_bytes L (ec_add1 L p0 p1)) (\<lambda>b. Inr (s @ b))))
       (ebind (pack_u64 1) (\<lambda>s. Inr (s @ zeros 64)))"

definition ecmul :: "'f pyecc \<Rightarrow> bytes \<Rightarrow> bytes res" where
  "ecmul L data =
     catch_invalid (bytes_to_g1 L (buffer_read data 0 64))
       (\<lambda>p0. let n = from_be (buffer_read data 64 32) in
          ebind (pack_u64 0) (\<lambda>s. ebind (bn_g1_bytes L (multiply1 L p0 n)) (\<lambda>b. Inr (s @ b))))
       (ebind (pack_u64 1) (\<lambda>s. Inr (s @ zeros 64)))"

fun pairing_loop :: "'f pyecc \<Rightarrow> bytes \<Rightarrow> nat list \<Rightarrow> 'f \<Rightarrow> bytes res" where
  "pairing_loop L data [] result = pack_u64 (if result = fq12_one L then 1 else 0)"
| "pairing_loop L data (i # is) result =
     catch_invalid
       (ebind (bytes_to_g1 L (buffer_read data (192 * i) 64)) (\<lambda>p.
        ebind (bytes_to_g2 L (buffer_read data (192 * i + 64) 128)) (\<lambda>q. Inr (p, q))))
       (\<lambda>(p, q).
          if \<not> is_inf1 L (multiply1 L p (curve_order L)) then pack_u64 2
          else if \<not> is_inf2 L (multiply2 L q (curve_order L)) then pack_u64 2
          else pairing_loop L data is (fq12_mul L result (ec_pairing L q p)))
       (pack_u64 2)"

definition pairing_check :: "'f pyecc \<Rightarrow> bytes \<Rightarrow> bytes res" where
  "pairing_check L data =
     (if length data mod 192 \<noteq> 0 then pack_u64 3
      else pairing_loop L data [0..<length data div 192] (fq12_one L))"

definition bn_eval_record :: "'f pyecc \<Rightarrow> nat \<Rightarrow> bytes \<Rightarrow> bytes res" where
  "bn_eval_record L ty payload =
     (if ty = 1 then ecadd L payload
      else if ty = 2 then ecmul L payload
      else if ty = 3 then pairing_check L payload
      else if ty = 4 then
        let a = int (from_be (bslice payload 0 32)); b = int (from_be (bslice payload 32 64))
        in be32 (a * b mod field_modulus L)
      else if ty = 5 then
        ebind (bytes_to_g1 L (bslice payload 0 64)) (\<lambda>p.
        ebind (bytes_to_g2 L (bslice payload 64 192)) (\<lambda>q. fq12_bytes L (ec_pairing L q p)))
      else if ty = 6 then
        fq12_bytes L (fq12_mul L (fq12_from_bytes L (bslice payload 0 384)) (fq12_from_bytes L (bslice payload 384 768)))
      else if ty = 7 then fq12_bytes L (fq12_inv L (fq12_from_bytes L (bslice payload 0 384)))
      else if ty = 8 then fq12_bytes L (fq12_pow L (fq12_from_bytes L (bslice payload 0 384)) (nat (field_modulus L)))
      else Inl ValueError)"

definition bn_expected :: "'f pyecc \<Rightarrow> bytes \<Rightarrow> bytes res" where
  "bn_expected L blob = run_records (bn_eval_record L) blob 0 []"

definition neg_bytes_g1 :: "'f pyecc \<Rightarrow> bytes \<Rightarrow> bytes res" where
  "neg_bytes_g1 L b =
     (let x = bslice b 0 32; y = int (from_be (drop 32 b))
      in ebind (be32 ((field_modulus L - y) mod field_modulus L)) (\<lambda>n. Inr (x @ n)))"

section \<open>Decoding\<close>

lemma length_buffer_read [simp]: "length (buffer_read data start sz) = sz"
  by (simp add: buffer_read_def Let_def) 

definition g1_valid :: "'f pyecc \<Rightarrow> bytes \<Rightarrow> bool" where
  \<comment> \<open>what the EIP asks of the first 64 bytes: coordinates below the modulus, a point of the curve\<close>
  "g1_valid L data =
     (let x = int (from_be (bslice data 0 32)); y = int (from_be (bslice data 32 64))
      in x < field_modulus L \<and> y < field_modulus L \<and> is_on_curve1 L (x, y, if x = 0 \<and> y = 0 then 0 else 1))"

definition g1_point :: "bytes \<Rightarrow> int proj" where
  "g1_point data =
     (let x = int (from_be (bslice data 0 32)); y = int (from_be (bslice data 32 64))
      in (x, y, if x = 0 \<and> y = 0 then 0 else 1))"

definition g2_point :: "bytes \<Rightarrow> f2 proj" where
  "g2_point data =
     (let c = (\<lambda>i. int (from_be (bslice data (32 * i) (32 * i + 32)))); x = (c 1, c 0); y = (c 3, c 2)
      in (x, y, if x = (0, 0) \<and> y = (0, 0) then (0, 0) else (1, 0)))"

definition g2_valid :: "'f pyecc \<Rightarrow> bytes \<Rightarrow> bool" where
  "g2_valid L data \<longleftrightarrow>
     list_all (\<lambda>i. int (from_be (bslice data (32 * i) (32 * i + 32))) < field_modulus L) [0, 1, 2, 3] \<and> is_on_curve2 L (g2_point data)"

lemma bytes_to_g1_valid: "g1_valid L data \<Longrightarrow> bytes_to_g1 L data = Inr (g1_point data)"
  and bytes_to_g1_invalid: "\<not> g1_valid L data \<Longrightarrow> \<exists>s. bytes_to_g1 L data = Inl (Invalid s)"
  by (auto simp: bytes_to_g1_def g1_valid_def g1_point_def Let_def)

lemma bytes_to_g2_valid: "g2_valid L data \<Longrightarrow> bytes_to_g2 L data = Inr (g2_point data)"
  and bytes_to_g2_invalid: "\<not> g2_valid L data \<Longrightarrow> \<exists>s. bytes_to_g2 L data = Inl (Invalid s)"
  by (auto simp: bytes_to_g2_def g2_valid_def g2_point_def Let_def)

section \<open>The precompiles\<close>

lemma catch_invalid_simps [simp]:
  "catch_invalid (Inr x) body h = body x" "catch_invalid (Inl (Invalid s)) body h = h"
  by (simp_all add: catch_invalid_def)

lemma pack_u64_ok: "n < 2 ^ 64 \<Longrightarrow> pack_u64 n = Inr (le_fix 8 n)"
  by (simp add: pack_u64_iff)

lemma g1_cases:
  assumes "g1_valid L data \<Longrightarrow> P (Inr (g1_point data))" "\<And>s. \<not> g1_valid L data \<Longrightarrow> P (Inl (Invalid s))"
  shows "P (bytes_to_g1 L data)"
  using assms bytes_to_g1_valid bytes_to_g1_invalid by metis

lemma g2_cases:
  assumes "g2_valid L data \<Longrightarrow> P (Inr (g2_point data))" "\<And>s. \<not> g2_valid L data \<Longrightarrow> P (Inl (Invalid s))"
  shows "P (bytes_to_g2 L data)"
  using assms bytes_to_g2_valid bytes_to_g2_invalid by metis

context pyecc_bounds
begin

lemma g1_bytes_ok:
  assumes "w \<le> 32" obtains b where "bn_g1_bytes L p = Inr b" "length b = 64"
    "is_inf1 L p \<Longrightarrow> b = zeros 64"
    "\<not> is_inf1 L p \<Longrightarrow> b = be_fix 32 (nat (fst (normalize1 L p))) @ be_fix 32 (nat (snd (normalize1 L p)))"
proof (cases "is_inf1 L p")
  case False
  obtain x y where n: "normalize1 L p = (x, y)" by (rule prod.exhaust)
  show ?thesis
    by (rule that [of "be_fix 32 (nat x) @ be_fix 32 (nat y)"])
      (use False normalized1 [OF n] to_be_residue [OF assms] in \<open>simp_all add: bn_g1_bytes_def n\<close>)
qed (use that in \<open>simp add: bn_g1_bytes_def\<close>)

lemma fq12_bytes_ok:
  assumes "w \<le> 32" shows "\<exists>b. fq12_bytes L f = Inr b \<and> length b = 384"
proof -
  have "emap (int_to_be 32) (fq12_coeffs L f) = Inr (map (\<lambda>c. be_fix 32 (nat c)) (fq12_coeffs L f))"
    by (intro emap_Inr to_be_residue [OF assms] coeffs(2))
  then show ?thesis using coeffs(1) by (simp add: fq12_bytes_def length_concat comp_def sum_list_triv)
qed

lemma ecadd_ok:
  assumes "w \<le> 32"
  shows "\<exists>b. ecadd L data = Inr b \<and> length b = 72 \<and>
    (let d0 = buffer_read data 0 64; d1 = buffer_read data 64 64 in
     if g1_valid L d0 \<and> g1_valid L d1
     then take 8 b = le_fix 8 0 \<and> bn_g1_bytes L (ec_add1 L (g1_point d0) (g1_point d1)) = Inr (drop 8 b)
     else b = le_fix 8 1 @ zeros 64)"
proof -
  let ?d0 = "buffer_read data 0 64" and ?d1 = "buffer_read data 64 64"
  obtain b where b: "bn_g1_bytes L (ec_add1 L (g1_point ?d0) (g1_point ?d1)) = Inr b" "length b = 64"
    by (rule g1_bytes_ok [OF assms])
  show ?thesis
  proof (cases "g1_valid L ?d0 \<and> g1_valid L ?d1")
    case True
    then show ?thesis using b by (simp add: ecadd_def bytes_to_g1_valid pack_u64_ok Let_def)
  next
    case False
    then have "ecadd L data = Inr (le_fix 8 1 @ zeros 64)"
      using bytes_to_g1_valid [of L ?d0] bytes_to_g1_invalid [of L ?d0] bytes_to_g1_invalid [of L ?d1]
      by (cases "g1_valid L ?d0") (auto simp: ecadd_def pack_u64_ok)
    then show ?thesis using False by (auto simp: Let_def)
  qed
qed

lemma ecmul_ok:
  assumes "w \<le> 32"
  shows "\<exists>b. ecmul L data = Inr b \<and> length b = 72 \<and>
    (let d0 = buffer_read data 0 64 in
     if g1_valid L d0
     then take 8 b = le_fix 8 0 \<and> bn_g1_bytes L (multiply1 L (g1_point d0) (from_be (buffer_read data 64 32))) = Inr (drop 8 b)
     else b = le_fix 8 1 @ zeros 64)"
proof -
  let ?d0 = "buffer_read data 0 64"
  obtain b where b: "bn_g1_bytes L (multiply1 L (g1_point ?d0) (from_be (buffer_read data 64 32))) = Inr b" "length b = 64"
    by (rule g1_bytes_ok [OF assms])
  show ?thesis
    using b bytes_to_g1_valid [of L ?d0] bytes_to_g1_invalid [of L ?d0]
    by (cases "g1_valid L ?d0") (auto simp: ecmul_def pack_u64_ok Let_def)
qed

end

definition pair_point :: "'f pyecc \<Rightarrow> bytes \<Rightarrow> nat \<Rightarrow> int proj \<times> f2 proj" where
  "pair_point L data i = (g1_point (buffer_read data (192 * i) 64), g2_point (buffer_read data (192 * i + 64) 128))"

definition pair_valid :: "'f pyecc \<Rightarrow> bytes \<Rightarrow> nat \<Rightarrow> bool" where
  \<comment> \<open>both halves of pair \<open>i\<close> decode and lie in the subgroup of order \<open>R\<close>\<close>
  "pair_valid L data i \<longleftrightarrow>
     g1_valid L (buffer_read data (192 * i) 64) \<and> g2_valid L (buffer_read data (192 * i + 64) 128) \<and>
     is_inf1 L (multiply1 L (fst (pair_point L data i)) (curve_order L)) \<and>
     is_inf2 L (multiply2 L (snd (pair_point L data i)) (curve_order L))"

lemma pairing_loop_status:
  "pairing_loop L data is result =
     Inr (le_fix 8 (if list_all (pair_valid L data) is
       then (if foldl (\<lambda>r i. fq12_mul L r (case pair_point L data i of (p, q) \<Rightarrow> ec_pairing L q p)) result is = fq12_one L then 1 else 0)
       else 2))"
proof (induction "is" arbitrary: result)
  case (Cons i "is")
  let ?d = "buffer_read data (192 * i) 64" and ?e = "buffer_read data (192 * i + 64) 128"
  consider "\<not> g1_valid L ?d" | "g1_valid L ?d" "\<not> g2_valid L ?e" | "g1_valid L ?d" "g2_valid L ?e" by blast
  then show ?case
  proof cases
    case 1
    then obtain s where "bytes_to_g1 L ?d = Inl (Invalid s)" using bytes_to_g1_invalid by blast
    then show ?thesis using 1 by (simp add: pair_valid_def pack_u64_ok)
  next
    case 2
    then obtain s where "bytes_to_g2 L ?e = Inl (Invalid s)" using bytes_to_g2_invalid by blast
    then show ?thesis using 2 by (simp add: pair_valid_def pack_u64_ok bytes_to_g1_valid)
  next
    case 3
    then show ?thesis
      by (simp add: pair_valid_def pair_point_def pack_u64_ok bytes_to_g1_valid bytes_to_g2_valid Cons.IH)
  qed
qed (simp add: pack_u64_ok)

section \<open>The properties of the oracle\<close>

text \<open>Point decoding is the EIP's.  \<open>bytes_to_g1\<close> and \<open>bytes_to_g2\<close> return a point exactly when
  every coordinate is below the modulus and the point, infinity for all-zero coordinates, passes the
  curve check; the point is the one the bytes spell, with the two halves of an \<open>Fp2\<close> coordinate
  swapped; anything else raises \<open>Invalid\<close> and nothing else.\<close>

theorem bn_point_decoding:
  "(bytes_to_g1 L data = Inr p \<longleftrightarrow> g1_valid L data \<and> p = g1_point data) \<and>
   ((\<exists>s. bytes_to_g1 L data = Inl (Invalid s)) \<longleftrightarrow> \<not> g1_valid L data) \<and>
   (bytes_to_g2 L data = Inr q \<longleftrightarrow> g2_valid L data \<and> q = g2_point data) \<and>
   ((\<exists>s. bytes_to_g2 L data = Inl (Invalid s)) \<longleftrightarrow> \<not> g2_valid L data)"
  using bytes_to_g1_valid [of L data] bytes_to_g1_invalid [of L data] bytes_to_g2_valid [of L data] bytes_to_g2_invalid [of L data]
  by (cases "g1_valid L data"; cases "g2_valid L data") auto

text \<open>The addition and multiplication precompiles answer every call data, of any length, with 72
  bytes: status 0 and the serialised sum or multiple where the zero-extended input decodes, status
  1 and zeros where it does not.  No call data makes them raise.\<close>

theorem bn_add_mul_total:
  assumes "pyecc_bounds L 32"
  shows "(\<exists>b. ecadd L data = Inr b \<and> length b = 72 \<and>
      (let d0 = buffer_read data 0 64; d1 = buffer_read data 64 64 in
       if g1_valid L d0 \<and> g1_valid L d1
       then take 8 b = le_fix 8 0 \<and> bn_g1_bytes L (ec_add1 L (g1_point d0) (g1_point d1)) = Inr (drop 8 b)
       else b = le_fix 8 1 @ zeros 64)) \<and>
    (\<exists>b. ecmul L data = Inr b \<and> length b = 72 \<and>
      (let d0 = buffer_read data 0 64 in
       if g1_valid L d0
       then take 8 b = le_fix 8 0 \<and> bn_g1_bytes L (multiply1 L (g1_point d0) (from_be (buffer_read data 64 32))) = Inr (drop 8 b)
       else b = le_fix 8 1 @ zeros 64))"
  using pyecc_bounds.ecadd_ok [OF assms order_refl] pyecc_bounds.ecmul_ok [OF assms order_refl] by blast

lemma g1_point_bytes:
  "a < 256 ^ 32 \<Longrightarrow> b < 256 ^ 32 \<Longrightarrow> g1_point (be_fix 32 a @ be_fix 32 b) = (int a, int b, if a = 0 \<and> b = 0 then 0 else 1)"
  by (simp add: g1_point_def bslice_def from_be_be_fix Let_def)

lemma g1_valid_point: "g1_valid L d \<longleftrightarrow> (case g1_point d of (x, y, z) \<Rightarrow> x < field_modulus L \<and> y < field_modulus L \<and> is_on_curve1 L (x, y, z))"
  by (simp add: g1_valid_def g1_point_def Let_def)

lemma bn_add_mul_total_witness:
  "(\<exists>b. ecadd ecc7 (be_fix 32 1 @ be_fix 32 2 @ be_fix 32 1 @ be_fix 32 5) = Inr b \<and> length b = 72 \<and>
      drop 8 b = zeros 64) \<and>
   (\<exists>b. ecmul ecc7 (be_fix 32 1 @ be_fix 32 3) = Inr b \<and> length b = 72 \<and> take 8 b = le_fix 8 1)"
proof -
  let ?d = "be_fix 32 1 @ be_fix 32 2 @ be_fix 32 1 @ be_fix 32 5 :: bytes"
  let ?e = "be_fix 32 1 @ be_fix 32 3 :: bytes"
  have r: "buffer_read ?d 0 64 = be_fix 32 1 @ be_fix 32 2" "buffer_read ?d 64 64 = be_fix 32 1 @ be_fix 32 5"
    "buffer_read ?e 0 64 = be_fix 32 1 @ be_fix 32 3"
    by (simp_all add: buffer_read_def bslice_def zeros_def)
  have p: "g1_point (be_fix 32 1 @ be_fix 32 2) = (1, 2, 1)" "g1_point (be_fix 32 1 @ be_fix 32 5) = (1, 5, 1)"
    "g1_point (be_fix 32 1 @ be_fix 32 3) = (1, 3, 1)"
    using g1_point_bytes [of 1] by simp_all
  have v: "g1_valid ecc7 (be_fix 32 1 @ be_fix 32 2)" "g1_valid ecc7 (be_fix 32 1 @ be_fix 32 5)"
    "\<not> g1_valid ecc7 (be_fix 32 1 @ be_fix 32 3)"
    unfolding g1_valid_point p by (simp_all add: ecc7_def on_small_def F7_def)
  have s: "bn_g1_bytes ecc7 (ec_add1 ecc7 (1, 2, 1) (1, 5, 1)) = Inr (zeros 64)"
    by (simp add: bn_g1_bytes_def ecc7_def pt_add_def F7_def pt_inf_def pt_is_inf_def)
  have B: "pyecc_bounds ecc7 32" by (rule ecc7_bounds) simp
  note T = bn_add_mul_total [OF B]
  have "\<exists>b. ecadd ecc7 ?d = Inr b \<and> length b = 72 \<and> drop 8 b = zeros 64"
    using T [of ?d] unfolding r p Let_def by (auto simp: v s simp del: One_nat_def)
  moreover have "\<exists>b. ecmul ecc7 ?e = Inr b \<and> length b = 72 \<and> take 8 b = le_fix 8 1"
    using T [of ?e] unfolding r p Let_def by (auto simp: v simp del: One_nat_def)
  ultimately show ?thesis by blast
qed

text \<open>The four statuses of the pairing check.  3 exactly for a length that is not a multiple of
  192; otherwise 2 exactly when some pair does not decode or a half of it is outside the subgroup,
  whatever its position; otherwise 1 exactly when the product of the pairings, taken in order, is
  the unit, and 0 when not.  The check never raises.\<close>

theorem pairing_check_status:
  "pairing_check L data = Inr (le_fix 8
     (if length data mod 192 \<noteq> 0 then 3
      else if \<exists>i < length data div 192. \<not> pair_valid L data i then 2
      else if foldl (\<lambda>r i. fq12_mul L r (case pair_point L data i of (p, q) \<Rightarrow> ec_pairing L q p)) (fq12_one L)
        [0..<length data div 192] = fq12_one L then 1
      else 0))"
proof -
  have "list_all (pair_valid L data) [0..<length data div 192] \<longleftrightarrow> \<not> (\<exists>i < length data div 192. \<not> pair_valid L data i)"
    by (auto simp: list_all_iff)
  then show ?thesis by (auto simp: pairing_check_def pairing_loop_status pack_u64_ok simp del: One_nat_def)
qed

text \<open>The answer to a stream.  On the concatenation of the frames of any list of records,
  \<open>expected\<close> is the concatenation of the framed evaluations in order, and the first record that
  raises makes it raise the same; the frames it returns carry the type of the record they answer.\<close>

theorem bn_expected_stream:
  assumes "emap (\<lambda>rec. frame_record (fst rec) (snd rec)) recs = Inr fs"
  shows "bn_expected L (concat fs) =
    ebind (emap (\<lambda>rec. ebind (bn_eval_record L (fst rec) (snd rec)) (frame_record (fst rec))) recs) (\<lambda>gs. Inr (concat gs))"
  using run_records_frames [OF assms, of "bn_eval_record L"] by (simp add: bn_expected_def answer_def [abs_def])

lemma bn_expected_stream_witness:
  "bn_expected ecc7 (le_fix 8 4 @ le_fix 8 64 @ be_fix 32 5 @ be_fix 32 6) = Inr (le_fix 8 4 @ le_fix 8 32 @ be_fix 32 2)"
proof -
  let ?p = "be_fix 32 5 @ be_fix 32 6 :: bytes"
  have f: "emap (\<lambda>rec. frame_record (fst rec) (snd rec)) [(4, ?p)] = Inr [le_fix 8 4 @ le_fix 8 64 @ ?p]"
    by (simp add: frame_record_def pack_u64_def pad8_bytes_def zeros_def)
  have "bn_eval_record ecc7 4 ?p = Inr (be_fix 32 2)"
    by (simp add: bn_eval_record_def bslice_def from_be_be_fix ecc7_def int_to_be_def to_be_def)
  then show ?thesis
    using bn_expected_stream [OF f, of ecc7] by (simp add: frame_record_def pack_u64_def pad8_bytes_def zeros_def)
qed

end
