(* ===== verification/Fq2Sqrt.thy ===== *)
theory Fq2Sqrt
  imports Bn254
begin

text \<open>
  The square root of \<open>tools/gen_bn254_vectors.py\<close> (Tonelli and Shanks, over the quadratic extension)
  and the search for a twist point outside the subgroup that is built on it.  The four loops
  have no bound in the source: they are partial functions, \<open>None\<close> where they do not return, and the
  theorems say that they return.  Field arithmetic is that of \<open>py_ecc\<close>; the laws that the method needs
  (the multiplicative group of a field whose order is \<open>P ^ 2 - 1\<close>) are the locale \<open>fq2_field\<close>.
\<close>

section \<open>The functions of the file\<close>

record 'f bn_lib =
  ecc :: "'f pyecc"
  fq2_add :: "f2 \<Rightarrow> f2 \<Rightarrow> f2"
  fq2_pow :: "f2 \<Rightarrow> nat \<Rightarrow> f2"
  twist_b :: f2                     \<comment> \<open>\<open>C.b2\<close>\<close>
  G1_gen :: "int proj"
  G2_gen :: "f2 proj"
  ec_neg2 :: "f2 proj \<Rightarrow> f2 proj"

definition bn_mul :: "'f bn_lib \<Rightarrow> f2 \<Rightarrow> f2 \<Rightarrow> f2" where "bn_mul B = fq2_mul (ecc B)"
definition FQ2_one :: f2 where "FQ2_one = (1, 0)"

definition fq2_order :: "'f bn_lib \<Rightarrow> nat" where
  "fq2_order B = nat (field_modulus (ecc B) * field_modulus (ecc B) - 1)"

partial_function (option) two_adic :: "nat \<Rightarrow> nat \<Rightarrow> (nat \<times> nat) option" where
  \<comment> \<open>\<open>while q % 2 == 0\<close>\<close>
  "two_adic q s = (if q mod 2 = 0 then two_adic (q div 2) (s + 1) else Some (q, s))"

partial_function (option) find_nonresidue :: "'f bn_lib \<Rightarrow> f2 \<Rightarrow> f2 option" where
  "find_nonresidue B z =
     (if fq2_pow B z (fq2_order B div 2) = FQ2_one
      then find_nonresidue B ((fst z + 1) mod field_modulus (ecc B), snd z) else Some z)"

partial_function (option) square_count :: "'f bn_lib \<Rightarrow> nat \<Rightarrow> f2 \<Rightarrow> nat option" where
  \<comment> \<open>\<open>i, tt = 0, t\<close>; \<open>while tt != one\<close>\<close>
  "square_count B i tt = (if tt \<noteq> FQ2_one then square_count B (i + 1) (bn_mul B tt tt) else Some i)"

partial_function (option) sqrt_loop :: "'f bn_lib \<Rightarrow> nat \<Rightarrow> f2 \<Rightarrow> f2 \<Rightarrow> f2 \<Rightarrow> f2 res option" where
  \<comment> \<open>\<open>2 ** (m - i - 1)\<close> is not an integer when \<open>m \<le> i\<close>, which the theorem excludes\<close>
  "sqrt_loop B m c t r =
     (if t \<noteq> FQ2_one then
        Option.bind (square_count B 0 t) (\<lambda>i.
          if m < i + 1 then Some (Inl TypeError)
          else let b = fq2_pow B c (2 ^ (m - i - 1))
               in sqrt_loop B i (bn_mul B b b) (bn_mul B (bn_mul B t b) b) (bn_mul B r b))
      else Some (Inr r))"

definition fq2_sqrt :: "'f bn_lib \<Rightarrow> f2 \<Rightarrow> f2 option res option" where
  "fq2_sqrt B a =
     (if fq2_pow B a (fq2_order B div 2) \<noteq> FQ2_one then Some (Inr None)
      else Option.bind (two_adic (fq2_order B) 0) (\<lambda>(q, s).
           Option.bind (find_nonresidue B (2 mod field_modulus (ecc B), 1)) (\<lambda>z.
           Option.bind (sqrt_loop B s (fq2_pow B z q) (fq2_pow B a q) (fq2_pow B a ((q + 1) div 2)))
             (\<lambda>r. Some (ebind r (\<lambda>y. Inr (Some y)))))))"

partial_function (option) non_subgroup_g2 :: "'f bn_lib \<Rightarrow> (nat \<Rightarrow> int) \<Rightarrow> nat \<Rightarrow> (f2 proj \<times> nat) res option" where
  \<comment> \<open>the drawn numbers are a sequence, of which \<open>k\<close> are used up\<close>
  "non_subgroup_g2 B draw k =
     (let x = (draw k, draw (k + 1))
      in Option.bind (fq2_sqrt B (fq2_add B (fq2_pow B x 3) (twist_b B))) (\<lambda>y.
         case y of
           Inl e \<Rightarrow> Some (Inl e)
         | Inr None \<Rightarrow> non_subgroup_g2 B draw (k + 2)
         | Inr (Some y) \<Rightarrow>
             let pt = (x, y, FQ2_one) in
             if \<not> is_on_curve2 (ecc B) pt then Some (Inl AssertionError)
             else if \<not> is_inf2 (ecc B) (multiply2 (ecc B) pt (curve_order (ecc B))) then Some (Inr (pt, k + 2))
             else non_subgroup_g2 B draw (k + 2)))"

section \<open>The group that the method works in\<close>

locale fq2_field =
  fixes B :: "'f bn_lib" and C :: "f2 set" and neg1 :: f2
  assumes closed: "a \<in> C \<Longrightarrow> b \<in> C \<Longrightarrow> bn_mul B a b \<in> C"
    and assoc: "a \<in> C \<Longrightarrow> b \<in> C \<Longrightarrow> c \<in> C \<Longrightarrow> bn_mul B (bn_mul B a b) c = bn_mul B a (bn_mul B b c)"
    and comm: "a \<in> C \<Longrightarrow> b \<in> C \<Longrightarrow> bn_mul B a b = bn_mul B b a"
    and one: "FQ2_one \<in> C" "a \<in> C \<Longrightarrow> bn_mul B FQ2_one a = a"
    and pow: "a \<in> C \<Longrightarrow> fq2_pow B a 0 = FQ2_one" "a \<in> C \<Longrightarrow> fq2_pow B a (Suc n) = bn_mul B a (fq2_pow B a n)"
    and square_one: "a \<in> C \<Longrightarrow> bn_mul B a a = FQ2_one \<Longrightarrow> a = FQ2_one \<or> a = neg1"
    and neg1: "bn_mul B neg1 neg1 = FQ2_one"
    and modulus: "odd (field_modulus (ecc B))" "2 < field_modulus (ecc B)"
    and order: "a \<in> C \<Longrightarrow> a \<noteq> (0, 0) \<Longrightarrow> fq2_pow B a (fq2_order B) = FQ2_one"
    and elements: "0 \<le> x \<Longrightarrow> x < field_modulus (ecc B) \<Longrightarrow> (x, 1) \<in> C"
begin

abbreviation mul where "mul \<equiv> bn_mul B"
abbreviation pw where "pw \<equiv> fq2_pow B"
abbreviation one1 where "one1 \<equiv> FQ2_one"

lemma pow_closed: "a \<in> C \<Longrightarrow> pw a n \<in> C"
  by (induction n) (simp_all add: pow one closed)

lemma pow_add: "a \<in> C \<Longrightarrow> pw a (m + n) = mul (pw a m) (pw a n)"
  by (induction m) (simp_all add: pow one assoc pow_closed)

lemma pow_one: "pw one1 n = one1"
  by (induction n) (simp_all add: pow one)

lemma pow_mult: "a \<in> C \<Longrightarrow> pw a (m * n) = pw (pw a m) n"
  by (induction n) (simp_all add: pow pow_closed pow_add)

lemma left_comm: "a \<in> C \<Longrightarrow> b \<in> C \<Longrightarrow> c \<in> C \<Longrightarrow> mul a (mul b c) = mul b (mul a c)"
  by (metis assoc comm)

lemma pow_distrib: "a \<in> C \<Longrightarrow> b \<in> C \<Longrightarrow> pw (mul a b) n = mul (pw a n) (pw b n)"
  by (induction n) (simp_all add: pow one closed assoc left_comm pow_closed)

lemma pow_square: "a \<in> C \<Longrightarrow> mul (pw a n) (pw a n) = pw a (2 * n)"
  using pow_add [of a n n] by (simp add: mult_2)

lemma neg1_ne: "pw c n = neg1 \<Longrightarrow> c \<in> C \<Longrightarrow> mul (pw c n) (pw c n) = one1"
  by (simp add: neg1)

lemma square_root_of_one: "a \<in> C \<Longrightarrow> pw a (2 * n) = one1 \<Longrightarrow> pw a n \<noteq> one1 \<Longrightarrow> pw a n = neg1"
  using square_one [OF pow_closed [of a n]] by (auto simp: pow_square)

text \<open>Repeated squaring counts the order of an element whose order is a power of two.\<close>

lemma square_count_ok:
  "t \<in> C \<Longrightarrow> pw t (2 ^ k) = one1 \<Longrightarrow>
   \<exists>i \<le> k. square_count B j t = Some (j + i) \<and> pw t (2 ^ i) = one1 \<and> (0 < i \<longrightarrow> pw t (2 ^ (i - 1)) \<noteq> one1)"
proof (induction k arbitrary: t j)
  case 0
  then have "t = one1" by (simp add: pow one comm)
  then show ?case using 0 by (subst square_count.simps) simp
next
  case (Suc k)
  show ?case
  proof (cases "t = one1")
    case True
    then show ?thesis by (subst square_count.simps) (auto simp: pow_one intro!: exI [of _ 0])
  next
    case False
    have sq: "pw (mul t t) n = pw t (2 * n)" for n
      using pow_distrib [OF Suc.prems(1) Suc.prems(1)] pow_square [OF Suc.prems(1)] by simp
    have "pw (mul t t) (2 ^ k) = one1" using Suc.prems by (simp add: sq)
    from Suc.IH [OF closed [OF Suc.prems(1) Suc.prems(1)] this, of "j + 1"]
    obtain i where i: "i \<le> k" "square_count B (j + 1) (mul t t) = Some (j + 1 + i)" "pw t (2 * 2 ^ i) = one1"
      and last: "0 < i \<Longrightarrow> pw t (2 * 2 ^ (i - 1)) \<noteq> one1"
      unfolding sq by blast
    have "pw t (2 ^ i) \<noteq> one1"
    proof (cases "i = 0")
      case True
      then show ?thesis using False Suc.prems(1) by (simp add: pow one comm)
    qed (use last in \<open>simp flip: power_Suc\<close>)
    moreover have "square_count B j t = Some (j + Suc i)"
      using False i(2) by (subst square_count.simps) simp
    ultimately show ?thesis using i by (intro exI [of _ "Suc i"]) simp
  qed
qed

text \<open>
  The loop: \<open>t\<close> has an order below \<open>2 ^ m\<close>, \<open>c\<close> is a non-residue of that order, and \<open>r\<close> squares
  to \<open>a\<close> times \<open>t\<close>.
\<close>

lemma sqrt_loop_ok:
  "t \<in> C \<Longrightarrow> c \<in> C \<Longrightarrow> r \<in> C \<Longrightarrow> a \<in> C \<Longrightarrow> 0 < m \<Longrightarrow> pw t (2 ^ (m - 1)) = one1 \<Longrightarrow> pw c (2 ^ (m - 1)) = neg1 \<Longrightarrow>
   mul r r = mul a t \<Longrightarrow> \<exists>y \<in> C. sqrt_loop B m c t r = Some (Inr y) \<and> mul y y = a"
proof (induction m arbitrary: t c r rule: less_induct)
  case (less m)
  show ?case
  proof (cases "t = one1")
    case True
    then have "mul r r = a" using less.prems by (simp add: comm [of a] one)
    then show ?thesis using True less.prems by (subst sqrt_loop.simps) auto
  next
    case False
    obtain i where i: "i \<le> m - 1" "square_count B 0 t = Some i" "pw t (2 ^ i) = one1"
      "0 < i \<longrightarrow> pw t (2 ^ (i - 1)) \<noteq> one1"
      using square_count_ok [OF less.prems(1,6), of 0] by auto
    have i0: "0 < i"
    proof (rule ccontr)
      assume "\<not> 0 < i"
      then show False using i(3) False less.prems(1) by (simp add: pow one comm)
    qed
    define b where "b = pw c (2 ^ (m - i - 1))"
    have b: "b \<in> C" by (simp add: b_def pow_closed less.prems)
    have "2 * 2 ^ (m - i - 1) = (2 :: nat) ^ (m - i)"
      using i(1) i0 by (simp add: Suc_diff_Suc flip: power_Suc)
    then have bb: "mul b b = pw c (2 ^ (m - i))"
      using pow_square [OF less.prems(2), of "2 ^ (m - i - 1)"] by (simp add: b_def)
    have c1: "pw (mul b b) (2 ^ (i - 1)) = neg1"
    proof -
      have "(2 :: nat) ^ (m - i) * 2 ^ (i - 1) = 2 ^ (m - 1)" using i(1) i0 by (simp flip: power_add)
      then show ?thesis using less.prems(7) pow_mult [OF less.prems(2), of "2 ^ (m - i)" "2 ^ (i - 1)"] by (simp add: bb)
    qed
    have "pw t (2 * 2 ^ (i - 1)) = one1" using i(3) i0 by (simp flip: power_Suc)
    then have t1: "pw t (2 ^ (i - 1)) = neg1" using square_root_of_one [OF less.prems(1)] i(4) i0 by blast
    have e: "mul (mul t b) b = mul t (mul b b)" using b less.prems(1) by (simp add: assoc)
    have t': "pw (mul (mul t b) b) (2 ^ (i - 1)) = one1"
      by (simp only: e pow_distrib [OF less.prems(1) closed [OF b b]] t1 c1 neg1)
    have r': "mul (mul r b) (mul r b) = mul a (mul (mul t b) b)"
      unfolding e using b less.prems(1,3,4,8) by (metis assoc closed comm)
    have "i < m" "\<not> m < i + 1" using i(1) less.prems(5) by simp_all
    moreover have "\<exists>y \<in> C. sqrt_loop B i (mul b b) (mul (mul t b) b) (mul r b) = Some (Inr y) \<and> mul y y = a"
      by (rule less.IH) (use \<open>i < m\<close> b less.prems(1-4) i0 t' c1 r' closed in simp_all)
    ultimately show ?thesis using False i(2) by (subst sqrt_loop.simps) (simp add: Let_def b_def)
  qed
qed

lemma two_adic_ok: "0 < q \<Longrightarrow> \<exists>q' k. two_adic q s = Some (q', s + k) \<and> q = q' * 2 ^ k \<and> odd q'"
proof (induction q arbitrary: s rule: less_induct)
  case (less q)
  show ?case
  proof (cases "q mod 2 = 0")
    case True
    then have "q div 2 < q" "0 < q div 2" "q = q div 2 * 2" using less.prems by auto
    then obtain q' k where "two_adic (q div 2) (s + 1) = Some (q', s + 1 + k)" "q div 2 = q' * 2 ^ k" "odd q'"
      using less.IH by blast
    then show ?thesis using True \<open>q = q div 2 * 2\<close>
      by (intro exI [of _ q'] exI [of _ "Suc k"]) (subst two_adic.simps, simp)
  next
    case False
    then show ?thesis by (intro exI [of _ q] exI [of _ 0]) (subst two_adic.simps, auto simp: even_iff_mod_2_eq_zero)
  qed
qed

lemma order_even: "2 * (fq2_order B div 2) = fq2_order B" "0 < fq2_order B"
proof -
  let ?p = "field_modulus (ecc B)"
  have "even (?p * ?p - 1)" using modulus by simp
  moreover have "2 * 2 \<le> ?p * ?p" using modulus by (intro mult_mono) simp_all
  ultimately show "2 * (fq2_order B div 2) = fq2_order B" "0 < fq2_order B"
    by (simp_all add: fq2_order_def even_nat_iff)
qed

lemma find_nonresidue_ok:
  "0 \<le> x \<Longrightarrow> x < field_modulus (ecc B) \<Longrightarrow> pw ((x + int k) mod field_modulus (ecc B), 1) (fq2_order B div 2) \<noteq> one1 \<Longrightarrow>
   \<exists>z. find_nonresidue B (x, 1) = Some z \<and> z \<in> C \<and> pw z (fq2_order B div 2) = neg1"
proof (induction k arbitrary: x)
  case 0
  then have ne: "pw (x, 1) (fq2_order B div 2) \<noteq> one1" and c: "(x, 1) \<in> C" by (simp_all add: elements)
  have "pw (x, 1) (2 * (fq2_order B div 2)) = one1" unfolding order_even by (rule order [OF c]) simp
  then show ?case using square_root_of_one [OF c _ ne] ne c by (subst find_nonresidue.simps) simp
next
  case (Suc k)
  let ?p = "field_modulus (ecc B)"
  show ?case
  proof (cases "pw (x, 1) (fq2_order B div 2) = one1")
    case True
    have "((x + 1) mod ?p + int k) mod ?p = (x + int (Suc k)) mod ?p" by (simp add: mod_simps algebra_simps)
    then show ?thesis using Suc.IH [of "(x + 1) mod ?p"] Suc.prems modulus True by (subst find_nonresidue.simps) simp
  next
    case False
    have c: "(x, 1) \<in> C" using Suc.prems by (simp add: elements)
    have "pw (x, 1) (2 * (fq2_order B div 2)) = one1" unfolding order_even by (rule order [OF c]) simp
    then show ?thesis using square_root_of_one [OF c _ False] False c by (subst find_nonresidue.simps) simp
  qed
qed

lemma fq2_sqrt_ok:
  assumes a: "a \<in> C" and z: "pw ((2 + int k) mod field_modulus (ecc B), 1) (fq2_order B div 2) \<noteq> one1"
  shows "\<exists>r. fq2_sqrt B a = Some (Inr r) \<and>
    (case r of Some y \<Rightarrow> y \<in> C \<and> mul y y = a | None \<Rightarrow> \<forall>y \<in> C. y \<noteq> (0, 0) \<longrightarrow> mul y y \<noteq> a)"
proof (cases "pw a (fq2_order B div 2) = one1")
  case False
  have "mul y y \<noteq> a" if "y \<in> C" "y \<noteq> (0, 0)" for y
  proof
    assume "mul y y = a"
    then have "pw a (fq2_order B div 2) = pw y (2 * (fq2_order B div 2))"
      using pow_distrib [OF that(1) that(1)] pow_square [OF that(1)] by auto
    then show False using False order [OF that] by (simp add: order_even)
  qed
  then show ?thesis using False by (simp add: fq2_sqrt_def)
next
  case True
  obtain q e where q: "two_adic (fq2_order B) 0 = Some (q, e)" "fq2_order B = q * 2 ^ e" "odd q"
    using two_adic_ok [OF order_even(2), of 0] by auto
  have "2 mod field_modulus (ecc B) = 2" using modulus by simp
  then obtain z where z: "find_nonresidue B (2 mod field_modulus (ecc B), 1) = Some z" "z \<in> C" "pw z (fq2_order B div 2) = neg1"
    using find_nonresidue_ok [of 2 k] z modulus by auto
  have "even (q * 2 ^ e)" unfolding q(2) [symmetric] by (metis order_even(1) dvd_triv_left)
  then have e: "0 < e" using q(3) by (cases e) auto
  have half: "fq2_order B div 2 = q * 2 ^ (e - 1)"
    using e by (cases e) (simp_all add: q(2))
  obtain j where j: "q = 2 * j + 1" using q(3) by (rule oddE)
  have "\<exists>y \<in> C. sqrt_loop B e (pw z q) (pw a q) (pw a ((q + 1) div 2)) = Some (Inr y) \<and> mul y y = a"
  proof (rule sqrt_loop_ok)
    show "pw (pw a q) (2 ^ (e - 1)) = one1" "pw (pw z q) (2 ^ (e - 1)) = neg1"
      using True z(3) a z(2) by (simp_all add: half pow_mult)
    have "2 * ((q + 1) div 2) = Suc q" by (simp add: j)
    then show "mul (pw a ((q + 1) div 2)) (pw a ((q + 1) div 2)) = mul a (pw a q)"
      using a by (simp only: pow_square pow)
  qed (use a z e in \<open>simp_all add: pow_closed\<close>)
  then obtain y where y: "y \<in> C" "sqrt_loop B e (pw z q) (pw a q) (pw a ((q + 1) div 2)) = Some (Inr y)" "mul y y = a"
    by blast
  have "fq2_sqrt B a = Some (Inr (Some y))" using True q(1) z(1) y(2) by (simp add: fq2_sqrt_def)
  then show ?thesis using y by simp
qed

text \<open>
  The search returns as soon as a drawn abscissa has a root that gives a point outside the subgroup, with
  a point of the curve and outside the subgroup.
\<close>

lemma non_subgroup_g2_ok:
  assumes z: "pw ((2 + int n) mod field_modulus (ecc B), 1) (fq2_order B div 2) \<noteq> one1"
    and rhs: "\<And>i. fq2_add B (pw (draw i, draw (i + 1)) 3) (twist_b B) \<in> C"
    and curve: "\<And>i y. y \<in> C \<Longrightarrow> mul y y = fq2_add B (pw (draw i, draw (i + 1)) 3) (twist_b B) \<Longrightarrow>
      is_on_curve2 (ecc B) ((draw i, draw (i + 1)), y, one1)"
    and good: "fq2_sqrt B (fq2_add B (pw (draw (k + 2 * j), draw (k + 2 * j + 1)) 3) (twist_b B)) = Some (Inr (Some y))"
      "\<not> is_inf2 (ecc B) (multiply2 (ecc B) ((draw (k + 2 * j), draw (k + 2 * j + 1)), y, one1) (curve_order (ecc B)))"
  shows "\<exists>x y m. non_subgroup_g2 B draw k = Some (Inr ((x, y, one1), m)) \<and> k < m \<and> m \<le> k + 2 * j + 2 \<and>
    is_on_curve2 (ecc B) (x, y, one1) \<and> \<not> is_inf2 (ecc B) (multiply2 (ecc B) (x, y, one1) (curve_order (ecc B)))"
  using good
proof (induction j arbitrary: k)
  case 0
  let ?rhs = "fq2_add B (pw (draw k, draw (k + 1)) 3) (twist_b B)"
  have "mul y y = ?rhs" "y \<in> C" using fq2_sqrt_ok [OF rhs [of k] z] 0(1) by auto
  then show ?case using 0 curve [of y k] by (subst non_subgroup_g2.simps) simp
next
  case (Suc j)
  let ?x = "(draw k, draw (k + 1))"
  obtain r where r: "fq2_sqrt B (fq2_add B (pw ?x 3) (twist_b B)) = Some (Inr r)"
    "case r of Some y \<Rightarrow> y \<in> C \<and> mul y y = fq2_add B (pw ?x 3) (twist_b B) | None \<Rightarrow> True"
    using fq2_sqrt_ok [OF rhs [of k] z] by (auto split: option.splits)
  have IH: "\<exists>x y m. non_subgroup_g2 B draw (k + 2) = Some (Inr ((x, y, one1), m)) \<and> k + 2 < m \<and> m \<le> k + 2 + 2 * j + 2 \<and>
    is_on_curve2 (ecc B) (x, y, one1) \<and> \<not> is_inf2 (ecc B) (multiply2 (ecc B) (x, y, one1) (curve_order (ecc B)))"
    using Suc.prems by (intro Suc.IH) (simp_all add: algebra_simps)
  show ?case
  proof (cases "\<exists>y. r = Some y \<and> \<not> is_inf2 (ecc B) (multiply2 (ecc B) (?x, y, one1) (curve_order (ecc B)))")
    case True
    then show ?thesis using r curve [of _ k] by (subst non_subgroup_g2.simps) (auto simp: Let_def)
  next
    case False
    then have "non_subgroup_g2 B draw k = non_subgroup_g2 B draw (k + 2)"
      using r curve [of _ k] by (subst non_subgroup_g2.simps) (auto simp: Let_def split: option.splits)
    moreover have "k < m" "m \<le> k + 2 * Suc j + 2" if "k + 2 < m" "m \<le> k + 2 + 2 * j + 2" for m using that by simp_all
    ultimately show ?thesis using IH by metis
  qed
qed

end

section \<open>A small instance\<close>

primrec pow49 :: "f2 \<Rightarrow> nat \<Rightarrow> f2" where
  "pow49 a 0 = (1, 0)"
| "pow49 a (Suc n) = f_mul F49 a (pow49 a n)"

definition lib7 :: "int bn_lib" where
  "lib7 = \<lparr>ecc = ecc7, fq2_add = f_add F49, fq2_pow = pow49, twist_b = (3, 0), G1_gen = (1, 2, 1),
     G2_gen = ((1, 0), (2, 0), (1, 0)), ec_neg2 = (\<lambda>(x, y, z). (x, f_neg F49 y, z))\<rparr>"

definition pairs49 :: "f2 list" where "pairs49 = concat (map (\<lambda>x. map (\<lambda>y. (x, y)) [0..6]) [0..6])"

lemma pairs49_iff: "a \<in> set pairs49 \<longleftrightarrow> fst a \<in> {0..6} \<and> snd a \<in> {0..6}"
proof -
  have "set pairs49 = {0..6} \<times> {0..6}" by (auto simp: pairs49_def)
  then show ?thesis by (cases a) simp
qed

lemma pairs49_laws:
  "list_all (\<lambda>a. a = (0, 0) \<or> pow49 a 48 = (1, 0)) pairs49"
  "list_all (\<lambda>a. f_mul F49 a a = (1, 0) \<longrightarrow> a = (1, 0) \<or> a = (6, 0)) pairs49"
  by code_simp+

lemma mul49: "f_mul F49 a b = ((fst a * fst b - snd a * snd b) mod 7, (fst a * snd b + snd a * fst b) mod 7)"
  by (simp add: F49_def)

lemma lib7_fields [simp]:
  "bn_mul lib7 = f_mul F49" "fq2_pow lib7 = pow49" "field_modulus (ecc lib7) = 7" "fq2_order lib7 = 48"
  by (simp_all add: lib7_def bn_mul_def ecc7_def fq2_order_def)

lemma mod_sum_inner:
  fixes x y z w :: int
  shows "(x * (y mod n) + z * (w mod n)) mod n = (x * y + z * w) mod n" "(x * (y mod n) - z * (w mod n)) mod n = (x * y - z * w) mod n"
  by (rule mod_add_cong, simp_all add: mod_simps) (rule mod_diff_cong, simp_all add: mod_simps)

lemma mod_sum_inner_left:
  fixes x y z w :: int
  shows "((y mod n) * x + (w mod n) * z) mod n = (y * x + w * z) mod n" "((y mod n) * x - (w mod n) * z) mod n = (y * x - w * z) mod n"
  using mod_sum_inner [of x y n z w] by (simp_all only: mult.commute)

interpretation lib7: fq2_field lib7 "set pairs49" "(6, 0)"
proof unfold_locales
  show "bn_mul lib7 a b \<in> set pairs49" for a b
    unfolding pairs49_iff by (simp add: mul49) (smt (verit) pos_mod_bound pos_mod_sign)
  show "bn_mul lib7 (bn_mul lib7 a b) c = bn_mul lib7 a (bn_mul lib7 b c)" for a b c
    by (simp only: lib7_fields mul49 fst_conv snd_conv mod_sum_inner mod_sum_inner_left) (simp add: algebra_simps)
  show "bn_mul lib7 a b = bn_mul lib7 b a" for a b
    by (simp add: mul49 algebra_simps)
  show "bn_mul lib7 FQ2_one a = a" if "a \<in> set pairs49" for a
    using that unfolding pairs49_iff by (cases a) (simp add: mul49 FQ2_one_def)
  show "bn_mul lib7 a a = FQ2_one \<Longrightarrow> a = FQ2_one \<or> a = (6, 0)" if "a \<in> set pairs49" for a
    using that pairs49_laws(2) by (auto simp: list_all_iff FQ2_one_def)
  show "fq2_pow lib7 a (fq2_order lib7) = FQ2_one" if "a \<in> set pairs49" "a \<noteq> (0, 0)" for a
    using that pairs49_laws(1) by (auto simp: list_all_iff FQ2_one_def)
qed (simp_all add: pairs49_iff FQ2_one_def mul49)

section \<open>The square root\<close>



end
