(* ===== verification/BnCases.thy ===== *)
theory BnCases
  imports Fq2Sqrt
begin

text \<open>
  The list of cases of \<open>tools/gen_bn254_vectors.py\<close> and the two files that its main function writes.
  Drawn numbers are the fields of a record (the twist search consumes a sequence of its own), the curve
  library is the record of \<open>Fq2Sqrt\<close>.  The theorems say that on a library with the documented
  behaviour of \<open>py_ecc\<close> every record of the list is answered, and which answer the malformed ones have.
\<close>

section \<open>The functions of the file\<close>

record bn_draws =
  d_fields :: "(int \<times> int) list"       \<comment> \<open>\<open>randrange(P)\<close>, six pairs\<close>
  d_adds :: "(nat \<times> nat) list"         \<comment> \<open>\<open>randrange(1, R)\<close>, six pairs\<close>
  d_short :: int                       \<comment> \<open>\<open>randrange(2 ** 256)\<close>, of which 16 bytes are used\<close>
  d_muls :: "(nat \<times> int) list"         \<comment> \<open>\<open>randrange(1, R)\<close> and \<open>randrange(2 ** 256)\<close>, four pairs\<close>
  d_a :: nat
  d_b :: nat
  d_twist :: "nat \<Rightarrow> int"               \<comment> \<open>the draws of \<open>non_subgroup_g2\<close>\<close>
  d_raw :: nat
  d_fq12 :: "(int list \<times> int list) list"  \<comment> \<open>twelve coordinates each, three pairs\<close>

definition cat :: "bytes res list \<Rightarrow> bytes res" where
  "cat ms = ebind (seqs ms) (\<lambda>bs. Inr (concat bs))"

definition case_of :: "nat \<Rightarrow> bytes res list \<Rightarrow> (nat \<times> bytes) res" where
  "case_of ty ms = ebind (cat ms) (\<lambda>b. Inr (ty, b))"

definition m1 :: "'f bn_lib \<Rightarrow> nat \<Rightarrow> bytes res" where
  \<comment> \<open>\<open>g1_bytes(m1(k))\<close>\<close>
  "m1 B k = bn_g1_bytes (ecc B) (multiply1 (ecc B) (G1_gen B) k)"

definition m2 :: "'f bn_lib \<Rightarrow> nat \<Rightarrow> bytes res" where
  "m2 B k = bn_g2_bytes (ecc B) (multiply2 (ecc B) (G2_gen B) k)"

definition bn_field_cases :: "'f bn_lib \<Rightarrow> bn_draws \<Rightarrow> (nat \<times> bytes) list res" where
  "bn_field_cases B D =
     (let P = field_modulus (ecc B)
      in emap (\<lambda>(a, b). case_of 4 [be32 a, be32 b]) ([(0, 5), (1, P - 1), (P - 1, P - 1), (2, 3), (P - 1, 1)] @ d_fields D))"

definition bn_add_cases :: "'f bn_lib \<Rightarrow> bn_draws \<Rightarrow> (nat \<times> bytes) list res" where
  "bn_add_cases B D =
     (let P = field_modulus (ecc B); g = bn_g1_bytes (ecc B) (G1_gen B)
      in seqs ([case_of 1 [g, g], case_of 1 [g, m1 B 2], case_of 1 [g, Inr (zeros 64)], case_of 1 [Inr (zeros 128)],
           case_of 1 [g, ebind g (neg_bytes_g1 (ecc B))], case_of 1 [], case_of 1 [g], case_of 1 [g, g, Inr (replicate 40 0x11)],
           case_of 1 [be32 P, be32 2, g], case_of 1 [g, be32 1, be32 (2 ^ 256 - 1)], case_of 1 [be32 1, be32 3, g],
           case_of 1 [g, ebind g (\<lambda>b. Inr (take 36 b))]]
         @ map (\<lambda>(a, b). case_of 1 [m1 B a, m1 B b]) (d_adds D)
         @ [case_of 1 [m1 B 7, m1 B 7]]))"

definition bn_mul_cases :: "'f bn_lib \<Rightarrow> bn_draws \<Rightarrow> (nat \<times> bytes) list res" where
  "bn_mul_cases B D =
     (let P = field_modulus (ecc B); R = int (curve_order (ecc B)); g = bn_g1_bytes (ecc B) (G1_gen B)
      in seqs ([case_of 2 [g, be32 0], case_of 2 [g, be32 1], case_of 2 [g, be32 2], case_of 2 [g, be32 R],
           case_of 2 [g, be32 (R + 1)], case_of 2 [g, be32 (2 ^ 256 - 1)], case_of 2 [Inr (zeros 64), be32 5],
           case_of 2 [be32 1, be32 3, be32 2], case_of 2 [g],
           case_of 2 [g, ebind (be32 (d_short D)) (\<lambda>b. Inr (take 16 b))],
           case_of 2 [be32 P, be32 2, be32 1]]
         @ map (\<lambda>(k, n). case_of 2 [m1 B k, be32 n]) (d_muls D)))"

definition bn_pairings :: "'f bn_lib \<Rightarrow> bn_draws \<Rightarrow> f2 proj \<Rightarrow> f2 proj \<Rightarrow> bytes list res" where
  \<comment> \<open>the pairings, given the two points outside the subgroup\<close>
  "bn_pairings B D n1 n2 =
     (let L = ecc B; P = field_modulus L; g = bn_g1_bytes L (G1_gen B); q = bn_g2_bytes L (G2_gen B);
          neg = (\<lambda>b. ebind b (neg_bytes_g1 L)); a = d_a D; b = d_b D
      in seqs [
        Inr [],
        cat [g, q, neg g, q],
        cat [m1 B a, m2 B b, neg (m1 B (a * b mod curve_order L)), q],
        cat [m1 B a, m2 B b, m1 B b, bn_g2_bytes L (ec_neg2 B (multiply2 L (G2_gen B) a))],
        cat [g, q],
        cat [g, q, g, q, neg (m1 B 2), q],
        cat [m1 B 3, q, neg g, q],
        cat [Inr (zeros 64), q],
        cat [g, Inr (zeros 128)],
        cat [be32 1, be32 3, q],
        cat [g, be32 P, ebind q (\<lambda>b. Inr (drop 32 b))],
        cat [g, ebind q (\<lambda>b. Inr (bslice b 32 64)), ebind q (\<lambda>b. Inr (take 32 b)), ebind q (\<lambda>b. Inr (drop 64 b))],
        cat [g, bn_g2_bytes L n1],
        cat [Inr (zeros 64), bn_g2_bytes L n2],
        ebind (cat [g, q]) (\<lambda>b. Inr (take 191 b)),
        cat [g, q, Inr [0]]])"

definition bn_raw_cases :: "'f bn_lib \<Rightarrow> bn_draws \<Rightarrow> (nat \<times> bytes) list res" where
  "bn_raw_cases B D =
     seqs [case_of 5 [bn_g1_bytes (ecc B) (G1_gen B), bn_g2_bytes (ecc B) (G2_gen B)], case_of 5 [m1 B 2, m2 B (d_raw D)]]"

definition bn_fq12_cases :: "'f bn_lib \<Rightarrow> bn_draws \<Rightarrow> (nat \<times> bytes) list res" where
  "bn_fq12_cases B D =
     (let L = ecc B; f = (\<lambda>cs. fq12_bytes L (fq12_of L cs))
      in seqs (concat (map (\<lambda>(fa, fb). [case_of 6 [f fa, f fb], case_of 7 [f fa], case_of 8 [f fa]]) (d_fq12 D))
         @ [case_of 7 [f (1 # replicate 11 0)], case_of 7 [f (0 # 1 # replicate 10 0)]]))"

definition bn_records :: "'f bn_lib \<Rightarrow> bn_draws \<Rightarrow> int \<Rightarrow> f2 proj \<Rightarrow> f2 proj \<Rightarrow> (nat \<times> bytes) list res" where
  \<comment> \<open>\<open>recs\<close>, given the two points outside the subgroup\<close>
  "bn_records B D n_pairings n1 n2 =
     ebind (bn_field_cases B D) (\<lambda>fs. ebind (bn_add_cases B D) (\<lambda>as. ebind (bn_mul_cases B D) (\<lambda>ms.
     ebind (bn_pairings B D n1 n2) (\<lambda>ps. ebind (bn_raw_cases B D) (\<lambda>rs. ebind (bn_fq12_cases B D) (\<lambda>qs.
       Inr (fs @ as @ ms @ map (\<lambda>b. (3, b)) (if n_pairings \<ge> 0 then take (nat n_pairings) ps else ps) @ rs @ qs)))))))"

definition bn_make_cases :: "'f bn_lib \<Rightarrow> bn_draws \<Rightarrow> int \<Rightarrow> (nat \<times> bytes) list res option" where
  "bn_make_cases B D n_pairings =
     Option.bind (non_subgroup_g2 B (d_twist D) 0) (\<lambda>r1. case r1 of Inl e \<Rightarrow> Some (Inl e) | Inr (n1, k) \<Rightarrow>
       Option.bind (non_subgroup_g2 B (d_twist D) k) (\<lambda>r2. case r2 of Inl e \<Rightarrow> Some (Inl e) | Inr (n2, k') \<Rightarrow>
         Some (bn_records B D n_pairings n1 n2)))"

definition bn_files :: "'f bn_lib \<Rightarrow> (nat \<times> bytes) list \<Rightarrow> nat list \<Rightarrow> (bytes \<times> bytes) res" where
  \<comment> \<open>the input and the expected file, given the records and the types of \<open>--only\<close> (none: all)\<close>
  "bn_files B recs only =
     (let recs = (if only \<noteq> [] then filter (\<lambda>r. fst r \<in> set only) recs else recs)
      in ebind (emap (\<lambda>(ty, pl). frame_record ty pl) recs) (\<lambda>fs. let blob = concat fs in
         ebind (bn_expected (ecc B) blob) (\<lambda>exp.
         ebind (pack_u64 (length blob)) (\<lambda>n. Inr (n @ pad8_bytes blob, exp)))))"

section \<open>Statuses of single records\<close>

definition status_is :: "'f pyecc \<Rightarrow> nat \<times> bytes \<Rightarrow> nat option \<Rightarrow> bool" where
  \<comment> \<open>the record is answered, with the given error or status word where one is given\<close>
  "status_is L rec st \<longleftrightarrow>
     (case bn_eval_record L (fst rec) (snd rec) of
        Inl e \<Rightarrow> False
      | Inr a \<Rightarrow> (case st of None \<Rightarrow> True | Some s \<Rightarrow> take 8 a = le_fix 8 s))"

lemma status_isI: "bn_eval_record L ty d = Inr a \<Longrightarrow> (case st of None \<Rightarrow> True | Some s \<Rightarrow> take 8 a = le_fix 8 s) \<Longrightarrow> status_is L (ty, d) st"
  by (simp add: status_is_def)

lemma eval_simps:
  "bn_eval_record L 1 d = ecadd L d" "bn_eval_record L 2 d = ecmul L d" "bn_eval_record L 3 d = pairing_check L d"
  by (simp_all add: bn_eval_record_def)

lemma status_add:
  assumes "pyecc_bounds L 32"
  shows "status_is L (1, d) (Some (if g1_valid L (buffer_read d 0 64) \<and> g1_valid L (buffer_read d 64 64) then 0 else 1))"
proof -
  obtain b where b: "ecadd L d = Inr b" "if g1_valid L (buffer_read d 0 64) \<and> g1_valid L (buffer_read d 64 64)
      then take 8 b = le_fix 8 0 else b = le_fix 8 1 @ zeros 64"
    using pyecc_bounds.ecadd_ok [OF assms order_refl, of d] unfolding Let_def by metis
  show ?thesis by (rule status_isI [of _ _ _ b]) (use b in \<open>simp_all add: eval_simps split: if_splits del: One_nat_def\<close>)
qed

lemma status_mul:
  assumes "pyecc_bounds L 32"
  shows "status_is L (2, d) (Some (if g1_valid L (buffer_read d 0 64) then 0 else 1))"
proof -
  obtain b where b: "ecmul L d = Inr b" "if g1_valid L (buffer_read d 0 64) then take 8 b = le_fix 8 0 else b = le_fix 8 1 @ zeros 64"
    using pyecc_bounds.ecmul_ok [OF assms order_refl, of d] unfolding Let_def by metis
  show ?thesis by (rule status_isI [of _ _ _ b]) (use b in \<open>simp_all add: eval_simps split: if_splits del: One_nat_def\<close>)
qed

lemma status_pairing:
  "status_is L (3, d) None" "length d mod 192 \<noteq> 0 \<Longrightarrow> status_is L (3, d) (Some 3)"
  "status_is L (3, []) (Some 1)" "length d = 192 \<Longrightarrow> \<not> pair_valid L d 0 \<Longrightarrow> status_is L (3, d) (Some 2)"
  by (simp_all add: status_is_def eval_simps pairing_check_def pairing_loop_status pack_u64_ok upt_rec [of 0 1] del: One_nat_def)

lemma status_field:
  assumes "pyecc_bounds L 32"
  shows "status_is L (4, d) None"
  by (rule status_isI) (simp_all add: bn_eval_record_def Let_def pyecc_bounds.to_be_mod [OF assms order_refl])

lemma status_raw:
  assumes "pyecc_bounds L 32" "g1_valid L (bslice d 0 64)" "g2_valid L (bslice d 64 192)"
  shows "status_is L (5, d) None"
proof -
  obtain b where "fq12_bytes L (ec_pairing L (g2_point (bslice d 64 192)) (g1_point (bslice d 0 64))) = Inr b"
    using pyecc_bounds.fq12_bytes_ok [OF assms(1) order_refl] by blast
  then show ?thesis
    by (intro status_isI [of _ _ _ b]) (simp_all add: bn_eval_record_def bytes_to_g1_valid [OF assms(2)] bytes_to_g2_valid [OF assms(3)])
qed

lemma status_fq12:
  assumes "pyecc_bounds L 32" "ty \<in> {6, 7, 8}"
  shows "status_is L (ty, d) None"
proof -
  obtain f where "bn_eval_record L ty d = fq12_bytes L f" using assms(2) by (auto simp: bn_eval_record_def)
  moreover obtain b where "fq12_bytes L f = Inr b" using pyecc_bounds.fq12_bytes_ok [OF assms(1) order_refl] by blast
  ultimately show ?thesis by (intro status_isI [of _ _ _ b]) simp_all
qed

lemma read_blocks [simp]:
  "length g = 64 \<Longrightarrow> buffer_read (g @ r) 0 64 = g" "length g = 64 \<Longrightarrow> buffer_read g 0 64 = g"
  "length g = 64 \<Longrightarrow> buffer_read (g @ r) 64 n = buffer_read r 0 n" "length g = 64 \<Longrightarrow> buffer_read g 64 n = zeros n"
  "buffer_read [] i n = zeros n"
  by (simp_all add: buffer_read_def bslice_def zeros_def)

lemma bslice_zeros: "bslice (zeros n) i j = zeros (min (j - i) (n - i))"
  by (simp add: bslice_def zeros_def)

lemma read_blocks32 [simp]:
  "length a = 32 \<Longrightarrow> length b = 32 \<Longrightarrow> buffer_read (a @ b @ r) 0 64 = a @ b" "length a = 32 \<Longrightarrow> length b = 32 \<Longrightarrow> buffer_read (a @ b) 0 64 = a @ b"
  "buffer_read (zeros n) i k = zeros k"
  by (auto simp: buffer_read_def bslice_def zeros_def Let_def simp flip: replicate_add)

section \<open>The lists of cases\<close>

definition valid_enc :: "'f pyecc \<Rightarrow> bytes res \<Rightarrow> bool" where
  "valid_enc L m \<longleftrightarrow> (case m of Inr b \<Rightarrow> g1_valid L b | Inl e \<Rightarrow> False)"

definition valid_enc2 :: "'f pyecc \<Rightarrow> bytes res \<Rightarrow> bool" where
  "valid_enc2 L m \<longleftrightarrow> (case m of Inr b \<Rightarrow> g2_valid L b | Inl e \<Rightarrow> False)"

definition outside_enc :: "'f pyecc \<Rightarrow> bytes res \<Rightarrow> bool" where
  \<comment> \<open>the bytes decode to a point that the curve order does not annihilate\<close>
  "outside_enc L m \<longleftrightarrow> (case m of Inr b \<Rightarrow> \<not> is_inf2 L (multiply2 L (g2_point b) (curve_order L)) | Inl e \<Rightarrow> False)"

definition in32 :: "int \<Rightarrow> bool" where "in32 x \<longleftrightarrow> 0 \<le> x \<and> x < 2 ^ 256"

definition draws_ok :: "'f bn_lib \<Rightarrow> bn_draws \<Rightarrow> bool" where
  \<comment> \<open>the draws are 256-bit integers, and the multiples of the generator that they give are encoded
    as points of the curve\<close>
  "draws_ok B D \<longleftrightarrow>
     list_all (\<lambda>(a, b). in32 a \<and> in32 b) (d_fields D) \<and> in32 (d_short D) \<and>
     list_all (\<lambda>(a, b). valid_enc (ecc B) (m1 B a) \<and> valid_enc (ecc B) (m1 B b)) (d_adds D) \<and>
     list_all (\<lambda>(k, n). valid_enc (ecc B) (m1 B k) \<and> in32 n) (d_muls D) \<and>
     valid_enc2 (ecc B) (m2 B (d_raw D))"

definition add_statuses :: "bn_draws \<Rightarrow> nat option list" where
  "add_statuses D = [Some 0, Some 0, Some 0, Some 0, Some 0, Some 0, Some 0, Some 0, Some 1, Some 1, Some 1, None] @ map (\<lambda>_. Some 0) (d_adds D) @ [Some 0]"

definition mul_statuses :: "bn_draws \<Rightarrow> nat option list" where
  "mul_statuses D = [Some 0, Some 0, Some 0, Some 0, Some 0, Some 0, Some 0, Some 1, Some 0, Some 0, Some 1] @ map (\<lambda>_. Some 0) (d_muls D)"

definition pairing_statuses :: "nat option list" where
  "pairing_statuses = [Some 1, None, None, None, None, None, None, None, None, Some 2, Some 2, None, Some 2, Some 2, Some 3, Some 3]"

definition all_statuses :: "bn_draws \<Rightarrow> nat option list" where
  "all_statuses D = replicate (5 + length (d_fields D)) None @ add_statuses D @ mul_statuses D @ pairing_statuses @
     [None, None] @ replicate (3 * length (d_fq12 D) + 2) None"

lemma all_answered: "list_all (\<lambda>r. status_is L r None) recs \<Longrightarrow> length recs = n \<Longrightarrow> list_all2 (status_is L) recs (replicate n None)"
  by (simp add: list_all2_conv_all_nth list_all_length)

locale bn_vectors =
  fixes B :: "'f bn_lib" and G N :: bytes
  assumes bounds: "pyecc_bounds (ecc B) 32"
    and width: "in32 (field_modulus (ecc B))" "int (curve_order (ecc B)) + 1 < 2 ^ 256"
    and gen: "bn_g1_bytes (ecc B) (G1_gen B) = Inr G" "g1_valid (ecc B) G"
    and neg: "neg_bytes_g1 (ecc B) G = Inr N" "g1_valid (ecc B) N"
    and infinity: "g1_valid (ecc B) (zeros 64)"
    and gen2: "valid_enc2 (ecc B) (bn_g2_bytes (ecc B) (G2_gen B))"
    and small_multiples: "valid_enc (ecc B) (m1 B 2)" "valid_enc (ecc B) (m1 B 7)"
    and off_curve: "\<not> is_on_curve1 (ecc B) (1, 3, 1)"
begin

abbreviation "L \<equiv> ecc B"
abbreviation "P \<equiv> field_modulus (ecc B)"

lemma in32_be: "in32 x \<Longrightarrow> be32 x = Inr (be_fix 32 (nat x))"
  by (rule int_to_be_ok) (simp_all add: in32_def)

lemma be_consts [simp]:
  "be32 0 = Inr (be_fix 32 0)" "be32 1 = Inr (be_fix 32 1)" "be32 2 = Inr (be_fix 32 2)" "be32 3 = Inr (be_fix 32 3)"
  "be32 5 = Inr (be_fix 32 5)" "be32 115792089237316195423570985008687907853269984665640564039457584007913129639935 = Inr (be_fix 32 115792089237316195423570985008687907853269984665640564039457584007913129639935)" "be32 P = Inr (be_fix 32 (nat P))"
  "be32 (int (curve_order L)) = Inr (be_fix 32 (curve_order L))" "be32 (int (curve_order L) + 1) = Inr (be_fix 32 (curve_order L + 1))"
proof -
  show "be32 (int (curve_order L) + 1) = Inr (be_fix 32 (curve_order L + 1))"
    using width by (subst in32_be) (simp_all add: in32_def nat_add_distrib)
qed (use width in \<open>simp_all add: in32_be in32_def\<close>)

lemma encoding:
  assumes "valid_enc L (bn_g1_bytes L p)" obtains b where "bn_g1_bytes L p = Inr b" "length b = 64" "g1_valid L b"
proof -
  obtain b where "bn_g1_bytes L p = Inr b" "length b = 64" by (rule pyecc_bounds.g1_bytes_ok [OF bounds order_refl])
  with assms that show ?thesis by (simp add: valid_enc_def)
qed

lemma bad_points:
  "\<not> g1_valid L (be_fix 32 (nat P) @ be_fix 32 2)" "\<not> g1_valid L (be_fix 32 1 @ be_fix 32 3)"
  "\<not> g1_valid L (be_fix 32 1 @ be_fix 32 115792089237316195423570985008687907853269984665640564039457584007913129639935)"
proof -
  show "\<not> g1_valid L (be_fix 32 (nat P) @ be_fix 32 2)"
    using width by (simp add: g1_valid_point g1_point_bytes in32_def nat_less_iff)
  show "\<not> g1_valid L (be_fix 32 1 @ be_fix 32 3)"
    using off_curve g1_point_bytes [of 1 3] by (simp add: g1_valid_point)
  have "g1_point (be_fix 32 1 @ be_fix 32 115792089237316195423570985008687907853269984665640564039457584007913129639935) = (1, 115792089237316195423570985008687907853269984665640564039457584007913129639935, 1)"
    using g1_point_bytes [of 1 "115792089237316195423570985008687907853269984665640564039457584007913129639935"] by simp
  then show "\<not> g1_valid L (be_fix 32 1 @ be_fix 32 115792089237316195423570985008687907853269984665640564039457584007913129639935)"
    using width by (simp add: g1_valid_point in32_def)
qed

lemma status_simps:
  "g1_valid L (buffer_read d 0 64) \<Longrightarrow> g1_valid L (buffer_read d 64 64) \<Longrightarrow> status_is L (1, d) (Some 0)"
  "\<not> g1_valid L (buffer_read d 0 64) \<or> \<not> g1_valid L (buffer_read d 64 64) \<Longrightarrow> status_is L (1, d) (Some 1)"
  "status_is L (1, d) None"
  "g1_valid L (buffer_read d 0 64) \<Longrightarrow> status_is L (2, d) (Some 0)"
  "\<not> g1_valid L (buffer_read d 0 64) \<Longrightarrow> status_is L (2, d) (Some 1)"
  using status_add [OF bounds, of d] status_mul [OF bounds, of d] by (auto simp: status_is_def split: sum.splits)

lemma cat_simps [simp]: "cat [] = Inr []" "cat (m # ms) = ebind m (\<lambda>b. ebind (cat ms) (\<lambda>c. Inr (b @ c)))"
  by (simp_all add: cat_def ebind_def split: sum.splits)

lemma G_length [simp]: "length G = 64" and N_length [simp]: "length N = 64"
proof -
  show "length G = 64" using pyecc_bounds.g1_bytes_ok [OF bounds order_refl, of "G1_gen B"] gen(1) by (metis Inr_inject)
  then show "length N = 64" using neg(1) by (auto simp: neg_bytes_g1_def Let_def dest: int_to_be_length)
qed

lemmas status_facts = gen(2) neg(2) infinity bad_points

lemma add_cases:
  assumes "list_all (\<lambda>(a, b). valid_enc L (m1 B a) \<and> valid_enc L (m1 B b)) (d_adds D)"
  shows "\<exists>recs. bn_add_cases B D = Inr recs \<and> list_all2 (status_is L) recs (add_statuses D)"
proof -
  obtain M2 where M2: "m1 B 2 = Inr M2" "length M2 = 64" "g1_valid L M2"
    using encoding small_multiples(1) by (metis m1_def)
  obtain M7 where M7: "m1 B 7 = Inr M7" "length M7 = 64" "g1_valid L M7"
    using encoding small_multiples(2) by (metis m1_def)
  have "\<exists>recs. seqs (map (\<lambda>(a, b). case_of 1 [m1 B a, m1 B b]) ds) = Inr recs \<and> list_all2 (status_is L) recs (map (\<lambda>_. Some 0) ds)"
    if "list_all (\<lambda>(a, b). valid_enc L (m1 B a) \<and> valid_enc L (m1 B b)) ds" for ds
    using that
  proof (induction ds)
    case (Cons d ds)
    obtain a b where d: "d = (a, b)" by (cases d)
    with Cons.prems have v: "valid_enc L (m1 B a)" "valid_enc L (m1 B b)" by simp_all
    obtain x where x: "m1 B a = Inr x" "length x = 64" "g1_valid L x" using encoding v(1) by (metis m1_def)
    obtain y where y: "m1 B b = Inr y" "length y = 64" "g1_valid L y" using encoding v(2) by (metis m1_def)
    have "status_is L (1, x @ y) (Some 0)" by (rule status_simps) (simp_all add: x y)
    with Cons show ?case by (auto simp: d case_of_def x(1) y(1))
  qed simp
  from this [OF assms] obtain recs where recs: "seqs (map (\<lambda>(a, b). case_of 1 [m1 B a, m1 B b]) (d_adds D)) = Inr recs"
    "list_all2 (status_is L) recs (map (\<lambda>_. Some 0) (d_adds D))" by blast
  let ?first = "[(1, G @ G), (1, G @ M2), (1, G @ zeros 64), (1, zeros 128), (1, G @ N), (1, []), (1, G),
      (1, G @ G @ replicate 40 0x11), (1, be_fix 32 (nat P) @ be_fix 32 2 @ G), (1, G @ be_fix 32 1 @ be_fix 32 (2 ^ 256 - 1)),
      (1, be_fix 32 1 @ be_fix 32 3 @ G), (1, G @ take 36 G)]"
  have "bn_add_cases B D = Inr (?first @ recs @ [(1, M7 @ M7)])"
    unfolding bn_add_cases_def Let_def seqs_append recs(1) by (simp add: case_of_def gen neg M2(1) M7(1) del: One_nat_def)
  moreover have "list_all2 (status_is L) ?first ([Some 0, Some 0, Some 0, Some 0, Some 0, Some 0, Some 0, Some 0, Some 1, Some 1, Some 1, None])"
    by (simp add: status_simps status_facts M2 del: One_nat_def)
  moreover have "status_is L (1, M7 @ M7) (Some 0)" by (rule status_simps) (simp_all add: M7)
  ultimately show ?thesis using recs(2)
    by (auto simp: add_statuses_def intro!: list_all2_appendI)
qed

lemma mul_cases:
  assumes "list_all (\<lambda>(k, n). valid_enc L (m1 B k) \<and> in32 n) (d_muls D)" "in32 (d_short D)"
  shows "\<exists>recs. bn_mul_cases B D = Inr recs \<and> list_all2 (status_is L) recs (mul_statuses D)"
proof -
  have "\<exists>recs. seqs (map (\<lambda>(k, n). case_of 2 [m1 B k, be32 n]) ds) = Inr recs \<and> list_all2 (status_is L) recs (map (\<lambda>_. Some 0) ds)"
    if "list_all (\<lambda>(k, n). valid_enc L (m1 B k) \<and> in32 n) ds" for ds
    using that
  proof (induction ds)
    case (Cons d ds)
    obtain k n where d: "d = (k, n)" by (cases d)
    with Cons.prems have v: "valid_enc L (m1 B k)" "in32 n" by simp_all
    obtain x where x: "m1 B k = Inr x" "length x = 64" "g1_valid L x" using encoding v(1) by (metis m1_def)
    have "status_is L (2, x @ be_fix 32 (nat n)) (Some 0)" by (rule status_simps) (simp add: x)
    with Cons show ?case by (auto simp: d case_of_def x(1) in32_be [OF v(2)])
  qed simp
  from this [OF assms(1)] obtain recs where recs: "seqs (map (\<lambda>(k, n). case_of 2 [m1 B k, be32 n]) (d_muls D)) = Inr recs"
    "list_all2 (status_is L) recs (map (\<lambda>_. Some 0) (d_muls D))" by blast
  obtain M where M: "be32 (2 ^ 256 - 1) = Inr M" by simp
  let ?first = "[(2, G @ be_fix 32 0), (2, G @ be_fix 32 1), (2, G @ be_fix 32 2), (2, G @ be_fix 32 (curve_order L)),
      (2, G @ be_fix 32 (curve_order L + 1)), (2, G @ M), (2, zeros 64 @ be_fix 32 5), (2, be_fix 32 1 @ be_fix 32 3 @ be_fix 32 2), (2, G),
      (2, G @ take 16 (be_fix 32 (nat (d_short D)))), (2, be_fix 32 (nat P) @ be_fix 32 2 @ be_fix 32 1)]"
  have "bn_mul_cases B D = Inr (?first @ recs)"
    unfolding bn_mul_cases_def Let_def seqs_append recs(1) M
    by (simp add: case_of_def gen in32_be [OF assms(2)] del: One_nat_def)
  moreover have "list_all2 (status_is L) ?first [Some 0, Some 0, Some 0, Some 0, Some 0, Some 0, Some 0, Some 1, Some 0, Some 0, Some 1]"
    by (simp add: status_simps status_facts del: One_nat_def)
  ultimately show ?thesis using recs(2)
    by (auto simp: mul_statuses_def intro!: list_all2_appendI)
qed

lemma g2_bytes_ok: obtains b where "bn_g2_bytes L p = Inr b" "length b = 128"
proof (cases "is_inf2 L p")
  case False
  obtain x y where n: "normalize2 L p = (x, y)" by (rule prod.exhaust)
  show ?thesis
    by (rule that [of "concat [be_fix 32 (nat (snd x)), be_fix 32 (nat (fst x)), be_fix 32 (nat (snd y)), be_fix 32 (nat (fst y))]"])
      (use False pyecc_bounds.normalized2 [OF bounds n] pyecc_bounds.to_be_residue [OF bounds order_refl] in \<open>simp_all add: bn_g2_bytes_def n\<close>)
qed (use that in \<open>simp add: bn_g2_bytes_def\<close>)

lemma neg_ok: obtains c where "neg_bytes_g1 L b = Inr c" "length c = length (take 32 b) + 32"
  by (rule that [of "take 32 b @ be_fix 32 (nat ((P - int (from_be (drop 32 b))) mod P))"])
    (simp_all add: neg_bytes_g1_def Let_def bslice_def pyecc_bounds.to_be_mod [OF bounds order_refl])

lemma pair_rejected:
  "length a = 64 \<Longrightarrow> length b = 128 \<Longrightarrow> \<not> g1_valid L a \<or> \<not> g2_valid L b \<or> \<not> is_inf2 L (multiply2 L (g2_point b) (curve_order L)) \<Longrightarrow>
   status_is L (3, a @ b) (Some 2)"
  by (rule status_pairing(4)) (auto simp: pair_valid_def pair_point_def buffer_read_def bslice_def zeros_def)

lemma m1_ok: obtains b where "m1 B k = Inr b" "length b = 64"
  unfolding m1_def by (rule pyecc_bounds.g1_bytes_ok [OF bounds order_refl])

lemma m2_ok: obtains b where "m2 B k = Inr b" "length b = 128"
  unfolding m2_def by (rule g2_bytes_ok)

lemma pairing_cases:
  assumes "outside_enc L (bn_g2_bytes L n1)" "outside_enc L (bn_g2_bytes L n2)"
  shows "\<exists>ps. bn_pairings B D n1 n2 = Inr ps \<and> list_all2 (status_is L) (map (\<lambda>b. (3, b)) ps) pairing_statuses"
proof -
  obtain Q where Q: "bn_g2_bytes L (G2_gen B) = Inr Q" "length Q = 128" by (rule g2_bytes_ok)
  obtain N1 where N1: "bn_g2_bytes L n1 = Inr N1" "length N1 = 128" by (rule g2_bytes_ok)
  obtain N2 where N2: "bn_g2_bytes L n2 = Inr N2" "length N2 = 128" by (rule g2_bytes_ok)
  obtain A where A: "m1 B (d_a D) = Inr A" by (rule m1_ok)
  obtain A' where A': "m1 B (d_b D) = Inr A'" by (rule m1_ok)
  obtain E where E: "m2 B (d_b D) = Inr E" by (rule m2_ok)
  obtain E' where E': "bn_g2_bytes L (ec_neg2 B (multiply2 L (G2_gen B) (d_a D))) = Inr E'" by (rule g2_bytes_ok)
  obtain AB where AB: "m1 B (d_a D * d_b D mod curve_order L) = Inr AB" by (rule m1_ok)
  obtain AN where AN: "neg_bytes_g1 L AB = Inr AN" by (rule neg_ok)
  obtain M2 where M2: "m1 B 2 = Inr M2" by (rule m1_ok)
  obtain M2N where M2N: "neg_bytes_g1 L M2 = Inr M2N" by (rule neg_ok)
  obtain M3 where M3: "m1 B 3 = Inr M3" by (rule m1_ok)
  have "\<not> g2_valid L (be_fix 32 (nat P) @ drop 32 Q)"
    using width by (simp add: g2_valid_def in32_def bslice_def from_be_be_fix nat_less_iff)
  moreover have out: "\<not> is_inf2 L (multiply2 L (g2_point N1) (curve_order L))" "\<not> is_inf2 L (multiply2 L (g2_point N2) (curve_order L))"
    using assms by (simp_all add: outside_enc_def N1 N2)
  moreover have "bn_pairings B D n1 n2 = Inr [[], G @ Q @ N @ Q, A @ E @ AN @ Q, A @ E @ A' @ E', G @ Q, G @ Q @ G @ Q @ M2N @ Q,
      M3 @ Q @ N @ Q, zeros 64 @ Q, G @ zeros 128, be_fix 32 1 @ be_fix 32 3 @ Q, G @ be_fix 32 (nat P) @ drop 32 Q,
      G @ bslice Q 32 64 @ take 32 Q @ drop 64 Q, G @ N1, zeros 64 @ N2, take 191 (G @ Q), G @ Q @ [0]]"
    unfolding bn_pairings_def Let_def by (simp add: gen neg Q(1) N1(1) N2(1) A A' E E' AB AN M2 M2N M3 del: One_nat_def)
  moreover have "status_is L (3, (be_fix 32 1 @ be_fix 32 3) @ Q) (Some 2)"
    by (rule pair_rejected) (use bad_points Q in simp_all)
  ultimately show ?thesis
    using pair_rejected [of G "be_fix 32 (nat P) @ drop 32 Q"] pair_rejected [of G N1] pair_rejected [of "zeros 64" N2]
      status_pairing(2) [of "take 191 (G @ Q)" L] status_pairing(2) [of "G @ Q @ [0]" L]
    by (simp add: pairing_statuses_def status_pairing(1,3) Q(2) N1(2) N2(2) del: One_nat_def take_append)
qed

lemma field_cases:
  assumes "list_all (\<lambda>(a, b). in32 a \<and> in32 b) (d_fields D)"
  shows "\<exists>recs. bn_field_cases B D = Inr recs \<and> list_all2 (status_is L) recs (replicate (5 + length (d_fields D)) None)"
proof -
  let ?ds = "[(0, 5), (1, P - 1), (P - 1, P - 1), (2, 3), (P - 1, 1)] @ d_fields D"
  have "0 < P" using pyecc_bounds.modulus(1) [OF bounds] .
  then have "list_all (\<lambda>(a, b). in32 a \<and> in32 b) ?ds" using assms width by (auto simp: in32_def)
  then have "bn_field_cases B D = Inr (map (\<lambda>(a, b). (4, be_fix 32 (nat a) @ be_fix 32 (nat b))) ?ds)"
    unfolding bn_field_cases_def Let_def
    by (intro emap_Inr) (auto simp: list_all_iff case_of_def in32_be)
  moreover have "list_all2 (status_is L) (map (\<lambda>(a, b). (4, be_fix 32 (nat a) @ be_fix 32 (nat b))) ?ds) (replicate (5 + length (d_fields D)) None)"
    by (rule all_answered) (auto simp: list_all_iff status_field [OF bounds])
  ultimately show ?thesis by blast
qed

lemma raw_cases:
  assumes "valid_enc2 L (m2 B (d_raw D))"
  shows "\<exists>recs. bn_raw_cases B D = Inr recs \<and> list_all2 (status_is L) recs [None, None]"
proof -
  obtain Q where Q: "bn_g2_bytes L (G2_gen B) = Inr Q" "length Q = 128" by (rule g2_bytes_ok)
  obtain E where E: "m2 B (d_raw D) = Inr E" "length E = 128" by (rule m2_ok)
  obtain M where M: "m1 B 2 = Inr M" "length M = 64" by (rule m1_ok)
  have v: "g2_valid L Q" "g2_valid L E" "g1_valid L M"
    using gen2 assms small_multiples by (simp_all add: valid_enc2_def valid_enc_def Q E M)
  have "status_is L (5, G @ Q) None" "status_is L (5, M @ E) None"
    by (rule status_raw [OF bounds]; simp add: bslice_def Q E M v gen)+
  then show ?thesis by (simp add: bn_raw_cases_def case_of_def gen Q(1) E(1) M(1))
qed

lemma fq12_cases:
  "\<exists>recs. bn_fq12_cases B D = Inr recs \<and> list_all2 (status_is L) recs (replicate (3 * length (d_fq12 D) + 2) None)"
proof -
  define f where "f cs = projr (fq12_bytes L (fq12_of L cs))" for cs
  have f: "fq12_bytes L (fq12_of L cs) = Inr (f cs)" for cs
    using pyecc_bounds.fq12_bytes_ok [OF bounds order_refl, of "fq12_of L cs"] by (auto simp: f_def)
  define recs where "recs = concat (map (\<lambda>(fa, fb). [(6 :: nat, f fa @ f fb), (7, f fa), (8, f fa)]) (d_fq12 D))
    @ [(7, f (1 # replicate 11 0)), (7, f (0 # 1 # replicate 10 0))]"
  have "seqs (concat (map (\<lambda>(fa, fb). [case_of 6 [Inr (f fa), Inr (f fb)], case_of 7 [Inr (f fa)], case_of 8 [Inr (f fa)]]) ds)) =
      Inr (concat (map (\<lambda>(fa, fb). [(6, f fa @ f fb), (7, f fa), (8, f fa)]) ds))" for ds
    by (induction ds) (auto simp: case_of_def)
  then have "bn_fq12_cases B D = Inr recs"
    unfolding bn_fq12_cases_def Let_def seqs_append f by (simp add: case_of_def recs_def)
  moreover have "list_all2 (status_is L) recs (replicate (3 * length (d_fq12 D) + 2) None)"
  proof (rule all_answered)
    show "length recs = 3 * length (d_fq12 D) + 2"
      by (simp add: recs_def length_concat comp_def case_prod_beta sum_list_triv)
  qed (auto simp: recs_def list_all_iff status_fq12 [OF bounds])
  ultimately show ?thesis by blast
qed

lemma records_answered:
  assumes "draws_ok B D" "n_pairings < 0"
    and "outside_enc L (bn_g2_bytes L n1)" "outside_enc L (bn_g2_bytes L n2)"
  shows "\<exists>recs. bn_records B D n_pairings n1 n2 = Inr recs \<and> list_all2 (status_is L) recs (all_statuses D)"
proof -
  note D = assms(1) [unfolded draws_ok_def]
  obtain fs where fs: "bn_field_cases B D = Inr fs" "list_all2 (status_is L) fs (replicate (5 + length (d_fields D)) None)"
    using field_cases D by blast
  obtain as where as: "bn_add_cases B D = Inr as" "list_all2 (status_is L) as (add_statuses D)" using add_cases D by blast
  obtain ms where ms: "bn_mul_cases B D = Inr ms" "list_all2 (status_is L) ms (mul_statuses D)" using mul_cases D by blast
  obtain ps where ps: "bn_pairings B D n1 n2 = Inr ps" "list_all2 (status_is L) (map (\<lambda>b. (3, b)) ps) pairing_statuses"
    using pairing_cases [OF assms(3,4)] by blast
  obtain rs where rs: "bn_raw_cases B D = Inr rs" "list_all2 (status_is L) rs [None, None]" using raw_cases D by blast
  obtain qs where qs: "bn_fq12_cases B D = Inr qs" "list_all2 (status_is L) qs (replicate (3 * length (d_fq12 D) + 2) None)"
    using fq12_cases by blast
  have "bn_records B D n_pairings n1 n2 = Inr (fs @ as @ ms @ map (\<lambda>b. (3, b)) ps @ rs @ qs)"
    using assms(2) by (simp add: bn_records_def fs as ms ps rs qs)
  moreover have "list_all2 (status_is L) (fs @ as @ ms @ map (\<lambda>b. (3, b)) ps @ rs @ qs) (all_statuses D)"
    unfolding all_statuses_def by (intro list_all2_appendI fs as ms ps rs qs)
  ultimately show ?thesis by blast
qed

end

section \<open>Every record is answered\<close>


definition draws7 :: bn_draws where
  "draws7 = \<lparr>d_fields = [(3, 4)], d_adds = [(5, 6)], d_short = 9, d_muls = [(3, 11)], d_a = 2, d_b = 3, d_twist = (\<lambda>_. 0),
     d_raw = 1, d_fq12 = [(replicate 12 1, replicate 12 2)]\<rparr>"

lemma powers7:
  "pow49 (3, 0) 24 = (1, 0)" "pow49 (2, 1) 24 = (6, 0)" "pow49 (2, 1) 3 = (2, 4)" "pow49 (3, 0) 3 = (6, 0)"
  "pow49 (3, 0) 2 = (2, 0)" "pow49 (2, 4) 4 = (0, 1)" "pow49 (0, 0) 3 = (0, 0)"
  by code_simp+

lemma sqrt7: "fq2_sqrt lib7 (3, 0) = Some (Inr (Some (0, 2)))"
proof -
  have "two_adic 48 0 = Some (3, 4)" by (simp add: two_adic.simps)
  moreover have "find_nonresidue lib7 (2, 1) = Some (2, 1)"
    by (subst find_nonresidue.simps) (simp add: powers7 FQ2_one_def)
  moreover have "square_count lib7 0 (6, 0) = Some 1"
    by (simp add: square_count.simps FQ2_one_def mul49)
  then have "sqrt_loop lib7 4 (2, 4) (6, 0) (2, 0) = Some (Inr (0, 2))"
    by (simp add: sqrt_loop.simps FQ2_one_def mul49 powers7)
  ultimately show ?thesis by (simp add: fq2_sqrt_def powers7 FQ2_one_def)
qed

lemma search7: "non_subgroup_g2 lib7 (\<lambda>_. 0) k = Some (Inr (((0, 0), (0, 2), (1, 0)), k + 2))"
proof -
  have "fq2_add lib7 (pow49 (0, 0) 3) (twist_b lib7) = (3, 0)" by (simp add: powers7 lib7_def F49_def)
  moreover have "is_on_curve2 (ecc lib7) ((0, 0), (0, 2), FQ2_one)"
    by (simp add: lib7_def ecc7_def on_small_def F49_def FQ2_one_def)
  moreover have "\<not> is_inf2 (ecc lib7) (multiply2 (ecc lib7) ((0, 0), (0, 2), FQ2_one) (curve_order (ecc lib7)))"
    by code_simp
  ultimately show ?thesis by (subst non_subgroup_g2.simps) (simp add: sqrt7 FQ2_one_def)
qed

lemma g2_point_bytes:
  "a < 256 ^ 32 \<Longrightarrow> b < 256 ^ 32 \<Longrightarrow> c < 256 ^ 32 \<Longrightarrow> d < 256 ^ 32 \<Longrightarrow>
   g2_point (be_fix 32 a @ be_fix 32 b @ be_fix 32 c @ be_fix 32 d) =
     ((int b, int a), (int d, int c), if a = 0 \<and> b = 0 \<and> c = 0 \<and> d = 0 then (0, 0) else (1, 0))"
  by (auto simp: g2_point_def bslice_def from_be_be_fix Let_def)

lemma g2_valid_bytes:
  "a < 256 ^ 32 \<Longrightarrow> b < 256 ^ 32 \<Longrightarrow> c < 256 ^ 32 \<Longrightarrow> d < 256 ^ 32 \<Longrightarrow>
   g2_valid K (be_fix 32 a @ be_fix 32 b @ be_fix 32 c @ be_fix 32 d) \<longleftrightarrow>
     list_all (\<lambda>x. int x < field_modulus K) [a, b, c, d] \<and> is_on_curve2 K (g2_point (be_fix 32 a @ be_fix 32 b @ be_fix 32 c @ be_fix 32 d))"
  by (simp add: g2_valid_def bslice_def from_be_be_fix)

definition multiple7 :: "nat \<Rightarrow> bool" where
  "multiple7 k = (let p = multiply1 ecc7 (1, 2, 1) k in \<not> is_inf1 ecc7 p \<and>
     (case normalize1 ecc7 p of (x, y) \<Rightarrow> 0 \<le> x \<and> x < 7 \<and> 0 \<le> y \<and> y < 7 \<and> is_on_curve1 ecc7 (x, y, 1) \<and> (x \<noteq> 0 \<or> y \<noteq> 0)))"

lemma multiples7: "list_all multiple7 [2, 3, 5, 6, 7]"
  by code_simp

lemma ecc_lib7 [simp]: "ecc lib7 = ecc7" "G1_gen lib7 = (1, 2, 1)" "G2_gen lib7 = ((1, 0), (2, 0), (1, 0))"
  by (simp_all add: lib7_def)

lemma modulus7 [simp]: "field_modulus ecc7 = 7" "curve_order ecc7 = 13"
  by (simp_all add: ecc7_def)

lemma enc_multiple7:
  assumes "multiple7 k" shows "valid_enc ecc7 (m1 lib7 k)"
proof -
  obtain x y where n: "normalize1 ecc7 (multiply1 ecc7 (1, 2, 1) k) = (x, y)" by (rule prod.exhaust)
  then have b: "0 \<le> x" "x < 7" "0 \<le> y" "y < 7" "is_on_curve1 ecc7 (x, y, 1)" "x \<noteq> 0 \<or> y \<noteq> 0" "\<not> is_inf1 ecc7 (multiply1 ecc7 (1, 2, 1) k)"
    using assms by (simp_all add: multiple7_def Let_def)
  have "m1 lib7 k = Inr (be_fix 32 (nat x) @ be_fix 32 (nat y))"
    using b by (simp add: m1_def bn_g1_bytes_def n int_to_be_ok)
  moreover have "g1_point (be_fix 32 (nat x) @ be_fix 32 (nat y)) = (x, y, 1)"
    using b g1_point_bytes [of "nat x" "nat y"] by auto
  ultimately show ?thesis using b by (simp add: valid_enc_def g1_valid_point)
qed

lemma enc7:
  "bn_g1_bytes ecc7 (1, 2, 1) = Inr (be_fix 32 1 @ be_fix 32 2)"
  "neg_bytes_g1 ecc7 (be_fix 32 1 @ be_fix 32 2) = Inr (be_fix 32 1 @ be_fix 32 5)"
  "bn_g2_bytes ecc7 ((1, 0), (2, 0), (1, 0)) = Inr (be_fix 32 0 @ be_fix 32 1 @ be_fix 32 0 @ be_fix 32 2)"
  "bn_g2_bytes ecc7 ((0, 0), (0, 2), (1, 0)) = Inr (be_fix 32 0 @ be_fix 32 0 @ be_fix 32 2 @ be_fix 32 0)"
  "multiply2 ecc7 ((1, 0), (2, 0), (1, 0)) 1 = ((1, 0), (2, 0), (1, 0))"
proof -
  have "normalize1 ecc7 (1, 2, 1) = (1, 2)" "\<not> is_inf1 ecc7 (1, 2, 1)"
    "normalize2 ecc7 ((1, 0), (2, 0), (1, 0)) = ((1, 0), (2, 0))" "\<not> is_inf2 ecc7 ((1, 0), (2, 0), (1, 0))"
    "normalize2 ecc7 ((0, 0), (0, 2), (1, 0)) = ((0, 0), (0, 2))" "\<not> is_inf2 ecc7 ((0, 0), (0, 2), (1, 0))"
    by code_simp+
  then show "bn_g1_bytes ecc7 (1, 2, 1) = Inr (be_fix 32 1 @ be_fix 32 2)"
    "bn_g2_bytes ecc7 ((1, 0), (2, 0), (1, 0)) = Inr (be_fix 32 0 @ be_fix 32 1 @ be_fix 32 0 @ be_fix 32 2)"
    "bn_g2_bytes ecc7 ((0, 0), (0, 2), (1, 0)) = Inr (be_fix 32 0 @ be_fix 32 0 @ be_fix 32 2 @ be_fix 32 0)"
    by (simp_all add: bn_g1_bytes_def bn_g2_bytes_def int_to_be_ok)
  show "neg_bytes_g1 ecc7 (be_fix 32 1 @ be_fix 32 2) = Inr (be_fix 32 1 @ be_fix 32 5)"
    by (simp add: neg_bytes_g1_def bslice_def from_be_be_fix int_to_be_ok)
  show "multiply2 ecc7 ((1, 0), (2, 0), (1, 0)) 1 = ((1, 0), (2, 0), (1, 0))" by code_simp
qed

lemma curve7:
  "is_on_curve1 ecc7 (1, 2, 1)" "is_on_curve1 ecc7 (1, 5, 1)" "is_on_curve1 ecc7 (0, 0, 0)" "\<not> is_on_curve1 ecc7 (1, 3, 1)"
  "is_on_curve2 ecc7 ((1, 0), (2, 0), (1, 0))" "\<not> is_inf2 ecc7 (multiply2 ecc7 ((0, 0), (0, 2), (1, 0)) 13)"
  by code_simp+

lemma enc2_7: "valid_enc2 ecc7 (bn_g2_bytes ecc7 ((1, 0), (2, 0), (1, 0)))" "outside_enc ecc7 (bn_g2_bytes ecc7 ((0, 0), (0, 2), (1, 0)))"
  using curve7 g2_point_bytes [of 0 1 0 2] g2_valid_bytes [of 0 1 0 2 ecc7] g2_point_bytes [of 0 0 2 0]
  by (simp_all add: valid_enc2_def outside_enc_def enc7(3,4))

interpretation lib7v: bn_vectors lib7 "be_fix 32 1 @ be_fix 32 2" "be_fix 32 1 @ be_fix 32 5"
proof (rule bn_vectors.intro)
  show "pyecc_bounds (ecc lib7) 32" using ecc7_bounds [of 32] by simp
  show "g1_valid (ecc lib7) (be_fix 32 1 @ be_fix 32 2)" "g1_valid (ecc lib7) (be_fix 32 1 @ be_fix 32 5)"
    using g1_point_bytes [of 1 2] g1_point_bytes [of 1 5] curve7 by (simp_all add: g1_valid_point)
  show "g1_valid (ecc lib7) (zeros 64)"
    using curve7 by (simp add: g1_valid_def bslice_zeros)
  show "valid_enc (ecc lib7) (m1 lib7 2)" "valid_enc (ecc lib7) (m1 lib7 7)"
    using multiples7 by (simp_all add: enc_multiple7)
qed (use enc7 enc2_7 curve7 in \<open>simp_all add: in32_def del: One_nat_def\<close>)


end
