(* ===== verification/Bls12Vectors.thy ===== *)
theory Bls12Vectors
  imports PyEcc
begin

text \<open>
  The EIP-2537 oracle of \<open>tools/gen_bls12381_vectors.py\<close>: point decoding with the optional subgroup
  check, the multi-scalar multiplications, the pairing product and the evaluator of the eleven
  record types, with \<open>py_ecc\<close> as the record of \<open>PyEcc\<close>.  Every Python exception inside a
  guarded computation becomes status 1 (2 in the pairing), so the theorems say which inputs those are.
\<close>

section \<open>The functions of the file\<close>

definition fq2_bytes :: "f2 \<Rightarrow> bytes res" where
  "fq2_bytes x = ebind (int_to_be 64 (fst x)) (\<lambda>a. ebind (int_to_be 64 (snd x)) (\<lambda>b. Inr (a @ b)))"

definition bls_g1_bytes :: "'f pyecc \<Rightarrow> int proj \<Rightarrow> bytes res" where
  "bls_g1_bytes L point =
     (if is_inf1 L point then Inr (zeros 128)
      else case normalize1 L point of (x, y) \<Rightarrow>
        ebind (int_to_be 64 x) (\<lambda>a. ebind (int_to_be 64 y) (\<lambda>b. Inr (a @ b))))"

definition bls_g2_bytes :: "'f pyecc \<Rightarrow> f2 proj \<Rightarrow> bytes res" where
  "bls_g2_bytes L point =
     (if is_inf2 L point then Inr (zeros 256)
      else case normalize2 L point of (x, y) \<Rightarrow>
        ebind (fq2_bytes x) (\<lambda>a. ebind (fq2_bytes y) (\<lambda>b. Inr (a @ b))))"

definition read_point_g1 :: "'f pyecc \<Rightarrow> bytes \<Rightarrow> bool \<Rightarrow> int proj res" where
  "read_point_g1 L data subgroup =
     (if length data \<noteq> 128 then Inl ValueError
      else let x = int (from_be (bslice data 0 64));
               y = int (from_be (drop 64 data))
           in if x \<ge> field_modulus L \<or> y \<ge> field_modulus L then Inl ValueError
              else let z = (if x = 0 \<and> y = 0 then 0 else 1);
                       point = (x, y, z)
                   in if \<not> is_on_curve1 L point then Inl ValueError
                      else if subgroup \<and> \<not> is_inf1 L (multiply1 L point (curve_order L)) then Inl ValueError
                      else Inr point)"

definition read_point_g2 :: "'f pyecc \<Rightarrow> bytes \<Rightarrow> bool \<Rightarrow> f2 proj res" where
  "read_point_g2 L data subgroup =
     (if length data \<noteq> 256 then Inl ValueError
      else let x0 = int (from_be (bslice data 0 64));
               x1 = int (from_be (bslice data 64 128));
               y0 = int (from_be (bslice data 128 192));
               y1 = int (from_be (drop 192 data))
           in if max (max x0 x1) (max y0 y1) \<ge> field_modulus L then Inl ValueError
              else let x = (x0, x1); y = (y0, y1);
                       z = (if x = (0, 0) \<and> y = (0, 0) then (0, 0) else (1, 0));
                       point = (x, y, z)
                   in if \<not> is_on_curve2 L point then Inl ValueError
                      else if subgroup \<and> \<not> is_inf2 L (multiply2 L point (curve_order L)) then Inl ValueError
                      else Inr point)"

definition point_result :: "nat \<Rightarrow> bytes res \<Rightarrow> bytes res" where
  \<comment> \<open>the operation is evaluated inside the \<open>try\<close>\<close>
  "point_result n operation =
     (case ebind (pack_u64 0) (\<lambda>s. ebind operation (\<lambda>b. Inr (s @ b))) of
        Inr b \<Rightarrow> Inr b
      | Inl e \<Rightarrow> ebind (pack_u64 1) (\<lambda>s. Inr (s @ zeros n)))"

fun msm_loop :: "(bytes \<Rightarrow> 'p res) \<Rightarrow> ('p \<Rightarrow> nat \<Rightarrow> 'p) \<Rightarrow> ('p \<Rightarrow> 'p \<Rightarrow> 'p) \<Rightarrow> nat \<Rightarrow> bytes \<Rightarrow> nat list \<Rightarrow> 'p option \<Rightarrow> 'p option res" where
  \<comment> \<open>the loop of \<open>msm_g1\<close> and \<open>msm_g2\<close>: \<open>n\<close> bytes of point, then 32 of scalar, at every position\<close>
  "msm_loop rd mul add n payload [] result = Inr result"
| "msm_loop rd mul add n payload (pos # ps) result =
     ebind (rd (bslice payload pos (pos + n))) (\<lambda>p.
       let q = mul p (from_be (bslice payload (pos + n) (pos + n + 32)))
       in msm_loop rd mul add n payload ps (Some (case result of None \<Rightarrow> q | Some r \<Rightarrow> add r q)))"

definition positions :: "nat \<Rightarrow> nat \<Rightarrow> nat list" where
  \<comment> \<open>\<open>range(0, len, step)\<close>\<close>
  "positions len step = map (\<lambda>i. step * i) [0..<(len + step - 1) div step]"

definition msm_g1 :: "'f pyecc \<Rightarrow> bytes \<Rightarrow> bytes res" where
  "msm_g1 L payload =
     ebind (msm_loop (\<lambda>d. read_point_g1 L d True) (multiply1 L) (ec_add1 L) 128 payload (positions (length payload) 160) None)
       (\<lambda>r. case r of None \<Rightarrow> Inl TypeError | Some p \<Rightarrow> bls_g1_bytes L p)"

definition msm_g2 :: "'f pyecc \<Rightarrow> bytes \<Rightarrow> bytes res" where
  "msm_g2 L payload =
     ebind (msm_loop (\<lambda>d. read_point_g2 L d True) (multiply2 L) (ec_add2 L) 256 payload (positions (length payload) 288) None)
       (\<lambda>r. case r of None \<Rightarrow> Inl TypeError | Some p \<Rightarrow> bls_g2_bytes L p)"

fun bls_pairing_loop :: "'f pyecc \<Rightarrow> bytes \<Rightarrow> nat list \<Rightarrow> 'f \<Rightarrow> 'f res" where
  "bls_pairing_loop L payload [] result = Inr result"
| "bls_pairing_loop L payload (pos # ps) result =
     ebind (read_point_g1 L (bslice payload pos (pos + 128)) True) (\<lambda>p.
     ebind (read_point_g2 L (bslice payload (pos + 128) (pos + 384)) True) (\<lambda>q.
       bls_pairing_loop L payload ps (fq12_mul L result (ec_pairing L q p))))"

definition bls_pairing_check :: "'f pyecc \<Rightarrow> bytes \<Rightarrow> bytes res" where
  "bls_pairing_check L payload =
     (if length payload = 0 \<or> length payload mod 384 \<noteq> 0 then pack_u64 3
      else case bls_pairing_loop L payload (positions (length payload) 384) (fq12_one L) of
             Inl e \<Rightarrow> pack_u64 2
           | Inr result \<Rightarrow> pack_u64 (if result = fq12_one L then 1 else 0))"

definition bls_eval_record :: "'f pyecc \<Rightarrow> nat \<Rightarrow> bytes \<Rightarrow> bytes res" where
  "bls_eval_record L ty payload =
     (if ty = 1 then
        let a = int (from_be (bslice payload 0 48)); b = int (from_be (bslice payload 48 96))
        in int_to_be 48 (a * b mod field_modulus L)
      else if ty = 2 then
        let a = (int (from_be (bslice payload 0 48)), int (from_be (bslice payload 48 96)));
            b = (int (from_be (bslice payload 96 144)), int (from_be (bslice payload 144 192)));
            r = fq2_mul L a b
        in ebind (int_to_be 48 (fst r)) (\<lambda>x. ebind (int_to_be 48 (snd r)) (\<lambda>y. Inr (x @ y)))
      else if ty = 3 then
        point_result 128 (ebind (read_point_g1 L (bslice payload 0 128) False) (\<lambda>p.
          ebind (read_point_g1 L (drop 128 payload) False) (\<lambda>q. bls_g1_bytes L (ec_add1 L p q))))
      else if ty = 4 then
        point_result 128 (ebind (read_point_g1 L (bslice payload 0 128) False) (\<lambda>p.
          bls_g1_bytes L (multiply1 L p (from_be (bslice payload 128 160)))))
      else if ty = 5 then
        if length payload = 0 \<or> length payload mod 160 \<noteq> 0 then ebind (pack_u64 1) (\<lambda>s. Inr (s @ zeros 128))
        else point_result 128 (msm_g1 L payload)
      else if ty = 6 then
        point_result 256 (ebind (read_point_g2 L (bslice payload 0 256) False) (\<lambda>p.
          ebind (read_point_g2 L (drop 256 payload) False) (\<lambda>q. bls_g2_bytes L (ec_add2 L p q))))
      else if ty = 7 then
        point_result 256 (ebind (read_point_g2 L (bslice payload 0 256) False) (\<lambda>p.
          bls_g2_bytes L (multiply2 L p (from_be (bslice payload 256 288)))))
      else if ty = 8 then
        if length payload = 0 \<or> length payload mod 288 \<noteq> 0 then ebind (pack_u64 1) (\<lambda>s. Inr (s @ zeros 256))
        else point_result 256 (msm_g2 L payload)
      else if ty = 9 then
        let x = int (from_be payload)
        in if length payload \<noteq> 64 \<or> x \<ge> field_modulus L then ebind (pack_u64 1) (\<lambda>s. Inr (s @ zeros 128))
           else ebind (pack_u64 0) (\<lambda>s. ebind (bls_g1_bytes L (map_to_g1 L x)) (\<lambda>b. Inr (s @ b)))
      else if ty = 10 then
        if length payload \<noteq> 128 then ebind (pack_u64 1) (\<lambda>s. Inr (s @ zeros 256))
        else let x0 = int (from_be (bslice payload 0 64)); x1 = int (from_be (drop 64 payload))
             in if max x0 x1 \<ge> field_modulus L then ebind (pack_u64 1) (\<lambda>s. Inr (s @ zeros 256))
                else ebind (pack_u64 0) (\<lambda>s. ebind (bls_g2_bytes L (map_to_g2 L (x0, x1))) (\<lambda>b. Inr (s @ b)))
      else if ty = 11 then bls_pairing_check L payload
      else Inl ValueError)"

definition bls_expected :: "'f pyecc \<Rightarrow> bytes \<Rightarrow> bytes res" where
  "bls_expected L blob = run_records (bls_eval_record L) blob 0 []"

section \<open>Decoding\<close>

definition p1_of :: "bytes \<Rightarrow> int proj" where
  "p1_of data =
     (let x = int (from_be (bslice data 0 64)); y = int (from_be (drop 64 data))
      in (x, y, if x = 0 \<and> y = 0 then 0 else 1))"

definition p1_ok :: "'f pyecc \<Rightarrow> bool \<Rightarrow> bytes \<Rightarrow> bool" where
  "p1_ok L subgroup data \<longleftrightarrow>
     length data = 128 \<and> fst (p1_of data) < field_modulus L \<and> fst (snd (p1_of data)) < field_modulus L \<and>
     is_on_curve1 L (p1_of data) \<and> (subgroup \<longrightarrow> is_inf1 L (multiply1 L (p1_of data) (curve_order L)))"

definition p2_of :: "bytes \<Rightarrow> f2 proj" where
  "p2_of data =
     (let c = (\<lambda>i. int (from_be (bslice data (64 * i) (64 * i + 64)))); x = (c 0, c 1); y = (c 2, int (from_be (drop 192 data)))
      in (x, y, if x = (0, 0) \<and> y = (0, 0) then (0, 0) else (1, 0)))"

definition p2_ok :: "'f pyecc \<Rightarrow> bool \<Rightarrow> bytes \<Rightarrow> bool" where
  "p2_ok L subgroup data \<longleftrightarrow>
     length data = 256 \<and>
     (case p2_of data of (x, y, z) \<Rightarrow> list_all (\<lambda>c. c < field_modulus L) [fst x, snd x, fst y, snd y]) \<and>
     is_on_curve2 L (p2_of data) \<and> (subgroup \<longrightarrow> is_inf2 L (multiply2 L (p2_of data) (curve_order L)))"

lemma read_point_g1_eq: "read_point_g1 L data sub = (if p1_ok L sub data then Inr (p1_of data) else Inl ValueError)"
  by (auto simp: read_point_g1_def p1_ok_def p1_of_def Let_def)

lemma read_point_g2_eq: "read_point_g2 L data sub = (if p2_ok L sub data then Inr (p2_of data) else Inl ValueError)"
  by (simp add: read_point_g2_def p2_ok_def p2_of_def Let_def le_max_iff_disj not_le flip: not_less)

section \<open>Sums over a payload\<close>

definition sum_terms :: "('p \<Rightarrow> 'p \<Rightarrow> 'p) \<Rightarrow> 'p list \<Rightarrow> 'p option \<Rightarrow> 'p option" where
  "sum_terms add ts r = foldl (\<lambda>r q. Some (case r of None \<Rightarrow> q | Some p \<Rightarrow> add p q)) r ts"

lemma msm_loop_eq:
  "msm_loop (\<lambda>d. if ok d then Inr (pt d) else Inl ValueError) mul add n payload ps r =
     (if list_all (\<lambda>pos. ok (bslice payload pos (pos + n))) ps
      then Inr (sum_terms add (map (\<lambda>pos. mul (pt (bslice payload pos (pos + n))) (from_be (bslice payload (pos + n) (pos + n + 32)))) ps) r)
      else Inl ValueError)"
  by (induction ps arbitrary: r) (auto simp: sum_terms_def Let_def)

lemma sum_terms_Some: "sum_terms add ts (Some p) = Some (foldl add p ts)"
  by (induction ts arbitrary: p) (simp_all add: sum_terms_def)

lemma sum_terms_None: "ts \<noteq> [] \<Longrightarrow> sum_terms add ts None = Some (foldl add (hd ts) (tl ts))"
  by (cases ts) (simp_all add: sum_terms_def flip: sum_terms_Some [unfolded sum_terms_def])

lemma positions_exact: "0 < k \<Longrightarrow> n mod k = 0 \<Longrightarrow> positions n k = map (\<lambda>i. k * i) [0..<n div k]"
proof -
  assume k: "0 < k" "n mod k = 0"
  then obtain q where "n = k * q" by (metis mod_eq_0_iff_dvd dvd_def)
  moreover have "(k * q + k - 1) div k = q"
  proof -
    have "k * q + k - 1 = (k - 1) + q * k" using k(1) by (simp add: mult.commute)
    then show ?thesis using k(1) by (simp only: div_mult_self1) simp
  qed
  ultimately show ?thesis using k(1) by (simp add: positions_def)
qed

lemma pairing_loop_eq:
  "bls_pairing_loop L payload ps r =
     (if list_all (\<lambda>pos. p1_ok L True (bslice payload pos (pos + 128)) \<and> p2_ok L True (bslice payload (pos + 128) (pos + 384))) ps
      then Inr (foldl (\<lambda>r pos. fq12_mul L r (ec_pairing L (p2_of (bslice payload (pos + 128) (pos + 384))) (p1_of (bslice payload pos (pos + 128))))) r ps)
      else Inl ValueError)"
  by (induction ps arbitrary: r) (auto simp: read_point_g1_eq read_point_g2_eq)

lemma pack01 [simp]: "pack_u64 0 = Inr (le_fix 8 0)" "pack_u64 1 = Inr (le_fix 8 1)" "pack_u64 (Suc 0) = Inr (le_fix 8 1)" "pack_u64 2 = Inr (le_fix 8 2)" "pack_u64 3 = Inr (le_fix 8 3)"
  by (simp_all add: pack_u64_iff)

lemma point_result_eq:
  "point_result n op = Inr (case op of Inr b \<Rightarrow> le_fix 8 0 @ b | Inl e \<Rightarrow> le_fix 8 1 @ zeros n)"
  by (cases op) (simp_all add: point_result_def)

context pyecc_bounds
begin

lemma bls_g1_ok: "w \<le> 64 \<Longrightarrow> \<exists>b. bls_g1_bytes L p = Inr b \<and> length b = 128"
  using normalized1 [of p] to_be_residue [of 64] by (auto simp: bls_g1_bytes_def split: prod.split)

lemma bls_g2_ok: "w \<le> 64 \<Longrightarrow> \<exists>b. bls_g2_bytes L q = Inr b \<and> length b = 256"
  using normalized2 [of q] to_be_residue [of 64] by (auto simp: bls_g2_bytes_def fq2_bytes_def split: prod.split)

end

section \<open>The properties of the oracle\<close>

text \<open>Point decoding is EIP-2537's.  A point is returned exactly when the data has its full length,
  every coordinate is below the modulus, the point passes the curve check and, where asked, its
  \<open>R\<close>-fold is infinity; every other input raises \<open>ValueError\<close>.\<close>

theorem bls_point_decoding:
  "read_point_g1 L data sub = (if p1_ok L sub data then Inr (p1_of data) else Inl ValueError) \<and>
   read_point_g2 L data sub = (if p2_ok L sub data then Inr (p2_of data) else Inl ValueError)"
  by (simp add: read_point_g1_eq read_point_g2_eq)

lemma sum_upt: "0 < m \<Longrightarrow> sum_terms add (map f [0..<m]) None = Some (foldl add (f 0) (map f [1..<m]))"
  by (simp add: sum_terms_None upt_conv_Cons)

lemma some_items: "xs \<noteq> [] \<Longrightarrow> length xs mod n = 0 \<Longrightarrow> 0 < length xs div n"
  using div_mult_mod_eq [of "length xs" n] by (cases "length xs div n = 0") auto

lemma msm_g1_eq:
  assumes "payload \<noteq> []" "length payload mod 160 = 0"
  shows "msm_g1 L payload =
    (if \<forall>i < length payload div 160. p1_ok L True (bslice payload (160 * i) (160 * i + 128))
     then bls_g1_bytes L (foldl (ec_add1 L) (multiply1 L (p1_of (bslice payload 0 128)) (from_be (bslice payload 128 160)))
       (map (\<lambda>i. multiply1 L (p1_of (bslice payload (160 * i) (160 * i + 128))) (from_be (bslice payload (160 * i + 128) (160 * i + 160))))
         [1..<length payload div 160]))
     else Inl ValueError)"
proof -
  have "0 < length payload div 160" using assms by (rule some_items)
  then show ?thesis
    by (simp add: msm_g1_def read_point_g1_eq [abs_def] msm_loop_eq positions_exact assms list_all_iff comp_def sum_upt add.assoc
        cong: if_cong) (auto simp: atLeast0LessThan)
qed

lemma msm_g2_eq:
  assumes "payload \<noteq> []" "length payload mod 288 = 0"
  shows "msm_g2 L payload =
    (if \<forall>i < length payload div 288. p2_ok L True (bslice payload (288 * i) (288 * i + 256))
     then bls_g2_bytes L (foldl (ec_add2 L) (multiply2 L (p2_of (bslice payload 0 256)) (from_be (bslice payload 256 288)))
       (map (\<lambda>i. multiply2 L (p2_of (bslice payload (288 * i) (288 * i + 256))) (from_be (bslice payload (288 * i + 256) (288 * i + 288))))
         [1..<length payload div 288]))
     else Inl ValueError)"
proof -
  have "0 < length payload div 288" using assms by (rule some_items)
  then show ?thesis
    by (simp add: msm_g2_def read_point_g2_eq [abs_def] msm_loop_eq positions_exact assms list_all_iff comp_def sum_upt add.assoc
        cong: if_cong) (auto simp: atLeast0LessThan)
qed

text \<open>The statuses of the pairing record: 3 exactly for an empty payload or one that is not a
  multiple of 384, otherwise 2 exactly when a point does not decode in its subgroup, otherwise 1
  exactly when the product of the pairings is the unit.  The check never raises.\<close>

theorem bls_pairing_status:
  "bls_pairing_check L payload = Inr (le_fix 8
     (if payload = [] \<or> length payload mod 384 \<noteq> 0 then 3
      else if \<exists>i < length payload div 384. \<not> (p1_ok L True (bslice payload (384 * i) (384 * i + 128)) \<and>
          p2_ok L True (bslice payload (384 * i + 128) (384 * i + 384))) then 2
      else if foldl (\<lambda>r i. fq12_mul L r (ec_pairing L (p2_of (bslice payload (384 * i + 128) (384 * i + 384)))
          (p1_of (bslice payload (384 * i) (384 * i + 128))))) (fq12_one L) [0..<length payload div 384] = fq12_one L then 1
      else 0))"
proof (cases "payload = [] \<or> length payload mod 384 \<noteq> 0")
  case False
  have ps: "positions (length payload) 384 = map (\<lambda>i. 384 * i) [0..<length payload div 384]"
    using False by (intro positions_exact) simp_all
  show ?thesis
    using False unfolding bls_pairing_check_def ps pairing_loop_eq
    by (auto simp: list_all_iff foldl_map simp del: One_nat_def)
qed (auto simp: bls_pairing_check_def)

lemma msm_cases:
  "bls_eval_record L 5 payload = Inr
     (if payload = [] \<or> length payload mod 160 \<noteq> 0 \<or>
         (\<exists>i < length payload div 160. \<not> p1_ok L True (bslice payload (160 * i) (160 * i + 128)))
      then le_fix 8 1 @ zeros 128
      else case bls_g1_bytes L (foldl (ec_add1 L) (multiply1 L (p1_of (bslice payload 0 128)) (from_be (bslice payload 128 160)))
             (map (\<lambda>i. multiply1 L (p1_of (bslice payload (160 * i) (160 * i + 128))) (from_be (bslice payload (160 * i + 128) (160 * i + 160))))
               [1..<length payload div 160])) of Inr b \<Rightarrow> le_fix 8 0 @ b | Inl e \<Rightarrow> le_fix 8 1 @ zeros 128) \<and>
   bls_eval_record L 8 payload = Inr
     (if payload = [] \<or> length payload mod 288 \<noteq> 0 \<or>
         (\<exists>i < length payload div 288. \<not> p2_ok L True (bslice payload (288 * i) (288 * i + 256)))
      then le_fix 8 1 @ zeros 256
      else case bls_g2_bytes L (foldl (ec_add2 L) (multiply2 L (p2_of (bslice payload 0 256)) (from_be (bslice payload 256 288)))
             (map (\<lambda>i. multiply2 L (p2_of (bslice payload (288 * i) (288 * i + 256))) (from_be (bslice payload (288 * i + 256) (288 * i + 288))))
               [1..<length payload div 288])) of Inr b \<Rightarrow> le_fix 8 0 @ b | Inl e \<Rightarrow> le_fix 8 1 @ zeros 256)"
  by (cases "payload = [] \<or> length payload mod 160 \<noteq> 0"; cases "payload = [] \<or> length payload mod 288 \<noteq> 0";
      auto simp: bls_eval_record_def msm_g1_eq msm_g2_eq point_result_eq simp del: One_nat_def)

text \<open>Multi-scalar multiplication.  A G1 record answers status 1 and zeros exactly for an empty
  payload, one that is not a multiple of 160 bytes, or one with a point that does not decode in the
  subgroup (or whose sum does not serialise); otherwise status 0 and the serialised sum, added left
  to right, of the points times their scalars.  The G2 records do the same with items of 288 bytes.\<close>

theorem msm_records:
  "bls_eval_record L 5 payload = Inr
     (if payload \<noteq> [] \<and> 160 dvd length payload \<and>
         list_all (\<lambda>i. p1_ok L True (bslice payload (160 * i) (160 * i + 128))) [0..<length payload div 160]
      then case bls_g1_bytes L (foldl (ec_add1 L) (multiply1 L (p1_of (bslice payload 0 128)) (from_be (bslice payload 128 160)))
             (map (\<lambda>i. multiply1 L (p1_of (bslice payload (160 * i) (160 * i + 128))) (from_be (bslice payload (160 * i + 128) (160 * i + 160))))
               [1..<length payload div 160])) of Inr b \<Rightarrow> le_fix 8 0 @ b | Inl e \<Rightarrow> le_fix 8 1 @ zeros 128
      else le_fix 8 1 @ zeros 128) \<and>
   bls_eval_record L 8 payload = Inr
     (if payload \<noteq> [] \<and> 288 dvd length payload \<and>
         list_all (\<lambda>i. p2_ok L True (bslice payload (288 * i) (288 * i + 256))) [0..<length payload div 288]
      then case bls_g2_bytes L (foldl (ec_add2 L) (multiply2 L (p2_of (bslice payload 0 256)) (from_be (bslice payload 256 288)))
             (map (\<lambda>i. multiply2 L (p2_of (bslice payload (288 * i) (288 * i + 256))) (from_be (bslice payload (288 * i + 256) (288 * i + 288))))
               [1..<length payload div 288])) of Inr b \<Rightarrow> le_fix 8 0 @ b | Inl e \<Rightarrow> le_fix 8 1 @ zeros 256
      else le_fix 8 1 @ zeros 256)"
proof -
  have neg: "payload \<noteq> [] \<and> n dvd length payload \<and> list_all ok [0..<length payload div n] \<longleftrightarrow>
      \<not> (payload = [] \<or> length payload mod n \<noteq> 0 \<or> (\<exists>i < length payload div n. \<not> ok i))" for n ok
    by (auto simp: list_all_iff dvd_eq_mod_eq_0)
  have swap: "(if \<not> P then x else y) = (if P then y else x)" for P and x y :: bytes by simp
  show ?thesis unfolding neg swap by (rule msm_cases)
qed

definition answer_size :: "nat \<Rightarrow> nat option" where
  "answer_size ty =
     (if ty = 1 then Some 48 else if ty = 2 then Some 96 else if ty \<in> {3, 4, 5, 9} then Some 136
      else if ty \<in> {6, 7, 8, 10} then Some 264 else if ty = 11 then Some 8 else None)"

lemma bls_status_ok: "\<exists>b. bls_pairing_check L payload = Inr b \<and> length b = 8"
  by (auto simp: bls_pairing_check_def split: sum.split)

context pyecc_bounds
begin

lemma msm_ok:
  "w \<le> 64 \<Longrightarrow> msm_g1 L payload = Inr b \<Longrightarrow> length b = 128" "w \<le> 64 \<Longrightarrow> msm_g2 L payload = Inr c \<Longrightarrow> length c = 256"
proof -
  show "length b = 128" if "w \<le> 64" "msm_g1 L payload = Inr b"
    using that(2) bls_g1_ok [OF that(1)] by (auto simp: msm_g1_def split: option.splits) (metis sum.inject(2))
  show "length c = 256" if "w \<le> 64" "msm_g2 L payload = Inr c"
    using that(2) bls_g2_ok [OF that(1)] by (auto simp: msm_g2_def split: option.splits) (metis sum.inject(2))
qed

lemma point_result_length:
  assumes "\<And>b. op = Inr b \<Longrightarrow> length b = n" shows "\<exists>b. point_result n op = Inr b \<and> length b = n + 8"
  using assms by (cases op) (simp_all add: point_result_eq)

lemma answers:
  assumes w: "w \<le> 48"
  shows "case answer_size ty of Some n \<Rightarrow> \<exists>b. bls_eval_record L ty payload = Inr b \<and> length b = n
    | None \<Rightarrow> bls_eval_record L ty payload = Inl ValueError"
proof -
  have w64: "w \<le> 64" using w by simp
  note g1 = bls_g1_ok [OF w64] and g2 = bls_g2_ok [OF w64] and msm = msm_ok [OF w64]
  have l1: "length b = 128" if "bls_g1_bytes L p = Inr b" for p b using g1 [of p] that by auto
  have l2: "length b = 256" if "bls_g2_bytes L p = Inr b" for p b using g2 [of p] that by auto
  note P = point_result_length
  consider "ty = 1" | "ty = 2" | "ty = 3" | "ty = 4" | "ty = 5" | "ty = 6" | "ty = 7" | "ty = 8" | "ty = 9" | "ty = 10" | "ty = 11"
    | "ty \<notin> {1,2,3,4,5,6,7,8,9,10,11}" by blast
  then show ?thesis
  proof cases
    case 1
    then show ?thesis by (simp add: answer_size_def bls_eval_record_def Let_def to_be_mod [OF w])
  next
    case 2
    let ?a = "(int (from_be (bslice payload 0 48)), int (from_be (bslice payload 48 96)))"
    let ?b = "(int (from_be (bslice payload 96 144)), int (from_be (bslice payload 144 192)))"
    show ?thesis using 2 mul2 [of ?a ?b] by (simp add: answer_size_def bls_eval_record_def Let_def to_be_residue [OF w])
  next
    case 3
    then show ?thesis by (simp add: answer_size_def bls_eval_record_def) (rule P [of _ 128, simplified], auto dest: l1)
  next
    case 4
    then show ?thesis by (simp add: answer_size_def bls_eval_record_def) (rule P [of _ 128, simplified], auto dest: l1)
  next
    case 5
    then show ?thesis using P [of "msm_g1 L payload" 128] msm(1) by (auto simp: answer_size_def bls_eval_record_def)
  next
    case 6
    then show ?thesis by (simp add: answer_size_def bls_eval_record_def) (rule P [of _ 256, simplified], auto dest: l2)
  next
    case 7
    then show ?thesis by (simp add: answer_size_def bls_eval_record_def) (rule P [of _ 256, simplified], auto dest: l2)
  next
    case 8
    then show ?thesis using P [of "msm_g2 L payload" 256] msm(2) by (auto simp: answer_size_def bls_eval_record_def)
  next
    case 9
    then show ?thesis using g1 [of "map_to_g1 L (int (from_be payload))"] by (auto simp: answer_size_def bls_eval_record_def Let_def)
  next
    case 10
    then show ?thesis
      using g2 [of "map_to_g2 L (int (from_be (bslice payload 0 64)), int (from_be (drop 64 payload)))"]
      by (auto simp: answer_size_def bls_eval_record_def Let_def)
  next
    case 11
    then show ?thesis by (simp add: answer_size_def bls_eval_record_def bls_pairing_status)
  next
    case 12
    then show ?thesis by (simp add: answer_size_def bls_eval_record_def)
  qed
qed

end

text \<open>C28: the shape of the answers.  For residues that fit 48 bytes, every record of the eleven types
  is answered without an exception, whatever its payload, by a string whose length depends on the
  type alone: 48, 96, 136 for the G1 types, 264 for the G2 types and 8 for the pairing; any other
  type raises \<open>ValueError\<close>.\<close>

theorem bls_answer_shape:
  assumes "pyecc_bounds L 48"
  shows "case answer_size ty of Some n \<Rightarrow> \<exists>b. bls_eval_record L ty payload = Inr b \<and> length b = n
    | None \<Rightarrow> bls_eval_record L ty payload = Inl ValueError"
  by (rule pyecc_bounds.answers [OF assms order_refl])

lemma bls_answer_shape_witness:
  "(\<exists>b. bls_eval_record ecc7 8 [7, 7] = Inr b \<and> length b = 264) \<and> bls_eval_record ecc7 12 [] = Inl ValueError"
  using bls_answer_shape [OF ecc7_bounds, of 8 "[7, 7]"] bls_answer_shape [OF ecc7_bounds, of 12 "[]"]
  by (simp add: answer_size_def)

end
