(* ===== verification/Bls12Cases.thy ===== *)
theory Bls12Cases
  imports Bls12Vectors BnCases Ssz
begin

text \<open>
  The list of cases of \<open>tools/gen_bls12381_vectors.py\<close> and its files: \<open>make_cases\<close> and \<open>main\<close>, with \<open>py_ecc\<close> as the record of
  \<open>PyEcc\<close>, extended by the generators and the negation.  Drawn numbers are the fields of a record.
\<close>

section \<open>The functions of the file\<close>

record 'f bls_lib =
  becc :: "'f pyecc"
  bls_G1 :: "int proj"
  bls_G2 :: "f2 proj"
  ec_neg1 :: "int proj \<Rightarrow> int proj"

record bls_draws =
  b_pair :: "int \<times> int"
  b_f2 :: "(int \<times> int) \<times> (int \<times> int)"
  b_map1 :: int
  b_map2 :: "int \<times> int"

definition bls_arith_cases :: "'f bls_lib \<Rightarrow> bls_draws \<Rightarrow> (nat \<times> bytes) res list" where
  "bls_arith_cases B D = (let P = field_modulus (becc B) in
     map (\<lambda>(a, b). case_of 1 [int_to_be 48 a, int_to_be 48 b]) [(0, 5), (1, P - 1), (P - 1, P - 1), b_pair D]
     @ map (\<lambda>((a0, a1), (b0, b1)). case_of 2 [int_to_be 48 a0, int_to_be 48 a1, int_to_be 48 b0, int_to_be 48 b1])
         [((0, 0), (1, 0)), ((1, 2), (P - 3, 5)), ((P - 1, P - 2), (P - 5, P - 7)), b_f2 D])"

definition bls_g1_cases :: "'f bls_lib \<Rightarrow> bytes \<Rightarrow> bytes \<Rightarrow> bytes \<Rightarrow> (nat \<times> bytes) res list" where
  "bls_g1_cases B g g2 ng =
     [case_of 3 [Inr g, Inr g], case_of 3 [Inr g, Inr (zeros 128)], case_of 3 [Inr g, Inr ng],
      case_of 3 [int_to_be 64 1, int_to_be 64 3, Inr g]]
     @ map (\<lambda>k. case_of 4 [Inr g, int_to_be 32 k]) [0, 1, 2, int (curve_order (becc B)) - 1]
     @ [case_of 5 [Inr g, int_to_be 32 3], case_of 5 [Inr g, int_to_be 32 2, Inr g2, int_to_be 32 5]]"

definition bls_g2_cases :: "'f bls_lib \<Rightarrow> bytes \<Rightarrow> bytes \<Rightarrow> (nat \<times> bytes) res list" where
  "bls_g2_cases B q q2 =
     [case_of 6 [Inr q, Inr q], case_of 6 [Inr q, Inr (zeros 256)],
      case_of 6 [Inr q, bls_g2_bytes (becc B) (multiply2 (becc B) (bls_G2 B) 3)]]
     @ map (\<lambda>k. case_of 7 [Inr q, int_to_be 32 k]) [0, 1, 2]
     @ [case_of 8 [Inr q, int_to_be 32 3], case_of 8 [Inr q, int_to_be 32 2, Inr q2, int_to_be 32 5]]"

definition bls_map_cases :: "bls_draws \<Rightarrow> (nat \<times> bytes) res list" where
  "bls_map_cases D =
     map (\<lambda>x. case_of 9 [int_to_be 64 x]) [0, 1, b_map1 D]
     @ map (\<lambda>(x0, x1). case_of 10 [int_to_be 64 x0, int_to_be 64 x1]) [(0, 0), (1, 0), b_map2 D]"

definition bls_pairing_cases :: "bytes \<Rightarrow> bytes \<Rightarrow> bytes \<Rightarrow> (nat \<times> bytes) list" where
  "bls_pairing_cases g ng q = [(11, g @ q), (11, g @ q @ ng @ q), (11, g @ q @ g @ q), (11, zeros 128 @ q)]"

definition bls_make_cases :: "'f bls_lib \<Rightarrow> bls_draws \<Rightarrow> (nat \<times> bytes) list res" where
  "bls_make_cases B D =
     ebind (bls_g1_bytes (becc B) (bls_G1 B)) (\<lambda>g. ebind (bls_g2_bytes (becc B) (bls_G2 B)) (\<lambda>q.
     ebind (bls_g1_bytes (becc B) (multiply1 (becc B) (bls_G1 B) 2)) (\<lambda>g2.
     ebind (bls_g2_bytes (becc B) (multiply2 (becc B) (bls_G2 B) 2)) (\<lambda>q2.
     ebind (bls_g1_bytes (becc B) (ec_neg1 B (bls_G1 B))) (\<lambda>ng.
     ebind (seqs (bls_arith_cases B D @ bls_g1_cases B g g2 ng @ bls_g2_cases B q q2 @ bls_map_cases D)) (\<lambda>recs.
       Inr (recs @ bls_pairing_cases g ng q)))))))"

definition bls_files :: "'f bls_lib \<Rightarrow> (nat \<times> bytes) list \<Rightarrow> nat list \<Rightarrow> (bytes \<times> bytes) res" where
  \<comment> \<open>the input and the expected file, given the records and the types of \<open>--only\<close> (none: all)\<close>
  "bls_files B recs only =
     (let recs = (if only \<noteq> [] then filter (\<lambda>r. fst r \<in> set only) recs else recs)
      in ebind (emap (\<lambda>(ty, pl). frame_record ty pl) recs) (\<lambda>fs. let blob = concat fs in
         ebind (pack_u64 (length blob)) (\<lambda>n. ebind (bls_expected (becc B) blob) (\<lambda>exp.
           Inr (n @ pad8_bytes blob, exp)))))"

definition bls_main :: "'f bls_lib \<Rightarrow> bls_draws \<Rightarrow> nat list \<Rightarrow> (bytes \<times> bytes) res" where
  "bls_main B D only = ebind (bls_make_cases B D) (\<lambda>recs. bls_files B recs only)"

section \<open>Statuses of single records\<close>

definition bls_status :: "'f pyecc \<Rightarrow> nat \<times> bytes \<Rightarrow> nat list \<Rightarrow> bool" where
  \<comment> \<open>the record is answered; unless the list is empty, the answer starts with one of its words\<close>
  "bls_status L rec st = (case bls_eval_record L (fst rec) (snd rec) of Inl _ \<Rightarrow> False
     | Inr a \<Rightarrow> st = [] \<or> list_ex (\<lambda>s. take 8 a = le_fix 8 s) st)"

lemma le_fix_take [simp]: "take 8 (le_fix 8 n @ r) = le_fix 8 n" "take 8 (le_fix 8 n) = le_fix 8 n"
  by simp_all

lemma bls_status_none: "pyecc_bounds L 48 \<Longrightarrow> ty \<in> {1, 2} \<Longrightarrow> bls_status L (ty, d) []"
  using pyecc_bounds.answers [of L 48 ty d] by (auto simp: bls_status_def answer_size_def split: sum.split)

lemma bls_status_point:
  assumes "bls_eval_record L ty d = point_result n op" "op = Inr b"
  shows "bls_status L (ty, d) [0]"
  using assms by (simp add: bls_status_def point_result_eq)

lemma p1_ok_weaken: "p1_ok L True d \<Longrightarrow> p1_ok L False d" and p2_ok_weaken: "p2_ok L True d \<Longrightarrow> p2_ok L False d"
  by (auto simp: p1_ok_def p2_ok_def)

lemma p1_ok_length: "p1_ok L s d \<Longrightarrow> length d = 128" and p2_ok_length: "p2_ok L s d \<Longrightarrow> length d = 256"
  by (auto simp: p1_ok_def p2_ok_def)

context pyecc_bounds
begin

lemma status_g1:
  assumes "w \<le> 64" "p1_ok L True a" "length k = 32"
  shows "p1_ok L True b \<Longrightarrow> bls_status L (3, a @ b) [0]" "bls_status L (4, a @ k) [0]"
proof -
  note w = bls_g1_ok [OF assms(1)]
  have a: "read_point_g1 L a False = Inr (p1_of a)" using p1_ok_weaken [OF assms(2)] by (simp add: read_point_g1_eq)
  note l = p1_ok_length [OF assms(2)]
  obtain z where z: "bls_g1_bytes L (multiply1 L (p1_of a) (from_be k)) = Inr z" using w by blast
  show "bls_status L (4, a @ k) [0]"
    by (rule bls_status_point [of _ _ _ 128 "bls_g1_bytes L (multiply1 L (p1_of a) (from_be k))" z])
      (simp_all add: bls_eval_record_def z a l assms(3) bslice_def)
  assume b: "p1_ok L True b"
  then have b: "read_point_g1 L b False = Inr (p1_of b)" using p1_ok_weaken by (simp add: read_point_g1_eq)
  obtain y where y: "bls_g1_bytes L (ec_add1 L (p1_of a) (p1_of b)) = Inr y" using w by blast
  show "bls_status L (3, a @ b) [0]"
    by (rule bls_status_point [of _ _ _ 128 "bls_g1_bytes L (ec_add1 L (p1_of a) (p1_of b))" y])
      (simp_all add: bls_eval_record_def y a b l bslice_def)
qed

lemma status_g2:
  assumes "w \<le> 64" "p2_ok L True a" "length k = 32"
  shows "p2_ok L True b \<Longrightarrow> bls_status L (6, a @ b) [0]" "bls_status L (7, a @ k) [0]"
proof -
  note w = bls_g2_ok [OF assms(1)]
  have a: "read_point_g2 L a False = Inr (p2_of a)" using p2_ok_weaken [OF assms(2)] by (simp add: read_point_g2_eq)
  note l = p2_ok_length [OF assms(2)]
  obtain z where z: "bls_g2_bytes L (multiply2 L (p2_of a) (from_be k)) = Inr z" using w by blast
  show "bls_status L (7, a @ k) [0]"
    by (rule bls_status_point [of _ _ _ 256 "bls_g2_bytes L (multiply2 L (p2_of a) (from_be k))" z])
      (simp_all add: bls_eval_record_def z a l assms(3) bslice_def)
  assume b: "p2_ok L True b"
  then have b: "read_point_g2 L b False = Inr (p2_of b)" using p2_ok_weaken by (simp add: read_point_g2_eq)
  obtain y where y: "bls_g2_bytes L (ec_add2 L (p2_of a) (p2_of b)) = Inr y" using w by blast
  show "bls_status L (6, a @ b) [0]"
    by (rule bls_status_point [of _ _ _ 256 "bls_g2_bytes L (ec_add2 L (p2_of a) (p2_of b))" y])
      (simp_all add: bls_eval_record_def y a b l bslice_def)
qed

lemma status_off_curve:
  assumes "\<not> p1_ok L False a" "length a = 128"
  shows "bls_status L (3, a @ b) [1]"
  using assms by (simp add: bls_status_def bls_eval_record_def point_result_eq read_point_g1_eq bslice_def del: One_nat_def)

lemma status_msm1:
  assumes w: "w \<le> 64" and a: "p1_ok L True a" "length k = 32"
  shows "bls_status L (5, a @ k) [0]" "p1_ok L True b \<Longrightarrow> length j = 32 \<Longrightarrow> bls_status L (5, a @ k @ b @ j) [0]"
proof -
  have *: "bls_status L (5, d) [0]" if "d \<noteq> []" "length d mod 160 = 0" "list_all (\<lambda>i. p1_ok L True (bslice d (160 * i) (160 * i + 128))) [0..<length d div 160]" for d
  proof -
    have "160 dvd length d" using that(2) by (simp add: dvd_eq_mod_eq_0)
    moreover obtain z where "bls_g1_bytes L (foldl (ec_add1 L) (multiply1 L (p1_of (bslice d 0 128)) (from_be (bslice d 128 160)))
             (map (\<lambda>i. multiply1 L (p1_of (bslice d (160 * i) (160 * i + 128))) (from_be (bslice d (160 * i + 128) (160 * i + 160))))
               [1..<length d div 160])) = Inr z" using bls_g1_ok [OF w] by blast
    ultimately show ?thesis unfolding bls_status_def fst_conv snd_conv using msm_records [of L d] that by simp
  qed
  note l = p1_ok_length [OF a(1)]
  have u: "[0..<2] = [0, Suc 0]" by (simp add: numeral_2_eq_2)
  show "bls_status L (5, a @ k) [0]" by (rule *) (use a l in \<open>auto simp: bslice_def\<close>)
  assume b: "p1_ok L True b" "length j = 32"
  show "bls_status L (5, a @ k @ b @ j) [0]"
    by (rule *) (use a b l p1_ok_length [OF b(1)] in \<open>auto simp: bslice_def u\<close>)
qed

lemma status_msm2:
  assumes w: "w \<le> 64" and a: "p2_ok L True a" "length k = 32"
  shows "bls_status L (8, a @ k) [0]" "p2_ok L True b \<Longrightarrow> length j = 32 \<Longrightarrow> bls_status L (8, a @ k @ b @ j) [0]"
proof -
  have *: "bls_status L (8, d) [0]" if "d \<noteq> []" "length d mod 288 = 0" "list_all (\<lambda>i. p2_ok L True (bslice d (288 * i) (288 * i + 256))) [0..<length d div 288]" for d
  proof -
    have "288 dvd length d" using that(2) by (simp add: dvd_eq_mod_eq_0)
    moreover obtain z where "bls_g2_bytes L (foldl (ec_add2 L) (multiply2 L (p2_of (bslice d 0 256)) (from_be (bslice d 256 288)))
             (map (\<lambda>i. multiply2 L (p2_of (bslice d (288 * i) (288 * i + 256))) (from_be (bslice d (288 * i + 256) (288 * i + 288))))
               [1..<length d div 288])) = Inr z" using bls_g2_ok [OF w] by blast
    ultimately show ?thesis unfolding bls_status_def fst_conv snd_conv using msm_records [of L d] that by simp
  qed
  note l = p2_ok_length [OF a(1)]
  have u: "[0..<2] = [0, Suc 0]" by (simp add: numeral_2_eq_2)
  show "bls_status L (8, a @ k) [0]" by (rule *) (use a l in \<open>auto simp: bslice_def\<close>)
  assume b: "p2_ok L True b" "length j = 32"
  show "bls_status L (8, a @ k @ b @ j) [0]"
    by (rule *) (use a b l p2_ok_length [OF b(1)] in \<open>auto simp: bslice_def u\<close>)
qed

lemma status_map:
  assumes w: "w \<le> 64" and x: "residue L x" "residue L y"
  shows "bls_status L (9, be_fix 64 (nat x)) [0]" "bls_status L (10, be_fix 64 (nat x) @ be_fix 64 (nat y)) [0]"
proof -
  have le: "field_modulus L \<le> 256 ^ 64"
    using modulus(2) power_increasing [OF w, of "256 :: int"] by linarith
  have n: "int (nat z mod 256 ^ 64) = z" if "residue L z" for z
    using that le by (auto simp: residue_def nat_less_iff)
  show "bls_status L (9, be_fix 64 (nat x)) [0]"
    using bls_g1_ok [OF w, of "map_to_g1 L x"] x(1) n [OF x(1)]
    by (auto simp: bls_status_def bls_eval_record_def from_be_be_fix residue_def Let_def)
  show "bls_status L (10, be_fix 64 (nat x) @ be_fix 64 (nat y)) [0]"
    using bls_g2_ok [OF w, of "map_to_g2 L (x, y)"] x n [OF x(1)] n [OF x(2)]
    by (auto simp: bls_status_def bls_eval_record_def from_be_be_fix residue_def Let_def bslice_def)
qed

end

lemma status_pair:
  assumes "d \<noteq> []" "length d mod 384 = 0"
    and "list_all (\<lambda>i. p1_ok L True (bslice d (384 * i) (384 * i + 128)) \<and> p2_ok L True (bslice d (384 * i + 128) (384 * i + 384))) [0..<length d div 384]"
  shows "bls_status L (11, d) [0, 1]"
proof -
  have "bls_eval_record L 11 d = bls_pairing_check L d" by (simp add: bls_eval_record_def)
  then show ?thesis using assms by (auto simp: bls_status_def bls_pairing_status list_all_iff)
qed

section \<open>The list of cases\<close>

definition bls_draws_ok :: "'f bls_lib \<Rightarrow> bls_draws \<Rightarrow> bool" where
  \<comment> \<open>the draws are \<open>randrange(P)\<close>\<close>
  "bls_draws_ok B D \<longleftrightarrow> list_all (residue (becc B))
     [fst (b_pair D), snd (b_pair D), fst (fst (b_f2 D)), snd (fst (b_f2 D)), fst (snd (b_f2 D)), snd (snd (b_f2 D)), b_map1 D, fst (b_map2 D), snd (b_map2 D)]"

definition enc_ok1 :: "'f bls_lib \<Rightarrow> int proj \<Rightarrow> bool" where
  "enc_ok1 B p = (case bls_g1_bytes (becc B) p of Inr b \<Rightarrow> p1_ok (becc B) True b | Inl _ \<Rightarrow> False)"

definition enc_ok2 :: "'f bls_lib \<Rightarrow> f2 proj \<Rightarrow> bool" where
  "enc_ok2 B p = (case bls_g2_bytes (becc B) p of Inr b \<Rightarrow> p2_ok (becc B) True b | Inl _ \<Rightarrow> False)"

definition bls_points_ok :: "'f bls_lib \<Rightarrow> bool" where
  \<comment> \<open>the generators, their small multiples and the encoding of infinity decode in their subgroups, \<open>(1, 3)\<close> does not\<close>
  "bls_points_ok B \<longleftrightarrow>
     list_all (enc_ok1 B) [bls_G1 B, multiply1 (becc B) (bls_G1 B) 2, ec_neg1 B (bls_G1 B)] \<and>
     list_all (enc_ok2 B) [bls_G2 B, multiply2 (becc B) (bls_G2 B) 2, multiply2 (becc B) (bls_G2 B) 3] \<and>
     p1_ok (becc B) True (zeros 128) \<and> p2_ok (becc B) True (zeros 256) \<and> \<not> is_on_curve1 (becc B) (1, 3, 1) \<and>
     7 \<le> field_modulus (becc B) \<and> 0 < curve_order (becc B) \<and> curve_order (becc B) \<le> 2 ^ 256"

definition bls_statuses :: "(nat \<times> nat list) list" where
  \<comment> \<open>the types of the records, in order, with the words that they may start with\<close>
  "bls_statuses = replicate 4 (1, []) @ replicate 4 (2, []) @ replicate 3 (3, [0]) @ [(3, [1])] @ replicate 4 (4, [0]) @ replicate 2 (5, [0])
     @ replicate 3 (6, [0]) @ replicate 3 (7, [0]) @ replicate 2 (8, [0]) @ replicate 3 (9, [0]) @ replicate 3 (10, [0]) @ replicate 4 (11, [0, 1])"

definition rec_ok :: "'f pyecc \<Rightarrow> nat \<times> bytes \<Rightarrow> nat \<times> nat list \<Rightarrow> bool" where
  "rec_ok L rec st \<longleftrightarrow> fst rec = fst st \<and> length (snd rec) < 1024 \<and> bls_status L rec (snd st)"

definition answers_as :: "'f pyecc \<Rightarrow> (nat \<times> bytes) res \<Rightarrow> nat \<times> nat list \<Rightarrow> bool" where
  "answers_as L m st = (case m of Inl _ \<Rightarrow> False | Inr rec \<Rightarrow> rec_ok L rec st)"

lemma seqs_answers:
  "list_all2 (answers_as L) ms sts \<Longrightarrow> \<exists>recs. seqs ms = Inr recs \<and> list_all2 (rec_ok L) recs sts"
  by (induction rule: list_all2_induct) (auto simp: answers_as_def split: sum.splits)

lemma case_of_simps:
  "case_of ty [Inr a] = Inr (ty, a)" "case_of ty [Inr a, Inr b] = Inr (ty, a @ b)" "case_of ty [Inr a, Inr b, Inr d] = Inr (ty, a @ b @ d)"
  "case_of ty [Inr a, Inr b, Inr d, Inr e] = Inr (ty, a @ b @ d @ e)"
  by (simp_all add: case_of_def cat_def)

lemma replicates: "replicate 2 x = [x, x]" "replicate 3 x = [x, x, x]" "replicate 4 x = [x, x, x, x]"
  by (simp_all add: numeral_eq_Suc)

lemma length_be_fixes: "length (be_fix 32 n) = 32" "length (be_fix 64 n) = 64"
  by simp_all

context pyecc_bounds
begin

lemma arith_answers:
  assumes w: "w \<le> 48" and L: "L = becc B" and d: "bls_draws_ok B D" and p: "7 \<le> field_modulus L"
  shows "list_all2 (answers_as L) (bls_arith_cases B D) (replicate 4 (1, []) @ replicate 4 (2, []))"
proof -
  have one: "answers_as L (case_of ty ms) (ty, [])" if "ty \<in> {1, 2}" "case_of ty ms = Inr (ty, b)" "length b < 1024" for ty ms b
  proof -
    have "w \<le> 48 \<Longrightarrow> \<exists>b'. bls_eval_record L ty b = Inr b'" using answers [OF w, of ty b] that(1) by (auto simp: answer_size_def)
    then show ?thesis using w that by (auto simp: answers_as_def rec_ok_def bls_status_def)
  qed
  have t: "int_to_be 48 x = Inr (be_fix 48 (nat x))" if "residue L x" for x using to_be_residue [OF w that] .
  obtain a b where ab: "b_pair D = (a, b)" by (cases "b_pair D")
  obtain a0 a1 b0 b1 where f: "b_f2 D = ((a0, a1), (b0, b1))" by (metis prod.exhaust)
  have r: "residue L a" "residue L b" "residue L a0" "residue L a1" "residue L b0" "residue L b1"
    using d by (simp_all add: bls_draws_ok_def ab f L)
  have c: "residue L 0" "residue L 1" "residue L 2" "residue L 5" "residue L (field_modulus L - 1)" "residue L (field_modulus L - 2)"
    "residue L (field_modulus L - 3)" "residue L (field_modulus L - 5)" "residue L (field_modulus L - 7)"
    using p by (simp_all add: residue_def)
  note e = r [THEN t] c [THEN t]
  show ?thesis
    unfolding bls_arith_cases_def Let_def L [symmetric] ab f list.map append.simps prod.case replicates
    by (intro list.rel_intros one) (simp_all add: e case_of_simps, simp_all)
qed

lemma scalar_bytes: "0 \<le> k \<Longrightarrow> k < 2 ^ 256 \<Longrightarrow> int_to_be 32 k = Inr (be_fix 32 (nat k))"
  by (rule int_to_be_ok) simp_all

lemma g1_answers:
  assumes w: "w \<le> 64" and L: "L = becc B" and g: "p1_ok L True g" "p1_ok L True g2" "p1_ok L True ng" "p1_ok L True (zeros 128)"
    and off: "\<not> is_on_curve1 L (1, 3, 1)" and o: "0 < curve_order L" "curve_order L \<le> 2 ^ 256"
  shows "list_all2 (answers_as L) (bls_g1_cases B g g2 ng)
    (replicate 3 (3, [0]) @ [(3, [1])] @ replicate 4 (4, [0]) @ replicate 2 (5, [0]))"
proof -
  have sum: "answers_as L (case_of 3 [Inr a, Inr b]) (3, [0])" if "p1_ok L True a" "p1_ok L True b" for a b
    using status_g1(1) [OF w that(1) length_be_fixes(1) that(2)] that [THEN p1_ok_length] by (simp add: answers_as_def rec_ok_def case_of_simps)
  have mul: "answers_as L (case_of 4 [Inr g, int_to_be 32 k]) (4, [0])" if "0 \<le> k" "k < 2 ^ 256" for k
    using status_g1(2) [OF w g(1) length_be_fixes(1)] g(1) [THEN p1_ok_length] by (simp add: answers_as_def rec_ok_def case_of_simps scalar_bytes [OF that])
  have msm: "answers_as L (case_of 5 [Inr g, int_to_be 32 3]) (5, [0])"
    "answers_as L (case_of 5 [Inr g, int_to_be 32 2, Inr g2, int_to_be 32 5]) (5, [0])"
    using status_msm1(1) [OF w g(1) length_be_fixes(1)] status_msm1(2) [OF w g(1) length_be_fixes(1) g(2) length_be_fixes(1)] g(1,2) [THEN p1_ok_length]
    by (simp_all add: answers_as_def rec_ok_def case_of_simps scalar_bytes)
  have i: "int_to_be 64 1 = Inr (be_fix 64 1)" "int_to_be 64 3 = Inr (be_fix 64 3)" by (subst int_to_be_ok; simp)+
  have "p1_of (be_fix 64 1 @ be_fix 64 3) = (1, 3, 1)" by (simp add: p1_of_def bslice_def from_be_be_fix Let_def)
  then have "\<not> p1_ok L False (be_fix 64 1 @ be_fix 64 3)" using off by (simp add: p1_ok_def)
  from status_off_curve [OF this, of g]
  have bad: "answers_as L (case_of 3 [int_to_be 64 1, int_to_be 64 3, Inr g]) (3, [1])"
    using g(1) [THEN p1_ok_length] by (simp add: answers_as_def rec_ok_def case_of_simps i)
  show ?thesis
    unfolding bls_g1_cases_def L [symmetric] list.map append.simps replicates
    by (intro list.rel_intros sum mul msm bad g) (use o in simp_all)
qed

lemma g2_answers:
  assumes w: "w \<le> 64" and L: "L = becc B" and q: "p2_ok L True q" "p2_ok L True q2" "p2_ok L True (zeros 256)"
    and q3: "enc_ok2 B (multiply2 L (bls_G2 B) 3)"
  shows "list_all2 (answers_as L) (bls_g2_cases B q q2) (replicate 3 (6, [0]) @ replicate 3 (7, [0]) @ replicate 2 (8, [0]))"
proof -
  have sum: "answers_as L (case_of 6 [Inr a, Inr b]) (6, [0])" if "p2_ok L True a" "p2_ok L True b" for a b
    using status_g2(1) [OF w that(1) length_be_fixes(1) that(2)] that [THEN p2_ok_length] by (simp add: answers_as_def rec_ok_def case_of_simps)
  have mul: "answers_as L (case_of 7 [Inr q, int_to_be 32 k]) (7, [0])" if "0 \<le> k" "k < 2 ^ 256" for k
    using status_g2(2) [OF w q(1) length_be_fixes(1)] q(1) [THEN p2_ok_length] by (simp add: answers_as_def rec_ok_def case_of_simps scalar_bytes [OF that])
  have msm: "answers_as L (case_of 8 [Inr q, int_to_be 32 3]) (8, [0])"
    "answers_as L (case_of 8 [Inr q, int_to_be 32 2, Inr q2, int_to_be 32 5]) (8, [0])"
    using status_msm2(1) [OF w q(1) length_be_fixes(1)] status_msm2(2) [OF w q(1) length_be_fixes(1) q(2) length_be_fixes(1)] q(1,2) [THEN p2_ok_length]
    by (simp_all add: answers_as_def rec_ok_def case_of_simps scalar_bytes)
  obtain b where "bls_g2_bytes L (multiply2 L (bls_G2 B) 3) = Inr b" "p2_ok L True b"
    using q3 by (auto simp: enc_ok2_def L split: sum.splits)
  with sum [OF q(1)] have three: "answers_as L (case_of 6 [Inr q, bls_g2_bytes L (multiply2 L (bls_G2 B) 3)]) (6, [0])" by simp
  show ?thesis
    unfolding bls_g2_cases_def L [symmetric] list.map append.simps replicates
    by (intro list.rel_intros sum mul msm three q) simp_all
qed

lemma map_answers:
  assumes w: "w \<le> 64" and L: "L = becc B" and d: "bls_draws_ok B D" and p: "7 \<le> field_modulus L"
  shows "list_all2 (answers_as L) (bls_map_cases D) (replicate 3 (9, [0]) @ replicate 3 (10, [0]))"
proof -
  obtain a b where ab: "b_map2 D = (a, b)" by (cases "b_map2 D")
  have r: "residue L (b_map1 D)" "residue L a" "residue L b" "residue L 0" "residue L 1"
    using d p by (simp_all add: bls_draws_ok_def ab L residue_def)
  have one: "answers_as L (case_of 9 [int_to_be 64 x]) (9, [0])" if "residue L x" for x
    using status_map(1) [OF w that that] to_be_residue [OF w that] by (simp add: answers_as_def rec_ok_def case_of_simps)
  have two: "answers_as L (case_of 10 [int_to_be 64 x, int_to_be 64 y]) (10, [0])" if "residue L x" "residue L y" for x y
    using status_map(2) [OF w that] to_be_residue [OF w that(1)] to_be_residue [OF w that(2)] by (simp add: answers_as_def rec_ok_def case_of_simps)
  show ?thesis
    unfolding bls_map_cases_def ab list.map append.simps prod.case replicates
    by (intro list.rel_intros one two r)
qed

lemma pairing_answers:
  assumes "p1_ok L True g" "p1_ok L True ng" "p1_ok L True (zeros 128)" "p2_ok L True q"
  shows "list_all2 (rec_ok L) (bls_pairing_cases g ng q) (replicate 4 (11, [0, 1]))"
proof -
  have l: "length g = 128" "length ng = 128" "length q = 256"
    using assms by (simp_all add: p1_ok_length p2_ok_length)
  have u: "[0..<2] = [0, Suc 0]" by (simp add: numeral_2_eq_2)
  have one: "bls_status L (11, a @ q) [0, 1]" if "p1_ok L True a" for a
    by (rule status_pair) (use p1_ok_length [OF that] that assms(4) l in \<open>auto simp: bslice_def\<close>)
  have two: "bls_status L (11, g @ q @ a @ q) [0, 1]" if "p1_ok L True a" for a
    by (rule status_pair) (use p1_ok_length [OF that] that assms(1,4) l in \<open>auto simp: bslice_def u\<close>)
  show ?thesis using one two assms l by (simp add: bls_pairing_cases_def replicates rec_ok_def)
qed

lemma records_answered:
  assumes w: "w \<le> 48" and L: "L = becc B" and d: "bls_draws_ok B D" and p: "bls_points_ok B"
  shows "\<exists>recs. bls_make_cases B D = Inr recs \<and> list_all2 (rec_ok L) recs bls_statuses"
proof -
  have w64: "w \<le> 64" using w by simp
  obtain g g2 ng where g: "bls_g1_bytes L (bls_G1 B) = Inr g" "bls_g1_bytes L (multiply1 L (bls_G1 B) 2) = Inr g2" "bls_g1_bytes L (ec_neg1 B (bls_G1 B)) = Inr ng"
    "p1_ok L True g" "p1_ok L True g2" "p1_ok L True ng"
    using p by (auto simp: bls_points_ok_def enc_ok1_def L split: sum.splits)
  obtain q q2 where q: "bls_g2_bytes L (bls_G2 B) = Inr q" "bls_g2_bytes L (multiply2 L (bls_G2 B) 2) = Inr q2" "p2_ok L True q" "p2_ok L True q2"
    using p by (auto simp: bls_points_ok_def enc_ok2_def L split: sum.splits)
  have z: "p1_ok L True (zeros 128)" "p2_ok L True (zeros 256)" "\<not> is_on_curve1 L (1, 3, 1)" "7 \<le> field_modulus L"
    "0 < curve_order L" "curve_order L \<le> 2 ^ 256" "enc_ok2 B (multiply2 L (bls_G2 B) 3)"
    using p by (simp_all add: bls_points_ok_def L)
  note parts = arith_answers [OF w L d z(4)] g1_answers [OF w64 L g(4,5,6) z(1,3,5,6)] g2_answers [OF w64 L q(3,4) z(2,7)] map_answers [OF w64 L d z(4)]
  let ?ms = "bls_arith_cases B D @ bls_g1_cases B g g2 ng @ bls_g2_cases B q q2 @ bls_map_cases D"
  from seqs_answers [OF list_all2_appendI [OF parts(1) list_all2_appendI [OF parts(2) list_all2_appendI [OF parts(3,4)]]]]
  obtain recs where r: "seqs ?ms = Inr recs" "list_all2 (rec_ok L) recs
    ((replicate 4 (1, []) @ replicate 4 (2, [])) @ (replicate 3 (3, [0]) @ [(3, [1])] @ replicate 4 (4, [0]) @ replicate 2 (5, [0]))
      @ (replicate 3 (6, [0]) @ replicate 3 (7, [0]) @ replicate 2 (8, [0])) @ (replicate 3 (9, [0]) @ replicate 3 (10, [0])))" by blast
  have "bls_make_cases B D = Inr (recs @ bls_pairing_cases g ng q)"
    by (simp add: bls_make_cases_def L [symmetric] g q r(1))
  moreover note list_all2_appendI [OF r(2) pairing_answers [OF g(4,6) z(1) q(3)]]
  ultimately show ?thesis unfolding bls_statuses_def append_assoc by blast
qed

end

section \<open>The files\<close>

lemma rec_ok_answer:
  assumes "pyecc_bounds L 48" "rec_ok L rec st"
  shows "\<exists>f g. frame_record (fst rec) (snd rec) = Inr f \<and> length f < 2048 \<and> answer (bls_eval_record L) rec = Inr g"
proof -
  obtain a where a: "bls_eval_record L (fst rec) (snd rec) = Inr a" using assms(2) by (auto simp: rec_ok_def bls_status_def split: sum.splits)
  then have "fst rec < 12 \<and> length a \<le> 264"
    using pyecc_bounds.answers [OF assms(1) order_refl, of "fst rec" "snd rec"] by (auto simp: answer_size_def split: if_splits)
  moreover have l: "length (snd rec) < 1024" using assms(2) by (simp add: rec_ok_def)
  moreover have "align8 (length (snd rec)) \<le> length (snd rec) + 7" by (simp add: align8_eq)
  ultimately show ?thesis using a by (auto simp: frame_record_Inr answer_def length_pad8)
qed

lemma rec_ok_frames:
  assumes b: "pyecc_bounds L 48"
  shows "list_all2 (rec_ok L) recs sts \<Longrightarrow> \<exists>fs gs. emap (\<lambda>(ty, pl). frame_record ty pl) recs = Inr fs \<and>
    length (concat fs) \<le> 2048 * length recs \<and> emap (answer (bls_eval_record L)) recs = Inr gs"
proof (induction rule: list_all2_induct)
  case (Cons rec recs st sts)
  then obtain fs gs where "emap (\<lambda>(ty, pl). frame_record ty pl) recs = Inr fs" "length (concat fs) \<le> 2048 * length recs"
    "emap (answer (bls_eval_record L)) recs = Inr gs" by blast
  moreover obtain f g where "frame_record (fst rec) (snd rec) = Inr f" "length f < 2048" "answer (bls_eval_record L) rec = Inr g"
    using rec_ok_answer [OF b Cons(1)] by blast
  ultimately show ?case by (auto simp: split_def)
qed simp

definition kept :: "nat list \<Rightarrow> (nat \<times> bytes) list \<Rightarrow> (nat \<times> bytes) list" where
  \<comment> \<open>what \<open>--only\<close> leaves\<close>
  "kept only recs = (if only \<noteq> [] then filter (\<lambda>r. fst r \<in> set only) recs else recs)"

lemma kept_ok:
  assumes "list_all2 (rec_ok L) recs sts"
  shows "\<exists>sts'. list_all2 (rec_ok L) (kept only recs) sts'"
proof -
  have "\<exists>sts'. list_all2 (rec_ok L) (filter P recs) sts'" for P
    using assms
  proof (induction rule: list_all2_induct)
    case (Cons rec recs st sts)
    then obtain sts' where "list_all2 (rec_ok L) (filter P recs) sts'" by blast
    then show ?case using Cons(1) by (cases "P rec") auto
  qed auto
  then show ?thesis using assms by (auto simp: kept_def)
qed

lemma main_files:
  assumes b: "pyecc_bounds (becc B) 48" and d: "bls_draws_ok B D" and p: "bls_points_ok B"
  shows "\<exists>recs fs gs inp. bls_make_cases B D = Inr recs \<and> list_all2 (rec_ok (becc B)) recs bls_statuses \<and>
    emap (\<lambda>(ty, pl). frame_record ty pl) (kept only recs) = Inr fs \<and> emap (answer (bls_eval_record (becc B))) (kept only recs) = Inr gs \<and>
    unframe inp = Inr (concat fs) \<and> bls_main B D only = Inr (inp, concat gs)"
proof -
  let ?L = "becc B"
  obtain recs where recs: "bls_make_cases B D = Inr recs" "list_all2 (rec_ok ?L) recs bls_statuses"
    using pyecc_bounds.records_answered [OF b order_refl refl d p] by blast
  obtain sts where sts: "list_all2 (rec_ok ?L) (kept only recs) sts" using kept_ok [OF recs(2)] by blast
  obtain fs gs where f: "emap (\<lambda>(ty, pl). frame_record ty pl) (kept only recs) = Inr fs"
    "length (concat fs) \<le> 2048 * length (kept only recs)" "emap (answer (bls_eval_record ?L)) (kept only recs) = Inr gs"
    using rec_ok_frames [OF b sts] by blast
  have f': "emap (\<lambda>rec. frame_record (fst rec) (snd rec)) (kept only recs) = Inr fs" using f(1) by (simp add: split_def)
  have "length (kept only recs) \<le> length recs" by (simp add: kept_def)
  also have "length recs = 36" using list_all2_lengthD [OF recs(2)] by (simp add: bls_statuses_def)
  finally have bl: "length (concat fs) < 2 ^ 64" using f(2) by simp
  define inp where "inp = le_fix 8 (length (concat fs)) @ pad8_bytes (concat fs)"
  have "unframe inp = Inr (concat fs)"
    using le64_at_middle [of 0 "[]" "length (concat fs)" "pad8_bytes (concat fs)"] bl
    by (simp add: unframe_def inp_def pad8_bytes_def bslice_def)
  moreover have "bls_files B recs only = Inr (inp, concat gs)"
    using bl run_records_frames [OF f', of "bls_eval_record ?L"]
    unfolding bls_files_def kept_def [symmetric] Let_def f(1) bls_expected_def f(3) by (simp add: pack_u64_def inp_def)
  ultimately show ?thesis using recs f by (auto simp: bls_main_def)
qed

section \<open>Properties\<close>

text \<open>C27: The BLS12-381 vector files.  On a library whose coordinates are residues below 48 bytes and in which the generators, their
  small multiples and the encoding of infinity decode in their subgroups, and for all residues drawn: \<open>make_cases\<close> returns 36
  records, of the types and in the order of the source, every record is answered, and each answer starts with its word: 0 for
  every sum, multiple, multi-scalar multiplication and mapped element, 1 for the point \<open>(1, 3)\<close> off the curve, and 0 or 1 for
  the pairings, never the words of a malformed input.  Whatever types \<open>--only\<close> keeps, \<open>main\<close> returns; the input file
  is the framed records that are kept, the expected file their answers in order.\<close>

theorem bls_vector_files:
  assumes "pyecc_bounds (becc B) 48" "bls_draws_ok B D" "bls_points_ok B"
  shows "\<exists>recs fs gs inp. bls_make_cases B D = Inr recs \<and> list_all2 (rec_ok (becc B)) recs bls_statuses \<and>
    emap (\<lambda>(ty, pl). frame_record ty pl) (kept only recs) = Inr fs \<and> emap (answer (bls_eval_record (becc B))) (kept only recs) = Inr gs \<and>
    unframe inp = Inr (concat fs) \<and> bls_main B D only = Inr (inp, concat gs)"
  using assms by (rule main_files)

definition bls7 :: "int bls_lib" where
  "bls7 = \<lparr>becc = ecc7, bls_G1 = (1, 2, 1), bls_G2 = ((1, 0), (2, 0), (1, 0)), ec_neg1 = pt_neg F7\<rparr>"

lemma drop_zeros: "drop k (zeros n) = zeros (n - k)"
  by (simp add: zeros_def)

lemma from_be_small: "0 \<le> z \<Longrightarrow> z < 7 \<Longrightarrow> from_be (be_fix 64 (nat z)) = nat z" for z :: int
proof -
  assume "0 \<le> z" "z < 7"
  then have "nat z < 256 ^ 64" by simp
  then show ?thesis by (simp only: from_be_be_fix mod_less)
qed

lemma enc7_1:
  assumes "\<not> is_inf1 ecc7 p" "normalize1 ecc7 p = (x, y)" "0 \<le> x \<and> x < 7 \<and> 0 \<le> y \<and> y < 7 \<and> (x \<noteq> 0 \<or> y \<noteq> 0)" "is_on_curve1 ecc7 (x, y, 1)"
    "is_inf1 ecc7 (multiply1 ecc7 (x, y, 1) 13)"
  shows "enc_ok1 bls7 p"
proof -
  have i: "int_to_be 64 z = Inr (be_fix 64 (nat z))" if "0 \<le> z" "z < 7" for z
    by (rule int_to_be_ok) (use that in simp_all)
  let ?b = "be_fix 64 (nat x) @ be_fix 64 (nat y)"
  have "p1_of ?b = (x, y, 1)" using assms(3) by (auto simp: p1_of_def bslice_def from_be_small Let_def)
  moreover have "field_modulus ecc7 = 7" "curve_order ecc7 = 13" by (simp_all add: ecc7_def)
  ultimately have "p1_ok ecc7 True ?b" using assms by (simp add: p1_ok_def)
  then show ?thesis using assms(1-3) i by (simp add: enc_ok1_def bls7_def bls_g1_bytes_def)
qed

lemma enc7_2:
  assumes "\<not> is_inf2 ecc7 p" "normalize2 ecc7 p = ((x0, x1), (y0, y1))" "list_all (\<lambda>z. 0 \<le> z \<and> z < 7) [x0, x1, y0, y1]" "x0 \<noteq> 0"
    "is_on_curve2 ecc7 ((x0, x1), (y0, y1), (1, 0))" "is_inf2 ecc7 (multiply2 ecc7 ((x0, x1), (y0, y1), (1, 0)) 13)"
  shows "enc_ok2 bls7 p"
proof -
  have i: "int_to_be 64 z = Inr (be_fix 64 (nat z))" if "0 \<le> z" "z < 7" for z
    by (rule int_to_be_ok) (use that in simp_all)
  let ?b = "be_fix 64 (nat x0) @ be_fix 64 (nat x1) @ be_fix 64 (nat y0) @ be_fix 64 (nat y1)"
  have "p2_of ?b = ((x0, x1), (y0, y1), (1, 0))" using assms(3,4) by (simp add: p2_of_def bslice_def from_be_small Let_def)
  moreover have "field_modulus ecc7 = 7" "curve_order ecc7 = 13" by (simp_all add: ecc7_def)
  ultimately have "p2_ok ecc7 True ?b" using assms by (simp add: p2_ok_def)
  then show ?thesis using assms(1-3) i by (simp add: enc_ok2_def bls7_def bls_g2_bytes_def fq2_bytes_def)
qed

definition bls_draws7 :: bls_draws where
  "bls_draws7 = \<lparr>b_pair = (3, 4), b_f2 = ((1, 2), (3, 4)), b_map1 = 5, b_map2 = (2, 6)\<rparr>"

theorem bls_vector_files_witness:
  "\<exists>recs inp out. bls_make_cases bls7 bls_draws7 = Inr recs \<and> list_all2 (rec_ok ecc7) recs bls_statuses \<and>
     bls_main bls7 bls_draws7 [3, 11] = Inr (inp, out)"
proof -
  have e: "becc bls7 = ecc7" by (simp add: bls7_def)
  have "bls_draws_ok bls7 bls_draws7" by code_simp
  moreover have "bls_points_ok bls7"
  proof -
    have "enc_ok1 bls7 (bls_G1 bls7)" by (rule enc7_1 [of _ 1 2]; code_simp)
    moreover have "enc_ok1 bls7 (multiply1 (becc bls7) (bls_G1 bls7) 2)" by (rule enc7_1 [of _ 6 3]; code_simp)
    moreover have "enc_ok1 bls7 (ec_neg1 bls7 (bls_G1 bls7))" by (rule enc7_1 [of _ 1 5]; code_simp)
    moreover have "enc_ok2 bls7 (bls_G2 bls7)" by (rule enc7_2 [of _ 1 0 2 0]; code_simp)
    moreover have "enc_ok2 bls7 (multiply2 (becc bls7) (bls_G2 bls7) 2)" by (rule enc7_2 [of _ 6 0 3 0]; code_simp)
    moreover have "enc_ok2 bls7 (multiply2 (becc bls7) (bls_G2 bls7) 3)" by (rule enc7_2 [of _ 2 0 2 0]; code_simp)
    moreover have "p1_of (zeros 128) = (0, 0, 0)" by (simp add: p1_of_def bslice_zeros drop_zeros Let_def)
    then have "p1_ok (becc bls7) True (zeros 128)" by (simp add: p1_ok_def e) (code_simp)
    moreover have "p2_of (zeros 256) = ((0, 0), (0, 0), (0, 0))" by (simp add: p2_of_def bslice_zeros drop_zeros Let_def)
    then have "p2_ok (becc bls7) True (zeros 256)" by (simp add: p2_ok_def e) (code_simp)
    moreover have "\<not> is_on_curve1 (becc bls7) (1, 3, 1)" by code_simp
    moreover have "7 \<le> field_modulus (becc bls7)" "0 < curve_order (becc bls7)" "curve_order (becc bls7) \<le> 2 ^ 256"
      by (simp_all add: bls7_def ecc7_def)
    ultimately show ?thesis by (simp add: bls_points_ok_def)
  qed
  ultimately show ?thesis
    using bls_vector_files [of bls7 bls_draws7 "[3, 11]"] ecc7_bounds [of 48] unfolding e by auto
qed

end
