(* ===== verification/Mpt.thy ===== *)
theory Mpt
  imports RlpEnc
begin

text \<open>
  The op-stream recorder of \<open>tools/gen_mpt_vectors.py\<close>, class \<open>Gen\<close>.  It drives the trie of the
  Python execution specification through twelve operations; every operation appends its encoding to
  the input of the guest test and one record to the expected output, with a mask that hides the
  error code of a failed one.  The trie, the node database and the hash are not in the repository:
  they are the fields of the record \<open>mpt_spec\<close>.  A call that mutates its tree returns the tree with
  its outcome, so that what a raising call leaves behind is kept.
\<close>

section \<open>The specification's functions\<close>

record account =
  acc_nonce :: nat
  acc_balance :: nat
  acc_code_hash :: bytes

datatype default_value = DNone | DBytes | DU256
  \<comment> \<open>the \<open>default\<close> of a tree: \<open>None\<close>, \<open>b""\<close> or \<open>U256(0)\<close>\<close>

record ('m, 'n, 'd, 't) mpt_spec =
  sp_keccak :: "bytes \<Rightarrow> bytes"
  sp_new :: "bool \<Rightarrow> default_value \<Rightarrow> 'm"                      \<comment> \<open>\<open>IncrementalMPT(secured, default, root_node=None)\<close>\<close>
  sp_set :: "'m \<Rightarrow> bytes \<Rightarrow> bytes \<Rightarrow> 'm \<times> unit res"             \<comment> \<open>\<open>mpt_set\<close> of a byte value\<close>
  sp_set_account :: "'m \<Rightarrow> bytes \<Rightarrow> (account \<times> bytes) option \<Rightarrow> 'm \<times> unit res"
  sp_root :: "'m \<Rightarrow> 'm \<times> bytes res"                           \<comment> \<open>\<open>mpt_root\<close>\<close>
  sp_root_node :: "'m \<Rightarrow> 'n option"
  sp_secured :: "'m \<Rightarrow> bool"
  sp_lookup :: "'n option \<Rightarrow> bytes \<Rightarrow> bytes option res"        \<comment> \<open>\<open>_trie_lookup\<close>\<close>
  sp_decode_account :: "bytes \<Rightarrow> (account \<times> bytes) res"       \<comment> \<open>\<open>_decode_account_from_leaf\<close>\<close>
  sp_node_db :: "bytes list \<Rightarrow> 'd"                            \<comment> \<open>\<open>build_node_db\<close>\<close>
  sp_decode_witness :: "'d option \<Rightarrow> bytes \<Rightarrow> bool \<Rightarrow> default_value \<Rightarrow> 'm res"  \<comment> \<open>\<open>decode_witness_to_mpt\<close>\<close>
  sp_empty_root :: bytes                                     \<comment> \<open>\<open>EMPTY_TRIE_ROOT\<close>\<close>
  sp_trie :: 't
  sp_trie_set :: "'t \<Rightarrow> bytes \<Rightarrow> bytes \<Rightarrow> 't res"
  sp_trie_root :: "'t \<Rightarrow> bytes res"
  sp_rlp :: "rlp \<Rightarrow> bytes"                                    \<comment> \<open>\<open>rlp.encode\<close>\<close>

section \<open>The recorder\<close>

record ('m, 'd) recorder =
  g_inp :: bytes
  g_exp :: bytes
  g_mask :: bytes
  g_m :: "'m option"
  g_db :: "'d option"
  g_nrec :: nat

definition new_recorder :: "('m, 'd) recorder" where
  "new_recorder = \<lparr>g_inp = [], g_exp = [], g_mask = [], g_m = None, g_db = None, g_nrec = 0\<rparr>"

definition pack_u16 :: "nat \<Rightarrow> bytes res" where
  "pack_u16 n = (if n < 2 ^ 16 then Inr (le_fix 2 n) else Inl StructError)"

fun items_from :: "bytes list \<Rightarrow> bytes res" where
  "items_from [] = Inr []"
| "items_from (b # bs) = ebind (pack_u16 (length b)) (\<lambda>n. ebind (items_from bs) (\<lambda>r. Inr (n @ b @ r)))"

definition items :: "bytes list \<Rightarrow> bytes res" where
  "items lst = ebind (pack_u32 (length lst)) (\<lambda>n. ebind (items_from lst) (\<lambda>r. Inr (n @ r)))"

definition status :: "nat \<Rightarrow> ('m, 'd) recorder \<Rightarrow> ('m, 'd) recorder" where
  "status st g =
     g\<lparr>g_exp := g_exp g @ [word_of_nat st] @ zeros 7,
       g_mask := g_mask g @ [0xff] @ [if st \<noteq> 0 then 0 else 0xff] @ replicate 6 0xff,
       g_nrec := g_nrec g + 1\<rparr>"

definition payload :: "bytes \<Rightarrow> ('m, 'd) recorder \<Rightarrow> ('m, 'd) recorder" where
  "payload b g = g\<lparr>g_exp := g_exp g @ b, g_mask := g_mask g @ replicate (length b) 0xff\<rparr>"

definition add_inp :: "bytes \<Rightarrow> ('m, 'd) recorder \<Rightarrow> ('m, 'd) recorder" where
  "add_inp b g = g\<lparr>g_inp := g_inp g @ b\<rparr>"

definition value_rec :: "('m, 'n, 'd, 't) mpt_spec \<Rightarrow> bytes option \<Rightarrow> bytes res" where
  "value_rec S v =
     (case v of None \<Rightarrow> Inr (zeros 40)
      | Some v \<Rightarrow>
          let tail = (if length v \<le> 32 then v @ zeros (32 - length v) else sp_keccak S v)
          in ebind (pack_u32 (length v)) (\<lambda>n. Inr ([1, 0, 0, 0] @ n @ tail)))"

definition acct_rec :: "(account \<times> bytes) option \<Rightarrow> bytes res" where
  "acct_rec r =
     (case r of None \<Rightarrow> Inr (zeros 112)
      | Some (acc, sr) \<Rightarrow>
          ebind (pack_u64 (acc_nonce acc)) (\<lambda>n.
          ebind (to_le 32 (acc_balance acc)) (\<lambda>b.
            Inr (([1] @ zeros 7) @ n @ b @ sr @ acc_code_hash acc))))"

definition caught :: "exn \<Rightarrow> bool" where
  \<comment> \<open>the exceptions \<open>attempt\<close> catches\<close>
  "caught e \<longleftrightarrow> e \<in> {AssertionError, KeyError, ValueError, IndexError, OverflowError, TypeError, DecodingError}"

definition attempt :: "('m, 'd) recorder \<times> 'a res \<Rightarrow> nat \<Rightarrow> (('m, 'd) recorder \<times> 'a option) res" where
  \<comment> \<open>on the recorder and the outcome that the call of \<open>fn\<close> leaves\<close>
  "attempt call n =
     (case call of
        (g, Inr r) \<Rightarrow> Inr (status 0 g, Some r)
      | (g, Inl e) \<Rightarrow> if caught e then Inr (payload (zeros n) (status 1 g), None) else Inl e)"

definition on_tree :: "('m, 'd) recorder \<Rightarrow> ('m \<Rightarrow> 'm \<times> 'a res) \<Rightarrow> ('m, 'd) recorder \<times> 'a res" where
  \<comment> \<open>a call on \<open>self.m\<close>, which is \<open>None\<close> before the first \<open>op_new\<close> or \<open>op_witness\<close>\<close>
  "on_tree g call =
     (case g_m g of None \<Rightarrow> (g, Inl AttributeError)
      | Some m \<Rightarrow> (case call m of (m', r) \<Rightarrow> (g\<lparr>g_m := Some m'\<rparr>, r)))"

definition key_nibbles :: "('m, 'n, 'd, 't) mpt_spec \<Rightarrow> bytes \<Rightarrow> bool \<Rightarrow> bytes" where
  "key_nibbles S ky secured = (if secured then sp_keccak S ky else ky)"

section \<open>The operations\<close>

definition uint :: "nat \<Rightarrow> bytes" where
  \<comment> \<open>the byte string of an unsigned integer in \<open>rlp.encode\<close>\<close>
  "uint i = (if i = 0 then [] else be_fix ((bit_length i + 7) div 8) i)"

definition op_new :: "('m, 'n, 'd, 't) mpt_spec \<Rightarrow> nat \<Rightarrow> ('m, 'd) recorder \<Rightarrow> ('m, 'd) recorder res" where
  "op_new S secured g =
     ebind (byte1 secured) (\<lambda>s.
       Inr (status 0 ((add_inp ([1] @ s) g)\<lparr>g_m := Some (sp_new S (secured \<noteq> 0) DBytes)\<rparr>)))"

definition op_set :: "('m, 'n, 'd, 't) mpt_spec \<Rightarrow> bytes \<Rightarrow> bytes \<Rightarrow> ('m, 'd) recorder \<Rightarrow> ('m, 'd) recorder res" where
  "op_set S ky val g =
     ebind (pack_u16 (length ky)) (\<lambda>k. ebind (pack_u16 (length val)) (\<lambda>v.
     ebind (attempt (on_tree (add_inp ([2] @ k @ ky @ v @ val) g) (\<lambda>m. sp_set S m ky val)) 0) (\<lambda>(g, r). Inr g)))"

definition op_root :: "('m, 'n, 'd, 't) mpt_spec \<Rightarrow> ('m, 'd) recorder \<Rightarrow> ('m, 'd) recorder res" where
  "op_root S g =
     ebind (attempt (on_tree (add_inp [3] g) (sp_root S)) 32) (\<lambda>(g, r).
       case r of Some h \<Rightarrow> Inr (payload h g) | None \<Rightarrow> Inr g)"

definition op_get :: "('m, 'n, 'd, 't) mpt_spec \<Rightarrow> bytes \<Rightarrow> ('m, 'd) recorder \<Rightarrow> ('m, 'd) recorder res" where
  "op_get S ky g =
     ebind (pack_u16 (length ky)) (\<lambda>k.
     ebind (attempt (on_tree (add_inp ([4] @ k @ ky) g)
         (\<lambda>m. (m, sp_lookup S (sp_root_node S m) (key_nibbles S ky (sp_secured S m))))) 40) (\<lambda>(g, r).
       case r of Some v \<Rightarrow> ebind (value_rec S v) (\<lambda>b. Inr (payload b g)) | None \<Rightarrow> Inr g))"

fun fill_trie :: "('m, 'n, 'd, 't) mpt_spec \<Rightarrow> nat \<Rightarrow> bytes list \<Rightarrow> 't \<Rightarrow> 't res" where
  "fill_trie S i [] t = Inr t"
| "fill_trie S i (v # vs) t = ebind (sp_trie_set S t (sp_rlp S (RBytes (uint i))) v) (fill_trie S (i + 1) vs)"

definition op_indexed :: "('m, 'n, 'd, 't) mpt_spec \<Rightarrow> bytes list \<Rightarrow> ('m, 'd) recorder \<Rightarrow> ('m, 'd) recorder res" where
  "op_indexed S vals g =
     ebind (items vals) (\<lambda>b.
     ebind (fill_trie S 0 vals (sp_trie S)) (\<lambda>t.
     ebind (sp_trie_root S t) (\<lambda>h. Inr (payload h (status 0 (add_inp ([5] @ b) g))))))"

definition op_witness :: "('m, 'n, 'd, 't) mpt_spec \<Rightarrow> bytes list \<Rightarrow> bytes \<Rightarrow> nat \<Rightarrow> ('m, 'd) recorder \<Rightarrow> ('m, 'd) recorder res" where
  "op_witness S nodes root_hash secured g =
     ebind (items nodes) (\<lambda>b. ebind (byte1 secured) (\<lambda>s.
       let db = sp_node_db S nodes;
           g = (add_inp ([6] @ b @ root_hash @ s) g)\<lparr>g_db := Some db\<rparr>;
           call = (case sp_decode_witness S (Some db) root_hash (secured \<noteq> 0) DNone of
                     Inr m \<Rightarrow> (g\<lparr>g_m := Some m\<rparr>, Inr ()) | Inl e \<Rightarrow> (g, Inl e))
       in ebind (attempt call 0) (\<lambda>(g, r).
            case r of Some u \<Rightarrow> Inr g | None \<Rightarrow> Inr (g\<lparr>g_m := Some (sp_new S True DNone)\<rparr>))))"

definition lookup_account :: "('m, 'n, 'd, 't) mpt_spec \<Rightarrow> 'm \<Rightarrow> bytes \<Rightarrow> (account \<times> bytes) option res" where
  "lookup_account S m addr =
     ebind (sp_lookup S (sp_root_node S m) (sp_keccak S addr)) (\<lambda>leaf.
       case leaf of None \<Rightarrow> Inr None | Some l \<Rightarrow> ebind (sp_decode_account S l) (\<lambda>r. Inr (Some r)))"

definition op_lookup_acct :: "('m, 'n, 'd, 't) mpt_spec \<Rightarrow> bytes \<Rightarrow> ('m, 'd) recorder \<Rightarrow> (('m, 'd) recorder \<times> (account \<times> bytes) option option) res" where
  "op_lookup_acct S addr g =
     ebind (attempt (on_tree (add_inp ([7] @ addr) g) (\<lambda>m. (m, lookup_account S m addr))) 112) (\<lambda>(g, r).
       case r of Some a \<Rightarrow> ebind (acct_rec a) (\<lambda>b. Inr (payload b g, r)) | None \<Rightarrow> Inr (g, None))"

definition lookup_slot :: "('m, 'n, 'd, 't) mpt_spec \<Rightarrow> 'd option \<Rightarrow> 'm \<Rightarrow> bytes \<Rightarrow> bytes \<Rightarrow> bytes option res" where
  "lookup_slot S db m addr slot =
     ebind (sp_lookup S (sp_root_node S m) (sp_keccak S addr)) (\<lambda>leaf.
       case leaf of None \<Rightarrow> Inr None
       | Some l \<Rightarrow> ebind (sp_decode_account S l) (\<lambda>(acc, sr).
           if sr = sp_empty_root S then Inr None
           else ebind (sp_decode_witness S db sr True DU256) (\<lambda>sm.
                  sp_lookup S (sp_root_node S sm) (sp_keccak S slot))))"

definition op_lookup_slot :: "('m, 'n, 'd, 't) mpt_spec \<Rightarrow> bytes \<Rightarrow> bytes \<Rightarrow> ('m, 'd) recorder \<Rightarrow> ('m, 'd) recorder res" where
  "op_lookup_slot S addr slot g =
     ebind (attempt (on_tree (add_inp ([8] @ addr @ slot) g) (\<lambda>m. (m, lookup_slot S (g_db g) m addr slot))) 40) (\<lambda>(g, r).
       case r of Some v \<Rightarrow> ebind (value_rec S v) (\<lambda>b. Inr (payload b g)) | None \<Rightarrow> Inr g)"

definition op_set_acct :: "('m, 'n, 'd, 't) mpt_spec \<Rightarrow> bytes \<Rightarrow> (account \<times> bytes) option \<Rightarrow> ('m, 'd) recorder \<Rightarrow> (('m, 'd) recorder \<times> bool) res" where
  "op_set_acct S addr acc g =
     ebind
       (case acc of
          None \<Rightarrow> Inr ([9] @ addr @ zeros 1 @ zeros (8 + 96))
        | Some (a, sr) \<Rightarrow>
            ebind (pack_u64 (acc_nonce a)) (\<lambda>n. ebind (to_le 32 (acc_balance a)) (\<lambda>b.
              Inr ([9] @ addr @ [1] @ n @ b @ sr @ acc_code_hash a))))
       (\<lambda>inp.
     ebind (attempt (on_tree (add_inp inp g) (\<lambda>m. sp_set_account S m addr acc)) 0) (\<lambda>(g, r).
       Inr (g, r \<noteq> None)))"

definition op_decode_acct :: "('m, 'n, 'd, 't) mpt_spec \<Rightarrow> bytes \<Rightarrow> ('m, 'd) recorder \<Rightarrow> ('m, 'd) recorder res" where
  "op_decode_acct S leaf g =
     ebind (pack_u16 (length leaf)) (\<lambda>n.
     ebind (attempt (add_inp ([10] @ n @ leaf) g,
         ebind (sp_decode_account S leaf) (\<lambda>(acc, sr).
           if acc_nonce acc \<ge> 2 ^ 64 then Inl ValueError else Inr (acc, sr))) 112) (\<lambda>(g, r).
       case r of Some a \<Rightarrow> ebind (acct_rec (Some a)) (\<lambda>b. Inr (payload b g)) | None \<Rightarrow> Inr g))"

definition op_encode_acct :: "('m, 'n, 'd, 't) mpt_spec \<Rightarrow> nat \<Rightarrow> nat \<Rightarrow> bytes \<Rightarrow> bytes \<Rightarrow> ('m, 'd) recorder \<Rightarrow> ('m, 'd) recorder res" where
  "op_encode_acct S nonce balance sr ch g =
     ebind (pack_u64 nonce) (\<lambda>n. ebind (to_le 32 balance) (\<lambda>b.
       let g = add_inp ([11] @ n @ b @ sr @ ch) g;
           enc = sp_rlp S (RList [RBytes (uint nonce), RBytes (uint balance), RBytes sr, RBytes ch])
       in ebind (value_rec S (Some enc)) (\<lambda>v. Inr (payload v (status 0 g)))))"

definition op_keccak :: "('m, 'n, 'd, 't) mpt_spec \<Rightarrow> nat \<Rightarrow> nat \<Rightarrow> ('m, 'd) recorder \<Rightarrow> ('m, 'd) recorder res" where
  "op_keccak S n reps g =
     ebind (pack_u32 n) (\<lambda>a. ebind (pack_u32 reps) (\<lambda>b.
       Inr (payload (sp_keccak S (zeros n)) (status 0 (add_inp ([13] @ a @ b) g)))))"

section \<open>Runs of operations\<close>

datatype op =
    OpNew nat
  | OpSet bytes bytes
  | OpRoot
  | OpGet bytes
  | OpIndexed "bytes list"
  | OpWitness "bytes list" bytes nat
  | OpLookupAcct bytes
  | OpLookupSlot bytes bytes
  | OpSetAcct bytes "(account \<times> bytes) option"
  | OpDecodeAcct bytes
  | OpEncodeAcct nat nat bytes bytes
  | OpKeccak nat nat

fun run_op :: "('m, 'n, 'd, 't) mpt_spec \<Rightarrow> op \<Rightarrow> ('m, 'd) recorder \<Rightarrow> ('m, 'd) recorder res" where
  "run_op S (OpNew s) g = op_new S s g"
| "run_op S (OpSet k v) g = op_set S k v g"
| "run_op S OpRoot g = op_root S g"
| "run_op S (OpGet k) g = op_get S k g"
| "run_op S (OpIndexed vs) g = op_indexed S vs g"
| "run_op S (OpWitness ns h s) g = op_witness S ns h s g"
| "run_op S (OpLookupAcct a) g = ebind (op_lookup_acct S a g) (\<lambda>(g, r). Inr g)"
| "run_op S (OpLookupSlot a s) g = op_lookup_slot S a s g"
| "run_op S (OpSetAcct a acc) g = ebind (op_set_acct S a acc g) (\<lambda>(g, r). Inr g)"
| "run_op S (OpDecodeAcct l) g = op_decode_acct S l g"
| "run_op S (OpEncodeAcct n b sr ch) g = op_encode_acct S n b sr ch g"
| "run_op S (OpKeccak n reps) g = op_keccak S n reps g"

fun run_ops :: "('m, 'n, 'd, 't) mpt_spec \<Rightarrow> op list \<Rightarrow> ('m, 'd) recorder \<Rightarrow> ('m, 'd) recorder res" where
  "run_ops S [] g = Inr g"
| "run_ops S (x # xs) g = ebind (run_op S x g) (run_ops S xs)"

section \<open>The records behind the output\<close>

text \<open>An outcome is the status of an operation with its payload; the output is the outcomes, serialised.\<close>

definition rec_bytes :: "nat \<times> bytes \<Rightarrow> bytes" where
  "rec_bytes r = [word_of_nat (fst r)] @ zeros 7 @ snd r"

definition rec_mask :: "nat \<times> bytes \<Rightarrow> bytes" where
  "rec_mask r = [0xff, if fst r \<noteq> 0 then 0 else 0xff] @ replicate (6 + length (snd r)) 0xff"

definition outcome_size :: "op \<Rightarrow> nat" where
  "outcome_size x = (case x of
     OpRoot \<Rightarrow> 32 | OpIndexed vs \<Rightarrow> 32 | OpKeccak n reps \<Rightarrow> 32 | OpGet k \<Rightarrow> 40 | OpLookupSlot a s \<Rightarrow> 40 | OpEncodeAcct n b sr ch \<Rightarrow> 40
   | OpLookupAcct a \<Rightarrow> 112 | OpDecodeAcct l \<Rightarrow> 112 | _ \<Rightarrow> 0)"

definition outcome_ok :: "op \<Rightarrow> nat \<times> bytes \<Rightarrow> bool" where
  "outcome_ok x r \<longleftrightarrow> length (snd r) = outcome_size x \<and> (fst r = 0 \<or> fst r = 1 \<and> snd r = zeros (outcome_size x))"

definition grows :: "op \<Rightarrow> ('m, 'd) recorder \<Rightarrow> ('m, 'd) recorder \<Rightarrow> bool" where
  \<comment> \<open>one operation appends one acceptable outcome\<close>
  "grows x g g' \<longleftrightarrow> (\<exists>r. outcome_ok x r \<and> g_exp g' = g_exp g @ rec_bytes r \<and> g_mask g' = g_mask g @ rec_mask r \<and>
     g_nrec g' = Suc (g_nrec g))"

locale mpt_contract =
  fixes S :: "('m, 'n, 'd, 't) mpt_spec"
  assumes keccak_length: "length (sp_keccak S b) = 32"
    and root_length: "sp_root S m = (m', Inr h) \<Longrightarrow> length h = 32"
    and trie_root_length: "sp_trie_root S t = Inr h \<Longrightarrow> length h = 32"
    and account_lengths: "sp_decode_account S l = Inr (acc, sr) \<Longrightarrow> length sr = 32 \<and> length (acc_code_hash acc) = 32"
begin

lemma value_rec_length: "value_rec S v = Inr b \<Longrightarrow> length b = 40"
  by (auto simp: value_rec_def keccak_length Let_def length_pack_u32 split: option.splits if_splits)

lemma acct_rec_length: "acct_rec (Some (acc, sr)) = Inr b \<Longrightarrow> length sr = 32 \<Longrightarrow> length (acc_code_hash acc) = 32 \<Longrightarrow> length b = 112"
  by (auto simp: acct_rec_def length_pack_u64 to_le_iff)

lemma lookup_account_lengths:
  "lookup_account S m a = Inr (Some (acc, sr)) \<Longrightarrow> length sr = 32 \<and> length (acc_code_hash acc) = 32"
  by (auto simp: lookup_account_def account_lengths split: option.splits)

end

lemma add_inp_simps [simp]:
  "g_exp (add_inp b g) = g_exp g" "g_mask (add_inp b g) = g_mask g" "g_nrec (add_inp b g) = g_nrec g"
  "g_inp (add_inp b g) = g_inp g @ b" "g_m (add_inp b g) = g_m g" "g_db (add_inp b g) = g_db g"
  by (simp_all add: add_inp_def)

definition same_out :: "('m, 'd) recorder \<Rightarrow> ('m, 'd) recorder \<Rightarrow> bool" where
  "same_out h g \<longleftrightarrow> g_exp h = g_exp g \<and> g_mask h = g_mask g \<and> g_nrec h = g_nrec g"

lemma same_out_simps [simp]:
  "same_out g g" "same_out (add_inp b g) h \<longleftrightarrow> same_out g h" "same_out (g\<lparr>g_m := m\<rparr>) h \<longleftrightarrow> same_out g h"
  "same_out (g\<lparr>g_db := d\<rparr>) h \<longleftrightarrow> same_out g h" "same_out g (payload [] h) \<longleftrightarrow> same_out g h"
  by (simp_all add: same_out_def payload_def)

lemma on_tree_out [simp]: "same_out (fst (on_tree g call)) h \<longleftrightarrow> same_out g h"
  by (simp add: on_tree_def split: option.splits prod.splits)

lemma on_tree_Inr: "snd (on_tree g call) = Inr v \<Longrightarrow> \<exists>m m'. call m = (m', Inr v)"
  by (auto simp: on_tree_def split: option.splits prod.splits)

lemma grows_payload:
  assumes "outcome_ok x (st, b)" "same_out h g" "same_out g' (payload b (status st h))" shows "grows x g g'"
  using assms unfolding grows_def same_out_def
  by (intro exI [of _ "(st, b)"]) (simp add: payload_def status_def rec_bytes_def rec_mask_def replicate_add [symmetric] eval_nat_numeral)

text \<open>The outcome of a guarded call: the payload of a success has the size of the operation, that of a
  failure is zeros.\<close>

lemma grows_attempt:
  assumes run: "ebind (attempt c n) k = Inr g'" and n: "n = outcome_size x" and h: "same_out (fst c) g"
    and fail: "\<And>f. k (f, None) = Inr g' \<Longrightarrow> same_out g' f"
    and ok: "\<And>f v. snd c = Inr v \<Longrightarrow> k (f, Some v) = Inr g' \<Longrightarrow> \<exists>b. length b = outcome_size x \<and> same_out g' (payload b f)"
  shows "grows x g g'"
proof (cases "snd c")
  case (Inl e)
  let ?f = "payload (zeros (outcome_size x)) (status 1 (fst c))"
  note run = run [unfolded n]
  have "k (?f, None) = Inr g'" using run Inl by (auto simp: attempt_def split_beta split: if_splits sum.splits)
  then have "same_out g' ?f" by (rule fail)
  then show ?thesis using h by (intro grows_payload [of x 1]) (simp_all add: outcome_ok_def)
next
  case (Inr v)
  then have "k (status 0 (fst c), Some v) = Inr g'" using run by (auto simp: attempt_def split_beta split: sum.splits)
  from ok [OF Inr this] obtain b where "length b = outcome_size x" "same_out g' (payload b (status 0 (fst c)))" by blast
  then show ?thesis using h by (intro grows_payload [of x 0]) (simp_all add: outcome_ok_def)
qed

lemma grows_direct:
  assumes "length b = outcome_size x" "same_out h g" shows "grows x g (payload b (status 0 h))"
  using assms by (intro grows_payload [of x 0 b h]) (simp_all add: outcome_ok_def)

lemma grows_status:
  assumes "outcome_size x = 0" "same_out h g" shows "grows x g (status 0 h)"
  using assms by (intro grows_payload [of x 0 "[]" h]) (simp_all add: outcome_ok_def)

context mpt_contract
begin

lemma op_root_grows: "op_root S g = Inr g' \<Longrightarrow> grows OpRoot g g'"
  unfolding op_root_def
  by (erule grows_attempt) (auto simp: outcome_size_def dest!: on_tree_Inr intro: root_length)

lemma op_get_grows: "op_get S k g = Inr g' \<Longrightarrow> grows (OpGet k) g g'"
  unfolding op_get_def
  by (elim ebind_InrE grows_attempt) (auto simp: outcome_size_def intro: value_rec_length)

lemma op_set_grows: "op_set S k v g = Inr g' \<Longrightarrow> grows (OpSet k v) g g'"
  unfolding op_set_def by (elim ebind_InrE [of "pack_u16 n" for n] grows_attempt) (auto simp: outcome_size_def)

lemma op_witness_grows: "op_witness S ns h s g = Inr g' \<Longrightarrow> grows (OpWitness ns h s) g g'"
  unfolding op_witness_def Let_def
  by (elim ebind_InrE [of "items n" for n] ebind_InrE [of "byte1 n" for n] grows_attempt)
    (auto simp: outcome_size_def split: sum.splits)

lemma op_lookup_slot_grows: "op_lookup_slot S a s g = Inr g' \<Longrightarrow> grows (OpLookupSlot a s) g g'"
  unfolding op_lookup_slot_def
  by (erule grows_attempt) (auto simp: outcome_size_def intro: value_rec_length)

lemma lookup_acct_payload:
  "lookup_account S m a = Inr r \<Longrightarrow> acct_rec r = Inr b \<Longrightarrow> length b = 112"
  using lookup_account_lengths [of m a] acct_rec_length by (cases r) (auto simp: acct_rec_def length_pack_u64 to_le_iff)

lemma op_lookup_acct_grows: "op_lookup_acct S a g = Inr (g', r) \<Longrightarrow> grows (OpLookupAcct a) g g'"
proof -
  define c where "c = on_tree (add_inp ([7] @ a) g) (\<lambda>m. (m, lookup_account S m a))"
  assume "op_lookup_acct S a g = Inr (g', r)"
  then obtain f out where A: "attempt c 112 = Inr (f, out)"
    and K: "(case out of Some a \<Rightarrow> ebind (acct_rec a) (\<lambda>b. Inr (payload b f, out)) | None \<Rightarrow> Inr (f, None)) = Inr (g', r)"
    unfolding op_lookup_acct_def c_def [symmetric] by (auto elim!: ebind_InrE)
  then have "ebind (attempt c 112)
      (\<lambda>(g, r). case r of Some a \<Rightarrow> ebind (acct_rec a) (\<lambda>b. Inr (payload b g)) | None \<Rightarrow> Inr g) = Inr g'"
    by (cases out) auto
  then show ?thesis
    by (rule grows_attempt) (auto simp: outcome_size_def c_def dest!: on_tree_Inr dest: lookup_acct_payload)
qed

lemma op_set_acct_grows: "op_set_acct S a acc g = Inr (g', r) \<Longrightarrow> grows (OpSetAcct a acc) g g'"
proof -
  assume "op_set_acct S a acc g = Inr (g', r)"
  then obtain inp where "ebind (attempt (on_tree (add_inp inp g) (\<lambda>m. sp_set_account S m a acc)) 0) (\<lambda>(g, r). Inr g) = Inr g'"
    by (auto simp: op_set_acct_def ebind_Inr_iff split: prod.splits)
  then show ?thesis by (rule grows_attempt) (auto simp: outcome_size_def)
qed

lemma decode_payload: "sp_decode_account S l = Inr (acc, sr) \<Longrightarrow> acct_rec (Some (acc, sr)) = Inr b \<Longrightarrow> length b = 112"
  using account_lengths acct_rec_length by blast

lemma op_decode_acct_grows: "op_decode_acct S l g = Inr g' \<Longrightarrow> grows (OpDecodeAcct l) g g'"
  unfolding op_decode_acct_def
  by (elim ebind_InrE [of "pack_u16 n" for n] grows_attempt)
    (auto simp: outcome_size_def split: if_splits, metis decode_payload same_out_simps(1))

lemma run_op_grows:
  assumes "run_op S x g = Inr g'" shows "grows x g g'"
proof (cases x)
  case (OpNew s)
  then show ?thesis using assms by (auto simp: op_new_def outcome_size_def intro!: grows_status)
next
  case (OpIndexed vs)
  then show ?thesis using assms
    by (auto simp: op_indexed_def outcome_size_def intro!: grows_direct dest: trie_root_length)
next
  case (OpEncodeAcct n b sr ch)
  then show ?thesis using assms
    by (auto simp: op_encode_acct_def outcome_size_def Let_def intro!: grows_direct dest: value_rec_length)
next
  case (OpKeccak n reps)
  then show ?thesis using assms
    by (auto simp: op_keccak_def outcome_size_def keccak_length intro!: grows_direct)
qed (use assms in \<open>auto intro: op_root_grows op_get_grows op_set_grows op_witness_grows op_lookup_slot_grows
  op_lookup_acct_grows op_set_acct_grows op_decode_acct_grows\<close>)

lemma run_ops_records:
  "run_ops S xs g = Inr g' \<Longrightarrow>
   \<exists>rs. list_all2 outcome_ok xs rs \<and> g_exp g' = g_exp g @ concat (map rec_bytes rs) \<and>
     g_mask g' = g_mask g @ concat (map rec_mask rs) \<and> g_nrec g' = g_nrec g + length rs"
proof (induction xs arbitrary: g)
  case (Cons x xs)
  then obtain h where h: "run_op S x g = Inr h" "run_ops S xs h = Inr g'" by auto
  from run_op_grows [OF h(1)] obtain r where r: "outcome_ok x r" "g_exp h = g_exp g @ rec_bytes r"
    "g_mask h = g_mask g @ rec_mask r" "g_nrec h = Suc (g_nrec g)" unfolding grows_def by blast
  from Cons.IH [OF h(2)] obtain rs where "list_all2 outcome_ok xs rs" "g_exp g' = g_exp h @ concat (map rec_bytes rs)"
    "g_mask g' = g_mask h @ concat (map rec_mask rs)" "g_nrec g' = g_nrec h + length rs" by blast
  with r show ?case by (intro exI [of _ "r # rs"]) simp
qed auto

end

section \<open>The input stream\<close>

definition op_input :: "op \<Rightarrow> bytes" where
  \<comment> \<open>the encoding of an operation in the op stream, as the file's header lists them\<close>
  "op_input x = (case x of
     OpNew s \<Rightarrow> [1, word_of_nat s]
   | OpSet k v \<Rightarrow> [2] @ le_fix 2 (length k) @ k @ le_fix 2 (length v) @ v
   | OpRoot \<Rightarrow> [3]
   | OpGet k \<Rightarrow> [4] @ le_fix 2 (length k) @ k
   | OpIndexed vs \<Rightarrow> [5] @ le_fix 4 (length vs) @ concat (map (\<lambda>v. le_fix 2 (length v) @ v) vs)
   | OpWitness ns h s \<Rightarrow> [6] @ le_fix 4 (length ns) @ concat (map (\<lambda>v. le_fix 2 (length v) @ v) ns) @ h @ [word_of_nat s]
   | OpLookupAcct a \<Rightarrow> [7] @ a
   | OpLookupSlot a s \<Rightarrow> [8] @ a @ s
   | OpSetAcct a acc \<Rightarrow> [9] @ a @ (case acc of None \<Rightarrow> [0] @ zeros 104
       | Some (c, sr) \<Rightarrow> [1] @ le_fix 8 (acc_nonce c) @ le_fix 32 (acc_balance c) @ sr @ acc_code_hash c)
   | OpDecodeAcct l \<Rightarrow> [10] @ le_fix 2 (length l) @ l
   | OpEncodeAcct n b sr ch \<Rightarrow> [11] @ le_fix 8 n @ le_fix 32 b @ sr @ ch
   | OpKeccak n reps \<Rightarrow> [13] @ le_fix 4 n @ le_fix 4 reps)"

definition op_ok :: "op \<Rightarrow> bool" where
  \<comment> \<open>the ranges in which an operation is encoded without a \<open>struct.error\<close> or an \<open>OverflowError\<close>\<close>
  "op_ok x = (case x of
     OpNew s \<Rightarrow> s < 256 | OpSet k v \<Rightarrow> length k < 2 ^ 16 \<and> length v < 2 ^ 16 | OpRoot \<Rightarrow> True | OpGet k \<Rightarrow> length k < 2 ^ 16
   | OpIndexed vs \<Rightarrow> length vs < 2 ^ 32 \<and> list_all (\<lambda>v. length v < 2 ^ 16) vs
   | OpWitness ns h s \<Rightarrow> length ns < 2 ^ 32 \<and> list_all (\<lambda>v. length v < 2 ^ 16) ns \<and> s < 256
   | OpLookupAcct a \<Rightarrow> True | OpLookupSlot a s \<Rightarrow> True
   | OpSetAcct a acc \<Rightarrow> (case acc of None \<Rightarrow> True | Some (c, sr) \<Rightarrow> acc_nonce c < 2 ^ 64 \<and> acc_balance c < 256 ^ 32)
   | OpDecodeAcct l \<Rightarrow> length l < 2 ^ 16 | OpEncodeAcct n b sr ch \<Rightarrow> n < 2 ^ 64 \<and> b < 256 ^ 32
   | OpKeccak n reps \<Rightarrow> n < 2 ^ 32 \<and> reps < 2 ^ 32)"

lemma items_from_Inr:
  "items_from vs = Inr b \<longleftrightarrow> list_all (\<lambda>v. length v < 2 ^ 16) vs \<and> b = concat (map (\<lambda>v. le_fix 2 (length v) @ v) vs)"
  by (induction vs arbitrary: b) (auto simp: pack_u16_def ebind_Inr_iff)

lemma items_Inr:
  "items vs = Inr b \<longleftrightarrow> length vs < 2 ^ 32 \<and> list_all (\<lambda>v. length v < 2 ^ 16) vs \<and>
     b = le_fix 4 (length vs) @ concat (map (\<lambda>v. le_fix 2 (length v) @ v) vs)"
  by (auto simp: items_def items_from_Inr ebind_Inr_iff pack_u32_iff)

lemma attempt_inp: "attempt c n = Inr (f, out) \<Longrightarrow> g_inp f = g_inp (fst c)"
  by (auto simp: attempt_def status_def payload_def split_beta split: sum.splits if_splits)

lemma on_tree_inp [simp]: "g_inp (fst (on_tree g call)) = g_inp g"
  by (simp add: on_tree_def split: option.splits prod.splits)

lemma out_inp [simp]: "g_inp (status st g) = g_inp g" "g_inp (payload b g) = g_inp g"
  by (simp_all add: status_def payload_def)

lemma byte1_Inr: "byte1 s = Inr b \<longleftrightarrow> s < 256 \<and> b = [word_of_nat s]"
  by (auto simp: byte1_def)

lemma pack_u16_Inr: "pack_u16 n = Inr b \<longleftrightarrow> n < 2 ^ 16 \<and> b = le_fix 2 n"
  by (auto simp: pack_u16_def)

lemma run_op_input:
  assumes "run_op S x g = Inr g'" shows "op_ok x \<and> g_inp g' = g_inp g @ op_input x"
proof -
  note ops = op_new_def op_set_def op_root_def op_get_def op_indexed_def op_lookup_acct_def op_lookup_slot_def
    op_decode_acct_def op_encode_acct_def op_keccak_def op_set_acct_def
  note packs = byte1_Inr pack_u16_Inr pack_u32_iff pack_u64_iff items_Inr
  have le: "to_le 32 n = Inr b \<longleftrightarrow> n < 256 ^ 32 \<and> b = le_fix 32 n" for n b by (simp add: to_le_def) blast
  have zeros1: "zeros (Suc 0) = [0]" by (simp add: zeros_def)
  show ?thesis
  proof (cases x)
    case (OpWitness ns h s)
    then show ?thesis using assms
      by (auto simp: op_witness_def op_ok_def op_input_def packs Let_def dest!: attempt_inp split: option.splits sum.splits)
  next
    case (OpSetAcct a acc)
    then show ?thesis using assms
      by (cases acc) (auto simp: ops op_ok_def op_input_def packs le zeros1 dest!: attempt_inp)
  qed (use assms in \<open>auto simp: ops op_ok_def op_input_def packs le Let_def dest!: attempt_inp split: option.splits\<close>)
qed

lemma run_ops_input: "run_ops S xs g = Inr g' \<Longrightarrow> list_all op_ok xs \<and> g_inp g' = g_inp g @ concat (map op_input xs)"
proof (induction xs arbitrary: g)
  case (Cons x xs)
  then obtain h where "run_op S x g = Inr h" "run_ops S xs h = Inr g'" by auto
  with Cons.IH [of h] run_op_input [of S x g h] show ?case by simp
qed simp

text \<open>A reader of the op stream, as the header of the file lists the encodings: the guest's side.\<close>

definition chunk :: "nat \<Rightarrow> bytes \<Rightarrow> (bytes \<times> bytes) option" where
  "chunk n b = (if n \<le> length b then Some (take n b, drop n b) else None)"

definition number :: "nat \<Rightarrow> bytes \<Rightarrow> (nat \<times> bytes) option" where
  "number n b = map_option (map_prod from_le id) (chunk n b)"

definition string16 :: "bytes \<Rightarrow> (bytes \<times> bytes) option" where
  "string16 b = Option.bind (number 2 b) (\<lambda>(n, b). chunk n b)"

primrec strings :: "nat \<Rightarrow> bytes \<Rightarrow> (bytes list \<times> bytes) option" where
  "strings 0 b = Some ([], b)"
| "strings (Suc n) b = Option.bind (string16 b) (\<lambda>(v, b). map_option (map_prod ((#) v) id) (strings n b))"

definition account_fields :: "bytes \<Rightarrow> ((account \<times> bytes) \<times> bytes) option" where
  "account_fields b =
     Option.bind (number 8 b) (\<lambda>(n, b). Option.bind (number 32 b) (\<lambda>(bal, b).
     Option.bind (chunk 32 b) (\<lambda>(sr, b). Option.bind (chunk 32 b) (\<lambda>(ch, b).
       Some ((\<lparr>acc_nonce = n, acc_balance = bal, acc_code_hash = ch\<rparr>, sr), b)))))"

definition parse_op :: "bytes \<Rightarrow> (op \<times> bytes) option" where
  "parse_op s = Option.bind (number 1 s) (\<lambda>(c, b).
     if c = 1 then Option.bind (number 1 b) (\<lambda>(s, b). Some (OpNew s, b))
     else if c = 2 then Option.bind (string16 b) (\<lambda>(k, b). Option.bind (string16 b) (\<lambda>(v, b). Some (OpSet k v, b)))
     else if c = 3 then Some (OpRoot, b)
     else if c = 4 then Option.bind (string16 b) (\<lambda>(k, b). Some (OpGet k, b))
     else if c = 5 then Option.bind (number 4 b) (\<lambda>(n, b). Option.bind (strings n b) (\<lambda>(vs, b). Some (OpIndexed vs, b)))
     else if c = 6 then
       Option.bind (number 4 b) (\<lambda>(n, b). Option.bind (strings n b) (\<lambda>(ns, b).
       Option.bind (chunk 32 b) (\<lambda>(h, b). Option.bind (number 1 b) (\<lambda>(s, b). Some (OpWitness ns h s, b)))))
     else if c = 7 then Option.bind (chunk 20 b) (\<lambda>(a, b). Some (OpLookupAcct a, b))
     else if c = 8 then Option.bind (chunk 20 b) (\<lambda>(a, b). Option.bind (chunk 32 b) (\<lambda>(s, b). Some (OpLookupSlot a s, b)))
     else if c = 9 then
       Option.bind (chunk 20 b) (\<lambda>(a, b). Option.bind (number 1 b) (\<lambda>(p, b).
         if p = 0 then Option.bind (chunk 104 b) (\<lambda>(z, b). Some (OpSetAcct a None, b))
         else Option.bind (account_fields b) (\<lambda>(acc, b). Some (OpSetAcct a (Some acc), b))))
     else if c = 10 then Option.bind (string16 b) (\<lambda>(l, b). Some (OpDecodeAcct l, b))
     else if c = 11 then Option.bind (account_fields b) (\<lambda>((acc, sr), b). Some (OpEncodeAcct (acc_nonce acc) (acc_balance acc) sr (acc_code_hash acc), b))
     else if c = 13 then Option.bind (number 4 b) (\<lambda>(n, b). Option.bind (number 4 b) (\<lambda>(reps, b). Some (OpKeccak n reps, b)))
     else None)"

primrec parse_ops :: "nat \<Rightarrow> bytes \<Rightarrow> (op list \<times> bytes) option" where
  "parse_ops 0 b = Some ([], b)"
| "parse_ops (Suc n) b = Option.bind (parse_op b) (\<lambda>(x, b). map_option (map_prod ((#) x) id) (parse_ops n b))"

definition op_widths :: "op \<Rightarrow> bool" where
  \<comment> \<open>addresses of 20 bytes, slots, roots and hashes of 32\<close>
  "op_widths x = (case x of
     OpWitness ns h s \<Rightarrow> length h = 32 | OpLookupAcct a \<Rightarrow> length a = 20 | OpLookupSlot a s \<Rightarrow> length a = 20 \<and> length s = 32
   | OpSetAcct a acc \<Rightarrow> length a = 20 \<and> (case acc of None \<Rightarrow> True | Some (c, sr) \<Rightarrow> length sr = 32 \<and> length (acc_code_hash c) = 32)
   | OpEncodeAcct n b sr ch \<Rightarrow> length sr = 32 \<and> length ch = 32 | _ \<Rightarrow> True)"

lemma chunk_append: "length a = n \<Longrightarrow> chunk n (a @ b) = Some (a, b)"
  by (simp add: chunk_def)

lemma number_byte: "n < 256 \<Longrightarrow> number 1 (word_of_nat n # b) = Some (n, b)"
  by (simp add: number_def chunk_def from_le_def from_be_def)

lemma number_append: "n < 256 ^ k \<Longrightarrow> number k (le_fix k n @ b) = Some (n, b)"
  by (simp add: number_def chunk_append from_le_le_fix)

lemma string16_append: "length v < 2 ^ 16 \<Longrightarrow> string16 (le_fix 2 (length v) @ v @ b) = Some (v, b)"
  by (simp add: string16_def number_append chunk_append)

lemma strings_append:
  "list_all (\<lambda>v. length v < 2 ^ 16) vs \<Longrightarrow> strings (length vs) (concat (map (\<lambda>v. le_fix 2 (length v) @ v) vs) @ b) = Some (vs, b)"
  by (induction vs) (simp_all add: string16_append)

lemma account_fields_append:
  "n < 2 ^ 64 \<Longrightarrow> bal < 256 ^ 32 \<Longrightarrow> length sr = 32 \<Longrightarrow> length ch = 32 \<Longrightarrow>
   account_fields (le_fix 8 n @ le_fix 32 bal @ sr @ ch @ b) = Some ((\<lparr>acc_nonce = n, acc_balance = bal, acc_code_hash = ch\<rparr>, sr), b)"
  by (simp add: account_fields_def number_append chunk_append)

lemma parse_op_input:
  assumes "op_ok x" "op_widths x" shows "parse_op (op_input x @ b) = Some (x, b)"
proof -
  have code: "number 1 (c # r) = Some (unat c, r)" for c r
    by (simp add: number_def chunk_def from_le_def from_be_def)
  note rules = chunk_append number_append string16_append strings_append [simplified] account_fields_append
  show ?thesis
    using assms
    by (cases x) (auto simp: parse_op_def op_input_def op_ok_def op_widths_def code rules unat_of_nat simp del: One_nat_def split: option.splits)
qed

lemma parse_ops_input:
  "list_all op_ok xs \<Longrightarrow> list_all op_widths xs \<Longrightarrow> parse_ops (length xs) (concat (map op_input xs) @ b) = Some (xs, b)"
  by (induction xs) (simp_all add: parse_op_input)

end
