(* ===== verification/MptScenarios.thy ===== *)
theory MptScenarios
  imports Mpt
begin

text \<open>
  The scripted scenarios of \<open>tools/gen_mpt_vectors.py\<close> as operation lists: the structural cases of the
  tree, the random fill and drain, the indexed tries and the account leaves.  What the random
  generator draws is an argument.  The last section shows that a scenario cannot abort: when the
  specification raises only what \<open>attempt\<close> catches, a run of well-formed operations that starts
  with a new tree answers all of them.
\<close>

section \<open>The scenarios\<close>

definition scenario_structural :: "op list" where
  "scenario_structural =
     (let base = [0xde, 0xad, 0xbe, 0xef, 0xca, 0xfe] in
      \<comment> \<open>single leaf\<close>
      [OpNew 0, OpSet [0xab, 0xcd] [0x76], OpRoot, OpGet [0xab, 0xcd], OpGet [0xab], OpSet [0xab, 0xcd] [], OpRoot]
      \<comment> \<open>a key that is a prefix of two others\<close>
      @ [OpNew 0, OpSet [0x12] (replicate 40 0x78), OpSet [0x12, 0x34] [0x79], OpSet [0x12, 0x35] (replicate 33 0x7a), OpRoot,
         OpGet [0x12], OpSet [0x12] [], OpRoot, OpSet [0x12, 0x34] [], OpRoot, OpGet [0x12, 0x35], OpSet [0x12, 0x35] [], OpRoot]
      \<comment> \<open>value at a branch whose children vanish\<close>
      @ [OpNew 0, OpSet [0x12] [0x74, 0x6f, 0x70], OpSet [0x12, 0x34] [0x61], OpSet [0x12, 0x35] [0x62],
         OpSet [0x12, 0x34] [], OpSet [0x12, 0x35] [], OpRoot, OpGet [0x12]]
      \<comment> \<open>extension splits\<close>
      @ [OpNew 0, OpSet (base @ [0x00, 0x01]) (replicate 35 0x41), OpSet (base @ [0x00, 0x02]) (replicate 35 0x42), OpRoot,
         OpSet (base @ [0x10, 0x00]) [0x43], OpRoot, OpSet [0xde, 0xad, 0xbe, 0x00] (replicate 36 0x44), OpRoot,
         OpSet [0xde, 0xad, 0xbe, 0xef, 0xca, 0xfe] [0x45], OpRoot, OpSet [0xd0] [0x46], OpRoot]
      @ concat (map (\<lambda>k. [OpSet k [], OpRoot])
          [base @ [0x00, 0x01], [0xde, 0xad, 0xbe, 0x00], [0xd0], base @ [0x10, 0x00], base, base @ [0x00, 0x02]])
      \<comment> \<open>an extension whose child branch collapses\<close>
      @ [OpNew 0, OpSet [0xaa, 0xaa, 0x01, 0x00] (replicate 40 0x31), OpSet [0xaa, 0xaa, 0x02, 0x00] (replicate 40 0x32),
         OpSet [0xaa, 0xaa, 0x02, 0x11] (replicate 40 0x33), OpRoot, OpSet [0xaa, 0xaa, 0x01, 0x00] [], OpRoot,
         OpSet [0xaa, 0xaa, 0x02, 0x11] [], OpRoot, OpGet [0xaa, 0xaa, 0x02, 0x00]])"

definition every :: "nat \<Rightarrow> nat \<Rightarrow> op list" where
  \<comment> \<open>\<open>if i % roots_every == 0: g.op_root()\<close>\<close>
  "every n i = (if i mod n = 0 then [OpRoot] else [])"

definition scenario_random :: "nat \<Rightarrow> nat \<Rightarrow> (bytes \<times> bytes) list \<Rightarrow> (bytes \<times> bytes) list \<Rightarrow> bytes \<Rightarrow> bytes \<Rightarrow> bytes list \<Rightarrow> op list" where
  \<comment> \<open>\<open>order\<close> with the drawn values, the sample of updates, the two absent keys, the order of the deletions\<close>
  "scenario_random secured roots_every order sample absent1 absent2 order2 =
     [OpNew secured, OpRoot]
     @ concat (map (\<lambda>(i, k, v). OpSet k v # every roots_every i) (enumerate 0 order))
     @ concat (map (\<lambda>(k, v). [OpSet k v, OpRoot, OpGet k]) sample)
     @ [OpGet absent1, OpSet absent2 [], OpRoot]
     @ concat (map (\<lambda>(i, k). OpSet k [] # (if i mod roots_every = 0 \<or> int i \<ge> int (length order2) - 3 then [OpRoot] else []))
         (enumerate 0 order2))
     @ [OpGet (hd order2), OpRoot]"

definition scenario_indexed :: "bytes \<Rightarrow> bytes \<Rightarrow> bytes \<Rightarrow> bytes list \<Rightarrow> op list" where
  "scenario_indexed r50 r3 r100 vals = [OpIndexed [], OpIndexed [[1]], OpIndexed [r50, r3, r100], OpIndexed vals]"

definition account_leaf :: "('m, 'n, 'd, 't) mpt_spec \<Rightarrow> nat \<Rightarrow> nat \<Rightarrow> bytes \<Rightarrow> bytes \<Rightarrow> bytes" where
  "account_leaf S nonce bal sr ch = sp_rlp S (RList [RBytes (uint nonce), RBytes (uint bal), RBytes sr, RBytes ch])"

definition scenario_accounts :: "('m, 'n, 'd, 't) mpt_spec \<Rightarrow> nat \<Rightarrow> nat \<Rightarrow> bytes list \<Rightarrow> op list" where
  \<comment> \<open>the drawn nonce and balance of the last account and the drawn code hashes\<close>
  "scenario_accounts S rnonce rbal chs =
     (let sr = sp_empty_root S;
          leaf = (\<lambda>fs. OpDecodeAcct (sp_rlp S (RList fs)));
          e = RBytes []
      in concat (map (\<lambda>((nonce, bal), ch). [OpEncodeAcct nonce bal sr ch, OpDecodeAcct (account_leaf S nonce bal sr ch)])
           (zip [(0, 0), (1, 10 ^ 18), (127, 128), (128, 2 ^ 64 - 1), (2 ^ 64 - 1, 2 ^ 256 - 1), (5, 255), (rnonce, rbal)] chs))
         @ [leaf [e, e, e, e],
            leaf [RBytes (replicate 9 1), e, e, e],
            leaf [e, RBytes (replicate 33 1), e, e],
            leaf [e, e, RBytes (replicate 31 1), e],
            leaf [e, e, e, RBytes (replicate 33 1)],
            leaf [e, e, e],
            OpDecodeAcct (sp_rlp S (RBytes [1, 2])),
            leaf [e, RList [e], e, e],
            OpDecodeAcct [0xc4, 0x80, 0x80, 0x80]])"

section \<open>Runs that cannot abort\<close>

locale mpt_total = mpt_contract S for S :: "('m, 'n, 'd, 't) mpt_spec" +
  assumes set_caught: "sp_set S m k v = (m', Inl e) \<Longrightarrow> caught e"
    and set_account_caught: "sp_set_account S m a ao = (m', Inl e) \<Longrightarrow> caught e"
    and root_caught: "sp_root S m = (m', Inl e) \<Longrightarrow> caught e"
    and lookup_caught: "sp_lookup S n k = Inl e \<Longrightarrow> caught e"
    and decode_caught: "sp_decode_account S l = Inl e \<Longrightarrow> caught e"
    and witness_caught: "sp_decode_witness S d h b dv = Inl e \<Longrightarrow> caught e"
    and trie_total: "\<exists>t'. sp_trie_set S t k v = Inr t'" "\<exists>h. sp_trie_root S t = Inr h"
    and lookup_small: "sp_lookup S n k = Inr (Some v) \<Longrightarrow> length v < 2 ^ 32"
    and leaf_small: "length (sp_rlp S r) < 2 ^ 32"
    and account_small: "sp_lookup S n k = Inr (Some l) \<Longrightarrow> sp_decode_account S l = Inr (acc, sr) \<Longrightarrow> acc_nonce acc < 2 ^ 64"
    and balance_small: "sp_decode_account S l = Inr (acc, sr) \<Longrightarrow> acc_balance acc < 256 ^ 32"
begin

lemma attempt_total:
  assumes "\<And>e. snd c = Inl e \<Longrightarrow> caught e"
  shows "\<exists>f. attempt c n = Inr (f, case snd c of Inr v \<Rightarrow> Some v | Inl e \<Rightarrow> None) \<and> g_m f = g_m (fst c)"
  using assms by (cases c; cases "snd c") (auto simp: attempt_def status_def payload_def)

lemma on_tree_some:
  assumes "g_m g = Some m" shows "on_tree g call = (g\<lparr>g_m := Some (fst (call m))\<rparr>, snd (call m))"
  using assms by (simp add: on_tree_def split_beta)

lemma value_rec_total: "(case v of None \<Rightarrow> True | Some b \<Rightarrow> length b < 2 ^ 32) \<Longrightarrow> \<exists>b. value_rec S v = Inr b"
  by (cases v) (auto simp: value_rec_def Let_def pack_u32_def)

lemma fill_trie_total: "\<exists>t'. fill_trie S i vs t = Inr t'"
  by (induction vs arbitrary: i t) (auto, metis trie_total(1) ebind_simps(2))

lemma lookup_account_total:
  "lookup_account S m a = Inl e \<Longrightarrow> caught e"
  "lookup_account S m a = Inr r \<Longrightarrow> \<exists>b. acct_rec r = Inr b"
proof -
  show "caught e" if "lookup_account S m a = Inl e"
    using that lookup_caught decode_caught
    by (auto simp: lookup_account_def ebind_def split: sum.splits option.splits)
  show "\<exists>b. acct_rec r = Inr b" if "lookup_account S m a = Inr r"
    using that account_small balance_small
    by (cases r) (auto simp: lookup_account_def acct_rec_def pack_u64_def to_le_def split: option.splits)
qed

lemma lookup_slot_total:
  "lookup_slot S d m a s = Inl e \<Longrightarrow> caught e"
  "lookup_slot S d m a s = Inr v \<Longrightarrow> \<exists>b. value_rec S v = Inr b"
proof -
  show "caught e" if "lookup_slot S d m a s = Inl e"
    using that lookup_caught decode_caught witness_caught
    by (auto simp: lookup_slot_def ebind_def split: sum.splits option.splits prod.splits if_splits)
  show "\<exists>b. value_rec S v = Inr b" if "lookup_slot S d m a s = Inr v"
    using that lookup_small
    by (intro value_rec_total) (auto simp: lookup_slot_def split: option.splits prod.splits if_splits)
qed

text \<open>A guarded call followed by the recording of its value.\<close>

lemma guarded_total:
  assumes "\<And>e. snd c = Inl e \<Longrightarrow> caught e" "\<And>v. snd c = Inr v \<Longrightarrow> \<exists>b. rcd v = Inr b"
    and k: "\<And>f. k (f, None) = Inr f" "\<And>f v. k (f, Some v) = ebind (rcd v) (\<lambda>b. Inr (payload b f))"
    and m: "g_m (fst c) \<noteq> None"
  shows "\<exists>g'. ebind (attempt c n) k = Inr g' \<and> g_m g' \<noteq> None"
proof -
  obtain f where f: "attempt c n = Inr (f, case snd c of Inr v \<Rightarrow> Some v | Inl e \<Rightarrow> None)" "g_m f = g_m (fst c)"
    using attempt_total [of c n] assms(1) by blast
  show ?thesis
  proof (cases "snd c")
    case (Inl e)
    then show ?thesis using f m by (simp add: k)
  next
    case (Inr v)
    then obtain b where "rcd v = Inr b" using assms(2) by blast
    then show ?thesis using f m Inr by (simp add: k payload_def)
  qed
qed

lemma tree_total:
  assumes m: "g_m g = Some m" and "\<And>e. snd (call m) = Inl e \<Longrightarrow> caught e" "\<And>v. snd (call m) = Inr v \<Longrightarrow> \<exists>b. rcd v = Inr b"
    and "\<And>f. k (f, None) = Inr f" "\<And>f v. k (f, Some v) = ebind (rcd v) (\<lambda>b. Inr (payload b f))"
  shows "\<exists>g'. ebind (attempt (on_tree (add_inp inp g) call) n) k = Inr g' \<and> g_m g' \<noteq> None"
  by (rule guarded_total [of _ rcd]) (use assms in \<open>simp_all add: on_tree_some [of "add_inp inp g" m]\<close>)

lemma payload_nil [simp]: "payload [] f = f"
  by (simp add: payload_def)

lemma set_total: "g_m g = Some m \<Longrightarrow> \<exists>g'. ebind (attempt (on_tree (add_inp inp g) (\<lambda>m. sp_set S m k v)) 0) (\<lambda>(g, r). Inr g) = Inr g' \<and> g_m g' \<noteq> None"
  by (rule tree_total [where rcd = "\<lambda>v. Inr []"]) (auto intro: set_caught surjective_pairing simp: prod_eq_iff)

lemma lookup_value: "sp_lookup S n k = Inr v \<Longrightarrow> \<exists>b. value_rec S v = Inr b"
  by (rule value_rec_total) (auto dest!: lookup_small [simplified] split: option.splits)

lemma lookup_acct_run:
  "ebind (op_lookup_acct S a g) (\<lambda>(g, r). Inr g) =
     ebind (attempt (on_tree (add_inp ([7] @ a) g) (\<lambda>m. (m, lookup_account S m a))) 112)
       (\<lambda>(g, r). case r of Some v \<Rightarrow> ebind (acct_rec v) (\<lambda>b. Inr (payload b g)) | None \<Rightarrow> Inr g)"
  unfolding op_lookup_acct_def ebind_assoc
  by (rule arg_cong [where f = "ebind _"]) (auto simp: fun_eq_iff ebind_assoc split: option.splits)

lemma run_op_total:
  assumes x: "op_ok x" and m: "g_m g = Some m"
  shows "\<exists>g'. run_op S x g = Inr g' \<and> g_m g' \<noteq> None"
proof (cases x)
  case (OpNew s)
  then show ?thesis using x by (simp add: op_new_def byte1_def op_ok_def status_def)
next
  case (OpSet k v)
  then show ?thesis using x set_total [OF m] by (simp add: OpSet op_set_def op_ok_def pack_u16_def)
next
  case OpRoot
  show ?thesis unfolding OpRoot run_op.simps op_root_def
    by (rule tree_total [OF m, where rcd = Inr]) (auto intro: root_caught simp: prod_eq_iff)
next
  case (OpGet k)
  have "\<exists>g'. ebind (attempt (on_tree (add_inp inp g) (\<lambda>m. (m, sp_lookup S (sp_root_node S m) (key_nibbles S k (sp_secured S m))))) 40)
      (\<lambda>(g, r). case r of Some v \<Rightarrow> ebind (value_rec S v) (\<lambda>b. Inr (payload b g)) | None \<Rightarrow> Inr g) = Inr g' \<and> g_m g' \<noteq> None" for inp
    by (rule tree_total [OF m, where rcd = "value_rec S"])
      (auto intro: lookup_caught lookup_value)
  then show ?thesis using x by (simp add: OpGet op_get_def op_ok_def pack_u16_def)
next
  case (OpIndexed vs)
  obtain t h where "fill_trie S 0 vs (sp_trie S) = Inr t" "sp_trie_root S t = Inr h"
    using fill_trie_total trie_total(2) by blast
  then show ?thesis using x m
    by (simp add: OpIndexed op_indexed_def op_ok_def items_Inr [THEN iffD2] payload_def status_def)
next
  case (OpWitness ns h s)
  then have "\<exists>b. items ns = Inr b" using x by (auto simp: items_Inr op_ok_def)
  then show ?thesis using x
    by (cases "sp_decode_witness S (Some (sp_node_db S ns)) h (s \<noteq> 0) DNone")
      (auto simp: OpWitness op_witness_def op_ok_def byte1_def attempt_def Let_def status_def witness_caught)
next
  case (OpLookupAcct a)
  show ?thesis unfolding OpLookupAcct run_op.simps lookup_acct_run
    by (rule tree_total [OF m, where rcd = acct_rec]) (auto intro: lookup_account_total)
next
  case (OpLookupSlot a s)
  show ?thesis unfolding OpLookupSlot run_op.simps op_lookup_slot_def
    by (rule tree_total [OF m, where rcd = "value_rec S"]) (auto intro: lookup_slot_total)
next
  case (OpSetAcct a acc)
  have t: "\<exists>g'. ebind (attempt (on_tree (add_inp inp g) (\<lambda>m. sp_set_account S m a acc)) 0) (\<lambda>(g, r). Inr g) = Inr g' \<and> g_m g' \<noteq> None" for inp
    by (rule tree_total [OF m, where rcd = "\<lambda>v. Inr []"]) (auto intro: set_account_caught simp: prod_eq_iff)
  have "run_op S x g = ebind (case acc of None \<Rightarrow> Inr ([9] @ a @ zeros 1 @ zeros (8 + 96))
      | Some (c, sr) \<Rightarrow> ebind (pack_u64 (acc_nonce c)) (\<lambda>n. ebind (to_le 32 (acc_balance c)) (\<lambda>b. Inr ([9] @ a @ [1] @ n @ b @ sr @ acc_code_hash c))))
    (\<lambda>inp. ebind (attempt (on_tree (add_inp inp g) (\<lambda>m. sp_set_account S m a acc)) 0) (\<lambda>(g, r). Inr g))"
    unfolding OpSetAcct run_op.simps op_set_acct_def ebind_assoc
    by (rule arg_cong [where f = "ebind _"]) (simp add: ebind_assoc split_def)
  moreover have "\<exists>inp. (case acc of None \<Rightarrow> Inr ([9] @ a @ zeros 1 @ zeros (8 + 96))
      | Some (c, sr) \<Rightarrow> ebind (pack_u64 (acc_nonce c)) (\<lambda>n. ebind (to_le 32 (acc_balance c)) (\<lambda>b. Inr ([9] @ a @ [1] @ n @ b @ sr @ acc_code_hash c)))) = Inr inp"
    using x by (auto simp: OpSetAcct op_ok_def pack_u64_def to_le_def split: option.splits)
  ultimately show ?thesis using t by auto
next
  case (OpDecodeAcct l)
  have "\<exists>g'. ebind (attempt (add_inp inp g, ebind (sp_decode_account S l) (\<lambda>(acc, sr).
           if acc_nonce acc \<ge> 2 ^ 64 then Inl ValueError else Inr (acc, sr))) 112)
      (\<lambda>(g, r). case r of Some a \<Rightarrow> ebind (acct_rec (Some a)) (\<lambda>b. Inr (payload b g)) | None \<Rightarrow> Inr g) = Inr g' \<and> g_m g' \<noteq> None" for inp
  proof (rule guarded_total [where rcd = "\<lambda>a. acct_rec (Some a)"])
    show "caught e" if "snd (add_inp inp g, ebind (sp_decode_account S l) (\<lambda>(acc, sr).
           if acc_nonce acc \<ge> 2 ^ 64 then Inl ValueError else Inr (acc, sr))) = Inl e" for e
      using that decode_caught [of l] by (cases "sp_decode_account S l") (auto simp: caught_def split: if_splits prod.splits)
    show "\<exists>b. acct_rec (Some v) = Inr b" if "snd (add_inp inp g, ebind (sp_decode_account S l) (\<lambda>(acc, sr).
           if acc_nonce acc \<ge> 2 ^ 64 then Inl ValueError else Inr (acc, sr))) = Inr v" for v
      using that balance_small [of l] by (auto simp: acct_rec_def pack_u64_def to_le_def split: if_splits)
  qed (simp_all add: m)
  then show ?thesis using x by (simp add: OpDecodeAcct op_decode_acct_def op_ok_def pack_u16_def)
next
  case (OpEncodeAcct n b sr ch)
  let ?leaf = "sp_rlp S (RList [RBytes (uint n), RBytes (uint b), RBytes sr, RBytes ch])"
  obtain v where "value_rec S (Some ?leaf) = Inr v" using value_rec_total [of "Some ?leaf"] leaf_small by auto
  then show ?thesis using x m
    by (simp add: OpEncodeAcct op_encode_acct_def op_ok_def pack_u64_def to_le_def Let_def payload_def status_def)
next
  case (OpKeccak n reps)
  then show ?thesis using x m by (simp add: op_keccak_def op_ok_def pack_u32_def payload_def status_def)
qed

lemma run_ops_total:
  assumes "list_all op_ok xs" "g_m g \<noteq> None" shows "\<exists>g'. run_ops S xs g = Inr g' \<and> g_m g' \<noteq> None"
  using assms
proof (induction xs arbitrary: g)
  case (Cons x xs)
  then obtain h where "run_op S x g = Inr h" "g_m h \<noteq> None" using run_op_total [of x g] by auto
  then show ?case using Cons by auto
qed auto

lemma run_from_new:
  assumes "list_all op_ok xs" "s < 256" shows "\<exists>g'. run_ops S (OpNew s # xs) new_recorder = Inr g' \<and> g_m g' \<noteq> None"
  using assms run_ops_total [of xs] by (simp add: op_new_def byte1_def status_def)

end

lemma structural_ok: "list_all op_ok scenario_structural" "list_all op_widths scenario_structural" "length scenario_structural = 62"
  by (simp_all add: scenario_structural_def op_ok_def op_widths_def Let_def)

lemma all_concat_map: "list_all P (concat (map f xs)) \<longleftrightarrow> list_all (\<lambda>x. list_all P (f x)) xs"
  by (induction xs) simp_all

lemma all_enumerate: "list_all P xs \<Longrightarrow> list_all (\<lambda>(i, x). P x) (enumerate n xs)"
  by (induction xs arbitrary: n) simp_all

lemma every_ok [simp]: "list_all op_ok (every n i)" "list_all op_ok (if c then [OpRoot] else [])"
  by (simp_all add: every_def op_ok_def)

lemma random_ok:
  assumes "secured < 256" "list_all (\<lambda>(k, v). length k < 2 ^ 16 \<and> length v < 2 ^ 16) order"
    "list_all (\<lambda>(k, v). length k < 2 ^ 16 \<and> length v < 2 ^ 16) sample"
    "length absent1 < 2 ^ 16" "length absent2 < 2 ^ 16" "list_all (\<lambda>k. length k < 2 ^ 16) order2" "order2 \<noteq> []"
  shows "list_all op_ok (scenario_random secured n order sample absent1 absent2 order2)"
proof -
  have "length (hd order2) < 2 ^ 16" using assms(6,7) by (cases order2) simp_all
  moreover have "list_all (\<lambda>x. list_all op_ok (case x of (i, k, v) \<Rightarrow> OpSet k v # every n i)) (enumerate 0 order)"
    using all_enumerate [OF assms(2), of 0] by (rule list.pred_mono_strong) (auto simp: op_ok_def split_beta)
  moreover have "list_all (\<lambda>x. list_all op_ok (case x of (i, k) \<Rightarrow> OpSet k [] #
      (if i mod n = 0 \<or> int i \<ge> int (length order2) - 3 then [OpRoot] else []))) (enumerate 0 order2)"
    using all_enumerate [OF assms(6), of 0] by (rule list.pred_mono_strong) (auto simp: op_ok_def split_beta)
  moreover have "list_all (\<lambda>x. list_all op_ok (case x of (k, v) \<Rightarrow> [OpSet k v, OpRoot, OpGet k])) sample"
    using assms(3) by (rule list.pred_mono_strong) (auto simp: op_ok_def)
  ultimately show ?thesis using assms(1,4,5)
    unfolding scenario_random_def list_all_append all_concat_map by (simp add: op_ok_def)
qed

section \<open>A small specification\<close>

definition put :: "bytes \<Rightarrow> bytes \<Rightarrow> (bytes \<times> bytes) list \<Rightarrow> (bytes \<times> bytes) list" where
  "put k v al = (if v = [] then [] else [(k, v)]) @ filter (\<lambda>(k', w). k' \<noteq> k) al"

definition toy :: "(bool \<times> (bytes \<times> bytes) list, (bytes \<times> bytes) list, bytes list, nat) mpt_spec" where
  \<comment> \<open>an association list for a tree, its length for a root; a lookup in an empty tree fails\<close>
  "toy = \<lparr>sp_keccak = (\<lambda>b. be_fix 32 (from_be b)), sp_new = (\<lambda>s d. (s, [])),
     sp_set = (\<lambda>m k v. ((fst m, put k v (snd m)), Inr ())),
     sp_set_account = (\<lambda>m a acc. (m, if acc = None then Inl AssertionError else Inr ())),
     sp_root = (\<lambda>m. (m, Inr (be_fix 32 (length (snd m))))), sp_root_node = (\<lambda>m. Some (snd m)), sp_secured = fst,
     sp_lookup = (\<lambda>n k. case n of Some (x # al) \<Rightarrow> Inr (map_option (take 90) (map_of (x # al) k)) | _ \<Rightarrow> Inl KeyError),
     sp_decode_account = (\<lambda>l. if l = [] then Inl DecodingError
       else Inr (\<lparr>acc_nonce = length l mod 2 ^ 64, acc_balance = 0, acc_code_hash = zeros 32\<rparr>, zeros 32)),
     sp_node_db = (\<lambda>ns. ns), sp_decode_witness = (\<lambda>d h s v. if d = Some [] then Inl ValueError else Inr (s, [])),
     sp_empty_root = zeros 32, sp_trie = 0, sp_trie_set = (\<lambda>t k v. Inr (Suc t)), sp_trie_root = (\<lambda>t. Inr (be_fix 32 t)),
     sp_rlp = (\<lambda>r. [])\<rparr>"

interpretation toy: mpt_total toy
proof unfold_locales
  fix n k v
  assume "sp_lookup toy n k = Inr (Some v)"
  then have "length v \<le> 90" by (auto simp: toy_def split: option.splits list.splits)
  then show "length v < 2 ^ 32" by simp
qed (auto simp: toy_def caught_def split: if_splits option.splits list.splits)

section \<open>The properties of the recorder\<close>

text \<open>C23: the output file is one record per operation.  After any run that does not abort, the
  expected bytes are the serialised outcomes of the operations in order, each a status 0 or 1 with a
  payload whose length depends on the operation alone (and is zeros where the status is 1); the mask
  has the same length and is 0xff everywhere but at the error codes of the failed operations; and
  the record count is the number of operations.\<close>

theorem mpt_records:
  assumes "mpt_contract S" "run_ops S xs new_recorder = Inr g"
  shows "\<exists>rs. list_all2 outcome_ok xs rs \<and> g_exp g = concat (map rec_bytes rs) \<and> g_mask g = concat (map rec_mask rs) \<and>
    g_nrec g = length xs \<and> length (g_mask g) = length (g_exp g) \<and>
    length (g_exp g) = sum_list (map (\<lambda>x. 8 + outcome_size x) xs)"
proof -
  obtain rs where rs: "list_all2 outcome_ok xs rs" "g_exp g = concat (map rec_bytes rs)" "g_mask g = concat (map rec_mask rs)"
    "g_nrec g = length rs"
    using mpt_contract.run_ops_records [OF assms] by (auto simp: new_recorder_def)
  have "length (rec_mask r) = length (rec_bytes r)" for r by (simp add: rec_mask_def rec_bytes_def)
  then have "length (g_mask g) = length (g_exp g)" by (simp add: rs length_concat comp_def)
  moreover have "map (\<lambda>r. length (rec_bytes r)) rs = map (\<lambda>x. 8 + outcome_size x) xs"
    using rs(1) by (induction rule: list_all2_induct) (simp_all add: rec_bytes_def outcome_ok_def)
  then have "length (g_exp g) = sum_list (map (\<lambda>x. 8 + outcome_size x) xs)" by (simp add: rs length_concat comp_def)
  ultimately show ?thesis using rs list_all2_lengthD [OF rs(1)] by auto
qed

lemma mpt_records_witness:
  "\<exists>g. run_ops toy [OpNew 0, OpGet [7], OpSet [7] [1, 2], OpRoot, OpGet [7]] new_recorder = Inr g \<and>
     g_nrec g = 5 \<and> length (g_exp g) = 152"
proof -
  let ?xs = "[OpNew 0, OpGet [7], OpSet [7] [1, 2], OpRoot, OpGet [7]]"
  obtain g where g: "run_ops toy ?xs new_recorder = Inr g"
    using toy.run_from_new [of "tl ?xs" 0] by (auto simp: op_ok_def)
  show ?thesis using mpt_records [OF toy.mpt_contract_axioms g] g by (auto simp: outcome_size_def)
qed

text \<open>C24: the input file can be read back.  The op stream that a run has recorded parses, by the
  grammar of the file's header, into exactly the operations that were run, with nothing left.\<close>

theorem mpt_input_roundtrip:
  assumes "run_ops S xs new_recorder = Inr g" "list_all op_widths xs"
  shows "parse_ops (length xs) (g_inp g) = Some (xs, [])"
  using run_ops_input [OF assms(1)] parse_ops_input [OF _ assms(2), of "[]"] by (simp add: new_recorder_def)

lemma mpt_input_roundtrip_witness:
  "\<exists>g. run_ops toy [OpNew 1, OpSetAcct (zeros 20) None, OpKeccak 100 3] new_recorder = Inr g \<and>
     parse_ops 3 (g_inp g) = Some ([OpNew 1, OpSetAcct (zeros 20) None, OpKeccak 100 3], [])"
proof -
  let ?xs = "[OpNew 1, OpSetAcct (zeros 20) None, OpKeccak 100 3]"
  obtain g where g: "run_ops toy ?xs new_recorder = Inr g"
    using toy.run_from_new [of "tl ?xs" 1] by (auto simp: op_ok_def)
  show ?thesis using mpt_input_roundtrip [OF g] g by (auto simp: op_widths_def eval_nat_numeral)
qed

text \<open>The scripted scenarios cannot abort.  When the specification raises nothing that
  \<open>attempt\<close> does not catch, the structural scenario followed by a random one, for any draws whose
  keys and values fit a 16-bit length, answers every operation: 62 records for the first and one
  per operation for the second.\<close>

theorem scenarios_total:
  assumes "mpt_total S" "secured < 256" "list_all (\<lambda>(k, v). length k < 2 ^ 16 \<and> length v < 2 ^ 16) order"
    "list_all (\<lambda>(k, v). length k < 2 ^ 16 \<and> length v < 2 ^ 16) sample"
    "length absent1 < 2 ^ 16" "length absent2 < 2 ^ 16" "list_all (\<lambda>k. length k < 2 ^ 16) order2" "order2 \<noteq> []"
  shows "\<exists>g. run_ops S (scenario_structural @ scenario_random secured n order sample absent1 absent2 order2) new_recorder = Inr g \<and>
    g_nrec g = 62 + length (scenario_random secured n order sample absent1 absent2 order2)"
proof -
  let ?r = "scenario_random secured n order sample absent1 absent2 order2"
  have "\<exists>xs. scenario_structural = OpNew 0 # xs" by (simp add: scenario_structural_def Let_def)
  then obtain xs where xs: "scenario_structural = OpNew 0 # xs" by blast
  have "list_all op_ok (xs @ ?r)" using structural_ok(1) random_ok [OF assms(2-)] by (simp add: xs)
  then obtain g where g: "run_ops S (scenario_structural @ ?r) new_recorder = Inr g"
    using mpt_total.run_from_new [OF assms(1), of "xs @ ?r" 0] by (auto simp: xs)
  have "mpt_contract S" using assms(1) by (simp add: mpt_total_def)
  from mpt_contract.run_ops_records [OF this g] g structural_ok(3) show ?thesis
    by (auto simp: new_recorder_def dest: list_all2_lengthD)
qed

lemma scenarios_total_witness:
  "\<exists>g. run_ops toy (scenario_structural @ scenario_random 1 3 [([1], [2])] [] [9] [8] [[1]]) new_recorder = Inr g \<and>
     g_nrec g = 62 + length (scenario_random 1 3 [([1], [2])] [] [9] [8] [[1]])"
  by (rule scenarios_total [OF toy.mpt_total_axioms]) simp_all

end
