(* ===== verification/Fixture.thy ===== *)
theory Fixture
  imports SszCases
begin

text \<open>
  The fixture reader of \<open>tools/gen_mpt_vectors.py\<close> (class \<open>_FixtureInput\<close>, with \<open>_le32\<close> and
  \<open>_var_list\<close>): the witness nodes, the headers, the fee recipient and the block access list of a
  packed stateless input, read from the raw SSZ bytes at fixed positions.  The theory shows that it
  recovers what the encoders of \<open>tools/ssz-inputs.py\<close> wrote.
\<close>

section \<open>The reader\<close>

definition mpt_var_list :: "bytes \<Rightarrow> bytes list res" where
  "mpt_var_list b =
     (if b = [] then Inr []
      else ebind (le32_at b 0) (\<lambda>d. let n = d div 4 in
           ebind (emap (\<lambda>i. le32_at b (4 * i)) [0..<n]) (\<lambda>o4. let offs = o4 @ [length b] in
             Inr (map (\<lambda>i. bslice b (offs ! i) (offs ! (i + 1))) [0..<n]))))"

record fixture_input =
  fx_state :: "bytes list"
  fx_headers :: "bytes list"
  fx_fee_recipient :: bytes
  fx_block_access_list :: bytes

definition read_fixture :: "bytes \<Rightarrow> fixture_input res" where
  "read_fixture blob =
     (let body = drop 2 blob in
      ebind (le32_at body 0) (\<lambda>o_npr. ebind (le32_at body 4) (\<lambda>o_wit.
      let npr = bslice body o_npr o_wit in
      ebind (le32_at npr 0) (\<lambda>o_pl. ebind (le32_at npr 4) (\<lambda>o_vh.
      let pay = bslice npr o_pl o_vh; wit = drop o_wit body in
      ebind (emap (\<lambda>i. le32_at wit (4 * i)) [0..<3]) (\<lambda>w.
      ebind (mpt_var_list (bslice wit (w ! 0) (w ! 1))) (\<lambda>st.
      ebind (mpt_var_list (drop (w ! 2) wit)) (\<lambda>hs.
      ebind (le32_at pay 528) (\<lambda>o_bal.
        Inr \<lparr>fx_state = st, fx_headers = hs, fx_fee_recipient = bslice pay 32 52,
             fx_block_access_list = drop o_bal pay\<rparr>)))))))))"

definition open_fixture :: "bytes \<Rightarrow> fixture_input res" where
  \<comment> \<open>the head of \<open>scenario_fixture\<close>: the length word, then the input\<close>
  "open_fixture packed =
     ebind (if length (bslice packed 0 8) = 8 then Inr (from_le (bslice packed 0 8)) else Inl StructError) (\<lambda>n.
       read_fixture (bslice packed 8 (8 + n)))"

section \<open>It reads what was written\<close>

lemma mpt_var_list_eq: "mpt_var_list b = read_var_list b"
proof (cases "le32_at b 0")
  case (Inr d)
  have "slices b (offs @ [length b]) = map (\<lambda>i. bslice b ((offs @ [length b]) ! i) ((offs @ [length b]) ! (i + 1))) [0..<d div 4]"
    if "emap (\<lambda>i. le32_at b (4 * i)) [0..<d div 4] = Inr offs" for offs
    using emap_length [OF that] by (simp add: slices_def)
  then show ?thesis
    using Inr by (cases "emap (\<lambda>i. le32_at b (4 * i)) [0..<d div 4]") (simp_all add: mpt_var_list_def read_var_list_def Let_def)
qed (simp add: mpt_var_list_def read_var_list_def)

lemma open_fixture_eq: "open_fixture packed = ebind (unframe packed) read_fixture"
  by (simp add: open_fixture_def unframe_def le64_at_def)

lemma payload_tail:
  assumes "payload a = Inr p"
  shows "bslice p 32 52 = zeros 20" "\<exists>n. le32_at p 528 = Inr n \<and> drop n p = bal a"
proof -
  obtain q t where q: "length q = 7" "list_all (\<lambda>x. length x = 8) q"
    and pl: "container (payload_fixed q) [extra a, t, withdrawals a, bal a] = Inr p"
    using payload_Inr [OF assms] by blast
  have f: "fixed_len (take 17 (payload_fixed q)) = 528" "nones (take 17 (payload_fixed q)) = 3"
    using q by (auto simp: payload_fixed_def length_Suc_conv numeral_eq_Suc fixed_len_def)
  have s: "payload_fixed q = take 17 (payload_fixed q) @ None # drop 18 (payload_fixed q)"
    "payload_fixed q = [Some (zeros 32)] @ Some (zeros 20) # drop 2 (payload_fixed q)"
    by (simp_all add: payload_fixed_def)
  have c: "container (take 17 (payload_fixed q) @ None # drop 18 (payload_fixed q)) [extra a, t, withdrawals a, bal a] = Inr p"
    "container ([Some (zeros 32)] @ Some (zeros 20) # drop 2 (payload_fixed q)) [extra a, t, withdrawals a, bal a] = Inr p"
    using pl by (simp_all only: s [symmetric])
  show "bslice p 32 52 = zeros 20"
    using container_fixed [OF c(2)] by simp
  have "le32_at p 528 = Inr (part_off (payload_fixed q) [extra a, t, withdrawals a, bal a] 3)"
    using container_offset [OF c(1)] f by (simp only: s(1) [symmetric])
  then show "\<exists>n. le32_at p 528 = Inr n \<and> drop n p = bal a"
    using container_rest [OF pl, of 3] by (simp add: numeral_3_eq_3)
qed

lemma witness_lists:
  assumes "witness st co he = Inr w"
  obtains o1 o2 o3 where "emap (\<lambda>i. le32_at w (4 * i)) [0..<3] = Inr [o1, o2, o3]"
    "read_var_list (bslice w o1 o2) = Inr st" "read_var_list (drop o3 w) = Inr he"
proof -
  obtain s c h where l: "var_list st = Inr s" "var_list he = Inr h"
    and w: "container [None, None, None] [s, c, h] = Inr w"
    using assms by (auto simp: witness_def)
  let ?ps = "[None, None, None] :: bytes option list" and ?vs = "[s, c, h]"
  have "le32_at w 0 = Inr (part_off ?ps ?vs 0)" "le32_at w 4 = Inr (part_off ?ps ?vs (Suc 0))"
    "le32_at w 8 = Inr (part_off ?ps ?vs (Suc (Suc 0)))"
    using container_offset [of "[]" "[None, None]", simplified, OF w]
      container_offset [of "[None]" "[None]", simplified, OF w] container_offset [of "[None, None]" "[]", simplified, OF w]
    by simp_all
  then have "emap (\<lambda>i. le32_at w (4 * i)) [0..<3] = Inr [part_off ?ps ?vs 0, part_off ?ps ?vs (Suc 0), part_off ?ps ?vs (Suc (Suc 0))]"
    by (simp add: upt_rec)
  moreover have "bslice w (part_off ?ps ?vs 0) (part_off ?ps ?vs (Suc 0)) = s" "drop (part_off ?ps ?vs (Suc (Suc 0))) w = h"
    using container_part [OF w, of 0] container_rest [OF w, of "Suc (Suc 0)"] by simp_all
  ultimately show ?thesis using that read_var_list [OF l(1)] read_var_list [OF l(2)] by metis
qed

lemma read_fixture_input:
  assumes p: "payload a = Inr p" and w: "witness st co he = Inr w" and blob: "stateless_input (Some p) (Some w) chain = Inr blob"
  shows "read_fixture blob = Inr \<lparr>fx_state = st, fx_headers = he, fx_fee_recipient = zeros 20, fx_block_access_list = bal a\<rparr>"
proof -
  from blob obtain c n body where c: "u64 chain = Inr c" and n: "new_payload_request p [] None = Inr n"
    and body: "container [None, None, Some c] [n, w] = Inr body" and b: "blob = [21, 1] @ body"
    by (auto simp: stateless_input_def)
  have "length c = 8" using c by (simp add: u64_def length_pack_u64)
  note I = input_layout [OF body this]
  from n obtain r where r: "container [None, None, Some (zeros 32), None] [p, [], r] = Inr n"
    by (auto simp: new_payload_request_def)
  note N = npr_layout [OF r] and P = payload_tail [OF p]
  obtain o1 o2 o3 where W: "emap (\<lambda>i. le32_at w (4 * i)) [0..<3] = Inr [o1, o2, o3]"
    "read_var_list (bslice w o1 o2) = Inr st" "read_var_list (drop o3 w) = Inr he"
    by (rule witness_lists [OF w])
  obtain m where m: "le32_at p 528 = Inr m" "drop m p = bal a" using P(2) by blast
  have "drop 2 blob = body" by (simp add: b)
  then show ?thesis
    unfolding read_fixture_def Let_def by (simp only: I N W m P(1) mpt_var_list_eq ebind_simps nth_Cons_0) (simp add: W)
qed

text \<open>C29: The fixture reader is a left inverse of the input encoder: whatever the payload arguments, the
  witness nodes, codes and headers (within the size limits), the framed input that \<open>ssz-inputs.py\<close>
  writes is read back by \<open>gen_mpt_vectors.py\<close> as exactly these witness nodes and headers, the zero
  fee recipient and the block access list that was encoded; the reader's positions (32, 528 and
  the offset tables) are therefore the encoder's.\<close>

theorem fixture_reads_input:
  assumes "pl_in_range a" "chain < 2 ^ 64" "80 + pl_size a + wit_size st co he < 2 ^ 32"
  shows "\<exists>p w blob f. payload a = Inr p \<and> witness st co he = Inr w \<and> stateless_input (Some p) (Some w) chain = Inr blob \<and>
    pack blob = Inr f \<and>
    open_fixture f = Inr \<lparr>fx_state = st, fx_headers = he, fx_fee_recipient = zeros 20, fx_block_access_list = bal a\<rparr>"
proof -
  obtain p w blob f where b: "payload a = Inr p" "witness st co he = Inr w" "stateless_input (Some p) (Some w) chain = Inr blob"
    "pack blob = Inr f" "unframe f = Inr blob"
    by (rule packed_input [OF assms])
  have "open_fixture f = Inr \<lparr>fx_state = st, fx_headers = he, fx_fee_recipient = zeros 20, fx_block_access_list = bal a\<rparr>"
    unfolding open_fixture_eq b(5) ebind_simps by (rule read_fixture_input [OF b(1-3)])
  with b(1-4) show ?thesis by (intro exI [of _ p] exI [of _ w] exI [of _ blob] exI [of _ f] conjI)
qed

theorem fixture_reads_input_witness:
  "\<exists>p w blob f. payload (pl_default\<lparr>bal := [9, 8]\<rparr>) = Inr p \<and> witness [[1], [2, 3]] [] [[5]] = Inr w \<and>
    stateless_input (Some p) (Some w) 1 = Inr blob \<and> pack blob = Inr f \<and>
    open_fixture f = Inr \<lparr>fx_state = [[1], [2, 3]], fx_headers = [[5]], fx_fee_recipient = zeros 20,
      fx_block_access_list = bal (pl_default\<lparr>bal := [9, 8]\<rparr>)\<rparr>"
  by (rule fixture_reads_input) (simp_all add: pl_in_range_def pl_default_def pl_size_def wit_size_def)

end
