(* ===== verification/Eest.thy ===== *)
theory Eest
  imports Decimal "HOL-Library.List_Lexorder" "HOL-Library.Product_Lexorder"
begin

text \<open>
  The runner of the execution-spec tests, \<open>tools/eest-run.py\<close>: selecting the rows of the manifest,
  reading the output region of a guest run, classifying the run and reporting.  Running the guest
  is an argument (its exit code, step count and output file); messages of \<open>ValueError\<close> stand on
  the left of a sum.
\<close>

section \<open>Values of JSON files and text\<close>

text \<open>A JSON value as far as the tools look at it: \<open>JOther\<close> is a float, a list or an object, by its \<open>str\<close>.\<close>

datatype json = JStr string | JInt int | JBool bool | JNull | JOther string

definition debug_value :: "json \<Rightarrow> string" where
  "debug_value v = (case v of JStr s \<Rightarrow> s | JInt z \<Rightarrow> py_str z | JBool b \<Rightarrow> (if b then ''True'' else ''False'')
     | JNull \<Rightarrow> ''None'' | JOther s \<Rightarrow> s)"

text \<open>An entry of a list of records: a JSON object, or something else.\<close>

datatype entry = Obj "string \<rightharpoonup> json" | NotObj

definition get :: "(string \<rightharpoonup> json) \<Rightarrow> string \<Rightarrow> json \<Rightarrow> json" where
  \<comment> \<open>\<open>record.get(key, default)\<close>\<close>
  "get r ky d = (case r ky of None \<Rightarrow> d | Some v \<Rightarrow> v)"

definition label_of :: "entry \<Rightarrow> string option" where
  \<comment> \<open>the label, where the entry is an object with a string label\<close>
  "label_of x = (case x of NotObj \<Rightarrow> None | Obj r \<Rightarrow> (case r ''label'' of Some (JStr l) \<Rightarrow> Some l | _ \<Rightarrow> None))"

definition codes :: "string \<Rightarrow> nat list" where "codes = map of_char"

definition py_sorted :: "string list \<Rightarrow> string list" where "py_sorted = sort_key codes"

definition join :: "string \<Rightarrow> string list \<Rightarrow> string" where
  "join sep xs = (case xs of [] \<Rightarrow> [] | x # ys \<Rightarrow> x @ concat (map (\<lambda>y. sep @ y) ys))"

definition starts :: "string \<Rightarrow> string \<Rightarrow> bool" where
  "starts p s = (take (length p) s = p)"

definition contains :: "string \<Rightarrow> string \<Rightarrow> bool" where
  \<comment> \<open>\<open>p in s\<close>\<close>
  "contains p s = list_ex (\<lambda>i. starts p (drop i s)) [0..<length s + 1]"

definition space :: "char \<Rightarrow> bool" where
  "space c = ((of_char c :: nat) \<in> {9, 10, 11, 12, 13, 28, 29, 30, 31, 32, 133, 160})"

definition lstrip :: "string \<Rightarrow> string" where "lstrip = dropWhile space"
definition strip :: "string \<Rightarrow> string" where "strip s = rev (dropWhile space (rev (lstrip s)))"

text \<open>\<open>collections.Counter\<close>, in the order of first occurrence.\<close>

fun bump :: "'k \<Rightarrow> ('k \<times> nat) list \<Rightarrow> ('k \<times> nat) list" where
  "bump k [] = [(k, 1)]"
| "bump k ((k', n) # xs) = (if k = k' then (k', n + 1) # xs else (k', n) # bump k xs)"

definition counter :: "'k list \<Rightarrow> ('k \<times> nat) list" where "counter xs = fold bump xs []"

section \<open>Selecting rows\<close>

text \<open>A row of the manifest is the list of its tab-separated fields; the label is the first.\<close>

fun json_labels :: "string \<Rightarrow> string option \<Rightarrow> nat \<Rightarrow> entry list \<Rightarrow> string + string list" where
  "json_labels path fail_code number [] = Inr []"
| "json_labels path fail_code number (x # xs) =
     (case label_of x of
        None \<Rightarrow> Inl (''JSON result '' @ path @ '' entry '' @ dec_nat number @ '' has no label'')
      | Some l \<Rightarrow>
          let skip = (case (fail_code, x) of
                (Some code, Obj r) \<Rightarrow> \<not> starts ''FAIL'' (debug_value (get r ''class'' (JStr ''''))) \<or> debug_value (get r ''dbg'' (JInt (- 1))) \<noteq> code
              | _ \<Rightarrow> False)
          in case json_labels path fail_code (number + 1) xs of
               Inl m \<Rightarrow> Inl m
             | Inr ls \<Rightarrow> Inr (if skip then ls else l # ls))"

definition labels_from_json :: "string \<Rightarrow> entry list option \<Rightarrow> string option \<Rightarrow> string + string list" where
  "labels_from_json path recs fail_code = (case recs of
     None \<Rightarrow> Inl (''JSON result file '' @ path @ '' must contain a list'')
   | Some rs \<Rightarrow> json_labels path fail_code 1 rs)"

definition labels_from_file :: "string list \<Rightarrow> string list" where
  "labels_from_file lines = map strip (filter (\<lambda>l. strip l \<noteq> [] \<and> \<not> starts ''#'' (lstrip l)) lines)"

definition by_label :: "string list list \<Rightarrow> (string \<times> string list) list" where
  \<comment> \<open>\<open>by_label.setdefault(row[0], row)\<close> for every non-empty row: the first row of a label is found first\<close>
  "by_label rows = map (\<lambda>r. (hd r, r)) (filter (\<lambda>r. r \<noteq> []) rows)"

definition select_labels :: "string list list \<Rightarrow> string list \<Rightarrow> string + string list list" where
  "select_labels rows labels =
     (let missing = filter (\<lambda>l. map_of (by_label rows) l = None) labels in
      if missing \<noteq> [] then
        Inl (''labels not found in manifest: '' @ join '', '' (take 5 missing) @ (if length missing > 5 then '', ...'' else ''''))
      else Inr (map (\<lambda>l. the (map_of (by_label rows) l)) labels))"

definition select_rows :: "string \<Rightarrow> nat \<Rightarrow> nat \<Rightarrow> string list list \<Rightarrow> string list list" where
  \<comment> \<open>\<open>--filter\<close>, \<open>--skip\<close> and \<open>--limit\<close>, for rows with a label\<close>
  "select_rows flt skip limit rows =
     (let rows = (if flt \<noteq> [] then filter (\<lambda>r. contains flt (hd r) \<or> (length r > 6 \<and> contains flt (r ! 6))) rows else rows);
          rows = drop skip rows
      in if limit \<noteq> 0 then take limit rows else rows)"

section \<open>One run\<close>

definition default_jobs :: "nat option \<Rightarrow> bool \<Rightarrow> nat option \<Rightarrow> nat \<Rightarrow> nat" where
  \<comment> \<open>of \<open>os.cpu_count()\<close>, the available memory and the memory of one job, in MiB\<close>
  "default_jobs cpu_count use_zisk mem_mib job_mem =
     (let cpu_jobs = (case cpu_count of None \<Rightarrow> 1 | Some 0 \<Rightarrow> 1 | Some n \<Rightarrow> n) in
      if \<not> use_zisk then cpu_jobs
      else case mem_mib of None \<Rightarrow> cpu_jobs
           | Some m \<Rightarrow> max 1 (min cpu_jobs (max 1 (m div job_mem))))"

definition hex_digit :: "nat \<Rightarrow> char" where
  "hex_digit n = (if n < 10 then char_of (48 + n) else char_of (87 + n))"

definition hex :: "bytes \<Rightarrow> string" where
  "hex bs = concat (map (\<lambda>b. [hex_digit (unat b div 16), hex_digit (unat b mod 16)]) bs)"

record run =
  r_label :: string
  r_rc :: int
  r_steps :: "nat option"
  r_expected :: string
  r_actual :: string
  r_dbg :: json
  r_trap :: "nat option"
  r_stage :: "nat option"

definition run_case :: "string \<Rightarrow> string \<Rightarrow> int \<Rightarrow> nat option \<Rightarrow> bytes option \<Rightarrow> run" where
  \<comment> \<open>after the process has ended: its exit code, the step count of its log, the output file\<close>
  "run_case label expected_hex rc steps out = (case out of
     None \<Rightarrow> \<lparr>r_label = label, r_rc = rc, r_steps = steps, r_expected = expected_hex, r_actual = '''', r_dbg = JInt (- 1),
              r_trap = None, r_stage = None\<rparr>
   | Some raw \<Rightarrow>
       let n = length expected_hex div 2;
           d = (if length raw > n then int (unat (raw ! n)) else 0)
       in \<lparr>r_label = label, r_rc = rc, r_steps = steps, r_expected = expected_hex, r_actual = hex (take n raw),
           r_dbg = (if length raw > 70 then JStr (py_str d @ ''/'' @ py_str (int (unat (raw ! 70)))) else JInt d),
           r_trap = (if length raw > 33 \<and> raw ! 32 = 0xEE then Some (unat (raw ! 33)) else None),
           r_stage = (if length raw > 100 then Some (unat (raw ! 100)) else None)\<rparr>)"

definition classify :: "run \<Rightarrow> string \<times> string" where
  "classify r =
     (let e = r_expected r; a = r_actual r in
      if r_rc r \<noteq> 0 \<or> a = [] then (''ERROR'', '''')
      else if length e \<noteq> 86 \<or> bslice e 82 86 = ''0000'' then
        (if e = a then ''PASS(malformed)'' else ''FAIL[malformed]'', '''')
      else
        let root = bslice e 0 64 = bslice a 0 64; succ = bslice e 64 66 = bslice a 64 66; tail = bslice e 66 86 = bslice a 66 86;
            tag = join ''/'' [if root then ''root'' else ''----'', if succ then ''succ'' else ''----'', if tail then ''tail'' else ''----'']
        in if root \<and> succ \<and> tail \<and> last a \<noteq> CHR ''+'' then (''PASS(full)'', tag) else (''FAIL'', tag))"

section \<open>The report of a run\<close>

type_synonym report = "(run \<times> string \<times> string) list"

definition report_of :: "run list \<Rightarrow> report" where
  "report_of = map (\<lambda>r. (r, classify r))"

definition tallies :: "report \<Rightarrow> (string \<times> nat) list" where
  \<comment> \<open>\<open>counts\<close>, as printed\<close>
  "tallies rep = sort_key (\<lambda>(c, n). codes c) (counter (map (\<lambda>(r, c, t). c) rep))"

definition passing_steps :: "report \<Rightarrow> nat list" where
  "passing_steps rep = List.map_filter (\<lambda>(r, c, t). if starts ''PASS'' c then r_steps r else None) rep"

definition steps_summary :: "report \<Rightarrow> (nat \<times> nat \<times> nat) option" where
  \<comment> \<open>minimum, maximum and mean over the passing cases with a step count\<close>
  "steps_summary rep = (case passing_steps rep of [] \<Rightarrow> None
     | s # ss \<Rightarrow> Some (fold min ss s, fold max ss s, sum_list (s # ss) div length (s # ss)))"

definition reason :: "run \<Rightarrow> string" where
  "reason r = (case r_trap r of Some t \<Rightarrow> ''trap='' @ dec_nat t | None \<Rightarrow> debug_value (r_dbg r))"

definition failure_histogram :: "report \<Rightarrow> ((string \<times> string) \<times> nat) list" where
  "failure_histogram rep =
     sort_key (\<lambda>((g, s), n). (- int n, codes g, codes s))
       (counter (map (\<lambda>(r, c, t). (t, reason r)) (filter (\<lambda>(r, c, t). starts ''FAIL'' c) rep)))"

definition exit_code :: "report \<Rightarrow> nat" where
  "exit_code rep = (if list_all (\<lambda>(r, c, t). starts ''PASS'' c) rep then 0 else 1)"

definition json_of :: "report \<Rightarrow> entry list" where
  \<comment> \<open>the fields of the \<open>--json\<close> file that its readers use\<close>
  "json_of = map (\<lambda>(r, c, t). Obj [''label'' \<mapsto> JStr (r_label r), ''class'' \<mapsto> JStr c, ''regions'' \<mapsto> JStr t, ''dbg'' \<mapsto> r_dbg r])"

section \<open>Classification is equality\<close>

lemma hex_digit_not_plus: "n < 16 \<Longrightarrow> hex_digit n \<noteq> CHR ''+''"
proof
  assume n: "n < 16" "hex_digit n = CHR ''+''"
  then have "(of_char (hex_digit n) :: nat) = 43" by simp
  then show False using n(1) by (auto simp: hex_digit_def of_char_of split: if_splits)
qed

lemma hex_not_plus: "CHR ''+'' \<notin> set (hex bs)"
proof
  assume "CHR ''+'' \<in> set (hex bs)"
  then obtain b :: byte where "CHR ''+'' = hex_digit (unat b div 16) \<or> CHR ''+'' = hex_digit (unat b mod 16)"
    by (auto simp: hex_def)
  moreover have "unat b div 16 < 16" "unat b mod 16 < 16" using byte_less [of b] by simp_all
  ultimately show False using hex_digit_not_plus by metis
qed

lemma length_hex [simp]: "length (hex bs) = 2 * length bs"
  by (induction bs) (simp_all add: hex_def)

lemma three_slices:
  assumes "length e = 86" "length a \<le> 86"
  shows "bslice e 0 64 = bslice a 0 64 \<and> bslice e 64 66 = bslice a 64 66 \<and> bslice e 66 86 = bslice a 66 86 \<longleftrightarrow> e = a"
proof
  assume eq: "bslice e 0 64 = bslice a 0 64 \<and> bslice e 64 66 = bslice a 64 66 \<and> bslice e 66 86 = bslice a 66 86"
  have split: "bslice x 0 64 @ bslice x 64 66 @ bslice x 66 86 = take 86 x" for x :: "'a list"
    using bslice_append [of 64 66 86 x] bslice_append [of 0 64 86 x] by (simp add: bslice_def)
  have "take 86 e = take 86 a" using eq split [of e] split [of a] by metis
  then show "e = a" using assms by simp
qed simp

definition pass :: "run \<Rightarrow> bool" where
  "pass r \<longleftrightarrow> r_rc r = 0 \<and> r_actual r \<noteq> [] \<and> r_actual r = r_expected r"

lemma classes [simp]:
  "starts ''PASS'' ''ERROR'' = False" "starts ''PASS'' ''PASS(malformed)'' = True" "starts ''PASS'' ''FAIL[malformed]'' = False"
  "starts ''PASS'' ''PASS(full)'' = True" "starts ''PASS'' ''FAIL'' = False"
  by (simp_all add: starts_def)

lemma classify_malformed:
  assumes "length (r_expected r) \<noteq> 86 \<or> bslice (r_expected r) 82 86 = ''0000''"
  shows "starts ''PASS'' (fst (classify r)) \<longleftrightarrow> pass r"
proof (cases "r_rc r \<noteq> 0 \<or> r_actual r = []")
  case True
  then show ?thesis by (simp only: classify_def Let_def if_True fst_conv classes) (auto simp: pass_def)
next
  case False
  then have "classify r = (if r_expected r = r_actual r then ''PASS(malformed)'' else ''FAIL[malformed]'', '''')"
    using assms by (simp only: classify_def Let_def if_True if_False)
  then show ?thesis using False by (simp add: pass_def)
qed

lemma classify_pass:
  assumes "length (r_actual r) \<le> 86" "CHR ''+'' \<notin> set (r_actual r)"
  shows "starts ''PASS'' (fst (classify r)) \<longleftrightarrow> pass r"
proof (cases "length (r_expected r) \<noteq> 86 \<or> bslice (r_expected r) 82 86 = ''0000'' \<or> r_rc r \<noteq> 0 \<or> r_actual r = []")
  case True
  then consider "length (r_expected r) \<noteq> 86 \<or> bslice (r_expected r) 82 86 = ''0000''" | "r_rc r \<noteq> 0 \<or> r_actual r = []" by blast
  then show ?thesis
  proof cases
    case 2
    then show ?thesis by (simp only: classify_def Let_def if_True fst_conv classes) (auto simp: pass_def)
  qed (rule classify_malformed)
next
  case False
  let ?e = "r_expected r" and ?a = "r_actual r"
  have "last ?a \<noteq> CHR ''+''" using False assms(2) last_in_set by metis
  moreover have "\<not> (r_rc r \<noteq> 0 \<or> ?a = [])" "\<not> (length ?e \<noteq> 86 \<or> bslice ?e 82 86 = ''0000'')" using False by blast+
  ultimately have "fst (classify r) = (if bslice ?e 0 64 = bslice ?a 0 64 \<and> bslice ?e 64 66 = bslice ?a 64 66 \<and> bslice ?e 66 86 = bslice ?a 66 86
      then ''PASS(full)'' else ''FAIL'')"
    by (simp only: classify_def Let_def if_False if_True simp_thms if_distrib [of fst] fst_conv)
  also have "\<dots> = (if ?e = ?a then ''PASS(full)'' else ''FAIL'')"
    using three_slices [of ?e ?a] assms(1) False by simp
  finally show ?thesis using False by (simp add: pass_def)
qed

lemma run_case_actual:
  "length (r_actual (run_case l e rc st out)) \<le> 2 * (length e div 2)" "CHR ''+'' \<notin> set (r_actual (run_case l e rc st out))"
  by (simp_all add: run_case_def Let_def hex_not_plus split: option.split)

text \<open>Selecting the labels of a report again.\<close>

definition failing_with :: "string option \<Rightarrow> run \<times> string \<times> string \<Rightarrow> bool" where
  "failing_with code x \<longleftrightarrow> (case x of (r, c, t) \<Rightarrow> (case code of None \<Rightarrow> True
     | Some k \<Rightarrow> starts ''FAIL'' c \<and> debug_value (r_dbg r) = k))"

lemma json_labels_report:
  "json_labels path code number (json_of rep) = Inr (map (\<lambda>(r, c, t). r_label r) (filter (failing_with code) rep))"
proof (induction rep arbitrary: number)
  case (Cons x rep)
  obtain r c t where x: "x = (r, c, t)" by (cases x)
  have "debug_value (JStr c) = c" by (simp add: debug_value_def)
  then show ?case using Cons.IH [of "number + 1"]
    by (simp add: json_of_def x failing_with_def label_of_def get_def Let_def split: option.split)
qed (simp add: json_of_def)

lemma by_label_distinct:
  assumes "distinct (map hd rows)" "[] \<notin> set rows" "r \<in> set rows"
  shows "map_of (by_label rows) (hd r) = Some r"
proof -
  have "by_label rows = map (\<lambda>r. (hd r, r)) rows"
    using assms(2) by (metis (mono_tags, lifting) by_label_def filter_True)
  then show ?thesis using assms(1,3) by (simp add: map_of_eq_Some_iff image_iff comp_def)
qed

lemma select_labels_rows:
  assumes "distinct (map hd rows)" "[] \<notin> set rows" "set rs \<subseteq> set rows"
  shows "select_labels rows (map hd rs) = Inr rs"
proof -
  have at: "map_of (by_label rows) (hd r) = Some r" if "r \<in> set rs" for r
    using by_label_distinct [OF assms(1,2)] assms(3) that by blast
  then have "filter (\<lambda>l. map_of (by_label rows) l = None) (map hd rs) = []" by (simp add: filter_empty_conv)
  moreover have "map (\<lambda>l. the (map_of (by_label rows) l)) (map hd rs) = rs" using at by (simp add: map_idI)
  ultimately show ?thesis by (simp add: select_labels_def Let_def)
qed

lemma exit_code_0: "exit_code rep = 0 \<longleftrightarrow> (\<forall>(r, c, t) \<in> set rep. starts ''PASS'' c)"
  by (auto simp: exit_code_def list_all_iff)

text \<open>C30: Classification is equality with the expected output.  Whatever the guest run left behind (exit
  code, output file or none), the class of the run starts with \<open>PASS\<close> exactly when the process
  exited with 0, wrote an output file, and the first half-as-many bytes as the expectation has hex
  digits are the expected ones, which are not empty; comparing the three regions separately loses
  nothing, and the test for a final plus sign never fires.  A run of cases exits with 0 exactly when all of
  them pass in this sense.\<close>

theorem passes_iff_output_expected:
  "(starts ''PASS'' (fst (classify (run_case l e rc st out))) \<longleftrightarrow>
     rc = 0 \<and> e \<noteq> [] \<and> (\<exists>raw. out = Some raw \<and> hex (take (length e div 2) raw) = e)) \<and>
   (exit_code (report_of rs) = 0 \<longleftrightarrow> list_all (\<lambda>r. starts ''PASS'' (fst (classify r))) rs)"
proof -
  let ?r = "run_case l e rc st out"
  have p: "pass ?r \<longleftrightarrow> rc = 0 \<and> e \<noteq> [] \<and> (\<exists>raw. out = Some raw \<and> hex (take (length e div 2) raw) = e)"
    by (auto simp: pass_def run_case_def Let_def split: option.split)
  have "starts ''PASS'' (fst (classify ?r)) \<longleftrightarrow> rc = 0 \<and> e \<noteq> [] \<and> (\<exists>raw. out = Some raw \<and> hex (take (length e div 2) raw) = e)"
  proof (cases "length e = 86")
    case True
    then have "length (r_actual ?r) \<le> 86" using run_case_actual(1) [of l e rc st out] by simp
    then show ?thesis using classify_pass [of ?r] run_case_actual(2) p by blast
  next
    case False
    then have "r_expected ?r = e" "length e \<noteq> 86" by (simp_all add: run_case_def Let_def split: option.split)
    then show ?thesis using p classify_malformed [of ?r] by simp
  qed
  moreover have "exit_code (report_of rs) = 0 \<longleftrightarrow> list_all (\<lambda>r. starts ''PASS'' (fst (classify r))) rs"
    by (auto simp: list_all_iff exit_code_0 report_of_def case_prod_unfold)
  ultimately show ?thesis by blast
qed

definition run_row :: "(string list \<Rightarrow> int \<times> nat option \<times> bytes option) \<Rightarrow> string list \<Rightarrow> run" where
  \<comment> \<open>\<open>run_case\<close> on a row, where \<open>guest\<close> is what running the guest on it gives\<close>
  "run_row guest row = (case guest row of (rc, steps, out) \<Rightarrow> run_case (row ! 0) (row ! 2) rc steps out)"

lemma label_run_row [simp]: "r_label (run_row guest row) = row ! 0"
  by (simp add: run_row_def run_case_def Let_def split: prod.split option.split)

text \<open>Rerunning the failures of a recorded run: for a manifest with distinct labels, the labels that
  \<open>--from-json\<close> reads from the results of running it (with \<open>--fail-code\<close>, only the failures with this
  debug code) select exactly the rows whose run failed that way, in the order of the manifest; no
  label is reported missing.\<close>

theorem rerun_selects_failures:
  assumes "distinct (map hd rows)" "\<forall>row \<in> set rows. 3 \<le> length row"
  shows "\<exists>ls. labels_from_json path (Some (json_of (report_of (map (run_row guest) rows)))) code = Inr ls \<and>
    select_labels rows ls =
      Inr (filter (\<lambda>row. let r = run_row guest row in failing_with code (r, classify r)) rows)"
proof -
  let ?bad = "\<lambda>row. failing_with code (run_row guest row, classify (run_row guest row))"
  have ne: "[] \<notin> set rows" using assms(2) by fastforce
  have "labels_from_json path (Some (json_of (report_of (map (run_row guest) rows)))) code =
      Inr (map (\<lambda>row. row ! 0) (filter ?bad rows))"
    by (simp add: labels_from_json_def json_labels_report report_of_def filter_map comp_def case_prod_unfold)
  moreover have "map (\<lambda>row. row ! 0) (filter ?bad rows) = map hd (filter ?bad rows)"
    by (rule map_cong) (use ne in \<open>auto intro!: hd_conv_nth [symmetric]\<close>)
  ultimately show ?thesis
    using select_labels_rows [OF assms(1) ne, of "filter ?bad rows"] by (simp add: Let_def)
qed

theorem rerun_selects_failures_witness:
  "\<exists>ls. labels_from_json ''r.json'' (Some (json_of (report_of (map (run_row (\<lambda>row. (1, None, None)))
       [[''a'', ''a.in'', ''00''], [''b'', ''b.in'', ''01'']])))) None = Inr ls \<and>
    select_labels [[''a'', ''a.in'', ''00''], [''b'', ''b.in'', ''01'']] ls =
      Inr (filter (\<lambda>row. let r = run_row (\<lambda>row. (1, None, None)) row in failing_with None (r, classify r))
        [[''a'', ''a.in'', ''00''], [''b'', ''b.in'', ''01'']])"
  by (rule rerun_selects_failures) simp_all

end
