(* ===== verification/Baseline.thy ===== *)
theory Baseline
  imports Eest "HOL-Library.AList" "HOL-Library.Multiset"
begin

text \<open>
  The ratchet over the results of the execution-spec tests, \<open>tools/eest-baseline.py\<close>: \<open>summarize\<close>
  reduces the results of a run to labels, allowed failures and counts, \<open>update\<close> records them in the
  baseline file, \<open>check\<close> compares a later run with the recorded one.  Dictionaries are association
  lists, in the order of insertion; the file system is an argument (what
  reading a file gave), and the text of an operating system error is left out of the messages.
\<close>

section \<open>Summaries\<close>

record failure =
  f_class :: string
  f_dbg :: string
  f_regions :: string

record summary =
  s_total :: nat
  s_pass :: nat
  s_pass_full :: nat
  s_labels :: "string list"
  s_failures :: "(string \<times> failure) list"
  s_histogram :: "(string \<times> nat) list"

definition class_of :: "(string \<rightharpoonup> json) \<Rightarrow> string" where
  "class_of r = debug_value (get r ''class'' (JStr ''''))"

definition is_pass :: "(string \<rightharpoonup> json) \<Rightarrow> bool" where
  "is_pass r = starts ''PASS'' (class_of r)"

definition failure_of :: "(string \<rightharpoonup> json) \<Rightarrow> failure" where
  "failure_of r = \<lparr>f_class = class_of r, f_dbg = debug_value (get r ''dbg'' (JInt (- 1))),
     f_regions = debug_value (get r ''regions'' (JStr ''''))\<rparr>"

definition histogram_key :: "failure \<Rightarrow> string" where
  "histogram_key f = f_regions f @ '', '' @ f_dbg f"

definition add_record :: "string \<Rightarrow> (string \<rightharpoonup> json) \<Rightarrow> summary \<Rightarrow> summary" where
  \<comment> \<open>the body of the loop, after the checks\<close>
  "add_record label r s =
     (let s = s\<lparr>s_labels := s_labels s @ [label]\<rparr> in
      if is_pass r then s\<lparr>s_pass := s_pass s + 1, s_pass_full := s_pass_full s + (if class_of r = ''PASS(full)'' then 1 else 0)\<rparr>
      else s\<lparr>s_failures := AList.update label (failure_of r) (s_failures s),
             s_histogram := bump (histogram_key (failure_of r)) (s_histogram s)\<rparr>)"

fun summarize_loop :: "nat \<Rightarrow> entry list \<Rightarrow> summary \<Rightarrow> string + summary" where
  "summarize_loop number [] s = Inr s"
| "summarize_loop number (x # xs) s =
     (case (label_of x, x) of
        (Some label, Obj r) \<Rightarrow>
          if label \<in> set (s_labels s) then Inl (''runner JSON contains duplicate label '' @ label)
          else summarize_loop (number + 1) xs (add_record label r s)
      | _ \<Rightarrow> Inl (''runner JSON entry '' @ dec_nat number @ '' has no label''))"

definition empty_summary :: summary where
  "empty_summary = \<lparr>s_total = 0, s_pass = 0, s_pass_full = 0, s_labels = [], s_failures = [], s_histogram = []\<rparr>"

definition summarize :: "entry list option \<Rightarrow> string + summary" where
  "summarize results = (case results of
     None \<Rightarrow> Inl ''runner JSON must contain a list''
   | Some xs \<Rightarrow> (case summarize_loop 1 xs empty_summary of
       Inl m \<Rightarrow> Inl m
     | Inr s \<Rightarrow> Inr (s\<lparr>s_total := length (s_labels s), s_histogram := sort_key (\<lambda>(k, n). codes k) (s_histogram s)\<rparr>)))"

section \<open>The baseline file\<close>

text \<open>An allowed failure and an entry of the file, where fields may be missing.\<close>

record allowed =
  a_class :: "json option"
  a_dbg :: "json option"

record bentry =
  b_labels :: "string list option"
  b_failures :: "(string \<times> allowed) list option"

datatype bfile =
    Missing
  | Unreadable
  | Document "json option" "(string \<times> bentry) list option"
      \<comment> \<open>an object with this \<open>version\<close> and, where it is an object, this \<open>manifests\<close>\<close>
  | NotObject

definition version_1 :: "json option \<Rightarrow> bool" where
  \<comment> \<open>equal to 1 in Python\<close>
  "version_1 v \<longleftrightarrow> v = Some (JInt 1) \<or> v = Some (JBool True) \<or> v = Some (JOther ''1.0'')"

definition load_baseline :: "string \<Rightarrow> bfile \<Rightarrow> string + (string \<times> bentry) list" where
  "load_baseline path f = (case f of
     Missing \<Rightarrow> Inr []
   | Unreadable \<Rightarrow> Inl (''cannot read JSON '' @ path)
   | NotObject \<Rightarrow> Inl (''unsupported baseline format in '' @ path)
   | Document v ms \<Rightarrow>
       if \<not> version_1 v then Inl (''unsupported baseline format in '' @ path)
       else (case ms of None \<Rightarrow> Inl (''baseline '' @ path @ '' has no manifests object'') | Some d \<Rightarrow> Inr d))"

definition stored :: "summary \<Rightarrow> bentry" where
  \<comment> \<open>what a later \<open>load_baseline\<close> reads of a summary that \<open>write_baseline\<close> wrote\<close>
  "stored s = \<lparr>b_labels = Some (s_labels s),
     b_failures = Some (map (\<lambda>(l, f). (l, \<lparr>a_class = Some (JStr (f_class f)), a_dbg = Some (JStr (f_dbg f))\<rparr>)) (s_failures s))\<rparr>"

definition update :: "string \<Rightarrow> bfile \<Rightarrow> string \<Rightarrow> entry list option \<Rightarrow> string + bfile" where
  \<comment> \<open>of the path, the file there, the name of the manifest and the results\<close>
  "update path f name results = (case load_baseline path f of
     Inl m \<Rightarrow> Inl m
   | Inr d \<Rightarrow> (case summarize results of
       Inl m \<Rightarrow> Inl m
     | Inr s \<Rightarrow> Inr (Document (case f of Document v ms \<Rightarrow> v | _ \<Rightarrow> Some (JInt 1)) (Some (AList.update name (stored s) d)))))"

section \<open>Checking a run\<close>

datatype verdict = NoEntry | Failed "string list" | Passed "string list"

definition exit_of :: "verdict \<Rightarrow> nat" where
  "exit_of v = (case v of Passed improved \<Rightarrow> 0 | _ \<Rightarrow> 1)"

definition shown :: "json option \<Rightarrow> string" where
  \<comment> \<open>an f-string of \<open>expected.get(...)\<close>\<close>
  "shown v = (case v of None \<Rightarrow> ''None'' | Some x \<Rightarrow> debug_value x)"

definition same_failure :: "failure \<Rightarrow> allowed \<Rightarrow> bool" where
  "same_failure f a \<longleftrightarrow> a_class a = Some (JStr (f_class f)) \<and>
     f_dbg f = debug_value (case a_dbg a of None \<Rightarrow> JInt (- 1) | Some v \<Rightarrow> v)"

definition problems :: "string list \<Rightarrow> (string \<times> allowed) list \<Rightarrow> summary \<Rightarrow> string list" where
  "problems labels bf cur =
     (let cf = s_failures cur in
      map (\<lambda>l. ''missing baseline fixture: '' @ l) (py_sorted (filter (\<lambda>l. l \<notin> set (s_labels cur)) (remdups labels)))
      @ List.map_filter (\<lambda>l. case map_of cf l of None \<Rightarrow> None
          | Some f \<Rightarrow> Some (''regression in previously passing fixture '' @ l @ '': '' @ f_class f @ '' fail='' @ f_dbg f))
          (py_sorted (filter (\<lambda>l. l \<notin> fst ` set bf) (remdups labels)))
      @ List.map_filter (\<lambda>(l, f). case map_of bf l of
            None \<Rightarrow> if l \<in> set labels then None
              else Some (''new failure in '' @ l @ '': '' @ f_class f @ '' fail='' @ f_dbg f)
          | Some a \<Rightarrow> if same_failure f a then None
              else Some (''changed failure code in '' @ l @ '': baseline '' @ shown (a_class a) @ '' fail='' @ shown (a_dbg a) @
                     ''; current '' @ f_class f @ '' fail='' @ f_dbg f))
          (sort_key (\<lambda>(l, f). codes l) cf))"

definition check :: "string \<Rightarrow> bfile \<Rightarrow> string \<Rightarrow> entry list option \<Rightarrow> string + verdict" where
  "check path f name results = (case load_baseline path f of
     Inl m \<Rightarrow> Inl m
   | Inr d \<Rightarrow> (case map_of d name of
       None \<Rightarrow> Inr NoEntry
     | Some e \<Rightarrow> (case summarize results of
         Inl m \<Rightarrow> Inl m
       | Inr cur \<Rightarrow>
           let labels = (case b_labels e of None \<Rightarrow> [] | Some ls \<Rightarrow> ls);
               bf = (case b_failures e of None \<Rightarrow> [] | Some fs \<Rightarrow> fs);
               ps = problems labels bf cur
           in if ps \<noteq> [] then Inr (Failed ps)
              else Inr (Passed (py_sorted (filter (\<lambda>l. l \<notin> fst ` set (s_failures cur)) (remdups (map fst bf))))))))"

definition main_exit :: "string + verdict \<Rightarrow> nat" where
  "main_exit r = (case r of Inl m \<Rightarrow> 2 | Inr v \<Rightarrow> exit_of v)"

section \<open>Summaries are consistent\<close>

definition wf_summary :: "summary \<Rightarrow> bool" where
  "wf_summary s \<longleftrightarrow> distinct (s_labels s) \<and> distinct (map fst (s_failures s)) \<and> fst ` set (s_failures s) \<subseteq> set (s_labels s) \<and>
     s_pass s + length (s_failures s) = length (s_labels s) \<and> s_pass_full s \<le> s_pass s \<and>
     sum_list (map snd (s_histogram s)) = length (s_failures s)"

lemma sum_bump [simp]: "sum_list (map snd (bump k xs)) = sum_list (map snd xs) + 1"
  by (induction k xs rule: bump.induct) simp_all

lemma update_new: "k \<notin> fst ` set al \<Longrightarrow> AList.update k v al = al @ [(k, v)]"
  by (induction al) auto

lemma add_record_wf:
  assumes "wf_summary s" "label \<notin> set (s_labels s)"
  shows "wf_summary (add_record label r s)"
proof -
  have n: "label \<notin> fst ` set (s_failures s)" using assms by (auto simp: wf_summary_def)
  show ?thesis
    using assms n by (auto simp: wf_summary_def add_record_def Let_def update_new image_iff)
qed

lemma labels_add_record [simp]: "s_labels (add_record label r s) = s_labels s @ [label]"
  by (simp add: add_record_def Let_def)

lemma failures_add_record:
  assumes "wf_summary s" "label \<notin> set (s_labels s)"
  shows "s_failures (add_record label r s) = s_failures s @ (if is_pass r then [] else [(label, failure_of r)])"
proof -
  have "label \<notin> fst ` set (s_failures s)" using assms by (auto simp: wf_summary_def)
  then show ?thesis by (simp add: add_record_def Let_def update_new)
qed

text \<open>The summary, entry by entry.\<close>

fun entries_of :: "entry list \<Rightarrow> (string \<times> (string \<rightharpoonup> json)) list" where
  "entries_of [] = []"
| "entries_of (x # xs) = (case (label_of x, x) of (Some l, Obj r) \<Rightarrow> (l, r) # entries_of xs | _ \<Rightarrow> entries_of xs)"

definition failing :: "entry list \<Rightarrow> (string \<times> failure) list" where
  "failing xs = map (\<lambda>(l, r). (l, failure_of r)) (filter (\<lambda>(l, r). \<not> is_pass r) (entries_of xs))"

lemma summarize_loop_Inr:
  "summarize_loop n xs s = Inr s' \<Longrightarrow> wf_summary s \<Longrightarrow>
     wf_summary s' \<and> s_labels s' = s_labels s @ map fst (entries_of xs) \<and> s_failures s' = s_failures s @ failing xs \<and>
     length (entries_of xs) = length xs"
proof (induction n xs s rule: summarize_loop.induct)
  case (2 n x xs s)
  then obtain l r where x: "label_of x = Some l" "x = Obj r" and l: "l \<notin> set (s_labels s)"
    and rest: "summarize_loop (n + 1) xs (add_record l r s) = Inr s'"
    by (auto split: option.splits entry.splits if_splits)
  have "entries_of (x # xs) = (l, r) # entries_of xs" using x by simp
  then show ?case
    using 2(1) [OF refl x(1) x(2) l rest add_record_wf [OF 2(3) l]] failures_add_record [OF 2(3) l]
    by (simp add: failing_def)
qed (simp add: failing_def)

lemma summarize_Inr:
  assumes "summarize results = Inr s"
  obtains xs where "results = Some xs" "wf_summary s" "s_total s = length xs" "s_labels s = map fst (entries_of xs)"
    "s_failures s = failing xs" "length (entries_of xs) = length xs"
proof -
  obtain xs t where xs: "results = Some xs" and t: "summarize_loop 1 xs empty_summary = Inr t"
    and s: "s = t\<lparr>s_total := length (s_labels t), s_histogram := sort_key (\<lambda>(k, n). codes k) (s_histogram t)\<rparr>"
    using assms by (auto simp: summarize_def split: option.splits sum.splits)
  have "wf_summary empty_summary" by (simp add: wf_summary_def empty_summary_def)
  note L = summarize_loop_Inr [OF t this]
  have "mset (map snd (sort_key f h)) = mset (map snd h)" for f :: "string \<times> nat \<Rightarrow> nat list" and h
    by simp
  then have "sum_list (map snd (sort_key f h)) = sum_list (map snd h)" for f :: "string \<times> nat \<Rightarrow> nat list" and h
    by (metis sum_mset_sum_list)
  moreover have "wf_summary t" using L by blast
  ultimately have "wf_summary s" by (simp add: wf_summary_def s)
  then show ?thesis using that xs L by (simp add: s empty_summary_def)
qed

section \<open>What check accepts\<close>

definition accepted :: "string list \<Rightarrow> (string \<times> allowed) list \<Rightarrow> summary \<Rightarrow> bool" where
  "accepted labels bf cur \<longleftrightarrow> set labels \<subseteq> set (s_labels cur) \<and>
     (\<forall>(l, f) \<in> set (s_failures cur). \<exists>a. map_of bf l = Some a \<and> same_failure f a)"

lemma map_filter_empty: "List.map_filter f xs = [] \<longleftrightarrow> (\<forall>x \<in> set xs. f x = None)"
  by (auto simp: List.map_filter_def filter_empty_conv)

lemma set_py_sorted [simp]: "set (py_sorted xs) = set xs"
  by (simp add: py_sorted_def)

lemma py_sorted_Nil [simp]: "py_sorted xs = [] \<longleftrightarrow> xs = []"
  by (metis set_py_sorted set_empty)

lemma problems_empty:
  assumes "wf_summary cur"
  shows "problems labels bf cur = [] \<longleftrightarrow> accepted labels bf cur"
proof -
  let ?cf = "s_failures cur"
  have in_cf: "map_of ?cf l = Some f \<longleftrightarrow> (l, f) \<in> set ?cf" for l f
    using assms by (simp add: wf_summary_def map_of_eq_Some_iff)
  have none: "map_of ?cf l = None \<longleftrightarrow> (\<forall>f. (l, f) \<notin> set ?cf)" for l
    by (auto simp: map_of_eq_None_iff image_iff)
  have bf: "l \<notin> fst ` set bf \<longleftrightarrow> map_of bf l = None" for l
    by (simp add: map_of_eq_None_iff)
  have "problems labels bf cur = [] \<longleftrightarrow>
      (\<forall>l \<in> set labels. l \<in> set (s_labels cur)) \<and>
      (\<forall>l \<in> set labels. map_of bf l = None \<longrightarrow> map_of ?cf l = None) \<and>
      (\<forall>(l, f) \<in> set ?cf. (map_of bf l = None \<longrightarrow> l \<in> set labels) \<and> (\<forall>a. map_of bf l = Some a \<longrightarrow> same_failure f a))"
    unfolding problems_def Let_def append_is_Nil_conv map_filter_empty
    by (intro arg_cong2 [where f = conj]) (auto simp: filter_empty_conv bf split: option.splits prod.splits if_splits)
  also have "\<dots> \<longleftrightarrow> accepted labels bf cur"
    unfolding accepted_def none by (fastforce split: prod.splits)
  finally show ?thesis .
qed

lemma check_passes:
  assumes "load_baseline path f = Inr d" "map_of d name = Some e" "summarize results = Inr cur"
  shows "main_exit (check path f name results) = 0 \<longleftrightarrow>
     accepted (case b_labels e of None \<Rightarrow> [] | Some ls \<Rightarrow> ls) (case b_failures e of None \<Rightarrow> [] | Some fs \<Rightarrow> fs) cur"
proof -
  have "wf_summary cur" using assms(3) by (rule summarize_Inr)
  then show ?thesis
    by (simp only: check_def assms Let_def sum.case option.case flip: problems_empty)
      (simp add: main_exit_def exit_of_def)
qed

lemma load_update:
  assumes "load_baseline path f = Inr d" "update path f name results = Inr f'"
  obtains s where "summarize results = Inr s" "load_baseline path f' = Inr (AList.update name (stored s) d)"
proof -
  obtain s where s: "summarize results = Inr s"
    and f': "f' = Document (case f of Document v ms \<Rightarrow> v | _ \<Rightarrow> Some (JInt 1)) (Some (AList.update name (stored s) d))"
    using assms by (auto simp: update_def split: sum.splits)
  have "version_1 (case f of Document v ms \<Rightarrow> v | _ \<Rightarrow> Some (JInt 1))"
    using assms(1) by (auto simp: load_baseline_def version_1_def split: bfile.splits if_splits)
  then have "load_baseline path f' = Inr (AList.update name (stored s) d)" by (simp add: load_baseline_def f')
  with s that show ?thesis by blast
qed

definition within :: "summary \<Rightarrow> summary \<Rightarrow> bool" where
  \<comment> \<open>every recorded case is still there, and every failure is recorded with its class and code\<close>
  "within s1 s2 \<longleftrightarrow> set (s_labels s1) \<subseteq> set (s_labels s2) \<and>
     (\<forall>(l, f) \<in> set (s_failures s2). \<exists>f1. (l, f1) \<in> set (s_failures s1) \<and> f_class f1 = f_class f \<and> f_dbg f1 = f_dbg f)"

lemma within_refl: "within s s" and within_trans: "within s1 s2 \<Longrightarrow> within s2 s3 \<Longrightarrow> within s1 s3"
  by (fastforce simp: within_def)+

lemma accepted_stored:
  assumes "wf_summary s1"
  shows "accepted (s_labels s1) (map (\<lambda>(l, f). (l, \<lparr>a_class = Some (JStr (f_class f)), a_dbg = Some (JStr (f_dbg f))\<rparr>)) (s_failures s1)) s2
    \<longleftrightarrow> within s1 s2"
proof -
  have in1: "map_of (s_failures s1) l = Some f \<longleftrightarrow> (l, f) \<in> set (s_failures s1)" for l f
    using assms by (simp add: wf_summary_def map_of_eq_Some_iff)
  have same: "same_failure f \<lparr>a_class = Some (JStr c), a_dbg = Some (JStr d)\<rparr> \<longleftrightarrow> c = f_class f \<and> d = f_dbg f" for f c d
    by (auto simp: same_failure_def debug_value_def)
  have "(\<exists>a. map_of (map (\<lambda>(l, f). (l, \<lparr>a_class = Some (JStr (f_class f)), a_dbg = Some (JStr (f_dbg f))\<rparr>)) (s_failures s1)) l = Some a \<and>
      same_failure x a) \<longleftrightarrow> (\<exists>y. (l, y) \<in> set (s_failures s1) \<and> f_class y = f_class x \<and> f_dbg y = f_dbg x)" for l x
    by (auto simp: map_of_map in1 same)
  then show ?thesis by (simp add: accepted_def within_def)
qed

lemma check_after_update:
  assumes "load_baseline path f = Inr d" "update path f name r1 = Inr f1" "summarize r1 = Inr s1" "summarize r2 = Inr s2"
  shows "main_exit (check path f1 name r2) = 0 \<longleftrightarrow> within s1 s2"
proof -
  have l: "load_baseline path f1 = Inr (AList.update name (stored s1) d)"
    using load_update [OF assms(1,2)] assms(3) by auto
  have "wf_summary s1" using assms(3) by (rule summarize_Inr)
  then show ?thesis
    using check_passes [OF l _ assms(4), of name "stored s1"] accepted_stored [of s1 s2]
    by (simp add: update_conv' stored_def)
qed

section \<open>Properties\<close>

text \<open>What \<open>check\<close> accepts.  With a readable baseline that has an entry for the manifest, and
  well-formed results, the exit code is 0 exactly when every recorded label is present and every
  failing case is an allowed failure of the same label with the same class and debug code.  In
  particular a recorded case that passed cannot fail, also when another failure is cleared, and a
  new case cannot fail.\<close>

theorem check_accepts_iff:
  assumes "load_baseline path f = Inr d" "map_of d name = Some \<lparr>b_labels = Some ls, b_failures = Some bf\<rparr>"
    and "summarize results = Inr cur"
  shows "main_exit (check path f name results) = 0 \<longleftrightarrow>
    set ls \<subseteq> set (s_labels cur) \<and>
    (\<forall>(l, x) \<in> set (s_failures cur). \<exists>a. map_of bf l = Some a \<and> a_class a = Some (JStr (f_class x)) \<and>
       f_dbg x = debug_value (case a_dbg a of None \<Rightarrow> JInt (- 1) | Some v \<Rightarrow> v))"
  using check_passes [OF assms] by (simp add: accepted_def same_failure_def)

theorem check_accepts_iff_witness:
  "main_exit (check ''b'' (Document (Some (JInt 1)) (Some [(''m'', \<lparr>b_labels = Some [''x''], b_failures = Some []\<rparr>)])) ''m''
      (Some [Obj [''label'' \<mapsto> JStr ''x'', ''class'' \<mapsto> JStr ''FAIL'', ''dbg'' \<mapsto> JInt 3]])) = 0 \<longleftrightarrow>
    set [''x''] \<subseteq> set (s_labels \<lparr>s_total = 1, s_pass = 0, s_pass_full = 0, s_labels = [''x''],
      s_failures = [(''x'', \<lparr>f_class = ''FAIL'', f_dbg = ''3'', f_regions = ''''\<rparr>)], s_histogram = [('', 3'', 1)]\<rparr>) \<and>
    (\<forall>(l, x) \<in> set (s_failures \<lparr>s_total = 1, s_pass = 0, s_pass_full = 0, s_labels = [''x''],
      s_failures = [(''x'', \<lparr>f_class = ''FAIL'', f_dbg = ''3'', f_regions = ''''\<rparr>)], s_histogram = [('', 3'', 1)]\<rparr>).
       \<exists>a. map_of ([] :: (string \<times> allowed) list) l = Some a \<and> a_class a = Some (JStr (f_class x)) \<and>
       f_dbg x = debug_value (case a_dbg a of None \<Rightarrow> JInt (- 1) | Some v \<Rightarrow> v))"
proof (rule check_accepts_iff [where d = "[(''m'', \<lparr>b_labels = Some [''x''], b_failures = Some []\<rparr>)]"])
  show "summarize (Some [Obj [''label'' \<mapsto> JStr ''x'', ''class'' \<mapsto> JStr ''FAIL'', ''dbg'' \<mapsto> JInt 3]]) =
    Inr \<lparr>s_total = 1, s_pass = 0, s_pass_full = 0, s_labels = [''x''],
      s_failures = [(''x'', \<lparr>f_class = ''FAIL'', f_dbg = ''3'', f_regions = ''''\<rparr>)], s_histogram = [('', 3'', 1)]\<rparr>"
    by code_simp
qed (simp_all add: load_baseline_def version_1_def)



text \<open>A report is summarized without error when its labels are distinct.\<close>

lemma summarize_loop_ok:
  "distinct (s_labels s @ map (r_label \<circ> fst) rep) \<Longrightarrow> \<exists>s'. summarize_loop n (json_of rep) s = Inr s'"
proof (induction rep arbitrary: n s)
  case (Cons x rep)
  obtain r c t where x: "x = (r, c, t)" by (cases x)
  define m where "m = [''label'' \<mapsto> JStr (r_label r), ''class'' \<mapsto> JStr c, ''regions'' \<mapsto> JStr t, ''dbg'' \<mapsto> r_dbg r]"
  have j: "json_of (x # rep) = Obj m # json_of rep" by (simp add: json_of_def x m_def)
  have l: "label_of (Obj m) = Some (r_label r)" by (simp add: label_of_def m_def)
  have "distinct (s_labels (add_record (r_label r) m s) @ map (r_label \<circ> fst) rep)" using Cons.prems by (simp add: x comp_def)
  from Cons.IH [OF this] show ?case using Cons.prems unfolding j by (simp add: l x)
qed (simp add: json_of_def)

lemma entries_json_of:
  "map fst (entries_of (json_of rep)) = map (r_label \<circ> fst) rep \<and>
   map fst (failing (json_of rep)) = map (r_label \<circ> fst) (filter (\<lambda>(r, c, t). \<not> starts ''PASS'' c) rep)"
proof (induction rep)
  case (Cons x rep)
  obtain r c t where x: "x = (r, c, t)" by (cases x)
  have "debug_value (JStr c) = c" by (simp add: debug_value_def)
  with Cons show ?case by (simp add: json_of_def x failing_def label_of_def is_pass_def class_of_def get_def)
qed (simp add: json_of_def failing_def)

text \<open>C32: The runner and the ratchet fit together.  The results of a run of distinct cases are summarized
  without error; the summary counts all cases, the passing ones and the failures, the failure
  histogram adds up to the failures, and there is no failure exactly when the runner exits with 0.  A run
  that exits with 0 and covers the recorded labels is always accepted by \<open>check\<close>.\<close>

theorem run_summary_consistent:
  assumes "distinct (map r_label rs)"
  shows "\<exists>s. summarize (Some (json_of (report_of rs))) = Inr s \<and> s_labels s = map r_label rs \<and> s_total s = length rs \<and>
    s_pass s = length (filter (\<lambda>r. starts ''PASS'' (fst (classify r))) rs) \<and>
    length (s_failures s) = length rs - s_pass s \<and> s_pass_full s \<le> s_pass s \<and>
    sum_list (map snd (s_histogram s)) = length (s_failures s) \<and>
    (s_failures s = [] \<longleftrightarrow> exit_code (report_of rs) = 0) \<and>
    (exit_code (report_of rs) = 0 \<and> load_baseline path f = Inr d \<and> map_of d name = Some \<lparr>b_labels = Some ls, b_failures = Some bf\<rparr> \<and>
       set ls \<subseteq> r_label ` set rs \<longrightarrow> main_exit (check path f name (Some (json_of (report_of rs)))) = 0)"
proof -
  let ?rep = "report_of rs"
  have "map (r_label \<circ> fst) ?rep = map r_label rs" by (simp add: report_of_def)
  then obtain t where "summarize_loop 1 (json_of ?rep) empty_summary = Inr t"
    using summarize_loop_ok [of empty_summary ?rep 1] assms by (auto simp: empty_summary_def)
  then obtain s where s: "summarize (Some (json_of ?rep)) = Inr s" by (simp add: summarize_def)
  then have wf: "wf_summary s" and S: "s_total s = length rs" "s_labels s = map r_label rs" "s_failures s = failing (json_of ?rep)"
    using entries_json_of [of ?rep] by (auto elim!: summarize_Inr simp: json_of_def report_of_def)
  have "length (s_failures s) = length (map fst (failing (json_of ?rep)))" by (simp add: S)
  also have "\<dots> = length (filter (\<lambda>r. \<not> starts ''PASS'' (fst (classify r))) rs)"
    using entries_json_of [of ?rep] by (simp add: report_of_def filter_map comp_def case_prod_unfold)
  finally have F: "length (s_failures s) = length (filter (\<lambda>r. \<not> starts ''PASS'' (fst (classify r))) rs)" .
  have P: "s_pass s = length (filter (\<lambda>r. starts ''PASS'' (fst (classify r))) rs)"
    using wf F sum_length_filter_compl [of "\<lambda>r. starts ''PASS'' (fst (classify r))" rs] S(2) by (simp add: wf_summary_def)
  have E: "s_failures s = [] \<longleftrightarrow> exit_code ?rep = 0"
  proof -
    have "s_failures s = [] \<longleftrightarrow> length (s_failures s) = 0" by simp
    also have "\<dots> \<longleftrightarrow> exit_code ?rep = 0"
      unfolding F by (auto simp: filter_empty_conv exit_code_0 report_of_def)
    finally show ?thesis .
  qed
  have "main_exit (check path f name (Some (json_of ?rep))) = 0"
    if "exit_code ?rep = 0" "load_baseline path f = Inr d" "map_of d name = Some \<lparr>b_labels = Some ls, b_failures = Some bf\<rparr>" "set ls \<subseteq> r_label ` set rs"
    using check_passes [OF that(2,3) s] that(1,4) E S(2) by (simp add: accepted_def)
  moreover have "s_pass s + length (s_failures s) = length rs" using wf S(2) by (simp add: wf_summary_def)
  then have "length (s_failures s) = length rs - s_pass s" by arith
  ultimately show ?thesis using s S(1,2) P E wf
    by (intro exI [of _ s]) (simp add: wf_summary_def)
qed

theorem run_summary_consistent_witness:
  "\<exists>s. summarize (Some (json_of (report_of [run_case ''x'' ''00'' 0 None (Some [0])]))) = Inr s \<and> s_labels s = [''x''] \<and>
    s_pass s = length (filter (\<lambda>r. starts ''PASS'' (fst (classify r))) [run_case ''x'' ''00'' 0 None (Some [0])]) \<and>
    main_exit (check ''b'' (Document (Some (JInt 1)) (Some [(''m'', \<lparr>b_labels = Some [''x''], b_failures = Some []\<rparr>)])) ''m''
       (Some (json_of (report_of [run_case ''x'' ''00'' 0 None (Some [0])])))) = 0"
proof -
  let ?rs = "[run_case ''x'' ''00'' 0 None (Some [0])]" and ?d = "[(''m'', \<lparr>b_labels = Some [''x''], b_failures = Some []\<rparr>)]"
  have d: "distinct (map r_label ?rs)" by simp
  have l: "r_label (run_case ''x'' ''00'' 0 None (Some [0])) = ''x''" by code_simp
  have x: "exit_code (report_of ?rs) = 0" by code_simp
  have b: "load_baseline ''b'' (Document (Some (JInt 1)) (Some ?d)) = Inr ?d" by (simp add: load_baseline_def version_1_def)
  have m: "map_of ?d ''m'' = Some \<lparr>b_labels = Some [''x''], b_failures = Some []\<rparr>" by simp
  have c: "set [''x''] \<subseteq> r_label ` set ?rs" using l by simp
  obtain s where s: "summarize (Some (json_of (report_of ?rs))) = Inr s" "s_labels s = map r_label ?rs"
    "s_pass s = length (filter (\<lambda>r. starts ''PASS'' (fst (classify r))) ?rs)"
    and g: "main_exit (check ''b'' (Document (Some (JInt 1)) (Some ?d)) ''m'' (Some (json_of (report_of ?rs)))) = 0"
    using run_summary_consistent [OF d, of "''b''" "Document (Some (JInt 1)) (Some ?d)" ?d "''m''" "[''x'']" "[]"] x b m c
    by (elim exE conjE) blast
  then show ?thesis using l by (intro exI [of _ s] conjI) simp_all
qed

end
