(* ===== verification/BlsProvider.thy ===== *)
theory BlsProvider
  imports Bls12Vectors BlsPairing
begin

text \<open>
  The reference implementation of \<open>tools/blsref.py\<close> as a provider of the interface that
  \<open>tools/gen_bls12381_vectors.py\<close> uses: its curve operations, tower and pairing satisfy the bounds of
  the locale \<open>pyecc_bounds\<close> on the real 381-bit field, so that the lemmas about the generator hold
  with the package replaced by the modelled reference.  The maps to the curve, which \<open>blsref.py\<close>
  does not have, stay arguments.
\<close>

definition f12_coords :: "f12 \<Rightarrow> int list" where
  \<comment> \<open>the twelve coordinates, reduced\<close>
  "f12_coords a = (case a of (((x0, x1), (x2, x3), (x4, x5)), ((y0, y1), (y2, y3), (y4, y5))) \<Rightarrow>
     map (\<lambda>c. c mod bls_P) [x0, x1, x2, x3, x4, x5, y0, y1, y2, y3, y4, y5])"

definition f12_of_coords :: "int list \<Rightarrow> f12" where
  "f12_of_coords c = (((c ! 0, c ! 1), (c ! 2, c ! 3), (c ! 4, c ! 5)), ((c ! 6, c ! 7), (c ! 8, c ! 9), (c ! 10, c ! 11)))"

definition affine1 :: "int proj \<Rightarrow> int \<times> int" where "affine1 p = pt_normalize F1 p fp_inv"
definition affine2 :: "f2 proj \<Rightarrow> f2 \<times> f2" where "affine2 q = pt_normalize F2 q f2_inv"

definition blsref_ecc :: "(int \<Rightarrow> int proj) \<Rightarrow> (f2 \<Rightarrow> f2 proj) \<Rightarrow> f12 pyecc" where
  "blsref_ecc m1 m2 = \<lparr>field_modulus = bls_P, curve_order = nat R_ORDER,
     is_on_curve1 = (\<lambda>p. pt_is_inf F1 p \<or> g1_on_curve (fst (affine1 p)) (snd (affine1 p))),
     is_on_curve2 = (\<lambda>q. pt_is_inf F2 q \<or> g2_on_curve (fst (affine2 q)) (snd (affine2 q))),
     is_inf1 = pt_is_inf F1, is_inf2 = pt_is_inf F2, normalize1 = affine1, normalize2 = affine2,
     ec_add1 = pt_add F1, ec_add2 = pt_add F2, multiply1 = pt_mul F1, multiply2 = pt_mul F2,
     fq2_mul = f2_mul, ec_pairing = (\<lambda>q p. pairing p q), fq12_one = F12_ONE, fq12_mul = f12_mul,
     fq12_inv = f12_inv, fq12_pow = f12_pow, fq12_coeffs = f12_coords, fq12_of = f12_of_coords,
     map_to_g1 = m1, map_to_g2 = m2\<rparr>"

lemma blsref_fields [simp]:
  "field_modulus (blsref_ecc m1 m2) = bls_P" "normalize1 (blsref_ecc m1 m2) = affine1" "normalize2 (blsref_ecc m1 m2) = affine2"
  "fq2_mul (blsref_ecc m1 m2) = f2_mul" "fq12_coeffs (blsref_ecc m1 m2) = f12_coords"
  by (simp_all add: blsref_ecc_def)

lemma residue_blsref: "residue (blsref_ecc m1 m2) x \<longleftrightarrow> 0 \<le> x \<and> x < bls_P"
  by (simp add: residue_def)

lemma bls_P_pos: "0 < bls_P" and bls_P_width: "bls_P \<le> 256 ^ 48"
  by (simp_all add: bls_P_def)

lemma residue_f2_mul: "residue (blsref_ecc m1 m2) (fst (f2_mul a b)) \<and> residue (blsref_ecc m1 m2) (snd (f2_mul a b))"
  using bls_P_pos by (simp add: residue_blsref f2_mul_def)

interpretation blsref: pyecc_bounds "blsref_ecc m1 m2" 48 for m1 m2
proof unfold_locales
  let ?L = "blsref_ecc m1 m2"
  show "0 < field_modulus ?L" "field_modulus ?L \<le> 256 ^ 48"
    using bls_P_pos bls_P_width by simp_all
  show "residue ?L x \<and> residue ?L y" if "normalize1 ?L p = (x, y)" for p x y
    using that bls_P_pos
    by (auto simp: residue_blsref affine1_def pt_normalize_def F1_def Let_def split: prod.splits)
  show "residue ?L (fst u) \<and> residue ?L (snd u) \<and> residue ?L (fst v) \<and> residue ?L (snd v)" if "normalize2 ?L q = (u, v)" for q u v
  proof -
    obtain a b c where "q = (a, b, c)" by (cases q)
    then have "u = f2_mul a (f2_inv c)" "v = f2_mul b (f2_inv c)"
      using that by (simp_all add: affine2_def pt_normalize_def F2_def Let_def)
    then show ?thesis using residue_f2_mul by blast
  qed
  show "residue ?L (fst (fq2_mul ?L a b)) \<and> residue ?L (snd (fq2_mul ?L a b))" for a b
    using residue_f2_mul [of m1 m2 a b] by simp
  show "length (fq12_coeffs ?L f) = 12" for f
    by (simp add: f12_coords_def split: prod.split)
  show "residue ?L c" if "c \<in> set (fq12_coeffs ?L f)" for c f
    using that bls_P_pos by (auto simp: residue_blsref f12_coords_def split: prod.splits)
qed

text \<open>The generator on top of the reference: every record has an answer of the length of its type.\<close>

lemma blsref_answers:
  "case answer_size ty of Some n \<Rightarrow> \<exists>b. bls_eval_record (blsref_ecc m1 m2) ty payload = Inr b \<and> length b = n
    | None \<Rightarrow> bls_eval_record (blsref_ecc m1 m2) ty payload = Inl ValueError"
  by (rule blsref.answers) simp

end
