(* ===== verification/Blake2.thy ===== *)
theory Blake2
  imports Keccak
begin

text \<open>
  The BLAKE2b compression function of \<open>tools/pyref.py\<close> (\<open>blake2b_compress\<close>, \<open>blake2f\<close>), the oracle
  of precompile 9.  The code masks Python integers; the specification is the mixing function G of
  RFC 7693 on 64-bit words.  Beside the refinement, every round is shown to be invertible.
\<close>

section \<open>The code\<close>

definition B2_IV :: "int list" where
  "B2_IV = [0x6A09E667F3BCC908, 0xBB67AE8584CAA73B, 0x3C6EF372FE94F82B, 0xA54FF53A5F1D36F1,
            0x510E527FADE682D1, 0x9B05688C2B3E6C1F, 0x1F83D9ABFB41BD6B, 0x5BE0CD19137E2179]"

definition B2_SIGMA :: "nat list list" where
  "B2_SIGMA = [
    [0, 1, 2, 3, 4, 5, 6, 7, 8, 9, 10, 11, 12, 13, 14, 15],
    [14, 10, 4, 8, 9, 15, 13, 6, 1, 12, 0, 2, 11, 7, 5, 3],
    [11, 8, 12, 0, 5, 2, 15, 13, 10, 14, 3, 6, 7, 1, 9, 4],
    [7, 9, 3, 1, 13, 12, 11, 14, 2, 6, 5, 10, 4, 0, 15, 8],
    [9, 0, 5, 7, 2, 4, 10, 15, 14, 1, 11, 12, 6, 8, 3, 13],
    [2, 12, 6, 10, 0, 11, 8, 3, 4, 13, 7, 5, 15, 14, 1, 9],
    [12, 5, 1, 15, 14, 13, 4, 10, 0, 7, 6, 3, 9, 2, 8, 11],
    [13, 11, 7, 14, 12, 1, 3, 9, 5, 0, 15, 4, 8, 6, 2, 10],
    [6, 15, 14, 9, 11, 3, 0, 8, 12, 2, 13, 7, 1, 4, 10, 5],
    [10, 2, 8, 4, 7, 6, 1, 5, 15, 11, 9, 14, 3, 12, 13, 0]]"

definition B2_MIX :: "(nat \<times> nat \<times> nat \<times> nat) list" where
  "B2_MIX = [(0, 4, 8, 12), (1, 5, 9, 13), (2, 6, 10, 14), (3, 7, 11, 15),
             (0, 5, 10, 15), (1, 6, 11, 12), (2, 7, 8, 13), (3, 4, 9, 14)]"

definition rotr64 :: "int \<Rightarrow> nat \<Rightarrow> int" where
  "rotr64 x n = (drop_bit n x OR push_bit (64 - n) x) AND mask64"

text \<open>The assignments of the inner loop: an addition and a rotated exclusive or, eight in a row.\<close>

definition mix_add :: "nat \<Rightarrow> nat \<Rightarrow> int \<Rightarrow> int list \<Rightarrow> int list" where
  "mix_add a b x v = v[a := (v ! a + v ! b + x) AND mask64]"

definition mix_rot :: "nat \<Rightarrow> nat \<Rightarrow> nat \<Rightarrow> int list \<Rightarrow> int list" where
  "mix_rot a b r v = v[a := rotr64 (v ! a XOR v ! b) r]"

definition mix :: "int list \<Rightarrow> nat \<times> nat \<times> nat \<times> nat \<Rightarrow> int \<Rightarrow> int \<Rightarrow> int list" where
  \<comment> \<open>\<open>v[c] = (v[c] + v[d]) & MASK64\<close> is the addition with no message word\<close>
  "mix v = (\<lambda>(a, b, c, d) x y.
     let v = mix_add a b x v; v = mix_rot d a 32 v; v = mix_add c d 0 v; v = mix_rot b c 24 v;
         v = mix_add a b y v; v = mix_rot d a 16 v; v = mix_add c d 0 v; v = mix_rot b c 63 v in v)"

definition b2_round :: "int list \<Rightarrow> int list \<Rightarrow> nat \<Rightarrow> int list" where
  "b2_round m v r =
     (let s = B2_SIGMA ! (r mod 10) in
      foldl (\<lambda>v (i, q). mix v q (m ! (s ! (2 * i))) (m ! (s ! (2 * i + 1)))) v (enumerate 0 B2_MIX))"

definition b2_init :: "int list \<Rightarrow> int \<Rightarrow> int \<Rightarrow> bool \<Rightarrow> int list" where
  "b2_init h t0 t1 f =
     (let v = h @ B2_IV; v = v[12 := v ! 12 XOR t0]; v = v[13 := v ! 13 XOR t1] in
      if f then v[14 := v ! 14 XOR mask64] else v)"

definition blake2b_compress :: "nat \<Rightarrow> int list \<Rightarrow> int list \<Rightarrow> int \<Rightarrow> int \<Rightarrow> bool \<Rightarrow> bytes res" where
  "blake2b_compress rounds h m t0 t1 f =
     (let v = foldl (b2_round m) (b2_init h t0 t1 f) [0..<rounds] in
      ebind (emap (\<lambda>i. int_to_le 8 (h ! i XOR v ! i XOR v ! (i + 8))) [0..<8]) (\<lambda>ls. Inr (concat ls)))"

definition blake2f :: "bytes \<Rightarrow> bytes res" where
  "blake2f data =
     (let le = (\<lambda>off. int (from_le (bslice data off (off + 8))));
          rounds = from_be (bslice data 0 4);
          h = map (\<lambda>i. le (4 + 8 * i)) [0..<8];
          m = map (\<lambda>i. le (68 + 8 * i)) [0..<16] in
      ebind (index_at data 212) (\<lambda>f. blake2b_compress rounds h m (le 196) (le 204) (f \<noteq> 0)))"

section \<open>The specification\<close>

definition add_step :: "nat \<Rightarrow> nat \<Rightarrow> lane \<Rightarrow> lane list \<Rightarrow> lane list" where
  "add_step a b x v = v[a := v ! a + v ! b + x]"

definition rot_step :: "nat \<Rightarrow> nat \<Rightarrow> nat \<Rightarrow> lane list \<Rightarrow> lane list" where
  "rot_step a b r v = v[a := word_rotr r (v ! a XOR v ! b)]"

definition G :: "lane list \<Rightarrow> nat \<times> nat \<times> nat \<times> nat \<Rightarrow> lane \<Rightarrow> lane \<Rightarrow> lane list" where
  "G v = (\<lambda>(a, b, c, d) x y.
     (rot_step b c 63 \<circ> add_step c d 0 \<circ> rot_step d a 16 \<circ> add_step a b y \<circ>
      rot_step b c 24 \<circ> add_step c d 0 \<circ> rot_step d a 32 \<circ> add_step a b x) v)"

text \<open>Undoing the steps, in reverse order.\<close>

definition add_undo :: "nat \<Rightarrow> nat \<Rightarrow> lane \<Rightarrow> lane list \<Rightarrow> lane list" where
  "add_undo a b x v = v[a := v ! a - v ! b - x]"

definition rot_undo :: "nat \<Rightarrow> nat \<Rightarrow> nat \<Rightarrow> lane list \<Rightarrow> lane list" where
  "rot_undo a b r v = v[a := word_rotl r (v ! a) XOR v ! b]"

definition G_inv :: "lane list \<Rightarrow> nat \<times> nat \<times> nat \<times> nat \<Rightarrow> lane \<Rightarrow> lane \<Rightarrow> lane list" where
  "G_inv v = (\<lambda>(a, b, c, d) x y.
     (add_undo a b x \<circ> rot_undo d a 32 \<circ> add_undo c d 0 \<circ> rot_undo b c 24 \<circ>
      add_undo a b y \<circ> rot_undo d a 16 \<circ> add_undo c d 0 \<circ> rot_undo b c 63) v)"

definition spec_b2_round :: "lane list \<Rightarrow> lane list \<Rightarrow> nat \<Rightarrow> lane list" where
  "spec_b2_round m v r =
     (let s = B2_SIGMA ! (r mod 10) in
      foldl (\<lambda>v (i, q). G v q (m ! (s ! (2 * i))) (m ! (s ! (2 * i + 1)))) v (enumerate 0 B2_MIX))"

definition spec_b2_init :: "lane list \<Rightarrow> lane \<Rightarrow> lane \<Rightarrow> bool \<Rightarrow> lane list" where
  "spec_b2_init h t0 t1 f =
     h @ map word_of_int (take 4 B2_IV) @
     [word_of_int (B2_IV ! 4) XOR t0, word_of_int (B2_IV ! 5) XOR t1,
      if f then NOT (word_of_int (B2_IV ! 6)) else word_of_int (B2_IV ! 6), word_of_int (B2_IV ! 7)]"

definition spec_compress :: "nat \<Rightarrow> lane list \<Rightarrow> lane list \<Rightarrow> lane \<Rightarrow> lane \<Rightarrow> bool \<Rightarrow> bytes" where
  "spec_compress rounds h m t0 t1 f =
     (let v = foldl (spec_b2_round m) (spec_b2_init h t0 t1 f) [0..<rounds] in
      concat (map (\<lambda>i. le_fix 8 (unat (h ! i XOR v ! i XOR v ! (i + 8)))) [0..<8]))"

section \<open>Refinement\<close>

lemma and_mask64: "x AND mask64 = uint (word_of_int x :: lane)"
  by (simp add: mask64_mask uint_word_of_int take_bit_eq_mod flip: take_bit_eq_mask)

lemma rotr64_uint:
  assumes "0 < r" "r < 64"
  shows "rotr64 (uint (w::lane)) r = uint (word_rotr r w)"
proof -
  have "bit (rotr64 (uint w) r) n = bit (uint (word_rotr r w)) n" for n
  proof (cases "n < 64")
    case True
    have "(n + r) mod 64 = (if n + r < 64 then n + r else n - (64 - r))"
      using assms True by (auto simp: mod_if)
    with True assms show ?thesis
      by (auto simp: rotr64_def mask64_mask bit_simps add.commute dest: bit_imp_le_length)
  qed (simp add: rotr64_def mask64_mask bit_simps)
  then show ?thesis by (simp add: bit_eq_iff)
qed

definition places :: "nat \<times> nat \<times> nat \<times> nat \<Rightarrow> nat \<Rightarrow> bool" where
  "places = (\<lambda>(a, b, c, d) n. distinct [a, b, c, d] \<and> a < n \<and> b < n \<and> c < n \<and> d < n)"

lemma length_steps [simp]:
  "length (add_step a b x v) = length v" "length (rot_step a b r v) = length v"
  by (simp_all add: add_step_def rot_step_def)

lemma steps_refine:
  "a < length v \<Longrightarrow> b < length v \<Longrightarrow> mix_add a b (uint x) (map uint v) = map uint (add_step a b x v)"
  "a < length v \<Longrightarrow> b < length v \<Longrightarrow> 0 < r \<Longrightarrow> r < 64 \<Longrightarrow> mix_rot a b r (map uint v) = map uint (rot_step a b r v)"
  by (simp_all add: mix_add_def add_step_def and_mask64 map_update mix_rot_def rot_step_def rotr64_uint
    flip: uint_xor_lane)

lemma mix_refines:
  assumes "places q (length v)"
  shows "mix (map uint v) q (uint x) (uint y) = map uint (G v q x y)"
proof -
  obtain a b c d where q: "q = (a, b, c, d)" by (cases q)
  have zero: "mix_add c d 0 (map uint w) = map uint (add_step c d 0 w)" if "c < length w" "d < length w" for w
    using steps_refine(1) [OF that, of 0] by simp
  from assms show ?thesis
    by (simp add: q places_def mix_def G_def Let_def steps_refine zero)
qed

lemma length_G [simp]: "length (G v q x y) = length v"
  by (cases q) (simp add: G_def)

lemma undo_steps:
  "a \<noteq> b \<Longrightarrow> a < length v \<Longrightarrow> b < length v \<Longrightarrow> add_undo a b x (add_step a b x v) = v"
  "a \<noteq> b \<Longrightarrow> a < length v \<Longrightarrow> b < length v \<Longrightarrow> rot_undo a b r (rot_step a b r v) = v"
  by (simp_all add: add_undo_def add_step_def rot_undo_def rot_step_def xor.assoc)

lemma G_inv: "places q (length v) \<Longrightarrow> G_inv (G v q x y) q x y = v"
  by (cases q) (simp add: places_def G_def G_inv_def undo_steps)

lemma mix_places: "(i, q) \<in> set (enumerate 0 B2_MIX) \<Longrightarrow> places q 16 \<and> i < 8"
proof -
  have "\<forall>(i, q)\<in>set (enumerate 0 B2_MIX). places q 16 \<and> i < 8" by (simp add: B2_MIX_def places_def)
  then show "(i, q) \<in> set (enumerate 0 B2_MIX) \<Longrightarrow> places q 16 \<and> i < 8" by auto
qed

lemma sigma_less: "k < 16 \<Longrightarrow> B2_SIGMA ! (r mod 10) ! k < 16"
proof -
  have "\<forall>j\<in>set [0..<10]. \<forall>k\<in>set [0..<16]. B2_SIGMA ! j ! k < 16" by code_simp
  then show "k < 16 \<Longrightarrow> B2_SIGMA ! (r mod 10) ! k < 16" by simp
qed

lemma length_spec_b2_round [simp]: "length (spec_b2_round m v r) = length v"
proof -
  have "length (foldl (\<lambda>v (i, q). G v q (f i) (g i)) v ps) = length v" for f g ps
    by (induction ps arbitrary: v) auto
  then show ?thesis by (simp add: spec_b2_round_def Let_def)
qed

lemma round_refines:
  assumes "length v = 16" "length m = 16"
  shows "b2_round (map uint m) (map uint v) r = map uint (spec_b2_round m v r)"
proof -
  let ?s = "B2_SIGMA ! (r mod 10)"
  have "foldl (\<lambda>v (i, q). mix v q (map uint m ! (?s ! (2 * i))) (map uint m ! (?s ! (2 * i + 1)))) (map uint v) ps =
      map uint (foldl (\<lambda>v (i, q). G v q (m ! (?s ! (2 * i))) (m ! (?s ! (2 * i + 1)))) v ps)"
    if "set ps \<subseteq> set (enumerate 0 B2_MIX)" for ps
    using that assms(1)
  proof (induction ps arbitrary: v)
    case (Cons p ps)
    obtain i q where p: "p = (i, q)" by (cases p)
    with Cons.prems mix_places [of i q] have "places q (length v)" "2 * i < 16" "2 * i + 1 < 16" by auto
    with Cons p sigma_less [of "2 * i" r] sigma_less [of "2 * i + 1" r] assms(2) show ?case
      by (simp add: mix_refines)
  qed simp
  from this [OF subset_refl] show ?thesis by (simp only: b2_round_def spec_b2_round_def Let_def)
qed

lemma rounds_refine:
  assumes "length v = 16" "length m = 16"
  shows "foldl (b2_round (map uint m)) (map uint v) rs = map uint (foldl (spec_b2_round m) v rs) \<and>
    length (foldl (spec_b2_round m) v rs) = 16"
  using assms(1) by (induction rs arbitrary: v) (simp_all add: round_refines assms(2))

lemma init_refines:
  assumes "length h = 8"
  shows "b2_init (map uint h) (uint t0) (uint t1) f = map uint (spec_b2_init h t0 t1 f)"
proof -
  from assms obtain a b c d e g i j where h: "h = [a, b, c, d, e, g, i, j]"
    by (auto simp: length_Suc_conv numeral_eq_Suc)
  have nw: "uint (NOT w) = uint w XOR mask64" for w :: lane
    by (simp add: bit_eq_iff bit_simps mask64_mask) (auto dest: bit_imp_le_length)
  show ?thesis
    by (simp add: h b2_init_def spec_b2_init_def B2_IV_def Let_def uint_xor_lane nw del: word_of_int_numeral)
      (simp add: uint_word_of_int mask64_mask mask_eq_exp_minus_1)
qed

lemma compress_refines:
  assumes "length h = 8" "length m = 16"
  shows "blake2b_compress rounds (map uint h) (map uint m) (uint t0) (uint t1) f = Inr (spec_compress rounds h m t0 t1 f)"
proof -
  let ?v = "foldl (spec_b2_round m) (spec_b2_init h t0 t1 f) [0..<rounds]"
  have "length (spec_b2_init h t0 t1 f) = 16" using assms(1) by (simp add: spec_b2_init_def B2_IV_def)
  from rounds_refine [OF this assms(2)]
  have v: "foldl (b2_round (map uint m)) (b2_init (map uint h) (uint t0) (uint t1) f) [0..<rounds] = map uint ?v"
    "length ?v = 16"
    by (simp_all add: init_refines [OF assms(1)])
  have "emap (\<lambda>i. int_to_le 8 (map uint h ! i XOR map uint ?v ! i XOR map uint ?v ! (i + 8))) [0..<8] =
      Inr (map (\<lambda>i. le_fix 8 (unat (h ! i XOR ?v ! i XOR ?v ! (i + 8)))) [0..<8])"
    by (rule emap_Inr) (use assms v(2) in \<open>simp add: lane_bytes flip: uint_xor_lane\<close>)
  then show ?thesis unfolding blake2b_compress_def spec_compress_def v(1) Let_def by simp
qed

lemma length_spec_compress: "length (spec_compress rounds h m t0 t1 f) = 64"
  by (simp add: spec_compress_def Let_def length_concat comp_def sum_list_triv)

text \<open>Every round is a permutation of the 16-word state.\<close>

lemma spec_round_inj:
  assumes "length v = 16" "length w = 16" "spec_b2_round m v r = spec_b2_round m w r"
  shows "v = w"
proof -
  have "v = w"
    if "set ps \<subseteq> set (enumerate 0 B2_MIX)" "foldl (\<lambda>v (i, q). G v q (f i) (g i)) v ps = foldl (\<lambda>v (i, q). G v q (f i) (g i)) w ps"
      "length v = 16" "length w = 16"
    for ps f g v w
    using that
  proof (induction ps arbitrary: v w)
    case (Cons p ps)
    obtain i q where p: "p = (i, q)" by (cases p)
    have "G v q (f i) (g i) = G w q (f i) (g i)" by (rule Cons.IH) (use Cons.prems p in simp_all)
    moreover have "places q 16" using mix_places [of i q] Cons.prems(1) p by simp
    ultimately show ?case using G_inv Cons.prems(3,4) by metis
  qed simp
  from this [OF subset_refl _ assms(1,2)] assms(3) show ?thesis by (simp add: spec_b2_round_def Let_def)
qed

lemma le_words: "int (from_le (bslice data off (off + 8))) = uint (word_of_nat (from_le (bslice data off (off + 8))) :: lane)"
  by (simp add: from_le_lane)

lemma blake2f_total:
  assumes "212 < length data"
  shows "\<exists>out. blake2f data = Inr out \<and> length out = 64"
proof -
  define h where "h = map (\<lambda>i. word_of_nat (from_le (bslice data (4 + 8 * i) (4 + 8 * i + 8))) :: lane) [0..<8]"
  define m where "m = map (\<lambda>i. word_of_nat (from_le (bslice data (68 + 8 * i) (68 + 8 * i + 8))) :: lane) [0..<16]"
  have "map (\<lambda>i. int (from_le (bslice data (4 + 8 * i) (4 + 8 * i + 8)))) [0..<8] = map uint h"
    "map (\<lambda>i. int (from_le (bslice data (68 + 8 * i) (68 + 8 * i + 8)))) [0..<16] = map uint m"
    by (simp_all only: h_def m_def map_map comp_def from_le_lane)
  moreover have "length h = 8" "length m = 16" by (simp_all add: h_def m_def)
  ultimately show ?thesis
    using assms unfolding blake2f_def Let_def le_words
    by (simp add: index_at_def compress_refines length_spec_compress)
qed

section \<open>Properties\<close>

text \<open>C11: The compression function is RFC 7693's: on integers that are unsigned 64-bit words it never raises and
  returns the 64 bytes of the mixing on words, for any number of rounds.\<close>

theorem blake2b_compress_refines:
  assumes "length h = 8" and "length m = 16"
  shows "blake2b_compress rounds (map uint h) (map uint m) (uint t0) (uint t1) f = Inr (spec_compress rounds h m t0 t1 f) \<and>
    length (spec_compress rounds h m t0 t1 f) = 64"
  using compress_refines [OF assms] length_spec_compress by simp

theorem blake2b_compress_refines_witness:
  "\<exists>out. blake2b_compress 12 (map uint (replicate 8 (0::lane))) (map uint (replicate 16 (0::lane))) (uint (0::lane))
     (uint (0::lane)) True = Inr out \<and> length out = 64"
  using blake2b_compress_refines [of "replicate 8 0" "replicate 16 0" 12 0 0 True] by simp

text \<open>Each round is a permutation: for any message words, two states that a round maps to the same state are equal.\<close>

theorem blake2_round_injective:
  fixes v w m :: "lane list"
  assumes "length v = 16" and "length w = 16" and "length m = 16"
    and "b2_round (map uint m) (map uint v) r = b2_round (map uint m) (map uint w) r"
  shows "v = w"
proof (rule spec_round_inj [OF assms(1,2)])
  have "map uint (spec_b2_round m v r) = map uint (spec_b2_round m w r)"
    using assms by (simp only: round_refines)
  moreover have "inj (uint :: lane \<Rightarrow> int)" by (simp add: inj_def flip: word_uint_eq_iff)
  ultimately show "spec_b2_round m v r = spec_b2_round m w r" by (simp only: inj_map_eq_map)
qed

theorem blake2_round_injective_witness:
  "b2_round (map uint (replicate 16 (0::lane))) (map uint (replicate 16 (1::lane))) 0 \<noteq>
   b2_round (map uint (replicate 16 (0::lane))) (map uint (replicate 16 (2::lane))) 0"
  using blake2_round_injective [of "replicate 16 1" "replicate 16 2" "replicate 16 0" 0] by auto

text \<open>The precompile body returns 64 bytes for every input that has the 213 bytes the caller checks for, and
  raises only for a shorter one.\<close>

theorem blake2f_returns:
  "(\<exists>out. blake2f data = Inr out \<and> length out = 64) \<longleftrightarrow> 212 < length data"
  using blake2f_total [of data] by (auto simp: blake2f_def index_at_def)

end
