(* ===== verification/Precompiles.thy ===== *)
theory Precompiles
  imports Blake2 Secp P256
begin

text \<open>
  The precompile wrapper tests: the records of \<open>tools/gen_precompile_vectors.py\<close>, the oracle
  \<open>guest/test/exp_precompiles.py\<close> that prices and evaluates each of them, and the records of
  \<open>tools/gen_pre_vectors.py\<close> with their oracles \<open>exp_modexp.py\<close> and \<open>exp_blake2f.py\<close>.  The digests of
  \<open>hashlib\<close> (SHA-256, RIPEMD-160) are arguments.
\<close>

section \<open>Records\<close>

definition pc_record :: "nat \<Rightarrow> nat \<Rightarrow> bytes \<Rightarrow> bytes res" where
  \<comment> \<open>\<open>struct.pack("<BQI", idx, gas, len(data)) + data\<close>\<close>
  "pc_record idx gas data =
     ebind (if idx < 256 then Inr [word_of_nat idx] else Inl StructError) (\<lambda>i.
     ebind (pack_u64 gas) (\<lambda>g. ebind (pack_u32 (length data)) (\<lambda>n. Inr (i @ g @ n @ data))))"

function iter_records :: "bytes \<Rightarrow> nat \<Rightarrow> bytes list" where
  \<comment> \<open>from the offset \<open>off\<close> on\<close>
  "iter_records blob off =
     (if off + 13 \<le> length blob then
        let n = from_le (bslice blob (off + 9) (off + 13)); stop = off + 13 + n in
        if stop > length blob then [] else bslice blob off stop # iter_records blob stop
      else [])"
  by pat_completeness auto
termination iter_records by (relation "measure (\<lambda>(blob, off). length blob - off)") auto

declare iter_records.simps [simp del]

definition ljust :: "bytes \<Rightarrow> nat \<Rightarrow> bytes" where
  \<comment> \<open>\<open>b.ljust(n, b"\0")\<close>\<close>
  "ljust b n = b @ zeros (n - length b)"

definition modexp_data :: "bytes \<Rightarrow> bytes \<Rightarrow> bytes \<Rightarrow> bytes res" where
  "modexp_data b e m =
     ebind (emap (to_be 32) [length b, length e, length m]) (\<lambda>hs. Inr (concat hs @ b @ e @ m))"

definition modexp_header :: "nat \<Rightarrow> nat \<Rightarrow> nat \<Rightarrow> bytes res" where
  "modexp_header blen elen mlen = ebind (emap (to_be 32) [blen, elen, mlen]) (\<lambda>hs. Inr (concat hs))"

definition p256_data :: "bytes \<times> nat \<times> nat \<times> nat \<times> nat \<times> bool \<Rightarrow> bytes res" where
  "p256_data cs = (case cs of (h, r, s, qx, qy, want) \<Rightarrow> ebind (emap (to_be 32) [r, s, qx, qy]) (\<lambda>xs. Inr (h @ concat xs)))"

definition KZG_INFINITY :: bytes where "KZG_INFINITY = 0xc0 # zeros 47"

definition KZG_BLS_MODULUS :: bytes where
  "KZG_BLS_MODULUS = be_fix 32 0x73eda753299d7d483339d80809a1d80553bda402fffe5bfeffffffff00000001"

definition kzg_versioned_hash :: "(bytes \<Rightarrow> bytes) \<Rightarrow> bytes \<Rightarrow> bytes" where
  "kzg_versioned_hash sha c = 1 # drop 1 (sha c)"

definition kzg_data :: "(bytes \<Rightarrow> bytes) \<Rightarrow> bytes \<Rightarrow> bytes \<Rightarrow> bytes \<Rightarrow> bytes \<Rightarrow> bytes" where
  "kzg_data sha z y c pf = kzg_versioned_hash sha c @ z @ y @ c @ pf"

definition kzg_default :: "(bytes \<Rightarrow> bytes) \<Rightarrow> bytes" where
  \<comment> \<open>\<open>kzg_data()\<close>\<close>
  "kzg_default sha = kzg_data sha (zeros 31 @ [2]) (zeros 32) KZG_INFINITY KZG_INFINITY"

section \<open>Prices and results\<close>

definition E_OUT_OF_GAS :: nat where "E_OUT_OF_GAS = 4"
definition E_INVALID_PARAMETER :: nat where "E_INVALID_PARAMETER = 10"
definition E_KZG_PROOF :: nat where "E_KZG_PROOF = 13"

definition read_padded :: "bytes \<Rightarrow> nat \<Rightarrow> nat \<Rightarrow> bytes" where
  "read_padded data off n = ljust (bslice data off (off + n)) n"

definition modexp_cost :: "nat \<Rightarrow> nat \<Rightarrow> nat \<Rightarrow> nat \<Rightarrow> nat" where
  "modexp_cost blen mlen elen hw =
     (let maxlen = max blen mlen;
          words = (maxlen + 7) div 8;
          complexity = (if maxlen \<le> 32 then 16 else 2 * words * words);
          hbits = bit_length hw - 1;
          count = (if elen \<le> 32 then hbits else 16 * (elen - 32) + hbits)
      in max 500 (complexity * max count 1))"

definition modexp_result :: "nat \<Rightarrow> nat \<Rightarrow> nat \<Rightarrow> nat \<Rightarrow> bytes res" where
  \<comment> \<open>\<open>(pow(b, e, m) if m else 0).to_bytes(n, "big")\<close>\<close>
  "modexp_result b e m n = to_be n (if m \<noteq> 0 then nat (powmod (int b) e (int m)) else 0)"

definition run_modexp :: "nat \<Rightarrow> bytes \<Rightarrow> (nat \<times> nat \<times> bytes) res" where
  "run_modexp gas data =
     (let hdr = ljust (bslice data 0 96) 96;
          blen = from_be (bslice hdr 0 32); elen = from_be (bslice hdr 32 64); mlen = from_be (bslice hdr 64 96)
      in if blen > 1024 \<or> elen > 1024 \<or> mlen > 1024 then Inr (E_OUT_OF_GAS, 0, [])
         else
           let exp_start = 96 + blen;
               hw = from_be (read_padded data exp_start (min 32 elen));
               cost = modexp_cost blen mlen elen hw
           in if gas < cost then Inr (E_OUT_OF_GAS, 0, [])
              else
                let base = from_be (read_padded data 96 blen);
                    exponent = from_be (read_padded data exp_start elen);
                    modulus = from_be (read_padded data (exp_start + elen) mlen)
                in ebind (modexp_result base exponent modulus mlen) (\<lambda>result. Inr (0, cost, result)))"

definition words32 :: "nat \<Rightarrow> nat" where
  \<comment> \<open>\<open>(n + 31) // 32\<close>\<close>
  "words32 n = (n + 31) div 32"

definition charged :: "nat \<Rightarrow> nat \<Rightarrow> bytes \<Rightarrow> nat \<times> nat \<times> bytes" where
  \<comment> \<open>\<open>(E_OUT_OF_GAS, 0, b"") if gas < cost else (0, cost, out)\<close>\<close>
  "charged gas cost out = (if gas < cost then (E_OUT_OF_GAS, 0, []) else (0, cost, out))"

definition run_one :: "(bytes \<Rightarrow> bytes) \<Rightarrow> (bytes \<Rightarrow> bytes) \<Rightarrow> nat \<Rightarrow> nat \<Rightarrow> bytes \<Rightarrow> (nat \<times> nat \<times> bytes) res" where
  "run_one sha rip idx gas data =
     (if idx = 4 then Inr (charged gas (15 + 3 * words32 (length data)) data)
      else if idx = 2 then Inr (charged gas (60 + 12 * words32 (length data)) (sha data))
      else if idx = 3 then Inr (charged gas (600 + 120 * words32 (length data)) (zeros 12 @ rip data))
      else if idx = 1 then
        let cost = 3000 in
        if gas < cost then Inr (E_OUT_OF_GAS, 0, [])
        else
          let padded = ljust (bslice data 0 128) 128;
              h = from_be (bslice padded 0 32); v = from_be (bslice padded 32 64);
              r = from_be (bslice padded 64 96); s = from_be (bslice padded 96 128)
          in ebind (ecrecover_address secp256k1 (int h) v (int r) (int s)) (\<lambda>addr.
               Inr (0, cost, case addr of Some a \<Rightarrow> if a \<noteq> [] then zeros 12 @ a else [] | None \<Rightarrow> []))
      else if idx = 9 then
        if length data \<noteq> 213 then Inr (E_INVALID_PARAMETER, 0, [])
        else
          let rounds = from_be (bslice data 0 4) in
          if gas < rounds then Inr (E_OUT_OF_GAS, 0, [])
          else if unat (data ! 212) > 1 then Inr (E_INVALID_PARAMETER, rounds, [])
          else ebind (blake2f data) (\<lambda>out. Inr (0, rounds, out))
      else if idx = 5 then run_modexp gas data
      else if idx = 18 then
        let cost = 6900 in
        if gas < cost then Inr (E_OUT_OF_GAS, 0, [])
        else if length data \<noteq> 160 then Inr (0, cost, [])
        else
          let h = bslice data 0 32;
              w = (\<lambda>i. int (from_be (bslice data (32 * i) (32 * (i + 1)))))
          in Inr (0, cost, if P256.verify p256 h (w 1) (w 2) (w 3) (w 4) then zeros 31 @ [1] else [])
      else if idx = 10 then
        let cost = 50000 in
        if length data \<noteq> 192 then Inr (E_KZG_PROOF, 0, [])
        else if gas < cost then Inr (E_OUT_OF_GAS, 0, [])
        else if data = kzg_default sha then
          Inr (0, cost, zeros 30 @ [0x10, 0] @ be_fix 32 0x73eda753299d7d483339d80809a1d80553bda402fffe5bfeffffffff00000001)
        else Inr (E_KZG_PROOF, cost, [])
      else Inl AssertionError)"

definition pc_answer :: "nat \<times> nat \<times> bytes \<Rightarrow> bytes res" where
  "pc_answer r = (case r of (status, used, result) \<Rightarrow>
     ebind (byte1 status) (\<lambda>s. ebind (pack_u64 used) (\<lambda>u. ebind (pack_u32 (length result)) (\<lambda>n. Inr (s @ u @ n @ result)))))"

function pc_expected :: "(bytes \<Rightarrow> bytes) \<Rightarrow> (bytes \<Rightarrow> bytes) \<Rightarrow> bytes \<Rightarrow> nat \<Rightarrow> bytes \<Rightarrow> bytes res" where
  "pc_expected sha rip blob off out =
     (if off + 13 \<le> length blob then
        let idx = unat (blob ! off);
            gas = from_le (bslice blob (off + 1) (off + 9));
            n = from_le (bslice blob (off + 9) (off + 13));
            data_start = off + 13; data_end = data_start + n
        in if data_end > length blob then Inr out
           else ebind (run_one sha rip idx gas (bslice blob data_start data_end)) (\<lambda>r.
                ebind (pc_answer r) (\<lambda>a. pc_expected sha rip blob data_end (out @ a)))
      else Inr out)"
  by pat_completeness auto
termination pc_expected by (relation "measure (\<lambda>(sha, rip, blob, off, out). length blob - off)") auto

declare pc_expected.simps [simp del]

section \<open>The library vectors\<close>

definition pack_be32 :: "nat \<Rightarrow> bytes res" where
  \<comment> \<open>\<open>struct.pack(">I", n)\<close>\<close>
  "pack_be32 n = (if n < 2 ^ 32 then Inr (be_fix 4 n) else Inl StructError)"

definition modexp_rec :: "bytes \<Rightarrow> bytes \<Rightarrow> bytes \<Rightarrow> bytes res" where
  \<comment> \<open>\<open>rec\<close> of \<open>modexp_blob\<close>\<close>
  "modexp_rec b e m = ebind (emap pack_be32 [length b, length e, length m]) (\<lambda>hs. Inr (concat hs @ b @ e @ m))"

function exp_modexp :: "bytes \<Rightarrow> nat \<Rightarrow> bytes list \<Rightarrow> bytes res" where
  \<comment> \<open>\<open>expected\<close> of \<open>exp_modexp.py\<close>\<close>
  "exp_modexp blob i out =
     (if i + 12 \<le> length blob then
        let nb = from_be (bslice blob i (i + 4)); ne = from_be (bslice blob (i + 4) (i + 8));
            nm = from_be (bslice blob (i + 8) (i + 12)); i = i + 12;
            b = from_be (bslice blob i (i + nb)); i = i + nb;
            e = from_be (bslice blob i (i + ne)); i = i + ne;
            m = from_be (bslice blob i (i + nm)); i = i + nm
        in ebind (modexp_result b e m nm) (\<lambda>r. exp_modexp blob i (out @ [r]))
      else Inr (concat out))"
  by pat_completeness auto
termination exp_modexp by (relation "measure (\<lambda>(blob, i, out). length blob - i)") (auto simp: Let_def)

declare exp_modexp.simps [simp del]

definition exp_blake2f :: "bytes \<Rightarrow> bytes res" where
  \<comment> \<open>\<open>expected\<close> of \<open>exp_blake2f.py\<close>: \<open>range(0, len(blob) - 212, 213)\<close>\<close>
  "exp_blake2f blob =
     ebind (emap (\<lambda>k. blake2f (bslice blob (213 * k) (213 * k + 213))) [0..<length blob div 213]) (\<lambda>rs. Inr (concat rs))"

section \<open>Every call is answered within its gas\<close>

definition precompiles :: "nat list" where "precompiles = [1, 2, 3, 4, 5, 9, 10, 18]"

definition out_sizes :: "(bytes \<Rightarrow> bytes) \<Rightarrow> (bytes \<Rightarrow> bytes) \<Rightarrow> nat \<Rightarrow> bytes \<Rightarrow> nat list" where
  \<comment> \<open>the possible lengths of a successful result\<close>
  "out_sizes sha rip idx data =
     (if idx = 4 then [length data] else if idx = 2 then [length (sha data)] else if idx = 3 then [12 + length (rip data)]
      else if idx = 1 \<or> idx = 18 then [0, 32] else if idx = 5 then [from_be (bslice (ljust (bslice data 0 96) 96) 64 96)]
      else [64])"

definition bounded :: "nat \<Rightarrow> nat list \<Rightarrow> nat \<times> nat \<times> bytes \<Rightarrow> bool" where
  "bounded gas sizes r \<longleftrightarrow> (case r of (status, used, out) \<Rightarrow> used \<le> gas \<and> status \<in> {0, E_OUT_OF_GAS, E_INVALID_PARAMETER, E_KZG_PROOF} \<and>
     (if status = 0 then length out \<in> set sizes else out = []) \<and> (if status = E_OUT_OF_GAS then used = 0 else True))"

lemmas statuses = E_OUT_OF_GAS_def E_INVALID_PARAMETER_def E_KZG_PROOF_def

lemma length_ljust [simp]: "length (ljust b n) = max (length b) n"
  by (simp add: ljust_def)

lemma bounded_charged [simp]: "bounded gas sizes (charged gas cost out) \<longleftrightarrow> gas < cost \<or> length out \<in> set sizes"
  by (auto simp: bounded_def charged_def statuses)

lemma bounded_simps [simp]:
  "bounded gas sizes (E_OUT_OF_GAS, 0, [])" "bounded gas sizes (E_INVALID_PARAMETER, used, []) \<longleftrightarrow> used \<le> gas"
  "bounded gas sizes (E_KZG_PROOF, used, []) \<longleftrightarrow> used \<le> gas"
  "bounded gas sizes (0, used, out) \<longleftrightarrow> used \<le> gas \<and> length out \<in> set sizes"
  by (auto simp: bounded_def statuses)

lemma modexp_result_Inr:
  assumes "m < 256 ^ n"
  shows "modexp_result b e m n = Inr (be_fix n (if m = 0 then 0 else b ^ e mod m))"
proof -
  have "nat (powmod (int b) e (int m)) = b ^ e mod m"
    by (metis nat_int of_nat_power powmod_def zmod_int)
  moreover have "b ^ e mod m < 256 ^ n" if "m \<noteq> 0" using assms that by (meson less_trans mod_less_divisor neq0_conv)
  ultimately show ?thesis by (simp add: modexp_result_def to_be_def)
qed

lemma run_modexp_limit:
  "1024 < from_be (bslice (ljust (bslice data 0 96) 96) 64 96) \<Longrightarrow> run_modexp gas data = Inr (E_OUT_OF_GAS, 0, [])"
  by (simp add: run_modexp_def Let_def)

lemma run_modexp_bounded:
  "\<exists>r. run_modexp gas data = Inr r \<and> bounded gas [from_be (bslice (ljust (bslice data 0 96) 96) 64 96)] r"
proof -
  define hdr where "hdr = ljust (bslice data 0 96) 96"
  define blen where "blen = from_be (bslice hdr 0 32)"
  define elen where "elen = from_be (bslice hdr 32 64)"
  define mlen where "mlen = from_be (bslice hdr 64 96)"
  define cost where "cost = modexp_cost blen mlen elen (from_be (read_padded data (96 + blen) (min 32 elen)))"
  let ?m = "read_padded data (96 + blen + elen) mlen"
  have "length ?m = mlen" by (simp add: read_padded_def)
  then have "from_be ?m < 256 ^ mlen" using from_be_less [of ?m] by simp
  note R = modexp_result_Inr [OF this]
  have "run_modexp gas data =
      (if blen > 1024 \<or> elen > 1024 \<or> mlen > 1024 then Inr (E_OUT_OF_GAS, 0, [])
       else if gas < cost then Inr (E_OUT_OF_GAS, 0, [])
       else ebind (modexp_result (from_be (read_padded data 96 blen)) (from_be (read_padded data (96 + blen) elen)) (from_be ?m) mlen)
              (\<lambda>result. Inr (0, cost, result)))"
    unfolding run_modexp_def Let_def hdr_def [symmetric] blen_def [symmetric] elen_def [symmetric] mlen_def [symmetric]
    by (simp only: cost_def)
  then show ?thesis unfolding R ebind_simps hdr_def [symmetric] mlen_def [symmetric] by simp
qed

lemma run_modexp_small: "run_modexp gas data = Inr (st, used, out) \<Longrightarrow> length out \<le> 1024"
proof -
  let ?n = "from_be (bslice (ljust (bslice data 0 96) 96) 64 96)"
  assume r: "run_modexp gas data = Inr (st, used, out)"
  with run_modexp_bounded [of gas data] have "length out = ?n \<or> out = []" by (auto simp: bounded_def split: if_splits)
  moreover have "1024 < ?n \<Longrightarrow> out = []" using run_modexp_limit [of data gas] r by simp
  ultimately show "length out \<le> 1024" by (cases "1024 < ?n") auto
qed

lemma run_one_bounded:
  assumes "idx \<in> set precompiles"
  shows "\<exists>r. run_one sha rip idx gas data = Inr r \<and> bounded gas (out_sizes sha rip idx data) r"
proof -
  consider "idx = 4" | "idx = 2" | "idx = 3" | "idx = 1" | "idx = 9" | "idx = 5" | "idx = 18" | "idx = 10"
    using assms by (auto simp: precompiles_def)
  then show ?thesis
  proof cases
    case 4
    let ?p = "ljust (bslice data 0 128) 128"
    obtain a where a: "ecrecover_address secp256k1 (int (from_be (bslice ?p 0 32))) (from_be (bslice ?p 32 64))
        (int (from_be (bslice ?p 64 96))) (int (from_be (bslice ?p 96 128))) = Inr a" "\<forall>b. a = Some b \<longrightarrow> length b = 20"
      using ecrecover_total [OF secp256k1_params] by (metis of_nat_0_le_iff)
    show ?thesis using a 4 by (cases a) (simp_all add: run_one_def Let_def out_sizes_def)
  next
    case 5
    show ?thesis
    proof (cases "length data = 213 \<and> from_be (bslice data 0 4) \<le> gas \<and> unat (data ! 212) \<le> 1")
      case True
      then obtain out where "blake2f data = Inr out" "length out = 64" using blake2f_total [of data] by auto
      then show ?thesis using 5 True by (simp add: run_one_def Let_def out_sizes_def)
    next
      case False
      then show ?thesis using 5 by (auto simp: run_one_def Let_def out_sizes_def)
    qed
  next
    case 6
    then show ?thesis using run_modexp_bounded [of gas data] by (simp add: run_one_def out_sizes_def)
  qed (simp_all add: run_one_def Let_def out_sizes_def)
qed

text \<open>C33: Each call of a precompile is answered within its gas.  For every supported index, gas limit and
  call data (and whatever the digests return) the oracle answers: the gas used is at most the gas
  given, a failure returns no data, running out of gas uses none, and a success has a result of the
  length that the precompile fixes (the length of the modulus for modexp, 32 bytes or none for ecrecover and P-256,
  64 for BLAKE2 and KZG).  Only an unsupported index raises.\<close>

theorem precompile_bounds:
  "case run_one sha rip idx gas data of
     Inl e \<Rightarrow> idx \<notin> set precompiles \<and> e = AssertionError
   | Inr (status, used, out) \<Rightarrow> idx \<in> set precompiles \<and> used \<le> gas \<and>
       status \<in> {0, E_OUT_OF_GAS, E_INVALID_PARAMETER, E_KZG_PROOF} \<and>
       (if status = 0 then length out \<in> set (out_sizes sha rip idx data) else out = []) \<and>
       (if status = E_OUT_OF_GAS then used = 0 else True)"
proof (cases "idx \<in> set precompiles")
  case True
  then obtain r where "run_one sha rip idx gas data = Inr r" "bounded gas (out_sizes sha rip idx data) r"
    using run_one_bounded by blast
  then show ?thesis using True by (cases r) (simp add: bounded_def)
next
  case False
  then show ?thesis by (simp add: run_one_def precompiles_def)
qed

section \<open>Modular exponentiation\<close>

definition modexp_value :: "bytes \<times> bytes \<times> bytes \<Rightarrow> bytes" where
  \<comment> \<open>\<open>b ^ e mod m\<close> in as many bytes as \<open>m\<close> has; zeros where \<open>m\<close> is zero\<close>
  "modexp_value c = (case c of (b, e, m) \<Rightarrow>
     be_fix (length m) (if from_be m = 0 then 0 else from_be b ^ from_be e mod from_be m))"

lemma modexp_result_value: "modexp_result (from_be b) (from_be e) (from_be m) (length m) = Inr (modexp_value (b, e, m))"
  using modexp_result_Inr [OF from_be_less [of m]] by (simp add: modexp_value_def)

lemma ljust_exact [simp]: "length b = n \<Longrightarrow> ljust b n = b"
  by (simp add: ljust_def zeros_def)

lemma read_padded_inside: "length xs = off \<Longrightarrow> length ys = n \<Longrightarrow> read_padded (xs @ ys @ zs) off n = ys"
  by (simp add: read_padded_def bslice_middle)

lemma bslice_inner: "i = length xs \<Longrightarrow> j = length xs + length ys \<Longrightarrow> bslice (xs @ ys) i j = ys"
  using bslice_middle [of i xs j ys "[]"] by simp

lemma small_lengths:
  "n \<le> 1024 \<Longrightarrow> to_be 32 n = Inr (be_fix 32 n)" "n \<le> 1024 \<Longrightarrow> from_be (be_fix 32 n) = n"
  "n \<le> 1024 \<Longrightarrow> pack_be32 n = Inr (be_fix 4 n)" "n \<le> 1024 \<Longrightarrow> from_be (be_fix 4 n) = n"
  by (simp_all add: to_be_def from_be_be_fix pack_be32_def)

lemma modexp_data_Inr:
  assumes "length b \<le> 1024" "length e \<le> 1024" "length m \<le> 1024"
  shows "modexp_data b e m = Inr (be_fix 32 (length b) @ be_fix 32 (length e) @ be_fix 32 (length m) @ b @ e @ m)"
  using assms by (simp add: modexp_data_def small_lengths)

lemma run_modexp_data:
  assumes "length b \<le> 1024" "length e \<le> 1024" "length m \<le> 1024"
  shows "run_modexp gas (be_fix 32 (length b) @ be_fix 32 (length e) @ be_fix 32 (length m) @ b @ e @ m) =
    Inr (charged gas (modexp_cost (length b) (length m) (length e) (from_be (take 32 e))) (modexp_value (b, e, m)))"
proof -
  let ?B = "be_fix 32 (length b)" and ?E = "be_fix 32 (length e)" and ?M = "be_fix 32 (length m)"
  let ?hdr = "?B @ ?E @ ?M"
  let ?data = "?hdr @ b @ e @ m"
  have "bslice ?data 0 96 = ?hdr" using bslice_middle [of 0 "[]" 96 ?hdr "b @ e @ m"] by simp
  then have hdr: "ljust (bslice ?data 0 96) 96 = ?hdr" by simp
  have parts: "bslice ?hdr 0 32 = ?B" "bslice ?hdr 32 64 = ?E" "bslice ?hdr 64 96 = ?M"
    using bslice_middle [of 0 "[]" 32 ?B "?E @ ?M"] bslice_middle [of 32 ?B 64 ?E ?M] bslice_inner [of 64 "?B @ ?E" 96 ?M] by simp_all
  have reads: "read_padded ?data 96 (length b) = b" "read_padded ?data (96 + length b) (length e) = e"
    "read_padded ?data (96 + length b + length e) (length m) = m"
    using read_padded_inside [of ?hdr 96 b "length b" "e @ m"] read_padded_inside [of "?hdr @ b" "96 + length b" e "length e" m]
      read_padded_inside [of "?hdr @ b @ e" "96 + length b + length e" m "length m" "[]"] by simp_all
  have "?data = (?hdr @ b) @ take 32 e @ drop 32 e @ m" by simp
  then have hw: "read_padded ?data (96 + length b) (min 32 (length e)) = take 32 e"
    by (simp only:) (rule read_padded_inside, simp_all)
  have data: "?B @ ?E @ ?M @ b @ e @ m = ?data" by simp
  show ?thesis
    unfolding data run_modexp_def Let_def hdr parts
    using assms reads hw modexp_result_value [of b e m]
    by (simp only: small_lengths) (auto simp: charged_def)
qed

lemma exp_modexp_record:
  assumes "length b \<le> 1024" "length e \<le> 1024" "length m \<le> 1024"
  defines "r \<equiv> be_fix 4 (length b) @ be_fix 4 (length e) @ be_fix 4 (length m) @ b @ e @ m"
  shows "modexp_rec b e m = Inr r"
    "exp_modexp (pre @ r @ rest) (length pre) out = exp_modexp (pre @ r @ rest) (length (pre @ r)) (out @ [modexp_value (b, e, m)])"
proof -
  show "modexp_rec b e m = Inr r" using assms(1-3) by (simp add: modexp_rec_def r_def small_lengths)
  let ?B = "be_fix 4 (length b)" and ?E = "be_fix 4 (length e)" and ?M = "be_fix 4 (length m)"
  let ?blob = "pre @ r @ rest" and ?i = "length pre"
  have cut: "bslice ?blob (?i + length xs) (?i + length xs + length ys) = ys" if "r = xs @ ys @ zs" for xs ys zs
    using bslice_middle [of "?i + length xs" "pre @ xs" _ ys "zs @ rest"] that by simp
  have parts: "bslice ?blob ?i (?i + 4) = ?B" "bslice ?blob (?i + 4) (?i + 8) = ?E" "bslice ?blob (?i + 8) (?i + 12) = ?M"
    "bslice ?blob (?i + 12) (?i + 12 + length b) = b" "bslice ?blob (?i + 12 + length b) (?i + 12 + length b + length e) = e"
    "bslice ?blob (?i + 12 + length b + length e) (?i + 12 + length b + length e + length m) = m"
    using cut [of "[]" ?B "?E @ ?M @ b @ e @ m"] cut [of ?B ?E "?M @ b @ e @ m"] cut [of "?B @ ?E" ?M "b @ e @ m"]
      cut [of "?B @ ?E @ ?M" b "e @ m"] cut [of "?B @ ?E @ ?M @ b" e m] cut [of "?B @ ?E @ ?M @ b @ e" m "[]"]
    by (simp_all add: r_def add.assoc)
  have len: "length r = 12 + length b + length e + length m" by (simp add: r_def)
  then have "?i + 12 \<le> length ?blob" by simp
  then show "exp_modexp ?blob ?i out = exp_modexp ?blob (length (pre @ r)) (out @ [modexp_value (b, e, m)])"
    by (subst exp_modexp.simps)
      (simp only: if_True Let_def parts small_lengths(4) assms(1-3) modexp_result_value ebind_simps, simp add: len add.assoc)
qed

lemma exp_modexp_stream:
  assumes "list_all (\<lambda>(b, e, m). length b \<le> 1024 \<and> length e \<le> 1024 \<and> length m \<le> 1024) cs"
  shows "\<exists>recs. emap (\<lambda>(b, e, m). modexp_rec b e m) cs = Inr recs \<and>
    (\<forall>pre out. exp_modexp (pre @ concat recs) (length pre) out = Inr (concat (out @ map modexp_value cs)))"
  using assms
proof (induction cs)
  case Nil
  then show ?case by (simp add: exp_modexp.simps)
next
  case (Cons c cs)
  obtain b e m where c: "c = (b, e, m)" by (cases c)
  have small: "length b \<le> 1024" "length e \<le> 1024" "length m \<le> 1024" using Cons.prems by (simp_all add: c)
  obtain r where r: "modexp_rec b e m = Inr r"
    "\<And>pre rest out. exp_modexp (pre @ r @ rest) (length pre) out = exp_modexp (pre @ r @ rest) (length (pre @ r)) (out @ [modexp_value (b, e, m)])"
    using exp_modexp_record [OF small] by blast
  obtain recs where recs: "emap (\<lambda>(b, e, m). modexp_rec b e m) cs = Inr recs"
    "\<And>pre out. exp_modexp (pre @ concat recs) (length pre) out = Inr (concat (out @ map modexp_value cs))"
    using Cons by auto
  have "exp_modexp (pre @ r @ concat recs) (length pre) out = Inr (concat (out @ map modexp_value (c # cs)))" for pre out
    using r(2) [of pre "concat recs" out] recs(2) [of "pre @ r" "out @ [modexp_value (b, e, m)]"] by (simp add: c)
  then show ?case using r(1) recs(1) by (simp add: c)
qed



section \<open>Streams of records\<close>

definition pc_bytes :: "nat \<times> nat \<times> bytes \<Rightarrow> bytes" where
  "pc_bytes c = (case c of (idx, gas, data) \<Rightarrow> word_of_nat idx # le_fix 8 gas @ le_fix 4 (length data) @ data)"

definition pc_ok :: "nat \<times> nat \<times> bytes \<Rightarrow> bool" where
  "pc_ok c \<longleftrightarrow> (case c of (idx, gas, data) \<Rightarrow> idx < 256 \<and> gas < 2 ^ 64 \<and> length data < 2 ^ 32)"

lemma pc_record_Inr: "pc_ok (idx, gas, data) \<Longrightarrow> pc_record idx gas data = Inr (pc_bytes (idx, gas, data))"
  by (simp add: pc_ok_def pc_record_def pc_bytes_def pack_u64_def pack_u32_def)

lemma length_pc_bytes: "length (pc_bytes (idx, gas, data)) = 13 + length data"
  by (simp add: pc_bytes_def)

lemma pc_fields:
  fixes pre rest :: bytes
  assumes "pc_ok (idx, gas, data)"
  defines "r \<equiv> pc_bytes (idx, gas, data)" and "off \<equiv> length pre"
  shows "unat ((pre @ r @ rest) ! off) = idx" "from_le (bslice (pre @ r @ rest) (off + 1) (off + 9)) = gas"
    "from_le (bslice (pre @ r @ rest) (off + 9) (off + 13)) = length data"
    "bslice (pre @ r @ rest) (off + 13) (off + 13 + length data) = data"
    "bslice (pre @ r @ rest) off (off + 13 + length data) = r" "off + 13 + length data = length (pre @ r)"
proof -
  let ?i = "[word_of_nat idx] :: bytes" and ?g = "le_fix 8 gas" and ?n = "le_fix 4 (length data)"
  have r: "r = ?i @ ?g @ ?n @ data" by (simp add: r_def pc_bytes_def)
  show "unat ((pre @ r @ rest) ! off) = idx"
    using assms(1) by (simp add: off_def r pc_ok_def unat_of_nat)
  have "bslice (pre @ r @ rest) (off + 1) (off + 9) = ?g"
    using bslice_middle [of "off + 1" "pre @ ?i" "off + 9" ?g "?n @ data @ rest"] by (simp add: r off_def)
  then show "from_le (bslice (pre @ r @ rest) (off + 1) (off + 9)) = gas" using assms(1) by (simp add: pc_ok_def)
  have "bslice (pre @ r @ rest) (off + 9) (off + 13) = ?n"
    using bslice_middle [of "off + 9" "pre @ ?i @ ?g" "off + 13" ?n "data @ rest"] by (simp add: r off_def)
  then show "from_le (bslice (pre @ r @ rest) (off + 9) (off + 13)) = length data" using assms(1) by (simp add: pc_ok_def)
  show "bslice (pre @ r @ rest) (off + 13) (off + 13 + length data) = data"
    using bslice_middle [of "off + 13" "pre @ ?i @ ?g @ ?n" "off + 13 + length data" data rest] by (simp add: r off_def)
  show "bslice (pre @ r @ rest) off (off + 13 + length data) = r"
    by (rule bslice_middle) (simp_all add: off_def r)
  show "off + 13 + length data = length (pre @ r)" by (simp add: off_def r)
qed

lemma iter_records_stream:
  "list_all pc_ok cs \<Longrightarrow> iter_records (pre @ concat (map pc_bytes cs)) (length pre) = map pc_bytes cs"
proof (induction cs arbitrary: pre)
  case Nil
  then show ?case by (simp add: iter_records.simps)
next
  case (Cons c cs)
  obtain idx gas data where c: "c = (idx, gas, data)" by (cases c)
  then have ok: "pc_ok (idx, gas, data)" using Cons.prems by simp
  note F = pc_fields(1-5) [OF ok, of pre "concat (map pc_bytes cs)"] pc_fields(6) [OF ok, of pre]
  have "length pre + 13 + length data \<le> length (pre @ pc_bytes c @ concat (map pc_bytes cs))" using F(6) by (simp add: c)
  then have "iter_records (pre @ pc_bytes c @ concat (map pc_bytes cs)) (length pre) =
      pc_bytes c # iter_records ((pre @ pc_bytes c) @ concat (map pc_bytes cs)) (length (pre @ pc_bytes c))"
    by (subst iter_records.simps) (simp add: Let_def c F(3,5), simp add: length_pc_bytes add.assoc)
  then show ?case using Cons.IH [of "pre @ pc_bytes c"] Cons.prems by simp
qed

text \<open>The answer of one record, and of a stream.\<close>

definition answer_of :: "(bytes \<Rightarrow> bytes) \<Rightarrow> (bytes \<Rightarrow> bytes) \<Rightarrow> nat \<times> nat \<times> bytes \<Rightarrow> bytes res" where
  "answer_of sha rip c = (case c of (idx, gas, data) \<Rightarrow> ebind (run_one sha rip idx gas data) pc_answer)"

lemma pc_expected_stream:
  "list_all pc_ok cs \<Longrightarrow> emap (answer_of sha rip) cs = Inr as \<Longrightarrow>
     pc_expected sha rip (pre @ concat (map pc_bytes cs)) (length pre) out = Inr (out @ concat as)"
proof (induction cs arbitrary: pre out as)
  case Nil
  then show ?case by (simp add: pc_expected.simps)
next
  case (Cons c cs)
  obtain idx gas data where c: "c = (idx, gas, data)" by (cases c)
  then have ok: "pc_ok (idx, gas, data)" using Cons.prems by simp
  obtain r a bs where r: "run_one sha rip idx gas data = Inr r" "pc_answer r = Inr a" and bs: "emap (answer_of sha rip) cs = Inr bs" and as: "as = a # bs"
  proof -
    obtain a bs where a: "answer_of sha rip c = Inr a" and bs: "emap (answer_of sha rip) cs = Inr bs" "as = a # bs"
      using Cons.prems(2) by auto
    then have "ebind (run_one sha rip idx gas data) pc_answer = Inr a" by (simp add: answer_of_def c)
    then obtain r where "run_one sha rip idx gas data = Inr r" "pc_answer r = Inr a" by (rule ebind_InrE)
    then show ?thesis using bs by (rule that)
  qed
  note F = pc_fields(1-5) [OF ok, of pre "concat (map pc_bytes cs)"] pc_fields(6) [OF ok, of pre]
  have "length pre + 13 + length data \<le> length (pre @ pc_bytes c @ concat (map pc_bytes cs))" using F(6) by (simp add: c)
  then have "pc_expected sha rip (pre @ pc_bytes c @ concat (map pc_bytes cs)) (length pre) out =
      pc_expected sha rip ((pre @ pc_bytes c) @ concat (map pc_bytes cs)) (length (pre @ pc_bytes c)) (out @ a)"
    by (subst pc_expected.simps) (simp add: Let_def c F(1-4) r del: One_nat_def, simp add: length_pc_bytes add.assoc)
  also have "\<dots> = Inr ((out @ a) @ concat bs)" using Cons.IH [of bs "pre @ pc_bytes c" "out @ a"] Cons.prems(1) bs by simp
  finally show ?case by (simp add: as)
qed

lemma bounded_answer:
  assumes "bounded gas sizes r" "gas < 2 ^ 64" "\<forall>n \<in> set sizes. n < 2 ^ 32"
  shows "\<exists>a. pc_answer r = Inr a"
proof -
  obtain st used out where r: "r = (st, used, out)" by (cases r)
  have "length out < 2 ^ 32" using assms(1,3) by (cases "st = 0") (auto simp: bounded_def r)
  then show ?thesis using assms(1,2) by (auto simp: r bounded_def pc_answer_def byte1_def pack_u64_def pack_u32_def statuses)
qed

lemma answer_of_total:
  assumes "pc_ok (idx, gas, data)" "idx \<in> set precompiles" "\<forall>n \<in> set (out_sizes sha rip idx data). n < 2 ^ 32"
  shows "\<exists>a. answer_of sha rip (idx, gas, data) = Inr a"
proof -
  obtain r where r: "run_one sha rip idx gas data = Inr r" "bounded gas (out_sizes sha rip idx data) r"
    using run_one_bounded [OF assms(2)] by blast
  moreover have "gas < 2 ^ 64" using assms(1) by (simp add: pc_ok_def)
  ultimately show ?thesis using bounded_answer [OF r(2) _ assms(3)] by (simp add: answer_of_def)
qed

end
