(* ===== verification/PrecompileTable.thy ===== *)
theory PrecompileTable
  imports Precompiles
begin

text \<open>
  The vectors themselves: \<open>build_blob\<close> of \<open>tools/gen_precompile_vectors.py\<close>, the table of wrapper
  cases around the exact prices, and \<open>blake2f_blob\<close> and \<open>modexp_blob\<close> of \<open>tools/gen_pre_vectors.py\<close>.
  What \<open>random.Random\<close> draws is an argument.
\<close>

section \<open>Known answers\<close>

definition BODY :: bytes where
  "BODY = be_fix 67 0x48c9bdf267e6096a3ba7ca8485ae67bb2bf894fe72f36e3cf1361d5f3af54fa5d182e6ad7f520e511f6c3e2b8c68059b6bbd41fbabd9831f79217e1319cde05b616263
     @ zeros 125 @ [3] @ zeros 15"

definition EIP152 :: "(nat \<times> nat \<times> bytes) list" where
  "EIP152 =
     [(0, 1, be_fix 64 0x08c9bcf367e6096a3ba7ca8485ae67bb2bf894fe72f36e3cf1361d5f3af54fa5d282e6ad7f520e511f6c3e2b8c68059b9442be0454267ce079217e1319cde05b),
      (12, 1, be_fix 64 0xba80a53f981c4d0d6a2797b69f12f6e94c212f14685ac4b74b12bb6fdbffa2d17d87c5392aab792dc252d5de4533cc9518d38aa8dbf1925ab92386edd4009923),
      (12, 0, be_fix 64 0x75ab69d3190a562c51aef8d88f1c2775876944407270c42c9844252c26d2875298743e7f6d5ea2f2d3e8d226039cd31b4e426ac4f2d3d666a610c2116fde4735),
      (1, 1, be_fix 64 0xb63a380cb2897d521994a85234ee2c181b5f844d2c624c002677e9703449d2fba551b3a8333bcdf5f2f7e08993d53923de3d64fcc68c034e717b9293fed7a421)]"

definition blake2f_rec :: "nat \<Rightarrow> bytes \<Rightarrow> nat \<Rightarrow> bytes res" where
  \<comment> \<open>\<open>struct.pack(">I", rounds) + body + bytes([flag])\<close>\<close>
  "blake2f_rec rounds body flag = ebind (pack_be32 rounds) (\<lambda>r. ebind (byte1 flag) (\<lambda>f. Inr (r @ body @ f)))"

definition blake2f_data :: "nat \<Rightarrow> nat \<Rightarrow> bytes res" where
  "blake2f_data rounds flag =
     ebind (blake2f_rec rounds BODY flag) (\<lambda>d. if length d = 213 then Inr d else Inl AssertionError)"

definition eip152_rec :: "nat \<times> nat \<times> bytes \<Rightarrow> bytes res" where
  "eip152_rec c = (case c of (rounds, f, want) \<Rightarrow>
     ebind (blake2f_rec rounds BODY f) (\<lambda>d.
       if length d = 213 then ebind (blake2f d) (\<lambda>h. if h = want then Inr d else Inl AssertionError)
       else Inl AssertionError))"

definition blake2f_blob :: "(nat \<times> bytes \<times> nat) list \<Rightarrow> bytes res" where
  \<comment> \<open>the draws: rounds below 65, 208 bytes, flag below 2\<close>
  "blake2f_blob draws =
     ebind (emap eip152_rec EIP152) (\<lambda>rs.
     ebind (emap (\<lambda>(n, b, f). blake2f_rec n b f) draws) (\<lambda>ds. Inr (concat (rs @ ds))))"

definition modexp_cases :: "(nat \<Rightarrow> nat \<Rightarrow> bytes) \<Rightarrow> (bytes \<times> bytes \<times> bytes) list \<Rightarrow> (bytes \<times> bytes \<times> bytes) list" where
  \<comment> \<open>\<open>rb k n\<close> is the \<open>k\<close>-th string drawn, of \<open>n\<close> bytes; the random cases and the heavy one follow\<close>
  "modexp_cases rb random =
     [([], [], []), ([3], [2], []), ([3], [2], [0, 0]), ([3], [2], [1]), ([3], [0], be_fix 4 7), ([], [0], be_fix 3 1),
      ([], [], be_fix 1 5), (be_fix 3 0, [5], be_fix 1 5), (be_fix 4 12345, be_fix 1 3, be_fix 1 10),
      (be_fix 1 2, be_fix 1 10, be_fix 2 1024), (be_fix 1 3, be_fix 2 0xffff, be_fix 4 0xfffffffe),
      (rb 0 32, rb 1 32, be_fix 32 (2 ^ 255 + 1)), (rb 2 64, rb 3 32, rb 4 64), (rb 5 5, rb 6 1, [0, 0] @ rb 7 4),
      (rb 8 300, rb 9 2, rb 10 200), (rb 11 31, rb 12 33, rb 13 31), (rb 14 1024, rb 15 3, rb 16 1024),
      (rb 17 1024, rb 18 1, [1] @ zeros 1023), (rb 19 1, rb 20 1024, [0xff] @ rb 21 7), (rb 22 200, zeros 100, rb 23 200)]
     @ random @ [(rb 24 512, rb 25 32, rb 26 512)]"

definition modexp_blob :: "(nat \<Rightarrow> nat \<Rightarrow> bytes) \<Rightarrow> (bytes \<times> bytes \<times> bytes) list \<Rightarrow> bytes res" where
  "modexp_blob rb random = ebind (emap (\<lambda>(b, e, m). modexp_rec b e m) (modexp_cases rb random)) (\<lambda>rs. Inr (concat rs))"

section \<open>The table of the wrapper test\<close>

definition FIXED_0 :: "bytes \<times> nat \<times> nat \<times> nat" where
  \<comment> \<open>hash, \<open>r\<close>, \<open>s\<close> and recovery id of the first secp256k1 vector\<close>
  "FIXED_0 = (be_fix 32 0x18C547E4F7B0F325AD1E56F57E26C745B09A3E503D86E00E5255FF7F715D3D1C,
     0x73B1693892219D736CABA55BDB67216E485557EA6B6AF75F37096C9AA6A5A75F,
     0xEEB940B1D03B21E36B0E47E79769F095FE2AB855BD91E3A38756B7D75A9C4549, 1)"

definition p256_case_0 :: "bytes \<times> nat \<times> nat \<times> nat \<times> nat \<times> bool" where
  "p256_case_0 = (be_fix 32 0xbb5a52f42f9c9261ed4361f59422a1e30036e7c32b270c8807a419feca605023,
     0x2ba3a8be6b94d5ec80a6d9d1190a436effe50d85a1eee859b8cc6af9bd5c2e18,
     0x4cd60b855d442f5b3c7b11eb6c4e0ae7525fe710fab9aa7c77a67f79e6fadd76,
     0x2927b10512bae3eddcfe467828128bad2903269919f7086069c8c4df6c732838,
     0xc7787964eaac00e5921fb1498a60f4606766b3d9685001558d1a974e7341513e, True)"

definition abc :: bytes where "abc = [0x61, 0x62, 0x63]"

definition identity_cases :: "(nat \<times> nat \<times> bytes) list" where
  "identity_cases = [(4, 100, []),
     (4, 100, [0x68, 0x65, 0x6c, 0x6c, 0x6f, 0x20, 0x70, 0x72, 0x65, 0x63, 0x6f, 0x6d, 0x70, 0x69, 0x6c, 0x65]), (4, 14, [])]"

definition hash_cases :: "(nat \<times> nat \<times> bytes) list" where
  "hash_cases = [(2, 60, []), (2, 100, abc), (2, 59, []), (3, 720, abc), (3, 719, abc)]"

definition ecrecover_cases :: "(nat \<times> nat \<times> bytes) list res" where
  "ecrecover_cases = (case FIXED_0 of (h, r, s, recid) \<Rightarrow>
     ebind (emap (to_be 32) [recid + 27, r, s]) (\<lambda>b1.
     ebind (ecrecover_address secp256k1 (int (from_be h)) (recid + 27) (int r) (int s)) (\<lambda>a.
     ebind (require (case a of Some x \<Rightarrow> x \<noteq> [] | None \<Rightarrow> False) AssertionError) (\<lambda>u.
     ebind (emap (to_be 32) [29, r, s]) (\<lambda>b2.
       Inr [(1, 3000, h @ concat b1), (1, 3000, h @ concat b2), (1, 3000, []), (1, 2999, h @ concat b1)])))))"

definition blake2f_cases :: "(nat \<times> nat \<times> bytes) list res" where
  "blake2f_cases =
     ebind (emap (\<lambda>(rounds, flag, want). ebind (blake2f_data rounds flag) (\<lambda>d. Inr (9, rounds, d))) EIP152) (\<lambda>vs.
     ebind (blake2f_data 12 2) (\<lambda>d2. ebind (blake2f_data 12 1) (\<lambda>d1.
       Inr (vs @ [(9, 100, []), (9, 12, d2), (9, 11, d1)]))))"

definition modexp_table :: "(nat \<times> nat \<times> bytes) list res" where
  "modexp_table =
     ebind (modexp_data [3] [2] [5]) (\<lambda>basic. ebind (modexp_data [1] [8, 0] (replicate 33 1)) (\<lambda>cplx.
     ebind (modexp_data [2] (zeros 31 @ [2, 0]) (replicate 33 1)) (\<lambda>long_exp.
     ebind (modexp_data [] [] []) (\<lambda>empty. ebind (modexp_header 1025 0 0) (\<lambda>hd1.
       Inr [(5, 500, empty), (5, 500, basic), (5, 499, basic), (5, 549, cplx), (5, 550, cplx), (5, 849, long_exp),
            (5, 850, long_exp), (5, 0, hd1)])))))"

definition p256_cases :: "(nat \<times> nat \<times> bytes) list res" where
  "p256_cases = (case p256_case_0 of (h, r, s, qx, qy, want) \<Rightarrow>
     ebind (p256_data p256_case_0) (\<lambda>valid. ebind (p256_data (h, r + 1, s, qx, qy, False)) (\<lambda>bad.
       Inr [(18, 6900, valid), (18, 6900, bad), (18, 6900, butlast valid), (18, 6899, valid)])))"

definition kzg_cases :: "(bytes \<Rightarrow> bytes) \<Rightarrow> (nat \<times> nat \<times> bytes) list" where
  "kzg_cases sha =
     (let valid = kzg_default sha;
          wrong_hash = (hd valid XOR 1) # drop 1 valid;
          out_of_range_z = kzg_data sha KZG_BLS_MODULUS (zeros 32) KZG_INFINITY KZG_INFINITY;
          bad_point = kzg_data sha (zeros 31 @ [2]) (zeros 32) (zeros 48) KZG_INFINITY
      in [(10, 50000, valid), (10, 50000, wrong_hash), (10, 50000, out_of_range_z), (10, 50000, bad_point),
          (10, 50000, butlast valid), (10, 49999, valid)])"

definition build_cases :: "(bytes \<Rightarrow> bytes) \<Rightarrow> (nat \<times> nat \<times> bytes) list res" where
  "build_cases sha =
     ebind ecrecover_cases (\<lambda>ec. ebind blake2f_cases (\<lambda>bl. ebind modexp_table (\<lambda>me. ebind p256_cases (\<lambda>p.
       Inr (identity_cases @ hash_cases @ ec @ bl @ me @ p @ kzg_cases sha)))))"

definition build_blob :: "(bytes \<Rightarrow> bytes) \<Rightarrow> bytes res" where
  "build_blob sha = ebind (build_cases sha) (\<lambda>cs. ebind (emap (\<lambda>(i, g, d). pc_record i g d) cs) (\<lambda>rs. Inr (concat rs)))"

section \<open>The table is right\<close>

lemma length_BODY: "length BODY = 208"
  by (simp add: BODY_def)

lemma blake2f_data_Inr:
  assumes "rounds < 2 ^ 32" "flag < 256"
  obtains d where "blake2f_data rounds flag = Inr d" "length d = 213" "from_be (bslice d 0 4) = rounds" "d ! 212 = word_of_nat flag"
proof -
  let ?d = "be_fix 4 rounds @ BODY @ [word_of_nat flag]"
  have "blake2f_data rounds flag = Inr ?d"
    using assms by (simp add: blake2f_data_def blake2f_rec_def pack_be32_def byte1_def length_BODY)
  moreover have "from_be (bslice ?d 0 4) = rounds"
    using assms(1) by (simp add: bslice_def from_be_be_fix)
  moreover have "?d ! 212 = word_of_nat flag" by (simp add: nth_append length_BODY)
  ultimately show ?thesis using that by (simp add: length_BODY)
qed

definition outcome :: "(bytes \<Rightarrow> bytes) \<Rightarrow> (bytes \<Rightarrow> bytes) \<Rightarrow> nat \<times> nat \<times> bytes \<Rightarrow> nat \<Rightarrow> bool" where
  "outcome sha rip c st \<longleftrightarrow> pc_ok c \<and> fst c \<in> set precompiles \<and>
     (\<exists>used out. run_one sha rip (fst c) (fst (snd c)) (snd (snd c)) = Inr (st, used, out))"

lemma outcome_identity: "list_all2 (outcome sha rip) identity_cases [0, 0, 4]"
  by (simp add: identity_cases_def outcome_def run_one_def charged_def pc_ok_def precompiles_def words32_def statuses)

lemma outcome_hash: "list_all2 (outcome sha rip) hash_cases [0, 0, 4, 0, 4]"
  by (simp add: hash_cases_def abc_def outcome_def run_one_def charged_def pc_ok_def precompiles_def words32_def statuses)

lemma outcome_ecrecover:
  assumes "g < 2 ^ 64" "length d < 2 ^ 32"
  shows "outcome sha rip (1, g, d) (if g < 3000 then 4 else 0)"
proof -
  let ?p = "ljust (bslice d 0 128) 128"
  obtain a where "ecrecover_address secp256k1 (int (from_be (bslice ?p 0 32))) (from_be (bslice ?p 32 64))
      (int (from_be (bslice ?p 64 96))) (int (from_be (bslice ?p 96 128))) = Inr a"
    using ecrecover_total [OF secp256k1_params] by (metis of_nat_0_le_iff)
  then show ?thesis using assms by (simp add: outcome_def run_one_def pc_ok_def precompiles_def statuses)
qed

lemma outcome_blake2f:
  assumes "g < 2 ^ 64" "length d = 213" "from_be (bslice d 0 4) = rounds" "d ! 212 = word_of_nat flag" "flag < 256"
  shows "outcome sha rip (9, g, d) (if g < rounds then 4 else if flag > 1 then 10 else 0)"
proof -
  obtain out where "blake2f d = Inr out" using blake2f_total [of d] assms(2) by auto
  moreover have "unat (d ! 212) = flag" using assms(4,5) by simp
  ultimately show ?thesis using assms(1-3)
    by (simp add: outcome_def run_one_def pc_ok_def precompiles_def statuses)
qed

lemma outcome_modexp:
  assumes "length b \<le> 1024" "length e \<le> 1024" "length m \<le> 1024" "modexp_data b e m = Inr d" "g < 2 ^ 64"
  shows "outcome sha rip (5, g, d) (if g < modexp_cost (length b) (length m) (length e) (from_be (take 32 e)) then 4 else 0)"
proof -
  have d: "d = be_fix 32 (length b) @ be_fix 32 (length e) @ be_fix 32 (length m) @ b @ e @ m"
    using modexp_data_Inr [OF assms(1-3)] assms(4) by simp
  show ?thesis
    using run_modexp_data [OF assms(1-3), of g] assms(1-3,5)
    by (simp add: outcome_def run_one_def pc_ok_def precompiles_def charged_def statuses d)
qed

lemma bit_length_small: "bit_length 2 = 2" "bit_length 2048 = 12" "bit_length 0 = 0"
  by (simp_all add: bit_length.simps)

lemma table_prices:
  "modexp_cost 1 1 1 2 = 500" "modexp_cost 1 33 2 2048 = 550" "modexp_cost 1 33 33 2 = 850" "modexp_cost 0 0 0 0 = 500"
  by (simp_all add: modexp_cost_def Let_def bit_length_small del: One_nat_def)

lemma table_heads: "from_be [2] = 2" "from_be [8, 0] = 2048" "from_be (zeros 31 @ [2]) = 2"
  by (simp_all add: from_be_Cons)

lemma outcome_modexp_table:
  obtains cs where "modexp_table = Inr cs" "list_all2 (outcome sha rip) cs [0, 0, 4, 4, 0, 4, 0, 4]"
proof -
  let ?m = "replicate 33 1 :: bytes" and ?e = "zeros 31 @ [2, 0]"
  obtain d1 d2 d3 d4 d5 where d: "modexp_data [3] [2] [5] = Inr d1" "modexp_data [1] [8, 0] ?m = Inr d2"
    "modexp_data [2] ?e ?m = Inr d3" "modexp_data [] [] [] = Inr d4" and h: "modexp_header 1025 0 0 = Inr d5"
    by (simp add: modexp_data_Inr modexp_header_def to_be_def)
  have t: "take 32 ?e = zeros 31 @ [2]" by simp
  have t': "take 32 [2] = [2 :: byte]" "take 32 [8, 0] = [8 :: byte, 0]" "take 32 [] = ([] :: bytes)" by simp_all
  have prices: "modexp_cost 1 1 1 (from_be (take 32 [2])) = 500" "modexp_cost 1 33 2 (from_be (take 32 [8, 0])) = 550"
    "modexp_cost 1 33 33 (from_be (take 32 ?e)) = 850" "modexp_cost 0 0 0 (from_be (take 32 [])) = 500"
    unfolding t t' table_heads from_be_Nil by (rule table_prices)+
  have o: "g < 2 ^ 64 \<Longrightarrow> outcome sha rip (5, g, d1) (if g < 500 then 4 else 0)"
    "g < 2 ^ 64 \<Longrightarrow> outcome sha rip (5, g, d2) (if g < 550 then 4 else 0)"
    "g < 2 ^ 64 \<Longrightarrow> outcome sha rip (5, g, d3) (if g < 850 then 4 else 0)"
    "g < 2 ^ 64 \<Longrightarrow> outcome sha rip (5, g, d4) (if g < 500 then 4 else 0)" for g
    using outcome_modexp [of "[3]" "[2]" "[5]" d1 g] outcome_modexp [of "[1]" "[8, 0]" ?m d2 g]
      outcome_modexp [of "[2]" ?e ?m d3 g] outcome_modexp [of "[]" "[]" "[]" d4 g] d prices by (simp_all flip: numeral_2_eq_2)
  have d5: "d5 = be_fix 32 1025 @ be_fix 32 0 @ be_fix 32 0" using h by (simp add: modexp_header_def to_be_def)
  have "bslice (ljust (bslice d5 0 96) 96) 0 32 = be_fix 32 1025" by (simp add: d5 bslice_def)
  then have "outcome sha rip (5, 0, d5) 4"
    by (simp add: outcome_def run_one_def run_modexp_def from_be_be_fix pc_ok_def precompiles_def statuses d5)
  then have "list_all2 (outcome sha rip)
      [(5, 500, d4), (5, 500, d1), (5, 499, d1), (5, 549, d2), (5, 550, d2), (5, 849, d3), (5, 850, d3), (5, 0, d5)]
      [0, 0, 4, 4, 0, 4, 0, 4]"
    using o(1) [of 500] o(1) [of 499] o(2) [of 549] o(2) [of 550] o(3) [of 849] o(3) [of 850] o(4) [of 500] by simp
  moreover have "modexp_table = Inr [(5, 500, d4), (5, 500, d1), (5, 499, d1), (5, 549, d2), (5, 550, d2), (5, 849, d3), (5, 850, d3), (5, 0, d5)]"
    unfolding modexp_table_def d h by simp
  ultimately show ?thesis by (rule that [rotated])
qed

lemma outcome_blake2f_cases:
  obtains cs where "blake2f_cases = Inr cs" "list_all2 (outcome sha rip) cs [0, 0, 0, 0, 10, 10, 4]"
proof -
  obtain a where a: "blake2f_data 0 1 = Inr a" "length a = 213" "from_be (bslice a 0 4) = 0" "a ! 212 = word_of_nat 1"
    by (rule blake2f_data_Inr [of 0 1]) simp_all
  obtain b where b: "blake2f_data 12 1 = Inr b" "length b = 213" "from_be (bslice b 0 4) = 12" "b ! 212 = word_of_nat 1"
    by (rule blake2f_data_Inr [of 12 1]) simp_all
  obtain c where c: "blake2f_data 12 0 = Inr c" "length c = 213" "from_be (bslice c 0 4) = 12" "c ! 212 = word_of_nat 0"
    by (rule blake2f_data_Inr [of 12 0]) simp_all
  obtain d where d: "blake2f_data 1 1 = Inr d" "length d = 213" "from_be (bslice d 0 4) = 1" "d ! 212 = word_of_nat 1"
    by (rule blake2f_data_Inr [of 1 1]) simp_all
  obtain e where e: "blake2f_data 12 2 = Inr e" "length e = 213" "from_be (bslice e 0 4) = 12" "e ! 212 = word_of_nat 2"
    by (rule blake2f_data_Inr [of 12 2]) simp_all
  have "outcome sha rip (9, 100, []) 10"
    by (simp add: outcome_def run_one_def pc_ok_def precompiles_def statuses)
  then have "list_all2 (outcome sha rip) [(9, 0, a), (9, 12, b), (9, 12, c), (9, 1, d), (9, 100, []), (9, 12, e), (9, 11, b)]
      [0, 0, 0, 0, 10, 10, 4]"
    using outcome_blake2f [OF _ a(2-4), of 0 sha rip] outcome_blake2f [OF _ b(2-4), of 12 sha rip] outcome_blake2f [OF _ b(2-4), of 11 sha rip]
      outcome_blake2f [OF _ c(2-4), of 12 sha rip] outcome_blake2f [OF _ d(2-4), of 1 sha rip] outcome_blake2f [OF _ e(2-4), of 12 sha rip]
    by simp
  moreover have "blake2f_cases = Inr [(9, 0, a), (9, 12, b), (9, 12, c), (9, 1, d), (9, 100, []), (9, 12, e), (9, 11, b)]"
    by (simp add: blake2f_cases_def EIP152_def a(1) b(1) c(1) d(1) e(1) del: One_nat_def)
  ultimately show ?thesis by (rule that [rotated])
qed

lemma outcome_p256:
  "g < 2 ^ 64 \<Longrightarrow> length d < 2 ^ 32 \<Longrightarrow> outcome sha rip (18, g, d) (if g < 6900 then 4 else 0)"
  by (simp add: outcome_def run_one_def pc_ok_def precompiles_def statuses Let_def)

lemma outcome_p256_cases:
  obtains cs where "p256_cases = Inr cs" "list_all2 (outcome sha rip) cs [0, 0, 0, 4]"
proof -
  obtain h r s qx qy w where c: "p256_case_0 = (h, r, s, qx, qy, w)" by (cases p256_case_0)
  then have l: "length h = 32" and "r + 1 < 256 ^ 32" "s < 256 ^ 32" "qx < 256 ^ 32" "qy < 256 ^ 32"
    by (auto simp: p256_case_0_def)
  then obtain v b where v: "p256_data (h, r, s, qx, qy, w) = Inr v" "length v = 160"
    and b: "p256_data (h, r + 1, s, qx, qy, False) = Inr b" "length b = 160"
    by (simp add: p256_data_def to_be_def)
  have "p256_cases = Inr [(18, 6900, v), (18, 6900, b), (18, 6900, butlast v), (18, 6899, v)]"
    by (simp add: p256_cases_def c v b del: One_nat_def)
  moreover have "list_all2 (outcome sha rip) [(18, 6900, v), (18, 6900, b), (18, 6900, butlast v), (18, 6899, v)] [0, 0, 0, 4]"
    using outcome_p256 [of 6900 v sha rip] outcome_p256 [of 6900 b sha rip] outcome_p256 [of 6900 "butlast v" sha rip]
      outcome_p256 [of 6899 v sha rip] v(2) b(2) by simp
  ultimately show ?thesis by (rule that)
qed

lemma outcome_kzg_cases:
  assumes "\<And>x. length (sha x) = 32"
  shows "list_all2 (outcome sha rip) (kzg_cases sha) [0, 13, 13, 13, 13, 4]"
proof -
  have l: "length (kzg_versioned_hash sha c) = 32" for c using assms by (simp add: kzg_versioned_hash_def)
  have z: "length KZG_INFINITY = 48" "length KZG_BLS_MODULUS = 32" by (simp_all add: KZG_INFINITY_def KZG_BLS_MODULUS_def)
  have d: "length (kzg_default sha) = 192" by (simp add: kzg_default_def kzg_data_def l z)
  have first: "kzg_default sha = 1 # drop 1 (kzg_default sha)"
    by (simp add: kzg_default_def kzg_data_def kzg_versioned_hash_def)
  have hash: "(hd (kzg_default sha) XOR 1) # drop 1 (kzg_default sha) \<noteq> kzg_default sha"
    by (subst (1 3) first) simp
  have "KZG_BLS_MODULUS \<noteq> zeros 31 @ [2]"
  proof
    assume "KZG_BLS_MODULUS = zeros 31 @ [2]"
    then have "from_be KZG_BLS_MODULUS = from_be (zeros 31 @ [2])" by (rule arg_cong)
    then have "from_be KZG_BLS_MODULUS = 2" by (simp only: table_heads)
    then show False by (simp add: KZG_BLS_MODULUS_def from_be_be_fix)
  qed
  then have field: "kzg_data sha KZG_BLS_MODULUS (zeros 32) KZG_INFINITY KZG_INFINITY \<noteq> kzg_default sha"
    using z by (simp add: kzg_default_def kzg_data_def)
  have "hd (zeros 48) \<noteq> hd KZG_INFINITY" by (simp add: KZG_INFINITY_def zeros_def)
  then have "zeros 48 \<noteq> KZG_INFINITY" by auto
  then have point: "kzg_data sha (zeros 31 @ [2]) (zeros 32) (zeros 48) KZG_INFINITY \<noteq> kzg_default sha"
    using l z by (simp add: kzg_default_def kzg_data_def)
  have o: "length x = 192 \<Longrightarrow> outcome sha rip (10, 50000, x) (if x = kzg_default sha then 0 else 13)"
    "length x = 192 \<Longrightarrow> outcome sha rip (10, 49999, x) 4" "length x = 191 \<Longrightarrow> outcome sha rip (10, 50000, x) 13" for x
    by (simp_all add: outcome_def run_one_def pc_ok_def precompiles_def statuses)
  show ?thesis
    using o(1) [of "kzg_default sha"] o(1) [of "(hd (kzg_default sha) XOR 1) # drop 1 (kzg_default sha)"]
      o(1) [of "kzg_data sha KZG_BLS_MODULUS (zeros 32) KZG_INFINITY KZG_INFINITY"]
      o(1) [of "kzg_data sha (zeros 31 @ [2]) (zeros 32) (zeros 48) KZG_INFINITY"] o(2) [of "kzg_default sha"]
      o(3) [of "butlast (kzg_default sha)"] hash field point d l z
    by (simp add: kzg_cases_def Let_def kzg_data_def [of sha])
qed

lemma emap_to_be: "list_all (\<lambda>n. n < 256 ^ k) ns \<Longrightarrow> emap (to_be k) ns = Inr (map (be_fix k) ns)"
  by (induction ns) (simp_all add: to_be_def)

lemma fixed_0:
  obtains h r s where "FIXED_0 = (h, r, s, 1)" "length h = 32" "list_all (\<lambda>n. n < 256 ^ 32) [r, s]"
  by (rule that) (auto simp: FIXED_0_def)

lemma ecrecover_cases_error: "ecrecover_cases = Inl e \<Longrightarrow> e = AssertionError"
  and outcome_ecrecover_cases: "ecrecover_cases = Inr ec \<Longrightarrow> list_all2 (outcome sha rip) ec [0, 0, 0, 4]"
proof -
  obtain h r s where f: "FIXED_0 = (h, r, s, 1)" and h: "length h = 32" and rs: "list_all (\<lambda>n. n < 256 ^ 32) [r, s]"
    by (rule fixed_0)
  obtain a where a: "ecrecover_address secp256k1 (int (from_be h)) (1 + 27) (int r) (int s) = Inr a"
    using ecrecover_total [OF secp256k1_params] by (metis of_nat_0_le_iff)
  let ?b = "\<lambda>v. h @ concat (map (be_fix 32) [v, r, s])"
  have b: "emap (to_be 32) [1 + 27, r, s] = Inr (map (be_fix 32) [1 + 27, r, s])" "emap (to_be 32) [29, r, s] = Inr (map (be_fix 32) [29, r, s])"
    using rs by (simp_all add: emap_to_be del: emap.simps)
  have e: "ecrecover_cases = (if (case a of Some x \<Rightarrow> x \<noteq> [] | None \<Rightarrow> False)
      then Inr [(1, 3000, ?b (1 + 27)), (1, 3000, ?b 29), (1, 3000, []), (1, 2999, ?b (1 + 27))] else Inl AssertionError)"
    by (simp only: ecrecover_cases_def f prod.case a b ebind_simps require_def) simp
  show "ecrecover_cases = Inl e \<Longrightarrow> e = AssertionError" by (auto simp: e split: if_splits)
  have "list_all2 (outcome sha rip) [(1, 3000, ?b (1 + 27)), (1, 3000, ?b 29), (1, 3000, []), (1, 2999, ?b (1 + 27))] [0, 0, 0, 4]"
    using outcome_ecrecover [of 3000 "?b (1 + 27)" sha rip] outcome_ecrecover [of 3000 "?b 29" sha rip] outcome_ecrecover [of 3000 "[]" sha rip]
      outcome_ecrecover [of 2999 "?b (1 + 27)" sha rip] h by simp
  then show "list_all2 (outcome sha rip) ec [0, 0, 0, 4]" if "ecrecover_cases = Inr ec"
    using that by (auto simp only: e sum.inject split: if_splits)
qed

lemma sizes_small:
  assumes "\<And>x. length (sha x) = 32" "\<And>x. length (rip x) = 20" "pc_ok (idx, gas, data)" "run_one sha rip idx gas data = Inr (st, used, out)"
    "idx \<in> set precompiles"
  shows "length out < 2 ^ 32"
proof -
  obtain r where r: "run_one sha rip idx gas data = Inr r" "bounded gas (out_sizes sha rip idx data) r"
    using run_one_bounded [OF assms(5)] by blast
  have "length out \<le> 1024 \<or> length out \<in> set (out_sizes sha rip idx data) \<and> idx \<noteq> 5 \<or> out = []"
  proof (cases "idx = 5")
    case True
    then have "run_modexp gas data = Inr (st, used, out)" using assms(4) by (simp add: run_one_def)
    then show ?thesis by (rule disjI1 [OF run_modexp_small])
  next
    case False
    then show ?thesis using r assms(4) by (auto simp: bounded_def split: if_splits)
  qed
  then show ?thesis using assms(1-3) by (auto simp: out_sizes_def pc_ok_def split: if_splits)
qed

lemma answers_of_outcomes:
  assumes "\<And>x. length (sha x) = 32" "\<And>x. length (rip x) = 20" "list_all2 (outcome sha rip) cs sts"
  shows "\<exists>as. emap (answer_of sha rip) cs = Inr as \<and> map (\<lambda>a. unat (hd a)) as = sts"
  using assms(3)
proof (induction rule: list_all2_induct)
  case (Cons c cs st sts)
  obtain idx gas data where c: "c = (idx, gas, data)" by (cases c)
  obtain used out where o: "pc_ok (idx, gas, data)" "idx \<in> set precompiles" "run_one sha rip idx gas data = Inr (st, used, out)"
    using Cons(1) by (auto simp: outcome_def c)
  have b: "used \<le> gas" "st \<in> {0, 4, 10, 13}"
    using run_one_bounded [OF o(2), of sha rip gas data] o(3) by (auto simp: bounded_def statuses)
  have "length out < 2 ^ 32" by (rule sizes_small [OF assms(1,2) o(1,3,2)])
  then have "pc_answer (st, used, out) = Inr ([word_of_nat st] @ le_fix 8 used @ le_fix 4 (length out) @ out)"
    using b o(1) by (auto simp: pc_answer_def byte1_def pack_u64_def pack_u32_def pc_ok_def)
  then have "answer_of sha rip c = Inr ([word_of_nat st] @ le_fix 8 used @ le_fix 4 (length out) @ out)"
    by (simp add: answer_of_def c o(3))
  moreover have "unat (word_of_nat st :: byte) = st" using b(2) by auto
  ultimately show ?case using Cons(3) by auto
qed simp



section \<open>The library vectors\<close>

lemma modexp_cases_small:
  assumes "\<And>k n. length (rb k n) = n" "list_all (\<lambda>(b, e, m). length b \<le> 1024 \<and> length e \<le> 1024 \<and> length m \<le> 1024) random"
  shows "list_all (\<lambda>(b, e, m). length b \<le> 1024 \<and> length e \<le> 1024 \<and> length m \<le> 1024) (modexp_cases rb random)"
  using assms by (simp add: modexp_cases_def)

theorem modexp_vectors:
  assumes "\<And>k n. length (rb k n) = n" "list_all (\<lambda>(b, e, m). length b \<le> 1024 \<and> length e \<le> 1024 \<and> length m \<le> 1024) random"
  shows "\<exists>blob. modexp_blob rb random = Inr blob \<and>
    exp_modexp blob 0 [] = Inr (concat (map modexp_value (modexp_cases rb random))) \<and>
    length (modexp_cases rb random) = 21 + length random"
proof -
  obtain recs where recs: "emap (\<lambda>(b, e, m). modexp_rec b e m) (modexp_cases rb random) = Inr recs"
    "\<And>pre out. exp_modexp (pre @ concat recs) (length pre) out = Inr (concat (out @ map modexp_value (modexp_cases rb random)))"
    using exp_modexp_stream [OF modexp_cases_small [of rb random, OF assms]] by blast
  have "exp_modexp (concat recs) 0 [] = Inr (concat (map modexp_value (modexp_cases rb random)))"
    using recs(2) [of "[]" "[]"] by simp
  moreover have "length (modexp_cases rb random) = 21 + length random" by (simp add: modexp_cases_def)
  ultimately show ?thesis using recs(1) by (simp add: modexp_blob_def)
qed

end
