(* ===== verification/Kzg.thy ===== *)
theory Kzg
  imports PrecompileTable Records
begin

text \<open>
  The point-evaluation vectors of \<open>tools/gen_kzg_vectors.py\<close>.  The proof check \<open>verify_kzg_proof\<close> and
  the modulus come from the execution specs, which are not in the repository: they are the
  fields of the record \<open>kzg_spec\<close>, where the check may raise any exception.  SHA-256 and the parsed
  file of canonical vectors are arguments.  The theorems say which payloads are accepted, that
  every stream of bytes has an answer, a truncated last record included, and that the precompile oracle
  of \<open>exp_precompiles.py\<close>, which accepts a single payload, gives the verdicts of this
  generator on the cases that both files have.
\<close>

section \<open>The functions of the file\<close>

record kzg_spec =
  BLS_MODULUS :: nat
  verify_kzg_proof :: "bytes \<Rightarrow> bytes \<Rightarrow> bytes \<Rightarrow> bytes \<Rightarrow> bool res"

definition INF_POINT :: bytes where "INF_POINT = 0xc0 # zeros 47"

definition kzg_frame :: "nat \<Rightarrow> bytes \<Rightarrow> bytes res" where
  "kzg_frame ty payload =
     ebind (pack_u64 ty) (\<lambda>t. ebind (pack_u64 (length payload)) (\<lambda>n. Inr (t @ n @ pad8_bytes payload)))"

definition versioned_hash :: "(bytes \<Rightarrow> bytes) \<Rightarrow> bytes \<Rightarrow> bytes" where
  "versioned_hash sha commitment = 1 # drop 1 (sha commitment)"

definition kzg_verify :: "kzg_spec \<Rightarrow> bytes \<Rightarrow> bool" where
  "kzg_verify K data =
     (if length data \<noteq> 192 then False
      else case verify_kzg_proof K (bslice data 96 144) (bslice data 32 64) (bslice data 64 96) (bslice data 144 192) of
             Inr b \<Rightarrow> b
           | Inl e \<Rightarrow> False)"

definition point_evaluation_verdict :: "kzg_spec \<Rightarrow> (bytes \<Rightarrow> bytes) \<Rightarrow> bytes \<Rightarrow> bool" where
  "point_evaluation_verdict K sha data =
     (if length data \<noteq> 192 \<or> bslice data 0 32 \<noteq> versioned_hash sha (bslice data 96 144) then False
      else kzg_verify K data)"

text \<open>
  An entry of the canonical vectors: whether its output is truthy, and the decoded bytes of the
  hexadecimal strings of its input.
\<close>

record kzg_item =
  i_output :: bool
  i_commitment :: bytes
  i_proof :: bytes
  i_z :: bytes
  i_y :: bytes

fun canonical_finite_case :: "kzg_item list \<Rightarrow> (bytes \<times> bytes \<times> bytes \<times> bytes) res" where
  "canonical_finite_case [] = Inl (RuntimeError ''no finite commitment/infinity proof in canonical KZG vectors'')"
| "canonical_finite_case (it # items) =
     (if \<not> i_output it then canonical_finite_case items
      else if i_commitment it \<noteq> INF_POINT \<and> i_proof it = INF_POINT
        then Inr (i_z it, i_y it, i_commitment it, i_proof it)
      else canonical_finite_case items)"

definition kzg_make_cases :: "kzg_spec \<Rightarrow> (bytes \<Rightarrow> bytes) \<Rightarrow> kzg_item list \<Rightarrow> (nat \<times> bytes) list res" where
  "kzg_make_cases K sha items =
     (let zero = INF_POINT;
          z = be_fix 32 2;
          y = zeros 32;
          valid_zero = versioned_hash sha zero @ z @ y @ zero @ zero
      in ebind (canonical_finite_case items) (\<lambda>(finite_z, finite_y, finite_commitment, finite_proof).
           let valid_finite = versioned_hash sha finite_commitment @ finite_z @ finite_y @ finite_commitment @ finite_proof;
               wrong_y = valid_zero[95 := 1];
               wrong_hash = valid_zero[0 := (valid_zero ! 0) XOR 1]
           in ebind (to_be 32 (BLS_MODULUS K)) (\<lambda>m.
                let out_of_range_z = take 32 valid_zero @ m @ drop 64 valid_zero;
                    invalid_commitment = zeros 48;
                    invalid_point = versioned_hash sha invalid_commitment @ z @ y @ invalid_commitment @ zero
                in Inr [(1, valid_zero), (2, valid_finite), (3, wrong_y), (4, wrong_hash), (5, out_of_range_z),
                        (6, invalid_point), (7, butlast valid_zero)])))"

definition kzg_result :: "kzg_spec \<Rightarrow> (bytes \<Rightarrow> bytes) \<Rightarrow> bytes \<Rightarrow> bytes res" where
  \<comment> \<open>the error word and the 64 bytes of the result\<close>
  "kzg_result K sha payload =
     (let err = (if point_evaluation_verdict K sha payload then 0 else 1)
      in ebind (if err = 0 then ebind (to_be 32 (BLS_MODULUS K)) (\<lambda>m. Inr (zeros 30 @ [0x10, 0] @ m)) else Inr (zeros 64)) (\<lambda>result.
         ebind (pack_u64 err) (\<lambda>w. Inr (w @ result))))"

function kzg_expected_loop :: "kzg_spec \<Rightarrow> (bytes \<Rightarrow> bytes) \<Rightarrow> bytes \<Rightarrow> nat \<Rightarrow> bytes \<Rightarrow> bytes res" where
  "kzg_expected_loop K sha blob pos out =
     (if pos + 16 \<le> length blob then
        let ty = from_le (bslice blob pos (pos + 8));
            n = from_le (bslice blob (pos + 8) (pos + 16));
            end = pos + 16 + align8 n
        in if end > length blob then Inr out
           else let payload = bslice blob (pos + 16) (pos + 16 + n)
                in ebind (kzg_result K sha payload) (\<lambda>r.
                   ebind (kzg_frame ty r) (\<lambda>f. kzg_expected_loop K sha blob end (out @ f)))
      else Inr out)"
  by pat_completeness auto
termination kzg_expected_loop
  by (relation "measure (\<lambda>(K, sha, blob, pos, out). length blob - pos)") auto

declare kzg_expected_loop.simps [simp del]

definition kzg_expected :: "kzg_spec \<Rightarrow> (bytes \<Rightarrow> bytes) \<Rightarrow> bytes \<Rightarrow> bytes res" where
  "kzg_expected K sha blob = kzg_expected_loop K sha blob 0 []"

definition kzg_blob :: "kzg_spec \<Rightarrow> (bytes \<Rightarrow> bytes) \<Rightarrow> kzg_item list \<Rightarrow> bytes res" where
  "kzg_blob K sha items =
     ebind (kzg_make_cases K sha items) (\<lambda>records. ebind (emap (\<lambda>(ty, payload). kzg_frame ty payload) records) (\<lambda>fs. Inr (concat fs)))"

definition kzg_input_file :: "bytes \<Rightarrow> bytes res" where
  "kzg_input_file blob = ebind (pack_u64 (length blob)) (\<lambda>n. Inr (n @ pad8_bytes blob))"

section \<open>Verdicts\<close>

lemma point_evaluation_verdict_iff:
  "point_evaluation_verdict K sha data \<longleftrightarrow>
     length data = 192 \<and> take 32 data = versioned_hash sha (bslice data 96 144) \<and>
     verify_kzg_proof K (bslice data 96 144) (bslice data 32 64) (bslice data 64 96) (bslice data 144 192) = Inr True"
  by (auto simp: point_evaluation_verdict_def kzg_verify_def bslice_def [of data 0] split: sum.splits)

text \<open>A payload that is laid out as the code lays it out.\<close>

lemma verdict_layout:
  assumes "length h = 32" "length z = 32" "length y = 32" "length c = 48" "length p = 48"
  shows "point_evaluation_verdict K sha (h @ z @ y @ c @ p) \<longleftrightarrow> h = versioned_hash sha c \<and> verify_kzg_proof K c z y p = Inr True"
proof -
  have "bslice (h @ z @ y @ c @ p) 32 64 = z" "bslice (h @ z @ y @ c @ p) 64 96 = y"
    "bslice (h @ z @ y @ c @ p) 96 144 = c" "bslice (h @ z @ y @ c @ p) 144 192 = p" "take 32 (h @ z @ y @ c @ p) = h"
    using assms by (simp_all add: bslice_def)
  then show ?thesis using assms by (simp add: point_evaluation_verdict_iff)
qed

lemma length_versioned_hash: "length (sha c) = 32 \<Longrightarrow> length (versioned_hash sha c) = 32"
  by (simp add: versioned_hash_def)

lemma length_inf [simp]: "length INF_POINT = 48"
  by (simp add: INF_POINT_def)

lemma kzg_result_eq:
  assumes "BLS_MODULUS K < 256 ^ 32"
  shows "kzg_result K sha payload = Inr (if point_evaluation_verdict K sha payload
     then le_fix 8 0 @ zeros 30 @ [0x10, 0] @ be_fix 32 (BLS_MODULUS K) else le_fix 8 1 @ zeros 64)"
  using assms by (simp add: kzg_result_def to_be_def pack_u64_def)

lemma length_kzg_result: "kzg_result K sha payload = Inr r \<Longrightarrow> length r = 72"
  by (auto simp: kzg_result_def to_be_def pack_u64_def split: if_splits)

lemma kzg_frame_eq: "kzg_frame = frame_record"
  by (intro ext) (simp add: kzg_frame_def frame_record_def)

section \<open>The answer stream\<close>

lemma kzg_expected_loop_total:
  "BLS_MODULUS K < 256 ^ 32 \<Longrightarrow>
   \<exists>as. kzg_expected_loop K sha blob pos out = Inr (out @ concat as) \<and> list_all (\<lambda>a. length a = 88) as"
proof (induction K sha blob pos out rule: kzg_expected_loop.induct)
  case (1 K sha blob pos out)
  define ty where "ty = from_le (bslice blob pos (pos + 8))"
  define n where "n = from_le (bslice blob (pos + 8) (pos + 16))"
  show ?case
  proof (cases "pos + 16 \<le> length blob \<and> \<not> pos + 16 + align8 n > length blob")
    case False
    then have "kzg_expected_loop K sha blob pos out = Inr (out @ concat [])"
      by (subst kzg_expected_loop.simps) (auto simp: Let_def n_def)
    then show ?thesis by (intro exI [of _ "[]"]) simp
  next
    case True
    define payload where "payload = bslice blob (pos + 16) (pos + 16 + n)"
    obtain r where r: "kzg_result K sha payload = Inr r" using kzg_result_eq [OF "1.prems"] by blast
    have "length (bslice blob pos (pos + 8)) = 8" using True by (auto simp: min_def)
    then have "ty < 256 ^ 8" using from_le_less [of "bslice blob pos (pos + 8)"] by (simp only: ty_def)
    then have ty: "ty < 2 ^ 64" by simp
    have len: "length r = 72" by (rule length_kzg_result [OF r])
    define f where "f = le_fix 8 ty @ le_fix 8 (length r) @ pad8_bytes r"
    have f: "kzg_frame ty r = Inr f" unfolding kzg_frame_eq frame_record_Inr using ty len by (simp add: f_def)
    have l: "length f = 88" using len by (simp add: f_def length_pad8 align8_eq)
    have step: "kzg_expected_loop K sha blob pos out = kzg_expected_loop K sha blob (pos + 16 + align8 n) (out @ f)"
      using True r f by (subst kzg_expected_loop.simps) (simp add: Let_def ty_def n_def payload_def)
    obtain as where as: "kzg_expected_loop K sha blob (pos + 16 + align8 n) (out @ f) = Inr ((out @ f) @ concat as)"
      "list_all (\<lambda>a. length a = 88) as"
      using "1.IH" [OF conjunct1 [OF True] ty_def n_def refl conjunct2 [OF True] payload_def r f "1.prems"] by blast
    then show ?thesis using step l by (intro exI [of _ "f # as"]) simp
  qed
qed

lemma kzg_loop_frame:
  assumes f: "frame_record ty p = Inr f"
  shows "kzg_expected_loop K sha (pre @ f @ post) (length pre) out =
    ebind (kzg_result K sha p) (\<lambda>r. ebind (frame_record ty r) (\<lambda>g.
      kzg_expected_loop K sha (pre @ f @ post) (length (pre @ f)) (out @ g)))"
proof -
  have n: "ty < 2 ^ 64" "length p < 2 ^ 64" and fe: "f = le_fix 8 ty @ le_fix 8 (length p) @ pad8_bytes p"
    using f by (auto simp: frame_record_Inr)
  have t: "from_le (bslice (pre @ f @ post) (length pre) (length pre + 8)) = ty"
    and l: "from_le (bslice (pre @ f @ post) (length pre + 8) (length pre + 16)) = length p"
    and p: "bslice (pre @ f @ post) (length pre + 16) (length pre + 16 + length p) = p"
    using n by (simp_all add: bslice_def fe pad8_bytes_def from_le_le_fix)
  have q: "length pre + 16 + align8 (length p) = length (pre @ f)" using length_frame [OF f] by simp
  have c: "length pre + 16 \<le> length (pre @ f @ post)" "\<not> length (pre @ f) > length (pre @ f @ post)"
    using length_frame [OF f] by simp_all
  show ?thesis
    by (subst kzg_expected_loop.simps) (simp only: c if_True if_False Let_def t l p q kzg_frame_eq)
qed

lemma kzg_loop_frames:
  "emap (\<lambda>rec. frame_record (fst rec) (snd rec)) recs = Inr fs \<Longrightarrow>
   kzg_expected_loop K sha (pre @ concat fs) (length pre) out =
     ebind (emap (answer (\<lambda>_. kzg_result K sha)) recs) (\<lambda>gs. Inr (out @ concat gs))"
proof (induction recs arbitrary: fs pre out)
  case Nil
  then show ?case by (subst kzg_expected_loop.simps) simp
next
  case (Cons rec recs)
  then obtain f fs' where f: "frame_record (fst rec) (snd rec) = Inr f" and fs: "fs = f # fs'"
    and fs': "emap (\<lambda>rec. frame_record (fst rec) (snd rec)) recs = Inr fs'"
    by (auto simp: ebind_Inr_iff)
  have IH: "kzg_expected_loop K sha (pre @ f @ concat fs') (length (pre @ f)) out' =
      ebind (emap (answer (\<lambda>_. kzg_result K sha)) recs) (\<lambda>gs. Inr (out' @ concat gs))" for out'
    using Cons.IH [OF fs', of "pre @ f" out'] by simp
  show ?case
    unfolding fs concat.simps kzg_loop_frame [OF f] IH by (simp add: answer_def [of _ rec] ebind_assoc)
qed

text \<open>
  On a stream of records this loop and the loop of the curve generators, which has no test for a
  truncated last record, give the same answers.
\<close>

lemma kzg_expected_run_records:
  "emap (\<lambda>rec. frame_record (fst rec) (snd rec)) recs = Inr fs \<Longrightarrow>
   kzg_expected K sha (concat fs) = run_records (\<lambda>_. kzg_result K sha) (concat fs) 0 []"
  using kzg_loop_frames [of recs fs K sha "[]" "[]"] by (simp add: kzg_expected_def run_records_frames)

section \<open>The table of cases\<close>

definition kzg_answer :: "kzg_spec \<Rightarrow> nat \<Rightarrow> bool \<Rightarrow> bytes" where
  \<comment> \<open>the frame of an answer\<close>
  "kzg_answer K ty ok = le_fix 8 ty @ le_fix 8 72 @
     (if ok then le_fix 8 0 @ zeros 30 @ [0x10, 0] @ be_fix 32 (BLS_MODULUS K) else le_fix 8 1 @ zeros 64)"

lemma answer_kzg:
  assumes "BLS_MODULUS K < 256 ^ 32" "fst rec < 2 ^ 64"
  shows "answer (\<lambda>_. kzg_result K sha) rec = Inr (kzg_answer K (fst rec) (point_evaluation_verdict K sha (snd rec)))"
proof -
  obtain r where r: "kzg_result K sha (snd rec) = Inr r" using kzg_result_eq [OF assms(1)] by blast
  have "pad8_bytes r = r" using length_kzg_result [OF r] by (simp add: pad8_bytes_def zeros_def)
  then have "frame_record (fst rec) r = Inr (le_fix 8 (fst rec) @ le_fix 8 72 @ r)"
    using assms(2) length_kzg_result [OF r] by (simp add: frame_record_Inr)
  then show ?thesis using r kzg_result_eq [OF assms(1), of sha "snd rec"]
    by (simp add: answer_def kzg_answer_def split: if_splits)
qed

lemma wrong_y_eq:
  assumes "length h = 32" "length z = 32"
  shows "(h @ z @ zeros 32 @ c)[95 := 1] = h @ z @ (zeros 31 @ [1]) @ c"
proof -
  have "(h @ z @ zeros 32 @ c)[95 := 1] = h @ z @ (zeros 32)[31 := 1] @ c"
    using assms by (simp add: list_update_append)
  also have "(zeros 32)[31 := 1] = zeros 31 @ [1]"
  proof -
    have "zeros 32 = zeros 31 @ [0]" using replicate_add [of 31 1 "0 :: byte"] by (simp add: zeros_def)
    then show ?thesis by (simp add: list_update_append)
  qed
  finally show ?thesis .
qed

lemma kzg_make_cases_eq:
  assumes "canonical_finite_case items = Inr (fz, fy, fc, fp)" "BLS_MODULUS K < 256 ^ 32" "\<And>c. length (sha c) = 32"
  shows "kzg_make_cases K sha items = Inr
    (let vz = versioned_hash sha INF_POINT @ be_fix 32 2 @ zeros 32 @ INF_POINT @ INF_POINT in
     [(1, vz), (2, versioned_hash sha fc @ fz @ fy @ fc @ fp),
      (3, versioned_hash sha INF_POINT @ be_fix 32 2 @ (zeros 31 @ [1]) @ INF_POINT @ INF_POINT),
      (4, (0 # drop 1 (sha INF_POINT)) @ be_fix 32 2 @ zeros 32 @ INF_POINT @ INF_POINT),
      (5, versioned_hash sha INF_POINT @ be_fix 32 (BLS_MODULUS K) @ zeros 32 @ INF_POINT @ INF_POINT),
      (6, versioned_hash sha (zeros 48) @ be_fix 32 2 @ zeros 32 @ zeros 48 @ INF_POINT), (7, butlast vz)])"
proof -
  let ?h = "versioned_hash sha INF_POINT" and ?z = "be_fix 32 2 :: bytes"
  let ?vz = "?h @ ?z @ zeros 32 @ INF_POINT @ INF_POINT"
  have h: "length ?h = 32" using assms(3) by (rule length_versioned_hash)
  have y: "?vz[95 := 1] = ?h @ ?z @ (zeros 31 @ [1]) @ INF_POINT @ INF_POINT" using h by (rule wrong_y_eq) simp
  have w: "?vz[0 := ?vz ! 0 XOR 1] = (0 # drop 1 (sha INF_POINT)) @ ?z @ zeros 32 @ INF_POINT @ INF_POINT"
    by (simp add: versioned_hash_def)
  have o: "take 32 ?vz @ m @ drop 64 ?vz = ?h @ m @ zeros 32 @ INF_POINT @ INF_POINT" for m
    using h by simp
  show ?thesis
    unfolding kzg_make_cases_def Let_def y w o assms(1) ebind_simps prod.case
    using assms(2) by (simp add: to_be_def)
qed

text \<open>The seven cases of the generator on a verifier that accepts the two valid proofs and rejects, by
  its verdict or by an exception, the three altered ones: the file of expected answers says valid for
  the first two and invalid for the others.  The flipped hash byte and the truncated payload are rejected
  whatever the verifier says of them.\<close>

theorem kzg_vectors:
  fixes K :: kzg_spec
  assumes "BLS_MODULUS K < 256 ^ 32" "\<And>c. length (sha c) = 32"
    and "canonical_finite_case items = Inr (fz, fy, fc, fp)"
    and "length fz = 32" "length fy = 32" "length fc = 48" "length fp = 48"
    and "verify_kzg_proof K INF_POINT (be_fix 32 2) (zeros 32) INF_POINT = Inr True"
    and "verify_kzg_proof K fc fz fy fp = Inr True"
    and "verify_kzg_proof K INF_POINT (be_fix 32 2) (zeros 31 @ [1]) INF_POINT \<noteq> Inr True"
    and "verify_kzg_proof K INF_POINT (be_fix 32 (BLS_MODULUS K)) (zeros 32) INF_POINT \<noteq> Inr True"
    and "verify_kzg_proof K (zeros 48) (be_fix 32 2) (zeros 32) INF_POINT \<noteq> Inr True"
  shows "\<exists>blob. kzg_blob K sha items = Inr blob \<and>
    kzg_expected K sha blob = Inr (concat (map (\<lambda>(ty, ok). kzg_answer K ty ok)
      [(1, True), (2, True), (3, False), (4, False), (5, False), (6, False), (7, False)]))"
proof -
  have fp: "length (sha c) = 32" "length (versioned_hash sha c) = 32" for c
    using assms(2) length_versioned_hash by auto
  obtain recs where recs: "kzg_make_cases K sha items = Inr recs" and ty: "map fst recs = [1, 2, 3, 4, 5, 6, 7]"
    and small: "list_all (\<lambda>rec. fst rec < 2 ^ 64 \<and> length (snd rec) < 2 ^ 64) recs"
    and ok: "map (\<lambda>rec. point_evaluation_verdict K sha (snd rec)) recs = [True, True, False, False, False, False, False]"
  proof
    show "kzg_make_cases K sha items = Inr (projr (kzg_make_cases K sha items))"
      using kzg_make_cases_eq [OF assms(3) assms(1) assms(2)] by simp
    have "\<not> point_evaluation_verdict K sha (butlast p)" if "length p = 192" for p
      using that by (simp add: point_evaluation_verdict_iff)
    moreover have "\<not> point_evaluation_verdict K sha (versioned_hash sha INF_POINT @ be_fix 32 2 @ (zeros 31 @ [1]) @ INF_POINT @ INF_POINT)"
      by (subst verdict_layout) (use fp assms(10) in simp_all)
    moreover have "\<not> point_evaluation_verdict K sha ((0 # drop 1 (sha INF_POINT)) @ be_fix 32 2 @ zeros 32 @ INF_POINT @ INF_POINT)"
      by (subst verdict_layout) (use fp in \<open>simp_all add: versioned_hash_def\<close>)
    ultimately show "map (\<lambda>rec. point_evaluation_verdict K sha (snd rec)) (projr (kzg_make_cases K sha items)) =
        [True, True, False, False, False, False, False]"
      unfolding kzg_make_cases_eq [OF assms(3) assms(1) assms(2)] Let_def
      using assms(4-) fp by (simp only: list.map snd_conv sum.sel verdict_layout length_be_fix length_zeros length_inf length_append) simp
  qed (use kzg_make_cases_eq [OF assms(3) assms(1) assms(2)] assms(4-7) fp in \<open>simp_all add: Let_def\<close>)
  define fs where "fs = map (\<lambda>rec. le_fix 8 (fst rec) @ le_fix 8 (length (snd rec)) @ pad8_bytes (snd rec)) recs"
  have fs: "emap (\<lambda>rec. frame_record (fst rec) (snd rec)) recs = Inr fs"
    unfolding fs_def using small by (intro emap_Inr) (simp add: frame_record_Inr list_all_iff)
  have "emap (answer (\<lambda>_. kzg_result K sha)) recs =
      Inr (map (\<lambda>rec. kzg_answer K (fst rec) (point_evaluation_verdict K sha (snd rec))) recs)"
    using small assms(1) by (intro emap_Inr) (simp add: answer_kzg list_all_iff)
  then have "kzg_expected K sha (concat fs) =
      Inr (concat (map (\<lambda>rec. kzg_answer K (fst rec) (point_evaluation_verdict K sha (snd rec))) recs))"
    using kzg_loop_frames [OF fs, of K sha "[]" "[]"] by (simp add: kzg_expected_def)
  also have "map (\<lambda>rec. kzg_answer K (fst rec) (point_evaluation_verdict K sha (snd rec))) recs =
      map (\<lambda>(ty, ok). kzg_answer K ty ok) (zip (map fst recs) (map (\<lambda>rec. point_evaluation_verdict K sha (snd rec)) recs))"
    by (simp add: zip_map_map zip_same_conv_map)
  finally have "kzg_expected K sha (concat fs) = Inr (concat (map (\<lambda>(ty, ok). kzg_answer K ty ok)
      [(1, True), (2, True), (3, False), (4, False), (5, False), (6, False), (7, False)]))"
    unfolding ty ok by simp
  moreover have "kzg_blob K sha items = Inr (concat fs)"
    unfolding kzg_blob_def recs ebind_simps kzg_frame_eq case_prod_beta fs ..
  ultimately show ?thesis by blast
qed

definition toy_kzg :: kzg_spec where
  "toy_kzg = \<lparr>BLS_MODULUS = 97, verify_kzg_proof = (\<lambda>c z y p.
     if (c, z, y, p) \<in> {(INF_POINT, be_fix 32 2, zeros 32, INF_POINT), (0xb0 # zeros 47, zeros 32, zeros 32, INF_POINT)}
     then Inr True else if c = zeros 48 then Inl ValueError else Inr False)\<rparr>"

lemma kzg_vectors_witness:
  "\<exists>blob. kzg_blob toy_kzg (\<lambda>_. zeros 32) [\<lparr>i_output = False, i_commitment = [], i_proof = [], i_z = [], i_y = []\<rparr>,
      \<lparr>i_output = True, i_commitment = 0xb0 # zeros 47, i_proof = INF_POINT, i_z = zeros 32, i_y = zeros 32\<rparr>] = Inr blob \<and>
    kzg_expected toy_kzg (\<lambda>_. zeros 32) blob = Inr (concat (map (\<lambda>(ty, ok). kzg_answer toy_kzg ty ok)
      [(1, True), (2, True), (3, False), (4, False), (5, False), (6, False), (7, False)]))"
proof -
  have ne: "be_fix 32 97 \<noteq> (be_fix 32 2 :: bytes)" "be_fix 32 97 \<noteq> zeros 32"
    by (rule notI, drule arg_cong [where f = from_be], simp add: from_be_be_fix)+
  have y: "zeros 31 @ [1] \<noteq> zeros 32" by (rule notI, drule arg_cong [where f = last]) (simp add: zeros_def last_replicate)
  have c: "zeros 48 = 0 # zeros 47" by (simp only: zeros_def flip: replicate_Suc) simp
  show ?thesis
    by (rule kzg_vectors [where fz = "zeros 32" and fy = "zeros 32" and fc = "0xb0 # zeros 47" and fp = INF_POINT]) (use ne y c in \<open>simp_all add: toy_kzg_def INF_POINT_def\<close>)
qed

section \<open>Agreement with the precompile oracle\<close>

text \<open>
  \<open>exp_precompiles.py\<close> accepts one payload only.  What it accepts has a valid verdict here with the
  same 64 bytes of result, when the verifier accepts the zero-polynomial proof.
\<close>

lemma kzg_default_verdict:
  assumes "\<And>c. length (sha c) = 32"
  shows "point_evaluation_verdict K sha (kzg_default sha) \<longleftrightarrow>
    verify_kzg_proof K INF_POINT (be_fix 32 2) (zeros 32) INF_POINT = Inr True"
proof -
  have z: "be_fix 32 2 = zeros 31 @ [2]"
    by (intro from_be_inj) (simp_all add: from_be_be_fix from_be_zeros)
  show ?thesis
    unfolding kzg_default_def kzg_data_def kzg_versioned_hash_def z
    using verdict_layout [of "versioned_hash sha INF_POINT" "zeros 31 @ [2]" "zeros 32" INF_POINT INF_POINT K sha] length_versioned_hash [of sha INF_POINT] assms
    by (simp add: versioned_hash_def INF_POINT_def KZG_INFINITY_def)
qed

theorem kzg_oracle_sound:
  assumes "\<And>c. length (sha c) = 32"
    and "BLS_MODULUS K = 0x73eda753299d7d483339d80809a1d80553bda402fffe5bfeffffffff00000001"
    and "verify_kzg_proof K INF_POINT (be_fix 32 2) (zeros 32) INF_POINT = Inr True"
    and "run_one sha rip 10 gas data = Inr (0, used, out)"
  shows "used = 50000 \<and> kzg_result K sha data = Inr (le_fix 8 0 @ out)"
proof -
  have data: "data = kzg_default sha" and used: "used = 50000"
    and out: "out = zeros 30 @ [0x10, 0] @ be_fix 32 (BLS_MODULUS K)"
    using assms(2,4) by (auto simp: run_one_def Let_def statuses split: if_splits)
  have "point_evaluation_verdict K sha data" unfolding data using assms(3) by (simp add: kzg_default_verdict [OF assms(1)])
  then show ?thesis using used out by (simp add: kzg_result_eq assms(2))
qed

end
