(* ===== verification/Text.thy ===== *)
theory Text
  imports Eest
begin

text \<open>
  Text that the measuring tools read and write: the thousands separators of \<open>f"{n:,}"\<close>, the numbers that
  the regular expressions of \<open>tools/compare-clients.py\<close> and \<open>tools/bench.py\<close> find in the
  output of an emulator, \<open>str.split\<close> and \<open>bytes.fromhex\<close>.  The expressions are deterministic except for the
  word boundary after a number, where the longest admissible prefix is taken, as the matcher does on backtracking.
\<close>

section \<open>Splitting and hexadecimal\<close>

fun split_on :: "char \<Rightarrow> string \<Rightarrow> string list" where
  \<comment> \<open>\<open>s.split(c)\<close>\<close>
  "split_on c [] = [[]]"
| "split_on c (x # s) = (if x = c then [] # split_on c s
     else case split_on c s of [] \<Rightarrow> [[x]] | p # ps \<Rightarrow> (x # p) # ps)"

definition hex_value :: "char \<Rightarrow> nat option" where
  "hex_value c = (let n = of_char c :: nat in
     if 48 \<le> n \<and> n \<le> 57 then Some (n - 48) else if 97 \<le> n \<and> n \<le> 102 then Some (n - 87)
     else if 65 \<le> n \<and> n \<le> 70 then Some (n - 55) else None)"

definition ascii_space :: "char \<Rightarrow> bool" where
  "ascii_space c = ((of_char c :: nat) \<in> {9, 10, 11, 12, 13, 32})"

fun fromhex :: "string \<Rightarrow> bytes res" where
  \<comment> \<open>\<open>bytes.fromhex(s)\<close>: blanks may stand between bytes, not inside one\<close>
  "fromhex [] = Inr []"
| "fromhex [c] = (if ascii_space c then Inr [] else Inl ValueError)"
| "fromhex (c # d # s) =
     (if ascii_space c then fromhex (d # s)
      else case (hex_value c, hex_value d) of
        (Some h, Some l) \<Rightarrow> ebind (fromhex s) (\<lambda>bs. Inr (word_of_nat (16 * h + l) # bs))
      | _ \<Rightarrow> Inl ValueError)"

section \<open>Numbers in text\<close>

fun commas :: "nat \<Rightarrow> string" where
  \<comment> \<open>\<open>f"{n:,}"\<close>\<close>
  "commas n = (if n < 1000 then dec_nat n
     else commas (n div 1000) @ '','' @ [digit (n div 100 mod 10), digit (n div 10 mod 10), digit (n mod 10)])"

declare commas.simps [simp del]

definition is_digit :: "char \<Rightarrow> bool" where "is_digit c = (48 \<le> (of_char c :: nat) \<and> (of_char c :: nat) \<le> 57)"

definition digit_or_comma :: "char \<Rightarrow> bool" where "digit_or_comma c = (is_digit c \<or> c = CHR '','')"

definition strip_commas :: "string \<Rightarrow> string" where
  \<comment> \<open>\<open>s.replace(",", "")\<close>\<close>
  "strip_commas = filter (\<lambda>c. c \<noteq> CHR '','')"

definition parse_int :: "string \<Rightarrow> nat res" where
  \<comment> \<open>\<open>int(s)\<close> of a string of digits, which may be empty\<close>
  "parse_int s = (if s = [] then Inl ValueError else Inr (read_nat s))"

fun line_starts :: "bool \<Rightarrow> string \<Rightarrow> string list" where
  \<comment> \<open>the suffixes at which \<open>^\<close> matches under \<open>re.M\<close>\<close>
  "line_starts b [] = (if b then [[]] else [])"
| "line_starts b (c # s) = (if b then [c # s] else []) @ line_starts ((of_char c :: nat) = 10) s"

fun first_some :: "('a \<Rightarrow> 'b option) \<Rightarrow> 'a list \<Rightarrow> 'b option" where
  "first_some f [] = None"
| "first_some f (x # xs) = (case f x of Some y \<Rightarrow> Some y | None \<Rightarrow> first_some f xs)"

definition number_here :: "string \<Rightarrow> string \<Rightarrow> string option" where
  \<comment> \<open>\<open>label\s+([\d,]+)\<close> at the head of a suffix: the group\<close>
  "number_here label s =
     (if starts label s then
        let r = drop (length label) s; ds = takeWhile digit_or_comma (dropWhile space r)
        in if takeWhile space r \<noteq> [] \<and> ds \<noteq> [] then Some ds else None
      else None)"

definition find_number :: "string \<Rightarrow> string \<Rightarrow> nat option res" where
  \<comment> \<open>\<open>re.search(rf"^{label}\s+([\d,]+)", text, re.M)\<close>, then \<open>int(m.group(1).replace(",", ""))\<close>\<close>
  "find_number label txt =
     (case first_some (number_here label) (line_starts True txt) of
        None \<Rightarrow> Inr None
      | Some ds \<Rightarrow> ebind (parse_int (strip_commas ds)) (\<lambda>n. Inr (Some n)))"

definition word_char :: "char \<Rightarrow> bool" where
  \<comment> \<open>\<open>\w\<close> on the characters below 128\<close>
  "word_char c = (let n = of_char c :: nat in (48 \<le> n \<and> n \<le> 57) \<or> (65 \<le> n \<and> n \<le> 90) \<or> (97 \<le> n \<and> n \<le> 122) \<or> n = 95)"

definition boundary_at :: "string \<Rightarrow> nat \<Rightarrow> bool" where
  \<comment> \<open>\<open>\b\<close> after \<open>k\<close> characters, the last of which exists\<close>
  "boundary_at s k = (word_char (s ! (k - 1)) \<noteq> (k < length s \<and> word_char (s ! k)))"

definition number_prefix :: "string \<Rightarrow> string option" where
  \<comment> \<open>\<open>([0-9][0-9,]*)\b\<close> at the head of a suffix\<close>
  "number_prefix s =
     (case s of [] \<Rightarrow> None
      | c # _ \<Rightarrow> if \<not> is_digit c then None
          else map_option (\<lambda>k. take k s) (find (boundary_at s) (rev [1..<length (takeWhile digit_or_comma s) + 1])))"

definition lower :: "char \<Rightarrow> char" where
  "lower c = (let n = of_char c :: nat in if 65 \<le> n \<and> n \<le> 90 then char_of (n + 32) else c)"

fun match_label :: "string list list \<Rightarrow> string \<Rightarrow> string option" where
  \<comment> \<open>a label is a list of words with blanks between, each word with its alternatives; the rest of the text\<close>
  "match_label [] s = Some s"
| "match_label (ws # rest) s =
     first_some (\<lambda>w. if starts (map lower w) (map lower s)
        then let r = drop (length w) s
             in if rest = [] then Some r
                else if takeWhile space r = [] then None else match_label rest (dropWhile space r)
        else None) ws"

definition metric_with_sign :: "string list list \<Rightarrow> string \<Rightarrow> string option" where
  \<comment> \<open>\<open>^\s*label\s*[:=]\s*number\b\<close>\<close>
  "metric_with_sign label s =
     (case match_label label (dropWhile space s) of
        None \<Rightarrow> None
      | Some r \<Rightarrow> (case dropWhile space r of
          c # t \<Rightarrow> if c = CHR '':'' \<or> c = CHR ''='' then number_prefix (dropWhile space t) else None
        | [] \<Rightarrow> None))"

definition metric_after_blank :: "string list list \<Rightarrow> string \<Rightarrow> string option" where
  \<comment> \<open>\<open>^\s*label\s+number\b\<close>\<close>
  "metric_after_blank label s =
     (case match_label label (dropWhile space s) of
        None \<Rightarrow> None
      | Some r \<Rightarrow> if takeWhile space r = [] then None else number_prefix (dropWhile space r))"

definition grab_metric :: "string \<Rightarrow> string list list \<Rightarrow> int" where
  \<comment> \<open>the first pattern that matches anywhere decides; the group starts with a digit, so \<open>int\<close> accepts it\<close>
  "grab_metric txt label =
     (case first_some (metric_with_sign label) (line_starts True txt) of
        Some ds \<Rightarrow> int (read_nat (strip_commas ds))
      | None \<Rightarrow> (case first_some (metric_after_blank label) (line_starts True txt) of
          Some ds \<Rightarrow> int (read_nat (strip_commas ds))
        | None \<Rightarrow> - 1))"

definition find_steps :: "string \<Rightarrow> int" where
  \<comment> \<open>\<open>re.search(r"\bsteps=(\d+)", s)\<close>, \<open>-1\<close> where there is none\<close>
  "find_steps s =
     (case first_some (\<lambda>i. if starts ''steps='' (drop i s) \<and> (i = 0 \<or> \<not> word_char (s ! (i - 1)))
            then let ds = takeWhile is_digit (drop (i + 6) s) in if ds = [] then None else Some ds
            else None) [0..<length s] of
        Some ds \<Rightarrow> int (read_nat ds)
      | None \<Rightarrow> - 1)"

section \<open>Reading back what is printed\<close>

lemma of_char_hex_digit: "n < 16 \<Longrightarrow> of_char (hex_digit n) = (if n < 10 then 48 + n else 87 + n)"
  by (simp add: hex_digit_def of_char_of)

lemma hex_value_digit [simp]: "n < 16 \<Longrightarrow> hex_value (hex_digit n) = Some n"
  by (auto simp: hex_value_def of_char_hex_digit Let_def)

lemma hex_digit_not_space [simp]: "n < 16 \<Longrightarrow> \<not> ascii_space (hex_digit n)"
  by (auto simp: ascii_space_def of_char_hex_digit)

lemma fromhex_hex: "fromhex (hex bs) = Inr bs"
proof (induction bs)
  case (Cons b bs)
  have d: "unat b div 16 < 16" "unat b mod 16 < 16" using byte_less [of b] by simp_all
  have "word_of_nat (16 * (unat b div 16) + unat b mod 16) = b" by simp
  moreover have "hex (b # bs) = hex_digit (unat b div 16) # hex_digit (unat b mod 16) # hex bs" by (simp add: hex_def)
  ultimately show ?case using d Cons.IH by simp
qed (simp add: hex_def)

lemma is_digit_digit [simp]: "d < 10 \<Longrightarrow> is_digit (digit d)"
  by (simp add: is_digit_def)

lemma digit_not_comma [simp]: "d < 10 \<Longrightarrow> digit d \<noteq> CHR '',''"
proof
  assume d: "d < 10" "digit d = CHR '',''"
  then have "(48 + d :: nat) = of_char (CHR '','')" by (metis of_char_digit)
  then show False by simp
qed

lemma dec_nat_is_digit: "list_all is_digit (dec_nat n)" "dec_nat n \<noteq> []"
proof -
  have "is_digit c" if "c \<in> set (dec_nat n)" for c using dec_nat_digits [OF that] by (simp add: is_digit_def)
  then show "list_all is_digit (dec_nat n)" by (simp add: list_all_iff)
  show "dec_nat n \<noteq> []" using dec_nat_head [of n] by auto
qed

lemma strip_digits: "list_all is_digit s \<Longrightarrow> strip_commas s = s"
  by (induction s) (auto simp: strip_commas_def is_digit_def)

lemma strip_append [simp]: "strip_commas (s @ t) = strip_commas s @ strip_commas t"
  by (simp add: strip_commas_def)

lemma dec_nat_step: "10 \<le> n \<Longrightarrow> dec_nat n = dec_nat (n div 10) @ [digit (n mod 10)]"
  by (subst dec_nat.simps) simp

lemma dec_nat_split: "1000 \<le> n \<Longrightarrow> dec_nat n = dec_nat (n div 1000) @ [digit (n div 100 mod 10), digit (n div 10 mod 10), digit (n mod 10)]"
proof -
  assume n: "1000 \<le> n"
  then have b: "10 \<le> n" "10 \<le> n div 10" "10 \<le> n div 100" by linarith+
  have d: "n div 10 div 10 = n div 100" "n div 100 div 10 = n div 1000" by (simp_all add: div_mult2_eq [symmetric])
  show ?thesis
    using dec_nat_step [OF b(1)] dec_nat_step [OF b(2)] dec_nat_step [OF b(3)] unfolding d by simp
qed

lemma strip_commas_commas: "strip_commas (commas n) = dec_nat n"
proof (induction n rule: commas.induct)
  case (1 n)
  show ?case
  proof (cases "n < 1000")
    case True
    then show ?thesis by (subst commas.simps) (simp add: strip_digits dec_nat_is_digit)
  next
    case False
    then show ?thesis using 1 dec_nat_split [of n]
      by (subst commas.simps) (simp add: strip_commas_def)
  qed
qed

lemma commas_chars: "list_all digit_or_comma (commas n) \<and> is_digit (hd (commas n)) \<and> is_digit (last (commas n)) \<and> commas n \<noteq> []"
proof (induction n rule: commas.induct)
  case (1 n)
  have d: "list_all is_digit (dec_nat n)" "dec_nat n \<noteq> []" by (rule dec_nat_is_digit)+
  then have "is_digit (hd (dec_nat n))" "is_digit (last (dec_nat n))" by (auto simp: list_all_iff)
  then show ?case using 1 d
    by (subst (1 2 3 4) commas.simps) (auto simp: list_all_iff digit_or_comma_def)
qed

lemma takeWhile_commas: "(t = [] \<or> \<not> digit_or_comma (hd t)) \<Longrightarrow> takeWhile digit_or_comma (commas n @ t) = commas n"
  using commas_chars [of n] by (cases t) (auto simp: takeWhile_append list_all_iff)

text \<open>
  The numbers that the tools print with separators are read back: after a label, blanks and a number,
  at the head of a text.
\<close>

lemma starts_append [simp]: "starts p (p @ s)"
  by (simp add: starts_def)

lemma first_line: "line_starts True s = s # line_starts False s \<or> s = []"
  by (cases s) simp_all

lemma digit_not_space: "is_digit c \<Longrightarrow> \<not> space c"
  by (auto simp: is_digit_def space_def)

lemma dropWhile_blanks:
  "list_all space ws \<Longrightarrow> t \<noteq> [] \<Longrightarrow> \<not> space (hd t) \<Longrightarrow> dropWhile space (ws @ t) = t \<and> takeWhile space (ws @ t) = ws"
  by (induction ws) (cases t, auto)+

lemma find_number_head:
  assumes "list_all space ws" "ws \<noteq> []" "rest = [] \<or> \<not> digit_or_comma (hd rest)"
  shows "find_number label (label @ ws @ commas n @ rest) = Inr (Some n)"
proof -
  let ?s = "label @ ws @ commas n @ rest"
  have h: "commas n @ rest \<noteq> []" "\<not> space (hd (commas n @ rest))" using commas_chars [of n] by (auto simp: digit_not_space)
  have "number_here label ?s = Some (commas n)"
    using dropWhile_blanks [OF assms(1) h] takeWhile_commas [OF assms(3)] assms(2) commas_chars [of n]
    by (simp add: number_here_def)
  moreover have "?s \<noteq> []" using assms(2) by simp
  then have "line_starts True ?s = ?s # line_starts False ?s" using first_line by blast
  ultimately show ?thesis
    by (simp add: find_number_def strip_commas_commas parse_int_def dec_nat_is_digit read_dec_nat)
qed

lemma emap_Inr_ex: "(\<And>x. x \<in> set xs \<Longrightarrow> \<exists>y. f x = Inr y) \<Longrightarrow> \<exists>ys. emap f xs = Inr ys"
  using emap_Inr [of xs f "\<lambda>x. projr (f x)"] by (metis sum.sel(2))

end
