(* ===== verification/Double.thy ===== *)
theory Double
  imports Text RlpEnc Complex_Main
begin

text \<open>
  Python's \<open>float\<close>: the double-precision numbers as rationals, rounding to the nearest with ties to even,
  the true division of integers, \<open>float(s)\<close> of a text and the two decimals of \<open>f"{x:.2f}"\<close>.  Signed zeros are
  not distinguished.  The interface \<open>rounding\<close> is what the comparison of benchmarks relies on.
\<close>

section \<open>Rounding\<close>

definition half_even :: "rat \<Rightarrow> int" where
  \<comment> \<open>the nearest integer, the even one of two\<close>
  "half_even q = (let f = \<lfloor>q\<rfloor>; r = q - of_int f in
     if r < 1 / 2 then f else if r > 1 / 2 then f + 1 else if even f then f else f + 1)"

definition binade :: "rat \<Rightarrow> int" where
  \<comment> \<open>of a positive number, the exponent of the power of two just below it\<close>
  "binade q = (case quotient_of q of (n, d) \<Rightarrow>
     let e = int (bit_length (nat n)) - int (bit_length (nat d)) in if q < 2 powi e then e - 1 else e)"

definition unit_exp :: "rat \<Rightarrow> int" where
  \<comment> \<open>the exponent of the last of the 53 places, not below the subnormal one\<close>
  "unit_exp q = max (binade \<bar>q\<bar> - 52) (- 1074)"

definition nearest :: "rat \<Rightarrow> rat" where
  "nearest q = (if q = 0 then 0 else of_int (half_even (q / 2 powi unit_exp q)) * 2 powi unit_exp q)"

datatype flt = Fin rat | Infinite bool | NaN

definition finite_range :: "rat \<Rightarrow> bool" where "finite_range q = (\<bar>q\<bar> < 2 ^ 1024)"

definition true_div :: "int \<Rightarrow> int \<Rightarrow> rat res" where
  \<comment> \<open>\<open>a / b\<close> on integers, \<open>b\<close> not zero\<close>
  "true_div a b = (let q = nearest (of_int a / of_int b) in if finite_range q then Inr q else Inl OverflowError)"

section \<open>Rounding is monotone and exact on doubles\<close>

lemma half_even_bounds: "\<lfloor>q\<rfloor> \<le> half_even q" "half_even q \<le> \<lfloor>q\<rfloor> + 1"
  by (simp_all add: half_even_def Let_def)

lemma half_even_int [simp]: "half_even (of_int n) = n"
  by (simp add: half_even_def)

lemma half_even_mono: "p \<le> q \<Longrightarrow> half_even p \<le> half_even q"
proof -
  assume pq: "p \<le> q"
  then have f: "\<lfloor>p\<rfloor> \<le> \<lfloor>q\<rfloor>" by (rule floor_mono)
  show ?thesis
  proof (cases "\<lfloor>p\<rfloor> = \<lfloor>q\<rfloor>")
    case True
    then show ?thesis using pq by (auto simp: half_even_def Let_def)
  next
    case False
    then show ?thesis using f half_even_bounds(2) [of p] half_even_bounds(1) [of q] by linarith
  qed
qed

lemma half_even_le: "q \<le> of_int n \<Longrightarrow> half_even q \<le> n"
  using half_even_mono [of q "of_int n"] by simp

lemma half_even_ge: "of_int n \<le> q \<Longrightarrow> n \<le> half_even q"
  using half_even_mono [of "of_int n" q] by simp

lemma half_even_uminus: "half_even (- q) = - half_even q"
proof (cases "q = of_int \<lfloor>q\<rfloor>")
  case True
  then show ?thesis by (metis half_even_int of_int_minus)
next
  case False
  then have "of_int \<lfloor>q\<rfloor> < q" using of_int_floor_le [of q] by (metis less_le)
  then have f: "\<lfloor>- q\<rfloor> = - \<lfloor>q\<rfloor> - 1" using floor_correct [of q] by (simp add: floor_eq_iff)
  show ?thesis by (simp add: half_even_def Let_def f)
qed

lemma bit_length_bounds:
  assumes "0 < n"
  shows "2 ^ (bit_length n - 1) \<le> n" "n < 2 ^ bit_length n" "0 < bit_length n"
proof -
  show b: "0 < bit_length n" using assms by (simp add: bit_length.simps)
  show "n < 2 ^ bit_length n" using bit_length_le_iff [of n "bit_length n"] by simp
  show "2 ^ (bit_length n - 1) \<le> n" using bit_length_le_iff [of n "bit_length n - 1"] b by linarith
qed

lemma binade_bounds:
  assumes "0 < q"
  shows "2 powi binade q \<le> q" "q < 2 powi (binade q + 1)"
proof -
  obtain n d where nd: "quotient_of q = (n, d)" by (cases "quotient_of q")
  have d: "0 < d" and q: "q = of_int n / of_int d" using quotient_of_denom_pos [OF nd] quotient_of_div [OF nd] by auto
  have n: "0 < n" using assms d q by (simp add: zero_less_divide_iff)
  let ?bn = "bit_length (nat n)" and ?bd = "bit_length (nat d)"
  let ?e = "int ?bn - int ?bd"
  have N: "2 ^ (?bn - 1) \<le> nat n" "nat n < 2 ^ ?bn" "0 < ?bn" using bit_length_bounds [of "nat n"] n by simp_all
  have D: "2 ^ (?bd - 1) \<le> nat d" "nat d < 2 ^ ?bd" "0 < ?bd" using bit_length_bounds [of "nat d"] d by simp_all
  have N': "2 ^ (?bn - 1) \<le> (of_int n :: rat)" "(of_int n :: rat) < 2 ^ ?bn"
    using N n by (metis of_nat_le_iff of_nat_less_iff of_nat_numeral of_nat_power of_nat_nat less_imp_le)+
  have D': "2 ^ (?bd - 1) \<le> (of_int d :: rat)" "(of_int d :: rat) < 2 ^ ?bd"
    using D d by (metis of_nat_le_iff of_nat_less_iff of_nat_numeral of_nat_power of_nat_nat less_imp_le)+
  have lo: "2 powi (?e - 1) \<le> q"
  proof -
    have "2 powi (?e - 1) = (2 ^ (?bn - 1) / 2 ^ ?bd :: rat)"
      using N(3) by (simp add: power_int_diff power_int_minus power_diff)
    also have "\<dots> \<le> q" unfolding q using less_imp_le [OF n] d N' D' by (intro frac_le) simp_all
    finally show ?thesis .
  qed
  have hi: "q < 2 powi (?e + 1)"
  proof -
    have "q < 2 ^ ?bn / 2 ^ (?bd - 1)" unfolding q using less_imp_le [OF n] N' D' by (intro frac_less) simp_all
    also have "\<dots> = (2 powi (?e + 1) :: rat)" using D(3) by (simp add: power_int_diff power_int_add power_diff)
    finally show ?thesis .
  qed
  have "binade q = (if q < 2 powi ?e then ?e - 1 else ?e)" by (simp add: binade_def nd Let_def)
  then show "2 powi binade q \<le> q" "q < 2 powi (binade q + 1)" using lo hi by auto
qed

lemma powi_less: "(2 powi a :: rat) < 2 powi b \<Longrightarrow> a < b"
  using power_int_increasing [of b a "2 :: rat"] by force

lemma powi_split:
  assumes "j \<le> k"
  shows "(2 powi k :: rat) = of_int (2 ^ nat (k - j)) * 2 powi j"
proof -
  obtain n where "k = int n + j" using assms zero_le_imp_eq_int [of "k - j"] by (metis diff_add_cancel diff_ge_0_iff_ge)
  then show ?thesis by (simp add: power_int_add)
qed

lemma binade_unique: "0 < q \<Longrightarrow> 2 powi e \<le> q \<Longrightarrow> q < 2 powi (e + 1) \<Longrightarrow> binade q = e"
proof -
  assume q: "0 < q" "2 powi e \<le> q" "q < 2 powi (e + 1)"
  have "2 powi e < (2 powi (binade q + 1) :: rat)" "2 powi binade q < (2 powi (e + 1) :: rat)"
    using q binade_bounds [OF q(1)] by linarith+
  then show ?thesis by (auto dest!: powi_less)
qed

lemma nearest_uminus: "nearest (- q) = - nearest q"
  by (simp add: nearest_def unit_exp_def half_even_uminus)

lemma nearest_le_grid:
  \<comment> \<open>a bound on the grid of the number is a bound of the rounded number\<close>
  assumes "0 < q" "unit_exp q \<le> k" "q \<le> of_int m * 2 powi k"
  shows "nearest q \<le> of_int m * 2 powi k"
proof -
  let ?u = "unit_exp q"
  have k: "(2 powi k :: rat) = of_int (2 ^ nat (k - ?u)) * 2 powi ?u"
    by (rule powi_split [OF assms(2)])
  then have "q / 2 powi ?u \<le> of_int (m * 2 ^ nat (k - ?u))"
    using assms(3) by (simp add: pos_divide_le_eq mult.assoc)
  then have "half_even (q / 2 powi ?u) \<le> m * 2 ^ nat (k - ?u)" by (rule half_even_le)
  then have "of_int (half_even (q / 2 powi ?u)) * 2 powi ?u \<le> (of_int (m * 2 ^ nat (k - ?u)) * 2 powi ?u :: rat)"
    by (intro mult_right_mono) (simp_all del: of_int_mult of_int_power)
  then show ?thesis using assms(1) k by (simp add: nearest_def mult.assoc)
qed

lemma nearest_ge_grid:
  assumes "0 < q" "unit_exp q \<le> k" "of_int m * 2 powi k \<le> q"
  shows "of_int m * 2 powi k \<le> nearest q"
proof -
  let ?u = "unit_exp q"
  have k: "(2 powi k :: rat) = of_int (2 ^ nat (k - ?u)) * 2 powi ?u"
    by (rule powi_split [OF assms(2)])
  then have "of_int (m * 2 ^ nat (k - ?u)) \<le> q / 2 powi ?u"
    using assms(3) by (simp add: pos_le_divide_eq mult.assoc)
  then have "m * 2 ^ nat (k - ?u) \<le> half_even (q / 2 powi ?u)" by (rule half_even_ge)
  then have "(of_int (m * 2 ^ nat (k - ?u)) * 2 powi ?u :: rat) \<le> of_int (half_even (q / 2 powi ?u)) * 2 powi ?u"
    by (intro mult_right_mono) (simp_all del: of_int_mult of_int_power)
  then show ?thesis using assms(1) k by (simp add: nearest_def mult.assoc)
qed

lemma nearest_grid: "0 < q \<Longrightarrow> unit_exp q \<le> k \<Longrightarrow> q = of_int m * 2 powi k \<Longrightarrow> nearest q = q"
  using nearest_le_grid [of q k m] nearest_ge_grid [of q k m] by simp

lemma nearest_nonneg: "0 \<le> q \<Longrightarrow> 0 \<le> nearest q"
  by (simp add: nearest_def half_even_ge)

lemma binade_mono: "0 < p \<Longrightarrow> p \<le> q \<Longrightarrow> binade p \<le> binade q"
proof -
  assume p: "0 < p" "p \<le> q"
  then have "2 powi binade p < (2 powi (binade q + 1) :: rat)"
    using binade_bounds [of p] binade_bounds [of q] by linarith
  then show ?thesis by (auto dest!: powi_less)
qed

lemma nearest_mono_pos:
  assumes "0 < p" "p \<le> q"
  shows "nearest p \<le> nearest q"
proof (cases "unit_exp p = unit_exp q")
  case True
  have "half_even (p / 2 powi unit_exp q) \<le> half_even (q / 2 powi unit_exp q)"
    using assms by (intro half_even_mono divide_right_mono) auto
  then have "of_int (half_even (p / 2 powi unit_exp q)) * 2 powi unit_exp q
      \<le> (of_int (half_even (q / 2 powi unit_exp q)) * 2 powi unit_exp q :: rat)"
    by (intro mult_right_mono) auto
  then show ?thesis using assms True by (simp add: nearest_def)
next
  case False
  have b: "binade p \<le> binade q" by (rule binade_mono [OF assms])
  then have u: "unit_exp p \<le> binade q" "unit_exp q \<le> binade q" "binade p + 1 \<le> binade q"
    using False assms by (auto simp: unit_exp_def)
  have "p \<le> 2 powi binade q"
    using binade_bounds(2) [OF assms(1)] u(3) power_int_increasing [of "binade p + 1" "binade q" "2 :: rat"] by simp
  then have "nearest p \<le> 2 powi binade q" using nearest_le_grid [OF assms(1) u(1), of 1] by simp
  also have "\<dots> \<le> nearest q" using nearest_ge_grid [of q "binade q" 1] binade_bounds(1) [of q] assms u by simp
  finally show ?thesis .
qed

lemma nearest_mono: "p \<le> q \<Longrightarrow> nearest p \<le> nearest q"
proof -
  assume pq: "p \<le> q"
  consider "0 < p" | "p \<le> 0" "0 \<le> q" | "q < 0" by linarith
  then show ?thesis
  proof cases
    case 1
    then show ?thesis using nearest_mono_pos pq by blast
  next
    case 2
    then show ?thesis using nearest_nonneg [of q] nearest_nonneg [of "- p"] by (simp add: nearest_uminus)
  next
    case 3
    then show ?thesis using nearest_mono_pos [of "- q" "- p"] pq by (simp add: nearest_uminus)
  qed
qed

lemma binade_pow: "binade (2 powi k) = k"
  by (rule binade_unique) (simp_all add: power_int_add)

lemma nearest_representable:
  \<comment> \<open>numbers of 53 binary places are not rounded\<close>
  assumes "\<bar>m\<bar> \<le> 2 ^ 53" "- 1074 \<le> k"
  shows "nearest (of_int m * 2 powi k) = of_int m * 2 powi k"
proof -
  have pos: "nearest (of_int n * 2 powi k) = of_int n * 2 powi k" if n: "0 < n" "n \<le> 2 ^ 53" for n :: int
  proof (cases "n = 2 ^ 53")
    case True
    have e: "of_int n * 2 powi k = (2 powi (53 + k) :: rat)" using True by (simp add: power_int_add)
    show ?thesis unfolding e
      by (rule nearest_grid [of _ "53 + k" 1]) (use assms(2) in \<open>simp_all add: unit_exp_def binade_pow\<close>)
  next
    case False
    have q: "0 < of_int n * (2 powi k :: rat)" using n by simp
    have "(of_int n :: rat) < 2 ^ 53" using n False by (metis of_int_less_iff of_int_numeral of_int_power order_le_less)
    then have "of_int n * (2 powi k) < (2 ^ 53 * 2 powi k :: rat)" by simp
    also have "\<dots> = 2 powi (53 + k)" by (simp add: power_int_add)
    finally have "2 powi binade (of_int n * 2 powi k) < (2 powi (53 + k) :: rat)"
      using binade_bounds(1) [OF q] by linarith
    then have "unit_exp (of_int n * 2 powi k) \<le> k" using powi_less assms(2) q by (force simp: unit_exp_def)
    then show ?thesis by (rule nearest_grid [OF q _ refl])
  qed
  consider "m = 0" | "0 < m" | "0 < - m" by linarith
  then show ?thesis
  proof cases
    case 3
    then show ?thesis using pos [of "- m"] assms(1) nearest_uminus [of "of_int m * 2 powi k"] by simp
  qed (use pos [of m] assms(1) in \<open>simp_all add: nearest_def\<close>)
qed

lemma nearest_form: "\<exists>m k. nearest q = of_int m * 2 powi k \<and> \<bar>m\<bar> \<le> 2 ^ 53 \<and> - 1074 \<le> k"
proof -
  have pos: "\<exists>m k. nearest q = of_int m * 2 powi k \<and> \<bar>m\<bar> \<le> 2 ^ 53 \<and> - 1074 \<le> k" if q: "0 < q" for q
  proof -
    let ?u = "unit_exp q"
    have "binade q + 1 \<le> ?u + 53" using q by (simp add: unit_exp_def)
    then have "q \<le> 2 powi (?u + 53)"
      using binade_bounds(2) [OF q] power_int_increasing [of "binade q + 1" "?u + 53" "2 :: rat"] by simp
    then have "q / 2 powi ?u \<le> of_int (2 ^ 53)" by (simp add: pos_divide_le_eq power_int_add mult.commute)
    then have "half_even (q / 2 powi ?u) \<le> 2 ^ 53" by (rule half_even_le)
    moreover have "0 \<le> half_even (q / 2 powi ?u)" using q by (intro half_even_ge) simp
    ultimately have "\<bar>half_even (q / 2 powi ?u)\<bar> \<le> 2 ^ 53" by simp
    moreover have "- 1074 \<le> ?u" by (simp add: unit_exp_def)
    ultimately show ?thesis using q by (intro exI conjI) (auto simp: nearest_def)
  qed
  consider "q = 0" | "0 < q" | "0 < - q" by linarith
  then show ?thesis
  proof cases
    case 1
    then show ?thesis by (intro exI [of _ 0]) (simp add: nearest_def)
  next
    case 3
    then obtain m k where "nearest (- q) = of_int m * 2 powi k" "\<bar>m\<bar> \<le> 2 ^ 53" "- 1074 \<le> k" using pos by blast
    then show ?thesis by (intro exI [of _ "- m"] exI [of _ k]) (simp add: nearest_uminus)
  qed (use pos in blast)
qed

lemma nearest_idem: "nearest (nearest q) = nearest q"
  using nearest_form [of q] nearest_representable by metis

lemma nearest_bounded:
  assumes "\<bar>q\<bar> \<le> 2 powi k" "- 1074 \<le> k"
  shows "\<bar>nearest q\<bar> \<le> 2 powi k"
proof -
  have r: "nearest (2 powi k) = 2 powi k" using nearest_representable [of 1 k] assms(2) by simp
  have "nearest q \<le> 2 powi k" "nearest (- q) \<le> 2 powi k"
    using nearest_mono [of q "2 powi k"] nearest_mono [of "- q" "2 powi k"] assms(1) r by linarith+
  then show ?thesis by (simp add: nearest_uminus abs_le_iff)
qed

section \<open>The interface of a rounding\<close>

text \<open>What a comparison of rounded numbers needs: rounding is monotone and leaves the rounded numbers alone.\<close>

locale rounding =
  fixes rnd :: "rat \<Rightarrow> rat"
  assumes mono: "p \<le> q \<Longrightarrow> rnd p \<le> rnd q"
    and idem: "rnd (rnd q) = rnd q"
begin

lemma above_sound: "rnd t = t \<Longrightarrow> t < rnd q \<Longrightarrow> t < q"
  using mono [of q t] by fastforce

lemma above_complete: "rnd s = s \<Longrightarrow> t < s \<Longrightarrow> s \<le> q \<Longrightarrow> t < rnd q"
  using mono [of s q] by simp

end

interpretation dbl: rounding nearest
  by unfold_locales (simp_all add: nearest_mono nearest_idem)

section \<open>Reading and printing\<close>

fun no_underscores :: "bool \<Rightarrow> string \<Rightarrow> string option" where
  \<comment> \<open>underscores stand between digits; they are dropped\<close>
  "no_underscores d [] = Some []"
| "no_underscores d (c # s) =
     (if c = CHR ''_'' then (if d \<and> s \<noteq> [] \<and> is_digit (hd s) then no_underscores False s else None)
      else map_option ((#) c) (no_underscores (is_digit c) s))"

definition py_sign :: "string \<Rightarrow> bool \<times> string" where
  "py_sign s = (case s of [] \<Rightarrow> (False, []) | c # t \<Rightarrow>
     if c = CHR ''-'' then (True, t) else if c = CHR ''+'' then (False, t) else (False, s))"

definition exponent :: "string \<Rightarrow> int option" where
  "exponent s = (case s of [] \<Rightarrow> Some 0 | c # t \<Rightarrow>
     (case py_sign t of (neg, ds) \<Rightarrow>
        if lower c = CHR ''e'' \<and> ds \<noteq> [] \<and> list_all is_digit ds
        then Some (if neg then - int (read_nat ds) else int (read_nat ds)) else None))"

definition decimal :: "string \<Rightarrow> rat option" where
  \<comment> \<open>digits with a point and an exponent, both optional\<close>
  "decimal s =
     (let ip = takeWhile is_digit s; r = dropWhile is_digit s;
          frac = r \<noteq> [] \<and> hd r = CHR ''.'';
          fp = (if frac then takeWhile is_digit (tl r) else []);
          r = (if frac then dropWhile is_digit (tl r) else r)
      in if ip @ fp = [] then None
         else map_option (\<lambda>e. of_nat (read_nat (ip @ fp)) * 10 powi (e - int (length fp))) (exponent r))"

definition to_float :: "bool \<Rightarrow> rat \<Rightarrow> flt" where
  "to_float neg q = (let r = nearest q in
     if finite_range r then Fin (if neg then - r else r) else Infinite neg)"

definition py_float :: "string \<Rightarrow> flt res" where
  \<comment> \<open>\<open>float(s)\<close>\<close>
  "py_float s =
     (case no_underscores False (strip s) of
        None \<Rightarrow> Inl ValueError
      | Some t \<Rightarrow> (case py_sign t of (neg, u) \<Rightarrow>
          if map lower u \<in> {''inf'', ''infinity''} then Inr (Infinite neg)
          else if map lower u = ''nan'' then Inr NaN
          else case decimal u of None \<Rightarrow> Inl ValueError | Some q \<Rightarrow> Inr (to_float neg q)))"

definition fixed2 :: "rat \<Rightarrow> string" where
  \<comment> \<open>\<open>f"{x:.2f}"\<close> of a finite number\<close>
  "fixed2 q = (let n = nat (half_even (\<bar>q\<bar> * 100)) in
     (if q < 0 then ''-'' else '''') @ dec_nat (n div 100) @ ''.'' @ [digit (n div 10 mod 10), digit (n mod 10)])"

definition show_float :: "flt \<Rightarrow> string" where
  \<comment> \<open>\<open>f"{x:.2f}"\<close>\<close>
  "show_float x = (case x of Fin q \<Rightarrow> fixed2 q | Infinite neg \<Rightarrow> (if neg then ''-inf'' else ''inf'') | NaN \<Rightarrow> ''nan'')"

definition is_double :: "flt \<Rightarrow> bool" where
  "is_double x = (case x of Fin q \<Rightarrow> nearest q = q | _ \<Rightarrow> True)"

lemma py_float_double: "py_float s = Inr x \<Longrightarrow> is_double x"
  by (auto simp: py_float_def to_float_def is_double_def Let_def nearest_idem nearest_uminus
      split: option.splits prod.splits if_splits)

definition above :: "rat \<Rightarrow> flt \<Rightarrow> bool" where
  \<comment> \<open>\<open>q > x\<close>\<close>
  "above q x = (case x of Fin t \<Rightarrow> t < q | Infinite neg \<Rightarrow> neg | NaN \<Rightarrow> False)"

end
