(* ===== verification/Bench.thy ===== *)
theory Bench
  imports Double
begin

text \<open>
  The benchmark of one or two guests over a manifest, \<open>tools/bench.py\<close>.  Spike and ziskemu are arguments: what a
  run of the guest prints and what it writes to its output file, where it writes one.  The directory of
  output files is a state, since \<open>run_variant\<close> reads a file there that an earlier run may have left.
  Profiles and the JSON text are not modelled: a snapshot is the value that is written.
\<close>

section \<open>Paths and columns\<close>

definition base_name :: "string \<Rightarrow> string" where
  "base_name p = rev (takeWhile (\<lambda>c. c \<noteq> CHR ''/'') (rev p))"

definition path_join :: "string \<Rightarrow> string \<Rightarrow> string" where
  "path_join a b = (if b \<noteq> [] \<and> hd b = CHR ''/'' then b
     else if a = [] \<or> last a = CHR ''/'' then a @ b else a @ ''/'' @ b)"

definition resolve_input_path :: "(string \<Rightarrow> bool) \<Rightarrow> string \<Rightarrow> string \<Rightarrow> string" where
  "resolve_input_path isfile path manifest_dir =
     (if isfile path then path else path_join manifest_dir (base_name path))"

definition pad_right :: "nat \<Rightarrow> string \<Rightarrow> string" where "pad_right n s = s @ replicate (n - length s) CHR '' ''"
definition pad_left :: "nat \<Rightarrow> string \<Rightarrow> string" where "pad_left n s = replicate (n - length s) CHR '' '' @ s"

definition commas_int :: "int \<Rightarrow> string" where
  \<comment> \<open>\<open>f"{z:,}"\<close>\<close>
  "commas_int z = (if z < 0 then ''-'' else '''') @ commas (nat \<bar>z\<bar>)"

definition format_metric :: "int \<Rightarrow> string" where
  "format_metric v = (if 0 \<le> v then commas_int v else ''n/a'')"

section \<open>One run\<close>

record result =
  v_label :: string
  v_ok :: bool
  v_spike :: int
  v_steps :: int
  v_total :: int
  v_precompiled :: int
  v_rc :: int

record machine =
  \<comment> \<open>what a run of an ELF on an input file gives\<close>
  spike :: "string \<Rightarrow> string \<Rightarrow> string \<times> bytes option"   \<comment> \<open>standard error, the output file\<close>
  ziskemu :: "string \<Rightarrow> string \<Rightarrow> string \<times> string \<times> int" \<comment> \<open>standard output and error, exit code\<close>

type_synonym files = "string \<rightharpoonup> bytes"

definition pad5 :: "nat \<Rightarrow> string" where
  \<comment> \<open>\<open>f"{index:05d}"\<close>\<close>
  "pad5 n = replicate (5 - length (dec_nat n)) CHR ''0'' @ dec_nat n"

definition stem :: "string \<Rightarrow> nat \<Rightarrow> string" where
  "stem variant index = variant @ ''-'' @ pad5 index"

definition steps_label :: "string list list" where "steps_label = [[''STEPS'']]"
definition total_label :: "string list list" where "total_label = [[''TOTAL''], [''COST'']]"
definition precompiled_label :: "string list list" where
  "precompiled_label = [[''PRECOMPILED'', ''PRECOMPILES'', ''PRECOMPILE''], [''COST'']]"

definition run_variant ::
  "machine \<Rightarrow> string \<Rightarrow> string \<Rightarrow> string \<Rightarrow> string \<Rightarrow> string \<Rightarrow> nat \<Rightarrow> string \<Rightarrow> files \<Rightarrow> result \<times> files" where
  \<comment> \<open>without a profile; an output file that is there stays there when the run writes none\<close>
  "run_variant m out_dir elf label inp expected_hex index variant fs =
     (let out = path_join out_dir (stem variant index @ ''.out'');
          (err, written) = spike m elf inp;
          fs = (case written of None \<Rightarrow> fs | Some raw \<Rightarrow> fs(out \<mapsto> raw));
          actual = (case fs out of None \<Rightarrow> '''' | Some raw \<Rightarrow> hex (take (length expected_hex div 2) raw));
          (o1, e1, rc) = ziskemu m elf inp;
          zisk_text = o1 @ e1
      in (\<lparr>v_label = label, v_ok = (actual = expected_hex), v_spike = find_steps err,
           v_steps = grab_metric zisk_text steps_label, v_total = grab_metric zisk_text total_label,
           v_precompiled = grab_metric zisk_text precompiled_label, v_rc = rc\<rparr>, fs))"

section \<open>Totals\<close>

definition metrics :: "(string \<times> (result \<Rightarrow> int)) list" where
  "metrics = [(''spike_instr'', v_spike), (''zisk_steps'', v_steps), (''zisk_total_cost'', v_total),
     (''zisk_precompiled_cost'', v_precompiled)]"

record totals =
  t_fixtures :: nat
  t_ok :: nat
  t_metrics :: "(string \<times> int) list"

definition totals_for :: "result list \<Rightarrow> totals" where
  "totals_for fixtures =
     (let selected = filter v_ok fixtures
      in \<lparr>t_fixtures = length fixtures, t_ok = length selected,
          t_metrics = map (\<lambda>(name, f). (name, sum_list (map f selected))) metrics\<rparr>)"

definition print_totals :: "string \<Rightarrow> totals \<Rightarrow> string" where
  "print_totals variant t = variant @ '' OK '' @ dec_nat (t_ok t) @ ''/'' @ dec_nat (t_fixtures t) @ ''  '' @
     join ''  '' (map (\<lambda>(name, v). name @ ''='' @ format_metric v) (t_metrics t))"

section \<open>A run of the manifest\<close>

definition read_rows :: "string list \<Rightarrow> string list list" where
  \<comment> \<open>of the lines of the manifest, without their ends\<close>
  "read_rows ls = map (split_on (char_of (9 :: nat))) (filter (\<lambda>l. strip l \<noteq> []) ls)"

definition resolve_row :: "(string \<Rightarrow> bool) \<Rightarrow> string \<Rightarrow> string list \<Rightarrow> string list res" where
  "resolve_row isfile manifest_dir row =
     ebind (index_at row 1) (\<lambda>p. Inr (row[1 := resolve_input_path isfile p manifest_dir]))"

definition choose_rows :: "string \<Rightarrow> int \<Rightarrow> string list list \<Rightarrow> string list list" where
  \<comment> \<open>\<open>--filter\<close> and \<open>--limit\<close>; a negative limit drops rows from the end, as a slice does\<close>
  "choose_rows flt limit rows =
     (let rows = (if flt \<noteq> [] then filter (\<lambda>r. contains flt (hd r)) rows else rows)
      in if limit = 0 then rows else if 0 \<le> limit then take (nat limit) rows
         else take (length rows - nat (- limit)) rows)"

definition variants :: "string \<Rightarrow> string \<Rightarrow> (string \<times> string) list" where
  "variants elf elf2 = (''software'', elf) # (if elf2 = [] then [] else [(''accelerated'', elf2)])"

fun run_variants ::
  "machine \<Rightarrow> string \<Rightarrow> string \<Rightarrow> string \<Rightarrow> string \<Rightarrow> nat \<Rightarrow> (string \<times> string) list \<Rightarrow> files \<Rightarrow> (string \<times> result) list \<times> files" where
  "run_variants m out_dir label inp expected_hex index [] fs = ([], fs)"
| "run_variants m out_dir label inp expected_hex index ((name, elf) # vs) fs =
     (let (r, fs) = run_variant m out_dir elf label inp expected_hex index name fs;
          (rs, fs) = run_variants m out_dir label inp expected_hex index vs fs
      in ((name, r) # rs, fs))"

fun run_rows ::
  "machine \<Rightarrow> string \<Rightarrow> (string \<times> string) list \<Rightarrow> nat \<Rightarrow> string list list \<Rightarrow> files \<Rightarrow> (string \<times> result) list list res" where
  "run_rows m out_dir vs index [] fs = Inr []"
| "run_rows m out_dir vs index (row # rows) fs =
     (case row of
        label # inp # expected_hex # _ \<Rightarrow>
          (let (rs, fs) = run_variants m out_dir label inp expected_hex index vs fs
           in ebind (run_rows m out_dir vs (index + 1) rows fs) (\<lambda>rest. Inr (rs # rest)))
      | _ \<Rightarrow> Inl ValueError)"

definition metric_headers :: "string \<Rightarrow> string list" where
  "metric_headers name =
     (if name = ''software'' then [''software_spike'', ''software_STEPS'', ''software_TOTAL'', ''software_PRECOMPILES'']
      else [''accelerated_spike'', ''accelerated_STEPS'', ''accelerated_TOTAL'', ''accelerated_PRECOMPILES''])"

definition bench_header :: "(string \<times> string) list \<Rightarrow> string" where
  "bench_header vs = pad_right 60 ''fixture'' @ '' '' @ pad_left 3 ''ok'' @
     concat (map (\<lambda>(name, elf). concat (map (\<lambda>c. '' '' @ pad_left 14 c) (metric_headers name))) vs)"

definition primary :: "(string \<times> result) list \<Rightarrow> result" where
  \<comment> \<open>\<open>results["software"]\<close>, the first variant\<close>
  "primary rs = the (map_of rs ''software'')"

definition row_text :: "(string \<times> result) list \<Rightarrow> string" where
  "row_text rs = pad_right 60 (take 60 (v_label (primary rs))) @ '' '' @ pad_left 3 (if v_ok (primary rs) then ''y'' else ''n'') @
     concat (map (\<lambda>(name, r). '' '' @ join '' '' (map (\<lambda>(k, f). pad_left 14 (format_metric (f r))) metrics)) rs)"

definition py_dict :: "(string \<times> string) list \<Rightarrow> string" where
  \<comment> \<open>the text of a dictionary whose keys are plain names\<close>
  "py_dict kvs = ''{'' @ join '', '' (map (\<lambda>(k, v). [CHR 0x27] @ k @ [CHR 0x27] @ '': '' @ v) kvs) @ ''}''"

definition variant_values :: "(string \<times> result) list \<Rightarrow> json" where
  "variant_values rs = JOther (py_dict (map (\<lambda>(name, r). (name, py_dict (map (\<lambda>(k, f). (k, py_str (f r))) metrics))) rs))"

definition fixture_entry :: "bool \<Rightarrow> (string \<times> result) list \<Rightarrow> entry" where
  "fixture_entry paired rs =
     (let p = primary rs;
          e = [''label'' \<mapsto> JStr (v_label p), ''ok'' \<mapsto> JBool (v_ok p), ''spike_instr'' \<mapsto> JInt (v_spike p),
               ''zisk_steps'' \<mapsto> JInt (v_steps p), ''zisk_cost'' \<mapsto> JInt (v_total p),
               ''zisk_precompiled_cost'' \<mapsto> JInt (v_precompiled p)]
      in Obj (if paired then e(''variants'' \<mapsto> variant_values rs) else e))"

record snapshot =
  n_version :: nat
  n_guest :: string
  n_manifest :: string
  n_fixtures :: "entry list"
  n_totals :: "(string \<times> int) list"
  n_variants :: "(string \<times> string) list option"
  n_variant_totals :: "(string \<times> totals) list option"

definition by_variant :: "(string \<times> string) list \<Rightarrow> (string \<times> result) list list \<Rightarrow> (string \<times> result list) list" where
  "by_variant vs table = map (\<lambda>(name, elf). (name, map (\<lambda>rs. the (map_of rs name)) table)) vs"

definition snapshot_totals :: "totals \<Rightarrow> (string \<times> int) list" where
  \<comment> \<open>under the names that \<open>tools/bench_compare.py\<close> reads\<close>
  "snapshot_totals t =
     (let v = (\<lambda>k. the (map_of (t_metrics t) k))
      in [(''fixtures'', int (t_fixtures t)), (''ok'', int (t_ok t)), (''spike_instr'', v ''spike_instr''),
          (''zisk_steps'', v ''zisk_steps''), (''zisk_cost'', v ''zisk_total_cost''),
          (''zisk_precompiled_cost'', v ''zisk_precompiled_cost'')])"

record options =
  o_elf :: string
  o_manifest :: string       \<comment> \<open>its absolute path\<close>
  o_elf2 :: string           \<comment> \<open>empty when not given\<close>
  o_limit :: int
  o_filter :: string

definition dir_name :: "string \<Rightarrow> string" where
  \<comment> \<open>of an absolute, normalized path\<close>
  "dir_name p = (let d = rev (dropWhile (\<lambda>c. c \<noteq> CHR ''/'') (rev p))
     in if d = ''/'' then d else butlast d)"

definition make_snapshot :: "(string \<Rightarrow> string) \<Rightarrow> options \<Rightarrow> (string \<times> result) list list \<Rightarrow> snapshot" where
  "make_snapshot rel opts table =
     (let vs = variants (o_elf opts) (o_elf2 opts);
          paired = (o_elf2 opts \<noteq> []);
          tots = map (\<lambda>(name, rs). (name, totals_for rs)) (by_variant vs table)
      in \<lparr>n_version = (if paired then 2 else 1), n_guest = rel (o_elf opts), n_manifest = rel (o_manifest opts),
          n_fixtures = map (fixture_entry paired) table,
          n_totals = snapshot_totals (the (map_of tots ''software'')),
          n_variants = (if paired then Some (map (\<lambda>(name, elf). (name, rel elf)) vs) else None),
          n_variant_totals = (if paired then Some tots else None)\<rparr>)"

definition bench_output :: "options \<Rightarrow> (string \<times> result) list list \<Rightarrow> string list" where
  "bench_output opts table =
     (let vs = variants (o_elf opts) (o_elf2 opts)
      in bench_header vs # map row_text table @
         map (\<lambda>(name, rs). print_totals name (totals_for rs)) (by_variant vs table))"

datatype bench_outcome =
    Usage string                             \<comment> \<open>\<open>ap.error\<close>, exit code 2\<close>
  | Raised exn
  | Benched "string list" snapshot           \<comment> \<open>the printed lines and the value for \<open>--json\<close>\<close>

definition bench ::
  "machine \<Rightarrow> (string \<Rightarrow> bool) \<Rightarrow> (string \<Rightarrow> string) \<Rightarrow> string \<Rightarrow> options \<Rightarrow> string list \<Rightarrow> files \<Rightarrow> bench_outcome" where
  "bench m isfile rel out_dir opts manifest fs =
     (if o_elf2 opts \<noteq> [] \<and> \<not> isfile (o_elf2 opts) then Usage (''second ELF not found: '' @ o_elf2 opts)
      else case ebind (emap (resolve_row isfile (dir_name (o_manifest opts))) (read_rows manifest)) (\<lambda>rows.
             run_rows m out_dir (variants (o_elf opts) (o_elf2 opts)) 0 (choose_rows (o_filter opts) (o_limit opts) rows) fs) of
        Inl e \<Rightarrow> Raised e
      | Inr table \<Rightarrow> Benched (bench_output opts table) (make_snapshot rel opts table))"

section \<open>Metrics are read as ziskemu prints them\<close>

lemma number_prefix_commas:
  assumes "t = [] \<or> \<not> digit_or_comma (hd t) \<and> \<not> word_char (hd t)"
  shows "number_prefix (commas n @ t) = Some (commas n)"
proof -
  let ?s = "commas n @ t" and ?k = "length (commas n)"
  have c: "is_digit (hd (commas n))" "is_digit (last (commas n))" "commas n \<noteq> []" using commas_chars [of n] by simp_all
  then obtain x xs where x: "commas n = x # xs" "is_digit x" by (cases "commas n") auto
  have tw: "takeWhile digit_or_comma ?s = commas n" using assms takeWhile_commas [of t n] by blast
  have "word_char (?s ! (?k - 1))"
    using c by (simp add: nth_append last_conv_nth) (auto simp: is_digit_def word_char_def Let_def)
  moreover have "\<not> (?k < length ?s \<and> word_char (?s ! ?k))" using assms by (cases t) (simp_all add: nth_append)
  ultimately have "boundary_at ?s ?k" by (simp add: boundary_at_def)
  moreover have "rev [1..<?k + 1] = ?k # rev [1..<?k]" using x by simp
  ultimately have "find (boundary_at ?s) (rev [1..<?k + 1]) = Some ?k" by simp
  then show ?thesis using x tw by (simp add: number_prefix_def)
qed

lemma metric_with_sign_number:
  assumes "match_label label (dropWhile space s) = Some (ws @ c # vs @ commas n @ t)"
    and "list_all space ws" "list_all space vs" "c = CHR '':'' \<or> c = CHR ''=''"
    and "t = [] \<or> \<not> digit_or_comma (hd t) \<and> \<not> word_char (hd t)"
  shows "metric_with_sign label s = Some (commas n)"
proof -
  have "\<not> space c" using assms(4) by (auto simp: space_def)
  then have "dropWhile space (ws @ c # vs @ commas n @ t) = c # vs @ commas n @ t"
    using dropWhile_blanks [OF assms(2), of "c # vs @ commas n @ t"] by simp
  moreover have "dropWhile space (vs @ commas n @ t) = commas n @ t"
    using dropWhile_blanks [OF assms(3), of "commas n @ t"] commas_chars [of n] by (auto simp: digit_not_space)
  ultimately show ?thesis
    using assms(1,4) number_prefix_commas [OF assms(5)] by (auto simp: metric_with_sign_def)
qed

lemma first_some_append: "first_some f (xs @ ys) = (case first_some f xs of None \<Rightarrow> first_some f ys | Some y \<Rightarrow> Some y)"
  by (induction xs) (simp_all split: option.split)

lemma grab_metric_first:
  \<comment> \<open>the first line with the label and a sign decides\<close>
  assumes "line_starts True s = as @ l # bs" "list_all (\<lambda>x. metric_with_sign label x = None) as"
    and "metric_with_sign label l = Some (commas n)"
  shows "grab_metric s label = int n"
proof -
  have "first_some (metric_with_sign label) as = None" using assms(2) by (induction as) simp_all
  then have "first_some (metric_with_sign label) (line_starts True s) = Some (commas n)"
    using assms(1,3) by (simp add: first_some_append)
  then show ?thesis by (simp add: grab_metric_def strip_commas_commas read_dec_nat)
qed

lemma grab_total_cost:
  assumes "t = [] \<or> \<not> digit_or_comma (hd t) \<and> \<not> word_char (hd t)"
  shows "grab_metric (''TOTAL COST: '' @ commas n @ t) total_label = int n"
proof (rule grab_metric_first [where as = "[]"])
  let ?s = "''TOTAL COST: '' @ commas n @ t"
  show "line_starts True ?s = [] @ ?s # line_starts False ?s" by simp
  have "match_label total_label (dropWhile space ?s) = Some ([] @ CHR '':'' # '' '' @ commas n @ t)"
    by (simp add: total_label_def space_def starts_def lower_def Let_def)
  then show "metric_with_sign total_label ?s = Some (commas n)"
    by (rule metric_with_sign_number) (use assms in \<open>simp_all add: space_def\<close>)
qed simp

section \<open>Every run has its own output file\<close>

lemma read_zeros: "read_nat (replicate k CHR ''0'' @ s) = read_nat s"
  by (induction k) (simp_all add: read_nat_def)

lemma pad5_inj: "pad5 i = pad5 j \<Longrightarrow> i = j"
  by (metis pad5_def read_zeros read_dec_nat)

definition out_path :: "string \<Rightarrow> string \<Rightarrow> nat \<Rightarrow> string" where
  "out_path out_dir variant index = path_join out_dir (stem variant index @ ''.out'')"

lemma out_path_inj:
  assumes "out_path d v i = out_path d w j" "v \<in> {''software'', ''accelerated''}" "w \<in> {''software'', ''accelerated''}"
  shows "v = w \<and> i = j"
proof -
  have "path_join d x = (if d = [] \<or> last d = CHR ''/'' then d @ x else d @ ''/'' @ x)"
    if "x = stem u k @ ''.out''" "u \<in> {''software'', ''accelerated''}" for x u k
    using that by (auto simp: path_join_def stem_def)
  then have "stem v i = stem w j" using assms by (auto simp: out_path_def split: if_splits)
  then show ?thesis using assms(2,3) by (auto simp: stem_def dest: pad5_inj)
qed

definition alone :: "machine \<Rightarrow> string \<Rightarrow> string list \<Rightarrow> result" where
  \<comment> \<open>the run of a row by itself, in an empty directory\<close>
  "alone m elf row = fst (run_variant m '''' elf (row ! 0) (row ! 1) (row ! 2) 0 ''software'' Map.empty)"

lemma run_variant_alone:
  assumes "fs (out_path d v i) = None"
  shows "fst (run_variant m d elf l inp e i v fs) = alone m elf (l # inp # e # rest)"
    and "p \<noteq> out_path d v i \<Longrightarrow> snd (run_variant m d elf l inp e i v fs) p = fs p"
  using assms by (simp_all add: alone_def run_variant_def Let_def out_path_def split: prod.split option.split)

definition clean_from :: "string \<Rightarrow> nat \<Rightarrow> string list \<Rightarrow> files \<Rightarrow> bool" where
  \<comment> \<open>no output file of a later row, nor of these variants of this row\<close>
  "clean_from d i names fs \<longleftrightarrow>
     (\<forall>v \<in> {''software'', ''accelerated''}. \<forall>j > i. fs (out_path d v j) = None) \<and> (\<forall>v \<in> set names. fs (out_path d v i) = None)"

lemma run_variants_alone:
  assumes "clean_from d i (map fst vs) fs" "distinct (map fst vs)" "set (map fst vs) \<subseteq> {''software'', ''accelerated''}"
  shows "fst (run_variants m d l inp e i vs fs) = map (\<lambda>(name, elf). (name, alone m elf (l # inp # e # rest))) vs \<and>
    clean_from d i [] (snd (run_variants m d l inp e i vs fs))"
  using assms
proof (induction m d l inp e i vs fs rule: run_variants.induct)
  case (2 m d l inp e i name elf vs fs)
  let ?r = "run_variant m d elf l inp e i name fs"
  have none: "fs (out_path d name i) = None" using 2(2) by (simp add: clean_from_def)
  have keep: "snd ?r p = fs p" if "p \<noteq> out_path d name i" for p by (rule run_variant_alone(2) [where fs = fs and d = d and v = name and i = i, OF none that])
  have "clean_from d i (map fst vs) (snd ?r)"
    unfolding clean_from_def
  proof (intro conjI ballI allI impI)
    fix v j assume "v \<in> {''software'', ''accelerated''}" "i < j"
    then show "snd ?r (out_path d v j) = None"
      using 2(2,4) keep [of "out_path d v j"] out_path_inj [of d v j name i] by (force simp: clean_from_def)
  next
    fix v assume v: "v \<in> set (map fst vs)"
    then have "v \<noteq> name" "v \<in> {''software'', ''accelerated''}" "name \<in> {''software'', ''accelerated''}" using 2(3,4) by auto
    then have "out_path d v i \<noteq> out_path d name i" using out_path_inj [of d v i name i] by blast
    then show "snd ?r (out_path d v i) = None" using keep v 2(2) by (auto simp: clean_from_def)
  qed
  moreover have "distinct (map fst vs)" "set (map fst vs) \<subseteq> {''software'', ''accelerated''}" using 2(3,4) by simp_all
  ultimately have "fst (run_variants m d l inp e i vs (snd ?r)) = map (\<lambda>(name, elf). (name, alone m elf (l # inp # e # rest))) vs \<and>
      clean_from d i [] (snd (run_variants m d l inp e i vs (snd ?r)))"
    using 2(1) [of ?r "fst ?r" "snd ?r"] by simp
  then show ?case using run_variant_alone(1) [where fs = fs and d = d and v = name and i = i, OF none, of m elf l inp e rest] by (simp add: case_prod_unfold)
qed (simp add: clean_from_def)

lemma variants_names:
  "distinct (map fst (variants elf elf2))" "set (map fst (variants elf elf2)) \<subseteq> {''software'', ''accelerated''}"
  by (simp_all add: variants_def)

definition clean :: "string \<Rightarrow> files \<Rightarrow> bool" where
  \<comment> \<open>the directory holds no output file of an earlier benchmark\<close>
  "clean d fs \<longleftrightarrow> (\<forall>v \<in> {''software'', ''accelerated''}. \<forall>j. fs (out_path d v j) = None)"

definition whole_table :: "machine \<Rightarrow> (string \<times> string) list \<Rightarrow> string list list \<Rightarrow> (string \<times> result) list list" where
  "whole_table m vs rows = map (\<lambda>row. map (\<lambda>(name, elf). (name, alone m elf row)) vs) rows"

lemma run_rows_alone:
  assumes "\<forall>v \<in> {''software'', ''accelerated''}. \<forall>j \<ge> i. fs (out_path d v j) = None"
    and "distinct (map fst vs)" "set (map fst vs) \<subseteq> {''software'', ''accelerated''}"
  shows "run_rows m d vs i rows fs =
    (if list_all (\<lambda>row. 3 \<le> length row) rows then Inr (whole_table m vs rows) else Inl ValueError)"
  using assms(1)
proof (induction rows arbitrary: i fs)
  case (Cons row rows)
  show ?case
  proof (cases "3 \<le> length row")
    case True
    then obtain l inp e rest where row: "row = l # inp # e # rest"
      by (auto simp: numeral_3_eq_3 Suc_le_length_iff)
    let ?r = "run_variants m d l inp e i vs fs"
    have "clean_from d i (map fst vs) fs" using Cons.prems assms(3) by (auto simp: clean_from_def)
    note run_variants_alone [OF this assms(2,3), of m l inp e rest]
    moreover from this have "\<forall>v \<in> {''software'', ''accelerated''}. \<forall>j \<ge> i + 1. snd ?r (out_path d v j) = None"
      by (auto simp: clean_from_def)
    note Cons.IH [OF this]
    ultimately show ?thesis by (simp add: row whole_table_def case_prod_unfold)
  next
    case False
    then have "run_rows m d vs i (row # rows) fs = Inl ValueError"
      by (cases row rule: list.exhaust) (auto split: list.split)
    then show ?thesis using False by simp
  qed
qed (simp add: whole_table_def)

section \<open>What a benchmark records\<close>

lemma resolve_rows_fails: "emap (resolve_row isfile d) rows = (if list_all (\<lambda>r. 2 \<le> length r) rows
    then Inr (map (\<lambda>r. r[1 := resolve_input_path isfile (r ! 1) d]) rows) else Inl IndexError)"
  by (induction rows) (auto simp: resolve_row_def index_at_def)

definition chosen :: "(string \<Rightarrow> bool) \<Rightarrow> options \<Rightarrow> string list \<Rightarrow> string list list" where
  \<comment> \<open>the rows that are run, their inputs resolved\<close>
  "chosen isfile opts manifest = choose_rows (o_filter opts) (o_limit opts)
     (map (\<lambda>r. r[1 := resolve_input_path isfile (r ! 1) (dir_name (o_manifest opts))]) (read_rows manifest))"

lemma bench_alone:
  assumes "o_elf2 opts = [] \<or> isfile (o_elf2 opts)" "clean d fs"
  shows "bench m isfile rel d opts manifest fs =
    (if \<not> list_all (\<lambda>r. 2 \<le> length r) (read_rows manifest) then Raised IndexError
     else if \<not> list_all (\<lambda>r. 3 \<le> length r) (chosen isfile opts manifest) then Raised ValueError
     else let table = whole_table m (variants (o_elf opts) (o_elf2 opts)) (chosen isfile opts manifest)
          in Benched (bench_output opts table) (make_snapshot rel opts table))"
proof -
  have "run_rows m d (variants (o_elf opts) (o_elf2 opts)) 0 rows fs =
      (if list_all (\<lambda>row. 3 \<le> length row) rows then Inr (whole_table m (variants (o_elf opts) (o_elf2 opts)) rows)
       else Inl ValueError)" for rows
    by (rule run_rows_alone) (use assms(2) variants_names in \<open>simp_all add: clean_def\<close>)
  then show ?thesis using assms(1) by (auto simp: bench_def resolve_rows_fails chosen_def Let_def)
qed

text \<open>C36: A benchmark in a clean directory runs every row by itself.  Where the second ELF exists or is not given and
  the directory holds no output file of an earlier benchmark, \<open>bench\<close> fails with an index error when a row of the manifest
  has one field, with a value error when a chosen row has two, and otherwise records for every chosen row,
  in the order of the manifest, and for every variant exactly what running this row alone in an empty directory gives: the
  numbered output files keep the runs of one benchmark apart.\<close>

theorem bench_runs_alone:
  assumes "o_elf2 opts = [] \<or> isfile (o_elf2 opts)" "clean d fs"
  shows "bench m isfile rel d opts manifest fs =
    (if \<not> list_all (\<lambda>r. 2 \<le> length r) (read_rows manifest) then Raised IndexError
     else if \<not> list_all (\<lambda>r. 3 \<le> length r) (chosen isfile opts manifest) then Raised ValueError
     else let table = whole_table m (variants (o_elf opts) (o_elf2 opts)) (chosen isfile opts manifest)
          in Benched (bench_output opts table) (make_snapshot rel opts table))"
  using assms by (rule bench_alone)

text \<open>One row, run on a machine whose guest always writes a zero byte.\<close>

definition sample_machine :: "string \<Rightarrow> machine" where
  "sample_machine err = \<lparr>spike = \<lambda>elf inp. (err, Some [0]), ziskemu = \<lambda>elf inp. ('''', '''', 0)\<rparr>"

definition sample_options :: options where
  "sample_options = \<lparr>o_elf = ''g.elf'', o_manifest = ''/m/t.tsv'', o_elf2 = '''', o_limit = 0, o_filter = ''''\<rparr>"

definition sample_manifest :: "string list" where
  "sample_manifest = [''a'' @ [CHR 0x09] @ ''x.in'' @ [CHR 0x09] @ ''00'']"

lemma sample_chosen: "chosen (\<lambda>p. True) sample_options sample_manifest = [[''a'', ''x.in'', ''00'']]"
  by code_simp

lemma sample_rows: "list_all (\<lambda>r. 2 \<le> length r) (read_rows sample_manifest)"
  by code_simp

theorem bench_runs_alone_witness:
  "bench (sample_machine ''steps=9'') (\<lambda>p. True) id ''/o'' sample_options sample_manifest Map.empty =
    (if \<not> list_all (\<lambda>r. 2 \<le> length r) (read_rows sample_manifest) then Raised IndexError
     else if \<not> list_all (\<lambda>r. 3 \<le> length r) (chosen (\<lambda>p. True) sample_options sample_manifest) then Raised ValueError
     else let table = whole_table (sample_machine ''steps=9'') (variants (o_elf sample_options) (o_elf2 sample_options))
              (chosen (\<lambda>p. True) sample_options sample_manifest)
          in Benched (bench_output sample_options table) (make_snapshot id sample_options table)) \<and>
   chosen (\<lambda>p. True) sample_options sample_manifest = [[''a'', ''x.in'', ''00'']]"
  by (rule conjI [OF bench_runs_alone sample_chosen]) (simp_all add: sample_options_def clean_def)

text \<open>The file of an earlier benchmark is read when a run writes none.\<close>

lemma stale_output_ok:
  assumes "spike m elf inp = (err, None)" "fs (out_path d v i) = Some raw" "hex (take (length e div 2) raw) = e"
  shows "v_ok (fst (run_variant m d elf l inp e i v fs)) \<and> (e \<noteq> '''' \<longrightarrow> \<not> v_ok (alone m elf [l, inp, e]))"
  using assms by (simp add: run_variant_def alone_def out_path_def Let_def split: prod.split)

section \<open>Totals with missing metrics\<close>

lemma sum_missing:
  assumes "list_all (\<lambda>r. - 1 \<le> f r) rs"
  shows "sum_list (map f rs) = sum_list (map f (filter (\<lambda>r. 0 \<le> f r) rs)) - int (length (filter (\<lambda>r. f r < 0) rs))"
  using assms by (induction rs) auto

lemma read_metric_range: "- 1 \<le> grab_metric s l" "- 1 \<le> find_steps s"
  by (simp_all add: grab_metric_def find_steps_def split: option.split)

lemma alone_range: "list_all (\<lambda>(k, f). - 1 \<le> f (alone m elf row)) metrics"
  by (simp add: metrics_def alone_def run_variant_def Let_def read_metric_range split: prod.split)

text \<open>A metric that was not measured counts as minus one in the totals.  For the runs of any rows, every total of
  \<open>totals_for\<close> is the sum of the measured values over the matching runs, less the number of
  matching runs without a measurement; a total is shown as not available only when this is negative.\<close>

theorem totals_count_missing:
  "let rs = map (alone m elf) rows; selected = filter v_ok rs; t = totals_for rs in
     t_fixtures t = length rows \<and> t_ok t = length selected \<and> map fst (t_metrics t) = map fst metrics \<and>
     list_all2 (\<lambda>(k, f) (k', v). k' = k \<and>
        v = sum_list (map f (filter (\<lambda>r. 0 \<le> f r) selected)) - int (length (filter (\<lambda>r. f r < 0) selected)))
       metrics (t_metrics t)"
proof -
  let ?sel = "filter v_ok (map (alone m elf) rows)"
  have "sum_list (map f ?sel) = sum_list (map f (filter (\<lambda>r. 0 \<le> f r) ?sel)) - int (length (filter (\<lambda>r. f r < 0) ?sel))"
    if "(k, f) \<in> set metrics" for k f
  proof (rule sum_missing)
    have "- 1 \<le> f (alone m elf row)" for row using alone_range [of m elf row] that by (auto simp: list_all_iff)
    then show "list_all (\<lambda>r. - 1 \<le> f r) ?sel" by (auto simp: list_all_iff)
  qed
  then have "list_all2 (\<lambda>(k, f) (k', v). k' = k \<and>
      v = sum_list (map f (filter (\<lambda>r. 0 \<le> f r) ?sel)) - int (length (filter (\<lambda>r. f r < 0) ?sel)))
      metrics (map (\<lambda>(name, f). (name, sum_list (map f ?sel))) metrics)"
    by (auto simp: list_all2_map2 list.rel_refl_strong intro!: list.rel_refl_strong)
  then show ?thesis by (simp add: totals_for_def Let_def case_prod_unfold comp_def)
qed

end
