(* ===== verification/BenchCompare.thy ===== *)
theory BenchCompare
  imports Bench "HOL-Library.AList"
begin

text \<open>
  The comparison of two snapshots of benchmarks, \<open>tools/bench_compare.py\<close>: reading a snapshot, the verdict on every
  fixture and the exit code of the gate.  A file is an argument (what \<open>json.load\<close> gave); the text of an operating
  system error is left out.  Percentages are doubles (theory \<open>Double\<close>).
\<close>

section \<open>Thresholds and snapshots\<close>

datatype threshold_error = NotANumber | BelowZero

definition parse_threshold :: "string \<Rightarrow> threshold_error + flt" where
  "parse_threshold v =
     (let txt = strip v;
          txt = (if txt \<noteq> [] \<and> last txt = CHR 0x25 then strip (butlast txt) else txt)
      in case py_float txt of
           Inl e \<Rightarrow> Inl NotANumber
         | Inr x \<Rightarrow> if (case x of Fin q \<Rightarrow> q < 0 | Infinite neg \<Rightarrow> neg | NaN \<Rightarrow> False) then Inl BelowZero else Inr x)"

datatype document =
    Unreadable                    \<comment> \<open>\<open>OSError\<close> or \<open>JSONDecodeError\<close>\<close>
  | Value "entry list option"     \<comment> \<open>a value; the list of its fixtures, where it is an object with one\<close>

datatype load_error =
    CannotRead
  | NoFixtures
  | NoLabel nat
  | Duplicate string
  | BadOk string
  | BadMetric string string

record fixture =
  x_ok :: bool
  x_spike :: int
  x_steps :: int
  x_cost :: int

definition int_field :: "(string \<rightharpoonup> json) \<Rightarrow> string \<Rightarrow> int option" where
  "int_field r k = (case r k of Some (JInt z) \<Rightarrow> Some z | _ \<Rightarrow> None)"

definition load_metric :: "(string \<rightharpoonup> json) \<Rightarrow> string \<Rightarrow> string \<Rightarrow> load_error + int" where
  "load_metric r label k = (case int_field r k of None \<Rightarrow> Inl (BadMetric label k) | Some z \<Rightarrow> Inr z)"

definition load_fixture :: "string \<Rightarrow> (string \<rightharpoonup> json) \<Rightarrow> load_error + fixture" where
  \<comment> \<open>the checks after the label, in the order of \<open>METRICS\<close>\<close>
  "load_fixture label r =
     (case r ''ok'' of
        Some (JBool b) \<Rightarrow>
          (case load_metric r label ''spike_instr'' of Inl e \<Rightarrow> Inl e | Inr s \<Rightarrow>
           case load_metric r label ''zisk_steps'' of Inl e \<Rightarrow> Inl e | Inr t \<Rightarrow>
           case load_metric r label ''zisk_cost'' of Inl e \<Rightarrow> Inl e | Inr c \<Rightarrow>
             Inr \<lparr>x_ok = b, x_spike = s, x_steps = t, x_cost = c\<rparr>)
      | _ \<Rightarrow> Inl (BadOk label))"

type_synonym fixtures = "(string \<times> fixture) list"

fun load_loop :: "nat \<Rightarrow> entry list \<Rightarrow> fixtures \<Rightarrow> load_error + fixtures" where
  "load_loop index [] d = Inr d"
| "load_loop index (x # xs) d =
     (case (label_of x, x) of
        (Some label, Obj r) \<Rightarrow>
          if label \<in> fst ` set d then Inl (Duplicate label)
          else (case load_fixture label r of
              Inl e \<Rightarrow> Inl e
            | Inr f \<Rightarrow> load_loop (index + 1) xs (AList.update label f d))
      | _ \<Rightarrow> Inl (NoLabel index))"

definition load_snapshot :: "document \<Rightarrow> load_error + fixtures" where
  "load_snapshot doc = (case doc of
     Unreadable \<Rightarrow> Inl CannotRead
   | Value None \<Rightarrow> Inl NoFixtures
   | Value (Some xs) \<Rightarrow> load_loop 0 xs [])"

section \<open>Totals and texts\<close>

definition compared :: "(string \<times> (fixture \<Rightarrow> int)) list" where
  "compared = [(''spike_instr'', x_spike), (''zisk_steps'', x_steps), (''zisk_cost'', x_cost)]"

definition total_metrics :: "fixtures \<Rightarrow> totals" where
  "total_metrics d =
     (let selected = filter x_ok (map snd d)
      in \<lparr>t_fixtures = length d, t_ok = length selected,
          t_metrics = map (\<lambda>(k, f). (k, sum_list (map f selected))) compared\<rparr>)"

definition format_value :: "int \<Rightarrow> string" where "format_value = format_metric"

definition plus_commas :: "int \<Rightarrow> string" where
  \<comment> \<open>\<open>f"{z:+,}"\<close>\<close>
  "plus_commas z = (if z < 0 then ''-'' else ''+'') @ commas (nat \<bar>z\<bar>)"

definition plus_fixed2 :: "rat \<Rightarrow> string" where
  \<comment> \<open>\<open>f"{x:+.2f}"\<close>\<close>
  "plus_fixed2 q = (if q < 0 then '''' else ''+'') @ fixed2 q"

definition percentage :: "int \<Rightarrow> int \<Rightarrow> rat res" where
  \<comment> \<open>\<open>(new - old) * 100 / old\<close>\<close>
  "percentage old new = true_div ((new - old) * 100) old"

definition format_delta :: "int \<Rightarrow> int \<Rightarrow> string res" where
  "format_delta old new =
     (if old < 0 \<or> new < 0 then Inr ''n/a''
      else ebind (if old = 0 then Inr ''n/a'' else ebind (percentage old new) (\<lambda>q. Inr (plus_fixed2 q @ [CHR 0x25])))
        (\<lambda>p. Inr (plus_commas (new - old) @ '' ('' @ p @ '')'')))"

section \<open>The verdict on a fixture\<close>

definition instruction_regressed :: "int \<Rightarrow> int \<Rightarrow> flt \<Rightarrow> bool res" where
  "instruction_regressed old new threshold =
     (if old < 0 \<or> new < 0 \<or> old = 0 then Inr False
      else ebind (percentage old new) (\<lambda>q. Inr (above q threshold)))"

datatype change = REGRESSION | IMPROVED | UNCHANGED

definition fixture_result :: "string \<Rightarrow> fixture option \<Rightarrow> fixture option \<Rightarrow> flt \<Rightarrow> (change \<times> string list) res" where
  "fixture_result label old new threshold =
     (case (old, new) of
        (None, _) \<Rightarrow> Inr (REGRESSION, [label @ '': missing from old snapshot''])
      | (Some _, None) \<Rightarrow> Inr (REGRESSION, [label @ '': missing from new snapshot''])
      | (Some a, Some b) \<Rightarrow>
          ebind (instruction_regressed (x_spike a) (x_spike b) threshold) (\<lambda>slower.
          ebind (if slower then percentage (x_spike a) (x_spike b) else Inr 0) (\<lambda>growth.
            let problems = (if x_ok a \<and> \<not> x_ok b then [''ok true->false''] else []) @
                  (if slower then [''spike_instr +'' @ fixed2 growth @ [CHR 0x25]] else []);
                improvements = (if \<not> x_ok a \<and> x_ok b then [''ok false->true''] else []) @
                  (if \<not> slower \<and> 0 \<le> x_spike a \<and> 0 \<le> x_spike b \<and> x_spike b < x_spike a
                   then [''spike_instr decreased''] else [])
            in Inr (if problems \<noteq> [] then (REGRESSION, problems)
                    else if improvements \<noteq> [] then (IMPROVED, improvements) else (UNCHANGED, [])))))"

section \<open>The report and the exit code\<close>

definition status_text :: "change \<Rightarrow> string" where
  "status_text s = (case s of REGRESSION \<Rightarrow> ''REGRESSION'' | IMPROVED \<Rightarrow> ''IMPROVED'' | UNCHANGED \<Rightarrow> ''UNCHANGED'')"

definition metric_column :: "int \<Rightarrow> int \<Rightarrow> string res" where
  "metric_column old new =
     ebind (format_delta old new) (\<lambda>d. Inr (format_value old @ '' -> '' @ format_value new @ '' '' @ d))"

definition fixture_line :: "string \<Rightarrow> fixture option \<Rightarrow> fixture option \<Rightarrow> change \<Rightarrow> string res" where
  "fixture_line label old new st =
     ebind (case (old, new) of
        (Some a, Some b) \<Rightarrow> emap (\<lambda>(k, f). metric_column (f a) (f b)) compared
      | _ \<Rightarrow> Inr [''n/a'', ''n/a'', ''n/a''])
       (\<lambda>cols. Inr (label @ '' | '' @ status_text st @ '' | '' @ join '' | '' cols))"

definition all_labels :: "fixtures \<Rightarrow> fixtures \<Rightarrow> string list" where
  "all_labels old new = map fst old @ filter (\<lambda>l. l \<notin> fst ` set old) (map fst new)"

fun compare_loop :: "fixtures \<Rightarrow> fixtures \<Rightarrow> flt \<Rightarrow> string list \<Rightarrow> (string list \<times> string list) res" where
  \<comment> \<open>the printed lines and the regressions\<close>
  "compare_loop old new threshold [] = Inr ([], [])"
| "compare_loop old new threshold (l # ls) =
     ebind (fixture_result l (map_of old l) (map_of new l) threshold) (\<lambda>(st, reasons).
     ebind (fixture_line l (map_of old l) (map_of new l) st) (\<lambda>line.
     ebind (compare_loop old new threshold ls) (\<lambda>(out, regressions).
       Inr (line # out, (if st = REGRESSION then reasons else []) @ regressions))))"

definition total_line :: "totals \<Rightarrow> totals \<Rightarrow> string res" where
  "total_line old new =
     ebind (format_delta (int (t_ok old)) (int (t_ok new))) (\<lambda>d.
     ebind (emap (\<lambda>((k, a), (_, b)). ebind (metric_column a b) (\<lambda>c. Inr (k @ '' '' @ c))) (zip (t_metrics old) (t_metrics new))) (\<lambda>cols.
       Inr (''total | fixtures '' @ dec_nat (t_fixtures old) @ '' -> '' @ dec_nat (t_fixtures new) @ '' ('' @
         (let z = int (t_fixtures new) - int (t_fixtures old) in (if z < 0 then '''' else ''+'') @ py_str z) @
         '') | ok '' @ dec_nat (t_ok old) @ '' -> '' @ dec_nat (t_ok new) @ '' '' @ d @ '' | '' @ join '' | '' cols)))"

definition compare_report :: "flt \<Rightarrow> string list \<Rightarrow> string \<Rightarrow> string list \<Rightarrow> nat \<times> string list" where
  \<comment> \<open>of the rows, the line of the totals and the regressions\<close>
  "compare_report threshold rows t regressions =
     (let out = [''max Spike instruction growth: '' @ show_float threshold @ [CHR 0x25],
            ''fixture | status | spike_instr old -> new (delta) | zisk_steps old -> new (delta) | zisk_cost old -> new (delta)'']
            @ rows @ ['''', t, '''']
      in if regressions \<noteq> []
         then (1, out @ (''REGRESSION: '' @ dec_nat (length regressions)) # map (\<lambda>r. ''- '' @ r) regressions)
         else (0, out @ [''No performance regressions.'']))"

definition compare_main :: "document \<Rightarrow> document \<Rightarrow> flt \<Rightarrow> (nat \<times> string list) res" where
  \<comment> \<open>the exit code and the lines on standard output; an overflow of the division is not caught\<close>
  "compare_main old_doc new_doc threshold =
     (case (load_snapshot old_doc, load_snapshot new_doc) of
        (Inr old, Inr new) \<Rightarrow>
          ebind (compare_loop old new threshold (all_labels old new)) (\<lambda>(rows, regressions).
          ebind (total_line (total_metrics old) (total_metrics new)) (\<lambda>t.
            Inr (compare_report threshold rows t regressions)))
      | _ \<Rightarrow> Inr (2, []))"

lemma compare_report_code: "fst (compare_report th rows t rs) = (if rs = [] then 0 else 1)"
  by (simp add: compare_report_def Let_def)

section \<open>Growth is decided exactly\<close>

lemma percentage_Inr:
  assumes "0 < old" "0 \<le> new" "old \<le> 2 ^ 1000" "new \<le> 2 ^ 1000"
  shows "percentage old new = Inr (nearest (of_int ((new - old) * 100) / of_int old))"
proof -
  let ?q = "of_int ((new - old) * 100) / of_int old :: rat"
  have "\<bar>(new - old) * 100\<bar> \<le> 2 ^ 1000 * 2 ^ 7" using assms by (simp add: abs_le_iff)
  then have "\<bar>of_int ((new - old) * 100)\<bar> \<le> (of_int (2 ^ 1000 * 2 ^ 7) :: rat)" by (metis of_int_abs of_int_le_iff)
  also have "\<dots> \<le> of_int (2 ^ 1000 * 2 ^ 7) * of_int old" using assms(1) by (subst mult_le_cancel_left1) simp
  finally have "\<bar>?q\<bar> \<le> of_int (2 ^ 1000 * 2 ^ 7)" using assms(1) by (simp only: abs_divide pos_divide_le_eq of_int_0_less_iff abs_of_pos)
  also have "\<dots> = (2 powi 1007 :: rat)" by (simp flip: power_add)
  finally have "\<bar>nearest ?q\<bar> \<le> 2 powi 1007" by (rule nearest_bounded) simp
  also have "\<dots> < (2 powi 1024 :: rat)" by (rule power_int_strict_increasing) simp_all
  finally have "finite_range (nearest ?q)" by (simp add: finite_range_def)
  then show ?thesis by (simp add: percentage_def true_div_def Let_def)
qed

lemma above_default:
  assumes "0 < old" "old \<le> 2 ^ 51" "102 * old < 100 * new"
  shows "2 < nearest (of_int ((new - old) * 100) / of_int old)"
proof (rule dbl.above_complete)
  show "nearest (of_int (2 ^ 52 + 1) * 2 powi (- 51)) = (of_int (2 ^ 52 + 1) * 2 powi (- 51) :: rat)"
    by (rule nearest_representable) simp_all
  show "(2 :: rat) < of_int (2 ^ 52 + 1) * 2 powi (- 51)" by (simp add: power_int_minus)
  have "(of_int (2 * old + 1) :: rat) \<le> of_int ((new - old) * 100)" using assms(3) by (intro of_int_le_iff [THEN iffD2]) simp
  moreover have "(of_int old :: rat) \<le> of_int (2 ^ 51)" using assms(2) by (rule of_int_le_iff [THEN iffD2])
  then have "of_int (2 ^ 52 + 1) * 2 powi (- 51) * of_int old \<le> (of_int (2 * old + 1) :: rat)"
    using assms(1) by (simp add: power_int_minus field_simps)
  ultimately show "of_int (2 ^ 52 + 1) * 2 powi (- 51) \<le> (of_int ((new - old) * 100) / of_int old :: rat)"
    using assms(1) by (subst pos_le_divide_eq) auto
qed

lemma growth_iff:
  assumes "0 < old" "old \<le> 2 ^ 51" "0 \<le> new" "new \<le> 2 ^ 1000" "nearest t = t"
  shows "\<exists>b. instruction_regressed old new (Fin t) = Inr b \<and>
      (if b then t * of_int old < of_int ((new - old) * 100) else True) \<and>
    instruction_regressed old new (Fin 2) = Inr (102 * old < 100 * new)"
proof -
  let ?q = "of_int ((new - old) * 100) / of_int old :: rat"
  have "old \<le> 2 ^ 1000" using assms(2) by (rule order_trans) (simp add: power_increasing)
  then have p: "instruction_regressed old new (Fin x) = Inr (x < nearest ?q)" for x
    using assms percentage_Inr by (simp add: instruction_regressed_def above_def)
  have sound: "x * of_int old < of_int ((new - old) * 100)" if "nearest x = x" "x < nearest ?q" for x
    using dbl.above_sound [OF that] assms(1) by (simp add: pos_less_divide_eq del: of_int_mult of_int_diff)
  have "nearest 2 = 2" using nearest_representable [of 2 0] by simp
  then have "2 < nearest ?q \<Longrightarrow> (of_int (2 * old) :: rat) < of_int ((new - old) * 100)" using sound [of 2] by simp
  then have "2 < nearest ?q \<Longrightarrow> 2 * old < (new - old) * 100" by (simp only: of_int_less_iff)
  then have "2 < nearest ?q \<longleftrightarrow> 102 * old < 100 * new" using above_default [OF assms(1,2)] by fastforce
  then show ?thesis using p sound [OF assms(5)] by simp
qed

text \<open>C37: The growth test of the gate is exact.  For measured step counts (positive before, not
  negative now), a regression is reported only when the step count really grew by more than the threshold,
  whatever double the threshold is, rounding of the division notwithstanding; and with the default of two percent
  and fewer than \<open>2^51\<close> steps before it is reported exactly when \<open>100 new > 102 old\<close>.\<close>

theorem growth_exact:
  assumes "0 < old" "old \<le> 2 ^ 51" "0 \<le> new" "new \<le> 2 ^ 1000" "nearest t = t"
  shows "\<exists>b. instruction_regressed old new (Fin t) = Inr b \<and>
      (if b then t * of_int old < of_int ((new - old) * 100) else True) \<and>
    instruction_regressed old new (Fin 2) = Inr (102 * old < 100 * new)"
  using assms by (rule growth_iff)

theorem growth_exact_witness:
  "\<exists>b. instruction_regressed 100000 102001 (Fin (5 / 2)) = Inr b \<and>
      (if b then (5 / 2) * of_int 100000 < (of_int ((102001 - 100000) * 100) :: rat) else True) \<and>
    instruction_regressed 100000 102001 (Fin 2) = Inr (102 * 100000 < (100 * 102001 :: int))"
  by (rule growth_exact) (use nearest_representable [of 5 "- 1"] in \<open>simp_all add: power_int_minus\<close>)

text \<open>A threshold that is not a number passes the check for a negative one and switches the growth test off.\<close>

lemma nan_threshold:
  "parse_threshold ''nan'' = Inr NaN"
  "instruction_regressed old new NaN \<noteq> Inr True"
proof -
  show "parse_threshold ''nan'' = Inr NaN" by code_simp
  show "instruction_regressed old new NaN \<noteq> Inr True"
    by (cases "percentage old new") (simp_all add: instruction_regressed_def above_def)
qed

section \<open>The verdicts decide the exit code\<close>

definition worse :: "flt \<Rightarrow> fixture option \<Rightarrow> fixture option \<Rightarrow> bool" where
  \<comment> \<open>missing on a side, no longer matching, or slower than allowed\<close>
  "worse th a b = (case (a, b) of
     (Some a, Some b) \<Rightarrow> (x_ok a \<and> \<not> x_ok b) \<or> instruction_regressed (x_spike a) (x_spike b) th = Inr True
   | _ \<Rightarrow> True)"

lemma fixture_result_status:
  assumes "fixture_result l a b th = Inr (st, reasons)"
  shows "(st = REGRESSION) = worse th a b" "st = REGRESSION \<Longrightarrow> reasons \<noteq> []"
  using assms
  by (auto simp: fixture_result_def worse_def ebind_Inr_iff Let_def split: option.splits if_splits)

lemma compare_loop_regressions:
  "compare_loop old new th ls = Inr (out, rs) \<Longrightarrow>
     length out = length ls \<and> (rs = [] \<longleftrightarrow> list_all (\<lambda>l. \<not> worse th (map_of old l) (map_of new l)) ls)"
proof (induction ls arbitrary: out rs)
  case (Cons l ls)
  from Cons.prems obtain st reasons line out' rs' where f: "fixture_result l (map_of old l) (map_of new l) th = Inr (st, reasons)"
    and r: "compare_loop old new th ls = Inr (out', rs')"
    and o: "out = line # out'" "rs = (if st = REGRESSION then reasons else []) @ rs'"
    by (auto simp: ebind_Inr_iff)
  show ?case using Cons.IH [OF r] fixture_result_status [OF f] o by auto
qed simp

lemma compare_main_exit:
  assumes "load_snapshot od = Inr old" "load_snapshot nd = Inr new" "compare_main od nd th = Inr (c, out)"
  shows "c = (if list_all (\<lambda>l. \<not> worse th (map_of old l) (map_of new l)) (all_labels old new) then 0 else 1)"
proof -
  from assms obtain rows rs where "compare_loop old new th (all_labels old new) = Inr (rows, rs)"
    and "c = (if rs = [] then 0 else 1)"
    by (auto simp: compare_main_def ebind_Inr_iff) (metis compare_report_code fst_conv)
  then show ?thesis using compare_loop_regressions by simp
qed

section \<open>The comparison returns\<close>

definition in_range :: "fixtures \<Rightarrow> bool" where
  \<comment> \<open>step counts and costs of the emulators, minus one when missing\<close>
  "in_range d \<longleftrightarrow> length d \<le> 2 ^ 64 \<and>
     list_all (\<lambda>(l, f). list_all (\<lambda>(k, m). - 1 \<le> m f \<and> m f < 2 ^ 64) compared) d"

lemma format_delta_Inr: "old \<le> 2 ^ 1000 \<Longrightarrow> new \<le> 2 ^ 1000 \<Longrightarrow> \<exists>s. format_delta old new = Inr s"
  using percentage_Inr [of old new] by (auto simp: format_delta_def)

lemma metric_column_Inr: "old \<le> 2 ^ 1000 \<Longrightarrow> new \<le> 2 ^ 1000 \<Longrightarrow> \<exists>s. metric_column old new = Inr s"
  using format_delta_Inr [of old new] by (auto simp: metric_column_def)

lemma regressed_Inr: "old \<le> 2 ^ 1000 \<Longrightarrow> new \<le> 2 ^ 1000 \<Longrightarrow> \<exists>b. instruction_regressed old new th = Inr b"
  using percentage_Inr [of old new] by (auto simp: instruction_regressed_def)

lemma in_range_field:
  assumes "in_range d" "map_of d l = Some f" "(k, m) \<in> set compared"
  shows "- 1 \<le> m f" "m f \<le> 2 ^ 1000"
proof -
  have "- 1 \<le> m f \<and> m f < 2 ^ 64" using assms map_of_SomeD [OF assms(2)] by (fastforce simp: in_range_def list_all_iff)
  then show "- 1 \<le> m f" "m f \<le> 2 ^ 1000" by simp_all
qed

lemma fixture_result_Inr:
  assumes "in_range old" "in_range new"
  shows "\<exists>x. fixture_result l (map_of old l) (map_of new l) th = Inr x"
proof (cases "map_of old l = None \<or> map_of new l = None")
  case False
  then obtain a b where ab: "map_of old l = Some a" "map_of new l = Some b" by auto
  have m: "(''spike_instr'', x_spike) \<in> set compared" by (simp add: compared_def)
  have r: "x_spike a \<le> 2 ^ 1000" "x_spike b \<le> 2 ^ 1000"
    using in_range_field(2) [OF assms(1) ab(1) m] in_range_field(2) [OF assms(2) ab(2) m] by simp_all
  obtain z where z: "instruction_regressed (x_spike a) (x_spike b) th = Inr z" using regressed_Inr [OF r] by blast
  have "\<exists>q. (if z then percentage (x_spike a) (x_spike b) else Inr 0) = Inr q"
    using z percentage_Inr [of "x_spike a" "x_spike b"] r by (auto simp: instruction_regressed_def split: if_splits)
  then show ?thesis using z by (auto simp: fixture_result_def ab Let_def)
qed (auto simp: fixture_result_def split: option.split)

lemma fixture_line_Inr:
  assumes "in_range old" "in_range new"
  shows "\<exists>x. fixture_line l (map_of old l) (map_of new l) st = Inr x"
proof (cases "map_of old l = None \<or> map_of new l = None")
  case False
  then obtain a b where ab: "map_of old l = Some a" "map_of new l = Some b" by auto
  have "\<exists>c. (\<lambda>(k, f). metric_column (f a) (f b)) km = Inr c" if "km \<in> set compared" for km
    using metric_column_Inr that in_range_field(2) [OF assms(1) ab(1), of "fst km" "snd km"]
      in_range_field(2) [OF assms(2) ab(2), of "fst km" "snd km"] by (cases km) simp
  then obtain cols where "emap (\<lambda>(k, f). metric_column (f a) (f b)) compared = Inr cols" using emap_Inr_ex by blast
  then show ?thesis by (simp add: fixture_line_def ab)
qed (auto simp: fixture_line_def split: option.split)

lemma compare_loop_Inr: "in_range old \<Longrightarrow> in_range new \<Longrightarrow> \<exists>x. compare_loop old new th ls = Inr x"
proof (induction ls)
  case (Cons l ls)
  obtain st rs where "fixture_result l (map_of old l) (map_of new l) th = Inr (st, rs)"
    using fixture_result_Inr [OF Cons.prems] by force
  moreover obtain line where "fixture_line l (map_of old l) (map_of new l) st = Inr line"
    using fixture_line_Inr [OF Cons.prems] by blast
  moreover obtain x where "compare_loop old new th ls = Inr x" using Cons by blast
  ultimately show ?case by (cases x) simp
qed simp

lemma sum_bound: "(\<And>x. x \<in> set xs \<Longrightarrow> (x :: int) \<le> b) \<Longrightarrow> 0 \<le> b \<Longrightarrow> sum_list xs \<le> int (length xs) * b"
  by (induction xs) (auto simp: algebra_simps add_mono)

lemma totals_in_range:
  assumes "in_range d" "(k, m) \<in> set compared"
  shows "sum_list (map m (filter x_ok (map snd d))) \<le> 2 ^ 1000"
proof -
  let ?xs = "map m (filter x_ok (map snd d))"
  have "x \<le> 2 ^ 64" if "x \<in> set ?xs" for x
    using that assms by (fastforce simp: in_range_def list_all_iff)
  then have "sum_list ?xs \<le> int (length ?xs) * 2 ^ 64" by (rule sum_bound) simp_all
  also have "\<dots> \<le> 2 ^ 64 * 2 ^ 64"
  proof (rule mult_right_mono)
    have "length (filter x_ok (map snd d)) \<le> length (map snd d)" by (rule length_filter_le)
    moreover have "length d \<le> 2 ^ 64" using assms(1) by (simp add: in_range_def)
    ultimately have "length ?xs \<le> 2 ^ 64" by (simp only: length_map)
    then show "int (length ?xs) \<le> 2 ^ 64" by simp
  qed simp
  also have "\<dots> \<le> (2 ^ 1000 :: int)" by simp
  finally show ?thesis .
qed

lemma total_line_Inr:
  assumes "in_range old" "in_range new"
  shows "\<exists>x. total_line (total_metrics old) (total_metrics new) = Inr x"
proof -
  have k: "int (t_ok (total_metrics d)) \<le> 2 ^ 1000" if "in_range d" for d
  proof -
    have "t_ok (total_metrics d) \<le> length d"
      using length_filter_le [of x_ok "map snd d"] by (simp only: total_metrics_def Let_def totals.simps length_map)
    then have "t_ok (total_metrics d) \<le> 2 ^ 64" using that by (simp add: in_range_def)
    then have "int (t_ok (total_metrics d)) \<le> 2 ^ 64" by simp
    then show ?thesis by simp
  qed
  obtain dl where dl: "format_delta (int (t_ok (total_metrics old))) (int (t_ok (total_metrics new))) = Inr dl"
    using format_delta_Inr k assms by blast
  let ?z = "zip (t_metrics (total_metrics old)) (t_metrics (total_metrics new))"
  have "\<exists>y. (\<lambda>((k, a), (_, b)). ebind (metric_column a b) (\<lambda>c. Inr (k @ '' '' @ c))) x = Inr y" if x: "x \<in> set ?z" for x
  proof -
    obtain k m where km: "(k, m) \<in> set compared"
      and e: "x = ((k, sum_list (map m (filter x_ok (map snd old)))), (k, sum_list (map m (filter x_ok (map snd new)))))"
      using x by (auto simp: total_metrics_def Let_def compared_def)
    obtain c where "metric_column (sum_list (map m (filter x_ok (map snd old)))) (sum_list (map m (filter x_ok (map snd new)))) = Inr c"
      using metric_column_Inr totals_in_range [OF assms(1) km] totals_in_range [OF assms(2) km] by blast
    then show ?thesis by (simp add: e)
  qed
  then obtain cols where "emap (\<lambda>((k, a), (_, b)). ebind (metric_column a b) (\<lambda>c. Inr (k @ '' '' @ c))) ?z = Inr cols"
    using emap_Inr_ex by blast
  then show ?thesis using dl by (simp add: total_line_def)
qed

lemma gate_iff:
  assumes "case load_snapshot od of Inr d \<Rightarrow> in_range d | Inl e \<Rightarrow> True"
    and "case load_snapshot nd of Inr d \<Rightarrow> in_range d | Inl e \<Rightarrow> True"
  shows "\<exists>c out. compare_main od nd th = Inr (c, out) \<and>
    (case (load_snapshot od, load_snapshot nd) of
       (Inr old, Inr new) \<Rightarrow>
         c = (if set (map fst old) = set (map fst new) \<and>
               list_all (\<lambda>l. \<not> worse th (map_of old l) (map_of new l)) (map fst old) then 0 else 1)
     | _ \<Rightarrow> c = 2)"
proof (cases "load_snapshot od")
  case (Inr old)
  show ?thesis
  proof (cases "load_snapshot nd")
    case new: (Inr new)
    have r: "in_range old" "in_range new" using assms Inr new by simp_all
    obtain rows rs where l: "compare_loop old new th (all_labels old new) = Inr (rows, rs)"
      using compare_loop_Inr [OF r] by (metis surj_pair)
    obtain t where "total_line (total_metrics old) (total_metrics new) = Inr t" using total_line_Inr [OF r] by blast
    then obtain c out where m: "compare_main od nd th = Inr (c, out)"
      using l by (cases "compare_report th rows t rs") (simp add: compare_main_def Inr new)
    have n: "worse th None b" "worse th a None" for a b by (simp_all add: worse_def split: option.split)
    have "list_all (\<lambda>l. \<not> worse th (map_of old l) (map_of new l)) (all_labels old new) \<longleftrightarrow>
        set (map fst old) = set (map fst new) \<and> list_all (\<lambda>l. \<not> worse th (map_of old l) (map_of new l)) (map fst old)"
    proof
      assume a: "list_all (\<lambda>l. \<not> worse th (map_of old l) (map_of new l)) (all_labels old new)"
      have "l \<in> set (map fst new)" if "l \<in> set (map fst old)" for l
      proof (rule ccontr)
        assume "l \<notin> set (map fst new)"
        then have "map_of new l = None" by (simp add: map_of_eq_None_iff)
        moreover have "l \<in> set (all_labels old new)" using that by (simp add: all_labels_def)
        ultimately show False using a n(2) by (metis list_all_iff)
      qed
      moreover have "l \<in> set (map fst old)" if "l \<in> set (map fst new)" for l
      proof (rule ccontr)
        assume o: "l \<notin> set (map fst old)"
        then have "l \<in> set (all_labels old new)" "map_of old l = None" using that by (auto simp: all_labels_def map_of_eq_None_iff)
        then show False using a n(1) by (metis list_all_iff)
      qed
      ultimately have "set (map fst old) = set (map fst new)" by blast
      then show "set (map fst old) = set (map fst new) \<and> list_all (\<lambda>l. \<not> worse th (map_of old l) (map_of new l)) (map fst old)"
        using a by (simp add: all_labels_def)
    next
      assume a: "set (map fst old) = set (map fst new) \<and> list_all (\<lambda>l. \<not> worse th (map_of old l) (map_of new l)) (map fst old)"
      then have "fst ` set old = fst ` set new" by simp
      then have "filter (\<lambda>l. l \<notin> fst ` set old) (map fst new) = []" by (simp add: filter_empty_conv)
      then have "all_labels old new = map fst old" by (simp only: all_labels_def append_Nil2)
      then show "list_all (\<lambda>l. \<not> worse th (map_of old l) (map_of new l)) (all_labels old new)" using a by simp
    qed
    then show ?thesis using compare_main_exit [OF Inr new m] m Inr new by simp
  qed (simp add: compare_main_def Inr)
qed (simp add: compare_main_def)

text \<open>The gate decides.  For two files of snapshots whose metrics are below \<open>2^64\<close> and whose fixtures are fewer than that,
  the comparison always returns (no division overflows): with exit code 2 exactly when a file does not load, otherwise with
  0 when both files have the same fixtures and none of them stopped matching or grew by more than the threshold, and with 1
  in every other case.\<close>

theorem gate_decides:
  assumes "case load_snapshot od of Inr d \<Rightarrow> in_range d | Inl e \<Rightarrow> True"
    and "case load_snapshot nd of Inr d \<Rightarrow> in_range d | Inl e \<Rightarrow> True"
  shows "\<exists>c out. compare_main od nd th = Inr (c, out) \<and>
    (case (load_snapshot od, load_snapshot nd) of
       (Inr old, Inr new) \<Rightarrow>
         c = (if set (map fst old) = set (map fst new) \<and>
               list_all (\<lambda>l. \<not> worse th (map_of old l) (map_of new l)) (map fst old) then 0 else 1)
     | _ \<Rightarrow> c = 2)"
  using assms by (rule gate_iff)

text \<open>Two snapshots, the second slower by two percent and a bit on its only fixture.\<close>

definition sample :: "int \<Rightarrow> document" where
  "sample n = Value (Some [Obj [''label'' \<mapsto> JStr ''a'', ''ok'' \<mapsto> JBool True, ''spike_instr'' \<mapsto> JInt n, ''zisk_steps'' \<mapsto> JInt 7, ''zisk_cost'' \<mapsto> JInt (- 1)]])"

lemma load_sample: "load_snapshot (sample n) = Inr [(''a'', \<lparr>x_ok = True, x_spike = n, x_steps = 7, x_cost = - 1\<rparr>)]"
  by (simp add: sample_def load_snapshot_def label_of_def load_fixture_def load_metric_def int_field_def)

theorem gate_decides_witness:
  "\<exists>c out. compare_main (sample 100000) (sample 102001) (Fin 2) = Inr (c, out) \<and>
    (case (load_snapshot (sample 100000), load_snapshot (sample 102001)) of
       (Inr old, Inr new) \<Rightarrow>
         c = (if set (map fst old) = set (map fst new) \<and>
               list_all (\<lambda>l. \<not> worse (Fin 2) (map_of old l) (map_of new l)) (map fst old) then 0 else 1)
     | _ \<Rightarrow> c = 2)"
  by (rule gate_decides) (simp_all add: load_sample in_range_def compared_def)

section \<open>Snapshots of the benchmark are read back\<close>

definition as_fixture :: "result \<Rightarrow> fixture" where
  "as_fixture r = \<lparr>x_ok = v_ok r, x_spike = v_spike r, x_steps = v_steps r, x_cost = v_total r\<rparr>"

lemma as_fixture_fields [simp]:
  "x_ok (as_fixture r) = v_ok r" "x_spike (as_fixture r) = v_spike r" "x_steps (as_fixture r) = v_steps r"
  "x_cost (as_fixture r) = v_total r"
  by (simp_all add: as_fixture_def)

definition recorded :: "(string \<times> result) list \<Rightarrow> string \<times> fixture" where
  "recorded rs = (v_label (primary rs), as_fixture (primary rs))"

lemma load_fixture_entry:
  "\<exists>r. fixture_entry paired rs = Obj r \<and> label_of (Obj r) = Some (v_label (primary rs)) \<and>
     load_fixture (v_label (primary rs)) r = Inr (as_fixture (primary rs))"
  by (simp add: fixture_entry_def Let_def label_of_def load_fixture_def load_metric_def int_field_def as_fixture_def)

fun first_repeat :: "'a set \<Rightarrow> 'a list \<Rightarrow> 'a option" where
  "first_repeat seen [] = None"
| "first_repeat seen (x # xs) = (if x \<in> seen then Some x else first_repeat (insert x seen) xs)"

lemma first_repeat_None: "first_repeat seen xs = None \<longleftrightarrow> distinct xs \<and> set xs \<inter> seen = {}"
  by (induction seen xs rule: first_repeat.induct) auto

lemma update_fresh: "k \<notin> fst ` set d \<Longrightarrow> AList.update k v d = d @ [(k, v)]"
  by (induction d) auto

lemma load_loop_entries:
  "load_loop i (map (fixture_entry paired) table) d =
    (case first_repeat (fst ` set d) (map (v_label \<circ> primary) table) of
       None \<Rightarrow> Inr (d @ map recorded table) | Some l \<Rightarrow> Inl (Duplicate l))"
proof (induction table arbitrary: i d)
  case (Cons rs table)
  let ?l = "v_label (primary rs)"
  obtain r where r: "fixture_entry paired rs = Obj r" "label_of (Obj r) = Some ?l" "load_fixture ?l r = Inr (as_fixture (primary rs))"
    using load_fixture_entry by blast
  show ?case
  proof (cases "?l \<in> fst ` set d")
    case False
    then have "load_loop i (map (fixture_entry paired) (rs # table)) d =
        load_loop (i + 1) (map (fixture_entry paired) table) (d @ [recorded rs])"
      using r update_fresh [OF False] by (simp add: recorded_def)
    also have "\<dots> = (case first_repeat (insert ?l (fst ` set d)) (map (v_label \<circ> primary) table) of
       None \<Rightarrow> Inr (d @ recorded rs # map recorded table) | Some l \<Rightarrow> Inl (Duplicate l))"
      by (simp add: Cons.IH recorded_def comp_def split: option.split)
    finally have "load_loop i (map (fixture_entry paired) (rs # table)) d = \<dots>" .
    moreover have "first_repeat (fst ` set d) (map (v_label \<circ> primary) (rs # table)) =
        first_repeat (insert ?l (fst ` set d)) (map (v_label \<circ> primary) table)" using False by simp
    ultimately show ?thesis by (simp only: list.map(2) [of recorded])
  qed (use r in simp)
qed simp

definition snapshot_document :: "snapshot \<Rightarrow> document" where
  \<comment> \<open>the file that \<open>json.dump\<close> wrote, read by \<open>json.load\<close>\<close>
  "snapshot_document n = Value (Some (n_fixtures n))"

text \<open>C38: The comparison reads what the benchmark writes.  The snapshot of a benchmark over a table of results loads
  exactly when no label occurs twice, and is refused with the first repeated label otherwise; loaded, it has
  the label, the verdict and the three compared metrics of the first guest for every row in order, and the
  comparison computes from it the totals that the benchmark recorded in the same file.\<close>

theorem snapshot_round_trip:
  "load_snapshot (snapshot_document (make_snapshot rel opts table)) =
     (case first_repeat {} (map (v_label \<circ> primary) table) of
        None \<Rightarrow> Inr (map recorded table) | Some l \<Rightarrow> Inl (Duplicate l)) \<and>
   (let t = total_metrics (map recorded table); n = n_totals (make_snapshot rel opts table)
    in map_of n ''fixtures'' = Some (int (t_fixtures t)) \<and> map_of n ''ok'' = Some (int (t_ok t)) \<and>
       list_all (\<lambda>(k, v). map_of n k = Some v) (t_metrics t))"
proof -
  have l: "load_snapshot (snapshot_document (make_snapshot rel opts table)) =
     (case first_repeat {} (map (v_label \<circ> primary) table) of
        None \<Rightarrow> Inr (map recorded table) | Some l \<Rightarrow> Inl (Duplicate l))"
    by (simp add: load_snapshot_def snapshot_document_def make_snapshot_def Let_def load_loop_entries split: option.split)
  have p: "(\<lambda>rs. the (map_of rs ''software'')) = primary" by (rule ext) (simp add: primary_def)
  have r: "snd (recorded rs) = as_fixture (primary rs)" for rs by (simp add: recorded_def)
  have f: "filter x_ok (map (\<lambda>x. as_fixture (primary x)) xs) = map as_fixture (filter v_ok (map primary xs))"
    "length (filter (\<lambda>x. x_ok (as_fixture (primary x))) xs) = length (filter (\<lambda>x. v_ok (primary x)) xs)" for xs
    by (induction xs) (simp_all add: as_fixture_def)
  have n: "n_totals (make_snapshot rel opts table) = snapshot_totals (totals_for (map primary table))"
    by (simp add: make_snapshot_def Let_def by_variant_def variants_def p)
  show ?thesis
    unfolding n
    by (intro conjI l)
      (simp add: Let_def total_metrics_def r f snapshot_totals_def totals_for_def metrics_def compared_def comp_def)
qed

section \<open>The gate over two benchmarks\<close>

definition plain :: "(string list \<Rightarrow> result) \<Rightarrow> string list list \<Rightarrow> fixtures" where
  \<comment> \<open>the fixtures of a benchmark of these rows, each run by itself\<close>
  "plain run rows = map (\<lambda>row. (hd row, as_fixture (run row))) rows"

definition small_counts :: "result \<Rightarrow> bool" where
  \<comment> \<open>at most \<open>2^51\<close> Spike steps, 64-bit counts of ziskemu\<close>
  "small_counts r = (v_spike r \<le> 2 ^ 51 \<and> v_steps r < 2 ^ 64 \<and> v_total r < 2 ^ 64)"

definition slower :: "result \<Rightarrow> result \<Rightarrow> bool" where
  \<comment> \<open>by more than two percent, both being measured\<close>
  "slower a b = (0 < v_spike a \<and> 0 \<le> v_spike b \<and> 102 * v_spike a < 100 * v_spike b)"

lemma label_alone: "v_label (alone m elf row) = row ! 0"
  by (simp add: alone_def run_variant_def Let_def split: prod.split)

lemma recorded_plain:
  assumes "list_all (\<lambda>r. 3 \<le> length r) rows"
  shows "map recorded (whole_table m (variants elf elf2) rows) = plain (alone m elf) rows"
proof -
  have "recorded (map (\<lambda>(name, elf). (name, alone m elf row)) (variants elf elf2)) = (hd row, as_fixture (alone m elf row))"
    if "row \<in> set rows" for row
  proof -
    have "row \<noteq> []" using assms that by (fastforce simp: list_all_iff)
    then show ?thesis by (simp add: recorded_def primary_def variants_def label_alone hd_conv_nth)
  qed
  then show ?thesis by (simp add: whole_table_def plain_def)
qed

lemma bench_loads:
  assumes "bench m isfile rel d opts manifest fs = Benched ls n" "clean d fs" "distinct (map hd (chosen isfile opts manifest))"
  shows "load_snapshot (snapshot_document n) = Inr (plain (alone m (o_elf opts)) (chosen isfile opts manifest))"
proof -
  let ?rows = "chosen isfile opts manifest" and ?vs = "variants (o_elf opts) (o_elf2 opts)"
  have e: "o_elf2 opts = [] \<or> isfile (o_elf2 opts)" using assms(1) by (simp add: bench_def split: if_splits)
  have three: "list_all (\<lambda>r. 3 \<le> length r) ?rows"
    using assms(1) unfolding bench_alone [where opts = opts and isfile = isfile and d = d and fs = fs, OF e assms(2)] by (auto split: if_splits)
  have n: "n = make_snapshot rel opts (whole_table m ?vs ?rows)"
    using assms(1) unfolding bench_alone [where opts = opts and isfile = isfile and d = d and fs = fs, OF e assms(2)] by (auto simp: Let_def split: if_splits)
  have "map (v_label \<circ> primary) (whole_table m ?vs ?rows) = map fst (map recorded (whole_table m ?vs ?rows))"
    by (simp add: recorded_def comp_def)
  also have "\<dots> = map hd ?rows" by (simp only: recorded_plain [OF three]) (simp add: plain_def comp_def)
  finally have "first_repeat {} (map (v_label \<circ> primary) (whole_table m ?vs ?rows)) = None"
    using assms(3) by (simp add: first_repeat_None)
  then show ?thesis
    by (simp add: n load_snapshot_def snapshot_document_def make_snapshot_def Let_def load_loop_entries recorded_plain [OF three])
qed

lemma map_of_plain:
  assumes "distinct (map hd rows)" "row \<in> set rows"
  shows "map_of (plain run rows) (hd row) = Some (as_fixture (run row))"
proof -
  have "distinct (map fst (plain run rows))" using assms(1) by (simp add: plain_def comp_def)
  then show ?thesis by (rule map_of_is_SomeI) (use assms(2) in \<open>auto simp: plain_def\<close>)
qed

lemma in_range_plain:
  assumes "length rows \<le> 2 ^ 64" "list_all (\<lambda>row. small_counts (alone m elf row)) rows"
  shows "in_range (plain (alone m elf) rows)"
proof -
  have "- 1 \<le> v_spike r \<and> - 1 \<le> v_steps r \<and> - 1 \<le> v_total r" if "r = alone m elf row" for r row
    using alone_range [of m elf row] that by (simp add: metrics_def)
  then show ?thesis using assms by (fastforce simp: in_range_def plain_def list_all_iff compared_def small_counts_def)
qed

lemma worse_default:
  assumes "small_counts a" "small_counts b"
  shows "worse (Fin 2) (Some (as_fixture a)) (Some (as_fixture b)) \<longleftrightarrow> (v_ok a \<and> \<not> v_ok b) \<or> slower a b"
proof -
  have n: "nearest 2 = 2" using nearest_representable [of 2 0] by simp
  have "v_spike b \<le> 2 ^ 1000" using assms(2) unfolding small_counts_def by (elim conjE order_trans) simp
  then have "instruction_regressed (v_spike a) (v_spike b) (Fin 2) = Inr True \<longleftrightarrow> slower a b"
    using growth_iff [of "v_spike a" "v_spike b" 2] n assms
    by (cases "0 < v_spike a \<and> 0 \<le> v_spike b") (auto simp: small_counts_def slower_def instruction_regressed_def)
  then show ?thesis by (simp add: worse_def)
qed

text \<open>C39: The gate over two benchmarks.  Let two guests be benchmarked over the same rows of a manifest with distinct
  labels, each in a clean directory, with at most \<open>2^51\<close> Spike steps and 64-bit metrics.  Then comparing the two
  snapshots with the default threshold returns; its exit code is 0 exactly when every row that matched with the first
  guest, run alone, matches with the second, and no row grew by more than two percent, that is
  \<open>100 new > 102 old\<close> for measured step counts; and it is 1 otherwise.\<close>

theorem bench_gate:
  assumes "bench m1 isfile rel d o1 manifest fs1 = Benched l1 n1" "bench m2 isfile rel d o2 manifest fs2 = Benched l2 n2"
    and "clean d fs1" "clean d fs2"
    and "chosen isfile o1 manifest = rows" "chosen isfile o2 manifest = rows" "distinct (map hd rows)" "length rows \<le> 2 ^ 64"
    and "list_all (\<lambda>row. small_counts (alone m1 (o_elf o1) row) \<and> small_counts (alone m2 (o_elf o2) row)) rows"
  shows "\<exists>out. compare_main (snapshot_document n1) (snapshot_document n2) (Fin 2) =
    Inr (if list_all (\<lambda>row. let a = alone m1 (o_elf o1) row; b = alone m2 (o_elf o2) row
           in (if v_ok a then v_ok b else True) \<and> \<not> slower a b) rows then 0 else 1, out)"
proof -
  let ?a = "plain (alone m1 (o_elf o1)) rows" and ?b = "plain (alone m2 (o_elf o2)) rows"
  have l: "load_snapshot (snapshot_document n1) = Inr ?a" "load_snapshot (snapshot_document n2) = Inr ?b"
    using bench_loads [OF assms(1,3)] bench_loads [OF assms(2,4)] assms(5,6,7) by auto
  have "list_all (\<lambda>row. small_counts (alone m1 (o_elf o1) row)) rows" "list_all (\<lambda>row. small_counts (alone m2 (o_elf o2) row)) rows"
    using assms(9) by (simp_all add: list_all_iff)
  then have r: "in_range ?a" "in_range ?b" using in_range_plain assms(8) by blast+
  have w: "worse (Fin 2) (map_of ?a (hd row)) (map_of ?b (hd row)) \<longleftrightarrow>
      \<not> (let a = alone m1 (o_elf o1) row; b = alone m2 (o_elf o2) row in (if v_ok a then v_ok b else True) \<and> \<not> slower a b)"
    if "row \<in> set rows" for row
    using worse_default [of "alone m1 (o_elf o1) row" "alone m2 (o_elf o2) row"] map_of_plain [OF assms(7) that] assms(9) that
    by (auto simp: Let_def list_all_iff)
  have f: "map fst ?a = map hd rows" "map fst ?b = map hd rows" by (simp_all add: plain_def comp_def)
  obtain c out where m: "compare_main (snapshot_document n1) (snapshot_document n2) (Fin 2) = Inr (c, out)"
    and c: "c = (if list_all (\<lambda>l. \<not> worse (Fin 2) (map_of ?a l) (map_of ?b l)) (map hd rows) then 0 else 1)"
    using gate_iff [of "snapshot_document n1" "snapshot_document n2" "Fin 2"] l r f by auto
  have ab: "list_all (\<lambda>l. \<not> worse (Fin 2) (map_of ?a l) (map_of ?b l)) (map hd rows) \<longleftrightarrow>
      list_all (\<lambda>row. let a = alone m1 (o_elf o1) row; b = alone m2 (o_elf o2) row
           in (if v_ok a then v_ok b else True) \<and> \<not> slower a b) rows"
    unfolding list_all_iff set_map ball_simps using w by blast
  show ?thesis using m unfolding c ab by blast
qed

lemma sample_benched: "\<exists>l n. bench (sample_machine err) (\<lambda>p. True) id ''/o'' sample_options sample_manifest Map.empty = Benched l n"
  using bench_alone [of sample_options "\<lambda>p. True" "''/o''" Map.empty "sample_machine err" id sample_manifest]
  by (simp add: clean_def sample_chosen sample_rows Let_def)

lemma sample_bounded: "small_counts (alone (sample_machine ''steps=100'') ''g.elf'' [''a'', ''x.in'', ''00''])"
    "small_counts (alone (sample_machine ''steps=103'') ''g.elf'' [''a'', ''x.in'', ''00''])"
  by code_simp+

lemma sample_slower: "slower (alone (sample_machine ''steps=100'') ''g.elf'' [''a'', ''x.in'', ''00''])
    (alone (sample_machine ''steps=103'') ''g.elf'' [''a'', ''x.in'', ''00''])"
  by code_simp

theorem bench_gate_witness:
  "\<exists>l1 n1 l2 n2 out.
     bench (sample_machine ''steps=100'') (\<lambda>p. True) id ''/o'' sample_options sample_manifest Map.empty = Benched l1 n1 \<and>
     bench (sample_machine ''steps=103'') (\<lambda>p. True) id ''/o'' sample_options sample_manifest Map.empty = Benched l2 n2 \<and>
     compare_main (snapshot_document n1) (snapshot_document n2) (Fin 2) = Inr (1, out)"
proof -
  obtain l1 n1 where b1: "bench (sample_machine ''steps=100'') (\<lambda>p. True) id ''/o'' sample_options sample_manifest Map.empty = Benched l1 n1"
    using sample_benched by blast
  obtain l2 n2 where b2: "bench (sample_machine ''steps=103'') (\<lambda>p. True) id ''/o'' sample_options sample_manifest Map.empty = Benched l2 n2"
    using sample_benched by blast
  have e: "o_elf sample_options = ''g.elf''" by (simp add: sample_options_def)
  have "\<exists>out. compare_main (snapshot_document n1) (snapshot_document n2) (Fin 2) =
    Inr (if list_all (\<lambda>row. let a = alone (sample_machine ''steps=100'') (o_elf sample_options) row;
             b = alone (sample_machine ''steps=103'') (o_elf sample_options) row
           in (if v_ok a then v_ok b else True) \<and> \<not> slower a b) [[''a'', ''x.in'', ''00'']] then 0 else 1, out)"
    by (rule bench_gate [OF b1 b2 _ _ sample_chosen sample_chosen]) (simp_all add: clean_def sample_bounded e)
  then show ?thesis using b1 b2 sample_slower by (simp add: Let_def e)
qed

end
