(* ===== verification/Compare.thy ===== *)
theory Compare
  imports Bench Recover Ssz "HOL-Library.AList"
begin

text \<open>
  The comparison of the guest with other clients, \<open>tools/compare-clients.py\<close>: fetching the pinned files,
  running the emulator, the jobs of the two experiments and the tables.  The conversions of the
  input layouts are in theory \<open>Recover\<close>, the framing in \<open>Ssz\<close>.  The emulator, the network, the hash of a file
  and the archive library are arguments; the thread pool keeps the order of its jobs (\<open>Executor.map\<close>).
\<close>

section \<open>Pinned files\<close>

definition zisk_url :: string where
  "zisk_url = ''https://github.com/0xPolygonHermez/zisk/releases/download/v1.1.0-alpha/'' @ ''cargo_zisk_linux_amd64.tar.gz''"
definition zisk_sha :: string where "zisk_sha = ''b6aebca0912eb726889039e5192e7bc0e2c0a4d40e43dca24eeca398c76b7d17''"
definition ere :: string where "ere = ''https://github.com/eth-act/ere-guests/releases/download''"

record pinned =
  k_name :: string
  k_url :: string
  k_sha :: string
  k_layout :: string

definition pinned_guests :: "pinned list" where
  "pinned_guests =
     [\<lparr>k_name = ''reth-f804dc1'', k_url = ere @ ''/v0.16.0/stateless-validator-reth-zisk-v1.1.0-alpha.elf'',
        k_sha = ''194118a5ac9534d50a22cbab033715875a8872d4630018c61e1608ecf4a994cd'', k_layout = ''v06''\<rparr>,
      \<lparr>k_name = ''ethrex-v23.0.0'', k_url = ere @ ''/v0.16.0/stateless-validator-ethrex-zisk-v1.1.0-alpha.elf'',
        k_sha = ''698d7bac6f676e2b45e8995631c921b056d1ab67a4dc979dadc43acd20f6bd59'', k_layout = ''v06''\<rparr>,
      \<lparr>k_name = ''reth-0.1.0-rc.3'', k_url = ere @ ''/v0.17.1/stateless-validator-reth-zisk-v1.1.0-alpha.elf'',
        k_sha = ''89e4d8d4a6a624659e1281efda6f83e4259fd09e21024702d00e7149de4aa922'', k_layout = ''v084''\<rparr>,
      \<lparr>k_name = ''ethrex-v27.0.0'', k_url = ere @ ''/v0.17.1/stateless-validator-ethrex-zisk-v1.1.0-alpha.elf'',
        k_sha = ''760f6404df3849cb3f40a9e3cefac93a03d30f27ab7be8a1d715e2f8dbbcbad8'', k_layout = ''v084''\<rparr>,
      \<lparr>k_name = ''ethrex-v28.0.0'', k_url = ''https://github.com/lambdaclass/ethrex/releases/download/v28.0.0/'' @
          ''stateless-validator-ethrex-zisk-v1.1.0-alpha.elf'',
        k_sha = ''5ba7fec4bebac140efe3dec21be456c30ca17743fd01c5600f73d5c83be9bef0'', k_layout = ''v084''\<rparr>]"

definition elf_path :: "string \<Rightarrow> string \<Rightarrow> string" where
  \<comment> \<open>of the directory \<open>work/cmp\<close>\<close>
  "elf_path cmp name = path_join (path_join cmp ''elf'') (name @ ''.elf'')"

definition download ::
  "(bytes \<Rightarrow> string) \<Rightarrow> (string \<Rightarrow> bytes) \<Rightarrow> string \<Rightarrow> string \<Rightarrow> string \<Rightarrow> files \<Rightarrow> string + files" where
  \<comment> \<open>of the hash, the network, the URL, the destination and the pinned digest; \<open>sys.exit\<close> on the left\<close>
  "download sha256 net url dest pin fs =
     (let fs = (case fs dest of Some b \<Rightarrow> if sha256 b = pin then fs else fs(dest \<mapsto> net url)
                | None \<Rightarrow> fs(dest \<mapsto> net url));
          got = sha256 (the (fs dest))
      in if got \<noteq> pin then Inl (''sha256 mismatch for '' @ dest @ '': '' @ got @ '' != '' @ pin) else Inr fs)"

fun download_all ::
  "(bytes \<Rightarrow> string) \<Rightarrow> (string \<Rightarrow> bytes) \<Rightarrow> string \<Rightarrow> pinned list \<Rightarrow> files \<Rightarrow> string + files" where
  "download_all sha256 net cmp [] fs = Inr fs"
| "download_all sha256 net cmp (g # gs) fs =
     (case download sha256 net (k_url g) (elf_path cmp (k_name g)) (k_sha g) fs of
        Inl e \<Rightarrow> Inl e | Inr fs \<Rightarrow> download_all sha256 net cmp gs fs)"

definition cmd_fetch ::
  "(bytes \<Rightarrow> string) \<Rightarrow> (string \<Rightarrow> bytes) \<Rightarrow> (bytes \<Rightarrow> bytes) \<Rightarrow> string \<Rightarrow> files \<Rightarrow> string + files" where
  \<comment> \<open>\<open>unpack\<close> takes the emulator out of the archive\<close>
  "cmd_fetch sha256 net unpack cmp fs =
     (let tarball = path_join cmp ''zisk-v1.1.0-alpha.tar.gz'';
          emulator = path_join (path_join cmp ''zisk-v1.1.0-alpha'') ''ziskemu''
      in case download sha256 net zisk_url tarball zisk_sha fs of
           Inl e \<Rightarrow> Inl e
         | Inr fs \<Rightarrow>
             let fs = (if fs emulator = None then fs(emulator \<mapsto> unpack (the (fs tarball))) else fs)
             in download_all sha256 net cmp pinned_guests fs)"

section \<open>One run of the emulator\<close>

type_synonym emulator = "string \<Rightarrow> bytes \<Rightarrow> string \<times> string \<times> int \<times> bytes option"
  \<comment> \<open>of the ELF and the packed input: standard output and error, exit code, the output file\<close>

definition categories :: "string list" where
  "categories = [''MAIN'', ''OPCODES'', ''PRECOMPILES'', ''MEMORY'', ''BASE'', ''TOTAL'']"

record job =
  j_guest :: string
  j_elf :: string
  j_packed :: bytes
  j_expected :: bytes
  j_tag :: string

record client_run =
  y_guest :: string
  y_rc :: int
  y_steps :: "nat option"
  y_costs :: "(string \<times> nat option) list"
  y_valid :: bool
  y_succ :: "nat option"

definition run_job :: "emulator \<Rightarrow> job \<Rightarrow> client_run res" where
  \<comment> \<open>\<open>run_ziskemu\<close> and \<open>job\<close>; the output file of an earlier run is removed before\<close>
  "run_job emu j =
     (let (out, err, rc, file) = emu (j_elf j) (j_packed j);
          txt = out @ err;
          raw = (case file of None \<Rightarrow> [] | Some b \<Rightarrow> b)
      in ebind (find_number ''STEPS'' txt) (\<lambda>steps.
         ebind (emap (\<lambda>c. ebind (find_number c txt) (\<lambda>n. Inr (map lower c, n))) categories) (\<lambda>costs.
           Inr \<lparr>y_guest = j_guest j, y_rc = rc, y_steps = steps, y_costs = costs,
             y_valid = (take (length (j_expected j)) raw = j_expected j),
             y_succ = (if length raw > 32 then Some (unat (raw ! 32)) else None)\<rparr>)))"

definition py_int :: "string \<Rightarrow> int res" where
  \<comment> \<open>\<open>int(s)\<close>\<close>
  "py_int s = (case no_underscores False (strip s) of
     None \<Rightarrow> Inl ValueError
   | Some t \<Rightarrow> (case py_sign t of (neg, ds) \<Rightarrow>
       if ds \<noteq> [] \<and> list_all is_digit ds then Inr (if neg then - int (read_nat ds) else int (read_nat ds)) else Inl ValueError))"

definition block_of_tag :: "string \<Rightarrow> int res" where
  \<comment> \<open>\<open>int(tag.split("-")[1])\<close>\<close>
  "block_of_tag tag = ebind (index_at (split_on CHR ''-'' tag) 1) py_int"

definition run_grid :: "emulator \<Rightarrow> job list \<Rightarrow> (int \<times> client_run) list res" where
  \<comment> \<open>the results in the order of the jobs, each with the block of its tag\<close>
  "run_grid emu jobs =
     ebind (emap (run_job emu) jobs) (\<lambda>rs.
     emap (\<lambda>(r, j). ebind (block_of_tag (j_tag j)) (\<lambda>b. Inr (b, r))) (zip rs jobs))"

section \<open>The blocks of devnet-7\<close>

record block_doc =
  \<comment> \<open>of a block's JSON: the gas and the two hexadecimal texts, each with its prefix\<close>
  q_gas :: nat
  q_input :: string
  q_output :: string

record block =
  g_number :: int
  g_gas :: nat
  g_input :: bytes
  g_expected :: bytes

definition block_range :: "string \<Rightarrow> (int \<times> int) res" where
  \<comment> \<open>\<open>--blocks lo-hi\<close>\<close>
  "block_range s = (case split_on CHR ''-'' s of
     [a, b] \<Rightarrow> ebind (py_int a) (\<lambda>lo. ebind (py_int b) (\<lambda>hi. Inr (lo, hi)))
   | xs \<Rightarrow> Inl ValueError)"

definition read_block :: "(int \<Rightarrow> block_doc option) \<Rightarrow> int \<Rightarrow> block res" where
  \<comment> \<open>the first file of the block, an index error where there is none\<close>
  "read_block docs n = (case docs n of
     None \<Rightarrow> Inl IndexError
   | Some q \<Rightarrow> ebind (fromhex (drop 2 (q_input q))) (\<lambda>i. ebind (fromhex (drop 2 (q_output q))) (\<lambda>e.
       Inr \<lparr>g_number = n, g_gas = q_gas q, g_input = i, g_expected = e\<rparr>)))"

definition devnet_tag :: "int \<Rightarrow> string \<Rightarrow> string" where
  "devnet_tag n g = ''devnet7-'' @ py_str n @ ''-'' @ g"

record guests =
  h_cmp :: string                 \<comment> \<open>the directory \<open>work/cmp\<close>\<close>
  h_pancake :: string
  h_software :: string            \<comment> \<open>empty when not given\<close>
  h_current :: string             \<comment> \<open>empty when not given\<close>

definition devnet_guests :: "guests \<Rightarrow> (string \<times> string) list" where
  "devnet_guests h =
     (''pancake'', h_pancake h) # (if h_software h \<noteq> [] then [(''pancake-software'', h_software h)] else []) @
     map (\<lambda>g. (g, elf_path (h_cmp h) g)) [''reth-f804dc1'', ''ethrex-v23.0.0'']"

definition current_names :: "string list" where
  "current_names = [''pancake@v21.0.1'', ''reth-0.1.0-rc.3'', ''ethrex-v27.0.0'', ''ethrex-v28.0.0'']"

definition current_guests :: "guests \<Rightarrow> (string \<times> string \<times> (bytes \<Rightarrow> bytes res)) list" where
  "current_guests h =
     (''pancake@v21.0.1'', h_current h, v06_to_v21) #
     map (\<lambda>g. (g, elf_path (h_cmp h) g, v06_to_v084)) [''reth-0.1.0-rc.3'', ''ethrex-v27.0.0'', ''ethrex-v28.0.0'']"

definition make_job :: "string \<Rightarrow> string \<Rightarrow> bytes \<Rightarrow> bytes \<Rightarrow> string \<Rightarrow> job res" where
  "make_job g elf blob expected tag = ebind (frame blob) (\<lambda>p.
     Inr \<lparr>j_guest = g, j_elf = elf, j_packed = p, j_expected = expected, j_tag = tag\<rparr>)"

definition matched_jobs :: "guests \<Rightarrow> int \<Rightarrow> block list \<Rightarrow> job list res" where
  \<comment> \<open>the software guest only runs on the block \<open>lo\<close>\<close>
  "matched_jobs h lo bs = emap (\<lambda>(b, g, elf). make_job g elf (g_input b) (g_expected b) (devnet_tag (g_number b) g))
     (concat (map (\<lambda>b. map (Pair b)
        (filter (\<lambda>(g, elf). \<not> (g = ''pancake-software'' \<and> g_number b \<noteq> lo)) (devnet_guests h))) bs))"

definition current_jobs :: "guests \<Rightarrow> block list \<Rightarrow> job list res" where
  "current_jobs h bs =
     (if h_current h = [] then Inr []
      else emap (\<lambda>(b, g, elf, conv). ebind (conv (g_input b)) (\<lambda>blob. make_job g elf blob [] (devnet_tag (g_number b) g)))
        (concat (map (\<lambda>b. map (Pair b) (current_guests h)) bs)))"

section \<open>Tables\<close>

datatype measurement =
    Devnet7 "(int \<times> nat) list"                 \<comment> \<open>the gas of each block\<close>
  | Corpus "(int \<times> string \<times> nat) list"         \<comment> \<open>the label and the input bytes of each row\<close>

type_synonym cell_table = "(int \<times> (string \<times> client_run) list) list"

definition cell_update :: "int \<times> client_run \<Rightarrow> cell_table \<Rightarrow> cell_table" where
  \<comment> \<open>\<open>by.setdefault(r["block"], {})[r["guest"]] = r\<close>\<close>
  "cell_update x by = (case x of (b, r) \<Rightarrow>
     let row = (case map_of by b of None \<Rightarrow> [] | Some row \<Rightarrow> row)
     in AList.update b (AList.update (y_guest r) r row) by)"

definition by_block :: "(int \<times> client_run) list \<Rightarrow> cell_table" where
  "by_block rs = fold cell_update rs []"

definition guests_of :: "(int \<times> client_run) list \<Rightarrow> string list" where
  \<comment> \<open>each guest once, in the order of first occurrence\<close>
  "guests_of rs = fold (\<lambda>(b, r) gs. if y_guest r \<in> set gs then gs else gs @ [y_guest r]) rs []"

definition cross :: string where
  \<comment> \<open>the UTF-8 bytes of the mark for an unexpected output\<close>
  "cross = [CHR 0xE2, CHR 0x9C, CHR 0x97]"

definition giga :: "nat \<Rightarrow> string res" where
  \<comment> \<open>\<open>f"{total / 1e9:.2f}"\<close>: the total is converted to a double, then divided\<close>
  "giga n = ebind (true_div (int n) 1) (\<lambda>q. Inr (fixed2 (nearest (q / 10 ^ 9))))"

definition cell :: "client_run option \<Rightarrow> string res" where
  \<comment> \<open>a missing count is \<open>None\<close>, which cannot be formatted\<close>
  "cell r = (case r of
     None \<Rightarrow> Inr '' | |''
   | Some r \<Rightarrow> (case (y_steps r, map_of (y_costs r) ''total'') of
       (Some st, Some (Some cost)) \<Rightarrow>
         ebind (giga cost) (\<lambda>t. Inr ('' '' @ commas st @ (if y_valid r then '''' else '' '' @ cross) @ '' | '' @ t @ ''G |''))
     | _ \<Rightarrow> Inl TypeError))"

definition row_head :: "measurement \<Rightarrow> int \<Rightarrow> (string \<times> string) res" where
  "row_head e b = (case e of
     Devnet7 gases \<Rightarrow> ebind (key (map_of gases b)) (\<lambda>n. Inr (py_str b, commas n))
   | Corpus labels \<Rightarrow> ebind (key (map_of labels b)) (\<lambda>(l, n). Inr (take 48 l, commas n @ '' B'')))"

definition print_one :: "measurement \<Rightarrow> (int \<times> client_run) list \<Rightarrow> string list res" where
  "print_one e rs =
     (let gs = guests_of rs;
          head = ''| block | gas used |'' @ concat (map (\<lambda>g. '' '' @ g @ '' steps | '' @ g @ '' cost |'') gs);
          sep = ''| ---: | ---: |'' @ concat (replicate (length gs) '' ---: | ---: |'')
      in ebind (emap (\<lambda>(b, row).
            ebind (row_head e b) (\<lambda>(first, amount).
            ebind (emap (\<lambda>g. cell (map_of row g)) gs) (\<lambda>cells.
              Inr (''| '' @ first @ '' | '' @ amount @ '' |'' @ concat cells)))) (by_block rs)) (\<lambda>lines.
           Inr (head # sep # lines)))"

definition show_succ :: "nat option \<Rightarrow> string" where
  "show_succ v = (case v of None \<Rightarrow> ''None'' | Some n \<Rightarrow> dec_nat n)"

definition print_current :: "(int \<times> client_run) list \<Rightarrow> string list res" where
  "print_current rs =
     ebind (emap (\<lambda>(b, row).
        ebind (emap (\<lambda>g. ebind (key (map_of row g)) (\<lambda>r. Inr (''succ='' @ show_succ (y_succ r)))) current_names) (\<lambda>cells.
          Inr (''| '' @ py_str b @ '' | '' @ join '' | '' cells @ '' |''))) (by_block rs)) (\<lambda>lines.
       Inr (['''', ''Current guests on the same blocks (succ = the result's success byte):'', '''',
             ''| block | '' @ join '' | '' current_names @ '' |'',
             ''| ---: |'' @ concat (replicate (length current_names) '' :---: |'')] @ lines))"

definition is_current :: "measurement \<Rightarrow> client_run \<Rightarrow> bool" where
  "is_current e r = (case e of Devnet7 gases \<Rightarrow> y_guest r \<in> set current_names | Corpus labels \<Rightarrow> False)"

definition print_table :: "measurement \<Rightarrow> (int \<times> client_run) list \<Rightarrow> string list res" where
  "print_table e rs =
     (let results = filter (\<lambda>(b, r). \<not> is_current e r) rs; current = filter (\<lambda>(b, r). is_current e r) rs
      in ebind (print_one e results) (\<lambda>a. ebind (if current \<noteq> [] then print_current current else Inr []) (\<lambda>b. Inr (a @ b))))"

section \<open>The two experiments\<close>

definition cmd_devnet7 ::
  "emulator \<Rightarrow> (int \<Rightarrow> block_doc option) \<Rightarrow> guests \<Rightarrow> string \<Rightarrow> ((int \<times> nat) list \<times> (int \<times> client_run) list \<times> string list) res" where
  \<comment> \<open>what is written to \<open>--out\<close>, and the printed table\<close>
  "cmd_devnet7 emu docs h lohi =
     ebind (block_range lohi) (\<lambda>(lo, hi).
     ebind (emap (read_block docs) [lo..hi]) (\<lambda>bs.
     ebind (matched_jobs h lo bs) (\<lambda>jobs.
     ebind (current_jobs h bs) (\<lambda>cur.
     ebind (run_grid emu (jobs @ cur)) (\<lambda>rs.
     let gases = map (\<lambda>b. (g_number b, g_gas b)) bs
     in ebind (print_table (Devnet7 gases) rs) (\<lambda>lines. Inr (gases, rs, lines)))))))"

definition select_row :: "string list \<Rightarrow> string list \<Rightarrow> bool res" where
  \<comment> \<open>the label has one of the texts, and the expected output succeeds\<close>
  "select_row matches r = ebind (index_at r 0) (\<lambda>l.
     if list_ex (\<lambda>m. contains m l) matches then ebind (index_at r 2) (\<lambda>e. Inr (bslice e 64 66 = ''01'')) else Inr False)"

definition corpus_guests :: "guests \<Rightarrow> (string \<times> string) list" where
  "corpus_guests h = (''pancake'', h_pancake h) #
     map (\<lambda>g. (g, elf_path (h_cmp h) g)) [''reth-0.1.0-rc.3'', ''ethrex-v27.0.0'', ''ethrex-v28.0.0'']"

definition corpus_row ::
  "curve \<Rightarrow> (string \<Rightarrow> bytes) \<Rightarrow> string \<Rightarrow> guests \<Rightarrow> nat \<Rightarrow> string list \<Rightarrow> ((int \<times> string \<times> nat) \<times> job list) res" where
  \<comment> \<open>of the files and the root of the repository\<close>
  "corpus_row cv read base h i r =
     ebind (index_at r 1) (\<lambda>p.
     ebind (unframe (read (if p \<noteq> [] \<and> hd p = CHR ''/'' then p else path_join base p))) (\<lambda>blob21.
     ebind (v21_to_v084 cv blob21) (\<lambda>blob084.
     ebind (index_at r 2) (\<lambda>e. ebind (fromhex e) (\<lambda>expected.
     ebind (index_at r 0) (\<lambda>label.
     ebind (emap (\<lambda>(g, elf). make_job g elf (if g = ''pancake'' then blob21 else blob084) expected
        (''corpus-'' @ dec_nat i @ ''-'' @ g)) (corpus_guests h)) (\<lambda>jobs.
       Inr ((int i, label, length blob21), jobs))))))))"

definition corpus_jobs ::
  "curve \<Rightarrow> (string \<Rightarrow> bytes) \<Rightarrow> string \<Rightarrow> guests \<Rightarrow> string list list \<Rightarrow> ((int \<times> string \<times> nat) \<times> job list) list res" where
  "corpus_jobs cv read base h sel = emap (\<lambda>(i, r). corpus_row cv read base h i r) (zip [0..<length sel] sel)"

definition cmd_corpus ::
  "emulator \<Rightarrow> curve \<Rightarrow> (string \<Rightarrow> bytes) \<Rightarrow> string \<Rightarrow> guests \<Rightarrow> string list \<Rightarrow> string list \<Rightarrow>
     (string + (int \<times> string \<times> nat) list \<times> (int \<times> client_run) list \<times> string list) res" where
  \<comment> \<open>of the texts of \<open>--match\<close> and the lines of the manifest; \<open>sys.exit\<close> on the left of the inner sum\<close>
  "cmd_corpus emu cv read base h matches manifest =
     (let rows = map (split_on (char_of (9 :: nat))) manifest
      in ebind (emap (\<lambda>r. ebind (select_row matches r) (\<lambda>b. Inr (b, r))) rows) (\<lambda>sel.
         let sel = map snd (filter fst sel)
         in if sel = [] then Inr (Inl ''no successfully-validating manifest row matches --match'')
            else ebind (corpus_jobs cv read base h sel) (\<lambda>rjs.
              ebind (run_grid emu (concat (map snd rjs))) (\<lambda>rs.
              ebind (print_table (Corpus (map fst rjs)) rs) (\<lambda>lines. Inr (Inr (map fst rjs, rs, lines)))))))"

section \<open>Fetched files are the pinned ones\<close>

definition pins :: "(bytes \<Rightarrow> string) \<Rightarrow> files \<Rightarrow> string \<Rightarrow> string \<Rightarrow> bool" where
  "pins sha256 fs dest pin = (case fs dest of None \<Rightarrow> False | Some b \<Rightarrow> sha256 b = pin)"

lemma download_Inr:
  "download sha256 net url dest pin fs = Inr fs' \<Longrightarrow> pins sha256 fs' dest pin \<and> (\<forall>p. p \<noteq> dest \<longrightarrow> fs' p = fs p)"
  by (auto simp: download_def pins_def Let_def split: option.splits if_splits)

lemma download_pinned: "pins sha256 fs dest pin \<Longrightarrow> download sha256 net url dest pin fs = Inr fs"
  by (auto simp: download_def pins_def Let_def split: option.splits)

lemma elf_path_inj: "elf_path cmp a = elf_path cmp b \<Longrightarrow> hd a \<noteq> CHR ''/'' \<Longrightarrow> hd b \<noteq> CHR ''/'' \<Longrightarrow> a \<noteq> [] \<Longrightarrow> b \<noteq> [] \<Longrightarrow> a = b"
  by (auto simp: elf_path_def path_join_def split: if_splits)

lemma download_all_Inr:
  assumes "download_all sha256 net cmp gs fs = Inr fs'" "distinct (map (\<lambda>g. elf_path cmp (k_name g)) gs)"
  shows "list_all (\<lambda>g. pins sha256 fs' (elf_path cmp (k_name g)) (k_sha g)) gs \<and>
    (\<forall>p. p \<notin> (\<lambda>g. elf_path cmp (k_name g)) ` set gs \<longrightarrow> fs' p = fs p)"
  using assms
proof (induction gs arbitrary: fs)
  case (Cons g gs)
  then obtain fs1 where d: "download sha256 net (k_url g) (elf_path cmp (k_name g)) (k_sha g) fs = Inr fs1"
    and r: "download_all sha256 net cmp gs fs1 = Inr fs'" by (auto split: sum.splits)
  note IH = Cons.IH [OF r]
  have "fs' (elf_path cmp (k_name g)) = fs1 (elf_path cmp (k_name g))" using IH Cons.prems(2) by simp
  then show ?case using IH Cons.prems(2) download_Inr [OF d] by (auto simp: pins_def)
qed simp

lemma download_all_pinned:
  "list_all (\<lambda>g. pins sha256 fs (elf_path cmp (k_name g)) (k_sha g)) gs \<Longrightarrow> download_all sha256 net cmp gs fs = Inr fs"
  by (induction gs) (simp_all add: download_pinned)

lemma pinned_distinct: "distinct (map (\<lambda>g. elf_path cmp (k_name g)) pinned_guests)"
proof -
  have inj: "inj_on (elf_path cmp) (set (map k_name pinned_guests))"
    by (rule inj_onI, rule elf_path_inj) (auto simp: pinned_guests_def)
  have "distinct (map k_name pinned_guests)" by (simp add: pinned_guests_def)
  then have "distinct (map (elf_path cmp) (map k_name pinned_guests))" using inj by (metis distinct_map)
  then show ?thesis by (simp only: map_map comp_def)
qed

definition tarball_path :: "string \<Rightarrow> string" where "tarball_path cmp = path_join cmp ''zisk-v1.1.0-alpha.tar.gz''"
definition emulator_path :: "string \<Rightarrow> string" where
  "emulator_path cmp = path_join (path_join cmp ''zisk-v1.1.0-alpha'') ''ziskemu''"

lemma paths_apart:
  "tarball_path cmp \<noteq> emulator_path cmp"
  "g \<in> set pinned_guests \<Longrightarrow> elf_path cmp (k_name g) \<noteq> tarball_path cmp \<and> elf_path cmp (k_name g) \<noteq> emulator_path cmp"
  by (auto simp: tarball_path_def emulator_path_def path_join_def elf_path_def pinned_guests_def split: if_splits)

definition fetched :: "(bytes \<Rightarrow> string) \<Rightarrow> string \<Rightarrow> files \<Rightarrow> bool" where
  \<comment> \<open>the archive and the ELF of every client have their pinned digests, and an emulator is there\<close>
  "fetched sha256 cmp fs = (pins sha256 fs (tarball_path cmp) zisk_sha \<and> fs (emulator_path cmp) \<noteq> None \<and>
     list_all (\<lambda>g. pins sha256 fs (elf_path cmp (k_name g)) (k_sha g)) pinned_guests)"

lemma cmd_fetch_eq:
  "cmd_fetch sha256 net unpack cmp fs =
    (case download sha256 net zisk_url (tarball_path cmp) zisk_sha fs of
       Inl e \<Rightarrow> Inl e
     | Inr fs \<Rightarrow> download_all sha256 net cmp pinned_guests (if fs (emulator_path cmp) = None
         then fs(emulator_path cmp \<mapsto> unpack (the (fs (tarball_path cmp)))) else fs))"
  unfolding cmd_fetch_def Let_def tarball_path_def emulator_path_def ..

lemma cmd_fetch_fetched:
  assumes "cmd_fetch sha256 net unpack cmp fs = Inr fs'"
  shows "fetched sha256 cmp fs'"
proof -
  obtain fs1 where d: "download sha256 net zisk_url (tarball_path cmp) zisk_sha fs = Inr fs1"
    and a: "download_all sha256 net cmp pinned_guests (if fs1 (emulator_path cmp) = None
        then fs1(emulator_path cmp \<mapsto> unpack (the (fs1 (tarball_path cmp)))) else fs1) = Inr fs'"
    using assms unfolding cmd_fetch_eq by (auto split: sum.splits)
  note r = download_all_Inr [OF a pinned_distinct]
  have "tarball_path cmp \<notin> (\<lambda>g. elf_path cmp (k_name g)) ` set pinned_guests"
    "emulator_path cmp \<notin> (\<lambda>g. elf_path cmp (k_name g)) ` set pinned_guests"
    by (simp_all add: image_iff) (metis paths_apart(2))+
  then have "fs' (tarball_path cmp) = fs1 (tarball_path cmp)" "fs' (emulator_path cmp) \<noteq> None"
    using r paths_apart(1) [of cmp] by auto
  then show ?thesis using r download_Inr [OF d] by (auto simp: fetched_def pins_def)
qed

text \<open>Fetching leaves exactly the pinned files, and only once.  When \<open>fetch\<close> succeeds, whatever was in the directory and
  whatever the network answered, the archive and the ELF of each of the five clients have their pinned
  SHA-256 digests and the emulator is there; and fetching again changes nothing and asks the network for nothing.\<close>

theorem fetch_pins:
  "(case cmd_fetch sha256 net unpack cmp fs of
      Inl e \<Rightarrow> True
    | Inr fs' \<Rightarrow> fetched sha256 cmp fs' \<and> cmd_fetch sha256 net2 unpack2 cmp fs' = Inr fs')"
proof (cases "cmd_fetch sha256 net unpack cmp fs")
  case (Inr fs')
  have f: "fetched sha256 cmp fs'" by (rule cmd_fetch_fetched [OF Inr])
  then have "cmd_fetch sha256 net2 unpack2 cmp fs' = Inr fs'"
    using download_pinned [of sha256 fs' "tarball_path cmp" zisk_sha] download_all_pinned [of sha256 fs' cmp pinned_guests]
    by (auto simp: cmd_fetch_eq fetched_def)
  then show ?thesis using f Inr by simp
qed simp

section \<open>Blocks are read back from the tags\<close>

lemma split_on_first: "c \<notin> set a \<Longrightarrow> split_on c (a @ c # s) = a # split_on c s"
  by (induction a) auto

lemma split_on_ne: "split_on c s \<noteq> []"
  by (induction c s rule: split_on.induct) (simp_all split: list.split)

lemma no_underscores_digits: "list_all is_digit s \<Longrightarrow> no_underscores d s = Some s"
proof (induction s arbitrary: d)
  case (Cons c s)
  then have "c \<noteq> CHR ''_''" by (auto simp: is_digit_def)
  then show ?case using Cons by simp
qed simp

lemma strip_no_space: "list_all (\<lambda>c. \<not> space c) s \<Longrightarrow> strip s = s"
proof -
  assume n: "list_all (\<lambda>c. \<not> space c) s"
  have d: "dropWhile space xs = xs" if "list_all (\<lambda>c. \<not> space c) xs" for xs using that by (cases xs) simp_all
  have "list_all (\<lambda>c. \<not> space c) (rev s)" using n by simp
  then show ?thesis by (simp add: strip_def lstrip_def d n)
qed

lemma py_int_dec [simp]: "py_int (dec_nat n) = Inr (int n)"
proof -
  have d: "list_all is_digit (dec_nat n)" "dec_nat n \<noteq> []" by (rule dec_nat_is_digit)+
  then have "list_all (\<lambda>c. \<not> space c) (dec_nat n)" by (auto simp: list_all_iff digit_not_space)
  moreover have "py_sign (dec_nat n) = (False, dec_nat n)"
    using d by (cases "dec_nat n") (auto simp: py_sign_def is_digit_def)
  ultimately show ?thesis using d by (simp add: py_int_def strip_no_space no_underscores_digits read_dec_nat)
qed

lemma digits_no_minus: "CHR ''-'' \<notin> set (dec_nat n)"
proof
  assume "CHR ''-'' \<in> set (dec_nat n)"
  then have "is_digit CHR ''-''" using dec_nat_is_digit(1) [of n] by (auto simp: list_all_iff)
  then show False by (simp add: is_digit_def)
qed

lemma block_of_tag_prefix: "CHR ''-'' \<notin> set a \<Longrightarrow> block_of_tag (a @ ''-'' @ dec_nat n @ ''-'' @ g) = Inr (int n)"
  using split_on_first [of "CHR ''-''" a "dec_nat n @ ''-'' @ g"] split_on_first [OF digits_no_minus, of n g]
  by (simp add: block_of_tag_def index_at_def)

lemma block_of_devnet_tag: "0 \<le> n \<Longrightarrow> block_of_tag (devnet_tag n g) = Inr n"
  using block_of_tag_prefix [of "''devnet7''" "nat n" g] by (simp add: devnet_tag_def py_str_def)

lemma split_on_pieces: "p \<in> set (split_on c s) \<Longrightarrow> c \<notin> set p"
  by (induction c s arbitrary: p rule: split_on.induct) (auto split: if_splits list.splits)

lemma py_int_nonneg: "CHR ''-'' \<notin> set s \<Longrightarrow> py_int s = Inr n \<Longrightarrow> 0 \<le> n"
proof -
  have u: "set t \<subseteq> set s" if "no_underscores d s = Some t" for d s t
    using that by (induction d s arbitrary: t rule: no_underscores.induct) (auto split: if_splits)
  have st: "set (strip s) \<subseteq> set s" unfolding strip_def lstrip_def
    by (metis dual_order.trans set_dropWhileD set_rev subsetI)
  assume "CHR ''-'' \<notin> set s" "py_int s = Inr n"
  then obtain t where "no_underscores False (strip s) = Some t" "CHR ''-'' \<notin> set t"
    and "py_int s = (case py_sign t of (neg, ds) \<Rightarrow> if ds \<noteq> [] \<and> list_all is_digit ds
        then Inr (if neg then - int (read_nat ds) else int (read_nat ds)) else Inl ValueError)"
    using u st by (fastforce simp: py_int_def split: option.splits)
  then show ?thesis using \<open>py_int s = Inr n\<close> by (cases t) (auto simp: py_sign_def split: if_splits)
qed

lemma block_range_nonneg: "block_range s = Inr (lo, hi) \<Longrightarrow> 0 \<le> lo"
proof -
  assume r: "block_range s = Inr (lo, hi)"
  then obtain a b where ab: "split_on CHR ''-'' s = [a, b]" "py_int a = Inr lo"
    by (auto simp: block_range_def ebind_Inr_iff split: list.splits)
  then have "CHR ''-'' \<notin> set a" using split_on_pieces [of a "CHR ''-''" s] by simp
  then show ?thesis using py_int_nonneg ab(2) by blast
qed

section \<open>Every cell shows its own run\<close>

definition look :: "cell_table \<Rightarrow> int \<Rightarrow> string \<Rightarrow> client_run option" where
  "look by b g = (case map_of by b of None \<Rightarrow> None | Some row \<Rightarrow> map_of row g)"

lemma look_update: "look (cell_update (b0, r) by) b g = (if b = b0 \<and> g = y_guest r then Some r else look by b g)"
  by (simp add: look_def cell_update_def Let_def update_conv' split: option.split)

definition keyed :: "(int \<times> client_run) list \<Rightarrow> ((int \<times> string) \<times> client_run) list" where
  "keyed rs = map (\<lambda>(b, r). ((b, y_guest r), r)) rs"

lemma look_fold:
  "look (fold cell_update rs tab) b g = (case map_of (rev (keyed rs)) (b, g) of Some r \<Rightarrow> Some r | None \<Rightarrow> look tab b g)"
proof (induction rs arbitrary: tab)
  case (Cons x rs)
  obtain b0 r where x: "x = (b0, r)" by (cases x)
  have k: "keyed (x # rs) = ((b0, y_guest r), r) # keyed rs" by (simp add: keyed_def x)
  show ?case unfolding k using Cons.IH [of "cell_update x tab"]
    by (auto simp: x look_update map_add_def split: option.split)
qed (simp add: keyed_def)

lemma map_of_rev_distinct: "distinct (map fst xs) \<Longrightarrow> map_of (rev xs) = map_of xs"
  by (subst map_of_inject_set) (simp_all flip: rev_map)

lemma look_by_block:
  assumes "distinct (map fst (keyed rs))"
  shows "look (by_block rs) b g = map_of (keyed rs) (b, g)"
proof -
  have "map_of (rev (keyed rs)) = map_of (keyed rs)" by (rule map_of_rev_distinct) fact
  moreover have "look [] b g = None" by (simp add: look_def)
  ultimately show ?thesis unfolding by_block_def look_fold by (simp split: option.split)
qed

lemma run_job_guest: "run_job emu j = Inr r \<Longrightarrow> y_guest r = j_guest j"
  by (auto simp: run_job_def Let_def ebind_Inr_iff split: prod.splits)

lemma run_grid_Inr:
  assumes "run_grid emu jobs = Inr rs"
  shows "list_all2 (\<lambda>j (b, r). run_job emu j = Inr r \<and> block_of_tag (j_tag j) = Inr b) jobs rs"
proof -
  obtain os where o: "list_all2 (\<lambda>j r. run_job emu j = Inr r) jobs os"
    and z: "list_all2 (\<lambda>(r, j) x. \<exists>b. block_of_tag (j_tag j) = Inr b \<and> (b, r) = x) (zip os jobs) rs"
    using assms by (auto simp: run_grid_def emap_Inr_iff ebind_Inr_iff case_prod_unfold elim!: list_all2_mono)
  have l: "length os = length jobs" "length rs = length jobs" using list_all2_lengthD [OF o] list_all2_lengthD [OF z] by simp_all
  show ?thesis
    unfolding list_all2_conv_all_nth
  proof (intro conjI allI impI)
    fix k assume k: "k < length jobs"
    then show "case rs ! k of (b, r) \<Rightarrow> run_job emu (jobs ! k) = Inr r \<and> block_of_tag (j_tag (jobs ! k)) = Inr b"
      using list_all2_nthD [OF o, of k] list_all2_nthD [OF z, of k] l by auto
  qed (use l in simp)
qed

definition matched_pairs :: "guests \<Rightarrow> int \<Rightarrow> block list \<Rightarrow> (block \<times> string \<times> string) list" where
  \<comment> \<open>the runs of the guests that match the blocks\<close>
  "matched_pairs h lo bs = concat (map (\<lambda>b. map (Pair b)
     (filter (\<lambda>(g, elf). \<not> (g = ''pancake-software'' \<and> g_number b \<noteq> lo)) (devnet_guests h))) bs)"

definition devnet_job :: "block \<Rightarrow> string \<Rightarrow> string \<Rightarrow> job res" where
  "devnet_job b g elf = make_job g elf (g_input b) (g_expected b) (devnet_tag (g_number b) g)"

lemma matched_jobs_pairs: "matched_jobs h lo bs = emap (\<lambda>(b, g, elf). devnet_job b g elf) (matched_pairs h lo bs)"
  by (simp add: matched_jobs_def matched_pairs_def devnet_job_def)

lemma devnet_job_fields: "devnet_job b g elf = Inr j \<Longrightarrow> j_guest j = g \<and> j_tag j = devnet_tag (g_number b) g"
  by (auto simp: devnet_job_def make_job_def ebind_Inr_iff)

lemma devnet_guests_distinct: "distinct (map fst (devnet_guests h))"
  by (simp add: devnet_guests_def)

lemma matched_pairs_iff:
  "(b, g, elf) \<in> set (matched_pairs h lo bs) \<longleftrightarrow>
     b \<in> set bs \<and> (g, elf) \<in> set (devnet_guests h) \<and> (g = ''pancake-software'' \<longrightarrow> g_number b = lo)"
  by (auto simp: matched_pairs_def)

lemma matched_names: "(b, g, elf) \<in> set (matched_pairs h lo bs) \<Longrightarrow> g \<notin> set current_names"
  by (auto simp: matched_pairs_iff devnet_guests_def current_names_def split: if_splits)

lemma distinct_pairs: "distinct (map fst xs) \<Longrightarrow> distinct (map (\<lambda>(b, g, elf). (f b, g)) (map (Pair b) xs))"
  by (induction xs) (auto simp: image_iff)

lemma distinct_append_by:
  "distinct xs \<Longrightarrow> distinct ys \<Longrightarrow> (\<And>x. x \<in> set xs \<Longrightarrow> k x = c) \<Longrightarrow> (\<And>x. x \<in> set ys \<Longrightarrow> k x \<in> S) \<Longrightarrow> c \<notin> S \<Longrightarrow> distinct (xs @ ys)"
  by fastforce

lemma distinct_products:
  assumes "distinct (map f bs)" "\<And>b. distinct (map fst (gs b))"
  shows "distinct (map (\<lambda>(b, g, elf). (f b, g)) (concat (map (\<lambda>b. map (Pair b) (gs b)) bs)))"
  using assms(1)
proof (induction bs)
  case (Cons b bs)
  have d: "distinct (map f bs)" "f b \<notin> f ` set bs" using Cons.prems by simp_all
  show ?case
    unfolding list.map concat.simps map_append
    by (rule distinct_append_by [of _ _ fst "f b" "f ` set bs", OF distinct_pairs [OF assms(2)] Cons.IH [OF d(1)] _ _ d(2)])
      auto
qed simp

lemma matched_distinct:
  assumes "distinct (map g_number bs)"
  shows "distinct (map (\<lambda>(b, g, elf). (g_number b, g)) (matched_pairs h lo bs))"
  unfolding matched_pairs_def
  by (rule distinct_products [OF assms distinct_map_filter [OF devnet_guests_distinct]])

lemma rel_mem2: "list_all2 P xs ys \<Longrightarrow> y \<in> set ys \<Longrightarrow> \<exists>x \<in> set xs. P x y"
  by (induction rule: list_all2_induct) auto

lemma current_job_names:
  assumes "current_jobs h bs = Inr js" "j \<in> set js"
  shows "j_guest j \<in> set current_names"
proof (cases "h_current h = []")
  case False
  let ?xs = "concat (map (\<lambda>b. map (Pair b) (current_guests h)) bs)"
  let ?f = "\<lambda>(b, g, elf, conv). ebind (conv (g_input b)) (\<lambda>blob. make_job g elf blob [] (devnet_tag (g_number b) g))"
  have r: "list_all2 (\<lambda>x y. ?f x = Inr y) ?xs js" using assms(1) False by (simp add: current_jobs_def emap_Inr_iff)
  obtain x where x: "x \<in> set ?xs" "?f x = Inr j" using rel_mem2 [OF r assms(2)] by (elim bexE) 
  obtain b g elf conv where e: "x = (b, g, elf, conv)" using prod_cases4 by blast
  have "j_guest j = g" using x(2) by (auto simp: e make_job_def ebind_Inr_iff)
  moreover have "(g, elf, conv) \<in> set (current_guests h)" using x(1) by (auto simp: e)
  then have "g \<in> set (map fst (current_guests h))" by force
  ultimately show ?thesis by (simp add: current_guests_def current_names_def)
qed (use assms in \<open>simp add: current_jobs_def\<close>)

lemma read_block_number: "read_block docs n = Inr b \<Longrightarrow> g_number b = n"
  by (auto simp: read_block_def ebind_Inr_iff split: option.splits)

lemma read_blocks_numbers: "emap (read_block docs) ns = Inr bs \<Longrightarrow> map g_number bs = ns"
  by (auto simp: emap_Inr_iff list_all2_conv_all_nth read_block_number intro!: nth_equalityI)

text \<open>The results of the guests that match the blocks, run by run.\<close>

lemma devnet_results:
  assumes "cmd_devnet7 emu docs h lohi = Inr (gases, rs, lines)" "block_range lohi = Inr (lo, hi)"
  obtains bs where "emap (read_block docs) [lo..hi] = Inr bs"
    "list_all2 (\<lambda>(b, g, elf) (n, r). n = g_number b \<and> y_guest r = g \<and>
       (\<exists>j. devnet_job b g elf = Inr j \<and> run_job emu j = Inr r))
     (matched_pairs h lo bs) (filter (\<lambda>(b, r). \<not> is_current (Devnet7 gases) r) rs)"
proof -
  obtain bs jobs cur where bs: "emap (read_block docs) [lo..hi] = Inr bs" and j: "matched_jobs h lo bs = Inr jobs"
    and c: "current_jobs h bs = Inr cur" and g: "run_grid emu (jobs @ cur) = Inr rs"
    using assms by (auto simp: cmd_devnet7_def ebind_Inr_iff Let_def)
  let ?run = "\<lambda>j (b, r). run_job emu j = Inr r \<and> block_of_tag (j_tag j) = Inr b"
  obtain r1 r2 where r: "rs = r1 @ r2" "list_all2 ?run jobs r1" "list_all2 ?run cur r2"
    using run_grid_Inr [OF g] by (auto simp: list_all2_append1)
  have p: "list_all2 (\<lambda>(b, g, elf) j. devnet_job b g elf = Inr j) (matched_pairs h lo bs) jobs"
    using j by (simp add: matched_jobs_pairs emap_Inr_iff case_prod_unfold)
  have cur: "is_current (Devnet7 gases) r" if mem: "(b, r) \<in> set r2" for b r
  proof -
    obtain j where "j \<in> set cur" "run_job emu j = Inr r"
      using rel_mem2 [OF r(3) mem] by auto
    then show ?thesis using current_job_names [OF c] run_job_guest by (metis is_current_def measurement.simps(5))
  qed
  have n: "g_number b \<ge> 0" if "b \<in> set bs" for b
  proof -
    have "set (map g_number bs) = {lo..hi}" using read_blocks_numbers [OF bs] by simp
    then have "g_number b \<in> {lo..hi}" using that by (metis image_eqI set_map)
    then show ?thesis using block_range_nonneg [OF assms(2)] by simp
  qed
  have m: "list_all2 (\<lambda>(b, g, elf) (n, r). n = g_number b \<and> y_guest r = g \<and>
      (\<exists>j. devnet_job b g elf = Inr j \<and> run_job emu j = Inr r)) (matched_pairs h lo bs) r1"
    unfolding list_all2_conv_all_nth
  proof (intro conjI allI impI)
    show "length (matched_pairs h lo bs) = length r1" using list_all2_lengthD [OF p] list_all2_lengthD [OF r(2)] by simp
    fix k assume k: "k < length (matched_pairs h lo bs)"
    obtain b g elf where e: "matched_pairs h lo bs ! k = (b, g, elf)" using prod_cases3 by blast
    obtain x y where y: "r1 ! k = (x, y)" by (cases "r1 ! k")
    have b: "b \<in> set bs" using nth_mem [OF k] by (simp add: e matched_pairs_iff)
    have "devnet_job b g elf = Inr (jobs ! k)" using list_all2_nthD [OF p k] e by simp
    moreover have "?run (jobs ! k) (r1 ! k)" using list_all2_nthD [OF r(2), of k] list_all2_lengthD [OF p] k by simp
    moreover have "block_of_tag (devnet_tag (g_number b) g) = Inr (g_number b)" by (rule block_of_devnet_tag [OF n [OF b]])
    ultimately show "(case matched_pairs h lo bs ! k of (b, g, elf) \<Rightarrow> (\<lambda>(n, r). n = g_number b \<and> y_guest r = g \<and>
        (\<exists>j. devnet_job b g elf = Inr j \<and> run_job emu j = Inr r))) (r1 ! k)"
      using devnet_job_fields [of b g elf "jobs ! k"] run_job_guest [of emu "jobs ! k"] by (auto simp: e y)
  qed
  have "filter (\<lambda>(b, r). \<not> is_current (Devnet7 gases) r) r2 = []" using cur by (auto simp: filter_empty_conv)
  moreover have "\<not> is_current (Devnet7 gases) r" if mem: "(b, r) \<in> set r1" for b r
  proof -
    obtain x where x: "x \<in> set (matched_pairs h lo bs)" and y: "(case x of (b, g, elf) \<Rightarrow> (\<lambda>(n, r). n = g_number b \<and> y_guest r = g \<and>
        (\<exists>j. devnet_job b g elf = Inr j \<and> run_job emu j = Inr r))) (b, r)"
      using rel_mem2 [OF m mem] by (elim bexE)
    obtain b' g elf where e: "x = (b', g, elf)" using prod_cases3 by blast
    show ?thesis using matched_names [of b' g elf h lo bs] x y by (simp add: e is_current_def)
  qed
  then have "filter (\<lambda>(b, r). \<not> is_current (Devnet7 gases) r) r1 = r1" by (auto simp: filter_id_conv)
  ultimately show thesis using that [OF bs] m by (simp add: r(1))
qed

lemma keyed_matched:
  assumes "list_all2 (\<lambda>(b, g, elf) (n, r). n = g_number b \<and> y_guest r = g \<and> P b g elf r) ps rs"
  shows "map fst (keyed rs) = map (\<lambda>(b, g, elf). (g_number b, g)) ps"
  using assms by (induction rule: list_all2_induct) (auto simp: keyed_def)

lemma devnet_cell:
  assumes "cmd_devnet7 emu docs h lohi = Inr (gases, rs, lines)" "block_range lohi = Inr (lo, hi)"
    and "lo \<le> n" "n \<le> hi" "(g, elf) \<in> set (devnet_guests h)"
  obtains b where "read_block docs n = Inr b"
    "case look (by_block (filter (\<lambda>(b, r). \<not> is_current (Devnet7 gases) r) rs)) n g of
       None \<Rightarrow> g = ''pancake-software'' \<and> n \<noteq> lo
     | Some r \<Rightarrow> (if g = ''pancake-software'' then n = lo else True) \<and> (\<exists>j. devnet_job b g elf = Inr j \<and> run_job emu j = Inr r)"
proof -
  let ?rs = "filter (\<lambda>(b, r). \<not> is_current (Devnet7 gases) r) rs"
  let ?P = "\<lambda>b g elf r. \<exists>j. devnet_job b g elf = Inr j \<and> run_job emu j = Inr r"
  obtain bs where bs: "emap (read_block docs) [lo..hi] = Inr bs"
    and rel: "list_all2 (\<lambda>(b, g, elf) (n, r). n = g_number b \<and> y_guest r = g \<and> ?P b g elf r) (matched_pairs h lo bs) ?rs"
    using devnet_results [OF assms(1,2)] .
  have num: "map g_number bs = [lo..hi]" by (rule read_blocks_numbers [OF bs])
  then have dist: "distinct (map g_number bs)" by simp
  have "n \<in> set (map g_number bs)" using num assms(3,4) by simp
  then obtain b where b: "b \<in> set bs" "g_number b = n" by auto
  have "list_all2 (\<lambda>x y. read_block docs x = Inr y) [lo..hi] bs" using bs by (simp add: emap_Inr_iff)
  from rel_mem2 [OF this b(1)] obtain m where m: "read_block docs m = Inr b" by (elim bexE)
  then have rd: "read_block docs n = Inr b" using read_block_number [OF m] b(2) by simp
  have keys: "map fst (keyed ?rs) = map (\<lambda>(b, g, elf). (g_number b, g)) (matched_pairs h lo bs)"
    by (rule keyed_matched [OF rel])
  then have kd: "distinct (map fst (keyed ?rs))" using matched_distinct [OF dist] by simp
  note look = look_by_block [OF kd, of n g]
  show thesis
  proof (rule that [OF rd], cases "look (by_block ?rs) n g")
    case None
    then have "(n, g) \<notin> set (map fst (keyed ?rs))" by (simp only: look map_of_eq_None_iff set_map) simp
    then have "(b, g, elf) \<notin> set (matched_pairs h lo bs)" unfolding keys using b(2) by force
    then show "case look (by_block ?rs) n g of None \<Rightarrow> g = ''pancake-software'' \<and> n \<noteq> lo
       | Some r \<Rightarrow> (if g = ''pancake-software'' then n = lo else True) \<and> ?P b g elf r"
      using None b assms(5) by (simp add: matched_pairs_iff)
  next
    case (Some r)
    then have "((n, g), r) \<in> set (keyed ?rs)" by (simp add: look map_of_SomeD)
    then have mem: "(n, r) \<in> set ?rs" "y_guest r = g" by (auto simp: keyed_def)
    obtain x where x: "x \<in> set (matched_pairs h lo bs)"
      "(case x of (b, g, elf) \<Rightarrow> (\<lambda>(n, r). n = g_number b \<and> y_guest r = g \<and> ?P b g elf r)) (n, r)"
      using rel_mem2 [OF rel mem(1)] by (elim bexE)
    obtain b' g' elf' where e: "x = (b', g', elf')" using prod_cases3 by blast
    have "g' = g" "g_number b' = n" "?P b' g' elf' r" using x(2) mem(2) by (simp_all add: e)
    moreover have "b' \<in> set bs" "(g', elf') \<in> set (devnet_guests h)" "g' = ''pancake-software'' \<longrightarrow> g_number b' = lo"
      using x(1) by (simp_all add: e matched_pairs_iff)
    moreover have "b' = b" using dist b \<open>b' \<in> set bs\<close> \<open>g_number b' = n\<close> by (metis distinct_map inj_onD)
    moreover have "elf' = elf" using devnet_guests_distinct assms(5) \<open>(g', elf') \<in> _\<close> \<open>g' = g\<close> by (metis eq_key_imp_eq_value)
    ultimately show "case look (by_block ?rs) n g of None \<Rightarrow> g = ''pancake-software'' \<and> n \<noteq> lo
       | Some r \<Rightarrow> (if g = ''pancake-software'' then n = lo else True) \<and> ?P b g elf r"
      using Some by simp
  qed
qed


section \<open>Tables are printed\<close>

definition printable :: "client_run \<Rightarrow> bool" where
  \<comment> \<open>the emulator printed the counts that the table shows\<close>
  "printable r = (case (y_steps r, map_of (y_costs r) ''total'') of (Some st, Some (Some c)) \<Rightarrow> c < 2 ^ 64 | _ \<Rightarrow> False)"

lemma giga_Inr: "n < 2 ^ 64 \<Longrightarrow> \<exists>s. giga n = Inr s"
proof -
  assume "n < 2 ^ 64"
  then have "(of_nat n :: rat) < of_nat (2 ^ 64)" by (rule of_nat_less_iff [THEN iffD2])
  then have "\<bar>(of_nat n :: rat)\<bar> \<le> 2 powi 64" by simp
  then have "\<bar>nearest (of_nat n)\<bar> \<le> 2 powi 64" by (rule nearest_bounded) simp
  also have "\<dots> < (2 powi 1024 :: rat)" by (rule power_int_strict_increasing) simp_all
  finally show ?thesis by (simp add: giga_def true_div_def finite_range_def)
qed

lemma cell_Inr: "(\<And>x. r = Some x \<Longrightarrow> printable x) \<Longrightarrow> \<exists>s. cell r = Inr s"
proof (cases r)
  case (Some x)
  assume "\<And>x. r = Some x \<Longrightarrow> printable x"
  then obtain st c where "y_steps x = Some st" "map_of (y_costs x) ''total'' = Some (Some c)" "c < 2 ^ 64"
    using Some by (auto simp: printable_def split: option.splits)
  then show ?thesis using giga_Inr [of c] Some by (auto simp: cell_def)
qed (simp add: cell_def)

lemma update_subset: "set (AList.update k v al) \<subseteq> insert (k, v) (set al)"
  by (induction al) auto

definition rows_from :: "(int \<times> client_run) set \<Rightarrow> cell_table \<Rightarrow> bool" where
  "rows_from S tab \<longleftrightarrow> (\<forall>(b, row) \<in> set tab. (\<exists>r. (b, r) \<in> S) \<and> (\<forall>(g, r) \<in> set row. (b, r) \<in> S))"

lemma rows_from_mono: "rows_from S xs \<Longrightarrow> set ys \<subseteq> set xs \<Longrightarrow> rows_from S ys"
  unfolding rows_from_def by blast

lemma rows_from_update: "rows_from S tab \<Longrightarrow> x \<in> S \<Longrightarrow> rows_from S (cell_update x tab)"
proof -
  assume t: "rows_from S tab" and x: "x \<in> S"
  obtain b r where e: "x = (b, r)" by (cases x)
  define row where "row = (case map_of tab b of None \<Rightarrow> [] | Some row \<Rightarrow> row)"
  have "\<forall>(g, r) \<in> set row. (b, r) \<in> S"
  proof (cases "map_of tab b")
    case (Some row')
    then have "(b, row') \<in> set tab" by (rule map_of_SomeD)
    then show ?thesis using t Some by (fastforce simp: rows_from_def row_def)
  qed (simp add: row_def)
  then have "\<forall>(g, r') \<in> set (AList.update (y_guest r) r row). (b, r') \<in> S"
    using update_subset [of "y_guest r" r row] x e by auto
  then have "rows_from S ((b, AList.update (y_guest r) r row) # tab)" using t x e by (auto simp: rows_from_def)
  then have "rows_from S (AList.update b (AList.update (y_guest r) r row) tab)"
    by (rule rows_from_mono) (use update_subset [of b "AList.update (y_guest r) r row" tab] in simp)
  then show ?thesis by (simp add: cell_update_def e row_def Let_def)
qed

lemma rows_from_fold: "rows_from S tab \<Longrightarrow> set rs \<subseteq> S \<Longrightarrow> rows_from S (fold cell_update rs tab)"
  by (induction rs arbitrary: tab) (simp_all add: rows_from_update)

lemma rows_from_by_block: "rows_from (set rs) (by_block rs)"
  unfolding by_block_def by (rule rows_from_fold) (simp_all add: rows_from_def)

lemma print_one_Inr:
  assumes "\<And>b r. (b, r) \<in> set rs \<Longrightarrow> printable r \<and> (\<exists>x. row_head e b = Inr x)"
  shows "\<exists>ls. print_one e rs = Inr ls"
proof -
  let ?line = "\<lambda>(b, row). ebind (row_head e b) (\<lambda>(first, amount).
      ebind (emap (\<lambda>g. cell (map_of row g)) (guests_of rs)) (\<lambda>cells.
        Inr (''| '' @ first @ '' | '' @ amount @ '' |'' @ concat cells)))"
  have "\<exists>l. ?line x = Inr l" if mem: "x \<in> set (by_block rs)" for x
  proof -
    obtain b row where x: "x = (b, row)" by (cases x)
    have src: "\<exists>r. (b, r) \<in> set rs" "\<forall>(g, r) \<in> set row. (b, r) \<in> set rs"
      using rows_from_by_block [of rs] mem by (auto simp: rows_from_def x)
    obtain u where u: "row_head e b = Inr u" using src(1) assms by blast
    have "\<exists>s. cell (map_of row g) = Inr s" for g
      by (rule cell_Inr) (use src(2) assms in \<open>auto dest!: map_of_SomeD\<close>)
    then obtain cells where "emap (\<lambda>g. cell (map_of row g)) (guests_of rs) = Inr cells"
      using emap_Inr_ex [of "guests_of rs" "\<lambda>g. cell (map_of row g)"] by blast
    then show ?thesis using u by (cases u) (simp add: x)
  qed
  then obtain ls where l: "emap ?line (by_block rs) = Inr ls" using emap_Inr_ex [of "by_block rs" ?line] by blast
  show ?thesis unfolding print_one_def Let_def l ebind_simps by blast
qed

lemma print_table_Inr:
  assumes "\<And>b r. (b, r) \<in> set rs \<Longrightarrow> \<not> is_current e r \<and> printable r \<and> (\<exists>x. row_head e b = Inr x)"
  shows "\<exists>ls. print_table e rs = Inr ls"
proof -
  have "filter (\<lambda>(b, r). \<not> is_current e r) rs = rs" "filter (\<lambda>(b, r). is_current e r) rs = []"
    using assms by (auto simp: filter_id_conv filter_empty_conv)
  then show ?thesis using print_one_Inr [of rs e] assms by (auto simp: print_table_def)
qed

lemma make_job_Inr: "length blob < 2 ^ 64 \<Longrightarrow> \<exists>j. make_job g elf blob e tag = Inr j"
  by (simp add: make_job_def frame_def pack_u64_iff [THEN iffD2])

lemma run_grid_ex:
  assumes "\<And>j. j \<in> set js \<Longrightarrow> (\<exists>r. run_job emu j = Inr r) \<and> (\<exists>b. block_of_tag (j_tag j) = Inr b)"
  shows "\<exists>rs. run_grid emu js = Inr rs"
proof -
  obtain os where o: "emap (run_job emu) js = Inr os" using emap_Inr_ex [of js "run_job emu"] assms by blast
  have "\<exists>y. (\<lambda>(r, j). ebind (block_of_tag (j_tag j)) (\<lambda>b. Inr (b, r))) x = Inr y" if mem: "x \<in> set (zip os js)" for x
  proof -
    obtain r j where x: "x = (r, j)" by (cases x)
    then have "j \<in> set js" using mem by (auto dest: set_zip_rightD)
    then show ?thesis using assms [of j] by (auto simp: x)
  qed
  then obtain rs where "emap (\<lambda>(r, j). ebind (block_of_tag (j_tag j)) (\<lambda>b. Inr (b, r))) (zip os js) = Inr rs"
    using emap_Inr_ex [of "zip os js"] by blast
  then show ?thesis by (simp add: run_grid_def o)
qed

lemma devnet_returns:
  assumes "block_range lohi = Inr (lo, hi)" "h_current h = []"
    and "\<And>n. lo \<le> n \<Longrightarrow> n \<le> hi \<Longrightarrow> \<exists>b. read_block docs n = Inr b \<and> length (g_input b) < 2 ^ 64"
    and "\<And>j. \<exists>r. run_job emu j = Inr r \<and> printable r"
  shows "\<exists>x. cmd_devnet7 emu docs h lohi = Inr x"
proof -
  obtain bs where bs: "emap (read_block docs) [lo..hi] = Inr bs" using emap_Inr_ex [of "[lo..hi]" "read_block docs"] assms(3) by auto
  then have num: "map g_number bs = [lo..hi]" by (rule read_blocks_numbers)
  have short: "length (g_input b) < 2 ^ 64 \<and> 0 \<le> g_number b" if b: "b \<in> set bs" for b
  proof -
    have "list_all2 (\<lambda>x y. read_block docs x = Inr y) [lo..hi] bs" using bs by (simp add: emap_Inr_iff)
    from rel_mem2 [OF this b] obtain n where n: "n \<in> {lo..hi}" "read_block docs n = Inr b" by auto
    then show ?thesis using assms(3) [of n] read_block_number [OF n(2)] block_range_nonneg [OF assms(1)] by auto
  qed
  have dj: "\<exists>j. devnet_job b g elf = Inr j" if "b \<in> set bs" for b g elf
    unfolding devnet_job_def using short [OF that] by (intro make_job_Inr) simp
  have "\<exists>j. (\<lambda>(b, g, elf). devnet_job b g elf) x = Inr j" if "x \<in> set (matched_pairs h lo bs)" for x
    using dj that by (cases x) (simp add: matched_pairs_iff)
  then obtain js where js: "emap (\<lambda>(b, g, elf). devnet_job b g elf) (matched_pairs h lo bs) = Inr js"
    using emap_Inr_ex [of "matched_pairs h lo bs" "\<lambda>(b, g, elf). devnet_job b g elf"] by blast
  have tag: "\<exists>b. block_of_tag (j_tag j) = Inr b" if j: "j \<in> set js" for j
  proof -
    have "list_all2 (\<lambda>x y. (\<lambda>(b, g, elf). devnet_job b g elf) x = Inr y) (matched_pairs h lo bs) js"
      using js by (simp add: emap_Inr_iff)
    from rel_mem2 [OF this j] obtain b g elf where "(b, g, elf) \<in> set (matched_pairs h lo bs)" "devnet_job b g elf = Inr j" by auto
    then show ?thesis using devnet_job_fields [of b g elf j] block_of_devnet_tag [of "g_number b" g] short [of b]
      by (auto simp: matched_pairs_iff)
  qed
  then obtain rs where rs: "run_grid emu js = Inr rs" using run_grid_ex assms(4) by blast
  let ?gases = "map (\<lambda>b. (g_number b, g_gas b)) bs"
  have cmd: "cmd_devnet7 emu docs h lohi = ebind (print_table (Devnet7 ?gases) rs) (\<lambda>lines. Inr (?gases, rs, lines))"
    by (simp add: cmd_devnet7_def assms(1) bs matched_jobs_pairs js current_jobs_def assms(2) rs Let_def)
  have "\<not> is_current (Devnet7 ?gases) r \<and> printable r \<and> (\<exists>x. row_head (Devnet7 ?gases) b = Inr x)" if mem: "(b, r) \<in> set rs" for b r
  proof -
    have "list_all2 (\<lambda>j (b, r). run_job emu j = Inr r \<and> block_of_tag (j_tag j) = Inr b) js rs" by (rule run_grid_Inr [OF rs])
    from rel_mem2 [OF this mem] obtain j where j: "j \<in> set js" "run_job emu j = Inr r" "block_of_tag (j_tag j) = Inr b" by auto
    have "list_all2 (\<lambda>x y. (\<lambda>(b, g, elf). devnet_job b g elf) x = Inr y) (matched_pairs h lo bs) js"
      using js by (simp add: emap_Inr_iff)
    from rel_mem2 [OF this j(1)] obtain b' g elf where p: "(b', g, elf) \<in> set (matched_pairs h lo bs)" "devnet_job b' g elf = Inr j" by auto
    have b': "b' \<in> set bs" using p(1) by (simp add: matched_pairs_iff)
    have "b = g_number b'"
      using devnet_job_fields [OF p(2)] block_of_devnet_tag [of "g_number b'" g] short [OF b'] j(3) by simp
    moreover have "y_guest r = g" using run_job_guest [OF j(2)] devnet_job_fields [OF p(2)] by simp
    moreover have "map_of ?gases (g_number b') \<noteq> None" using b' by (simp add: map_of_eq_None_iff image_image)
    ultimately show ?thesis using matched_names [OF p(1)] assms(4) [of j] j(2) by (auto simp: is_current_def row_head_def)
  qed
  then obtain ls where "print_table (Devnet7 ?gases) rs = Inr ls" using print_table_Inr [of rs "Devnet7 ?gases"] by blast
  then show ?thesis by (simp add: cmd)
qed

text \<open>Two blocks and an emulator that always counts one step.\<close>

definition sample_text :: string where "sample_text = ''STEPS 1'' @ [CHR 0x0A] @ ''TOTAL 1''"

definition sample_emulator :: emulator where
  "sample_emulator elf packed = (sample_text, '''', 0, Some [7])"

definition sample_docs :: "int \<Rightarrow> block_doc option" where
  "sample_docs n = Some \<lparr>q_gas = 21000, q_input = ''0x0102'', q_output = ''0x07''\<rparr>"

definition sample_guests :: guests where
  "sample_guests = \<lparr>h_cmp = ''/c'', h_pancake = ''p.elf'', h_software = ''s.elf'', h_current = ''''\<rparr>"

lemma sample_range: "block_range ''5-6'' = Inr (5, 6)"
  by code_simp

lemmas find_defs = find_number_def number_here_def starts_def space_def digit_or_comma_def is_digit_def parse_int_def
  read_nat_def strip_commas_def Let_def

lemma sample_numbers:
  "find_number ''STEPS'' sample_text = Inr (Some 1)" "find_number ''TOTAL'' sample_text = Inr (Some 1)"
  "find_number ''MAIN'' sample_text = Inr None" "find_number ''OPCODES'' sample_text = Inr None"
  "find_number ''PRECOMPILES'' sample_text = Inr None" "find_number ''MEMORY'' sample_text = Inr None"
  "find_number ''BASE'' sample_text = Inr None"
  unfolding sample_text_def by (simp_all add: find_defs)

lemma sample_run: "\<exists>r. run_job sample_emulator j = Inr r \<and> printable r"
proof -
  have "emap (\<lambda>c. ebind (find_number c sample_text) (\<lambda>n. Inr (map lower c, n))) categories =
      Inr [(map lower ''MAIN'', None), (map lower ''OPCODES'', None), (map lower ''PRECOMPILES'', None),
        (map lower ''MEMORY'', None), (map lower ''BASE'', None), (map lower ''TOTAL'', Some 1)]"
    by (simp only: categories_def emap.simps sample_numbers ebind_simps)
  moreover have "map_of [(map lower ''MAIN'', None), (map lower ''OPCODES'', None), (map lower ''PRECOMPILES'', None),
      (map lower ''MEMORY'', None), (map lower ''BASE'', None), (map lower ''TOTAL'', Some (1 :: nat))] ''total'' = Some (Some 1)"
    by code_simp
  ultimately show ?thesis
    by (simp add: run_job_def sample_emulator_def sample_numbers printable_def)
qed

lemma sample_devnet: "\<exists>x. cmd_devnet7 sample_emulator sample_docs sample_guests ''5-6'' = Inr x"
proof (rule devnet_returns [OF sample_range _ _ sample_run])
  show "h_current sample_guests = ''''" by (simp add: sample_guests_def)
  have "fromhex ''0102'' = Inr [1, 2]" "fromhex ''07'' = Inr [7]" by (simp_all add: hex_value_def ascii_space_def)
  then show "\<exists>b. read_block sample_docs n = Inr b \<and> length (g_input b) < 2 ^ 64" for n
    by (simp add: read_block_def sample_docs_def)
qed


section \<open>The corpus\<close>

text \<open>Every client of the corpus experiment runs on the same block.  For each selected row the jobs are the four guests in
  order; the framing of each is undone by \<open>unframe\<close>, this repository's guest gets the bytes of the
  input file unchanged, the others get them converted by \<open>v21_to_v084\<close>, all are held against the expected output
  of the row, and the block read back from the tag of every job is the index of the row.\<close>

lemma corpus_row_jobs:
  assumes "corpus_row cv read base h i r = Inr (meta, jobs)"
  shows "\<exists>blob e. unframe (read (if r ! 1 \<noteq> [] \<and> hd (r ! 1) = CHR ''/'' then r ! 1 else path_join base (r ! 1))) = Inr blob \<and>
    fromhex (r ! 2) = Inr e \<and> meta = (int i, r ! 0, length blob) \<and>
    list_all2 (\<lambda>(g, elf) j. j_guest j = g \<and> j_elf j = elf \<and> j_expected j = e \<and> block_of_tag (j_tag j) = Inr (int i) \<and>
        unframe (j_packed j) = (if g = ''pancake'' then Inr blob else v21_to_v084 cv blob)) (corpus_guests h) jobs"
proof -
  let ?f = "\<lambda>blob blob2 e (g, elf). make_job g elf (if g = ''pancake'' then blob else blob2) e (''corpus-'' @ dec_nat i @ ''-'' @ g)"
  obtain blob blob2 e where u: "unframe (read (if r ! 1 \<noteq> [] \<and> hd (r ! 1) = CHR ''/'' then r ! 1 else path_join base (r ! 1))) = Inr blob"
    and v: "v21_to_v084 cv blob = Inr blob2" and e: "fromhex (r ! 2) = Inr e" and m: "meta = (int i, r ! 0, length blob)"
    and js: "emap (?f blob blob2 e) (corpus_guests h) = Inr jobs"
    using assms by (auto simp: corpus_row_def ebind_Inr_iff simp del: One_nat_def)
  have t: "block_of_tag (''corpus-'' @ dec_nat i @ ''-'' @ g) = Inr (int i)" for g
    using block_of_tag_prefix [of "''corpus''" i g] by simp
  have "list_all2 (\<lambda>x j. ?f blob blob2 e x = Inr j) (corpus_guests h) jobs" using js by (simp add: emap_Inr_iff)
  then have "list_all2 (\<lambda>(g, elf) j. j_guest j = g \<and> j_elf j = elf \<and> j_expected j = e \<and> block_of_tag (j_tag j) = Inr (int i) \<and>
        unframe (j_packed j) = (if g = ''pancake'' then Inr blob else v21_to_v084 cv blob)) (corpus_guests h) jobs"
    by (rule list_all2_mono) (use t v in \<open>auto simp: make_job_def ebind_Inr_iff dest: frame_Inr\<close>)
  then show ?thesis using u e m by blast
qed

end
